(* ===== verification/Prelude.thy ===== *)
theory Prelude
  imports Main "HOL-Library.Word"
begin

text \<open>
  Shared vocabulary of the development: the arithmetic of \<open>size_t\<close> and
  \<open>TickType_t\<close> values (32-bit unsigned on the MIPS32 target) written on \<open>nat\<close> with the
  wrap-around explicit, \<open>memcpy\<close> into and out of byte arrays, and the view of a byte array
  as a ring, which the stream buffer and the log ring both use.
\<close>

unbundle bit_operations_syntax

named_theorems u32_simps \<open>32-bit arithmetic that does not wrap\<close>
named_theorems mem_simps \<open>reading back what was copied into an array\<close>

type_synonym byte = "8 word"

section \<open>32-bit unsigned arithmetic on natural numbers\<close>

definition u32_lim :: nat where
  "u32_lim = 4294967296"

definition u32_add :: "nat \<Rightarrow> nat \<Rightarrow> nat" where
  "u32_add a b = (a + b) mod u32_lim"

definition u32_sub :: "nat \<Rightarrow> nat \<Rightarrow> nat" where
  "u32_sub a b = (a + (u32_lim - b mod u32_lim)) mod u32_lim"

lemma u32_lim_half: "u32_lim div 2 = 2147483648"
  by (simp add: u32_lim_def)

lemma u32_add_lt [simp]: "u32_add a b < u32_lim"
  by (simp add: u32_add_def u32_lim_def)

lemma u32_sub_lt [simp]: "u32_sub a b < u32_lim"
  by (simp add: u32_sub_def u32_lim_def)

lemma u32_add_small [u32_simps]: "a + b < u32_lim \<Longrightarrow> u32_add a b = a + b"
  by (simp add: u32_add_def)

lemma u32_sub_small [u32_simps]:
  assumes "b \<le> a" "a < u32_lim"
  shows "u32_sub a b = a - b"
proof -
  have "a + (u32_lim - b) = (a - b) + u32_lim" using assms by simp
  then have "(a + (u32_lim - b)) mod u32_lim = (a - b) mod u32_lim"
    by (metis mod_add_self2)
  with assms show ?thesis by (simp add: u32_sub_def)
qed

text \<open>\<open>a + b - c\<close> is exact as soon as the result is, even when \<open>a + b\<close> wraps.\<close>

lemma u32_add_sub_small [u32_simps]:
  assumes "c \<le> a + b" "a + b - c < u32_lim" "c < u32_lim"
  shows "u32_sub (u32_add a b) c = a + b - c"
proof -
  have "((a + b) mod u32_lim + (u32_lim - c)) mod u32_lim = (a + b + (u32_lim - c)) mod u32_lim"
    by (simp only: mod_add_left_eq)
  also have "a + b + (u32_lim - c) = (a + b - c) + u32_lim" using assms by linarith
  also have "\<dots> mod u32_lim = (a + b - c) mod u32_lim" by (rule mod_add_self2)
  also have "\<dots> = a + b - c" using assms by simp
  finally show ?thesis using \<open>c < u32_lim\<close> by (simp add: u32_sub_def u32_add_def)
qed

text \<open>Adding a negative difference, as in \<open>index += n - len\<close>.\<close>

lemma u32_add_diff_small [u32_simps]:
  assumes "b \<le> w + a" "w + a - b < u32_lim" "b < u32_lim"
  shows "u32_add w (u32_sub a b) = w + a - b"
proof -
  have "u32_add w (u32_sub a b) = (w + (a + (u32_lim - b))) mod u32_lim"
    using assms(3) by (simp add: u32_add_def u32_sub_def mod_add_right_eq)
  also have "w + (a + (u32_lim - b)) = (w + a - b) + u32_lim" using assms by linarith
  finally show ?thesis using assms(2) by simp
qed

text \<open>A \<open>size_t\<close> value returned through an \<open>int\<close>.\<close>

definition u32_to_int :: "nat \<Rightarrow> int" where
  "u32_to_int n = (if n < u32_lim div 2 then int n else int n - int u32_lim)"

section \<open>Copying into and out of arrays\<close>

text \<open>
  \<open>mem_write buf i xs\<close> is \<open>memcpy(buf + i, xs, length xs)\<close> and \<open>mem_read buf i n\<close> the bytes
  \<open>memcpy(dst, buf + i, n)\<close> delivers. The callers keep \<open>i + n\<close> within the array; the
  components prove that they do.
\<close>

definition mem_write :: "'a list \<Rightarrow> nat \<Rightarrow> 'a list \<Rightarrow> 'a list" where
  "mem_write buf i xs = take i buf @ xs @ drop (i + length xs) buf"

definition mem_read :: "'a list \<Rightarrow> nat \<Rightarrow> nat \<Rightarrow> 'a list" where
  "mem_read buf i n = take n (drop i buf)"

lemma length_mem_write [mem_simps]:
  "i + length xs \<le> length buf \<Longrightarrow> length (mem_write buf i xs) = length buf"
  by (simp add: mem_write_def)

lemma length_mem_read [mem_simps]:
  "i + n \<le> length buf \<Longrightarrow> length (mem_read buf i n) = n"
  by (simp add: mem_read_def)

lemma nth_mem_write [mem_simps]:
  "i + length xs \<le> length buf \<Longrightarrow> j < length buf \<Longrightarrow>
   mem_write buf i xs ! j = (if i \<le> j \<and> j < i + length xs then xs ! (j - i) else buf ! j)"
  by (auto simp: mem_write_def nth_append)

lemma nth_mem_read [mem_simps]:
  "k < n \<Longrightarrow> i + n \<le> length buf \<Longrightarrow> mem_read buf i n ! k = buf ! (i + k)"
  by (simp add: mem_read_def)

lemma mem_write_Nil [mem_simps]: "mem_write buf i [] = buf"
  by (simp add: mem_write_def)

lemma mem_read_0 [mem_simps]: "mem_read buf i 0 = []"
  by (simp add: mem_read_def)

lemma mem_read_write_same [mem_simps]:
  "i \<le> length buf \<Longrightarrow> mem_read (mem_write buf i xs) i (length xs) = xs"
  by (simp add: mem_write_def mem_read_def)

lemma mem_read_write_other:
  assumes "i + length xs \<le> length buf" "j + n \<le> i \<or> i + length xs \<le> j" "j + n \<le> length buf"
  shows "mem_read (mem_write buf i xs) j n = mem_read buf j n"
  using assms by (intro nth_equalityI) (auto simp: mem_simps)

section \<open>Arrays used as rings\<close>

text \<open>
  \<open>ring_seg buf pos n\<close> is the sequence of \<open>n\<close> elements that starts at index \<open>pos\<close> and wraps
  at the end of the array: the abstract content of a ring buffer.
\<close>

definition ring_seg :: "'a list \<Rightarrow> nat \<Rightarrow> nat \<Rightarrow> 'a list" where
  "ring_seg buf pos n = map (\<lambda>k. buf ! ((pos + k) mod length buf)) [0..<n]"

text \<open>The position after advancing by \<open>n \<le> len\<close> from \<open>pos < len\<close>, as the code computes it.\<close>

definition ring_adv :: "nat \<Rightarrow> nat \<Rightarrow> nat \<Rightarrow> nat" where
  "ring_adv len pos n = (if pos + n < len then pos + n else pos + n - len)"

lemma ring_adv_mod: "pos < len \<Longrightarrow> n \<le> len \<Longrightarrow> ring_adv len pos n = (pos + n) mod len"
  by (auto simp: ring_adv_def mod_if)

lemma ring_adv_lt [simp]: "pos < len \<Longrightarrow> n \<le> len \<Longrightarrow> ring_adv len pos n < len"
  by (auto simp: ring_adv_def)

lemma length_ring_seg [simp]: "length (ring_seg buf pos n) = n"
  by (simp add: ring_seg_def)

lemma ring_seg_0 [simp]: "ring_seg buf pos 0 = []"
  by (simp add: ring_seg_def)

lemma nth_ring_seg [simp]: "k < n \<Longrightarrow> ring_seg buf pos n ! k = buf ! ((pos + k) mod length buf)"
  by (simp add: ring_seg_def)

lemma ring_seg_mod: "ring_seg buf (pos mod length buf) n = ring_seg buf pos n"
  by (simp add: ring_seg_def mod_add_left_eq)

lemma ring_seg_add: "ring_seg buf pos (m + n) = ring_seg buf pos m @ ring_seg buf (pos + m) n"
  by (rule nth_equalityI) (auto simp: nth_append add.assoc)

lemma take_ring_seg: "m \<le> n \<Longrightarrow> take m (ring_seg buf pos n) = ring_seg buf pos m"
  by (simp add: ring_seg_def take_map)

lemma drop_ring_seg:
  assumes "m \<le> n"
  shows "drop m (ring_seg buf pos n) = ring_seg buf (pos + m) (n - m)"
  using ring_seg_add [of buf pos m "n - m"] assms by simp

lemma drop_ring_seg_adv:
  assumes "m \<le> n" "pos < length buf" "m \<le> length buf"
  shows "drop m (ring_seg buf pos n) = ring_seg buf (ring_adv (length buf) pos m) (n - m)"
  using assms by (simp add: drop_ring_seg ring_adv_mod ring_seg_mod)

text \<open>Reading \<open>n\<close> bytes in at most two pieces, the second from the start of the array.\<close>

lemma ring_seg_two_reads:
  assumes "pos < length buf" "n \<le> length buf"
  shows "ring_seg buf pos n =
    mem_read buf pos (min (length buf - pos) n) @ mem_read buf 0 (n - min (length buf - pos) n)"
proof (rule nth_equalityI)
  show "length (ring_seg buf pos n) = length (mem_read buf pos (min (length buf - pos) n) @
      mem_read buf 0 (n - min (length buf - pos) n))"
    using assms by (simp add: mem_simps)
next
  fix k assume "k < length (ring_seg buf pos n)"
  then have k: "k < n" by simp
  show "ring_seg buf pos n ! k = (mem_read buf pos (min (length buf - pos) n) @
      mem_read buf 0 (n - min (length buf - pos) n)) ! k"
  proof (cases "pos + k < length buf")
    case True
    with k assms show ?thesis by (simp add: nth_append mem_simps less_diff_conv add.commute)
  next
    case False
    then have "(pos + k) mod length buf = pos + k - length buf"
      using assms k by (simp add: mod_if)
    moreover have "pos + k - length buf = k - (length buf - pos)" "\<not> k < length buf - pos"
      using False assms by simp_all
    moreover have "k - (length buf - pos) < n - (length buf - pos)" "length buf - pos \<le> n"
      using False k assms by simp_all
    ultimately show ?thesis using k assms
      by (simp add: nth_append mem_simps min_absorb1)
  qed
qed

text \<open>Writing in at most two pieces; \<open>ring_put\<close> is what both rings' write code computes.\<close>

definition ring_put :: "'a list \<Rightarrow> nat \<Rightarrow> 'a list \<Rightarrow> 'a list" where
  "ring_put buf pos xs =
     (let k = min (length buf - pos) (length xs)
      in mem_write (mem_write buf pos (take k xs)) 0 (drop k xs))"

lemma length_ring_put [simp]:
  "pos < length buf \<Longrightarrow> length xs \<le> length buf \<Longrightarrow> length (ring_put buf pos xs) = length buf"
  by (simp add: ring_put_def Let_def mem_write_def)

lemma nth_ring_put:
  assumes "pos < length buf" "length xs \<le> length buf" "j < length buf"
  shows "ring_put buf pos xs ! j =
    (if pos \<le> j \<and> j < pos + length xs then xs ! (j - pos)
     else if j + length buf < pos + length xs then xs ! (j + length buf - pos)
     else buf ! j)"
  using assms
  by (auto simp: ring_put_def Let_def mem_simps min_def nth_append
      intro!: arg_cong [where f = "\<lambda>i. xs ! i"])

lemma ring_seg_put:
  assumes "pos < length buf" "n + length xs \<le> length buf"
  shows "ring_seg (ring_put buf (ring_adv (length buf) pos n) xs) pos (n + length xs) =
         ring_seg buf pos n @ xs"
proof (rule nth_equalityI)
  let ?len = "length buf" and ?w = "ring_adv (length buf) pos n"
  have w: "?w < ?len" using assms by simp
  have len: "length (ring_put buf ?w xs) = ?len" using w assms by simp
  show "length (ring_seg (ring_put buf ?w xs) pos (n + length xs)) =
        length (ring_seg buf pos n @ xs)" by simp
  fix k assume "k < length (ring_seg (ring_put buf ?w xs) pos (n + length xs))"
  then have k: "k < n + length xs" by simp
  have j: "(pos + k) mod ?len = (if pos + k < ?len then pos + k else pos + k - ?len)"
    using assms k by (auto simp: mod_if)
  have jl: "(pos + k) mod ?len < ?len" using assms(1) by (intro mod_less_divisor) linarith
  show "ring_seg (ring_put buf ?w xs) pos (n + length xs) ! k = (ring_seg buf pos n @ xs) ! k"
  proof (cases "k < n")
    case True
    then show ?thesis using k jl w assms
      by (simp add: nth_append len nth_ring_put) (auto simp: j ring_adv_def)
  next
    case False
    then have "ring_put buf ?w xs ! ((pos + k) mod ?len) = xs ! (k - n)"
      using k jl w assms
      by (simp add: nth_ring_put)
        (auto simp: j ring_adv_def split: if_splits intro!: arg_cong [where f = "\<lambda>i. xs ! i"])
    with False k show ?thesis by (simp add: nth_append len)
  qed
qed

section \<open>Numbers as bytes\<close>

text \<open>A 32-bit number in the byte order of the little-endian target.\<close>

definition le32_bytes :: "nat \<Rightarrow> byte list" where
  "le32_bytes n = map (\<lambda>i. word_of_nat (n div 256 ^ i)) [0..<4]"

definition le32_value :: "byte list \<Rightarrow> nat" where
  "le32_value bs = (\<Sum>i<4. unat (bs ! i) * 256 ^ i)"

lemma length_le32_bytes [simp]: "length (le32_bytes n) = 4"
  by (simp add: le32_bytes_def)

lemma le32_round_trip:
  assumes "n < u32_lim"
  shows "le32_value (le32_bytes n) = n"
proof -
  have i: "{..<4::nat} = {0, 1, 2, 3}" "[0..<4] = [0, 1, 2, 3::nat]"
    by (auto simp: upt_rec)
  have "le32_value (le32_bytes n) = n mod 256 + (n div 256 mod 256) * 256 +
      (n div 65536 mod 256) * 65536 + (n div 16777216 mod 256) * 16777216"
    by (simp add: le32_value_def le32_bytes_def i unsigned_of_nat take_bit_eq_mod)
  moreover have "n div 65536 = n div 256 div 256" "n div 16777216 = n div 256 div 256 div 256"
    by (simp_all add: div_mult2_eq [symmetric])
  moreover have "n div 16777216 mod 256 = n div 16777216"
    using assms by (simp add: u32_lim_def)
  ultimately have v: "le32_value (le32_bytes n) = n mod 256 + (n div 256 mod 256) * 256 +
      (n div 256 div 256 mod 256) * 65536 + (n div 256 div 256 div 256) * 16777216"
    by metis
  have digits: "r0 + r1 * 256 + r2 * 65536 + q3 * 16777216 = n"
    if "q1 * 256 + r0 = n" "q2 * 256 + r1 = q1" "q3 * 256 + r2 = q2" for q1 q2 q3 r0 r1 r2 :: nat
    using that by linarith
  show ?thesis unfolding v
    by (rule digits) (rule div_mult_mod_eq)+
qed

end
