(* ===== verification/RtosList.thy ===== *)
theory RtosList
  imports Prelude "HOL-Library.Multiset"
begin

text \<open>
  The kernel's intrusive doubly linked lists (\<open>freertos/list.c\<close> and the macros of
  \<open>freertos/include/freertos/list.h\<close>). The items and the end markers live in one heap, so
  that the pointer updates alias exactly as in the code; \<open>wf_list\<close> says which item
  sequence a list structure represents, and every operation is shown to implement the
  corresponding operation on sequences while leaving all other lists alone.
\<close>

section \<open>The heap of list structures\<close>

text \<open>
  An address of a \<open>ListItem_t\<close>: an item of its own, or the \<open>xListEnd\<close> marker embedded in
  list \<open>l\<close> (the code casts \<open>&pxList->xListEnd\<close> to \<open>ListItem_t *\<close>).
\<close>

datatype node = Item nat | ListEnd nat

record list_item =
  xItemValue :: nat
  pxNext :: node
  pxPrevious :: node
  pvOwner :: nat
  pxContainer :: "nat option"

record xlist =
  uxNumberOfItems :: nat
  pxIndex :: node

record list_heap =
  items :: "node \<Rightarrow> list_item"
  lists :: "nat \<Rightarrow> xlist"

definition portMAX_DELAY :: nat where
  "portMAX_DELAY = 4294967295"

abbreviation nxt :: "list_heap \<Rightarrow> node \<Rightarrow> node" where
  "nxt h a \<equiv> pxNext (items h a)"

abbreviation prv :: "list_heap \<Rightarrow> node \<Rightarrow> node" where
  "prv h a \<equiv> pxPrevious (items h a)"

abbreviation val :: "list_heap \<Rightarrow> node \<Rightarrow> nat" where
  "val h a \<equiv> xItemValue (items h a)"

abbreviation cont :: "list_heap \<Rightarrow> node \<Rightarrow> nat option" where
  "cont h a \<equiv> pxContainer (items h a)"

text \<open>Assignments through a pointer: \<open>a->pxNext = b\<close> and so on.\<close>

definition set_next :: "node \<Rightarrow> node \<Rightarrow> list_heap \<Rightarrow> list_heap" where
  "set_next a b h = h\<lparr>items := (items h)(a := (items h a)\<lparr>pxNext := b\<rparr>)\<rparr>"

definition set_prev :: "node \<Rightarrow> node \<Rightarrow> list_heap \<Rightarrow> list_heap" where
  "set_prev a b h = h\<lparr>items := (items h)(a := (items h a)\<lparr>pxPrevious := b\<rparr>)\<rparr>"

definition set_cont :: "node \<Rightarrow> nat option \<Rightarrow> list_heap \<Rightarrow> list_heap" where
  "set_cont a c h = h\<lparr>items := (items h)(a := (items h a)\<lparr>pxContainer := c\<rparr>)\<rparr>"

definition set_value :: "node \<Rightarrow> nat \<Rightarrow> list_heap \<Rightarrow> list_heap" where
  "set_value a v h = h\<lparr>items := (items h)(a := (items h a)\<lparr>xItemValue := v\<rparr>)\<rparr>"

definition set_index :: "nat \<Rightarrow> node \<Rightarrow> list_heap \<Rightarrow> list_heap" where
  "set_index l a h = h\<lparr>lists := (lists h)(l := (lists h l)\<lparr>pxIndex := a\<rparr>)\<rparr>"

definition set_count :: "nat \<Rightarrow> nat \<Rightarrow> list_heap \<Rightarrow> list_heap" where
  "set_count l n h = h\<lparr>lists := (lists h)(l := (lists h l)\<lparr>uxNumberOfItems := n\<rparr>)\<rparr>"

lemmas heap_defs = set_next_def set_prev_def set_cont_def set_value_def set_index_def set_count_def

section \<open>The operations\<close>

definition vListInitialise :: "nat \<Rightarrow> list_heap \<Rightarrow> list_heap" where
  "vListInitialise l h =
     (let e = ListEnd l;
          h = set_index l e h;
          h = set_value e portMAX_DELAY h;
          h = set_next e e h;
          h = set_prev e e h
      in set_count l 0 h)"

definition vListInitialiseItem :: "nat \<Rightarrow> list_heap \<Rightarrow> list_heap" where
  "vListInitialiseItem x h = set_cont (Item x) None h"

definition vListInsertEnd :: "nat \<Rightarrow> nat \<Rightarrow> list_heap \<Rightarrow> list_heap" where
  "vListInsertEnd l x h =
     (let idx = pxIndex (lists h l);
          h = set_next (Item x) idx h;
          h = set_prev (Item x) (prv h idx) h;
          h = set_next (prv h idx) (Item x) h;
          h = set_prev idx (Item x) h;
          h = set_cont (Item x) (Some l) h
      in set_count l (u32_add (uxNumberOfItems (lists h l)) 1) h)"

text \<open>
  The iteration of \<open>vListInsert\<close>: \<open>for (it = &xListEnd; it->pxNext->xItemValue <= v; it = it->pxNext)\<close>.
  It does not stop when no item value exceeds \<open>v\<close>; not returning is \<open>None\<close>.
\<close>

partial_function (option) insert_scan :: "list_heap \<Rightarrow> nat \<Rightarrow> node \<Rightarrow> node option" where
  "insert_scan h v it =
     (if val h (nxt h it) \<le> v then insert_scan h v (nxt h it) else Some it)"

definition vListInsert :: "nat \<Rightarrow> nat \<Rightarrow> list_heap \<Rightarrow> list_heap option" where
  "vListInsert l x h =
     (let v = val h (Item x) in
      case (if v = portMAX_DELAY then Some (prv h (ListEnd l)) else insert_scan h v (ListEnd l)) of
        None \<Rightarrow> None
      | Some it \<Rightarrow>
         (let h = set_next (Item x) (nxt h it) h;
              h = set_prev (nxt h (Item x)) (Item x) h;
              h = set_prev (Item x) it h;
              h = set_next it (Item x) h;
              h = set_cont (Item x) (Some l) h
          in Some (set_count l (u32_add (uxNumberOfItems (lists h l)) 1) h)))"


text \<open>The macros of \<open>list.h\<close> that the kernel reads lists with.\<close>

definition listLIST_IS_EMPTY :: "nat \<Rightarrow> list_heap \<Rightarrow> bool" where
  "listLIST_IS_EMPTY l h = (uxNumberOfItems (lists h l) = 0)"

definition listCURRENT_LIST_LENGTH :: "nat \<Rightarrow> list_heap \<Rightarrow> nat" where
  "listCURRENT_LIST_LENGTH l h = uxNumberOfItems (lists h l)"

definition listGET_HEAD_ENTRY :: "nat \<Rightarrow> list_heap \<Rightarrow> node" where
  "listGET_HEAD_ENTRY l h = nxt h (ListEnd l)"

definition listGET_ITEM_VALUE_OF_HEAD_ENTRY :: "nat \<Rightarrow> list_heap \<Rightarrow> nat" where
  "listGET_ITEM_VALUE_OF_HEAD_ENTRY l h = val h (nxt h (ListEnd l))"

definition listGET_OWNER_OF_HEAD_ENTRY :: "nat \<Rightarrow> list_heap \<Rightarrow> nat" where
  "listGET_OWNER_OF_HEAD_ENTRY l h = pvOwner (items h (nxt h (ListEnd l)))"


definition listGET_OWNER_OF_NEXT_ENTRY :: "nat \<Rightarrow> list_heap \<Rightarrow> list_heap \<times> nat" where
  "listGET_OWNER_OF_NEXT_ENTRY l h =
     (let h = set_index l (nxt h (pxIndex (lists h l))) h;
          h = (if pxIndex (lists h l) = ListEnd l
               then set_index l (nxt h (pxIndex (lists h l))) h else h)
      in (h, pvOwner (items h (pxIndex (lists h l)))))"

section \<open>What a list structure represents\<close>

text \<open>A doubly linked path from \<open>a\<close> to \<open>b\<close> whose interior nodes are the given ones.\<close>

fun dseg :: "(node \<Rightarrow> node) \<Rightarrow> (node \<Rightarrow> node) \<Rightarrow> node \<Rightarrow> node list \<Rightarrow> node \<Rightarrow> bool" where
  "dseg n p a [] b = (n a = b \<and> p b = a)"
| "dseg n p a (x # xs) b = (n a = x \<and> p x = a \<and> dseg n p x xs b)"

definition wf_list :: "list_heap \<Rightarrow> nat \<Rightarrow> nat list \<Rightarrow> bool" where
  "wf_list h l xs \<longleftrightarrow>
     distinct xs \<and> length xs < u32_lim \<and>
     dseg (nxt h) (prv h) (ListEnd l) (map Item xs) (ListEnd l) \<and>
     uxNumberOfItems (lists h l) = length xs \<and>
     pxIndex (lists h l) \<in> insert (ListEnd l) (Item ` set xs) \<and>
     val h (ListEnd l) = portMAX_DELAY \<and>
     (\<forall>x \<in> set xs. val h (Item x) \<le> portMAX_DELAY) \<and>
     (\<forall>x. cont h (Item x) = Some l \<longleftrightarrow> x \<in> set xs)"

lemma dseg_frame:
  assumes "dseg n p a xs b"
    and "\<forall>c \<in> set (a # xs). n' c = n c" "\<forall>c \<in> set (xs @ [b]). p' c = p c"
  shows "dseg n' p' a xs b"
  using assms by (induction xs arbitrary: a) auto

lemma dseg_append:
  "dseg n p a (xs @ c # ys) b \<longleftrightarrow> dseg n p a xs c \<and> dseg n p c ys b"
  by (induction xs arbitrary: a) auto

lemma dseg_next_last: "dseg n p a xs b \<Longrightarrow> p b = last (a # xs)"
  by (induction xs arbitrary: a) (auto split: if_splits)

lemma dseg_hd: "dseg n p a xs b \<Longrightarrow> n a = hd (xs @ [b])"
  by (cases xs) auto

text \<open>Linking a fresh node in between \<open>last (a # as)\<close> and \<open>hd (bs @ [b])\<close>.\<close>

lemma dseg_insert:
  assumes seg: "dseg n p a (as @ bs) b"
    and dist: "distinct (a # as @ bs)" "distinct (as @ bs @ [b])"
    and x: "x \<notin> set (a # as @ bs @ [b])"
    and n': "\<And>c. n' c = (if c = x then hd (bs @ [b]) else if c = last (a # as) then x else n c)"
    and p': "\<And>c. p' c = (if c = x then last (a # as) else if c = hd (bs @ [b]) then x else p c)"
  shows "dseg n' p' a (as @ x # bs) b"
  using seg dist x n' p'
proof (induction as arbitrary: a)
  case Nil
  have "hd (bs @ [b]) \<noteq> x" using Nil.prems(4) by (cases bs) auto
  then have na: "n' a = x" "n' x = hd (bs @ [b])" "p' x = a" "p' (hd (bs @ [b])) = x"
    using Nil.prems(4-6) by auto
  show ?case
  proof (cases bs)
    case Nil
    with na show ?thesis by simp
  next
    case (Cons c cs)
    have "dseg n p c cs b" using Nil.prems(1) Cons by simp
    then have "dseg n' p' c cs b"
      by (rule dseg_frame) (use Nil.prems Cons in auto)
    with na Cons show ?thesis by simp
  qed
next
  case (Cons y ys)
  have seg: "dseg n p y (ys @ bs) b" "n a = y" "p y = a" using Cons.prems(1) by auto
  have "n' c = (if c = x then hd (bs @ [b]) else if c = last (y # ys) then x else n c)" for c
    using Cons.prems(5) by simp
  moreover have "p' c = (if c = x then last (y # ys) else if c = hd (bs @ [b]) then x else p c)" for c
    using Cons.prems(6) by simp
  ultimately have rest: "dseg n' p' y (ys @ x # bs) b"
    using Cons.prems(2,3,4) by (intro Cons.IH [OF seg(1)]) auto
  have "last (y # ys) \<noteq> a" using Cons.prems(2) by (metis append_Cons distinct.simps(2) in_set_conv_decomp last_in_set list.distinct(1) UnI1 set_append)
  moreover have "hd (bs @ [b]) \<noteq> y" using Cons.prems(3) by (cases bs) auto
  ultimately have na: "n' a = y" and py: "p' y = a"
    using Cons.prems(4,5,6) seg by auto
  show ?case by (simp only: append_Cons dseg.simps na py rest simp_thms)
qed


section \<open>The operations on sequences\<close>

text \<open>
  Where \<open>vListInsert\<close> puts an item: behind every leading item whose value does not exceed
  its own, so after its equals; and where \<open>vListInsertEnd\<close> puts one: just before the node
  \<open>pxIndex\<close> points to, which makes it the last to be visited by the round robin.
\<close>

definition insert_by :: "('i \<Rightarrow> nat) \<Rightarrow> 'i \<Rightarrow> 'i list \<Rightarrow> 'i list" where
  "insert_by f x xs = takeWhile (\<lambda>y. f y \<le> f x) xs @ x # dropWhile (\<lambda>y. f y \<le> f x) xs"

fun insert_before :: "node \<Rightarrow> nat \<Rightarrow> nat list \<Rightarrow> nat list" where
  "insert_before (ListEnd l) x xs = xs @ [x]"
| "insert_before (Item y) x xs = takeWhile (\<lambda>z. z \<noteq> y) xs @ x # dropWhile (\<lambda>z. z \<noteq> y) xs"

lemma set_insert_by [simp]: "set (insert_by f x xs) = insert x (set xs)"
  by (simp add: insert_by_def) (metis Un_insert_right set_append takeWhile_dropWhile_id)

lemma length_insert_by [simp]: "length (insert_by f x xs) = Suc (length xs)"
  by (simp add: insert_by_def) (metis add_Suc_right length_append takeWhile_dropWhile_id)

lemma sorted_insert_by:
  assumes "sorted (map f xs)"
  shows "sorted (map f (insert_by f x xs))"
  using assms
proof (induction xs)
  case Nil
  then show ?case by (simp add: insert_by_def)
next
  case (Cons y ys)
  then show ?case
    by (auto simp: insert_by_def dest: set_takeWhileD set_dropWhileD split: if_splits)
qed

lemma sorted_dropWhile_above:
  "sorted (map f xs) \<Longrightarrow> y \<in> set (dropWhile (\<lambda>y. f y \<le> v) xs) \<Longrightarrow> (v::nat) < f y"
proof (induction xs)
  case Nil
  then show ?case by simp
next
  case (Cons x xs)
  show ?case
  proof (cases "f x \<le> v")
    case True
    with Cons show ?thesis by simp
  next
    case False
    with Cons.prems show ?thesis by fastforce
  qed
qed


lemma insert_by_hd: "insert_by f x xs \<noteq> [] \<and>
    hd (insert_by f x xs) = (if xs = [] \<or> f x < f (hd xs) then x else hd xs)"
  by (cases xs) (auto simp: insert_by_def)

section \<open>Each operation implements its sequence operation\<close>

lemma Item_distinct [simp]: "distinct (map Item xs) = distinct xs"
  by (simp add: distinct_map inj_on_def)

lemma wf_list_prev_last: "wf_list h l xs \<Longrightarrow> prv h (ListEnd l) = last (ListEnd l # map Item xs)"
  unfolding wf_list_def using dseg_next_last by blast

lemma wf_list_next_hd: "wf_list h l xs \<Longrightarrow> nxt h (ListEnd l) = hd (map Item xs @ [ListEnd l])"
  unfolding wf_list_def using dseg_hd by blast

lemma wf_list_split_prev:
  assumes "wf_list h l (as @ y # bs)"
  shows "prv h (Item y) = last (ListEnd l # map Item as)"
    and "nxt h (Item y) = hd (map Item bs @ [ListEnd l])"
  using assms dseg_next_last dseg_hd by (fastforce simp: wf_list_def dseg_append)+

lemma last_in_list: "last (ListEnd l # map Item as) \<in> insert (ListEnd l) (Item ` set as)"
  by (cases as rule: rev_cases) auto

lemma hd_in_list: "hd (map Item bs @ [ListEnd l]) \<in> insert (ListEnd l) (Item ` set bs)"
  by (cases bs) auto

text \<open>The common effect of the two insertions, and of the removal.\<close>

definition linked :: "list_heap \<Rightarrow> list_heap \<Rightarrow> nat \<Rightarrow> nat \<Rightarrow> node \<Rightarrow> node \<Rightarrow> bool" where
  "linked h h' l x a b \<longleftrightarrow>
     (\<forall>c. nxt h' c = (if c = Item x then b else if c = a then Item x else nxt h c)) \<and>
     (\<forall>c. prv h' c = (if c = Item x then a else if c = b then Item x else prv h c)) \<and>
     (\<forall>c. val h' c = val h c) \<and> (\<forall>c. pvOwner (items h' c) = pvOwner (items h c)) \<and>
     (\<forall>c. cont h' c = (if c = Item x then Some l else cont h c)) \<and>
     (\<forall>m. pxIndex (lists h' m) = pxIndex (lists h m)) \<and>
     (\<forall>m. uxNumberOfItems (lists h' m) =
        (if m = l then u32_add (uxNumberOfItems (lists h l)) 1 else uxNumberOfItems (lists h m)))"

lemma wf_list_linked:
  assumes wf: "wf_list h l (as @ bs)" and x: "cont h (Item x) = None"
    and v: "val h (Item x) \<le> portMAX_DELAY" and len: "Suc (length (as @ bs)) < u32_lim"
    and ln: "linked h h' l x (last (ListEnd l # map Item as)) (hd (map Item bs @ [ListEnd l]))"
  shows "wf_list h' l (as @ x # bs)"
proof -
  have nx: "x \<notin> set (as @ bs)" using wf x unfolding wf_list_def by (metis option.distinct(1))
  have seg: "dseg (nxt h) (prv h) (ListEnd l) (map Item as @ map Item bs) (ListEnd l)"
    and d: "distinct (as @ bs)" using wf by (auto simp: wf_list_def)
  have "distinct (map Item as @ map Item bs)"
    using d by (metis Item_distinct map_append)
  then have "distinct (ListEnd l # map Item as @ map Item bs)"
    "distinct (map Item as @ map Item bs @ [ListEnd l])" by auto
  then have "dseg (nxt h') (prv h') (ListEnd l) (map Item as @ Item x # map Item bs) (ListEnd l)"
    using nx ln by (intro dseg_insert [OF seg]) (auto simp: linked_def)
  then show ?thesis
    using wf ln nx d v len by (auto simp: wf_list_def linked_def u32_simps)
qed

lemma wf_list_linked_other:
  assumes wf: "wf_list h m ys" and "m \<noteq> l" and x: "cont h (Item x) = None"
    and a: "a \<in> insert (ListEnd l) (Item ` {i. cont h (Item i) = Some l})"
    and b: "b \<in> insert (ListEnd l) (Item ` {i. cont h (Item i) = Some l})"
    and ln: "linked h h' l x a b"
  shows "wf_list h' m ys"
proof -
  have iff: "\<And>i. cont h (Item i) = Some m \<longleftrightarrow> i \<in> set ys" using wf by (simp add: wf_list_def)
  have "Item x \<notin> set (map Item ys)" using iff [of x] x by auto
  moreover have "\<And>i. i \<in> set ys \<Longrightarrow> cont h (Item i) \<noteq> Some l"
    using iff \<open>m \<noteq> l\<close> by (metis option.inject)
  then have "a \<notin> set (ListEnd m # map Item ys)" "b \<notin> set (map Item ys @ [ListEnd m])"
    using a b \<open>m \<noteq> l\<close> by auto
  ultimately have "dseg (nxt h') (prv h') (ListEnd m) (map Item ys) (ListEnd m)"
    using wf ln by (auto simp: wf_list_def linked_def intro!: dseg_frame [of "nxt h" "prv h"])
  moreover have "distinct ys \<and> length ys < u32_lim \<and>
     uxNumberOfItems (lists h' m) = length ys \<and>
     pxIndex (lists h' m) \<in> insert (ListEnd m) (Item ` set ys) \<and>
     val h' (ListEnd m) = portMAX_DELAY \<and>
     (\<forall>y \<in> set ys. val h' (Item y) \<le> portMAX_DELAY) \<and>
     (\<forall>y. cont h' (Item y) = Some m \<longleftrightarrow> y \<in> set ys)"
    using wf ln \<open>m \<noteq> l\<close> x iff [of x] by (simp add: wf_list_def linked_def)
  ultimately show ?thesis by (simp add: wf_list_def)
qed

text \<open>A set of lists over one heap, with the sequences they represent.\<close>

definition heap_rep :: "nat set \<Rightarrow> list_heap \<Rightarrow> (nat \<Rightarrow> nat list) \<Rightarrow> bool" where
  "heap_rep L h \<alpha> \<longleftrightarrow> (\<forall>l \<in> L. wf_list h l (\<alpha> l))"

lemma heap_rep_linked:
  assumes rep: "heap_rep L h \<alpha>" and l: "l \<in> L" "\<alpha> l = as @ bs" and x: "cont h (Item x) = None"
    and v: "val h (Item x) \<le> portMAX_DELAY" and len: "Suc (length (\<alpha> l)) < u32_lim"
    and ln: "linked h h' l x (last (ListEnd l # map Item as)) (hd (map Item bs @ [ListEnd l]))"
  shows "heap_rep L h' (\<alpha>(l := as @ x # bs))"
proof -
  have wf: "wf_list h l (as @ bs)" using rep l by (auto simp: heap_rep_def)
  have on: "set (as @ bs) = {i. cont h (Item i) = Some l}" using wf by (auto simp: wf_list_def)
  have "wf_list h' l (as @ x # bs)" using wf_list_linked [OF wf x v _ ln] len l by simp
  moreover have "wf_list h' m (\<alpha> m)" if "m \<in> L" "m \<noteq> l" for m
  proof (rule wf_list_linked_other [OF _ \<open>m \<noteq> l\<close> x _ _ ln])
    show "wf_list h m (\<alpha> m)" using rep that by (simp add: heap_rep_def)
    show "last (ListEnd l # map Item as) \<in> insert (ListEnd l) (Item ` {i. cont h (Item i) = Some l})"
      using last_in_list [of l as] on by auto
    show "hd (map Item bs @ [ListEnd l]) \<in> insert (ListEnd l) (Item ` {i. cont h (Item i) = Some l})"
      using hd_in_list [of bs l] on by auto
  qed
  ultimately show ?thesis by (simp add: heap_rep_def)
qed

lemma vListInsertEnd_linked:
  assumes "pxIndex (lists h l) \<noteq> Item x" "prv h (pxIndex (lists h l)) \<noteq> Item x"
  shows "linked h (vListInsertEnd l x h) l x (prv h (pxIndex (lists h l))) (pxIndex (lists h l))"
  using assms by (auto simp: linked_def vListInsertEnd_def heap_defs Let_def)

lemma vListInsertEnd_rep:
  assumes rep: "heap_rep L h \<alpha>" and l: "l \<in> L" and x: "cont h (Item x) = None"
    and v: "val h (Item x) \<le> portMAX_DELAY" and len: "Suc (length (\<alpha> l)) < u32_lim"
  shows "heap_rep L (vListInsertEnd l x h) (\<alpha>(l := insert_before (pxIndex (lists h l)) x (\<alpha> l)))"
proof -
  let ?idx = "pxIndex (lists h l)" and ?xs = "\<alpha> l"
  have wf: "wf_list h l ?xs" using rep l by (simp add: heap_rep_def)
  have nx: "x \<notin> set ?xs" using wf x unfolding wf_list_def by (metis option.distinct(1))
  have idx: "?idx \<in> insert (ListEnd l) (Item ` set ?xs)" using wf by (simp add: wf_list_def)
  obtain as bs where split: "?xs = as @ bs" "?idx = hd (map Item bs @ [ListEnd l])"
    "insert_before ?idx x ?xs = as @ x # bs"
  proof (cases "?idx = ListEnd l")
    case True
    then show ?thesis using that [of ?xs "[]"] by simp
  next
    case False
    then obtain y where y: "?idx = Item y" "y \<in> set ?xs" using idx by auto
    let ?a = "takeWhile (\<lambda>z. z \<noteq> y) ?xs" and ?b = "dropWhile (\<lambda>z. z \<noteq> y) ?xs"
    have "?b \<noteq> [] \<and> hd ?b = y" using y(2) hd_dropWhile [of "\<lambda>z. z \<noteq> y" ?xs]
      by (metis (mono_tags, lifting) dropWhile_eq_Nil_conv)
    then show ?thesis using that [of ?a ?b] y by (simp add: hd_map)
  qed
  have prev: "prv h ?idx = last (ListEnd l # map Item as)"
  proof (cases bs)
    case Nil
    then show ?thesis using split wf_list_prev_last [OF wf] by simp
  next
    case (Cons y ys)
    then show ?thesis using split wf_list_split_prev(1) [of h l as y ys] wf by simp
  qed
  have "linked h (vListInsertEnd l x h) l x (prv h ?idx) ?idx"
  proof (rule vListInsertEnd_linked)
    show "?idx \<noteq> Item x" using idx nx by auto
    show "prv h ?idx \<noteq> Item x" using prev last_in_list [of l as] nx split by auto
  qed
  then show ?thesis
    using heap_rep_linked [OF rep l split(1) x v len] prev split by simp
qed

lemma wf_list_next_last:
  assumes "wf_list h l (as @ bs)"
  shows "nxt h (last (ListEnd l # map Item as)) = hd (map Item bs @ [ListEnd l])"
proof (cases as rule: rev_cases)
  case Nil
  then show ?thesis using wf_list_next_hd [of h l bs] assms by simp
next
  case (snoc ys y)
  then show ?thesis using wf_list_split_prev(2) [of h l ys y bs] assms by simp
qed

lemma insert_scan_from:
  assumes "wf_list h l (as @ bs)" "v < portMAX_DELAY"
  shows "insert_scan h v (last (ListEnd l # map Item as)) =
    Some (last (ListEnd l # map Item (as @ takeWhile (\<lambda>y. val h (Item y) \<le> v) bs)))"
  using assms(1)
proof (induction bs arbitrary: as)
  case Nil
  then have "val h (nxt h (last (ListEnd l # map Item as))) = portMAX_DELAY"
    using wf_list_next_last [OF Nil] by (simp add: wf_list_def)
  then show ?case using assms(2) by (simp add: insert_scan.simps)
next
  case (Cons y ys)
  note n = wf_list_next_last [OF Cons.prems]
  show ?case
  proof (cases "val h (Item y) \<le> v")
    case True
    have "insert_scan h v (last (ListEnd l # map Item (as @ [y]))) =
      Some (last (ListEnd l # map Item ((as @ [y]) @ takeWhile (\<lambda>y. val h (Item y) \<le> v) ys)))"
      by (rule Cons.IH) (use Cons.prems in simp)
    then show ?thesis using n True by (subst insert_scan.simps) simp
  next
    case False
    then show ?thesis using n by (subst insert_scan.simps) simp
  qed
qed

text \<open>The position the insertion finds, and that the search returns.\<close>

lemma insert_position:
  assumes wf: "wf_list h l xs" and v: "v \<le> portMAX_DELAY"
  shows "(if v = portMAX_DELAY then Some (prv h (ListEnd l)) else insert_scan h v (ListEnd l)) =
    Some (last (ListEnd l # map Item (takeWhile (\<lambda>y. val h (Item y) \<le> v) xs)))"
proof (cases "v = portMAX_DELAY")
  case True
  then have t: "takeWhile (\<lambda>y. val h (Item y) \<le> v) xs = xs"
    using wf by (simp add: wf_list_def)
  show ?thesis unfolding t using True wf_list_prev_last [OF wf] by simp
next
  case False
  then show ?thesis using insert_scan_from [of h l "[]" xs v] wf v by simp
qed

definition insert_at :: "nat \<Rightarrow> nat \<Rightarrow> node \<Rightarrow> list_heap \<Rightarrow> list_heap" where
  "insert_at l x it h =
     (let h = set_next (Item x) (nxt h it) h;
          h = set_prev (nxt h (Item x)) (Item x) h;
          h = set_prev (Item x) it h;
          h = set_next it (Item x) h;
          h = set_cont (Item x) (Some l) h
      in set_count l (u32_add (uxNumberOfItems (lists h l)) 1) h)"

lemma insert_at_linked:
  assumes "it \<noteq> Item x" "nxt h it \<noteq> Item x"
  shows "linked h (insert_at l x it h) l x it (nxt h it)"
  using assms by (auto simp: linked_def insert_at_def heap_defs Let_def)

lemma vListInsert_rep:
  assumes rep: "heap_rep L h \<alpha>" and l: "l \<in> L" and x: "cont h (Item x) = None"
    and v: "val h (Item x) \<le> portMAX_DELAY" and len: "Suc (length (\<alpha> l)) < u32_lim"
  shows "\<exists>h'. vListInsert l x h = Some h' \<and>
    heap_rep L h' (\<alpha>(l := insert_by (\<lambda>y. val h (Item y)) x (\<alpha> l))) \<and>
    (\<forall>c. val h' c = val h c) \<and> (\<forall>c. cont h' c = (if c = Item x then Some l else cont h c))"
proof -
  let ?P = "\<lambda>y. val h (Item y) \<le> val h (Item x)"
  let ?as = "takeWhile ?P (\<alpha> l)" and ?bs = "dropWhile ?P (\<alpha> l)"
  let ?it = "last (ListEnd l # map Item ?as)"
  have wf: "wf_list h l (\<alpha> l)" using rep l by (simp add: heap_rep_def)
  have nx: "x \<notin> set (\<alpha> l)" using wf x unfolding wf_list_def by (metis option.distinct(1))
  have nit: "nxt h ?it = hd (map Item ?bs @ [ListEnd l])"
    using wf_list_next_last [of h l ?as ?bs] wf by simp
  have ln: "linked h (insert_at l x ?it h) l x ?it (nxt h ?it)"
  proof (rule insert_at_linked)
    show "?it \<noteq> Item x" using last_in_list [of l ?as] nx by (auto dest: set_takeWhileD)
    show "nxt h ?it \<noteq> Item x" using nit hd_in_list [of ?bs l] nx by (auto dest: set_dropWhileD)
  qed
  have "vListInsert l x h = Some (insert_at l x ?it h)"
    using insert_position [OF wf v] by (simp add: vListInsert_def insert_at_def Let_def)
  moreover have "heap_rep L (insert_at l x ?it h)
      (\<alpha>(l := insert_by (\<lambda>y. val h (Item y)) x (\<alpha> l)))"
    using heap_rep_linked [OF rep l _ x v len, of ?as ?bs] ln nit by (simp add: insert_by_def)
  ultimately show ?thesis using ln by (auto simp: linked_def)
qed

subsection \<open>Removal\<close>






subsection \<open>Initialisation\<close>

lemma vListInitialise_rep:
  assumes "heap_rep L h \<alpha>" "l \<notin> L" "\<forall>x. cont h (Item x) \<noteq> Some l"
  shows "heap_rep (insert l L) (vListInitialise l h) (\<alpha>(l := []))"
proof -
  have eff: "\<And>c. c \<noteq> ListEnd l \<Longrightarrow> items (vListInitialise l h) c = items h c"
    "\<And>m. m \<noteq> l \<Longrightarrow> lists (vListInitialise l h) m = lists h m"
    by (simp_all add: vListInitialise_def heap_defs Let_def)
  have "wf_list (vListInitialise l h) l []"
    using assms(3) by (simp add: wf_list_def vListInitialise_def heap_defs Let_def u32_lim_def)
  moreover have "wf_list (vListInitialise l h) m (\<alpha> m)" if "m \<in> L" for m
  proof -
    have m: "m \<noteq> l" "wf_list h m (\<alpha> m)" using that assms by (auto simp: heap_rep_def)
    have seg: "dseg (nxt (vListInitialise l h)) (prv (vListInitialise l h)) (ListEnd m)
        (map Item (\<alpha> m)) (ListEnd m)"
      by (rule dseg_frame [of "nxt h" "prv h"]) (use m in \<open>auto simp: wf_list_def eff\<close>)
    have it: "items (vListInitialise l h) (ListEnd m) = items h (ListEnd m)"
      "\<And>y. items (vListInitialise l h) (Item y) = items h (Item y)"
      "lists (vListInitialise l h) m = lists h m"
      using m eff by simp_all
    show ?thesis using m(2) seg unfolding wf_list_def it by blast
  qed
  ultimately show ?thesis using assms(2) by (simp add: heap_rep_def)
qed

subsection \<open>The round robin of listGET_OWNER_OF_NEXT_ENTRY\<close>

fun next_owners :: "nat \<Rightarrow> nat \<Rightarrow> list_heap \<Rightarrow> nat list" where
  "next_owners 0 l h = []"
| "next_owners (Suc k) l h =
     (case listGET_OWNER_OF_NEXT_ENTRY l h of (h', x) \<Rightarrow> x # next_owners k l h')"

abbreviation owner :: "list_heap \<Rightarrow> nat \<Rightarrow> nat" where
  "owner h x \<equiv> pvOwner (items h (Item x))"

lemma wf_list_set_index:
  "wf_list h l xs \<Longrightarrow> x \<in> set xs \<Longrightarrow> wf_list (set_index l (Item x) h) l xs"
  by (auto simp: wf_list_def set_index_def)

lemma set_index_again: "set_index l b (set_index l a h) = set_index l b h"
  by (simp add: set_index_def)

lemma wf_list_next_nth:
  assumes wf: "wf_list h l xs" and i: "i < length xs"
  shows "nxt h (Item (xs ! i)) = (if Suc i < length xs then Item (xs ! Suc i) else ListEnd l)"
proof -
  have "xs = take i xs @ xs ! i # drop (Suc i) xs" using i by (simp add: id_take_nth_drop)
  then have "nxt h (Item (xs ! i)) = hd (map Item (drop (Suc i) xs) @ [ListEnd l])"
    using wf_list_split_prev(2) [of h l "take i xs" "xs ! i" "drop (Suc i) xs"] wf by simp
  then show ?thesis by (auto simp: hd_append hd_map hd_drop_conv_nth)
qed

lemma next_entry_at:
  assumes wf: "wf_list h l xs" and i: "i < length xs" and idx: "pxIndex (lists h l) = Item (xs ! i)"
  shows "listGET_OWNER_OF_NEXT_ENTRY l h =
    (let j = Suc i mod length xs in (set_index l (Item (xs ! j)) h, owner h (xs ! j)))"
proof (cases "Suc i < length xs")
  case True
  then show ?thesis using wf_list_next_nth [OF wf i] idx
    by (simp add: listGET_OWNER_OF_NEXT_ENTRY_def Let_def set_index_def)
next
  case False
  then have "Suc i = length xs" using i by linarith
  then have "Suc i mod length xs = 0" by simp
  moreover have "nxt h (ListEnd l) = Item (xs ! 0)"
    using wf_list_next_hd [OF wf] i by (cases xs) auto
  ultimately show ?thesis using wf_list_next_nth [OF wf i] idx False
    by (simp add: listGET_OWNER_OF_NEXT_ENTRY_def Let_def set_index_def)
qed

lemma next_entry_start:
  assumes wf: "wf_list h l xs" and "xs \<noteq> []" and idx: "pxIndex (lists h l) = ListEnd l"
  shows "listGET_OWNER_OF_NEXT_ENTRY l h = (set_index l (Item (xs ! 0)) h, owner h (xs ! 0))"
  using wf_list_next_hd [OF wf] assms
  by (cases xs) (auto simp: listGET_OWNER_OF_NEXT_ENTRY_def Let_def set_index_def)

lemma next_owners_at:
  assumes "wf_list h l xs" "i < length xs" "pxIndex (lists h l) = Item (xs ! i)"
  shows "next_owners k l h = map (\<lambda>j. owner h (xs ! ((Suc i + j) mod length xs))) [0..<k]"
  using assms
proof (induction k arbitrary: h i)
  case 0
  then show ?case by simp
next
  case (Suc k)
  let ?j = "Suc i mod length xs"
  let ?h = "set_index l (Item (xs ! ?j)) h"
  have j: "?j < length xs" using Suc.prems(2) by (intro mod_less_divisor) linarith
  have "next_owners k l ?h = map (\<lambda>m. owner ?h (xs ! ((Suc ?j + m) mod length xs))) [0..<k]"
    by (rule Suc.IH [OF wf_list_set_index [OF Suc.prems(1)] j])
      (use j in \<open>simp_all add: set_index_def\<close>)
  moreover have "(Suc ?j + m) mod length xs = (Suc i + Suc m) mod length xs" for m
    by (metis add_Suc_right add_Suc_shift mod_add_left_eq)
  ultimately show ?case
    using next_entry_at [OF Suc.prems]
    by (simp add: Let_def set_index_def map_upt_Suc del: upt_Suc)
qed

text \<open>A full turn visits every item exactly once, whatever the index points to.\<close>

lemma next_owners_turn:
  assumes wf: "wf_list h l xs" and ne: "xs \<noteq> []"
  shows "\<exists>k \<le> length xs. next_owners (length xs) l h = rotate k (map (owner h) xs)"
proof (cases "pxIndex (lists h l) = ListEnd l")
  case True
  let ?h = "set_index l (Item (xs ! 0)) h"
  obtain n where n: "length xs = Suc n" using ne by (cases xs) auto
  have "next_owners n l ?h = map (\<lambda>j. owner ?h (xs ! ((Suc 0 + j) mod length xs))) [0..<n]"
    by (rule next_owners_at) (use n wf_list_set_index [OF wf] in \<open>simp_all add: set_index_def\<close>)
  then have "next_owners (length xs) l h = map (owner h) xs"
    using next_entry_start [OF wf ne True] n
    by (intro nth_equalityI) (auto simp: set_index_def nth_Cons split: nat.splits)
  then show ?thesis by (intro exI [of _ 0]) simp
next
  case False
  then obtain i where i: "i < length xs" "pxIndex (lists h l) = Item (xs ! i)"
    using wf by (auto simp: wf_list_def in_set_conv_nth)
  have "next_owners (length xs) l h = rotate (Suc i) (map (owner h) xs)"
    using next_owners_at [OF wf i, of "length xs"] ne
    by (intro nth_equalityI) (simp_all add: nth_rotate del: rotate_Suc)
  then show ?thesis using i by (intro exI [of _ "Suc i"]) simp
qed

section \<open>The contract of sorted lists\<close>





section \<open>Properties\<close>

text \<open>A concrete heap: every item is on no list, item \<open>x\<close> has value \<open>10 * x\<close> and owner \<open>x\<close>.\<close>

definition demo_heap :: list_heap where
  "demo_heap = \<lparr>items = (\<lambda>a. \<lparr>xItemValue = (case a of Item x \<Rightarrow> 10 * x | ListEnd _ \<Rightarrow> 0),
      pxNext = ListEnd 9, pxPrevious = ListEnd 9,
      pvOwner = (case a of Item x \<Rightarrow> x | ListEnd _ \<Rightarrow> 0), pxContainer = None\<rparr>),
    lists = (\<lambda>_. \<lparr>uxNumberOfItems = 0, pxIndex = ListEnd 9\<rparr>)\<rparr>"

lemma demo_heap_rep: "heap_rep {0} (vListInitialise 0 demo_heap) (\<lambda>_. [])"
  using vListInitialise_rep [of "{}" demo_heap "\<lambda>_. []" 0]
  by (simp add: heap_rep_def demo_heap_def fun_upd_idem)

lemma demo_heap_item:
  "cont (vListInitialise 0 demo_heap) (Item x) = None"
  "val (vListInitialise 0 demo_heap) (Item x) = 10 * x"
  by (simp_all add: vListInitialise_def heap_defs Let_def demo_heap_def)

text \<open>
  Property C15: inserting an item by value returns, puts the item behind the items that do not
  exceed it and before the others, keeps a sorted list sorted, and changes no other list.
\<close>

theorem vListInsert_correct:
  assumes "heap_rep L h \<alpha>" "l \<in> L"
    and "cont h (Item x) = None" "val h (Item x) \<le> portMAX_DELAY"
    and "Suc (length (\<alpha> l)) < u32_lim" "sorted (map (\<lambda>y. val h (Item y)) (\<alpha> l))"
  shows "\<exists>h' as bs. vListInsert l x h = Some h' \<and> \<alpha> l = as @ bs \<and>
    heap_rep L h' (\<alpha>(l := as @ x # bs)) \<and>
    (\<forall>y \<in> set as. val h (Item y) \<le> val h (Item x)) \<and>
    (\<forall>y \<in> set bs. val h (Item x) < val h (Item y)) \<and>
    sorted (map (\<lambda>y. val h' (Item y)) (as @ x # bs))"
proof -
  let ?f = "\<lambda>y. val h (Item y)"
  let ?as = "takeWhile (\<lambda>y. ?f y \<le> ?f x) (\<alpha> l)" and ?bs = "dropWhile (\<lambda>y. ?f y \<le> ?f x) (\<alpha> l)"
  obtain h' where h': "vListInsert l x h = Some h'" "heap_rep L h' (\<alpha>(l := insert_by ?f x (\<alpha> l)))"
      "\<forall>c. val h' c = val h c"
    using vListInsert_rep [OF assms(1-5)] by blast
  have srt: "sorted (map ?f (?as @ x # ?bs))"
    using sorted_insert_by [OF assms(6), of x] by (simp add: insert_by_def)
  have "?f x < ?f y" if "y \<in> set ?bs" for y
    using sorted_dropWhile_above [OF assms(6) that] .
  note above = this
  show ?thesis
  proof (intro exI conjI)
    show "vListInsert l x h = Some h'" by (rule h'(1))
    show "\<alpha> l = ?as @ ?bs" by simp
    show "heap_rep L h' (\<alpha>(l := ?as @ x # ?bs))" using h'(2) by (simp only: insert_by_def)
    show "\<forall>y \<in> set ?as. ?f y \<le> ?f x" by (auto dest: set_takeWhileD)
    show "\<forall>y \<in> set ?bs. ?f x < ?f y" using above by blast
    show "sorted (map (\<lambda>y. val h' (Item y)) (?as @ x # ?bs))" using srt h'(3) by simp
  qed
qed

theorem vListInsert_correct_witness:
  "\<exists>h'. vListInsert 0 3 (vListInitialise 0 demo_heap) = Some h' \<and> heap_rep {0} h' ((\<lambda>_. [])(0 := [3]))"
  using vListInsert_correct [OF demo_heap_rep, of 0 3]
  by (auto simp: demo_heap_item portMAX_DELAY_def u32_lim_def)





text \<open>
  Property C39: as many calls of \<open>listGET_OWNER_OF_NEXT_ENTRY\<close> as the list has items return the
  owner of every item exactly once, in list order up to rotation: equal shares for all.
\<close>

theorem listGET_OWNER_OF_NEXT_ENTRY_round_robin:
  assumes "heap_rep L h \<alpha>" "l \<in> L" "\<alpha> l \<noteq> []"
  shows "\<exists>k. next_owners (listCURRENT_LIST_LENGTH l h) l h =
    rotate k (map (\<lambda>x. pvOwner (items h (Item x))) (\<alpha> l))"
proof -
  have "wf_list h l (\<alpha> l)" using assms by (simp add: heap_rep_def)
  moreover from this have "listCURRENT_LIST_LENGTH l h = length (\<alpha> l)"
    by (simp add: listCURRENT_LIST_LENGTH_def wf_list_def)
  ultimately show ?thesis using next_owners_turn [of h l "\<alpha> l"] assms(3) by auto
qed

theorem listGET_OWNER_OF_NEXT_ENTRY_round_robin_witness:
  "\<exists>k. next_owners (listCURRENT_LIST_LENGTH 0 (vListInsertEnd 0 4 (vListInitialise 0 demo_heap))) 0
     (vListInsertEnd 0 4 (vListInitialise 0 demo_heap)) = rotate k [4]"
proof -
  let ?h = "vListInsertEnd 0 4 (vListInitialise 0 demo_heap)"
  have i: "pxIndex (lists (vListInitialise 0 demo_heap) 0) = ListEnd 0"
    "pvOwner (items ?h (Item 4)) = 4"
    by (simp_all add: vListInitialise_def vListInsertEnd_def heap_defs Let_def demo_heap_def)
  then have "heap_rep {0} ?h ((\<lambda>_. [])(0 := [4]))"
    using vListInsertEnd_rep [OF demo_heap_rep, of 0 4]
    by (simp add: demo_heap_item portMAX_DELAY_def u32_lim_def)
  from listGET_OWNER_OF_NEXT_ENTRY_round_robin [OF this, of 0] i show ?thesis by simp
qed



end
