(* ===== verification/Tasks.thy ===== *)
theory Tasks
  imports RtosList "HOL-Library.Monad_Syntax"
begin

text \<open>
  The scheduler of \<open>freertos/tasks.c\<close>: task control blocks, the ready, delayed, suspended and
  termination lists, the event lists that tasks wait on, the tick, priorities and their
  inheritance through mutexes, and task notifications. Lists are the sequences that the theory
  \<open>RtosList\<close> proves the code of \<open>list.c\<close> to implement; a task owns one item for the state lists
  and one for the event lists, each with the container field of its \<open>ListItem_t\<close>.

  A configuration assertion that fails, or a null pointer that is followed, is the value
  \<open>None\<close>. \<open>portYIELD\<close> raises the software interrupt \<open>sw_int\<close>, which is taken when interrupts are
  enabled; taking it runs \<open>vTaskSwitchContext\<close>. Critical sections run without interruption, so
  each operation is one state transformation.

  Configuration: 32 priorities, pre-emption and time slicing on, task selection by the bit mask
  \<open>uxTopReadyPriority\<close>. Not modelled: stacks, names, run-time statistics, \<open>errno\<close>.
\<close>

section \<open>State\<close>

type_synonym tid = nat
type_synonym tick = "32 word"

abbreviation MAX_DELAY :: tick where "MAX_DELAY \<equiv> 0xffffffff"
abbreviation configMAX_PRIORITIES :: nat where "configMAX_PRIORITIES \<equiv> 32"
abbreviation taskEVENT_LIST_ITEM_VALUE_IN_USE :: tick where
  "taskEVENT_LIST_ITEM_VALUE_IN_USE \<equiv> 0x80000000"

text \<open>The lists a state item can be on (the two delayed lists swap roles) and an event item.\<close>

datatype slist_id = ReadyL nat | DelayedL bool | SuspendedL | TerminationL
datatype elist_id = PendingReadyL | WaitL nat

datatype notify_state = NOT_WAITING | WAITING | RECEIVED

record tcb =
  uxPriority :: nat
  uxBasePriority :: nat
  uxMutexesHeld :: nat
  state_value :: tick
  event_value :: tick
  state_in :: "slist_id option"
  event_in :: "elist_id option"
  ulNotifiedValue :: "nat \<Rightarrow> 32 word"
  ucNotifyState :: "nat \<Rightarrow> notify_state"
  ucDelayAborted :: bool

record kernel =
  tcb :: "tid \<Rightarrow> tcb"
  pxCurrentTCB :: "tid option"
  slist :: "slist_id \<Rightarrow> tid list"
  rindex :: "nat \<Rightarrow> tid option"
  elist :: "elist_id \<Rightarrow> tid list"
  pxDelayedTaskList :: bool
  uxCurrentNumberOfTasks :: nat
  uxDeletedTasksWaitingCleanUp :: nat
  xTickCount :: tick
  uxTopReadyPriority :: "32 word"
  xSchedulerRunning :: bool
  xPendedTicks :: nat
  xYieldPending :: bool
  xNumOfOverflows :: "32 word"
  xNextTaskUnblockTime :: tick
  uxSchedulerSuspended :: nat
  sw_int :: bool

abbreviation pxDelayed :: "kernel \<Rightarrow> slist_id" where
  "pxDelayed k \<equiv> DelayedL (pxDelayedTaskList k)"
abbreviation pxOverflow :: "kernel \<Rightarrow> slist_id" where
  "pxOverflow k \<equiv> DelayedL (\<not> pxDelayedTaskList k)"

definition upd_tcb :: "tid \<Rightarrow> (tcb \<Rightarrow> tcb) \<Rightarrow> kernel \<Rightarrow> kernel" where
  "upd_tcb t f k = k\<lparr>tcb := (tcb k)(t := f (tcb k t))\<rparr>"

definition yield :: "kernel \<Rightarrow> kernel" where
  "yield k = k\<lparr>sw_int := True\<rparr>"

definition guard :: "bool \<Rightarrow> unit option" where
  "guard b = (if b then Some () else None)"

section \<open>List items\<close>

text \<open>Before which item \<open>pxIndex\<close> makes \<open>listINSERT_END\<close> insert, and where it moves on.\<close>

definition index_node :: "tid option \<Rightarrow> node" where
  "index_node i = (case i of None \<Rightarrow> ListEnd 0 | Some x \<Rightarrow> Item x)"

definition before_in :: "tid \<Rightarrow> tid list \<Rightarrow> tid option" where
  "before_in t xs = (let as = takeWhile (\<lambda>x. x \<noteq> t) xs in if as = [] then None else Some (last as))"

definition next_in :: "tid option \<Rightarrow> tid list \<Rightarrow> tid" where
  "next_in i xs =
    (case i of None \<Rightarrow> hd xs
     | Some x \<Rightarrow> (case tl (dropWhile (\<lambda>y. y \<noteq> x) xs) of [] \<Rightarrow> hd xs | y # _ \<Rightarrow> y))"

definition state_remove :: "tid \<Rightarrow> kernel \<Rightarrow> (kernel \<times> nat) option" where
  "state_remove t k =
    (case state_in (tcb k t) of
       None \<Rightarrow> None
     | Some l \<Rightarrow>
         (let xs = remove1 t (slist k l);
              k1 = (case l of
                      ReadyL p \<Rightarrow> if rindex k p = Some t
                                  then k\<lparr>rindex := (rindex k)(p := before_in t (slist k l))\<rparr> else k
                    | _ \<Rightarrow> k)
          in Some (upd_tcb t (state_in_update (\<lambda>_. None)) (k1\<lparr>slist := (slist k)(l := xs)\<rparr>),
                   length xs)))"

definition state_append :: "slist_id \<Rightarrow> tid \<Rightarrow> kernel \<Rightarrow> kernel" where
  "state_append l t k =
    upd_tcb t (state_in_update (\<lambda>_. Some l)) (k\<lparr>slist := (slist k)(l := slist k l @ [t])\<rparr>)"

definition state_insert :: "slist_id \<Rightarrow> tid \<Rightarrow> kernel \<Rightarrow> kernel" where
  "state_insert l t k =
    upd_tcb t (state_in_update (\<lambda>_. Some l))
      (k\<lparr>slist := (slist k)(l := insert_by (\<lambda>x. unat (state_value (tcb k x))) t (slist k l))\<rparr>)"

definition event_remove :: "tid \<Rightarrow> kernel \<Rightarrow> kernel" where
  "event_remove t k =
    (case event_in (tcb k t) of
       None \<Rightarrow> k
     | Some e \<Rightarrow> upd_tcb t (event_in_update (\<lambda>_. None))
                   (k\<lparr>elist := (elist k)(e := remove1 t (elist k e))\<rparr>))"

definition event_append :: "elist_id \<Rightarrow> tid \<Rightarrow> kernel \<Rightarrow> kernel" where
  "event_append e t k =
    upd_tcb t (event_in_update (\<lambda>_. Some e)) (k\<lparr>elist := (elist k)(e := elist k e @ [t])\<rparr>)"

definition event_insert :: "elist_id \<Rightarrow> tid \<Rightarrow> kernel \<Rightarrow> kernel" where
  "event_insert e t k =
    upd_tcb t (event_in_update (\<lambda>_. Some e))
      (k\<lparr>elist := (elist k)(e := insert_by (\<lambda>x. unat (event_value (tcb k x))) t (elist k e))\<rparr>)"

definition item_value :: "nat \<Rightarrow> tick" where
  "item_value priority = of_nat configMAX_PRIORITIES - of_nat priority"

text \<open>\<open>listSET_LIST_ITEM_VALUE\<close> of the event item, unless the value is in use by an event group.\<close>

definition set_event_priority :: "tid \<Rightarrow> nat \<Rightarrow> kernel \<Rightarrow> kernel" where
  "set_event_priority t p k =
    (if event_value (tcb k t) AND taskEVENT_LIST_ITEM_VALUE_IN_USE = 0
     then upd_tcb t (event_value_update (\<lambda>_. item_value p)) k else k)"

section \<open>Ready lists and the selection of the next task\<close>

definition portRECORD_READY_PRIORITY :: "nat \<Rightarrow> 32 word \<Rightarrow> 32 word" where
  "portRECORD_READY_PRIORITY p w = w OR push_bit p 1"

definition portRESET_READY_PRIORITY :: "nat \<Rightarrow> 32 word \<Rightarrow> 32 word" where
  "portRESET_READY_PRIORITY p w = w AND NOT (push_bit p 1)"

definition mips_clz :: "32 word \<Rightarrow> nat" where
  "mips_clz w = length (takeWhile Not (rev (map (bit w) [0..<32])))"

text \<open>With an empty mask the C expression is a huge index: \<open>None\<close>.\<close>

definition portGET_HIGHEST_PRIORITY :: "32 word \<Rightarrow> nat option" where
  "portGET_HIGHEST_PRIORITY w = (if mips_clz w \<le> 31 then Some (31 - mips_clz w) else None)"

definition reset_top :: "nat \<Rightarrow> kernel \<Rightarrow> kernel" where
  "reset_top p k = k\<lparr>uxTopReadyPriority := portRESET_READY_PRIORITY p (uxTopReadyPriority k)\<rparr>"

definition taskRESET_READY_PRIORITY :: "nat \<Rightarrow> kernel \<Rightarrow> kernel" where
  "taskRESET_READY_PRIORITY p k = (if length (slist k (ReadyL p)) = 0 then reset_top p k else k)"

definition prvAddTaskToReadyList :: "tid \<Rightarrow> kernel \<Rightarrow> kernel" where
  "prvAddTaskToReadyList t k =
    (let p = uxPriority (tcb k t);
         k1 = k\<lparr>uxTopReadyPriority := portRECORD_READY_PRIORITY p (uxTopReadyPriority k)\<rparr>;
         xs = insert_before (index_node (rindex k p)) t (slist k (ReadyL p))
     in upd_tcb t (state_in_update (\<lambda>_. Some (ReadyL p))) (k1\<lparr>slist := (slist k)(ReadyL p := xs)\<rparr>))"

text \<open>\<open>listREMOVE_ITEM\<close> of the state item followed by \<open>prvAddTaskToReadyList\<close>.\<close>

definition make_ready :: "tid \<Rightarrow> kernel \<Rightarrow> kernel option" where
  "make_ready t k = do { (k, _) \<leftarrow> state_remove t k; Some (prvAddTaskToReadyList t k) }"

definition taskSELECT_HIGHEST_PRIORITY_TASK :: "kernel \<Rightarrow> kernel option" where
  "taskSELECT_HIGHEST_PRIORITY_TASK k = do {
     p \<leftarrow> portGET_HIGHEST_PRIORITY (uxTopReadyPriority k);
     _ \<leftarrow> guard (length (slist k (ReadyL p)) > 0);
     let t = next_in (rindex k p) (slist k (ReadyL p));
     Some (k\<lparr>rindex := (rindex k)(p := Some t), pxCurrentTCB := Some t\<rparr>)
   }"

definition vTaskSwitchContext :: "kernel \<Rightarrow> kernel option" where
  "vTaskSwitchContext k =
    (if uxSchedulerSuspended k \<noteq> 0 then Some (k\<lparr>xYieldPending := True\<rparr>)
     else taskSELECT_HIGHEST_PRIORITY_TASK (k\<lparr>xYieldPending := False\<rparr>))"

text \<open>The software interrupt that \<open>portYIELD\<close> raises.\<close>

definition take_sw_int :: "kernel \<Rightarrow> kernel option" where
  "take_sw_int k = vTaskSwitchContext (k\<lparr>sw_int := False\<rparr>)"

section \<open>Time\<close>

definition prvResetNextTaskUnblockTime :: "kernel \<Rightarrow> kernel" where
  "prvResetNextTaskUnblockTime k =
    k\<lparr>xNextTaskUnblockTime :=
      (case slist k (pxDelayed k) of [] \<Rightarrow> MAX_DELAY | t # _ \<Rightarrow> state_value (tcb k t))\<rparr>"

definition taskSWITCH_DELAYED_LISTS :: "kernel \<Rightarrow> kernel option" where
  "taskSWITCH_DELAYED_LISTS k = do {
     _ \<leftarrow> guard (slist k (pxDelayed k) = []);
     let k = k\<lparr>pxDelayedTaskList := \<not> pxDelayedTaskList k, xNumOfOverflows := xNumOfOverflows k + 1\<rparr>;
     Some (prvResetNextTaskUnblockTime k)
   }"

text \<open>
  The loop of \<open>xTaskIncrementTick\<close> over the head of the delayed list. Not ending is \<open>None\<close>.
\<close>

partial_function (option) wake_expired :: "tid \<Rightarrow> kernel \<times> bool \<Rightarrow> (kernel \<times> bool) option" where
  "wake_expired me s = (case s of (k, switch) \<Rightarrow>
    (case slist k (pxDelayed k) of
       [] \<Rightarrow> Some (k\<lparr>xNextTaskUnblockTime := MAX_DELAY\<rparr>, switch)
     | t # _ \<Rightarrow>
         if xTickCount k < state_value (tcb k t)
         then Some (k\<lparr>xNextTaskUnblockTime := state_value (tcb k t)\<rparr>, switch)
         else Option.bind (state_remove t k) (\<lambda>(k1, _).
           let k2 = prvAddTaskToReadyList t (event_remove t k1)
           in wake_expired me (k2, switch \<or> uxPriority (tcb k2 t) \<ge> uxPriority (tcb k2 me)))))"

declare wake_expired.simps [code]

definition xTaskIncrementTick :: "kernel \<Rightarrow> (kernel \<times> bool) option" where
  "xTaskIncrementTick k =
    (if uxSchedulerSuspended k = 0 then do {
       me \<leftarrow> pxCurrentTCB k;
       let k = k\<lparr>xTickCount := xTickCount k + 1\<rparr>;
       k \<leftarrow> (if xTickCount k = 0 then taskSWITCH_DELAYED_LISTS k else Some k);
       (k, switch) \<leftarrow> (if xTickCount k \<ge> xNextTaskUnblockTime k then wake_expired me (k, False)
                       else Some (k, False));
       let switch = (switch \<or> length (slist k (ReadyL (uxPriority (tcb k me)))) > 1);
       Some (k, switch \<or> xYieldPending k)
     }
     else Some (k\<lparr>xPendedTicks := xPendedTicks k + 1\<rparr>, False))"

text \<open>The timer interrupt of the port.\<close>

definition tick_interrupt :: "kernel \<Rightarrow> kernel option" where
  "tick_interrupt k = do {
     (k, switch) \<leftarrow> xTaskIncrementTick k;
     Some (if switch then yield k else k)
   }"

definition prvAddCurrentTaskToDelayedList :: "tick \<Rightarrow> bool \<Rightarrow> kernel \<Rightarrow> kernel option" where
  "prvAddCurrentTaskToDelayedList xTicksToWait xCanBlockIndefinitely k = do {
     t \<leftarrow> pxCurrentTCB k;
     let k = upd_tcb t (ucDelayAborted_update (\<lambda>_. False)) k;
     (k, n) \<leftarrow> state_remove t k;
     let k = (if n = 0 then reset_top (uxPriority (tcb k t)) k else k);
     if xTicksToWait = MAX_DELAY \<and> xCanBlockIndefinitely then Some (state_append SuspendedL t k)
     else do {
       let wake = xTickCount k + xTicksToWait;
       let k = upd_tcb t (state_value_update (\<lambda>_. wake)) k;
       if wake < xTickCount k then Some (state_insert (pxOverflow k) t k)
       else do {
         let k = state_insert (pxDelayed k) t k;
         Some (if wake < xNextTaskUnblockTime k then k\<lparr>xNextTaskUnblockTime := wake\<rparr> else k)
       }
     }
   }"


section \<open>Suspending and resuming the scheduler\<close>

definition vTaskSuspendAll :: "kernel \<Rightarrow> kernel" where
  "vTaskSuspendAll k = k\<lparr>uxSchedulerSuspended := uxSchedulerSuspended k + 1\<rparr>"

text \<open>The loop over the pending-ready list; the flag says whether it moved a task.\<close>

partial_function (option) move_pending :: "tid \<Rightarrow> kernel \<times> bool \<Rightarrow> (kernel \<times> bool) option" where
  "move_pending me s = (case s of (k, moved) \<Rightarrow>
    (case elist k PendingReadyL of
       [] \<Rightarrow> Some (k, moved)
     | t # _ \<Rightarrow>
         Option.bind (make_ready t (event_remove t k)) (\<lambda>k1.
           move_pending me
             (if uxPriority (tcb k1 t) \<ge> uxPriority (tcb k1 me) then k1\<lparr>xYieldPending := True\<rparr> else k1,
              True))))"

declare move_pending.simps [code]

fun unwind_ticks :: "nat \<Rightarrow> kernel \<Rightarrow> kernel option" where
  "unwind_ticks 0 k = Some k"
| "unwind_ticks (Suc n) k = do {
     (k, switch) \<leftarrow> xTaskIncrementTick k;
     unwind_ticks n (if switch then k\<lparr>xYieldPending := True\<rparr> else k)
   }"

definition xTaskResumeAll :: "kernel \<Rightarrow> (kernel \<times> bool) option" where
  "xTaskResumeAll k = do {
     _ \<leftarrow> guard (uxSchedulerSuspended k \<noteq> 0);
     let k = k\<lparr>uxSchedulerSuspended := uxSchedulerSuspended k - 1\<rparr>;
     if uxSchedulerSuspended k = 0 \<and> uxCurrentNumberOfTasks k > 0 then do {
       me \<leftarrow> pxCurrentTCB k;
       (k, moved) \<leftarrow> move_pending me (k, False);
       let k = (if moved then prvResetNextTaskUnblockTime k else k);
       k \<leftarrow> unwind_ticks (xPendedTicks k) k;
       let k = k\<lparr>xPendedTicks := 0\<rparr>;
       Some (if xYieldPending k then (yield k, True) else (k, False))
     }
     else Some (k, False)
   }"

definition xTaskCatchUpTicks :: "nat \<Rightarrow> kernel \<Rightarrow> (kernel \<times> bool) option" where
  "xTaskCatchUpTicks n k = do {
     _ \<leftarrow> guard (uxSchedulerSuspended k = 0);
     let k = vTaskSuspendAll k;
     xTaskResumeAll (k\<lparr>xPendedTicks := xPendedTicks k + n\<rparr>)
   }"

text \<open>What the delaying functions do last: yield unless resuming the scheduler already did.\<close>

definition resume_and_yield :: "kernel \<Rightarrow> kernel option" where
  "resume_and_yield k = do {
     (k, already) \<leftarrow> xTaskResumeAll k;
     Some (if already then k else yield k)
   }"

definition vTaskDelay :: "tick \<Rightarrow> kernel \<Rightarrow> kernel option" where
  "vTaskDelay xTicksToDelay k =
    (if 0 < xTicksToDelay then do {
       _ \<leftarrow> guard (uxSchedulerSuspended k = 0);
       k \<leftarrow> prvAddCurrentTaskToDelayedList xTicksToDelay False (vTaskSuspendAll k);
       resume_and_yield k
     }
     else Some (yield k))"

text \<open>Whether the wake time lies ahead of the tick count, allowing for either having overflowed.\<close>

definition should_delay :: "tick \<Rightarrow> tick \<Rightarrow> tick \<Rightarrow> bool" where
  "should_delay now previous wake =
    (if now < previous then wake < previous \<and> now < wake else wake < previous \<or> now < wake)"

definition xTaskDelayUntil :: "tick \<Rightarrow> tick \<Rightarrow> kernel \<Rightarrow> (kernel \<times> tick \<times> bool) option" where
  "xTaskDelayUntil previous increment k = do {
     _ \<leftarrow> guard (0 < increment);
     _ \<leftarrow> guard (uxSchedulerSuspended k = 0);
     let k = vTaskSuspendAll k;
     let now = xTickCount k;
     let wake = previous + increment;
     k \<leftarrow> (if should_delay now previous wake
          then prvAddCurrentTaskToDelayedList (wake - now) False k else Some k);
     k \<leftarrow> resume_and_yield k;
     Some (k, wake, should_delay now previous wake)
   }"

section \<open>Creating and deleting tasks\<close>

definition empty_tcb :: tcb where
  "empty_tcb = \<lparr>uxPriority = 0, uxBasePriority = 0, uxMutexesHeld = 0, state_value = 0,
     event_value = 0, state_in = None, event_in = None, ulNotifiedValue = (\<lambda>_. 0),
     ucNotifyState = (\<lambda>_. NOT_WAITING), ucDelayAborted = False\<rparr>"

definition prvInitialiseTaskLists :: "kernel \<Rightarrow> kernel" where
  "prvInitialiseTaskLists k =
    k\<lparr>slist := (\<lambda>_. []), rindex := (\<lambda>_. None), elist := (elist k)(PendingReadyL := []),
      pxDelayedTaskList := False\<rparr>"

text \<open>The part of \<open>prvInitialiseNewTask\<close> that concerns the scheduler.\<close>

definition prvInitialiseNewTask :: "tid \<Rightarrow> nat \<Rightarrow> kernel \<Rightarrow> kernel option" where
  "prvInitialiseNewTask t priority k = do {
     _ \<leftarrow> guard (priority < configMAX_PRIORITIES);
     Some (upd_tcb t (\<lambda>_. empty_tcb\<lparr>uxPriority := priority, uxBasePriority := priority,
                                    event_value := item_value priority\<rparr>) k)
   }"

definition prvAddNewTaskToReadyList :: "tid \<Rightarrow> kernel \<Rightarrow> kernel" where
  "prvAddNewTaskToReadyList t k =
    (let k = k\<lparr>uxCurrentNumberOfTasks := uxCurrentNumberOfTasks k + 1\<rparr>;
         k = (case pxCurrentTCB k of
                None \<Rightarrow> (let k = k\<lparr>pxCurrentTCB := Some t\<rparr> in
                         if uxCurrentNumberOfTasks k = 1 then prvInitialiseTaskLists k else k)
              | Some me \<Rightarrow> (if \<not> xSchedulerRunning k \<and> uxPriority (tcb k me) \<le> uxPriority (tcb k t)
                            then k\<lparr>pxCurrentTCB := Some t\<rparr> else k));
         k = prvAddTaskToReadyList t k
     in case pxCurrentTCB k of
          None \<Rightarrow> k
        | Some me \<Rightarrow> (if xSchedulerRunning k \<and> uxPriority (tcb k me) < uxPriority (tcb k t)
                      then yield k else k))"

definition xTaskCreate :: "tid \<Rightarrow> nat \<Rightarrow> kernel \<Rightarrow> kernel option" where
  "xTaskCreate t priority k = do {
     k \<leftarrow> prvInitialiseNewTask t priority k;
     Some (prvAddNewTaskToReadyList t k)
   }"

definition vTaskStartScheduler :: "tid \<Rightarrow> kernel \<Rightarrow> kernel option" where
  "vTaskStartScheduler idle k = do {
     k \<leftarrow> xTaskCreate idle 0 k;
     Some (k\<lparr>xNextTaskUnblockTime := MAX_DELAY, xSchedulerRunning := True, xTickCount := 0\<rparr>)
   }"

text \<open>Taking a task off its lists, as \<open>vTaskDelete\<close> and \<open>vTaskSuspend\<close> begin.\<close>

definition unlink_task :: "tid \<Rightarrow> kernel \<Rightarrow> kernel option" where
  "unlink_task t k = do {
     (k, n) \<leftarrow> state_remove t k;
     let k = (if n = 0 then taskRESET_READY_PRIORITY (uxPriority (tcb k t)) k else k);
     Some (event_remove t k)
   }"

definition vTaskDelete :: "tid \<Rightarrow> kernel \<Rightarrow> kernel option" where
  "vTaskDelete t k = do {
     k \<leftarrow> unlink_task t k;
     if pxCurrentTCB k = Some t then do {
       let k = state_append TerminationL t k;
       let k = k\<lparr>uxDeletedTasksWaitingCleanUp := uxDeletedTasksWaitingCleanUp k + 1\<rparr>;
       if xSchedulerRunning k then do {
         _ \<leftarrow> guard (uxSchedulerSuspended k = 0);
         Some (yield k)
       } else Some k
     }
     else Some (prvResetNextTaskUnblockTime (k\<lparr>uxCurrentNumberOfTasks := uxCurrentNumberOfTasks k - 1\<rparr>))
   }"

fun prvCheckTasksWaitingTermination :: "nat \<Rightarrow> kernel \<Rightarrow> kernel option" where
  "prvCheckTasksWaitingTermination 0 k = Some k"
| "prvCheckTasksWaitingTermination (Suc n) k =
    (case slist k TerminationL of
       [] \<Rightarrow> None
     | t # _ \<Rightarrow> do {
         (k, _) \<leftarrow> state_remove t k;
         prvCheckTasksWaitingTermination n
           (k\<lparr>uxCurrentNumberOfTasks := uxCurrentNumberOfTasks k - 1,
              uxDeletedTasksWaitingCleanUp := uxDeletedTasksWaitingCleanUp k - 1\<rparr>)
       })"

text \<open>The loop runs until the counter is zero.\<close>

definition idle_cleanup :: "kernel \<Rightarrow> kernel option" where
  "idle_cleanup k = prvCheckTasksWaitingTermination (uxDeletedTasksWaitingCleanUp k) k"

section \<open>States and priorities of a task\<close>

datatype eTaskState = eRunning | eReady | eBlocked | eSuspended | eDeleted

definition configTASK_NOTIFICATION_ARRAY_ENTRIES :: nat where
  "configTASK_NOTIFICATION_ARRAY_ENTRIES = 8"

definition eTaskGetState :: "tid \<Rightarrow> kernel \<Rightarrow> eTaskState" where
  "eTaskGetState t k =
    (if pxCurrentTCB k = Some t then eRunning
     else case state_in (tcb k t) of
       Some (DelayedL _) \<Rightarrow> eBlocked
     | Some SuspendedL \<Rightarrow>
         (if event_in (tcb k t) = None
          then (if \<exists>i \<in> set [0..<configTASK_NOTIFICATION_ARRAY_ENTRIES].
                     ucNotifyState (tcb k t) i = WAITING then eBlocked else eSuspended)
          else eBlocked)
     | Some TerminationL \<Rightarrow> eDeleted
     | None \<Rightarrow> eDeleted
     | Some (ReadyL _) \<Rightarrow> eReady)"

definition vTaskPrioritySet :: "tid \<Rightarrow> nat \<Rightarrow> kernel \<Rightarrow> kernel option" where
  "vTaskPrioritySet t new k = do {
     _ \<leftarrow> guard (new < configMAX_PRIORITIES);
     me \<leftarrow> pxCurrentTCB k;
     if uxBasePriority (tcb k t) \<noteq> new then do {
       let needs_yield = (if uxBasePriority (tcb k t) < new
                          then t \<noteq> me \<and> uxPriority (tcb k me) \<le> new else t = me);
       let used = uxPriority (tcb k t);
       let k = (if uxBasePriority (tcb k t) = uxPriority (tcb k t)
                then upd_tcb t (uxPriority_update (\<lambda>_. new)) k else k);
       let k = upd_tcb t (uxBasePriority_update (\<lambda>_. new)) k;
       let k = set_event_priority t new k;
       k \<leftarrow> (if state_in (tcb k t) = Some (ReadyL used) then do {
              (k, n) \<leftarrow> state_remove t k;
              let k = (if n = 0 then reset_top used k else k);
              Some (prvAddTaskToReadyList t k)
            } else Some k);
       Some (if needs_yield then yield k else k)
     } else Some k
   }"

section \<open>Suspending and resuming tasks\<close>

definition clear_waiting :: "(nat \<Rightarrow> notify_state) \<Rightarrow> nat \<Rightarrow> notify_state" where
  "clear_waiting f i =
    (if i < configTASK_NOTIFICATION_ARRAY_ENTRIES \<and> f i = WAITING then NOT_WAITING else f i)"

definition vTaskSuspend :: "tid \<Rightarrow> kernel \<Rightarrow> kernel option" where
  "vTaskSuspend t k = do {
     k \<leftarrow> unlink_task t k;
     let k = state_append SuspendedL t k;
     let k = upd_tcb t (ucNotifyState_update clear_waiting) k;
     let k = (if xSchedulerRunning k then prvResetNextTaskUnblockTime k else k);
     if pxCurrentTCB k = Some t then
       (if xSchedulerRunning k then do {
          _ \<leftarrow> guard (uxSchedulerSuspended k = 0);
          Some (yield k)
        }
        else if length (slist k SuspendedL) = uxCurrentNumberOfTasks k
        then Some (k\<lparr>pxCurrentTCB := None\<rparr>) else vTaskSwitchContext k)
     else Some k
   }"

definition prvTaskIsTaskSuspended :: "tid \<Rightarrow> kernel \<Rightarrow> bool" where
  "prvTaskIsTaskSuspended t k =
    (state_in (tcb k t) = Some SuspendedL \<and> event_in (tcb k t) \<noteq> Some PendingReadyL \<and>
     event_in (tcb k t) = None)"

definition vTaskResume :: "tid \<Rightarrow> kernel \<Rightarrow> kernel option" where
  "vTaskResume t k =
    (if pxCurrentTCB k \<noteq> Some t \<and> prvTaskIsTaskSuspended t k then do {
       k \<leftarrow> make_ready t k;
       me \<leftarrow> pxCurrentTCB k;
       Some (if uxPriority (tcb k me) \<le> uxPriority (tcb k t) then yield k else k)
     } else Some k)"

definition xTaskResumeFromISR :: "tid \<Rightarrow> kernel \<Rightarrow> (kernel \<times> bool) option" where
  "xTaskResumeFromISR t k =
    (if prvTaskIsTaskSuspended t k then
       (if uxSchedulerSuspended k = 0 then do {
          me \<leftarrow> pxCurrentTCB k;
          let y = (uxPriority (tcb k me) \<le> uxPriority (tcb k t));
          k \<leftarrow> make_ready t (if y then k\<lparr>xYieldPending := True\<rparr> else k);
          Some (k, y)
        } else Some (event_append PendingReadyL t k, False))
     else Some (k, False))"

definition xTaskAbortDelay :: "tid \<Rightarrow> kernel \<Rightarrow> (kernel \<times> bool) option" where
  "xTaskAbortDelay t k = do {
     let k = vTaskSuspendAll k;
     if eTaskGetState t k = eBlocked then do {
       (k, _) \<leftarrow> state_remove t k;
       let k = (if event_in (tcb k t) \<noteq> None
                then upd_tcb t (ucDelayAborted_update (\<lambda>_. True)) (event_remove t k) else k);
       let k = prvAddTaskToReadyList t k;
       me \<leftarrow> pxCurrentTCB k;
       let k = (if uxPriority (tcb k me) < uxPriority (tcb k t) then k\<lparr>xYieldPending := True\<rparr> else k);
       (k, _) \<leftarrow> xTaskResumeAll k;
       Some (k, True)
     }
     else do {
       (k, _) \<leftarrow> xTaskResumeAll k;
       Some (k, False)
     }
   }"


section \<open>Event lists\<close>

definition vTaskPlaceOnEventList :: "nat \<Rightarrow> tick \<Rightarrow> kernel \<Rightarrow> kernel option" where
  "vTaskPlaceOnEventList w xTicksToWait k = do {
     me \<leftarrow> pxCurrentTCB k;
     prvAddCurrentTaskToDelayedList xTicksToWait True (event_insert (WaitL w) me k)
   }"

definition vTaskPlaceOnUnorderedEventList :: "nat \<Rightarrow> tick \<Rightarrow> tick \<Rightarrow> kernel \<Rightarrow> kernel option" where
  "vTaskPlaceOnUnorderedEventList w value xTicksToWait k = do {
     _ \<leftarrow> guard (uxSchedulerSuspended k \<noteq> 0);
     me \<leftarrow> pxCurrentTCB k;
     let k = upd_tcb me (event_value_update (\<lambda>_. value OR taskEVENT_LIST_ITEM_VALUE_IN_USE)) k;
     prvAddCurrentTaskToDelayedList xTicksToWait True (event_append (WaitL w) me k)
   }"

definition vTaskPlaceOnEventListRestricted :: "nat \<Rightarrow> tick \<Rightarrow> bool \<Rightarrow> kernel \<Rightarrow> kernel option" where
  "vTaskPlaceOnEventListRestricted w xTicksToWait xWaitIndefinitely k = do {
     me \<leftarrow> pxCurrentTCB k;
     prvAddCurrentTaskToDelayedList (if xWaitIndefinitely then MAX_DELAY else xTicksToWait)
       xWaitIndefinitely (event_append (WaitL w) me k)
   }"

text \<open>With an empty list the C code follows the owner of the list end: \<open>None\<close>.\<close>

definition xTaskRemoveFromEventList :: "nat \<Rightarrow> kernel \<Rightarrow> (kernel \<times> bool) option" where
  "xTaskRemoveFromEventList w k =
    (case elist k (WaitL w) of
       [] \<Rightarrow> None
     | t # _ \<Rightarrow> do {
         let k = event_remove t k;
         k \<leftarrow> (if uxSchedulerSuspended k = 0 then make_ready t k
              else Some (event_append PendingReadyL t k));
         me \<leftarrow> pxCurrentTCB k;
         if uxPriority (tcb k me) < uxPriority (tcb k t)
         then Some (k\<lparr>xYieldPending := True\<rparr>, True) else Some (k, False)
       })"

definition vTaskRemoveFromUnorderedEventList :: "tid \<Rightarrow> tick \<Rightarrow> kernel \<Rightarrow> kernel option" where
  "vTaskRemoveFromUnorderedEventList t value k = do {
     _ \<leftarrow> guard (uxSchedulerSuspended k \<noteq> 0);
     let k = upd_tcb t (event_value_update (\<lambda>_. value OR taskEVENT_LIST_ITEM_VALUE_IN_USE)) k;
     _ \<leftarrow> guard (event_in (tcb k t) \<noteq> None);
     k \<leftarrow> make_ready t (event_remove t k);
     me \<leftarrow> pxCurrentTCB k;
     Some (if uxPriority (tcb k me) < uxPriority (tcb k t) then k\<lparr>xYieldPending := True\<rparr> else k)
   }"

definition uxTaskResetEventItemValue :: "kernel \<Rightarrow> (kernel \<times> tick) option" where
  "uxTaskResetEventItemValue k = do {
     me \<leftarrow> pxCurrentTCB k;
     Some (upd_tcb me (event_value_update (\<lambda>_. item_value (uxPriority (tcb k me)))) k,
           event_value (tcb k me))
   }"

definition vTaskMissedYield :: "kernel \<Rightarrow> kernel" where
  "vTaskMissedYield k = k\<lparr>xYieldPending := True\<rparr>"

section \<open>Time-outs\<close>

record time_out =
  xOverflowCount :: "32 word"
  xTimeOnEntering :: tick

definition vTaskInternalSetTimeOutState :: "kernel \<Rightarrow> time_out" where
  "vTaskInternalSetTimeOutState k =
    \<lparr>xOverflowCount = xNumOfOverflows k, xTimeOnEntering = xTickCount k\<rparr>"

text \<open>The result: the kernel, the structure, the ticks left to wait, and whether time is up.\<close>

definition xTaskCheckForTimeOut ::
  "time_out \<Rightarrow> tick \<Rightarrow> kernel \<Rightarrow> (kernel \<times> time_out \<times> tick \<times> bool) option" where
  "xTaskCheckForTimeOut tmo xTicksToWait k = do {
     me \<leftarrow> pxCurrentTCB k;
     let elapsed = xTickCount k - xTimeOnEntering tmo;
     Some (if ucDelayAborted (tcb k me)
           then (upd_tcb me (ucDelayAborted_update (\<lambda>_. False)) k, tmo, xTicksToWait, True)
           else if xTicksToWait = MAX_DELAY then (k, tmo, xTicksToWait, False)
           else if xNumOfOverflows k \<noteq> xOverflowCount tmo \<and> xTickCount k \<ge> xTimeOnEntering tmo
           then (k, tmo, 0, True)
           else if elapsed < xTicksToWait
           then (k, vTaskInternalSetTimeOutState k, xTicksToWait - elapsed, False)
           else (k, tmo, 0, True))
   }"

section \<open>Priority inheritance\<close>

definition pvTaskIncrementMutexHeldCount :: "kernel \<Rightarrow> kernel \<times> tid option" where
  "pvTaskIncrementMutexHeldCount k =
    (case pxCurrentTCB k of
       None \<Rightarrow> (k, None)
     | Some me \<Rightarrow> (upd_tcb me (uxMutexesHeld_update (\<lambda>n. n + 1)) k, Some me))"

text \<open>Changing the priority of a task, moving it to the ready list of its new priority.\<close>

definition requeue :: "tid \<Rightarrow> nat \<Rightarrow> nat \<Rightarrow> kernel \<Rightarrow> kernel option" where
  "requeue t reset new k = do {
     (k, n) \<leftarrow> state_remove t k;
     let k = (if n = 0 then reset_top reset k else k);
     let k = upd_tcb t (uxPriority_update (\<lambda>_. new)) k;
     Some (prvAddTaskToReadyList t k)
   }"

definition xTaskPriorityInherit :: "tid option \<Rightarrow> kernel \<Rightarrow> (kernel \<times> bool) option" where
  "xTaskPriorityInherit holder k =
    (case holder of
       None \<Rightarrow> Some (k, False)
     | Some h \<Rightarrow> do {
         me \<leftarrow> pxCurrentTCB k;
         let p = uxPriority (tcb k me);
         if uxPriority (tcb k h) < p then do {
           let k = set_event_priority h p k;
           k \<leftarrow> (if state_in (tcb k h) = Some (ReadyL (uxPriority (tcb k h)))
                then requeue h (uxPriority (tcb k h)) p k
                else Some (upd_tcb h (uxPriority_update (\<lambda>_. p)) k));
           Some (k, True)
         }
         else Some (k, uxBasePriority (tcb k h) < p)
       })"

definition xTaskPriorityDisinherit :: "tid option \<Rightarrow> kernel \<Rightarrow> (kernel \<times> bool) option" where
  "xTaskPriorityDisinherit holder k =
    (case holder of
       None \<Rightarrow> Some (k, False)
     | Some h \<Rightarrow> do {
         _ \<leftarrow> guard (pxCurrentTCB k = Some h);
         _ \<leftarrow> guard (uxMutexesHeld (tcb k h) \<noteq> 0);
         let k = upd_tcb h (uxMutexesHeld_update (\<lambda>n. n - 1)) k;
         if uxPriority (tcb k h) \<noteq> uxBasePriority (tcb k h) \<and> uxMutexesHeld (tcb k h) = 0 then do {
           (k, n) \<leftarrow> state_remove h k;
           let k = (if n = 0 then reset_top (uxPriority (tcb k h)) k else k);
           let k = upd_tcb h (\<lambda>c. c\<lparr>uxPriority := uxBasePriority c,
                                   event_value := item_value (uxBasePriority c)\<rparr>) k;
           Some (prvAddTaskToReadyList h k, True)
         }
         else Some (k, False)
       })"

text \<open>
  The ready mask is reset with the priority the task has been given, not with the one whose
  list it left.
\<close>

definition vTaskPriorityDisinheritAfterTimeout ::
  "tid option \<Rightarrow> nat \<Rightarrow> kernel \<Rightarrow> kernel option" where
  "vTaskPriorityDisinheritAfterTimeout holder highest k =
    (case holder of
       None \<Rightarrow> Some k
     | Some h \<Rightarrow> do {
         _ \<leftarrow> guard (uxMutexesHeld (tcb k h) \<noteq> 0);
         let use = (if uxBasePriority (tcb k h) < highest then highest else uxBasePriority (tcb k h));
         if uxPriority (tcb k h) \<noteq> use \<and> uxMutexesHeld (tcb k h) = 1 then do {
           _ \<leftarrow> guard (pxCurrentTCB k \<noteq> Some h);
           let used = uxPriority (tcb k h);
           let k = upd_tcb h (uxPriority_update (\<lambda>_. use)) k;
           let k = set_event_priority h use k;
           if state_in (tcb k h) = Some (ReadyL used) then do {
             (k, n) \<leftarrow> state_remove h k;
             let k = (if n = 0 then reset_top (uxPriority (tcb k h)) k else k);
             Some (prvAddTaskToReadyList h k)
           } else Some k
         }
         else Some k
       })"

section \<open>Notifications\<close>

datatype eNotifyAction =
  eNoAction | eSetBits | eIncrement | eSetValueWithOverwrite | eSetValueWithoutOverwrite

definition set_notify :: "nat \<Rightarrow> notify_state \<Rightarrow> tcb \<Rightarrow> tcb" where
  "set_notify i s c = c\<lparr>ucNotifyState := (ucNotifyState c)(i := s)\<rparr>"

definition notify_value :: "eNotifyAction \<Rightarrow> 32 word \<Rightarrow> notify_state \<Rightarrow> 32 word \<Rightarrow> 32 word \<times> bool" where
  "notify_value action v original old =
    (case action of
       eSetBits \<Rightarrow> (old OR v, True)
     | eIncrement \<Rightarrow> (old + 1, True)
     | eSetValueWithOverwrite \<Rightarrow> (v, True)
     | eSetValueWithoutOverwrite \<Rightarrow> (if original \<noteq> RECEIVED then (v, True) else (old, False))
     | eNoAction \<Rightarrow> (old, True))"

text \<open>The first critical section of the two waiting functions: block unless already notified.\<close>

definition block_for_notification :: "nat \<Rightarrow> tick \<Rightarrow> kernel \<Rightarrow> kernel option" where
  "block_for_notification i xTicksToWait k = do {
     me \<leftarrow> pxCurrentTCB k;
     let k = upd_tcb me (set_notify i WAITING) k;
     if 0 < xTicksToWait then do {
       k \<leftarrow> prvAddCurrentTaskToDelayedList xTicksToWait True k;
       Some (yield k)
     } else Some k
   }"

definition xTaskGenericNotifyWait_enter :: "nat \<Rightarrow> 32 word \<Rightarrow> tick \<Rightarrow> kernel \<Rightarrow> kernel option" where
  "xTaskGenericNotifyWait_enter i ulBitsToClearOnEntry xTicksToWait k = do {
     _ \<leftarrow> guard (i < configTASK_NOTIFICATION_ARRAY_ENTRIES);
     me \<leftarrow> pxCurrentTCB k;
     if ucNotifyState (tcb k me) i \<noteq> RECEIVED then
       block_for_notification i xTicksToWait
         (upd_tcb me (\<lambda>c. c\<lparr>ulNotifiedValue :=
            (ulNotifiedValue c)(i := ulNotifiedValue c i AND NOT ulBitsToClearOnEntry)\<rparr>) k)
     else Some k
   }"

definition xTaskGenericNotifyWait_leave :: "nat \<Rightarrow> 32 word \<Rightarrow> kernel \<Rightarrow> (kernel \<times> 32 word \<times> bool) option" where
  "xTaskGenericNotifyWait_leave i ulBitsToClearOnExit k = do {
     me \<leftarrow> pxCurrentTCB k;
     let v = ulNotifiedValue (tcb k me) i;
     let received = (ucNotifyState (tcb k me) i = RECEIVED);
     let k = (if received
              then upd_tcb me (\<lambda>c. c\<lparr>ulNotifiedValue :=
                     (ulNotifiedValue c)(i := v AND NOT ulBitsToClearOnExit)\<rparr>) k else k);
     Some (upd_tcb me (set_notify i NOT_WAITING) k, v, received)
   }"

definition ulTaskGenericNotifyTake_enter :: "nat \<Rightarrow> tick \<Rightarrow> kernel \<Rightarrow> kernel option" where
  "ulTaskGenericNotifyTake_enter i xTicksToWait k = do {
     _ \<leftarrow> guard (i < configTASK_NOTIFICATION_ARRAY_ENTRIES);
     me \<leftarrow> pxCurrentTCB k;
     if ulNotifiedValue (tcb k me) i = 0 then block_for_notification i xTicksToWait k else Some k
   }"

definition ulTaskGenericNotifyTake_leave :: "nat \<Rightarrow> bool \<Rightarrow> kernel \<Rightarrow> (kernel \<times> 32 word) option" where
  "ulTaskGenericNotifyTake_leave i xClearCountOnExit k = do {
     me \<leftarrow> pxCurrentTCB k;
     let v = ulNotifiedValue (tcb k me) i;
     let k = (if v \<noteq> 0
              then upd_tcb me (\<lambda>c. c\<lparr>ulNotifiedValue :=
                     (ulNotifiedValue c)(i := if xClearCountOnExit then 0 else v - 1)\<rparr>) k else k);
     Some (upd_tcb me (set_notify i NOT_WAITING) k, v)
   }"

text \<open>What both notifying functions do to the target before waking it.\<close>

definition deliver :: "tid \<Rightarrow> nat \<Rightarrow> 32 word \<Rightarrow> eNotifyAction \<Rightarrow> kernel \<Rightarrow> kernel \<times> bool" where
  "deliver t i v action k =
    (case notify_value action v (ucNotifyState (tcb k t) i) (ulNotifiedValue (tcb k t) i) of
       (new, ok) \<Rightarrow>
         (upd_tcb t (\<lambda>c. set_notify i RECEIVED
            (c\<lparr>ulNotifiedValue := (ulNotifiedValue c)(i := new)\<rparr>)) k, ok))"

definition xTaskGenericNotify :: "tid \<Rightarrow> nat \<Rightarrow> 32 word \<Rightarrow> eNotifyAction \<Rightarrow> kernel \<Rightarrow> (kernel \<times> bool) option" where
  "xTaskGenericNotify t i v action k = do {
     _ \<leftarrow> guard (i < configTASK_NOTIFICATION_ARRAY_ENTRIES);
     let original = ucNotifyState (tcb k t) i;
     let (k, ok) = deliver t i v action k;
     if original = WAITING then do {
       k \<leftarrow> make_ready t k;
       _ \<leftarrow> guard (event_in (tcb k t) = None);
       me \<leftarrow> pxCurrentTCB k;
       Some (if uxPriority (tcb k me) < uxPriority (tcb k t) then yield k else k, ok)
     } else Some (k, ok)
   }"

definition xTaskGenericNotifyFromISR ::
  "tid \<Rightarrow> nat \<Rightarrow> 32 word \<Rightarrow> eNotifyAction \<Rightarrow> kernel \<Rightarrow> (kernel \<times> bool \<times> bool) option" where
  "xTaskGenericNotifyFromISR t i v action k = do {
     _ \<leftarrow> guard (i < configTASK_NOTIFICATION_ARRAY_ENTRIES);
     let original = ucNotifyState (tcb k t) i;
     let (k, ok) = deliver t i v action k;
     if original = WAITING then do {
       _ \<leftarrow> guard (event_in (tcb k t) = None);
       k \<leftarrow> (if uxSchedulerSuspended k = 0 then make_ready t k
            else Some (event_append PendingReadyL t k));
       me \<leftarrow> pxCurrentTCB k;
       Some (if uxPriority (tcb k me) < uxPriority (tcb k t)
             then (k\<lparr>xYieldPending := True\<rparr>, ok, True) else (k, ok, False))
     } else Some (k, ok, False)
   }"

definition vTaskGenericNotifyGiveFromISR :: "tid \<Rightarrow> nat \<Rightarrow> kernel \<Rightarrow> (kernel \<times> bool) option" where
  "vTaskGenericNotifyGiveFromISR t i k = do {
     (k, _, woken) \<leftarrow> xTaskGenericNotifyFromISR t i 0 eIncrement k;
     Some (k, woken)
   }"

definition xTaskGenericNotifyStateClear :: "tid \<Rightarrow> nat \<Rightarrow> kernel \<Rightarrow> (kernel \<times> bool) option" where
  "xTaskGenericNotifyStateClear t i k = do {
     _ \<leftarrow> guard (i < configTASK_NOTIFICATION_ARRAY_ENTRIES);
     Some (if ucNotifyState (tcb k t) i = RECEIVED
           then (upd_tcb t (set_notify i NOT_WAITING) k, True) else (k, False))
   }"

definition ulTaskGenericNotifyValueClear :: "tid \<Rightarrow> nat \<Rightarrow> 32 word \<Rightarrow> kernel \<Rightarrow> kernel \<times> 32 word" where
  "ulTaskGenericNotifyValueClear t i bits k =
    (upd_tcb t (\<lambda>c. c\<lparr>ulNotifiedValue :=
       (ulNotifiedValue c)(i := ulNotifiedValue c i AND NOT bits)\<rparr>) k,
     ulNotifiedValue (tcb k t) i)"

end
