(* ===== verification/Queue.thy ===== *)
theory Queue
  imports Tasks
begin

text \<open>
  Queues, semaphores and mutexes of \<open>freertos/queue.c\<close>. A queue is a ring of items in a byte
  array, two lists of waiting tasks, which are event lists of the scheduler, and two lock
  counters: while the queue is locked, interrupts move items but leave the waiting lists alone
  and count, and unlocking makes up for it.

  Pointers into the storage area are offsets from its beginning, as integers, because
  \<open>pcReadFrom\<close> steps below the beginning before it wraps. The two variants of the union \<open>u\<close> are
  separate fields: mutexes use the one, all other queues the other. An access outside the storage
  area, a failed assertion, or a null pointer followed is the value \<open>None\<close>.

  The blocking functions are loops around three critical sections with the scheduler suspended in
  between. Each section is a function of its own, so that the steps of interrupts can come
  between them: \<open>_try\<close>, \<open>queue_lock\<close>, \<open>_block\<close>, \<open>prvUnlockQueue_tx\<close>, \<open>prvUnlockQueue_rx\<close>,
  \<open>queue_resume\<close>. Queue sets and co-routines are switched off in the configuration.
\<close>

section \<open>State\<close>

record queue =
  is_mutex :: bool
  storage :: "8 word list"
  pcWriteTo :: int
  pcTail :: int
  pcReadFrom :: int
  xMutexHolder :: "tid option"
  uxRecursiveCallCount :: "32 word"
  xTasksWaitingToSend :: nat
  xTasksWaitingToReceive :: nat
  uxMessagesWaiting :: nat
  uxLength :: nat
  uxItemSize :: nat
  cRxLock :: int
  cTxLock :: int

type_synonym sys = "kernel \<times> queue"

abbreviation queueUNLOCKED :: int where "queueUNLOCKED \<equiv> - 1"
abbreviation queueLOCKED_UNMODIFIED :: int where "queueLOCKED_UNMODIFIED \<equiv> 0"
abbreviation queueINT8_MAX :: int where "queueINT8_MAX \<equiv> 127"

datatype copy_position = queueSEND_TO_BACK | queueSEND_TO_FRONT | queueOVERWRITE

section \<open>Copying items\<close>

definition memcpy_to :: "int \<Rightarrow> 8 word list \<Rightarrow> queue \<Rightarrow> queue option" where
  "memcpy_to off bs q =
    (if 0 \<le> off \<and> nat off + length bs \<le> length (storage q)
     then Some (q\<lparr>storage := take (nat off) (storage q) @ bs @ drop (nat off + length bs) (storage q)\<rparr>)
     else None)"

definition memcpy_from :: "int \<Rightarrow> nat \<Rightarrow> queue \<Rightarrow> 8 word list option" where
  "memcpy_from off n q =
    (if 0 \<le> off \<and> nat off + n \<le> length (storage q) then Some (take n (drop (nat off) (storage q)))
     else None)"

text \<open>The bytes of the item that \<open>pvItemToQueue\<close> points to; the null pointer is only allowed for empty items.\<close>

definition item_bytes :: "8 word list option \<Rightarrow> queue \<Rightarrow> 8 word list option" where
  "item_bytes pv q =
    (case pv of None \<Rightarrow> (if uxItemSize q = 0 then Some [] else None)
     | Some bs \<Rightarrow> (if uxItemSize q \<le> length bs then Some (take (uxItemSize q) bs) else None))"

definition prvCopyDataToQueue ::
  "8 word list option \<Rightarrow> copy_position \<Rightarrow> sys \<Rightarrow> (sys \<times> bool) option" where
  "prvCopyDataToQueue pv xPosition s = (case s of (k, q) \<Rightarrow>
    (if uxItemSize q = 0 then
       (if is_mutex q then do {
          (k, yield_required) \<leftarrow> xTaskPriorityDisinherit (xMutexHolder q) k;
          Some ((k, q\<lparr>xMutexHolder := None, uxMessagesWaiting := uxMessagesWaiting q + 1\<rparr>), yield_required)
        }
        else Some ((k, q\<lparr>uxMessagesWaiting := uxMessagesWaiting q + 1\<rparr>), False))
     else if xPosition = queueSEND_TO_BACK then do {
       bs \<leftarrow> item_bytes pv q;
       q \<leftarrow> memcpy_to (pcWriteTo q) bs q;
       let w = pcWriteTo q + int (uxItemSize q);
       Some ((k, q\<lparr>pcWriteTo := (if w \<ge> pcTail q then 0 else w),
                   uxMessagesWaiting := uxMessagesWaiting q + 1\<rparr>), False)
     }
     else do {
       bs \<leftarrow> item_bytes pv q;
       q \<leftarrow> memcpy_to (pcReadFrom q) bs q;
       let r = pcReadFrom q - int (uxItemSize q);
       let n = (if xPosition = queueOVERWRITE \<and> uxMessagesWaiting q > 0
                then uxMessagesWaiting q - 1 else uxMessagesWaiting q);
       Some ((k, q\<lparr>pcReadFrom := (if r < 0 then pcTail q - int (uxItemSize q) else r),
                   uxMessagesWaiting := n + 1\<rparr>), False)
     }))"

definition prvCopyDataFromQueue :: "queue \<Rightarrow> (queue \<times> 8 word list) option" where
  "prvCopyDataFromQueue q =
    (if uxItemSize q \<noteq> 0 then do {
       let r = pcReadFrom q + int (uxItemSize q);
       let q = q\<lparr>pcReadFrom := (if r \<ge> pcTail q then 0 else r)\<rparr>;
       bs \<leftarrow> memcpy_from (pcReadFrom q) (uxItemSize q) q;
       Some (q, bs)
     }
     else Some (q, []))"

definition prvIsQueueEmpty :: "queue \<Rightarrow> bool" where
  "prvIsQueueEmpty q = (uxMessagesWaiting q = 0)"

definition prvIsQueueFull :: "queue \<Rightarrow> bool" where
  "prvIsQueueFull q = (uxMessagesWaiting q = uxLength q)"

section \<open>Creating and resetting\<close>

text \<open>If a task waits on the list, take it off and make it ready; the flag asks for a yield.\<close>

definition wake_one :: "nat \<Rightarrow> kernel \<Rightarrow> (kernel \<times> bool) option" where
  "wake_one w k = (if elist k (WaitL w) = [] then Some (k, False) else xTaskRemoveFromEventList w k)"

definition yield_if :: "bool \<Rightarrow> kernel \<Rightarrow> kernel" where
  "yield_if b k = (if b then yield k else k)"

abbreviation SIZE_MAX :: nat where "SIZE_MAX \<equiv> 2 ^ 32 - 1"

definition xQueueGenericReset :: "bool \<Rightarrow> sys \<Rightarrow> (sys \<times> bool) option" where
  "xQueueGenericReset xNewQueue s = (case s of (k, q) \<Rightarrow>
    (if uxLength q \<ge> 1 \<and> SIZE_MAX div uxLength q \<ge> uxItemSize q then do {
       let q = q\<lparr>pcTail := int (uxLength q * uxItemSize q), uxMessagesWaiting := 0, pcWriteTo := 0,
                 pcReadFrom := int ((uxLength q - 1) * uxItemSize q),
                 cRxLock := queueUNLOCKED, cTxLock := queueUNLOCKED\<rparr>;
       if \<not> xNewQueue then do {
         (k, y) \<leftarrow> wake_one (xTasksWaitingToSend q) k;
         Some ((yield_if y k, q), True)
       }
       else Some ((k\<lparr>elist := (elist k)(WaitL (xTasksWaitingToSend q) := [],
                                        WaitL (xTasksWaitingToReceive q) := [])\<rparr>, q), True)
     }
     else Some ((k, q), False)))"

text \<open>
  Allocation: \<open>mem\<close> is the storage area that the allocator returns, with arbitrary contents, or
  \<open>None\<close>; \<open>ws\<close> and \<open>wr\<close> are the identities of the two lists in the new structure.
\<close>

definition new_queue :: "nat \<Rightarrow> nat \<Rightarrow> nat \<Rightarrow> nat \<Rightarrow> 8 word list \<Rightarrow> queue" where
  "new_queue len sz ws wr mem =
    \<lparr>is_mutex = False, storage = mem, pcWriteTo = 0, pcTail = 0, pcReadFrom = 0, xMutexHolder = None,
     uxRecursiveCallCount = 0, xTasksWaitingToSend = ws, xTasksWaitingToReceive = wr,
     uxMessagesWaiting = 0, uxLength = len, uxItemSize = sz, cRxLock = 0, cTxLock = 0\<rparr>"

definition prvInitialiseNewQueue :: "nat \<Rightarrow> nat \<Rightarrow> nat \<Rightarrow> nat \<Rightarrow> 8 word list \<Rightarrow> kernel \<Rightarrow> sys option" where
  "prvInitialiseNewQueue len sz ws wr mem k =
    map_option fst (xQueueGenericReset True (k, new_queue len sz ws wr mem))"

definition xQueueGenericCreate ::
  "nat \<Rightarrow> nat \<Rightarrow> nat \<Rightarrow> 8 word list option \<Rightarrow> nat \<Rightarrow> nat \<Rightarrow> kernel \<Rightarrow> sys option option" where
  "xQueueGenericCreate queue_t len sz mem ws wr k =
    (if len > 0 \<and> SIZE_MAX div len \<ge> sz \<and> SIZE_MAX - queue_t \<ge> len * sz then
       (case mem of None \<Rightarrow> Some None
        | Some m \<Rightarrow> map_option Some (prvInitialiseNewQueue len sz ws wr m k))
     else None)"

section \<open>Sending\<close>

datatype attempt = Moved | Refused | MustWait time_out

definition xQueueGenericSend_try ::
  "8 word list option \<Rightarrow> tick \<Rightarrow> copy_position \<Rightarrow> time_out option \<Rightarrow> sys \<Rightarrow> (sys \<times> attempt) option" where
  "xQueueGenericSend_try pv xTicksToWait xCopyPosition entry s = (case s of (k, q) \<Rightarrow> do {
     _ \<leftarrow> guard (\<not> (pv = None \<and> uxItemSize q \<noteq> 0));
     _ \<leftarrow> guard (\<not> (xCopyPosition = queueOVERWRITE \<and> uxLength q \<noteq> 1));
     _ \<leftarrow> guard (\<not> (uxSchedulerSuspended k \<noteq> 0 \<and> xTicksToWait \<noteq> 0));
     if uxMessagesWaiting q < uxLength q \<or> xCopyPosition = queueOVERWRITE then do {
       ((k, q), yield_required) \<leftarrow> prvCopyDataToQueue pv xCopyPosition s;
       if elist k (WaitL (xTasksWaitingToReceive q)) \<noteq> [] then do {
         (k, y) \<leftarrow> xTaskRemoveFromEventList (xTasksWaitingToReceive q) k;
         Some ((yield_if y k, q), Moved)
       }
       else Some ((yield_if yield_required k, q), Moved)
     }
     else if xTicksToWait = 0 then Some (s, Refused)
     else Some (s, MustWait (case entry of None \<Rightarrow> vTaskInternalSetTimeOutState k | Some tmo \<Rightarrow> tmo))
   })"

definition prvLockQueue :: "queue \<Rightarrow> queue" where
  "prvLockQueue q =
    q\<lparr>cRxLock := (if cRxLock q = queueUNLOCKED then queueLOCKED_UNMODIFIED else cRxLock q),
      cTxLock := (if cTxLock q = queueUNLOCKED then queueLOCKED_UNMODIFIED else cTxLock q)\<rparr>"

definition queue_lock :: "sys \<Rightarrow> sys" where
  "queue_lock s = (case s of (k, q) \<Rightarrow> (vTaskSuspendAll k, prvLockQueue q))"

text \<open>What follows the check for the time-out: blocked, to be tried again, or time is up.\<close>

datatype block = Blocked | Retry | TimedOut

definition xQueueGenericSend_block ::
  "time_out \<Rightarrow> tick \<Rightarrow> sys \<Rightarrow> (sys \<times> time_out \<times> tick \<times> block) option" where
  "xQueueGenericSend_block tmo xTicksToWait s = (case s of (k, q) \<Rightarrow> do {
     (k, tmo, ticks, up) \<leftarrow> xTaskCheckForTimeOut tmo xTicksToWait k;
     if \<not> up then
       (if prvIsQueueFull q then do {
          k \<leftarrow> vTaskPlaceOnEventList (xTasksWaitingToSend q) ticks k;
          Some ((k, q), tmo, ticks, Blocked)
        }
        else Some ((k, q), tmo, ticks, Retry))
     else Some ((k, q), tmo, ticks, TimedOut)
   })"

fun unlock_loop :: "nat \<Rightarrow> nat \<Rightarrow> kernel \<Rightarrow> kernel option" where
  "unlock_loop 0 w k = Some k"
| "unlock_loop (Suc n) w k =
    (if elist k (WaitL w) \<noteq> [] then do {
       (k, y) \<leftarrow> xTaskRemoveFromEventList w k;
       unlock_loop n w (if y then vTaskMissedYield k else k)
     }
     else Some k)"

definition prvUnlockQueue_tx :: "sys \<Rightarrow> sys option" where
  "prvUnlockQueue_tx s = (case s of (k, q) \<Rightarrow> do {
     k \<leftarrow> unlock_loop (nat (cTxLock q)) (xTasksWaitingToReceive q) k;
     Some (k, q\<lparr>cTxLock := queueUNLOCKED\<rparr>)
   })"

definition prvUnlockQueue_rx :: "sys \<Rightarrow> sys option" where
  "prvUnlockQueue_rx s = (case s of (k, q) \<Rightarrow> do {
     k \<leftarrow> unlock_loop (nat (cRxLock q)) (xTasksWaitingToSend q) k;
     Some (k, q\<lparr>cRxLock := queueUNLOCKED\<rparr>)
   })"

text \<open>\<open>xTaskResumeAll\<close>, and after blocking \<open>portYIELD_WITHIN_API\<close> unless that has yielded.\<close>

definition queue_resume :: "block \<Rightarrow> sys \<Rightarrow> sys option" where
  "queue_resume b s = (case s of (k, q) \<Rightarrow> do {
     (k, already) \<leftarrow> xTaskResumeAll k;
     Some (if b = Blocked \<and> \<not> already then yield k else k, q)
   })"

text \<open>The second half of the loop body without interrupts in between; the flag is the result.\<close>

definition wait_section ::
  "(sys \<Rightarrow> (sys \<times> time_out \<times> tick \<times> block) option) \<Rightarrow> sys \<Rightarrow> (sys \<times> time_out \<times> tick \<times> block) option" where
  "wait_section blk s = do {
     (s, tmo, ticks, b) \<leftarrow> blk (queue_lock s);
     s \<leftarrow> prvUnlockQueue_tx s;
     s \<leftarrow> prvUnlockQueue_rx s;
     s \<leftarrow> queue_resume b s;
     Some (s, tmo, ticks, b)
   }"

definition raise_lock :: "int \<Rightarrow> int option" where
  "raise_lock c = (if c \<noteq> queueINT8_MAX then Some (c + 1) else None)"

text \<open>What an interrupt does about the waiting receivers once it has added an item.\<close>

definition isr_added :: "int \<Rightarrow> sys \<Rightarrow> (sys \<times> bool) option" where
  "isr_added lock s = (case s of (k, q) \<Rightarrow>
    (if lock = queueUNLOCKED then do {
       (k, woken) \<leftarrow> wake_one (xTasksWaitingToReceive q) k;
       Some ((k, q), woken)
     }
     else do { c \<leftarrow> raise_lock lock; Some ((k, q\<lparr>cTxLock := c\<rparr>), False) }))"

text \<open>The results: whether the item was queued, and whether a task of higher priority was woken.\<close>

definition xQueueGenericSendFromISR ::
  "8 word list option \<Rightarrow> copy_position \<Rightarrow> sys \<Rightarrow> (sys \<times> bool \<times> bool) option" where
  "xQueueGenericSendFromISR pv xCopyPosition s = (case s of (k, q) \<Rightarrow> do {
     _ \<leftarrow> guard (\<not> (pv = None \<and> uxItemSize q \<noteq> 0));
     _ \<leftarrow> guard (\<not> (xCopyPosition = queueOVERWRITE \<and> uxLength q \<noteq> 1));
     if uxMessagesWaiting q < uxLength q \<or> xCopyPosition = queueOVERWRITE then do {
       (s, _) \<leftarrow> prvCopyDataToQueue pv xCopyPosition s;
       (s, woken) \<leftarrow> isr_added (cTxLock q) s;
       Some (s, True, woken)
     }
     else Some (s, False, False)
   })"

definition xQueueGiveFromISR :: "sys \<Rightarrow> (sys \<times> bool \<times> bool) option" where
  "xQueueGiveFromISR s = (case s of (k, q) \<Rightarrow> do {
     _ \<leftarrow> guard (uxItemSize q = 0);
     _ \<leftarrow> guard (\<not> (is_mutex q \<and> xMutexHolder q \<noteq> None));
     if uxMessagesWaiting q < uxLength q then do {
       (s, woken) \<leftarrow> isr_added (cTxLock q) (k, q\<lparr>uxMessagesWaiting := uxMessagesWaiting q + 1\<rparr>);
       Some (s, True, woken)
     }
     else Some (s, False, False)
   })"

section \<open>Receiving\<close>

definition buffer_ok :: "nat option \<Rightarrow> queue \<Rightarrow> bool" where
  "buffer_ok buf q =
    (case buf of None \<Rightarrow> uxItemSize q = 0 | Some n \<Rightarrow> uxItemSize q \<le> n)"

text \<open>The buffer is the number of bytes that fit where \<open>pvBuffer\<close> points to.\<close>

definition xQueueReceive_try ::
  "nat option \<Rightarrow> tick \<Rightarrow> time_out option \<Rightarrow> sys \<Rightarrow> (sys \<times> attempt \<times> 8 word list) option" where
  "xQueueReceive_try buf xTicksToWait entry s = (case s of (k, q) \<Rightarrow> do {
     _ \<leftarrow> guard (buffer_ok buf q);
     _ \<leftarrow> guard (\<not> (uxSchedulerSuspended k \<noteq> 0 \<and> xTicksToWait \<noteq> 0));
     if uxMessagesWaiting q > 0 then do {
       (q1, bs) \<leftarrow> prvCopyDataFromQueue q;
       let q1 = q1\<lparr>uxMessagesWaiting := uxMessagesWaiting q - 1\<rparr>;
       (k, y) \<leftarrow> wake_one (xTasksWaitingToSend q1) k;
       Some ((yield_if y k, q1), Moved, bs)
     }
     else if xTicksToWait = 0 then Some (s, Refused, [])
     else Some (s, MustWait (case entry of None \<Rightarrow> vTaskInternalSetTimeOutState k | Some tmo \<Rightarrow> tmo), [])
   })"

definition xQueueReceive_block ::
  "time_out \<Rightarrow> tick \<Rightarrow> sys \<Rightarrow> (sys \<times> time_out \<times> tick \<times> block) option" where
  "xQueueReceive_block tmo xTicksToWait s = (case s of (k, q) \<Rightarrow> do {
     (k, tmo, ticks, up) \<leftarrow> xTaskCheckForTimeOut tmo xTicksToWait k;
     if \<not> up then
       (if prvIsQueueEmpty q then do {
          k \<leftarrow> vTaskPlaceOnEventList (xTasksWaitingToReceive q) ticks k;
          Some ((k, q), tmo, ticks, Blocked)
        }
        else Some ((k, q), tmo, ticks, Retry))
     else Some ((k, q), tmo, ticks, TimedOut)
   })"

text \<open>Peeking blocks in the same way as receiving.\<close>

definition xQueuePeek_try ::
  "nat option \<Rightarrow> tick \<Rightarrow> time_out option \<Rightarrow> sys \<Rightarrow> (sys \<times> attempt \<times> 8 word list) option" where
  "xQueuePeek_try buf xTicksToWait entry s = (case s of (k, q) \<Rightarrow> do {
     _ \<leftarrow> guard (buffer_ok buf q);
     _ \<leftarrow> guard (\<not> (uxSchedulerSuspended k \<noteq> 0 \<and> xTicksToWait \<noteq> 0));
     if uxMessagesWaiting q > 0 then do {
       (q1, bs) \<leftarrow> prvCopyDataFromQueue q;
       let q1 = q1\<lparr>pcReadFrom := pcReadFrom q\<rparr>;
       (k, y) \<leftarrow> wake_one (xTasksWaitingToReceive q1) k;
       Some ((yield_if y k, q1), Moved, bs)
     }
     else if xTicksToWait = 0 then Some (s, Refused, [])
     else Some (s, MustWait (case entry of None \<Rightarrow> vTaskInternalSetTimeOutState k | Some tmo \<Rightarrow> tmo), [])
   })"

definition xQueueReceiveFromISR :: "nat option \<Rightarrow> sys \<Rightarrow> (sys \<times> bool \<times> bool \<times> 8 word list) option" where
  "xQueueReceiveFromISR buf s = (case s of (k, q) \<Rightarrow> do {
     _ \<leftarrow> guard (buffer_ok buf q);
     if uxMessagesWaiting q > 0 then do {
       (q1, bs) \<leftarrow> prvCopyDataFromQueue q;
       let q1 = q1\<lparr>uxMessagesWaiting := uxMessagesWaiting q - 1\<rparr>;
       if cRxLock q = queueUNLOCKED then do {
         (k, woken) \<leftarrow> wake_one (xTasksWaitingToSend q1) k;
         Some ((k, q1), True, woken, bs)
       }
       else do { c \<leftarrow> raise_lock (cRxLock q); Some ((k, q1\<lparr>cRxLock := c\<rparr>), True, False, bs) }
     }
     else Some (s, False, False, [])
   })"

definition xQueuePeekFromISR :: "nat option \<Rightarrow> queue \<Rightarrow> (queue \<times> bool \<times> 8 word list) option" where
  "xQueuePeekFromISR buf q = do {
     _ \<leftarrow> guard (buffer_ok buf q);
     _ \<leftarrow> guard (uxItemSize q \<noteq> 0);
     if uxMessagesWaiting q > 0 then do {
       (q1, bs) \<leftarrow> prvCopyDataFromQueue q;
       Some (q1\<lparr>pcReadFrom := pcReadFrom q\<rparr>, True, bs)
     }
     else Some (q, False, [])
   }"

definition vQueueWaitForMessageRestricted :: "tick \<Rightarrow> bool \<Rightarrow> sys \<Rightarrow> sys option" where
  "vQueueWaitForMessageRestricted xTicksToWait xWaitIndefinitely s = (case s of (k, q) \<Rightarrow> do {
     let q = prvLockQueue q;
     k \<leftarrow> (if uxMessagesWaiting q = 0
          then vTaskPlaceOnEventListRestricted (xTasksWaitingToReceive q) xTicksToWait xWaitIndefinitely k
          else Some k);
     s \<leftarrow> prvUnlockQueue_tx (k, q);
     prvUnlockQueue_rx s
   })"

section \<open>Semaphores and mutexes\<close>

definition xQueueSemaphoreTake_try ::
  "tick \<Rightarrow> bool \<Rightarrow> time_out option \<Rightarrow> sys \<Rightarrow> (sys \<times> attempt) option" where
  "xQueueSemaphoreTake_try xTicksToWait inherited entry s = (case s of (k, q) \<Rightarrow> do {
     _ \<leftarrow> guard (uxItemSize q = 0);
     _ \<leftarrow> guard (\<not> (uxSchedulerSuspended k \<noteq> 0 \<and> xTicksToWait \<noteq> 0));
     if uxMessagesWaiting q > 0 then do {
       let q = q\<lparr>uxMessagesWaiting := uxMessagesWaiting q - 1\<rparr>;
       let (k, q) = (if is_mutex q
                     then (case pvTaskIncrementMutexHeldCount k of (k, h) \<Rightarrow> (k, q\<lparr>xMutexHolder := h\<rparr>))
                     else (k, q));
       (k, y) \<leftarrow> wake_one (xTasksWaitingToSend q) k;
       Some ((yield_if y k, q), Moved)
     }
     else if xTicksToWait = 0 then do {
       _ \<leftarrow> guard (\<not> inherited);
       Some (s, Refused)
     }
     else Some (s, MustWait (case entry of None \<Rightarrow> vTaskInternalSetTimeOutState k | Some tmo \<Rightarrow> tmo))
   })"

text \<open>The flag \<open>inherited\<close> is \<open>xInheritanceOccurred\<close>, carried from one round to the next.\<close>

definition xQueueSemaphoreTake_block ::
  "time_out \<Rightarrow> tick \<Rightarrow> bool \<Rightarrow> sys \<Rightarrow> (sys \<times> time_out \<times> tick \<times> block \<times> bool) option" where
  "xQueueSemaphoreTake_block tmo xTicksToWait inherited s = (case s of (k, q) \<Rightarrow> do {
     (k, tmo, ticks, up) \<leftarrow> xTaskCheckForTimeOut tmo xTicksToWait k;
     if \<not> up then
       (if prvIsQueueEmpty q then do {
          (k, inherited) \<leftarrow> (if is_mutex q then xTaskPriorityInherit (xMutexHolder q) k
                            else Some (k, inherited));
          k \<leftarrow> vTaskPlaceOnEventList (xTasksWaitingToReceive q) ticks k;
          Some ((k, q), tmo, ticks, Blocked, inherited)
        }
        else Some ((k, q), tmo, ticks, Retry, inherited))
     else Some ((k, q), tmo, ticks, TimedOut, inherited)
   })"

definition prvGetDisinheritPriorityAfterTimeout :: "sys \<Rightarrow> nat" where
  "prvGetDisinheritPriorityAfterTimeout s = (case s of (k, q) \<Rightarrow>
    (case elist k (WaitL (xTasksWaitingToReceive q)) of
       [] \<Rightarrow> 0
     | t # _ \<Rightarrow> unat (of_nat configMAX_PRIORITIES - event_value (tcb k t))))"

text \<open>After the time is up: give up if still empty, otherwise try again.\<close>

definition xQueueSemaphoreTake_expired :: "bool \<Rightarrow> sys \<Rightarrow> (sys \<times> bool) option" where
  "xQueueSemaphoreTake_expired inherited s = (case s of (k, q) \<Rightarrow>
    (if prvIsQueueEmpty q then do {
       k \<leftarrow> (if inherited
            then vTaskPriorityDisinheritAfterTimeout (xMutexHolder q) (prvGetDisinheritPriorityAfterTimeout s) k
            else Some k);
       Some ((k, q), True)
     }
     else Some (s, False)))"

definition prvInitialiseMutex :: "sys \<Rightarrow> sys option" where
  "prvInitialiseMutex s = (case s of (k, q) \<Rightarrow>
    map_option fst (xQueueGenericSend_try None 0 queueSEND_TO_BACK None
      (k, q\<lparr>xMutexHolder := None, is_mutex := True, uxRecursiveCallCount := 0\<rparr>)))"

definition xQueueCreateMutex :: "nat \<Rightarrow> bool \<Rightarrow> nat \<Rightarrow> nat \<Rightarrow> kernel \<Rightarrow> sys option option" where
  "xQueueCreateMutex queue_t alloc ws wr k = do {
     r \<leftarrow> xQueueGenericCreate queue_t 1 0 (if alloc then Some [] else None) ws wr k;
     (case r of None \<Rightarrow> Some None | Some s \<Rightarrow> map_option Some (prvInitialiseMutex s))
   }"

definition xQueueGetMutexHolder :: "queue \<Rightarrow> tid option" where
  "xQueueGetMutexHolder q = (if is_mutex q then xMutexHolder q else None)"

definition xQueueGiveMutexRecursive :: "sys \<Rightarrow> (sys \<times> bool) option" where
  "xQueueGiveMutexRecursive s = (case s of (k, q) \<Rightarrow>
    (if xMutexHolder q = pxCurrentTCB k then do {
       let q = q\<lparr>uxRecursiveCallCount := uxRecursiveCallCount q - 1\<rparr>;
       if uxRecursiveCallCount q = 0 then do {
         (s, _) \<leftarrow> xQueueGenericSend_try None 0 queueSEND_TO_BACK None (k, q);
         Some (s, True)
       }
       else Some ((k, q), True)
     }
     else Some ((k, q), False)))"

text \<open>
  The recursive take: the holder only counts; any other task takes the mutex, here with its first
  attempt, and counts when it has got it.
\<close>

definition xQueueTakeMutexRecursive_try ::
  "tick \<Rightarrow> bool \<Rightarrow> time_out option \<Rightarrow> sys \<Rightarrow> (sys \<times> attempt) option" where
  "xQueueTakeMutexRecursive_try xTicksToWait inherited entry s = (case s of (k, q) \<Rightarrow>
    (if xMutexHolder q = pxCurrentTCB k
     then Some ((k, q\<lparr>uxRecursiveCallCount := uxRecursiveCallCount q + 1\<rparr>), Moved)
     else do {
       ((k, q), r) \<leftarrow> xQueueSemaphoreTake_try xTicksToWait inherited entry s;
       Some ((k, if r = Moved then q\<lparr>uxRecursiveCallCount := uxRecursiveCallCount q + 1\<rparr> else q), r)
     }))"

definition xQueueCreateCountingSemaphore ::
  "nat \<Rightarrow> nat \<Rightarrow> nat \<Rightarrow> bool \<Rightarrow> nat \<Rightarrow> nat \<Rightarrow> kernel \<Rightarrow> sys option option" where
  "xQueueCreateCountingSemaphore queue_t uxMaxCount uxInitialCount alloc ws wr k =
    (if uxMaxCount \<noteq> 0 \<and> uxInitialCount \<le> uxMaxCount then do {
       r \<leftarrow> xQueueGenericCreate queue_t uxMaxCount 0 (if alloc then Some [] else None) ws wr k;
       Some (case r of None \<Rightarrow> None | Some (k, q) \<Rightarrow> Some (k, q\<lparr>uxMessagesWaiting := uxInitialCount\<rparr>))
     }
     else None)"

definition uxQueueMessagesWaiting :: "queue \<Rightarrow> nat" where
  "uxQueueMessagesWaiting q = uxMessagesWaiting q"

definition uxQueueSpacesAvailable :: "queue \<Rightarrow> nat" where
  "uxQueueSpacesAvailable q = uxLength q - uxMessagesWaiting q"

section \<open>Calls that do not wait\<close>

text \<open>With a zero time to wait each of the functions is its first critical section.\<close>

definition xQueueSend_nowait :: "8 word list option \<Rightarrow> copy_position \<Rightarrow> sys \<Rightarrow> (sys \<times> bool) option" where
  "xQueueSend_nowait pv pos s = do {
     (s, r) \<leftarrow> xQueueGenericSend_try pv 0 pos None s;
     Some (s, r = Moved)
   }"

end
