(* ===== verification/QueueData.thy ===== *)
theory QueueData
  imports Queue
begin

text \<open>
  The data of a queue: the ring in the storage area is a sequence of items, to which sending
  adds at one end or the other and from which receiving takes the first.
\<close>

section \<open>The ring\<close>

definition slot :: "queue \<Rightarrow> nat \<Rightarrow> 8 word list" where
  "slot q i = take (uxItemSize q) (drop (i * uxItemSize q) (storage q))"

definition read_index :: "queue \<Rightarrow> nat" where
  "read_index q = nat (pcReadFrom q) div uxItemSize q"

text \<open>The items, the next one to be received first.\<close>

definition items :: "queue \<Rightarrow> 8 word list list" where
  "items q = map (\<lambda>i. slot q ((read_index q + 1 + i) mod uxLength q)) [0..<uxMessagesWaiting q]"

definition ring_ok :: "queue \<Rightarrow> nat \<Rightarrow> bool" where
  "ring_ok q r \<longleftrightarrow> r < uxLength q \<and> pcReadFrom q = int (r * uxItemSize q) \<and>
    pcWriteTo q = int (((r + 1 + uxMessagesWaiting q) mod uxLength q) * uxItemSize q)"

definition queue_inv :: "queue \<Rightarrow> bool" where
  "queue_inv q \<longleftrightarrow> uxMessagesWaiting q \<le> uxLength q \<and>
    length (storage q) = uxLength q * uxItemSize q \<and> pcTail q = int (uxLength q * uxItemSize q) \<and>
    (\<exists>r. ring_ok q r) \<and> - 1 \<le> cRxLock q \<and> - 1 \<le> cTxLock q \<and>
    (is_mutex q \<longrightarrow> uxItemSize q = 0 \<and> uxLength q = 1)"

lemma queue_invD:
  assumes "queue_inv q"
  shows "uxMessagesWaiting q \<le> uxLength q" "length (storage q) = uxLength q * uxItemSize q"
    "pcTail q = int (uxLength q * uxItemSize q)" "- 1 \<le> cRxLock q" "- 1 \<le> cTxLock q" "0 < uxLength q"
  using assms by (auto simp: queue_inv_def ring_ok_def)

lemma queue_inv_step:
  assumes "queue_inv q" "ring_ok q' r" "uxMessagesWaiting q' \<le> uxLength q'"
    "length (storage q') = length (storage q)" "uxLength q' = uxLength q" "uxItemSize q' = uxItemSize q"
    "pcTail q' = pcTail q" "cRxLock q' = cRxLock q" "cTxLock q' = cTxLock q" "is_mutex q' = is_mutex q"
  shows "queue_inv q'"
  using assms by (auto simp: queue_inv_def)

lemma length_items [simp]: "length (items q) = uxMessagesWaiting q"
  by (simp add: items_def)

lemma read_index_ring: "ring_ok q r \<Longrightarrow> uxItemSize q \<noteq> 0 \<Longrightarrow> read_index q = r"
  by (simp add: ring_ok_def read_index_def nat_mult_distrib)

lemma items_empty_size:
  "uxItemSize q = 0 \<Longrightarrow> items q = replicate (uxMessagesWaiting q) []"
  by (simp add: items_def slot_def map_replicate_const)

lemma slot_fits:
  assumes "(i :: nat) < L"
  shows "i * S + S \<le> L * S"
proof -
  have "Suc i * S \<le> L * S" using assms by (intro mult_le_mono1) simp
  then show ?thesis by simp
qed

text \<open>Writing one slot.\<close>

definition write_slot :: "nat \<Rightarrow> 8 word list \<Rightarrow> queue \<Rightarrow> queue" where
  "write_slot i bs q = q\<lparr>storage := take (i * uxItemSize q) (storage q) @ bs @
     drop (i * uxItemSize q + uxItemSize q) (storage q)\<rparr>"

lemma memcpy_to_slot:
  assumes "length (storage q) = uxLength q * uxItemSize q" "i < uxLength q" "length bs = uxItemSize q"
    "off = int (i * uxItemSize q)"
  shows "memcpy_to off bs q = Some (write_slot i bs q)"
proof -
  have "nat off = i * uxItemSize q" using assms(4) by (simp only: nat_int)
  then show ?thesis using assms slot_fits[OF assms(2), of "uxItemSize q"]
    by (simp add: memcpy_to_def write_slot_def del: of_nat_mult)
qed

lemma slot_write_slot:
  assumes "length (storage q) = uxLength q * uxItemSize q" "i < uxLength q" "j < uxLength q"
    "length bs = uxItemSize q"
  shows "slot (write_slot i bs q) j = (if j = i then bs else slot q j)"
proof -
  let ?S = "uxItemSize q"
  have fits: "i * ?S + ?S \<le> length (storage q)" "j * ?S + ?S \<le> length (storage q)"
    using assms slot_fits by simp_all
  consider "j = i" | "j < i" | "i < j" by linarith
  then show ?thesis
  proof cases
    case 1
    then show ?thesis using fits assms(4) by (simp add: slot_def write_slot_def)
  next
    case 2
    then have "j * ?S + ?S \<le> i * ?S" by (rule slot_fits)
    then show ?thesis using 2 fits by (simp add: slot_def write_slot_def take_drop min_def)
  next
    case 3
    then have "i * ?S + ?S \<le> j * ?S" by (rule slot_fits)
    then obtain d where d: "j * ?S = i * ?S + ?S + d" by (metis nat_le_iff_add)
    have "drop (i * ?S + ?S + d) (take (i * ?S) (storage q) @ bs @ drop (i * ?S + ?S) (storage q)) =
        drop (i * ?S + ?S + d) (storage q)"
      using fits assms(4) by (simp add: min_def add_ac)
    then show ?thesis using 3 by (simp add: slot_def write_slot_def d)
  qed
qed

lemma write_slot_simps [simp]:
  "uxItemSize (write_slot i bs q) = uxItemSize q" "uxLength (write_slot i bs q) = uxLength q"
  "uxMessagesWaiting (write_slot i bs q) = uxMessagesWaiting q" "pcTail (write_slot i bs q) = pcTail q"
  "pcReadFrom (write_slot i bs q) = pcReadFrom q" "pcWriteTo (write_slot i bs q) = pcWriteTo q"
  "cRxLock (write_slot i bs q) = cRxLock q" "cTxLock (write_slot i bs q) = cTxLock q"
  "is_mutex (write_slot i bs q) = is_mutex q" "xMutexHolder (write_slot i bs q) = xMutexHolder q"
  "xTasksWaitingToSend (write_slot i bs q) = xTasksWaitingToSend q"
  "xTasksWaitingToReceive (write_slot i bs q) = xTasksWaitingToReceive q"
  by (simp_all add: write_slot_def)

lemma length_write_slot:
  assumes "length (storage q) = uxLength q * uxItemSize q" "i < uxLength q" "length bs = uxItemSize q"
  shows "length (storage (write_slot i bs q)) = uxLength q * uxItemSize q"
  using assms slot_fits[OF assms(2), of "uxItemSize q"] by (simp add: write_slot_def)

section \<open>Adding an item\<close>

lemma mod_step:
  assumes "(w :: nat) < L" "S \<noteq> 0"
  shows "(if int (w * S) + int S \<ge> int (L * S) then 0 else int (w * S) + int S) = int ((Suc w mod L) * S)"
proof -
  have e: "int (w * S) + int S = int (Suc w * S)" by simp
  show ?thesis
  proof (cases "Suc w = L")
    case True
    then show ?thesis unfolding e by simp
  next
    case False
    then have "Suc w < L" using assms by simp
    then have "\<not> int (L * S) \<le> int (Suc w * S)" using assms(2)
      by (simp only: of_nat_le_iff mult_le_cancel2) simp
    then show ?thesis using \<open>Suc w < L\<close> unfolding e by simp
  qed
qed

text \<open>The items of a queue as a function of the read index, which grows by one or shrinks.\<close>

lemma items_eq:
  assumes "ring_ok q r"
  shows "items q = map (\<lambda>i. slot q ((r + 1 + i) mod uxLength q)) [0..<uxMessagesWaiting q]"
proof (cases "uxItemSize q = 0")
  case True
  then show ?thesis by (simp add: items_def slot_def)
next
  case False
  then show ?thesis using read_index_ring[OF assms] by (simp add: items_def)
qed

lemma mod_neq:
  assumes "a < n" "n < (L :: nat)"
  shows "(b + a) mod L \<noteq> (b + n) mod L"
proof
  assume "(b + a) mod L = (b + n) mod L"
  then have "L dvd b + n - (b + a)" using assms(1) by (subst mod_eq_dvd_iff_nat[symmetric]) auto
  then show False using assms by (auto dest: dvd_imp_le)
qed

text \<open>Everything of a queue but the ring: what moving data leaves alone.\<close>

definition q_frame :: "queue \<Rightarrow> bool \<times> nat \<times> nat \<times> nat \<times> nat \<times> int \<times> int \<times> 32 word" where
  "q_frame q = (is_mutex q, uxLength q, uxItemSize q, xTasksWaitingToSend q, xTasksWaitingToReceive q,
    cRxLock q, cTxLock q, uxRecursiveCallCount q)"

lemma q_frame_simps [simp]: "q_frame (write_slot i bs q) = q_frame q"
  "q_frame (q\<lparr>pcWriteTo := w\<rparr>) = q_frame q" "q_frame (q\<lparr>pcReadFrom := r\<rparr>) = q_frame q"
  "q_frame (q\<lparr>uxMessagesWaiting := n\<rparr>) = q_frame q" "q_frame (q\<lparr>xMutexHolder := h\<rparr>) = q_frame q"
  by (simp_all add: q_frame_def write_slot_def)

lemma slot_upd [simp]: "slot (q\<lparr>pcWriteTo := w\<rparr>) = slot q" "slot (q\<lparr>pcReadFrom := w\<rparr>) = slot q"
  "slot (q\<lparr>uxMessagesWaiting := n\<rparr>) = slot q"
  by (auto simp: slot_def fun_eq_iff)

fun deque_send :: "copy_position \<Rightarrow> 'a \<Rightarrow> 'a list \<Rightarrow> 'a list" where
  "deque_send queueSEND_TO_BACK x xs = xs @ [x]"
| "deque_send queueSEND_TO_FRONT x xs = x # xs"
| "deque_send queueOVERWRITE x xs = [x]"

lemma item_bytes_length: "item_bytes pv q = Some bs \<Longrightarrow> length bs = uxItemSize q"
  by (auto simp: item_bytes_def split: option.splits if_splits)

lemma copy_back:
  assumes "queue_inv q" "uxItemSize q \<noteq> 0" "uxMessagesWaiting q < uxLength q" "item_bytes pv q = Some bs"
  obtains q' where "prvCopyDataToQueue pv queueSEND_TO_BACK (k, q) = Some ((k, q'), False)"
    "queue_inv q'" "items q' = items q @ [bs]" "q_frame q' = q_frame q"
proof -
  from assms(1) obtain r where r: "ring_ok q r" by (auto simp: queue_inv_def)
  define w where "w = (r + 1 + uxMessagesWaiting q) mod uxLength q"
  note d = queue_invD[OF assms(1)]
  have w: "w < uxLength q" using d by (simp add: w_def)
  have wt: "pcWriteTo q = int (w * uxItemSize q)" using r by (simp add: ring_ok_def w_def)
  let ?q = "(write_slot w bs q)\<lparr>pcWriteTo := int ((Suc w mod uxLength q) * uxItemSize q),
    uxMessagesWaiting := uxMessagesWaiting q + 1\<rparr>"
  have lb: "length bs = uxItemSize q" using assms(4) by (rule item_bytes_length)
  have cp: "prvCopyDataToQueue pv queueSEND_TO_BACK (k, q) = Some ((k, ?q), False)"
    using mod_step[OF w assms(2)] assms(2,4) memcpy_to_slot[OF d(2) w lb wt] wt d(3)
    by (auto simp: prvCopyDataToQueue_def Let_def simp del: of_nat_mult split: if_splits)
  have ring: "ring_ok ?q r" using r by (simp add: ring_ok_def w_def mod_Suc_eq)
  have inv: "queue_inv ?q" using queue_inv_step[OF assms(1) ring] length_write_slot[OF d(2) w lb] d assms(3)
    by simp
  have it: "items ?q = items q @ [bs]"
  proof -
    have "slot (write_slot w bs q) ((r + 1 + i) mod uxLength q) = slot q ((r + 1 + i) mod uxLength q)"
      if "i < uxMessagesWaiting q" for i
      using mod_neq[OF that assms(3), of "r + 1"] d slot_write_slot[OF d(2) w _ lb] by (simp add: w_def)
    moreover have "slot (write_slot w bs q) w = bs" using slot_write_slot[OF d(2) w w lb] by simp
    ultimately show ?thesis unfolding items_eq[OF ring] items_eq[OF r] by (simp add: w_def)
  qed
  show ?thesis by (rule that[OF cp inv it]) simp
qed

lemma back_one:
  assumes "r < (L :: nat)" "S \<noteq> 0"
  shows "(if int (r * S) - int S < 0 then int (L * S) - int S else int (r * S) - int S) =
    int (((r + (L - 1)) mod L) * S)"
proof (cases r)
  case 0
  then show ?thesis using assms by (cases L) auto
next
  case (Suc k)
  then have "r + (L - 1) = k + L" using assms(1) by simp
  then have "(r + (L - 1)) mod L = k" using Suc assms(1) by simp
  moreover have "\<not> int k * int S < 0" by (simp add: not_less)
  ultimately show ?thesis using Suc by simp
qed

lemma back_one_step: "0 < L \<Longrightarrow> ((r + (L - 1)) mod L + 1 + i) mod L = (r + i) mod (L :: nat)"
proof -
  assume "0 < L"
  have "((r + (L - 1)) mod L + 1 + i) mod L = (r + (L - 1) + (1 + i)) mod L"
    by (simp only: mod_add_left_eq add.assoc)
  also have "r + (L - 1) + (1 + i) = r + i + L" using \<open>0 < L\<close> by simp
  finally show ?thesis by simp
qed

lemma copy_front:
  assumes "queue_inv q" "uxItemSize q \<noteq> 0" "pos \<noteq> queueSEND_TO_BACK"
    "pos = queueSEND_TO_FRONT \<Longrightarrow> uxMessagesWaiting q < uxLength q"
    "pos = queueOVERWRITE \<Longrightarrow> uxLength q = 1" "item_bytes pv q = Some bs"
  obtains q' where "prvCopyDataToQueue pv pos (k, q) = Some ((k, q'), False)"
    "queue_inv q'" "items q' = deque_send pos bs (items q)" "q_frame q' = q_frame q"
proof -
  from assms(1) obtain r where r: "ring_ok q r" by (auto simp: queue_inv_def)
  note d = queue_invD[OF assms(1)]
  have rl: "r < uxLength q" and rf: "pcReadFrom q = int (r * uxItemSize q)" using r by (auto simp: ring_ok_def)
  let ?n = "if pos = queueOVERWRITE \<and> uxMessagesWaiting q > 0 then uxMessagesWaiting q - 1
    else uxMessagesWaiting q"
  let ?r = "(r + (uxLength q - 1)) mod uxLength q"
  let ?q = "(write_slot r bs q)\<lparr>pcReadFrom := int (?r * uxItemSize q), uxMessagesWaiting := ?n + 1\<rparr>"
  have lb: "length bs = uxItemSize q" using assms(6) by (rule item_bytes_length)
  have n: "?n < uxLength q" using assms(3-5) d by (cases pos) auto
  have nw: "?n = uxMessagesWaiting q \<or> uxLength q = 1" using assms(5) by auto
  have cp: "prvCopyDataToQueue pv pos (k, q) = Some ((k, ?q), False)"
    using back_one[OF rl assms(2)] assms(2,3,6) memcpy_to_slot[OF d(2) rl lb rf] rf d(3)
    by (auto simp: prvCopyDataToQueue_def Let_def simp del: of_nat_mult split: if_splits)
  have ring: "ring_ok ?q ?r"
    using r nw back_one_step[OF d(6), of r "?n + 1"] d(6) by (auto simp: ring_ok_def add_ac)
  have inv: "queue_inv ?q" using queue_inv_step[OF assms(1) ring] length_write_slot[OF d(2) rl lb] d n
    by simp
  have it: "items ?q = deque_send pos bs (items q)"
  proof -
    have upt: "[0..<Suc ?n] = 0 # map Suc [0..<?n]" by (simp add: map_Suc_upt upt_conv_Cons)
    have hd: "slot (write_slot r bs q) (r mod uxLength q) = bs"
      using slot_write_slot[OF d(2) rl rl lb] rl by simp
    have other: "slot (write_slot r bs q) ((r + Suc i) mod uxLength q) = slot q ((r + Suc i) mod uxLength q)"
      if "i < ?n" for i
      using mod_neq[of 0 "Suc i" "uxLength q" r] that n d slot_write_slot[OF d(2) rl _ lb] rl by simp
    have "items ?q = map (\<lambda>i. slot (write_slot r bs q) ((r + i) mod uxLength q)) [0..<Suc ?n]"
      unfolding items_eq[OF ring] using back_one_step[OF d(6), of r] by simp
    also have "\<dots> = bs # map (\<lambda>i. slot q ((r + 1 + i) mod uxLength q)) [0..<?n]"
      unfolding upt using hd other by simp
    also have "\<dots> = deque_send pos bs (items q)"
      using assms(3,5) d(1) unfolding items_eq[OF r] by (cases pos) auto
    finally show ?thesis .
  qed
  show ?thesis by (rule that[OF cp inv it]) simp
qed

section \<open>Taking an item\<close>

lemma copy_from:
  assumes "queue_inv q" "uxMessagesWaiting q > 0"
  obtains q1 where "prvCopyDataFromQueue q = Some (q1, hd (items q))" "q_frame q1 = q_frame q"
    "q1\<lparr>pcReadFrom := pcReadFrom q\<rparr> = q"
    "queue_inv (q1\<lparr>uxMessagesWaiting := uxMessagesWaiting q - 1\<rparr>)"
    "items (q1\<lparr>uxMessagesWaiting := uxMessagesWaiting q - 1\<rparr>) = tl (items q)"
proof -
  from assms(1) obtain r where r: "ring_ok q r" by (auto simp: queue_inv_def)
  note d = queue_invD[OF assms(1)]
  have rl: "r < uxLength q" and rf: "pcReadFrom q = int (r * uxItemSize q)" using r by (auto simp: ring_ok_def)
  let ?r = "Suc r mod uxLength q"
  let ?q = "q\<lparr>pcReadFrom := int (?r * uxItemSize q)\<rparr>"
  let ?p = "?q\<lparr>uxMessagesWaiting := uxMessagesWaiting q - 1\<rparr>"
  have hd: "hd (items q) = slot q ?r"
    using assms(2) unfolding items_eq[OF r] by (simp add: upt_conv_Cons)
  have ring: "ring_ok ?p ?r"
    using r d(6) assms(2) by (simp add: ring_ok_def mod_add_left_eq mod_Suc_eq)
  have inv: "queue_inv ?p" using assms(1) ring by (auto simp: queue_inv_def)
  have tl: "items ?p = tl (items q)"
  proof -
    have upt: "[0..<uxMessagesWaiting q] = 0 # map Suc [0..<uxMessagesWaiting q - 1]"
      using assms(2) by (simp add: map_Suc_upt upt_conv_Cons)
    have "(?r + 1 + i) mod uxLength q = (r + 1 + Suc i) mod uxLength q" for i
      by (metis Suc_eq_plus1 add.commute add_Suc_right mod_add_left_eq)
    then show ?thesis unfolding items_eq[OF ring] items_eq[OF r] upt by simp
  qed
  have get: "prvCopyDataFromQueue q = Some (?q, hd (items q))"
  proof (cases "uxItemSize q = 0")
    case True
    then show ?thesis using rf hd by (simp add: prvCopyDataFromQueue_def slot_def)
  next
    case False
    have "?r * uxItemSize q + uxItemSize q \<le> length (storage q)"
      using slot_fits[of ?r "uxLength q" "uxItemSize q"] d by simp
    moreover have "nat (int (?r * uxItemSize q)) = ?r * uxItemSize q" by (rule nat_int)
    ultimately have "memcpy_from (int (?r * uxItemSize q)) (uxItemSize q) ?q = Some (slot q ?r)"
      by (simp add: memcpy_from_def slot_def del: of_nat_mult)
    then show ?thesis using False mod_step[OF rl False] rf d(3) hd
      by (simp add: prvCopyDataFromQueue_def Let_def del: of_nat_mult)
  qed
  show ?thesis by (rule that[OF get _ _ inv tl]) simp_all
qed

end
