(* ===== verification/TaskInv.thy ===== *)
theory TaskInv
  imports Tasks
begin

text \<open>
  The invariant of the scheduler and what each elementary list operation does to it: every item
  is on the list its container field names and on no other, a ready task is on the list of its
  priority, the mask marks exactly the non-empty ready lists, the delayed lists are sorted and
  lie on their side of the tick count, and \<open>xNextTaskUnblockTime\<close> is never late.
\<close>

section \<open>The parts of the invariant\<close>

definition lists_inv :: "kernel \<Rightarrow> bool" where
  "lists_inv k \<longleftrightarrow>
    (\<forall>l. distinct (slist k l)) \<and> (\<forall>l t. t \<in> set (slist k l) \<longleftrightarrow> state_in (tcb k t) = Some l) \<and>
    (\<forall>e. distinct (elist k e)) \<and> (\<forall>e t. t \<in> set (elist k e) \<longleftrightarrow> event_in (tcb k t) = Some e) \<and>
    (\<forall>p x. rindex k p = Some x \<longrightarrow> x \<in> set (slist k (ReadyL p)))"

definition prio_inv :: "kernel \<Rightarrow> bool" where
  "prio_inv k \<longleftrightarrow> (\<forall>t. uxPriority (tcb k t) < 32 \<and> uxBasePriority (tcb k t) < 32) \<and>
    (\<forall>t p. state_in (tcb k t) = Some (ReadyL p) \<longrightarrow> uxPriority (tcb k t) = p)"

definition mask_inv :: "nat set \<Rightarrow> kernel \<Rightarrow> bool" where
  "mask_inv P k \<longleftrightarrow>
    (\<forall>p < 32. p \<notin> P \<longrightarrow> bit (uxTopReadyPriority k) p = (slist k (ReadyL p) \<noteq> []))"

definition wake_time :: "kernel \<Rightarrow> tid \<Rightarrow> nat" where
  "wake_time k t = unat (state_value (tcb k t))"

definition time_inv :: "kernel \<Rightarrow> bool" where
  "time_inv k \<longleftrightarrow> (\<forall>b. sorted (map (wake_time k) (slist k (DelayedL b)))) \<and>
    (\<forall>t. state_in (tcb k t) = Some (pxDelayed k) \<longrightarrow>
       xTickCount k < state_value (tcb k t) \<and> xNextTaskUnblockTime k \<le> state_value (tcb k t)) \<and>
    (\<forall>t. state_in (tcb k t) = Some (pxOverflow k) \<longrightarrow> state_value (tcb k t) < xTickCount k)"

definition notify_inv :: "kernel \<Rightarrow> bool" where
  "notify_inv k \<longleftrightarrow> (\<forall>t i. ucNotifyState (tcb k t) i = WAITING \<longrightarrow> event_in (tcb k t) = None)"

lemma lists_inv_mem: "lists_inv k \<Longrightarrow> (t \<in> set (slist k l)) = (state_in (tcb k t) = Some l)"
  unfolding lists_inv_def by blast

section \<open>Updates that do not touch a part\<close>

lemma upd_tcb_simps [simp]:
  "tcb (upd_tcb t f k) = (tcb k)(t := f (tcb k t))"
  "pxCurrentTCB (upd_tcb t f k) = pxCurrentTCB k"
  "slist (upd_tcb t f k) = slist k" "rindex (upd_tcb t f k) = rindex k"
  "elist (upd_tcb t f k) = elist k" "pxDelayedTaskList (upd_tcb t f k) = pxDelayedTaskList k"
  "xTickCount (upd_tcb t f k) = xTickCount k"
  "uxTopReadyPriority (upd_tcb t f k) = uxTopReadyPriority k"
  "xSchedulerRunning (upd_tcb t f k) = xSchedulerRunning k"
  "xPendedTicks (upd_tcb t f k) = xPendedTicks k"
  "xYieldPending (upd_tcb t f k) = xYieldPending k"
  "xNumOfOverflows (upd_tcb t f k) = xNumOfOverflows k"
  "xNextTaskUnblockTime (upd_tcb t f k) = xNextTaskUnblockTime k"
  "uxSchedulerSuspended (upd_tcb t f k) = uxSchedulerSuspended k"
  "uxCurrentNumberOfTasks (upd_tcb t f k) = uxCurrentNumberOfTasks k"
  "uxDeletedTasksWaitingCleanUp (upd_tcb t f k) = uxDeletedTasksWaitingCleanUp k"
  "sw_int (upd_tcb t f k) = sw_int k"
  by (simp_all add: upd_tcb_def)

lemma guard_simps [simp]: "guard True = Some ()" "guard False = None"
  by (simp_all add: guard_def)

text \<open>What the elementary operations leave alone.\<close>

definition same_rest :: "kernel \<Rightarrow> kernel \<Rightarrow> bool" where
  "same_rest k k' \<longleftrightarrow>
    pxCurrentTCB k' = pxCurrentTCB k \<and> pxDelayedTaskList k' = pxDelayedTaskList k \<and>
    uxCurrentNumberOfTasks k' = uxCurrentNumberOfTasks k \<and>
    uxDeletedTasksWaitingCleanUp k' = uxDeletedTasksWaitingCleanUp k \<and>
    xTickCount k' = xTickCount k \<and> xSchedulerRunning k' = xSchedulerRunning k \<and>
    xPendedTicks k' = xPendedTicks k \<and> xYieldPending k' = xYieldPending k \<and>
    xNumOfOverflows k' = xNumOfOverflows k \<and> uxSchedulerSuspended k' = uxSchedulerSuspended k \<and>
    sw_int k' = sw_int k"

lemma same_rest_refl [simp]: "same_rest k k"
  by (simp add: same_rest_def)

lemma same_rest_trans [trans]: "same_rest k1 k2 \<Longrightarrow> same_rest k2 k3 \<Longrightarrow> same_rest k1 k3"
  by (simp add: same_rest_def)

text \<open>The fields that only switching, creating and deleting tasks change.\<close>

definition same_main :: "kernel \<Rightarrow> kernel \<Rightarrow> bool" where
  "same_main k k' \<longleftrightarrow>
    pxCurrentTCB k' = pxCurrentTCB k \<and> xSchedulerRunning k' = xSchedulerRunning k \<and>
    uxCurrentNumberOfTasks k' = uxCurrentNumberOfTasks k \<and>
    uxDeletedTasksWaitingCleanUp k' = uxDeletedTasksWaitingCleanUp k"

lemma same_main_refl [simp]: "same_main k k"
  by (simp add: same_main_def)

lemma same_main_trans [trans]: "same_main k1 k2 \<Longrightarrow> same_main k2 k3 \<Longrightarrow> same_main k1 k3"
  by (simp add: same_main_def)

lemma same_mainD:
  assumes "same_main k k'"
  shows "pxCurrentTCB k' = pxCurrentTCB k" "xSchedulerRunning k' = xSchedulerRunning k"
    "uxCurrentNumberOfTasks k' = uxCurrentNumberOfTasks k"
    "uxDeletedTasksWaitingCleanUp k' = uxDeletedTasksWaitingCleanUp k"
  using assms by (simp_all add: same_main_def)

lemma same_rest_main: "same_rest k k' \<Longrightarrow> same_main k k'"
  by (simp add: same_rest_def same_main_def)

lemma lists_inv_cong:
  assumes "slist k' = slist k" "elist k' = elist k" "rindex k' = rindex k"
    "\<And>t. state_in (tcb k' t) = state_in (tcb k t)" "\<And>t. event_in (tcb k' t) = event_in (tcb k t)"
  shows "lists_inv k' = lists_inv k"
  unfolding lists_inv_def using assms by simp

lemma prio_inv_cong:
  assumes "\<And>t. state_in (tcb k' t) = state_in (tcb k t)"
    "\<And>t. uxPriority (tcb k' t) = uxPriority (tcb k t)"
    "\<And>t. uxBasePriority (tcb k' t) = uxBasePriority (tcb k t)"
  shows "prio_inv k' = prio_inv k"
  unfolding prio_inv_def using assms by simp

lemma mask_inv_cong:
  assumes "uxTopReadyPriority k' = uxTopReadyPriority k" "slist k' = slist k"
  shows "mask_inv P k' = mask_inv P k"
  unfolding mask_inv_def using assms by simp

lemma time_inv_cong:
  assumes "slist k' = slist k" "pxDelayedTaskList k' = pxDelayedTaskList k"
    "xTickCount k' = xTickCount k" "xNextTaskUnblockTime k' = xNextTaskUnblockTime k"
    "\<And>t. state_in (tcb k' t) = state_in (tcb k t)" "\<And>t. state_value (tcb k' t) = state_value (tcb k t)"
  shows "time_inv k' = time_inv k"
  unfolding time_inv_def wake_time_def using assms by simp

lemma notify_inv_cong:
  assumes "\<And>t. ucNotifyState (tcb k' t) = ucNotifyState (tcb k t)"
    "\<And>t. event_in (tcb k' t) = event_in (tcb k t)"
  shows "notify_inv k' = notify_inv k"
  unfolding notify_inv_def using assms by simp

section \<open>Removing the state item\<close>

definition removed :: "tid \<Rightarrow> kernel \<Rightarrow> kernel" where
  "removed t k = fst (the (state_remove t k))"

lemma state_remove_eq:
  assumes "state_in (tcb k t) = Some l"
  shows "state_remove t k = Some (removed t k, length (remove1 t (slist k l)))"
  using assms by (simp add: removed_def state_remove_def Let_def)

lemma removed_simps:
  assumes "state_in (tcb k t) = Some l"
  shows "tcb (removed t k) = (tcb k)(t := (tcb k t)\<lparr>state_in := None\<rparr>)"
    "slist (removed t k) = (slist k)(l := remove1 t (slist k l))"
    "elist (removed t k) = elist k" "same_rest k (removed t k)"
    "uxTopReadyPriority (removed t k) = uxTopReadyPriority k"
    "xNextTaskUnblockTime (removed t k) = xNextTaskUnblockTime k"
    "rindex (removed t k) = (case l of ReadyL p \<Rightarrow>
       (if rindex k p = Some t then (rindex k)(p := before_in t (slist k l)) else rindex k)
     | _ \<Rightarrow> rindex k)"
  using assms
  by (auto simp: removed_def state_remove_def same_rest_def Let_def split: slist_id.splits)

lemma before_in_mem:
  assumes "distinct xs" "before_in t xs = Some x"
  shows "x \<in> set (remove1 t xs)"
proof -
  let ?as = "takeWhile (\<lambda>x. x \<noteq> t) xs"
  have "?as \<noteq> []" "x = last ?as" using assms(2) by (auto simp: before_in_def Let_def split: if_splits)
  then have "x \<in> set ?as" by simp
  then have "x \<in> set xs" "x \<noteq> t" by (auto dest: set_takeWhileD)
  then show ?thesis by simp
qed

lemma lists_inv_removed:
  assumes "lists_inv k" "state_in (tcb k t) = Some l"
  shows "lists_inv (removed t k)"
proof -
  have inv: "\<And>l. distinct (slist k l)" "\<And>l t. t \<in> set (slist k l) \<longleftrightarrow> state_in (tcb k t) = Some l"
    "\<And>e. distinct (elist k e)" "\<And>e t. t \<in> set (elist k e) \<longleftrightarrow> event_in (tcb k t) = Some e"
    "\<And>p x. rindex k p = Some x \<Longrightarrow> x \<in> set (slist k (ReadyL p))"
    using assms(1) by (auto simp: lists_inv_def)
  have "x \<in> set (slist (removed t k) (ReadyL p))" if "rindex (removed t k) p = Some x" for p x
    using that before_in_mem[OF inv(1), of t "ReadyL p" x] inv(5)[of p x] assms(2)
    unfolding removed_simps[OF assms(2)]
    by (auto split: slist_id.splits if_splits)
  then show ?thesis
    unfolding lists_inv_def
    using inv assms(2) by (auto simp: removed_simps[OF assms(2)])
qed

lemma prio_inv_removed:
  assumes "prio_inv k" "state_in (tcb k t) = Some l"
  shows "prio_inv (removed t k)"
  using assms(1) unfolding prio_inv_def removed_simps[OF assms(2)] by auto

lemma mask_inv_removed:
  assumes "mask_inv P k" "state_in (tcb k t) = Some l" "prio_inv k"
  shows "mask_inv (insert (uxPriority (tcb k t)) P) (removed t k)"
  using assms(1,3) assms(2)
  unfolding mask_inv_def removed_simps[OF assms(2)] prio_inv_def by auto

lemma mask_inv_removed_other:
  assumes "mask_inv P k" "state_in (tcb k t) = Some l" "\<And>p. l \<noteq> ReadyL p"
  shows "mask_inv P (removed t k)"
  using assms(1,3) unfolding mask_inv_def removed_simps[OF assms(2)] by auto

lemma sorted_remove1_map: "sorted (map f xs) \<Longrightarrow> sorted (map f (remove1 t xs))"
proof (induction xs)
  case (Cons x xs)
  then show ?case by (auto dest: notin_set_remove1[rotated] simp: sorted_wrt_map)
qed simp

lemma time_inv_removed:
  assumes "time_inv k" "state_in (tcb k t) = Some l"
  shows "time_inv (removed t k)"
proof -
  have rest: "pxDelayedTaskList (removed t k) = pxDelayedTaskList k"
    "xTickCount (removed t k) = xTickCount k"
    using removed_simps(4)[OF assms(2)] by (simp_all add: same_rest_def)
  have wt: "wake_time (removed t k) = wake_time k"
    by (auto simp: fun_eq_iff wake_time_def removed_simps[OF assms(2)])
  show ?thesis
    using assms(1) unfolding time_inv_def rest wt removed_simps[OF assms(2)]
    by (auto simp: sorted_remove1_map)
qed

lemma notify_inv_removed:
  assumes "notify_inv k" "state_in (tcb k t) = Some l"
  shows "notify_inv (removed t k)"
  using assms(1) by (subst notify_inv_cong[of _ k]) (auto simp: removed_simps[OF assms(2)])


section \<open>Adding to a ready list\<close>

lemma push_bit_1_iff: "bit (push_bit p (1 :: 32 word)) q = (q = p \<and> q < 32)"
  unfolding bit_push_bit_iff bit_1_iff by auto

lemma record_ready_bit:
  "p < 32 \<Longrightarrow> bit (portRECORD_READY_PRIORITY p w) q = (q = p \<or> bit w q)"
  unfolding portRECORD_READY_PRIORITY_def bit_or_iff push_bit_1_iff by auto

lemma reset_ready_bit:
  "q < 32 \<Longrightarrow> bit (portRESET_READY_PRIORITY p w) q = (q \<noteq> p \<and> bit w q)"
  unfolding portRESET_READY_PRIORITY_def bit_and_iff bit_not_iff push_bit_1_iff by auto

lemma set_insert_before [simp]: "set (insert_before n x xs) = insert x (set xs)"
proof (cases n)
  case (Item y)
  have "set (takeWhile (\<lambda>z. z \<noteq> y) xs) \<union> set (dropWhile (\<lambda>z. z \<noteq> y) xs) = set xs"
    by (metis set_append takeWhile_dropWhile_id)
  with Item show ?thesis by auto
qed auto

lemma distinct_insert_before:
  assumes "distinct xs" "x \<notin> set xs"
  shows "distinct (insert_before n x xs)"
proof (cases n)
  case (Item y)
  have "distinct (takeWhile (\<lambda>z. z \<noteq> y) xs @ dropWhile (\<lambda>z. z \<noteq> y) xs)" using assms(1) by simp
  then have "set (takeWhile (\<lambda>z. z \<noteq> y) xs) \<inter> set (dropWhile (\<lambda>z. z \<noteq> y) xs) = {}"
    by (simp only: distinct_append)
  with assms Item show ?thesis
    by (auto dest: set_takeWhileD set_dropWhileD)
qed (use assms in auto)

lemma prvAddTaskToReadyList_simps [simp]:
  "tcb (prvAddTaskToReadyList t k) =
    (tcb k)(t := (tcb k t)\<lparr>state_in := Some (ReadyL (uxPriority (tcb k t)))\<rparr>)"
  "slist (prvAddTaskToReadyList t k) =
    (slist k)(ReadyL (uxPriority (tcb k t)) :=
      insert_before (index_node (rindex k (uxPriority (tcb k t)))) t
        (slist k (ReadyL (uxPriority (tcb k t)))))"
  "elist (prvAddTaskToReadyList t k) = elist k" "rindex (prvAddTaskToReadyList t k) = rindex k"
  "uxTopReadyPriority (prvAddTaskToReadyList t k) =
    portRECORD_READY_PRIORITY (uxPriority (tcb k t)) (uxTopReadyPriority k)"
  "xNextTaskUnblockTime (prvAddTaskToReadyList t k) = xNextTaskUnblockTime k"
  "same_rest k (prvAddTaskToReadyList t k)"
  by (simp_all add: prvAddTaskToReadyList_def Let_def same_rest_def)

lemma same_rest_simps:
  assumes "same_rest k k'"
  shows "pxCurrentTCB k' = pxCurrentTCB k" "pxDelayedTaskList k' = pxDelayedTaskList k"
    "xTickCount k' = xTickCount k" "uxSchedulerSuspended k' = uxSchedulerSuspended k"
    "xYieldPending k' = xYieldPending k" "sw_int k' = sw_int k" "xPendedTicks k' = xPendedTicks k"
    "xNumOfOverflows k' = xNumOfOverflows k" "xSchedulerRunning k' = xSchedulerRunning k"
    "uxCurrentNumberOfTasks k' = uxCurrentNumberOfTasks k"
    "uxDeletedTasksWaitingCleanUp k' = uxDeletedTasksWaitingCleanUp k"
  using assms by (simp_all add: same_rest_def)

lemmas add_ready_rest [simp] = same_rest_simps[OF prvAddTaskToReadyList_simps(7)]

lemma lists_inv_add_ready:
  assumes "lists_inv k" "state_in (tcb k t) = None"
  shows "lists_inv (prvAddTaskToReadyList t k)"
proof -
  have "t \<notin> set (slist k l)" for l using assms by (auto simp: lists_inv_def)
  with assms show ?thesis
    unfolding lists_inv_def by (auto simp: distinct_insert_before)
qed

lemma prio_inv_add_ready: "prio_inv k \<Longrightarrow> prio_inv (prvAddTaskToReadyList t k)"
  unfolding prio_inv_def by auto

lemma insert_before_neq_Nil [simp]: "insert_before n x xs \<noteq> []"
  by (cases n) auto

lemma mask_inv_add_ready:
  assumes "mask_inv P k" "prio_inv k"
  shows "mask_inv (P - {uxPriority (tcb k t)}) (prvAddTaskToReadyList t k)"
proof -
  have "uxPriority (tcb k t) < 32" using assms(2) by (simp add: prio_inv_def)
  with assms(1) show ?thesis by (auto simp: mask_inv_def record_ready_bit)
qed

lemma time_inv_add_ready:
  assumes "time_inv k"
  shows "time_inv (prvAddTaskToReadyList t k)"
proof -
  have "wake_time (prvAddTaskToReadyList t k) = wake_time k"
    by (auto simp: fun_eq_iff wake_time_def)
  with assms show ?thesis by (auto simp: time_inv_def)
qed

lemma notify_inv_add_ready: "notify_inv k \<Longrightarrow> notify_inv (prvAddTaskToReadyList t k)"
  by (subst notify_inv_cong[of _ k]) auto

section \<open>The mask\<close>

lemma reset_top_simps [simp]:
  "tcb (reset_top p k) = tcb k" "slist (reset_top p k) = slist k" "elist (reset_top p k) = elist k"
  "rindex (reset_top p k) = rindex k" "xNextTaskUnblockTime (reset_top p k) = xNextTaskUnblockTime k"
  "same_rest k (reset_top p k)"
  by (simp_all add: reset_top_def same_rest_def)

lemmas reset_top_rest [simp] = same_rest_simps[OF reset_top_simps(6)]

lemma mask_inv_reset_top:
  assumes "mask_inv P k" "slist k (ReadyL p) = []"
  shows "mask_inv (P - {p}) (reset_top p k)"
  using assms by (auto simp: mask_inv_def reset_top_def reset_ready_bit)

text \<open>After an unlinking that left the list of \<open>p\<close> non-empty its bit may stay.\<close>

lemma mask_inv_mono: "mask_inv P k \<Longrightarrow> P \<subseteq> Q \<Longrightarrow> mask_inv Q k"
  unfolding mask_inv_def by auto

lemma inv_reset_top:
  "lists_inv (reset_top p k) = lists_inv k" "prio_inv (reset_top p k) = prio_inv k"
  "time_inv (reset_top p k) = time_inv k" "notify_inv (reset_top p k) = notify_inv k"
  by (rule lists_inv_cong prio_inv_cong time_inv_cong notify_inv_cong; simp)+

section \<open>The other state lists\<close>

lemma state_append_simps [simp]:
  "tcb (state_append l t k) = (tcb k)(t := (tcb k t)\<lparr>state_in := Some l\<rparr>)"
  "slist (state_append l t k) = (slist k)(l := slist k l @ [t])"
  "elist (state_append l t k) = elist k" "rindex (state_append l t k) = rindex k"
  "uxTopReadyPriority (state_append l t k) = uxTopReadyPriority k"
  "xNextTaskUnblockTime (state_append l t k) = xNextTaskUnblockTime k"
  "same_rest k (state_append l t k)"
  by (simp_all add: state_append_def same_rest_def)

lemmas state_append_rest [simp] = same_rest_simps[OF state_append_simps(7)]

lemma state_insert_simps [simp]:
  "tcb (state_insert l t k) = (tcb k)(t := (tcb k t)\<lparr>state_in := Some l\<rparr>)"
  "slist (state_insert l t k) = (slist k)(l := insert_by (wake_time k) t (slist k l))"
  "elist (state_insert l t k) = elist k" "rindex (state_insert l t k) = rindex k"
  "uxTopReadyPriority (state_insert l t k) = uxTopReadyPriority k"
  "xNextTaskUnblockTime (state_insert l t k) = xNextTaskUnblockTime k"
  "same_rest k (state_insert l t k)"
  by (simp_all add: state_insert_def same_rest_def wake_time_def[abs_def])

lemmas state_insert_rest [simp] = same_rest_simps[OF state_insert_simps(7)]

lemma distinct_insert_by: "distinct xs \<Longrightarrow> x \<notin> set xs \<Longrightarrow> distinct (insert_by f x xs)"
  unfolding insert_by_def
  using distinct_append[of "takeWhile (\<lambda>y. f y \<le> f x) xs" "dropWhile (\<lambda>y. f y \<le> f x) xs"]
  by (auto dest: set_takeWhileD set_dropWhileD)

lemma lists_inv_state_add:
  assumes "lists_inv k" "state_in (tcb k t) = None"
  shows "lists_inv (state_append l t k)" "lists_inv (state_insert l t k)"
proof -
  have "t \<notin> set (slist k m)" for m using assms by (auto simp: lists_inv_def)
  with assms show "lists_inv (state_append l t k)" "lists_inv (state_insert l t k)"
    unfolding lists_inv_def by (auto simp: distinct_insert_by)
qed

lemma prio_inv_state_add:
  assumes "prio_inv k" "\<And>p. l \<noteq> ReadyL p"
  shows "prio_inv (state_append l t k)" "prio_inv (state_insert l t k)"
  using assms unfolding prio_inv_def by auto

lemma mask_inv_state_add:
  assumes "mask_inv P k" "\<And>p. l \<noteq> ReadyL p"
  shows "mask_inv P (state_append l t k)" "mask_inv P (state_insert l t k)"
proof -
  have "ReadyL p \<noteq> l" for p using assms(2)[of p] by metis
  with assms(1) show "mask_inv P (state_append l t k)" "mask_inv P (state_insert l t k)"
    unfolding mask_inv_def by auto
qed

lemma time_inv_state_append:
  assumes "time_inv k" "\<And>b. l \<noteq> DelayedL b"
  shows "time_inv (state_append l t k)"
proof -
  have "DelayedL b \<noteq> l" for b using assms(2)[of b] by metis
  moreover have "wake_time (state_append l t k) = wake_time k"
    by (auto simp: fun_eq_iff wake_time_def)
  ultimately show ?thesis using assms(1) by (auto simp: time_inv_def)
qed

lemma notify_inv_state_add:
  "notify_inv (state_append l t k) = notify_inv k" "notify_inv (state_insert l t k) = notify_inv k"
  by (rule notify_inv_cong; auto)+


section \<open>Event items\<close>

lemma event_remove_simps [simp]:
  "tcb (event_remove t k) = (tcb k)(t := (tcb k t)\<lparr>event_in := None\<rparr>)"
  "slist (event_remove t k) = slist k" "rindex (event_remove t k) = rindex k"
  "uxTopReadyPriority (event_remove t k) = uxTopReadyPriority k"
  "xNextTaskUnblockTime (event_remove t k) = xNextTaskUnblockTime k"
  "same_rest k (event_remove t k)"
  by (auto simp: event_remove_def same_rest_def fun_eq_iff split: option.splits)

lemmas event_remove_rest [simp] = same_rest_simps[OF event_remove_simps(6)]

lemma event_remove_elist:
  "elist (event_remove t k) =
    (case event_in (tcb k t) of None \<Rightarrow> elist k | Some e \<Rightarrow> (elist k)(e := remove1 t (elist k e)))"
  by (simp add: event_remove_def split: option.splits)

lemma event_add_simps [simp]:
  "tcb (event_append e t k) = (tcb k)(t := (tcb k t)\<lparr>event_in := Some e\<rparr>)"
  "slist (event_append e t k) = slist k" "rindex (event_append e t k) = rindex k"
  "elist (event_append e t k) = (elist k)(e := elist k e @ [t])"
  "uxTopReadyPriority (event_append e t k) = uxTopReadyPriority k"
  "xNextTaskUnblockTime (event_append e t k) = xNextTaskUnblockTime k"
  "same_rest k (event_append e t k)"
  "tcb (event_insert e t k) = (tcb k)(t := (tcb k t)\<lparr>event_in := Some e\<rparr>)"
  "slist (event_insert e t k) = slist k" "rindex (event_insert e t k) = rindex k"
  "elist (event_insert e t k) =
    (elist k)(e := insert_by (\<lambda>x. unat (event_value (tcb k x))) t (elist k e))"
  "uxTopReadyPriority (event_insert e t k) = uxTopReadyPriority k"
  "xNextTaskUnblockTime (event_insert e t k) = xNextTaskUnblockTime k"
  "same_rest k (event_insert e t k)"
  by (simp_all add: event_append_def event_insert_def same_rest_def)

lemmas event_add_rest [simp] =
  same_rest_simps[OF event_add_simps(7)] same_rest_simps[OF event_add_simps(14)]

lemma lists_inv_event_remove:
  assumes "lists_inv k"
  shows "lists_inv (event_remove t k)"
  using assms unfolding lists_inv_def event_remove_elist
  by (auto split: option.splits)

lemma lists_inv_event_add:
  assumes "lists_inv k" "event_in (tcb k t) = None"
  shows "lists_inv (event_append e t k)" "lists_inv (event_insert e t k)"
proof -
  have "t \<notin> set (elist k m)" for m using assms by (auto simp: lists_inv_def)
  with assms show "lists_inv (event_append e t k)" "lists_inv (event_insert e t k)"
    unfolding lists_inv_def by (auto simp: distinct_insert_by)
qed

section \<open>The invariant of the data structures\<close>

definition core_inv :: "nat set \<Rightarrow> kernel \<Rightarrow> bool" where
  "core_inv P k \<longleftrightarrow> lists_inv k \<and> prio_inv k \<and> mask_inv P k \<and> time_inv k \<and> notify_inv k"

lemma core_invD:
  assumes "core_inv P k"
  shows "lists_inv k" "prio_inv k" "mask_inv P k" "time_inv k" "notify_inv k"
  using assms by (simp_all add: core_inv_def)

text \<open>Kernel fields that the invariant does not mention.\<close>

definition view :: "kernel \<Rightarrow> kernel" where
  "view k = k\<lparr>pxCurrentTCB := None, uxCurrentNumberOfTasks := 0, uxDeletedTasksWaitingCleanUp := 0,
     xSchedulerRunning := False, xPendedTicks := 0, xYieldPending := False, xNumOfOverflows := 0,
     uxSchedulerSuspended := 0, sw_int := False\<rparr>"

lemma view_eqD:
  assumes "view k' = view k"
  shows "tcb k' = tcb k" "slist k' = slist k" "elist k' = elist k" "rindex k' = rindex k"
    "uxTopReadyPriority k' = uxTopReadyPriority k" "xTickCount k' = xTickCount k"
    "xNextTaskUnblockTime k' = xNextTaskUnblockTime k" "pxDelayedTaskList k' = pxDelayedTaskList k"
  using arg_cong[OF assms, of tcb] arg_cong[OF assms, of slist] arg_cong[OF assms, of elist]
    arg_cong[OF assms, of rindex] arg_cong[OF assms, of uxTopReadyPriority]
    arg_cong[OF assms, of xTickCount] arg_cong[OF assms, of xNextTaskUnblockTime]
    arg_cong[OF assms, of pxDelayedTaskList]
  by (simp_all add: view_def)

lemma core_inv_view:
  assumes "view k' = view k"
  shows "core_inv P k' = core_inv P k"
proof -
  note eq = view_eqD[OF assms]
  have "lists_inv k' = lists_inv k" by (rule lists_inv_cong) (simp_all only: eq)
  moreover have "prio_inv k' = prio_inv k" by (rule prio_inv_cong) (simp_all only: eq)
  moreover have "mask_inv P k' = mask_inv P k" by (rule mask_inv_cong) (simp_all only: eq)
  moreover have "time_inv k' = time_inv k" by (rule time_inv_cong) (simp_all only: eq)
  moreover have "notify_inv k' = notify_inv k" by (rule notify_inv_cong) (simp_all only: eq)
  ultimately show ?thesis by (simp only: core_inv_def)
qed

lemma core_inv_fields [simp]:
  "core_inv P (k\<lparr>xYieldPending := b\<rparr>) = core_inv P k"
  "core_inv P (k\<lparr>sw_int := b\<rparr>) = core_inv P k"
  "core_inv P (k\<lparr>pxCurrentTCB := c\<rparr>) = core_inv P k"
  "core_inv P (k\<lparr>uxSchedulerSuspended := n\<rparr>) = core_inv P k"
  "core_inv P (k\<lparr>xPendedTicks := n\<rparr>) = core_inv P k"
  "core_inv P (k\<lparr>uxCurrentNumberOfTasks := n\<rparr>) = core_inv P k"
  "core_inv P (k\<lparr>uxDeletedTasksWaitingCleanUp := n\<rparr>) = core_inv P k"
  "core_inv P (k\<lparr>xSchedulerRunning := b\<rparr>) = core_inv P k"
  "core_inv P (yield k) = core_inv P k"
  by (rule core_inv_view; simp add: view_def yield_def)+

lemma core_inv_upd_tcb:
  assumes "core_inv P k" "\<And>c. state_in (f c) = state_in c" "\<And>c. event_in (f c) = event_in c"
    "\<And>c. uxPriority (f c) = uxPriority c" "\<And>c. uxBasePriority (f c) = uxBasePriority c"
    "\<And>c. state_value (f c) = state_value c"
    "\<And>i. ucNotifyState (f (tcb k t)) i = WAITING \<Longrightarrow>
      ucNotifyState (tcb k t) i = WAITING \<or> event_in (tcb k t) = None"
  shows "core_inv P (upd_tcb t f k)"
proof -
  have "notify_inv (upd_tcb t f k)"
    using assms(1,3,7) unfolding core_inv_def notify_inv_def by auto
  moreover have "lists_inv (upd_tcb t f k) = lists_inv k" by (rule lists_inv_cong) (auto simp: assms)
  moreover have "prio_inv (upd_tcb t f k) = prio_inv k" by (rule prio_inv_cong) (auto simp: assms)
  moreover have "mask_inv P (upd_tcb t f k) = mask_inv P k" by (rule mask_inv_cong) auto
  moreover have "time_inv (upd_tcb t f k) = time_inv k" by (rule time_inv_cong) (auto simp: assms)
  ultimately show ?thesis using assms(1) by (simp add: core_inv_def)
qed

lemma core_inv_event_remove:
  assumes "core_inv P k"
  shows "core_inv P (event_remove t k)"
proof -
  note inv = core_invD[OF assms]
  have "prio_inv (event_remove t k) = prio_inv k" by (rule prio_inv_cong) auto
  moreover have "mask_inv P (event_remove t k) = mask_inv P k" by (rule mask_inv_cong) auto
  moreover have "time_inv (event_remove t k) = time_inv k" by (rule time_inv_cong) auto
  moreover have "notify_inv (event_remove t k)" using inv(5) by (auto simp: notify_inv_def)
  ultimately show ?thesis using inv lists_inv_event_remove by (simp add: core_inv_def)
qed

lemma core_inv_event_add:
  assumes "core_inv P k" "event_in (tcb k t) = None" "\<And>i. ucNotifyState (tcb k t) i \<noteq> WAITING"
  shows "core_inv P (event_append e t k)" "core_inv P (event_insert e t k)"
proof -
  note inv = core_invD[OF assms(1)]
  have "prio_inv (event_append e t k) = prio_inv k" "prio_inv (event_insert e t k) = prio_inv k"
    by (rule prio_inv_cong; auto)+
  moreover have "mask_inv P (event_append e t k) = mask_inv P k"
    "mask_inv P (event_insert e t k) = mask_inv P k" by (rule mask_inv_cong; auto)+
  moreover have "time_inv (event_append e t k) = time_inv k" "time_inv (event_insert e t k) = time_inv k"
    by (rule time_inv_cong; auto)+
  moreover have "notify_inv (event_append e t k)" "notify_inv (event_insert e t k)"
    using inv(5) assms(3) by (auto simp: notify_inv_def)
  ultimately show "core_inv P (event_append e t k)" "core_inv P (event_insert e t k)"
    using inv lists_inv_event_add[OF inv(1) assms(2)] by (simp_all add: core_inv_def)
qed

lemma core_inv_add_ready:
  assumes "core_inv P k" "state_in (tcb k t) = None"
  shows "core_inv (P - {uxPriority (tcb k t)}) (prvAddTaskToReadyList t k)"
  using core_invD[OF assms(1)] assms(2)
  by (simp add: core_inv_def lists_inv_add_ready prio_inv_add_ready mask_inv_add_ready
      time_inv_add_ready notify_inv_add_ready)

lemma core_inv_removed:
  assumes "core_inv P k" "state_in (tcb k t) = Some l"
  shows "core_inv (insert (uxPriority (tcb k t)) P) (removed t k)"
    "(\<And>p. l \<noteq> ReadyL p) \<Longrightarrow> core_inv P (removed t k)"
  using core_invD[OF assms(1)] assms(2) mask_inv_removed_other[of P k t l]
  by (simp_all add: core_inv_def lists_inv_removed prio_inv_removed mask_inv_removed
      time_inv_removed notify_inv_removed)

lemma removed_state [simp]: "state_in (tcb k t) = Some l \<Longrightarrow> state_in (tcb (removed t k) t) = None"
  by (simp add: removed_simps)

text \<open>Removing the state item and putting it on the ready list.\<close>

lemma make_ready_ok:
  assumes "core_inv {} k" "state_in (tcb k t) \<noteq> None"
  shows "\<exists>k'. make_ready t k = Some k' \<and> core_inv {} k' \<and> same_rest k k' \<and>
    tcb k' = (tcb k)(t := (tcb k t)\<lparr>state_in := Some (ReadyL (uxPriority (tcb k t)))\<rparr>) \<and>
    elist k' = elist k \<and> xNextTaskUnblockTime k' = xNextTaskUnblockTime k"
proof -
  obtain l where l: "state_in (tcb k t) = Some l" using assms(2) by auto
  note r = removed_simps[OF l]
  have "core_inv {} (prvAddTaskToReadyList t (removed t k))"
    using core_inv_add_ready[OF core_inv_removed(1)[OF assms(1) l] removed_state[OF l]] r(1) by simp
  moreover have "same_rest k (prvAddTaskToReadyList t (removed t k))"
    using same_rest_trans[OF r(4) prvAddTaskToReadyList_simps(7)] .
  ultimately show ?thesis
    by (simp add: make_ready_def state_remove_eq[OF l] r)
qed

text \<open>Removing it and clearing the bit of an emptied ready list.\<close>

lemma core_inv_unlinked:
  assumes "core_inv {} k" "state_in (tcb k t) = Some l"
    and "n = length (remove1 t (slist k l))" "p = uxPriority (tcb k t)"
    and "(\<exists>q. l = ReadyL q) \<or> k1 = removed t k \<or> k1 = taskRESET_READY_PRIORITY p (removed t k)"
    and "k1 = (if n = 0 then reset_top p (removed t k) else removed t k) \<or>
         k1 = (if n = 0 then taskRESET_READY_PRIORITY p (removed t k) else removed t k)"
  shows "core_inv {} k1"
proof -
  note r = removed_simps[OF assms(2)]
  show ?thesis
  proof (cases "\<exists>q. l = ReadyL q")
    case True
    then have l: "l = ReadyL p"
      using core_invD(2)[OF assms(1)] assms(2,4) by (auto simp: prio_inv_def)
    have list: "slist (removed t k) (ReadyL p) = remove1 t (slist k (ReadyL p))" by (simp add: r l)
    have inv: "core_inv {p} (removed t k)" using core_inv_removed(1)[OF assms(1,2)] assms(4) by simp
    show ?thesis
    proof (cases "n = 0")
      case True
      then have empty: "slist (removed t k) (ReadyL p) = []" using assms(3) l list by simp
      then have "k1 = reset_top p (removed t k)"
        using assms(6) True by (auto simp: taskRESET_READY_PRIORITY_def)
      with core_invD[OF inv] mask_inv_reset_top[OF _ empty, of "{p}"] show ?thesis
        by (simp add: core_inv_def inv_reset_top)
    next
      case False
      then have "k1 = removed t k" using assms(6) by auto
      have "slist (removed t k) (ReadyL p) \<noteq> []" using False assms(3) l list by auto
      moreover have "slist k (ReadyL p) \<noteq> []"
        using lists_inv_mem[OF core_invD(1)[OF assms(1)], of t "ReadyL p"] assms(2) l by auto
      then have "p < 32 \<longrightarrow> bit (uxTopReadyPriority k) p"
        using core_invD(3)[OF assms(1)] by (auto simp: mask_inv_def)
      ultimately have "bit (uxTopReadyPriority (removed t k)) q = (slist (removed t k) (ReadyL q) \<noteq> [])"
        if "q < 32" for q
        using core_invD(3)[OF inv] r(5) that by (cases "q = p") (simp_all add: mask_inv_def)
      then have "mask_inv {} (removed t k)" by (simp add: mask_inv_def)
      with core_invD[OF inv] \<open>k1 = removed t k\<close> show ?thesis by (simp add: core_inv_def)
    qed
  next
    case False
    then have inv: "core_inv {} (removed t k)" using core_inv_removed(2)[OF assms(1,2)] by auto
    from False assms(5) consider "k1 = removed t k" | "k1 = taskRESET_READY_PRIORITY p (removed t k)"
      by auto
    then show ?thesis
    proof cases
      case 2
      show ?thesis
      proof (cases "slist (removed t k) (ReadyL p) = []")
        case True
        with 2 core_invD[OF inv] mask_inv_reset_top[OF _ True, of "{}"] show ?thesis
          by (simp add: core_inv_def inv_reset_top taskRESET_READY_PRIORITY_def)
      next
        case False
        with 2 inv show ?thesis by (simp add: taskRESET_READY_PRIORITY_def)
      qed
    qed (use inv in simp)
  qed
qed

section \<open>Blocking the current task\<close>

lemma time_inv_delay:
  assumes "time_inv k" "lists_inv k" "state_in (tcb k t) = None" "state_value (tcb k t) = wake"
    "wake \<noteq> xTickCount k"
  shows "wake < xTickCount k \<Longrightarrow> time_inv (state_insert (pxOverflow k) t k)"
    "xTickCount k < wake \<Longrightarrow>
      time_inv ((state_insert (pxDelayed k) t k)\<lparr>xNextTaskUnblockTime := min (xNextTaskUnblockTime k) wake\<rparr>)"
proof -
  note inv = assms(1)[unfolded time_inv_def]
  have wt: "wake_time (state_insert l t k) = wake_time k" for l
    by (auto simp: fun_eq_iff wake_time_def)
  have wt2: "wake_time ((state_insert l t k)\<lparr>xNextTaskUnblockTime := n\<rparr>) = wake_time k" for l n
    by (auto simp: fun_eq_iff wake_time_def)
  have sorted: "sorted (map (wake_time k) (insert_by (wake_time k) t (slist k (DelayedL b))))" for b
    using inv by (intro sorted_insert_by) auto
  show "time_inv (state_insert (pxOverflow k) t k)" if "wake < xTickCount k"
    using inv sorted that assms(4) unfolding time_inv_def wt by auto
  show "time_inv ((state_insert (pxDelayed k) t k)\<lparr>xNextTaskUnblockTime := min (xNextTaskUnblockTime k) wake\<rparr>)"
    if "xTickCount k < wake"
    using inv sorted that assms(4) unfolding time_inv_def wt2 by (auto simp: min_le_iff_disj)
qed

lemma core_inv_next:
  assumes "lists_inv k" "prio_inv k" "mask_inv P k" "notify_inv k"
    "time_inv (k\<lparr>xNextTaskUnblockTime := n\<rparr>)"
  shows "core_inv P (k\<lparr>xNextTaskUnblockTime := n\<rparr>)"
proof -
  have "lists_inv (k\<lparr>xNextTaskUnblockTime := n\<rparr>) = lists_inv k" by (rule lists_inv_cong) auto
  moreover have "prio_inv (k\<lparr>xNextTaskUnblockTime := n\<rparr>) = prio_inv k" by (rule prio_inv_cong) auto
  moreover have "mask_inv P (k\<lparr>xNextTaskUnblockTime := n\<rparr>) = mask_inv P k" by (rule mask_inv_cong) auto
  moreover have "notify_inv (k\<lparr>xNextTaskUnblockTime := n\<rparr>) = notify_inv k" by (rule notify_inv_cong) auto
  ultimately show ?thesis using assms by (simp add: core_inv_def)
qed

text \<open>The item value is set while the item is on no list.\<close>

lemma core_inv_set_value:
  assumes "core_inv P k" "state_in (tcb k t) = None"
  shows "core_inv P (upd_tcb t (state_value_update (\<lambda>_. v)) k)"
proof -
  let ?k = "upd_tcb t (state_value_update (\<lambda>_. v)) k"
  note inv = core_invD[OF assms(1)]
  have same: "map (wake_time ?k) (slist ?k l) = map (wake_time k) (slist k l)" for l
    using lists_inv_mem[OF inv(1), of t l] assms(2) by (auto simp: wake_time_def)
  have "time_inv ?k" using inv(4) assms(2) unfolding time_inv_def same by auto
  moreover have "lists_inv ?k = lists_inv k" by (rule lists_inv_cong) auto
  moreover have "prio_inv ?k = prio_inv k" by (rule prio_inv_cong) auto
  moreover have "mask_inv P ?k = mask_inv P k" by (rule mask_inv_cong) auto
  moreover have "notify_inv ?k = notify_inv k" by (rule notify_inv_cong) auto
  ultimately show ?thesis using inv by (simp add: core_inv_def)
qed

definition blocked_list :: "tick \<Rightarrow> bool \<Rightarrow> kernel \<Rightarrow> slist_id" where
  "blocked_list ticks indefinitely k =
    (if ticks = MAX_DELAY \<and> indefinitely then SuspendedL
     else if xTickCount k + ticks < xTickCount k then pxOverflow k else pxDelayed k)"

definition blocked_tcb :: "tick \<Rightarrow> bool \<Rightarrow> kernel \<Rightarrow> tcb \<Rightarrow> tcb" where
  "blocked_tcb ticks indefinitely k c =
    c\<lparr>ucDelayAborted := False, state_in := Some (blocked_list ticks indefinitely k),
      state_value := (if ticks = MAX_DELAY \<and> indefinitely then state_value c
                      else xTickCount k + ticks)\<rparr>"

lemma unlink_ready:
  assumes "core_inv {} k" "state_in (tcb k t) = Some (ReadyL p)"
  shows "\<exists>k1. do { (k, n) \<leftarrow> state_remove t k;
                   Some (if n = 0 then reset_top (uxPriority (tcb k t)) k else k) } = Some k1 \<and>
    core_inv {} k1 \<and> same_rest k k1 \<and> tcb k1 = (tcb k)(t := (tcb k t)\<lparr>state_in := None\<rparr>) \<and>
    elist k1 = elist k \<and> xNextTaskUnblockTime k1 = xNextTaskUnblockTime k"
proof -
  note r = removed_simps[OF assms(2)]
  let ?n = "length (remove1 t (slist k (ReadyL p)))"
  let ?k1 = "if ?n = 0 then reset_top (uxPriority (tcb k t)) (removed t k) else removed t k"
  have "core_inv {} ?k1" by (rule core_inv_unlinked[OF assms refl refl]) auto
  moreover have "same_rest k ?k1"
    using r(4) same_rest_trans[OF r(4) reset_top_simps(6)] by simp
  ultimately show ?thesis
    by (cases "?n = 0") (simp_all add: state_remove_eq[OF assms(2)] r)
qed

lemma word_add_cases:
  assumes "ticks \<noteq> (0 :: 32 word)"
  shows "now + ticks \<noteq> now" "\<not> now + ticks < now \<Longrightarrow> now < now + ticks"
  using assms by (simp_all add: not_less order_less_le)

lemma add_delayed_ok:
  assumes inv: "core_inv {} k" and me: "pxCurrentTCB k = Some me"
    and ready: "state_in (tcb k me) = Some (ReadyL p)" and ticks: "ticks \<noteq> 0"
  shows "\<exists>k'. prvAddCurrentTaskToDelayedList ticks indefinitely k = Some k' \<and> core_inv {} k' \<and>
    same_rest k k' \<and> elist k' = elist k \<and>
    tcb k' = (tcb k)(me := blocked_tcb ticks indefinitely k (tcb k me))"
proof -
  let ?k0 = "upd_tcb me (ucDelayAborted_update (\<lambda>_. False)) k"
  have inv0: "core_inv {} ?k0" by (rule core_inv_upd_tcb[OF inv]) auto
  have ready0: "state_in (tcb ?k0 me) = Some (ReadyL p)" using ready by simp
  obtain k1 where k1: "do { (k, n) \<leftarrow> state_remove me ?k0;
        Some (if n = 0 then reset_top (uxPriority (tcb k me)) k else k) } = Some k1"
    "core_inv {} k1" "same_rest ?k0 k1" "tcb k1 = (tcb ?k0)(me := (tcb ?k0 me)\<lparr>state_in := None\<rparr>)"
    "elist k1 = elist k"
    using unlink_ready[OF inv0 ready0] by auto
  have rest: "same_rest k k1" using k1(3) by (simp add: same_rest_def)
  note rest' = same_rest_simps[OF rest]
  obtain k1' n where rem: "state_remove me ?k0 = Some (k1', n)"
    "k1 = (if n = 0 then reset_top (uxPriority (tcb k1' me)) k1' else k1')"
    using k1(1) by (cases "state_remove me ?k0") auto
  have none: "state_in (tcb k1 me) = None" by (simp add: k1(4))
  note start = prvAddCurrentTaskToDelayedList_def me rem(1)
  show ?thesis
  proof (cases "ticks = MAX_DELAY \<and> indefinitely")
    case True
    have "core_inv {} (state_append SuspendedL me k1)"
      using core_invD[OF k1(2)] none
      by (simp add: core_inv_def lists_inv_state_add prio_inv_state_add mask_inv_state_add
          time_inv_state_append notify_inv_state_add)
    moreover have "same_rest k (state_append SuspendedL me k1)"
      using same_rest_trans[OF rest state_append_simps(7)] .
    ultimately show ?thesis
      using True by (simp add: start k1(4,5) blocked_tcb_def blocked_list_def Let_def flip: rem(2))
  next
    case False
    let ?wake = "xTickCount k + ticks"
    let ?k2 = "upd_tcb me (state_value_update (\<lambda>_. ?wake)) k1"
    have inv2: "core_inv {} ?k2" by (rule core_inv_set_value[OF k1(2) none])
    note inv2' = core_invD[OF inv2]
    have none2: "state_in (tcb ?k2 me) = None" "state_value (tcb ?k2 me) = ?wake" using none by simp_all
    have neq: "?wake \<noteq> xTickCount ?k2" using word_add_cases(1)[OF ticks] by (simp add: rest')
    have bits: "core_inv {} ((state_insert l me ?k2)\<lparr>xNextTaskUnblockTime := n\<rparr>)"
      if "time_inv ((state_insert l me ?k2)\<lparr>xNextTaskUnblockTime := n\<rparr>)" "\<And>p. l \<noteq> ReadyL p" for l n
      using inv2' that none2(1)
      by (intro core_inv_next) (simp_all add: lists_inv_state_add prio_inv_state_add
          mask_inv_state_add notify_inv_state_add)
    show ?thesis
    proof (cases "?wake < xTickCount k")
      case True
      have "time_inv (state_insert (pxOverflow ?k2) me ?k2)"
        using time_inv_delay(1)[OF inv2'(4,1) none2 neq] True by (simp add: rest')
      from bits[where l = "pxOverflow ?k2" and n = "xNextTaskUnblockTime ?k2"] this
      have "core_inv {} (state_insert (pxOverflow ?k2) me ?k2)"
        by (simp add: state_insert_def upd_tcb_def)
      moreover have "same_rest k (state_insert (pxOverflow ?k2) me ?k2)"
        using rest by (simp add: same_rest_def)
      ultimately show ?thesis
        using False True
        by (auto simp: start rest' k1(4,5) blocked_tcb_def blocked_list_def Let_def simp flip: rem(2))
    next
      case wake: False
      let ?k3 = "state_insert (pxDelayed ?k2) me ?k2"
      let ?k4 = "if ?wake < xNextTaskUnblockTime ?k3 then ?k3\<lparr>xNextTaskUnblockTime := ?wake\<rparr> else ?k3"
      have k4: "?k4 = ?k3\<lparr>xNextTaskUnblockTime := min (xNextTaskUnblockTime ?k2) ?wake\<rparr>"
        by (simp add: min_def state_insert_def upd_tcb_def)
      have "time_inv ?k4"
        unfolding k4 using time_inv_delay(2)[OF inv2'(4,1) none2 neq] word_add_cases(2)[OF ticks] wake
        by (simp add: rest')
      with bits[where l = "pxDelayed ?k2"] have "core_inv {} ?k4" unfolding k4 by simp
      moreover have "same_rest k ?k4" using rest by (simp add: same_rest_def)
      ultimately show ?thesis
        using False wake
        by (auto simp: start rest' k1(4,5) blocked_tcb_def blocked_list_def Let_def simp flip: rem(2))
    qed
  qed
qed

end
