(* ===== verification/TaskTick.thy ===== *)
theory TaskTick
  imports TaskInv
begin

text \<open>
  The operations of the scheduler preserve its invariant and never fail an assertion: the
  context switch, the tick, suspending and resuming the scheduler, delaying, the event lists,
  priorities and notifications.
\<close>

section \<open>The context switch\<close>

lemma highest_priority:
  assumes "bit w p" "p < 32"
  shows "\<exists>q. portGET_HIGHEST_PRIORITY w = Some q \<and> q < 32 \<and> bit w q \<and>
    (\<forall>r < 32. bit w r \<longrightarrow> r \<le> q)"
proof -
  let ?xs = "rev (map (bit w) [0..<32])"
  have nth: "?xs ! i = bit w (31 - i)" if "i < 32" for i using that by (simp add: rev_nth)
  have some: "\<exists>x \<in> set ?xs. x" using assms by auto
  let ?c = "length (takeWhile Not ?xs)"
  have "takeWhile Not ?xs \<noteq> ?xs" using some by (metis set_takeWhileD)
  then have less: "?c < 32" using length_takeWhile_le[of Not ?xs]
    by (metis diff_zero length_map length_rev length_upt le_neq_implies_less takeWhile_eq_all_conv
        takeWhile_eq_take take_all_iff)
  have "\<not> Not (?xs ! ?c)" using less by (intro nth_length_takeWhile) simp
  then have top: "bit w (31 - ?c)" using nth[OF less] by simp
  have above: "r \<le> 31 - ?c" if "r < 32" "bit w r" for r
  proof (rule ccontr)
    assume "\<not> r \<le> 31 - ?c"
    then have i: "31 - r < ?c" using that by simp
    then have "Not (takeWhile Not ?xs ! (31 - r))"
      using nth_mem[OF i] set_takeWhileD[of _ Not ?xs] by blast
    then have "\<not> ?xs ! (31 - r)" using takeWhile_nth[OF i] by simp
    moreover have "?xs ! (31 - r) = bit w (31 - (31 - r))" by (rule nth) simp
    moreover have "31 - (31 - r) = r" using that by simp
    ultimately show False using that by metis
  qed
  show ?thesis
    using less top above by (auto simp: portGET_HIGHEST_PRIORITY_def mips_clz_def)
qed

lemma next_in_mem: "xs \<noteq> [] \<Longrightarrow> next_in i xs \<in> set xs"
proof -
  assume xs: "xs \<noteq> []"
  have "y \<in> set xs" if "tl (dropWhile P xs) = y # ys" for P y ys
    using that set_dropWhileD[of y P xs] by (metis list.set_intros(1) list.set_sel(2) list.sel(2) neq_Nil_conv)
  then show ?thesis using xs unfolding next_in_def by (auto split: option.splits list.splits)
qed

lemma core_inv_rindex:
  assumes "core_inv P k" "x \<in> set (slist k (ReadyL p))"
  shows "core_inv P (k\<lparr>rindex := (rindex k)(p := Some x), pxCurrentTCB := c\<rparr>)" (is "core_inv P ?k")
proof -
  have "lists_inv ?k" using core_invD(1)[OF assms(1)] assms(2) by (auto simp: lists_inv_def)
  moreover have "prio_inv ?k = prio_inv k" by (rule prio_inv_cong) auto
  moreover have "mask_inv P ?k = mask_inv P k" by (rule mask_inv_cong) auto
  moreover have "time_inv ?k = time_inv k" by (rule time_inv_cong) auto
  moreover have "notify_inv ?k = notify_inv k" by (rule notify_inv_cong) auto
  ultimately show ?thesis using core_invD[OF assms(1)] by (simp add: core_inv_def)
qed

lemma switch_ok:
  assumes inv: "core_inv {} k" and ready: "state_in (tcb k t) = Some (ReadyL p)"
    and susp: "uxSchedulerSuspended k = 0"
  shows "\<exists>k' q. vTaskSwitchContext k = Some k' \<and> core_inv {} k' \<and>
    pxCurrentTCB k' = Some (next_in (rindex k q) (slist k (ReadyL q))) \<and>
    next_in (rindex k q) (slist k (ReadyL q)) \<in> set (slist k (ReadyL q)) \<and>
    (\<forall>u r. state_in (tcb k u) = Some (ReadyL r) \<longrightarrow> r \<le> q) \<and>
    k' = k\<lparr>xYieldPending := False, rindex := (rindex k)(q := pxCurrentTCB k'),
           pxCurrentTCB := pxCurrentTCB k'\<rparr>"
proof -
  note inv' = core_invD[OF inv]
  have mask: "bit (uxTopReadyPriority k) r = (slist k (ReadyL r) \<noteq> [])" if "r < 32" for r
    using inv'(3) that by (simp add: mask_inv_def)
  have ready_bit: "r < 32 \<and> bit (uxTopReadyPriority k) r"
    if "state_in (tcb k u) = Some (ReadyL r)" for u r
  proof -
    have "r < 32" using inv'(2) that by (metis prio_inv_def)
    moreover have "slist k (ReadyL r) \<noteq> []" using lists_inv_mem[OF inv'(1), of u "ReadyL r"] that by auto
    ultimately show ?thesis using mask by simp
  qed
  obtain q where q: "portGET_HIGHEST_PRIORITY (uxTopReadyPriority k) = Some q" "q < 32"
    "bit (uxTopReadyPriority k) q" "\<And>r. r < 32 \<Longrightarrow> bit (uxTopReadyPriority k) r \<Longrightarrow> r \<le> q"
    using highest_priority ready_bit[OF ready] by blast
  have ne: "slist k (ReadyL q) \<noteq> []" using mask q(2,3) by simp
  let ?u = "next_in (rindex k q) (slist k (ReadyL q))"
  have "core_inv {} (k\<lparr>xYieldPending := False\<rparr>)" using inv by simp
  from core_inv_rindex[OF this, of ?u q "Some ?u"] next_in_mem[OF ne]
  have "core_inv {} (k\<lparr>xYieldPending := False, rindex := (rindex k)(q := Some ?u), pxCurrentTCB := Some ?u\<rparr>)"
    (is "core_inv {} ?k'") by simp
  moreover have "vTaskSwitchContext k = Some ?k'"
    using q(1) ne susp
    by (simp add: vTaskSwitchContext_def taskSELECT_HIGHEST_PRIORITY_TASK_def Let_def)
  moreover have "r \<le> q" if "state_in (tcb k u) = Some (ReadyL r)" for u r
    using ready_bit[OF that] q(4) by blast
  ultimately show ?thesis using next_in_mem[OF ne]
    by (intro exI[of _ ?k'] exI[of _ q]) simp
qed

section \<open>The tick\<close>

definition woken :: "tcb \<Rightarrow> tcb" where
  "woken c = c\<lparr>state_in := Some (ReadyL (uxPriority c)), event_in := None\<rparr>"

text \<open>The invariant without what the loop restores.\<close>

definition loop_inv :: "kernel \<Rightarrow> bool" where
  "loop_inv k \<longleftrightarrow> lists_inv k \<and> prio_inv k \<and> mask_inv {} k \<and> notify_inv k \<and>
    (\<forall>b. sorted (map (wake_time k) (slist k (DelayedL b)))) \<and>
    (\<forall>t. state_in (tcb k t) = Some (pxOverflow k) \<longrightarrow> state_value (tcb k t) < xTickCount k)"

lemma loop_inv_wake:
  assumes "loop_inv k" "state_in (tcb k t) = Some l"
  shows "loop_inv (prvAddTaskToReadyList t (event_remove t (removed t k)))"
proof -
  note r = removed_simps[OF assms(2)]
  let ?k1 = "event_remove t (removed t k)"
  note inv = assms(1)[unfolded loop_inv_def]
  have lists: "lists_inv ?k1" using lists_inv_event_remove lists_inv_removed assms(2) inv by blast
  have prio: "prio_inv (removed t k)" using prio_inv_removed[OF _ assms(2)] inv by blast
  have prio1: "prio_inv ?k1" using prio prio_inv_cong[of ?k1 "removed t k"] by auto
  have "mask_inv {uxPriority (tcb k t)} (removed t k)"
    using mask_inv_removed[OF _ assms(2), of "{}"] inv by simp
  then have mask: "mask_inv {uxPriority (tcb k t)} ?k1"
    using mask_inv_cong[of ?k1 "removed t k"] by auto
  have none: "state_in (tcb ?k1 t) = None" by (simp add: r)
  have "lists_inv (prvAddTaskToReadyList t ?k1)" using lists_inv_add_ready[OF lists none] .
  moreover have "prio_inv (prvAddTaskToReadyList t ?k1)" using prio_inv_add_ready[OF prio1] .
  moreover have "mask_inv {} (prvAddTaskToReadyList t ?k1)"
    using mask_inv_add_ready[OF mask prio1, of t] by (simp add: r)
  moreover have "notify_inv (prvAddTaskToReadyList t ?k1)"
    using inv by (auto simp: notify_inv_def r)
  moreover have wt: "wake_time (prvAddTaskToReadyList t ?k1) = wake_time k"
    by (auto simp: fun_eq_iff wake_time_def r)
  have "sorted (map (wake_time (prvAddTaskToReadyList t ?k1))
      (slist (prvAddTaskToReadyList t ?k1) (DelayedL b)))" for b
    unfolding wt using inv by (auto simp: r sorted_remove1_map)
  moreover have "state_value (tcb k u) < xTickCount k"
    if "state_in (tcb (prvAddTaskToReadyList t ?k1) u) = Some (pxOverflow k)" for u
    using that inv by (auto simp: r split: if_splits)
  ultimately show ?thesis
    using same_rest_simps[OF r(4)] unfolding loop_inv_def
    by (auto simp: r)
qed

lemma wake_expired_ok:
  assumes "loop_inv k" "slist k (pxDelayed k) = xs"
  shows "\<exists>k' s'. wake_expired me (k, s) = Some (k', s') \<and> core_inv {} k' \<and> same_rest k k' \<and>
    (\<forall>t. tcb k' t = (if state_in (tcb k t) = Some (pxDelayed k) \<and> state_value (tcb k t) \<le> xTickCount k
                     then woken (tcb k t) else tcb k t)) \<and>
    (\<forall>e. set (elist k' e) \<subseteq> set (elist k e))"
  using assms
proof (induction xs arbitrary: k s)
  case Nil
  let ?k = "k\<lparr>xNextTaskUnblockTime := MAX_DELAY\<rparr>"
  note inv = Nil.prems(1)[unfolded loop_inv_def]
  have none: "state_in (tcb k t) \<noteq> Some (pxDelayed k)" for t
    using lists_inv_mem[of k t "pxDelayed k"] inv Nil.prems(2) by auto
  have "wake_time ?k = wake_time k" by (auto simp: fun_eq_iff wake_time_def)
  then have "time_inv ?k" using inv none by (auto simp: time_inv_def)
  then have "core_inv {} ?k" using inv by (intro core_inv_next) auto
  moreover have "wake_expired me (k, s) = Some (?k, s)"
    by (subst wake_expired.simps) (simp add: Nil.prems(2))
  ultimately show ?case using none by (auto simp: same_rest_def)
next
  case (Cons t ts)
  note inv = Cons.prems(1)[unfolded loop_inv_def]
  have mem: "u \<in> set (t # ts) \<longleftrightarrow> state_in (tcb k u) = Some (pxDelayed k)" for u
    using lists_inv_mem[of k u "pxDelayed k"] inv Cons.prems(2) by simp
  have t: "state_in (tcb k t) = Some (pxDelayed k)" using mem[of t] by simp
  have sorted: "sorted (map (wake_time k) (t # ts))"
    using inv Cons.prems(2) by (metis (full_types))
  show ?case
  proof (cases "xTickCount k < state_value (tcb k t)")
    case True
    let ?k = "k\<lparr>xNextTaskUnblockTime := state_value (tcb k t)\<rparr>"
    have later: "state_value (tcb k t) \<le> state_value (tcb k u)"
      if "state_in (tcb k u) = Some (pxDelayed k)" for u
      using mem[of u] that sorted by (auto simp: wake_time_def word_le_nat_alt)
    have "wake_time ?k = wake_time k" by (auto simp: fun_eq_iff wake_time_def)
    then have "time_inv ?k" using inv later True by (fastforce simp: time_inv_def)
    then have "core_inv {} ?k" using inv by (intro core_inv_next) auto
    moreover have "wake_expired me (k, s) = Some (?k, s)"
      by (subst wake_expired.simps) (simp add: Cons.prems(2) True)
    ultimately show ?thesis using later True by (fastforce simp: same_rest_def)
  next
    case False
    note r = removed_simps[OF t] and rest = same_rest_simps[OF removed_simps(4)[OF t]]
    let ?k2 = "prvAddTaskToReadyList t (event_remove t (removed t k))"
    have tcb2: "tcb ?k2 = (tcb k)(t := woken (tcb k t))" by (auto simp: r woken_def)
    have list2: "slist ?k2 (pxDelayed ?k2) = ts" using Cons.prems(2) by (simp add: r rest)
    let ?s = "s \<or> uxPriority (tcb ?k2 me) \<le> uxPriority (tcb ?k2 t)"
    obtain k' s' where IH: "wake_expired me (?k2, ?s) = Some (k', s')" "core_inv {} k'"
      "same_rest ?k2 k'"
      "\<forall>u. tcb k' u = (if state_in (tcb ?k2 u) = Some (pxDelayed ?k2) \<and>
          state_value (tcb ?k2 u) \<le> xTickCount ?k2 then woken (tcb ?k2 u) else tcb ?k2 u)"
      "\<forall>e. set (elist k' e) \<subseteq> set (elist ?k2 e)"
      using Cons.IH[OF loop_inv_wake[OF Cons.prems(1) t] list2, of ?s] by blast
    have "wake_expired me (k, s) = wake_expired me (?k2, ?s)"
      by (subst wake_expired.simps)
        (simp add: Cons.prems(2) False state_remove_eq[OF t] Let_def)
    moreover have "same_rest k k'" using r(4) IH(3) by (simp add: same_rest_def)
    moreover have "tcb k' u = (if state_in (tcb k u) = Some (pxDelayed k) \<and>
        state_value (tcb k u) \<le> xTickCount k then woken (tcb k u) else tcb k u)" for u
      using IH(4)[rule_format, of u] t False unfolding tcb2 by (auto simp: rest woken_def)
    moreover have "set (elist k' e) \<subseteq> set (elist k e)" for e
      using IH(5)[rule_format, of e] set_remove1_subset[of t]
      by (auto simp: event_remove_elist r split: option.splits if_splits)
    ultimately show ?thesis using IH(1,2) by auto
  qed
qed


lemma word_inc_less: "n + 1 \<noteq> (0 :: tick) \<Longrightarrow> n < n + 1"
  by (metis inc_less_eq_triv_imp add.left_inverse not_le)

text \<open>A task whose wake time the next tick reaches; the tick wakes exactly these.\<close>

definition due :: "kernel \<Rightarrow> tid \<Rightarrow> bool" where
  "due k t \<longleftrightarrow> (\<exists>b. state_in (tcb k t) = Some (DelayedL b)) \<and> state_value (tcb k t) = xTickCount k + 1"

lemma wake_if_reached:
  assumes "loop_inv k"
    "\<And>t. state_in (tcb k t) = Some (pxDelayed k) \<Longrightarrow> xNextTaskUnblockTime k \<le> state_value (tcb k t)"
  shows "\<exists>k' s'. (if xTickCount k \<ge> xNextTaskUnblockTime k then wake_expired me (k, False)
                  else Some (k, False)) = Some (k', s') \<and> core_inv {} k' \<and> same_rest k k' \<and>
    (\<forall>t. tcb k' t = (if state_in (tcb k t) = Some (pxDelayed k) \<and> state_value (tcb k t) \<le> xTickCount k
                     then woken (tcb k t) else tcb k t))"
proof (cases "xTickCount k \<ge> xNextTaskUnblockTime k")
  case True
  then show ?thesis using wake_expired_ok[OF assms(1) refl, of me False] by auto
next
  case False
  then have later: "xTickCount k < state_value (tcb k t)"
    if "state_in (tcb k t) = Some (pxDelayed k)" for t
    using assms(2)[OF that] by (simp add: order_less_le_trans not_le)
  then have "core_inv {} k"
    using assms unfolding loop_inv_def core_inv_def time_inv_def by blast
  then show ?thesis using False later by (auto simp: not_le[symmetric])
qed

lemma loop_inv_scalars:
  assumes "loop_inv k'" "tcb k = tcb k'" "slist k = slist k'" "elist k = elist k'" "rindex k = rindex k'"
    "uxTopReadyPriority k = uxTopReadyPriority k'" "xTickCount k = xTickCount k'"
    "pxDelayedTaskList k = pxDelayedTaskList k'"
  shows "loop_inv k"
proof -
  have "lists_inv k = lists_inv k'" by (rule lists_inv_cong) (simp_all add: assms)
  moreover have "prio_inv k = prio_inv k'" by (rule prio_inv_cong) (simp_all add: assms)
  moreover have "mask_inv {} k = mask_inv {} k'" by (rule mask_inv_cong) (simp_all add: assms)
  moreover have "notify_inv k = notify_inv k'" by (rule notify_inv_cong) (simp_all add: assms)
  moreover have "wake_time k = wake_time k'" by (simp add: fun_eq_iff wake_time_def assms)
  ultimately show ?thesis using assms(1) unfolding loop_inv_def by (simp add: assms)
qed

text \<open>The tick count advanced, before the list is examined.\<close>

lemma loop_inv_advance:
  assumes "core_inv {} k" "xTickCount k + 1 \<noteq> 0"
  shows "loop_inv (k\<lparr>xTickCount := xTickCount k + 1\<rparr>)" (is "loop_inv ?k")
proof -
  note inv = core_invD[OF assms(1)]
  have "lists_inv ?k = lists_inv k" by (rule lists_inv_cong) auto
  moreover have "prio_inv ?k = prio_inv k" by (rule prio_inv_cong) auto
  moreover have "mask_inv {} ?k = mask_inv {} k" by (rule mask_inv_cong) auto
  moreover have "notify_inv ?k = notify_inv k" by (rule notify_inv_cong) auto
  moreover have "wake_time ?k = wake_time k" by (simp add: fun_eq_iff wake_time_def)
  moreover have "xTickCount k < xTickCount k + 1" by (rule word_inc_less[OF assms(2)])
  ultimately show ?thesis using inv unfolding loop_inv_def time_inv_def
    by (auto intro: order_less_trans)
qed

definition switched :: "kernel \<Rightarrow> kernel" where
  "switched k = prvResetNextTaskUnblockTime (k\<lparr>xTickCount := 0,
     pxDelayedTaskList := \<not> pxDelayedTaskList k, xNumOfOverflows := xNumOfOverflows k + 1\<rparr>)"

lemma reset_next_simps [simp]:
  "tcb (prvResetNextTaskUnblockTime k) = tcb k" "slist (prvResetNextTaskUnblockTime k) = slist k"
  "elist (prvResetNextTaskUnblockTime k) = elist k" "rindex (prvResetNextTaskUnblockTime k) = rindex k"
  "uxTopReadyPriority (prvResetNextTaskUnblockTime k) = uxTopReadyPriority k"
  "same_rest k (prvResetNextTaskUnblockTime k)"
  by (simp_all add: prvResetNextTaskUnblockTime_def same_rest_def)

lemmas reset_next_rest [simp] = same_rest_simps[OF reset_next_simps(6)]

lemma reset_next_le:
  assumes "lists_inv k" "sorted (map (wake_time k) (slist k (pxDelayed k)))"
    "state_in (tcb k t) = Some (pxDelayed k)"
  shows "xNextTaskUnblockTime (prvResetNextTaskUnblockTime k) \<le> state_value (tcb k t)"
proof -
  have mem: "t \<in> set (slist k (pxDelayed k))" using lists_inv_mem[OF assms(1)] assms(3) by simp
  then obtain u us where "slist k (pxDelayed k) = u # us" by (cases "slist k (pxDelayed k)") auto
  with assms(2) mem show ?thesis
    by (auto simp: prvResetNextTaskUnblockTime_def wake_time_def word_le_nat_alt)
qed

lemma loop_inv_switched:
  assumes "core_inv {} k" "xTickCount k + 1 = 0"
  shows "loop_inv (switched k)" "slist k (pxDelayed k) = []"
    "\<And>t. state_in (tcb k t) = Some (pxOverflow k) \<Longrightarrow>
      xNextTaskUnblockTime (switched k) \<le> state_value (tcb k t)"
proof -
  note inv = core_invD[OF assms(1)]
  have "xTickCount k = - 1" using assms(2) by (simp add: eq_neg_iff_add_eq_0)
  then have none: "state_in (tcb k t) \<noteq> Some (pxDelayed k)" for t
    using inv(4) word_order.extremum_strict unfolding time_inv_def by metis
  then show "slist k (pxDelayed k) = []"
    using lists_inv_mem[OF inv(1), of _ "pxDelayed k"] by (cases "slist k (pxDelayed k)") auto
  let ?k = "k\<lparr>xTickCount := 0, pxDelayedTaskList := \<not> pxDelayedTaskList k,
              xNumOfOverflows := xNumOfOverflows k + 1\<rparr>"
  have sw: "tcb (switched k) = tcb k" "slist (switched k) = slist k" "elist (switched k) = elist k"
    "rindex (switched k) = rindex k" "uxTopReadyPriority (switched k) = uxTopReadyPriority k"
    by (simp_all add: switched_def)
  have "lists_inv (switched k) = lists_inv k" by (rule lists_inv_cong) (auto simp: sw)
  moreover have "prio_inv (switched k) = prio_inv k" by (rule prio_inv_cong) (auto simp: sw)
  moreover have "mask_inv {} (switched k) = mask_inv {} k" by (rule mask_inv_cong) (auto simp: sw)
  moreover have "notify_inv (switched k) = notify_inv k" by (rule notify_inv_cong) (auto simp: sw)
  moreover have "wake_time (switched k) = wake_time k" by (simp add: fun_eq_iff wake_time_def sw)
  moreover have "pxOverflow (switched k) = pxDelayed k" by (simp add: switched_def)
  ultimately show "loop_inv (switched k)"
    using inv none unfolding loop_inv_def time_inv_def by (simp add: sw)
  have "lists_inv ?k = lists_inv k" by (rule lists_inv_cong) auto
  moreover have "wake_time ?k = wake_time k" by (simp add: fun_eq_iff wake_time_def)
  ultimately show "xNextTaskUnblockTime (switched k) \<le> state_value (tcb k t)"
    if "state_in (tcb k t) = Some (pxOverflow k)" for t
    unfolding switched_def using inv that reset_next_le[of ?k t] by (auto simp: time_inv_def)
qed

lemma tick_ok:
  assumes inv: "core_inv {} k" and me: "pxCurrentTCB k = Some me" and susp: "uxSchedulerSuspended k = 0"
  shows "\<exists>k' s. xTaskIncrementTick k = Some (k', s) \<and> core_inv {} k' \<and>
    xTickCount k' = xTickCount k + 1 \<and>
    (\<forall>t. tcb k' t = (if due k t then woken (tcb k t) else tcb k t)) \<and>
    same_main k k' \<and> uxSchedulerSuspended k' = 0 \<and> xPendedTicks k' = xPendedTicks k \<and>
    xYieldPending k' = xYieldPending k \<and> sw_int k' = sw_int k \<and> (xYieldPending k \<longrightarrow> s) \<and>
    xNumOfOverflows k' = xNumOfOverflows k + (if xTickCount k + 1 = 0 then 1 else 0)"
proof -
  note inv' = core_invD[OF inv]
  let ?k = "k\<lparr>xTickCount := xTickCount k + 1\<rparr>"
  define k1 where "k1 = (if xTickCount k + 1 = 0 then switched k else ?k)"
  have same: "tcb k1 = tcb k" "uxSchedulerSuspended k1 = uxSchedulerSuspended k"
    "xPendedTicks k1 = xPendedTicks k" "xYieldPending k1 = xYieldPending k" "sw_int k1 = sw_int k"
    "xTickCount k1 = xTickCount k + 1" "same_main k k1"
    "xNumOfOverflows k1 = xNumOfOverflows k + (if xTickCount k + 1 = 0 then 1 else 0)"
    by (simp_all add: k1_def switched_def same_main_def)
  have start: "(if xTickCount ?k = 0 then taskSWITCH_DELAYED_LISTS ?k else Some ?k) = Some k1"
    using loop_inv_switched(2)[OF inv]
    by (simp add: k1_def taskSWITCH_DELAYED_LISTS_def switched_def Let_def)
  have loop: "loop_inv k1"
    using loop_inv_switched(1)[OF inv] loop_inv_advance[OF inv] by (simp add: k1_def)
  have next1: "xNextTaskUnblockTime k1 \<le> state_value (tcb k1 t)"
    if "state_in (tcb k1 t) = Some (pxDelayed k1)" for t
  proof (cases "xTickCount k + 1 = 0")
    case True
    then show ?thesis using that loop_inv_switched(3)[OF inv True, of t]
      by (simp add: k1_def switched_def)
  next
    case False
    then show ?thesis using that inv'(4) by (auto simp: k1_def time_inv_def)
  qed
  have due: "state_in (tcb k1 t) = Some (pxDelayed k1) \<and> state_value (tcb k1 t) \<le> xTickCount k1 \<longleftrightarrow> due k t"
    for t
  proof (cases "xTickCount k + 1 = 0")
    case True
    note sw = loop_inv_switched(2)[OF inv True]
    have "state_in (tcb k t) \<noteq> Some (pxDelayed k)"
      using lists_inv_mem[OF inv'(1), of t "pxDelayed k"] sw by auto
    then have "(\<exists>b. state_in (tcb k t) = Some (DelayedL b)) \<longleftrightarrow> state_in (tcb k t) = Some (pxOverflow k)"
      by (cases "pxDelayedTaskList k") (simp_all, (metis (full_types))+)
    then show ?thesis using True by (auto simp: k1_def due_def switched_def)
  next
    case False
    have "xTickCount k < state_value (tcb k t)" if "state_in (tcb k t) = Some (pxDelayed k)"
      using that inv'(4) by (auto simp: time_inv_def)
    moreover have "state_value (tcb k t) < xTickCount k" if "state_in (tcb k t) = Some (pxOverflow k)"
      using that inv'(4) by (auto simp: time_inv_def)
    moreover have "xTickCount k < xTickCount k + 1" by (rule word_inc_less[OF False])
    moreover have "state_value (tcb k t) = xTickCount k + 1"
      if "xTickCount k < state_value (tcb k t)" "state_value (tcb k t) \<le> xTickCount k + 1"
      using that by (metis inc_le order_antisym_conv add.commute)
    ultimately show ?thesis using False
      by (cases "pxDelayedTaskList k") (auto simp: k1_def due_def dest: order.asym)
  qed
  obtain k2 s where k2: "(if xTickCount k1 \<ge> xNextTaskUnblockTime k1 then wake_expired me (k1, False)
      else Some (k1, False)) = Some (k2, s)" "core_inv {} k2" "same_rest k1 k2"
    "\<forall>t. tcb k2 t = (if state_in (tcb k1 t) = Some (pxDelayed k1) \<and> state_value (tcb k1 t) \<le> xTickCount k1
                    then woken (tcb k1 t) else tcb k1 t)"
    using wake_if_reached[OF loop, of me] next1 by blast
  have tcb2: "tcb k2 t = (if due k t then woken (tcb k t) else tcb k t)" for t
    using k2(4)[rule_format, of t] unfolding due by (simp add: same)
  note rest = same_rest_simps[OF k2(3)]
  show ?thesis
    using k2(1,2) tcb2 susp me unfolding xTaskIncrementTick_def
    by (simp only: if_True Let_def start)
      (simp add: rest same same_main_trans[OF same(7) same_rest_main[OF k2(3)]] same_mainD[OF same(7)])
qed

end
