(* ===== verification/TaskMove.thy ===== *)
theory TaskMove
  imports TaskTick
begin

text \<open>
  Operations that only make tasks ready: resuming the scheduler with its pending-ready list and
  its pended ticks, and the ticks themselves. Their common effect on the task control blocks is
  the relation \<open>wakes\<close>, under which the invariant of the tasks is stable.
\<close>

section \<open>Waking tasks\<close>

text \<open>A task that exists and is not waiting to be cleaned up.\<close>

definition live :: "kernel \<Rightarrow> tid \<Rightarrow> bool" where
  "live k t \<longleftrightarrow> state_in (tcb k t) \<noteq> None \<and> state_in (tcb k t) \<noteq> Some TerminationL"

definition wakes :: "kernel \<Rightarrow> kernel \<Rightarrow> bool" where
  "wakes k k' \<longleftrightarrow> (\<forall>t. tcb k' t = tcb k t \<or> live k t \<and> tcb k' t = woken (tcb k t))"

lemma woken_simps [simp]:
  "state_in (woken c) = Some (ReadyL (uxPriority c))" "event_in (woken c) = None"
  "uxPriority (woken c) = uxPriority c" "uxBasePriority (woken c) = uxBasePriority c"
  "ucNotifyState (woken c) = ucNotifyState c" "ulNotifiedValue (woken c) = ulNotifiedValue c"
  "state_value (woken c) = state_value c" "event_value (woken c) = event_value c"
  "uxMutexesHeld (woken c) = uxMutexesHeld c" "ucDelayAborted (woken c) = ucDelayAborted c"
  "woken (woken c) = woken c"
  by (simp_all add: woken_def)

lemma woken_order: "c\<lparr>event_in := None, state_in := Some (ReadyL (uxPriority c))\<rparr> = woken c"
  by (cases c) (simp add: woken_def)

lemma wakes_refl [simp]: "wakes k k"
  by (simp add: wakes_def)

lemma wakes_trans:
  assumes "wakes k1 k2" "wakes k2 k3"
  shows "wakes k1 k3"
proof -
  have "tcb k3 t = tcb k1 t \<or> live k1 t \<and> tcb k3 t = woken (tcb k1 t)" for t
    using assms unfolding wakes_def live_def by (metis woken_simps(11))
  then show ?thesis unfolding wakes_def by simp
qed

section \<open>The pending-ready list\<close>

lemma move_pending_ok:
  assumes "core_inv {} k" "elist k PendingReadyL = xs" "\<And>t. t \<in> set xs \<Longrightarrow> state_in (tcb k t) \<noteq> None"
  shows "\<exists>k' b. move_pending me (k, m) = Some (k', b) \<and> core_inv {} k' \<and> elist k' PendingReadyL = [] \<and>
    (\<forall>t. tcb k' t = (if event_in (tcb k t) = Some PendingReadyL then woken (tcb k t) else tcb k t)) \<and>
    same_rest (k\<lparr>xYieldPending := xYieldPending k'\<rparr>) k' \<and> (xYieldPending k \<longrightarrow> xYieldPending k')"
  using assms
proof (induction xs arbitrary: k m)
  case Nil
  have "event_in (tcb k t) \<noteq> Some PendingReadyL" for t
    using core_invD(1)[OF Nil.prems(1)] Nil.prems(2) unfolding lists_inv_def by (metis empty_iff empty_set)
  moreover have "move_pending me (k, m) = Some (k, m)"
    by (subst move_pending.simps) (simp add: Nil.prems(2))
  ultimately show ?case using Nil.prems by (auto simp: same_rest_def)
next
  case (Cons t ts)
  note lists = core_invD(1)[OF Cons.prems(1)]
  have mem: "u \<in> set (t # ts) \<longleftrightarrow> event_in (tcb k u) = Some PendingReadyL" for u
    using lists Cons.prems(2) unfolding lists_inv_def by metis
  have t: "event_in (tcb k t) = Some PendingReadyL" using mem[of t] by simp
  have notin: "t \<notin> set ts" using lists Cons.prems(2) unfolding lists_inv_def by (metis distinct.simps(2))
  let ?k1 = "event_remove t k"
  have "state_in (tcb ?k1 t) \<noteq> None" using Cons.prems(3)[of t] by simp
  from make_ready_ok[OF core_inv_event_remove[OF Cons.prems(1), of t] this]
  obtain k2 where k2: "make_ready t ?k1 = Some k2" "core_inv {} k2" "same_rest ?k1 k2"
    "tcb k2 = (tcb ?k1)(t := (tcb ?k1 t)\<lparr>state_in := Some (ReadyL (uxPriority (tcb ?k1 t)))\<rparr>)"
    "elist k2 = elist ?k1"
    by blast
  have tcb2: "tcb k2 = (tcb k)(t := woken (tcb k t))" using k2(4) by (simp add: woken_order)
  let ?k3 = "if uxPriority (tcb k2 t) \<ge> uxPriority (tcb k2 me) then k2\<lparr>xYieldPending := True\<rparr> else k2"
  have pend: "elist ?k3 PendingReadyL = ts"
    using t Cons.prems(2) by (simp add: k2(5) event_remove_elist)
  have inv3: "core_inv {} ?k3" using k2(2) by simp
  have live: "state_in (tcb ?k3 u) \<noteq> None" if "u \<in> set ts" for u
    using Cons.prems(3)[of u] that k2(4) by simp
  obtain k' b where IH: "move_pending me (?k3, True) = Some (k', b)" "core_inv {} k'"
    "elist k' PendingReadyL = []"
    "\<forall>u. tcb k' u = (if event_in (tcb ?k3 u) = Some PendingReadyL then woken (tcb ?k3 u) else tcb ?k3 u)"
    "same_rest (?k3\<lparr>xYieldPending := xYieldPending k'\<rparr>) k'" "xYieldPending ?k3 \<longrightarrow> xYieldPending k'"
    using Cons.IH[OF inv3 pend live, of True] by blast
  have "move_pending me (k, m) = move_pending me (?k3, True)"
    by (subst move_pending.simps) (simp add: Cons.prems(2) k2(1))
  moreover have "tcb k' u = (if event_in (tcb k u) = Some PendingReadyL then woken (tcb k u) else tcb k u)"
    for u
    using IH(4)[rule_format, of u] t by (auto simp: tcb2)
  moreover have "same_rest (k\<lparr>xYieldPending := xYieldPending k'\<rparr>) k'"
    using IH(5) k2(3) by (auto simp: same_rest_def split: if_splits)
  moreover have "xYieldPending k \<longrightarrow> xYieldPending k'"
    using IH(6) k2(3) by (auto simp: same_rest_def split: if_splits)
  ultimately show ?case using IH(1-3) by metis
qed

section \<open>Ticks\<close>

definition delayed :: "kernel \<Rightarrow> tid \<Rightarrow> bool" where
  "delayed k t \<longleftrightarrow> (\<exists>b. state_in (tcb k t) = Some (DelayedL b))"

text \<open>How many ticks away the wake time of a task is.\<close>

definition ticks_left :: "kernel \<Rightarrow> tid \<Rightarrow> nat" where
  "ticks_left k t = unat (state_value (tcb k t) - xTickCount k)"

lemma delayed_left:
  assumes "core_inv P k" "delayed k t"
  shows "0 < ticks_left k t"
proof -
  obtain b where "state_in (tcb k t) = Some (DelayedL b)" using assms(2) by (auto simp: delayed_def)
  moreover have "DelayedL b = pxDelayed k \<or> DelayedL b = pxOverflow k" by (cases b) auto
  ultimately have "state_value (tcb k t) \<noteq> xTickCount k"
    using core_invD(4)[OF assms(1)] unfolding time_inv_def by (metis order_less_irrefl)
  then have "state_value (tcb k t) - xTickCount k \<noteq> 0" by simp
  then show ?thesis unfolding ticks_left_def by (metis unat_eq_zero not_gr_zero)
qed

lemma due_left:
  shows "due k t \<longleftrightarrow> delayed k t \<and> ticks_left k t = 1"
proof -
  have "(state_value (tcb k t) = xTickCount k + 1) \<longleftrightarrow> (state_value (tcb k t) - xTickCount k = 1)"
    by (simp add: eq_diff_eq diff_eq_eq add.commute)
  also have "\<dots> \<longleftrightarrow> ticks_left k t = 1" unfolding ticks_left_def
    by (metis unsigned_1 word_unat_eq_iff)
  finally show ?thesis unfolding due_def delayed_def by blast
qed

lemma ticks_left_Suc:
  assumes "tcb k' t = tcb k t" "xTickCount k' = xTickCount k + 1" "0 < ticks_left k t"
  shows "ticks_left k' t = ticks_left k t - 1"
proof -
  let ?d = "state_value (tcb k t) - xTickCount k"
  have "?d \<noteq> 0" using assms(3) by (auto simp: ticks_left_def)
  then have "unat (?d - 1) = unat ?d - 1" by (rule unat_minus_one)
  then show ?thesis using assms(1,2) by (simp add: ticks_left_def diff_diff_eq)
qed

lemma unwind_ok:
  assumes "core_inv {} k" "pxCurrentTCB k = Some me" "uxSchedulerSuspended k = 0"
  shows "\<exists>k'. unwind_ticks n k = Some k' \<and> core_inv {} k' \<and> xTickCount k' = xTickCount k + of_nat n \<and>
    (\<forall>t. tcb k' t = (if delayed k t \<and> ticks_left k t \<le> n then woken (tcb k t) else tcb k t)) \<and>
    same_main k k' \<and> uxSchedulerSuspended k' = 0 \<and> xPendedTicks k' = xPendedTicks k \<and>
    sw_int k' = sw_int k \<and> (xYieldPending k \<longrightarrow> xYieldPending k')"
  using assms
proof (induction n arbitrary: k)
  case 0
  have "(delayed k t \<and> ticks_left k t \<le> 0) = False" for t
    using delayed_left[OF "0.prems"(1), of t] by auto
  then show ?case using "0.prems" by (simp only: unwind_ticks.simps if_False) simp
next
  case (Suc n)
  obtain k1 s where k1: "xTaskIncrementTick k = Some (k1, s)" "core_inv {} k1"
    "xTickCount k1 = xTickCount k + 1"
    "\<forall>t. tcb k1 t = (if due k t then woken (tcb k t) else tcb k t)"
    "same_main k k1" "uxSchedulerSuspended k1 = 0" "xPendedTicks k1 = xPendedTicks k"
    "xYieldPending k1 = xYieldPending k" "sw_int k1 = sw_int k" "xYieldPending k \<longrightarrow> s"
    using tick_ok[OF Suc.prems] by blast
  let ?k2 = "if s then k1\<lparr>xYieldPending := True\<rparr> else k1"
  have k2: "tcb ?k2 = tcb k1" "xTickCount ?k2 = xTickCount k1" "core_inv {} ?k2"
    "pxCurrentTCB ?k2 = Some me" "uxSchedulerSuspended ?k2 = 0"
    using k1 Suc.prems(2) by (auto simp: same_main_def)
  obtain k' where IH: "unwind_ticks n ?k2 = Some k'" "core_inv {} k'"
    "xTickCount k' = xTickCount ?k2 + of_nat n"
    "\<forall>t. tcb k' t = (if delayed ?k2 t \<and> ticks_left ?k2 t \<le> n then woken (tcb ?k2 t) else tcb ?k2 t)"
    "same_main ?k2 k'" "uxSchedulerSuspended k' = 0" "xPendedTicks k' = xPendedTicks ?k2"
    "sw_int k' = sw_int ?k2" "xYieldPending ?k2 \<longrightarrow> xYieldPending k'"
    using Suc.IH[OF k2(3-5)] by blast
  have "tcb k' t = (if delayed k t \<and> ticks_left k t \<le> Suc n then woken (tcb k t) else tcb k t)" for t
  proof (cases "due k t")
    case True
    then have "tcb k1 t = woken (tcb k t)" using k1(4) by simp
    then have "\<not> delayed ?k2 t" by (simp add: delayed_def)
    then show ?thesis using IH(4) True \<open>tcb k1 t = _\<close> due_left[of k t] by simp
  next
    case False
    then have same: "tcb k1 t = tcb k t" using k1(4) by simp
    then have "delayed ?k2 t = delayed k t" by (simp add: delayed_def)
    moreover have "ticks_left ?k2 t = ticks_left k t - 1" if "delayed k t"
      using ticks_left_Suc[of ?k2 t k] same k1(3) delayed_left[OF Suc.prems(1) that] by simp
    ultimately show ?thesis using IH(4) same False due_left[of k t] delayed_left[OF Suc.prems(1), of t]
      by (auto simp: le_Suc_eq)
  qed
  moreover have "xTickCount k' = xTickCount k + of_nat (Suc n)"
    using IH(3) k1(3) by (simp add: k2(2) add_ac)
  moreover have "same_main k k'"
    using same_main_trans[OF k1(5)] IH(5) by (auto simp: same_main_def split: if_splits)
  ultimately show ?case using IH k1 by auto
qed

section \<open>Resuming the scheduler\<close>

lemma resume_all_ok:
  assumes inv: "core_inv {} k" and susp: "uxSchedulerSuspended k \<noteq> 0" and me: "pxCurrentTCB k = Some me"
    and num: "0 < uxCurrentNumberOfTasks k"
    and pend: "\<And>t. event_in (tcb k t) = Some PendingReadyL \<Longrightarrow> live k t"
  shows "\<exists>k' b. xTaskResumeAll k = Some (k', b) \<and> core_inv {} k' \<and> same_main k k' \<and> wakes k k' \<and>
    uxSchedulerSuspended k' = uxSchedulerSuspended k - 1 \<and> (sw_int k \<or> b \<longrightarrow> sw_int k') \<and>
    (if uxSchedulerSuspended k = 1
     then xTickCount k' = xTickCount k + of_nat (xPendedTicks k) \<and> xPendedTicks k' = 0 \<and>
       (\<forall>t. tcb k' t = (if event_in (tcb k t) = Some PendingReadyL \<or>
                           delayed k t \<and> ticks_left k t \<le> xPendedTicks k
                        then woken (tcb k t) else tcb k t))
     else xTickCount k' = xTickCount k \<and> xPendedTicks k' = xPendedTicks k \<and> tcb k' = tcb k)"
proof (cases "uxSchedulerSuspended k = 1")
  case False
  then show ?thesis using inv susp
    by (auto simp: xTaskResumeAll_def Let_def same_main_def wakes_def intro: exI[of _ False])
next
  case True
  let ?k0 = "k\<lparr>uxSchedulerSuspended := 0\<rparr>"
  have "state_in (tcb ?k0 t) \<noteq> None" if "t \<in> set (elist ?k0 PendingReadyL)" for t
    using that pend[of t] core_invD(1)[OF inv] by (simp add: lists_inv_def live_def)
  moreover have "core_inv {} ?k0" using inv by simp
  ultimately obtain k1 b where k1: "move_pending me (?k0, False) = Some (k1, b)" "core_inv {} k1"
    "elist k1 PendingReadyL = []"
    "\<forall>t. tcb k1 t = (if event_in (tcb ?k0 t) = Some PendingReadyL then woken (tcb ?k0 t) else tcb ?k0 t)"
    "same_rest (?k0\<lparr>xYieldPending := xYieldPending k1\<rparr>) k1"
    using move_pending_ok[OF _ refl, of ?k0 me False] by blast
  let ?k2 = "if b then prvResetNextTaskUnblockTime k1 else k1"
  note inv1 = core_invD[OF k1(2)]
  have inv2: "core_inv {} ?k2"
  proof -
    have "xNextTaskUnblockTime (prvResetNextTaskUnblockTime k1) \<le> state_value (tcb k1 t)"
      if "state_in (tcb k1 t) = Some (pxDelayed k1)" for t
      using reset_next_le[OF inv1(1) _ that] inv1(4) by (simp add: time_inv_def)
    then have "time_inv (prvResetNextTaskUnblockTime k1)"
      using inv1(4) unfolding time_inv_def wake_time_def by simp
    then have "core_inv {} (prvResetNextTaskUnblockTime k1)"
      unfolding prvResetNextTaskUnblockTime_def using inv1 by (intro core_inv_next) simp_all
    then show ?thesis using k1(2) by simp
  qed
  have rest2: "same_rest k1 ?k2" by simp
  note rest = same_rest_simps[OF k1(5)] same_rest_simps[OF rest2]
  have tcb2: "tcb ?k2 = tcb k1" by simp
  have "pxCurrentTCB ?k2 = Some me" "uxSchedulerSuspended ?k2 = 0" using rest me by simp_all
  from unwind_ok[OF inv2 this, of "xPendedTicks ?k2"]
  obtain k3 where k3: "unwind_ticks (xPendedTicks ?k2) ?k2 = Some k3" "core_inv {} k3"
    "xTickCount k3 = xTickCount ?k2 + of_nat (xPendedTicks ?k2)"
    "\<forall>t. tcb k3 t = (if delayed ?k2 t \<and> ticks_left ?k2 t \<le> xPendedTicks ?k2
                    then woken (tcb ?k2 t) else tcb ?k2 t)"
    "same_main ?k2 k3" "uxSchedulerSuspended k3 = 0" "sw_int k3 = sw_int ?k2" by blast
  let ?k4 = "k3\<lparr>xPendedTicks := 0\<rparr>"
  let ?r = "if xYieldPending ?k4 then (yield ?k4, True) else (?k4, False)"
  have run: "xTaskResumeAll k = Some ?r"
    using True me num k1(1) k3(1)
    by (cases b) (simp_all add: xTaskResumeAll_def Let_def)
  have tick: "xTickCount k3 = xTickCount k + of_nat (xPendedTicks k)" using k3(3) rest by simp
  have tcb3: "tcb k3 t = (if event_in (tcb k t) = Some PendingReadyL \<or>
      delayed k t \<and> ticks_left k t \<le> xPendedTicks k then woken (tcb k t) else tcb k t)" for t
    using k3(4)[rule_format, of t] k1(4)[rule_format, of t] rest
    by (auto simp: tcb2 delayed_def ticks_left_def)
  have "wakes k k3"
    unfolding wakes_def using tcb3 pend by (auto simp: live_def delayed_def)
  moreover have "same_main k k3" using k3(5) rest by (simp add: same_main_def)
  moreover obtain k' c where r: "?r = (k', c)" by fastforce
  moreover from r have "tcb k' = tcb k3" "xPendedTicks k' = 0" "xTickCount k' = xTickCount k3"
    "same_main k3 k'" "uxSchedulerSuspended k' = 0" "core_inv {} k'" "sw_int k3 \<or> c \<longrightarrow> sw_int k'"
    using k3(2,6) by (auto simp: yield_def same_main_def split: if_splits)
  ultimately have "xTaskResumeAll k = Some (k', c)" "core_inv {} k'" "same_main k k'" "wakes k k'"
    "uxSchedulerSuspended k' = uxSchedulerSuspended k - 1" "sw_int k \<or> c \<longrightarrow> sw_int k'"
    "xTickCount k' = xTickCount k + of_nat (xPendedTicks k)" "xPendedTicks k' = 0" "tcb k' = tcb k3"
    using run tick True k3(7) rest same_main_trans by (auto simp: wakes_def)
  then show ?thesis using True tcb3 by auto
qed

end
