(* ===== verification/TaskSched.thy ===== *)
theory TaskSched
  imports TaskMove
begin

text \<open>
  The invariant of the whole kernel and its preservation by every operation of \<open>tasks.c\<close>: the
  data structures are consistent, the idle task is ready, the task counters are exact, ticks
  and ready events are only pending while the scheduler is suspended. Each operation is shown to
  return, so that no assertion of the code fails.
\<close>

section \<open>The invariant\<close>

definition ready :: "tcb \<Rightarrow> bool" where
  "ready c \<longleftrightarrow> (\<exists>p. state_in c = Some (ReadyL p))"

definition waiting :: "tcb \<Rightarrow> bool" where
  "waiting c \<longleftrightarrow> (\<exists>i. ucNotifyState c i = WAITING)"

definition tcb_ok :: "tcb \<Rightarrow> bool" where
  "tcb_ok c \<longleftrightarrow>
    (event_in c \<noteq> None \<longrightarrow> state_in c \<noteq> None \<and> state_in c \<noteq> Some TerminationL) \<and>
    (ready c \<longrightarrow> event_in c = None \<or> event_in c = Some PendingReadyL) \<and>
    (\<forall>i j. ucNotifyState c i = WAITING \<longrightarrow> ucNotifyState c j = WAITING \<longrightarrow> i = j)"

definition current_ok :: "kernel \<Rightarrow> tcb \<Rightarrow> bool" where
  "current_ok k c \<longleftrightarrow> (ready c \<longrightarrow> event_in c = None) \<and> (uxSchedulerSuspended k \<noteq> 0 \<longrightarrow> \<not> waiting c)"

definition kernel_inv :: "tid \<Rightarrow> kernel \<Rightarrow> bool" where
  "kernel_inv idle k \<longleftrightarrow>
    core_inv {} k \<and> (\<forall>t. tcb_ok (tcb k t)) \<and> ready (tcb k idle) \<and> xSchedulerRunning k \<and>
    finite {t. state_in (tcb k t) \<noteq> None} \<and>
    uxCurrentNumberOfTasks k = card {t. state_in (tcb k t) \<noteq> None} \<and>
    uxDeletedTasksWaitingCleanUp k = card {t. state_in (tcb k t) = Some TerminationL} \<and>
    (\<exists>me. pxCurrentTCB k = Some me \<and> current_ok k (tcb k me)) \<and>
    (uxSchedulerSuspended k = 0 \<longrightarrow>
       xPendedTicks k = 0 \<and> (\<forall>t. event_in (tcb k t) \<noteq> Some PendingReadyL))"

text \<open>The task that makes a call: it is running, and inside no other call.\<close>

definition running :: "kernel \<Rightarrow> tid \<Rightarrow> bool" where
  "running k me \<longleftrightarrow> pxCurrentTCB k = Some me \<and> ready (tcb k me) \<and> \<not> waiting (tcb k me)"

lemma kernel_invD:
  assumes "kernel_inv idle k"
  shows "core_inv {} k" "tcb_ok (tcb k t)" "ready (tcb k idle)" "xSchedulerRunning k"
    "finite {t. state_in (tcb k t) \<noteq> None}"
    "uxCurrentNumberOfTasks k = card {t. state_in (tcb k t) \<noteq> None}"
    "uxDeletedTasksWaitingCleanUp k = card {t. state_in (tcb k t) = Some TerminationL}"
    "pxCurrentTCB k = Some me \<Longrightarrow> current_ok k (tcb k me)"
    "uxSchedulerSuspended k = 0 \<Longrightarrow> xPendedTicks k = 0"
    "uxSchedulerSuspended k = 0 \<Longrightarrow> event_in (tcb k t) \<noteq> Some PendingReadyL"
  using assms by (auto simp: kernel_inv_def)

lemma kernel_inv_current: "kernel_inv idle k \<Longrightarrow> \<exists>me. pxCurrentTCB k = Some me \<and> current_ok k (tcb k me)"
  by (simp add: kernel_inv_def)

lemma ready_simps [simp]:
  "ready (woken c)" "ready (c\<lparr>state_in := Some (ReadyL p)\<rparr>)"
  "ready (c\<lparr>event_in := e\<rparr>) = ready c" "ready (c\<lparr>state_value := v\<rparr>) = ready c"
  "ready (c\<lparr>event_value := v\<rparr>) = ready c" "ready (c\<lparr>uxPriority := p\<rparr>) = ready c"
  "ready (c\<lparr>uxBasePriority := p\<rparr>) = ready c" "ready (c\<lparr>uxMutexesHeld := p\<rparr>) = ready c"
  "ready (c\<lparr>ucDelayAborted := b\<rparr>) = ready c" "ready (c\<lparr>ulNotifiedValue := f\<rparr>) = ready c"
  "ready (c\<lparr>ucNotifyState := g\<rparr>) = ready c"
  by (auto simp: ready_def)

lemma kernel_inv_num:
  assumes "kernel_inv idle k"
  shows "0 < uxCurrentNumberOfTasks k"
proof -
  have "idle \<in> {t. state_in (tcb k t) \<noteq> None}" using kernel_invD(3)[OF assms] by (auto simp: ready_def)
  then show ?thesis using kernel_invD(5,6)[OF assms] by (metis card_gt_0_iff empty_iff)
qed

lemma kernel_inv_pending_live:
  "kernel_inv idle k \<Longrightarrow> event_in (tcb k t) = Some PendingReadyL \<Longrightarrow> live k t"
  using kernel_invD(2)[of idle k t] by (simp add: tcb_ok_def live_def)

text \<open>Preservation by an operation that changes one task.\<close>

lemma kernel_inv_one:
  assumes inv: "kernel_inv idle k" and core: "core_inv {} k'" and t: "tcb k' = (tcb k)(t := c)"
    and main: "same_main k k'" and susp: "uxSchedulerSuspended k' = uxSchedulerSuspended k"
    and pend: "xPendedTicks k' = xPendedTicks k" and ok: "tcb_ok c"
    and alive: "(state_in c = None) = (state_in (tcb k t) = None)"
    and dead: "(state_in c = Some TerminationL) = (state_in (tcb k t) = Some TerminationL)"
    and idle: "t = idle \<Longrightarrow> ready c"
    and event: "uxSchedulerSuspended k = 0 \<Longrightarrow> event_in c \<noteq> Some PendingReadyL"
    and me: "pxCurrentTCB k = Some t \<Longrightarrow> current_ok k c"
  shows "kernel_inv idle k'"
proof -
  have sets: "{u. state_in (tcb k' u) \<noteq> None} = {u. state_in (tcb k u) \<noteq> None}"
    "{u. state_in (tcb k' u) = Some TerminationL} = {u. state_in (tcb k u) = Some TerminationL}"
    using alive dead unfolding t by (auto split: if_splits)
  have "tcb_ok (tcb k' u)" for u using ok kernel_invD(2)[OF inv, of u] by (simp add: t)
  moreover have "ready (tcb k' idle)" using idle kernel_invD(3)[OF inv] by (auto simp: t)
  moreover have "\<exists>me. pxCurrentTCB k' = Some me \<and> current_ok k' (tcb k' me)"
  proof -
    obtain u where u: "pxCurrentTCB k = Some u" "current_ok k (tcb k u)"
      using kernel_inv_current[OF inv] by blast
    then have "current_ok k (tcb k' u)" using me by (auto simp: t)
    then show ?thesis using u(1) same_mainD[OF main] susp by (simp add: current_ok_def)
  qed
  moreover have "event_in (tcb k' u) \<noteq> Some PendingReadyL" if "uxSchedulerSuspended k' = 0" for u
    using event kernel_invD(10)[OF inv, of u] that susp by (simp add: t)
  ultimately show ?thesis
    using core kernel_invD(4-7,9)[OF inv] same_mainD[OF main] susp pend sets
    unfolding kernel_inv_def by simp
qed

text \<open>Preservation by an operation that wakes tasks.\<close>

lemma tcb_ok_woken [simp]: "tcb_ok c \<Longrightarrow> tcb_ok (woken c)"
  by (auto simp: tcb_ok_def)

lemma waiting_woken [simp]: "waiting (woken c) = waiting c"
  by (simp add: waiting_def)

lemma kernel_inv_wakes:
  assumes inv: "kernel_inv idle k" and core: "core_inv {} k'" and main: "same_main k k'"
    and wakes: "wakes k k'"
    and pend: "uxSchedulerSuspended k' = 0 \<Longrightarrow> xPendedTicks k' = 0"
    and event: "\<And>t. uxSchedulerSuspended k' = 0 \<Longrightarrow> event_in (tcb k' t) \<noteq> Some PendingReadyL"
    and susp: "uxSchedulerSuspended k' \<noteq> 0 \<Longrightarrow> uxSchedulerSuspended k \<noteq> 0"
  shows "kernel_inv idle k'"
proof -
  have t: "tcb k' t = tcb k t \<or> live k t \<and> tcb k' t = woken (tcb k t)" for t
    using wakes by (simp add: wakes_def)
  have "(state_in (tcb k' u) = None) = (state_in (tcb k u) = None)" for u
    using t[of u] by (auto simp: live_def)
  moreover have "(state_in (tcb k' u) = Some TerminationL) = (state_in (tcb k u) = Some TerminationL)" for u
    using t[of u] by (auto simp: live_def)
  moreover have "tcb_ok (tcb k' u)" for u using t[of u] kernel_invD(2)[OF inv, of u] by auto
  moreover have "ready (tcb k' idle)" using t[of idle] kernel_invD(3)[OF inv] by auto
  moreover have "\<exists>me. pxCurrentTCB k' = Some me \<and> current_ok k' (tcb k' me)"
  proof -
    obtain u where u: "pxCurrentTCB k = Some u" "current_ok k (tcb k u)"
      using kernel_inv_current[OF inv] by blast
    then have "current_ok k' (tcb k' u)" using t[of u] susp by (auto simp: current_ok_def)
    then show ?thesis using u(1) same_mainD[OF main] by simp
  qed
  ultimately show ?thesis
    using core kernel_invD(4-7)[OF inv] same_mainD[OF main] pend event
    unfolding kernel_inv_def by simp
qed

lemma kernel_inv_fields [simp]:
  "kernel_inv idle (k\<lparr>xYieldPending := b\<rparr>) = kernel_inv idle k"
  "kernel_inv idle (k\<lparr>sw_int := b\<rparr>) = kernel_inv idle k"
  "kernel_inv idle (yield k) = kernel_inv idle k"
  by (simp_all add: kernel_inv_def current_ok_def yield_def)

section \<open>Suspending and resuming the scheduler\<close>

lemma inv_suspend_all:
  assumes "kernel_inv idle k" "running k me"
  shows "kernel_inv idle (vTaskSuspendAll k)"
  using assms unfolding kernel_inv_def vTaskSuspendAll_def running_def
  by (simp add: current_ok_def)

lemma suspend_all_simps [simp]:
  "tcb (vTaskSuspendAll k) = tcb k" "uxSchedulerSuspended (vTaskSuspendAll k) = Suc (uxSchedulerSuspended k)"
  "xTickCount (vTaskSuspendAll k) = xTickCount k" "xPendedTicks (vTaskSuspendAll k) = xPendedTicks k"
  "pxCurrentTCB (vTaskSuspendAll k) = pxCurrentTCB k" "pxDelayedTaskList (vTaskSuspendAll k) = pxDelayedTaskList k"
  "same_main k (vTaskSuspendAll k)" "core_inv P (vTaskSuspendAll k) = core_inv P k"
  "running (vTaskSuspendAll k) me = running k me"
  by (simp_all add: vTaskSuspendAll_def same_main_def running_def)

lemma inv_resume_all:
  assumes inv: "kernel_inv idle k" and susp: "uxSchedulerSuspended k \<noteq> 0"
  shows "\<exists>k' b. xTaskResumeAll k = Some (k', b) \<and> kernel_inv idle k' \<and> same_main k k' \<and> wakes k k' \<and>
    uxSchedulerSuspended k' = uxSchedulerSuspended k - 1 \<and> (sw_int k \<or> b \<longrightarrow> sw_int k') \<and>
    (if uxSchedulerSuspended k = 1
     then xTickCount k' = xTickCount k + of_nat (xPendedTicks k) \<and> xPendedTicks k' = 0 \<and>
       (\<forall>t. tcb k' t = (if event_in (tcb k t) = Some PendingReadyL \<or>
                           delayed k t \<and> ticks_left k t \<le> xPendedTicks k
                        then woken (tcb k t) else tcb k t))
     else xTickCount k' = xTickCount k \<and> xPendedTicks k' = xPendedTicks k \<and> tcb k' = tcb k)"
proof -
  obtain me where me: "pxCurrentTCB k = Some me" using kernel_inv_current[OF inv] by blast
  obtain k' b where k': "xTaskResumeAll k = Some (k', b)" "core_inv {} k'" "same_main k k'" "wakes k k'"
    "uxSchedulerSuspended k' = uxSchedulerSuspended k - 1" "sw_int k \<or> b \<longrightarrow> sw_int k'"
    "if uxSchedulerSuspended k = 1
     then xTickCount k' = xTickCount k + of_nat (xPendedTicks k) \<and> xPendedTicks k' = 0 \<and>
       (\<forall>t. tcb k' t = (if event_in (tcb k t) = Some PendingReadyL \<or>
                           delayed k t \<and> ticks_left k t \<le> xPendedTicks k
                        then woken (tcb k t) else tcb k t))
     else xTickCount k' = xTickCount k \<and> xPendedTicks k' = xPendedTicks k \<and> tcb k' = tcb k"
    using resume_all_ok[OF kernel_invD(1)[OF inv] susp me kernel_inv_num[OF inv]
        kernel_inv_pending_live[OF inv]] by blast
  have "kernel_inv idle k'"
  proof (rule kernel_inv_wakes[OF inv k'(2-4)])
    fix t
    assume zero: "uxSchedulerSuspended k' = 0"
    then have one: "uxSchedulerSuspended k = 1" using k'(5) susp by simp
    show "xPendedTicks k' = 0" using k'(7) one by simp
    show "event_in (tcb k' t) \<noteq> Some PendingReadyL" using k'(7) one by simp
  qed (use susp in simp)
  with k' show ?thesis by blast
qed

section \<open>Blocking\<close>

lemma blocked_tcb_simps [simp]:
  "state_in (blocked_tcb n b k c) = Some (blocked_list n b k)" "event_in (blocked_tcb n b k c) = event_in c"
  "ucNotifyState (blocked_tcb n b k c) = ucNotifyState c" "uxPriority (blocked_tcb n b k c) = uxPriority c"
  by (simp_all add: blocked_tcb_def)

lemma blocked_list_cases: "blocked_list n b k = SuspendedL \<or> (\<exists>d. blocked_list n b k = DelayedL d)"
  by (simp add: blocked_list_def)

lemma not_ready_blocked [simp]:
  "\<not> ready (blocked_tcb n b k c)" "blocked_list n b k \<noteq> TerminationL" "waiting (blocked_tcb n b k c) = waiting c"
  using blocked_list_cases[of n b k] by (auto simp: ready_def waiting_def)

lemma inv_block:
  assumes inv: "kernel_inv idle k" and me: "pxCurrentTCB k = Some me" "ready (tcb k me)"
    and idle: "me \<noteq> idle" and ticks: "ticks \<noteq> 0"
  shows "\<exists>k'. prvAddCurrentTaskToDelayedList ticks indefinitely k = Some k' \<and> kernel_inv idle k' \<and>
    same_rest k k' \<and> elist k' = elist k \<and>
    tcb k' = (tcb k)(me := blocked_tcb ticks indefinitely k (tcb k me))"
proof -
  obtain p where p: "state_in (tcb k me) = Some (ReadyL p)" using me(2) by (auto simp: ready_def)
  obtain k' where k': "prvAddCurrentTaskToDelayedList ticks indefinitely k = Some k'" "core_inv {} k'"
    "same_rest k k'" "elist k' = elist k"
    "tcb k' = (tcb k)(me := blocked_tcb ticks indefinitely k (tcb k me))"
    using add_delayed_ok[OF kernel_invD(1)[OF inv] me(1) p ticks] by blast
  have "kernel_inv idle k'"
    by (rule kernel_inv_one[OF inv k'(2,5) same_rest_main[OF k'(3)]])
      (use kernel_invD(2)[OF inv, of me] kernel_invD(8)[OF inv me(1)] kernel_invD(10)[OF inv, of me]
        p idle same_rest_simps[OF k'(3)] in \<open>auto simp: tcb_ok_def current_ok_def\<close>)
  with k' show ?thesis by blast
qed

lemma inv_resume_and_yield:
  assumes inv: "kernel_inv idle k" and susp: "uxSchedulerSuspended k = 1"
  shows "\<exists>k'. resume_and_yield k = Some k' \<and> kernel_inv idle k' \<and> sw_int k' \<and> same_main k k' \<and> wakes k k' \<and>
    uxSchedulerSuspended k' = 0 \<and> xTickCount k' = xTickCount k + of_nat (xPendedTicks k) \<and>
    (\<forall>t. tcb k' t = (if event_in (tcb k t) = Some PendingReadyL \<or>
                        delayed k t \<and> ticks_left k t \<le> xPendedTicks k
                     then woken (tcb k t) else tcb k t))"
proof -
  obtain k' b where k': "xTaskResumeAll k = Some (k', b)" "kernel_inv idle k'" "same_main k k'" "wakes k k'"
    "uxSchedulerSuspended k' = 0" "sw_int k \<or> b \<longrightarrow> sw_int k'"
    "xTickCount k' = xTickCount k + of_nat (xPendedTicks k)"
    "\<forall>t. tcb k' t = (if event_in (tcb k t) = Some PendingReadyL \<or>
                        delayed k t \<and> ticks_left k t \<le> xPendedTicks k
                     then woken (tcb k t) else tcb k t)"
    using inv_resume_all[OF inv] susp by auto
  let ?k = "if b then k' else yield k'"
  have "resume_and_yield k = Some ?k" by (simp add: resume_and_yield_def k'(1))
  moreover have "tcb ?k = tcb k'" "xTickCount ?k = xTickCount k'" "same_main k' ?k"
    "uxSchedulerSuspended ?k = uxSchedulerSuspended k'"
    by (simp_all add: yield_def same_main_def)
  moreover have "sw_int ?k" using k'(6) by (simp add: yield_def)
  moreover have "kernel_inv idle ?k" using k'(2) by simp
  moreover have "wakes k ?k" using k'(4) by (simp add: wakes_def yield_def)
  ultimately show ?thesis using k'(5,7,8) same_main_trans[OF k'(3)] by metis
qed

text \<open>Delaying: the exact effect, with the scheduler running.\<close>

lemma inv_delay:
  assumes inv: "kernel_inv idle k" and run: "running k me" and idle: "me \<noteq> idle"
    and susp: "uxSchedulerSuspended k = 0" and ticks: "ticks \<noteq> 0"
  shows "\<exists>k'. vTaskDelay ticks k = Some k' \<and> kernel_inv idle k' \<and> sw_int k' \<and> same_main k k' \<and>
    uxSchedulerSuspended k' = 0 \<and> xTickCount k' = xTickCount k \<and>
    tcb k' = (tcb k)(me := blocked_tcb ticks False k (tcb k me))"
    "\<exists>k'. do { k \<leftarrow> prvAddCurrentTaskToDelayedList ticks False (vTaskSuspendAll k); resume_and_yield k }
        = Some k' \<and> kernel_inv idle k'"
proof -
  let ?k1 = "vTaskSuspendAll k"
  note run' = run[unfolded running_def]
  obtain k2 where k2: "prvAddCurrentTaskToDelayedList ticks False ?k1 = Some k2" "kernel_inv idle k2"
    "same_rest ?k1 k2" "tcb k2 = (tcb k)(me := blocked_tcb ticks False ?k1 (tcb k me))"
    using inv_block[OF inv_suspend_all[OF inv run] _ _ idle ticks, of False] run' by auto
  note rest = same_rest_simps[OF k2(3)]
  obtain k3 where k3: "resume_and_yield k2 = Some k3" "kernel_inv idle k3" "sw_int k3" "same_main k2 k3"
    "uxSchedulerSuspended k3 = 0" "xTickCount k3 = xTickCount k2 + of_nat (xPendedTicks k2)"
    "\<forall>t. tcb k3 t = (if event_in (tcb k2 t) = Some PendingReadyL \<or>
                        delayed k2 t \<and> ticks_left k2 t \<le> xPendedTicks k2
                     then woken (tcb k2 t) else tcb k2 t)"
    using inv_resume_and_yield[OF k2(2)] rest susp by auto
  have no_pend: "event_in (tcb k2 t) \<noteq> Some PendingReadyL" for t
    using kernel_invD(10)[OF inv susp, of t] by (auto simp: k2(4))
  have zero: "xPendedTicks k2 = 0" using kernel_invD(9)[OF inv susp] rest by simp
  have "tcb k3 t = tcb k2 t" for t
    using k3(7) no_pend zero delayed_left[OF kernel_invD(1)[OF k2(2)], of t] by auto
  then have "tcb k3 = tcb k2" by auto
  moreover have "blocked_tcb ticks False ?k1 (tcb k me) = blocked_tcb ticks False k (tcb k me)"
    by (simp add: blocked_tcb_def blocked_list_def)
  moreover have "same_main k k3"
    using same_main_trans[OF suspend_all_simps(7) same_main_trans[OF same_rest_main[OF k2(3)] k3(4)]] .
  moreover have "vTaskDelay ticks k = Some k3"
    using ticks susp k2(1) k3(1) by (simp add: vTaskDelay_def word_neq_0_conv)
  ultimately show "\<exists>k'. vTaskDelay ticks k = Some k' \<and> kernel_inv idle k' \<and> sw_int k' \<and> same_main k k' \<and>
    uxSchedulerSuspended k' = 0 \<and> xTickCount k' = xTickCount k \<and>
    tcb k' = (tcb k)(me := blocked_tcb ticks False k (tcb k me))"
    using k3 k2(4) rest zero by auto
  show "\<exists>k'. do { k \<leftarrow> prvAddCurrentTaskToDelayedList ticks False (vTaskSuspendAll k); resume_and_yield k }
        = Some k' \<and> kernel_inv idle k'"
    using k2(1) k3(1,2) by simp
qed

end
