(* ===== verification/TaskCalls.thy ===== *)
theory TaskCalls
  imports TaskSched
begin

text \<open>
  Every operation of the scheduler, called as its interface allows, returns and preserves the
  invariant of the kernel.
\<close>

section \<open>Ticks and switches\<close>

lemma inv_tick:
  assumes inv: "kernel_inv idle k"
  shows "\<exists>k'. tick_interrupt k = Some k' \<and> kernel_inv idle k'"
proof (cases "uxSchedulerSuspended k = 0")
  case True
  obtain me where me: "pxCurrentTCB k = Some me" using kernel_inv_current[OF inv] by blast
  obtain k' s where k': "xTaskIncrementTick k = Some (k', s)" "core_inv {} k'"
    "\<forall>t. tcb k' t = (if due k t then woken (tcb k t) else tcb k t)" "same_main k k'"
    "uxSchedulerSuspended k' = 0" "xPendedTicks k' = xPendedTicks k"
    using tick_ok[OF kernel_invD(1)[OF inv] me True] by blast
  have "wakes k k'" using k'(3) by (auto simp: wakes_def due_def live_def)
  moreover have "event_in (tcb k' t) \<noteq> Some PendingReadyL" for t
    using k'(3) kernel_invD(10)[OF inv True, of t] by simp
  ultimately have "kernel_inv idle k'"
    using kernel_inv_wakes[OF inv k'(2,4)] kernel_invD(9)[OF inv True] k'(5,6) by simp
  then show ?thesis using k'(1) by (simp add: tick_interrupt_def)
next
  case False
  have "kernel_inv idle (k\<lparr>xPendedTicks := xPendedTicks k + 1\<rparr>)"
    using inv False by (simp add: kernel_inv_def current_ok_def)
  with False show ?thesis by (simp add: tick_interrupt_def xTaskIncrementTick_def)
qed

lemma inv_switch:
  assumes inv: "kernel_inv idle k"
  shows "\<exists>k'. take_sw_int k = Some k' \<and> kernel_inv idle k' \<and> tcb k' = tcb k \<and>
    (uxSchedulerSuspended k = 0 \<longrightarrow> (\<exists>u. pxCurrentTCB k' = Some u \<and> ready (tcb k u)))"
proof (cases "uxSchedulerSuspended k = 0")
  case False
  then show ?thesis using inv by (simp add: take_sw_int_def vTaskSwitchContext_def)
next
  case True
  let ?k = "k\<lparr>sw_int := False\<rparr>"
  obtain p where p: "state_in (tcb ?k idle) = Some (ReadyL p)"
    using kernel_invD(3)[OF inv] by (auto simp: ready_def)
  obtain k' q where k': "vTaskSwitchContext ?k = Some k'" "core_inv {} k'"
    "pxCurrentTCB k' = Some (next_in (rindex ?k q) (slist ?k (ReadyL q)))"
    "next_in (rindex ?k q) (slist ?k (ReadyL q)) \<in> set (slist ?k (ReadyL q))"
    "k' = ?k\<lparr>xYieldPending := False, rindex := (rindex ?k)(q := pxCurrentTCB k'),
             pxCurrentTCB := pxCurrentTCB k'\<rparr>"
    using switch_ok[OF _ p] kernel_invD(1)[OF inv] True by auto
  let ?u = "next_in (rindex ?k q) (slist ?k (ReadyL q))"
  have "state_in (tcb k ?u) = Some (ReadyL q)"
    using k'(4) lists_inv_mem[OF core_invD(1)[OF kernel_invD(1)[OF inv]]] by simp
  then have ready: "ready (tcb k ?u)" by (auto simp: ready_def)
  then have "current_ok k (tcb k ?u)"
    using kernel_invD(2,10)[OF inv, of ?u] True by (simp add: current_ok_def tcb_ok_def)
  moreover have "tcb k' = tcb k" "xSchedulerRunning k' = xSchedulerRunning k"
    "uxCurrentNumberOfTasks k' = uxCurrentNumberOfTasks k"
    "uxDeletedTasksWaitingCleanUp k' = uxDeletedTasksWaitingCleanUp k"
    "uxSchedulerSuspended k' = uxSchedulerSuspended k" "xPendedTicks k' = xPendedTicks k"
    by (subst k'(5), simp)+
  ultimately have "kernel_inv idle k'"
    using kernel_invD[OF inv] k'(2,3) True unfolding kernel_inv_def by (simp add: current_ok_def)
  with k'(1,3) ready \<open>tcb k' = tcb k\<close> show ?thesis by (simp add: take_sw_int_def)
qed

section \<open>Changes of fields outside the lists\<close>

lemma inv_upd_tcb:
  assumes inv: "kernel_inv idle k"
    and f: "\<And>c. state_in (f c) = state_in c" "\<And>c. event_in (f c) = event_in c"
      "\<And>c. uxPriority (f c) = uxPriority c" "\<And>c. uxBasePriority (f c) = uxBasePriority c"
      "\<And>c. state_value (f c) = state_value c"
    and notify: "\<And>i. ucNotifyState (f (tcb k t)) i = WAITING \<Longrightarrow> ucNotifyState (tcb k t) i = WAITING"
  shows "kernel_inv idle (upd_tcb t f k)"
proof (rule kernel_inv_one[OF inv])
  show "core_inv {} (upd_tcb t f k)"
    by (rule core_inv_upd_tcb[OF kernel_invD(1)[OF inv]]) (use f notify in auto)
  have r: "ready (f (tcb k t)) = ready (tcb k t)" by (simp add: ready_def f)
  have w: "waiting (f (tcb k t)) \<Longrightarrow> waiting (tcb k t)" using notify by (auto simp: waiting_def)
  show "tcb_ok (f (tcb k t))"
    using kernel_invD(2)[OF inv, of t] notify unfolding tcb_ok_def r f by blast
  show "current_ok k (f (tcb k t))" if "pxCurrentTCB k = Some t"
    using kernel_invD(8)[OF inv that] w unfolding current_ok_def r f by blast
  show "ready (f (tcb k t))" if "t = idle" using kernel_invD(3)[OF inv] that r by simp
qed (use f kernel_invD(10)[OF inv, of t] in \<open>simp_all add: same_main_def\<close>)

lemma inv_reset_event_value:
  "kernel_inv idle k \<Longrightarrow> \<exists>k' v. uxTaskResetEventItemValue k = Some (k', v) \<and> kernel_inv idle k'"
  using kernel_inv_current[of idle k]
  by (auto simp: uxTaskResetEventItemValue_def intro!: inv_upd_tcb)

lemma inv_check_time_out:
  "kernel_inv idle k \<Longrightarrow> \<exists>k' o' n b. xTaskCheckForTimeOut tmo ticks k = Some (k', o', n, b) \<and> kernel_inv idle k'"
  using kernel_inv_current[of idle k]
  by (auto simp: xTaskCheckForTimeOut_def Let_def intro!: inv_upd_tcb)

lemma inv_mutex_count:
  "kernel_inv idle k \<Longrightarrow> kernel_inv idle (fst (pvTaskIncrementMutexHeldCount k))"
  by (auto simp: pvTaskIncrementMutexHeldCount_def intro!: inv_upd_tcb split: option.splits)

lemma inv_notify_leave:
  assumes "kernel_inv idle k"
  shows "\<exists>k' v b. xTaskGenericNotifyWait_leave i bits k = Some (k', v, b) \<and> kernel_inv idle k'"
    "\<exists>k' v. ulTaskGenericNotifyTake_leave i clear k = Some (k', v) \<and> kernel_inv idle k'"
  using kernel_inv_current[OF assms] assms
  by (auto simp: xTaskGenericNotifyWait_leave_def ulTaskGenericNotifyTake_leave_def Let_def
      set_notify_def intro!: inv_upd_tcb split: if_splits)

lemma inv_notify_clear:
  assumes "kernel_inv idle k" "i < configTASK_NOTIFICATION_ARRAY_ENTRIES"
  shows "\<exists>k' b. xTaskGenericNotifyStateClear t i k = Some (k', b) \<and> kernel_inv idle k'"
    "kernel_inv idle (fst (ulTaskGenericNotifyValueClear t i bits k))"
  using assms
  by (auto simp: xTaskGenericNotifyStateClear_def ulTaskGenericNotifyValueClear_def
      set_notify_def intro!: inv_upd_tcb split: if_splits)

section \<open>Making a task ready\<close>

lemma woken_no_event:
  "event_in c = None \<Longrightarrow> c\<lparr>state_in := Some (ReadyL (uxPriority c))\<rparr> = woken c"
  by (cases c) (simp add: woken_def)

lemma woken_event_in [simp]: "woken (c\<lparr>event_in := e\<rparr>) = woken c"
  by (cases c) (simp add: woken_def)

lemma inv_make_ready:
  assumes inv: "kernel_inv idle k" and t: "live k t" "event_in (tcb k t) = None"
  shows "\<exists>k'. make_ready t k = Some k' \<and> kernel_inv idle k' \<and> same_rest k k' \<and>
    tcb k' = (tcb k)(t := woken (tcb k t))"
proof -
  obtain k' where k': "make_ready t k = Some k'" "core_inv {} k'" "same_rest k k'"
    "tcb k' = (tcb k)(t := (tcb k t)\<lparr>state_in := Some (ReadyL (uxPriority (tcb k t)))\<rparr>)"
    using make_ready_ok[OF kernel_invD(1)[OF inv], of t] t by (auto simp: live_def)
  have tcb': "tcb k' = (tcb k)(t := woken (tcb k t))" using k'(4) woken_no_event[OF t(2)] by simp
  then have "wakes k k'" using t(1) by (simp add: wakes_def)
  moreover have "event_in (tcb k' u) \<noteq> Some PendingReadyL" if "uxSchedulerSuspended k = 0" for u
    using kernel_invD(10)[OF inv that, of u] by (simp add: tcb')
  ultimately have "kernel_inv idle k'"
    using kernel_inv_wakes[OF inv k'(2) same_rest_main[OF k'(3)]] kernel_invD(9)[OF inv]
      same_rest_simps[OF k'(3)] by simp
  with k' tcb' show ?thesis by blast
qed

lemma inv_event_pending:
  assumes inv: "kernel_inv idle k" and susp: "uxSchedulerSuspended k \<noteq> 0"
    and t: "live k t" "event_in (tcb k t) = None" "\<not> waiting (tcb k t)"
    and me: "pxCurrentTCB k = Some t \<Longrightarrow> \<not> ready (tcb k t)"
  shows "kernel_inv idle (event_append PendingReadyL t k)"
proof (rule kernel_inv_one[OF inv _ event_add_simps(1)])
  show "core_inv {} (event_append PendingReadyL t k)"
    using core_inv_event_add(1)[OF kernel_invD(1)[OF inv] t(2)] t(3) by (simp add: waiting_def)
  show "same_main k (event_append PendingReadyL t k)" by (simp add: same_main_def)
qed (use t me susp kernel_invD(2)[OF inv, of t] kernel_invD(3)[OF inv] in
    \<open>auto simp: tcb_ok_def current_ok_def live_def waiting_def\<close>)

text \<open>Taking a waiting task off its event list.\<close>

lemma inv_wake_event:
  assumes inv: "kernel_inv idle k" and t: "event_in (tcb k t) = Some (WaitL w)"
  shows "\<exists>k'. (if uxSchedulerSuspended k = 0 then make_ready t (event_remove t k)
               else Some (event_append PendingReadyL t (event_remove t k))) = Some k' \<and>
    kernel_inv idle k' \<and> same_rest k k' \<and>
    tcb k' = (tcb k)(t := if uxSchedulerSuspended k = 0 then woken (tcb k t)
                          else (tcb k t)\<lparr>event_in := Some PendingReadyL\<rparr>)"
proof -
  let ?k = "event_remove t k"
  have live: "live k t" "\<not> ready (tcb k t)"
    using kernel_invD(2)[OF inv, of t] t by (auto simp: tcb_ok_def live_def)
  have "\<not> waiting (tcb k t)"
    using core_invD(5)[OF kernel_invD(1)[OF inv]] t by (auto simp: notify_inv_def waiting_def)
  have inv1: "kernel_inv idle ?k"
    by (rule kernel_inv_one[OF inv core_inv_event_remove[OF kernel_invD(1)[OF inv]]
          event_remove_simps(1) same_rest_main[OF event_remove_simps(6)]])
      (use kernel_invD(2)[OF inv, of t] kernel_invD(3)[OF inv] kernel_invD(8)[OF inv, of t] in
        \<open>auto simp: tcb_ok_def current_ok_def waiting_def\<close>)
  show ?thesis
  proof (cases "uxSchedulerSuspended k = 0")
    case True
    obtain k' where k': "make_ready t ?k = Some k'" "kernel_inv idle k'" "same_rest ?k k'"
      "tcb k' = (tcb ?k)(t := woken (tcb ?k t))"
      using inv_make_ready[OF inv1, of t] live(1) by (auto simp: live_def)
    moreover have "same_rest k k'" using same_rest_trans[OF event_remove_simps(6) k'(3)] .
    ultimately show ?thesis using True by simp
  next
    case False
    have "kernel_inv idle (event_append PendingReadyL t ?k)"
      by (rule inv_event_pending[OF inv1])
        (use False live \<open>\<not> waiting _\<close> in \<open>auto simp: live_def waiting_def\<close>)
    moreover have "same_rest k (event_append PendingReadyL t ?k)"
      using same_rest_trans[OF event_remove_simps(6) event_add_simps(7)] .
    ultimately show ?thesis using False by simp
  qed
qed

lemma inv_remove_event:
  assumes inv: "kernel_inv idle k" and w: "elist k (WaitL w) = t # ts"
  shows "\<exists>k' b. xTaskRemoveFromEventList w k = Some (k', b) \<and> kernel_inv idle k' \<and>
    same_main k k' \<and> uxSchedulerSuspended k' = uxSchedulerSuspended k \<and>
    tcb k' = (tcb k)(t := if uxSchedulerSuspended k = 0 then woken (tcb k t)
                          else (tcb k t)\<lparr>event_in := Some PendingReadyL\<rparr>)"
proof -
  have t: "event_in (tcb k t) = Some (WaitL w)"
    using core_invD(1)[OF kernel_invD(1)[OF inv]] w unfolding lists_inv_def by (metis list.set_intros(1))
  obtain me where me: "pxCurrentTCB k = Some me" using kernel_inv_current[OF inv] by blast
  obtain k' where k': "(if uxSchedulerSuspended k = 0 then make_ready t (event_remove t k)
               else Some (event_append PendingReadyL t (event_remove t k))) = Some k'"
    "kernel_inv idle k'" "same_rest k k'"
    "tcb k' = (tcb k)(t := if uxSchedulerSuspended k = 0 then woken (tcb k t)
                           else (tcb k t)\<lparr>event_in := Some PendingReadyL\<rparr>)"
    using inv_wake_event[OF inv t] by blast
  note rest = same_rest_simps[OF k'(3)]
  show ?thesis
    using k' me rest same_rest_main[OF k'(3)]
    by (auto simp: xTaskRemoveFromEventList_def w Let_def same_main_def)
qed

section \<open>Notifications\<close>

definition delivered :: "nat \<Rightarrow> 32 word \<Rightarrow> eNotifyAction \<Rightarrow> tcb \<Rightarrow> tcb" where
  "delivered i v action c = set_notify i RECEIVED (c\<lparr>ulNotifiedValue := (ulNotifiedValue c)(i :=
     fst (notify_value action v (ucNotifyState c i) (ulNotifiedValue c i)))\<rparr>)"

lemma delivered_simps [simp]:
  "state_in (delivered i v a c) = state_in c" "event_in (delivered i v a c) = event_in c"
  "uxPriority (delivered i v a c) = uxPriority c" "uxBasePriority (delivered i v a c) = uxBasePriority c"
  "state_value (delivered i v a c) = state_value c"
  "ucNotifyState (delivered i v a c) = (ucNotifyState c)(i := RECEIVED)"
  by (simp_all add: delivered_def set_notify_def)

lemma deliver_eq:
  "deliver t i v action k = (upd_tcb t (delivered i v action) k,
     snd (notify_value action v (ucNotifyState (tcb k t) i) (ulNotifiedValue (tcb k t) i)))"
  by (simp add: deliver_def delivered_def upd_tcb_def split: prod.splits)

lemma inv_deliver: "kernel_inv idle k \<Longrightarrow> kernel_inv idle (upd_tcb t (delivered i v a) k)"
  by (rule inv_upd_tcb) (auto split: if_splits)

lemma kernel_inv_waiting_event:
  "kernel_inv idle k \<Longrightarrow> ucNotifyState (tcb k t) i = WAITING \<Longrightarrow> event_in (tcb k t) = None"
  using core_invD(5)[OF kernel_invD(1)[of idle k]] by (auto simp: notify_inv_def)

lemma inv_notify:
  assumes inv: "kernel_inv idle k" and i: "i < configTASK_NOTIFICATION_ARRAY_ENTRIES" and t: "live k t"
  shows "\<exists>k' b. xTaskGenericNotify t i v action k = Some (k', b) \<and> kernel_inv idle k'"
proof -
  let ?k = "upd_tcb t (delivered i v action) k"
  note inv1 = inv_deliver[OF inv, of t i v action]
  obtain me where me: "pxCurrentTCB k = Some me" using kernel_inv_current[OF inv] by blast
  show ?thesis
  proof (cases "ucNotifyState (tcb k t) i = WAITING")
    case True
    then have event: "event_in (tcb ?k t) = None" using kernel_inv_waiting_event[OF inv] by simp
    obtain k' where k': "make_ready t ?k = Some k'" "kernel_inv idle k'" "same_rest ?k k'"
      "tcb k' = (tcb ?k)(t := woken (tcb ?k t))"
      using inv_make_ready[OF inv1 _ event] t by (auto simp: live_def)
    then show ?thesis
      using me i True same_rest_simps[OF k'(3)]
      by (auto simp: xTaskGenericNotify_def Let_def deliver_eq)
  next
    case False
    then show ?thesis using i inv1 by (simp add: xTaskGenericNotify_def Let_def deliver_eq)
  qed
qed

lemma inv_notify_from_isr:
  assumes inv: "kernel_inv idle k" and i: "i < configTASK_NOTIFICATION_ARRAY_ENTRIES" and t: "live k t"
  shows "\<exists>k' b w. xTaskGenericNotifyFromISR t i v action k = Some (k', b, w) \<and> kernel_inv idle k'"
proof -
  let ?k = "upd_tcb t (delivered i v action) k"
  note inv1 = inv_deliver[OF inv, of t i v action]
  obtain me where me: "pxCurrentTCB k = Some me" "current_ok k (tcb k me)"
    using kernel_inv_current[OF inv] by blast
  show ?thesis
  proof (cases "ucNotifyState (tcb k t) i = WAITING")
    case True
    then have event: "event_in (tcb ?k t) = None" using kernel_inv_waiting_event[OF inv] by simp
    have "\<not> waiting (tcb ?k t)"
      using kernel_invD(2)[OF inv, of t] True by (auto simp: tcb_ok_def waiting_def)
    have live: "live ?k t" using t by (simp add: live_def)
    obtain k' where k': "(if uxSchedulerSuspended ?k = 0 then make_ready t ?k
        else Some (event_append PendingReadyL t ?k)) = Some k'" "kernel_inv idle k'" "same_rest ?k k'"
    proof (cases "uxSchedulerSuspended k = 0")
      case zero: True
      then show ?thesis using inv_make_ready[OF inv1 live event] that by auto
    next
      case nonzero: False
      have "t \<noteq> me" using me(2) nonzero True by (auto simp: current_ok_def waiting_def)
      then have "kernel_inv idle (event_append PendingReadyL t ?k)"
        by (intro inv_event_pending[OF inv1 _ live event \<open>\<not> waiting _\<close>]) (use nonzero me in simp_all)
      then show ?thesis using nonzero that[of "event_append PendingReadyL t ?k"] by simp
    qed
    have rest: "pxCurrentTCB k' = Some me" using same_rest_simps(1)[OF k'(3)] me(1) by simp
    have eq: "xTaskGenericNotifyFromISR t i v action k =
      Some (if uxPriority (tcb k' me) < uxPriority (tcb k' t)
            then (k'\<lparr>xYieldPending := True\<rparr>, snd (deliver t i v action k), True)
            else (k', snd (deliver t i v action k), False))"
      using i True event rest k'(1)
      by (simp add: xTaskGenericNotifyFromISR_def Let_def deliver_eq)
    show ?thesis unfolding eq using k'(2) by auto
  next
    case False
    then show ?thesis using i inv1 by (auto simp: xTaskGenericNotifyFromISR_def Let_def deliver_eq)
  qed
qed

lemma inv_notify_give:
  assumes "kernel_inv idle k" "i < configTASK_NOTIFICATION_ARRAY_ENTRIES" "live k t"
  shows "\<exists>k' w. vTaskGenericNotifyGiveFromISR t i k = Some (k', w) \<and> kernel_inv idle k'"
  using inv_notify_from_isr[OF assms, of 0 eIncrement]
  by (auto simp: vTaskGenericNotifyGiveFromISR_def)

lemma inv_wait_notification:
  assumes inv: "kernel_inv idle k" and run: "running k me" and idle: "me \<noteq> idle"
    and susp: "uxSchedulerSuspended k = 0"
  shows "\<exists>k'. block_for_notification i ticks k = Some k' \<and> kernel_inv idle k'"
proof -
  let ?k = "upd_tcb me (set_notify i WAITING) k"
  have me: "pxCurrentTCB k = Some me" "ready (tcb k me)" "\<not> waiting (tcb k me)"
    using run by (simp_all add: running_def)
  have event: "event_in (tcb k me) = None"
    using kernel_invD(8)[OF inv me(1)] me(2) by (simp add: current_ok_def)
  have "core_inv {} ?k"
    by (rule core_inv_upd_tcb[OF kernel_invD(1)[OF inv]]) (use event in \<open>auto simp: set_notify_def\<close>)
  then have inv1: "kernel_inv idle ?k"
    by (rule kernel_inv_one[OF inv _ upd_tcb_simps(1)])
      (use me event susp idle in
        \<open>auto simp: set_notify_def same_main_def tcb_ok_def current_ok_def ready_def waiting_def split: if_splits\<close>)
  show ?thesis
  proof (cases "0 < ticks")
    case True
    have "pxCurrentTCB ?k = Some me" "ready (tcb ?k me)" using me by (simp_all add: set_notify_def)
    from inv_block[OF inv1 this idle, of ticks True] True me(1) show ?thesis
      by (auto simp: block_for_notification_def word_neq_0_conv)
  next
    case False
    then show ?thesis using inv1 me(1) by (simp add: block_for_notification_def)
  qed
qed

lemma inv_notify_wait:
  assumes inv: "kernel_inv idle k" and run: "running k me" and idle: "me \<noteq> idle"
    and susp: "uxSchedulerSuspended k = 0" and i: "i < configTASK_NOTIFICATION_ARRAY_ENTRIES"
  shows "\<exists>k'. xTaskGenericNotifyWait_enter i bits ticks k = Some k' \<and> kernel_inv idle k'"
    "\<exists>k'. ulTaskGenericNotifyTake_enter i ticks k = Some k' \<and> kernel_inv idle k'"
proof -
  let ?f = "\<lambda>c. c\<lparr>ulNotifiedValue := (ulNotifiedValue c)(i := ulNotifiedValue c i AND NOT bits)\<rparr>"
  have me: "pxCurrentTCB k = Some me" using run by (simp add: running_def)
  have inv1: "kernel_inv idle (upd_tcb me ?f k)" by (rule inv_upd_tcb[OF inv]) auto
  have run1: "running (upd_tcb me ?f k) me" using run by (simp add: running_def waiting_def)
  show "\<exists>k'. xTaskGenericNotifyWait_enter i bits ticks k = Some k' \<and> kernel_inv idle k'"
    using inv_wait_notification[OF inv1 run1 idle, of i ticks] inv me i susp
    by (simp add: xTaskGenericNotifyWait_enter_def)
  show "\<exists>k'. ulTaskGenericNotifyTake_enter i ticks k = Some k' \<and> kernel_inv idle k'"
    using inv_wait_notification[OF inv run idle susp, of i ticks] inv me i
    by (simp add: ulTaskGenericNotifyTake_enter_def)
qed

section \<open>Resuming a task\<close>

lemma inv_resume:
  assumes inv: "kernel_inv idle k"
  shows "\<exists>k'. vTaskResume t k = Some k' \<and> kernel_inv idle k'"
proof (cases "pxCurrentTCB k \<noteq> Some t \<and> prvTaskIsTaskSuspended t k")
  case True
  then have t: "live k t" "event_in (tcb k t) = None" by (auto simp: prvTaskIsTaskSuspended_def live_def)
  obtain me where me: "pxCurrentTCB k = Some me" using kernel_inv_current[OF inv] by blast
  obtain k' where "make_ready t k = Some k'" "kernel_inv idle k'" "same_rest k k'"
    using inv_make_ready[OF inv t] by blast
  with True me show ?thesis by (auto simp: vTaskResume_def same_rest_def)
qed (use inv in \<open>auto simp: vTaskResume_def\<close>)

lemma inv_resume_from_isr:
  assumes inv: "kernel_inv idle k" and wait: "\<not> waiting (tcb k t)"
  shows "\<exists>k' b. xTaskResumeFromISR t k = Some (k', b) \<and> kernel_inv idle k'"
proof (cases "prvTaskIsTaskSuspended t k")
  case True
  then have t: "state_in (tcb k t) = Some SuspendedL" "event_in (tcb k t) = None"
    by (auto simp: prvTaskIsTaskSuspended_def)
  then have live: "live k t" "\<not> ready (tcb k t)" by (auto simp: live_def ready_def)
  obtain me where me: "pxCurrentTCB k = Some me" using kernel_inv_current[OF inv] by blast
  show ?thesis
  proof (cases "uxSchedulerSuspended k = 0")
    case zero: True
    let ?y = "uxPriority (tcb k me) \<le> uxPriority (tcb k t)"
    let ?k = "if ?y then k\<lparr>xYieldPending := True\<rparr> else k"
    have "kernel_inv idle ?k" "live ?k t" "event_in (tcb ?k t) = None"
      using inv live t by (auto simp: live_def)
    from inv_make_ready[OF this] True zero me show ?thesis
      by (auto simp: xTaskResumeFromISR_def Let_def)
  next
    case False
    then show ?thesis using True inv_event_pending[OF inv False live(1) t(2) wait] live(2)
      by (auto simp: xTaskResumeFromISR_def)
  qed
qed (use inv in \<open>auto simp: xTaskResumeFromISR_def\<close>)

section \<open>Delaying until a time\<close>

lemma should_delay_ticks:
  assumes "should_delay now previous (previous + n)" "0 < n"
  shows "previous + n - now \<noteq> 0"
  using assms by (auto simp: should_delay_def split: if_splits)

lemma inv_delay_until:
  assumes inv: "kernel_inv idle k" and run: "running k me" and idle: "me \<noteq> idle"
    and susp: "uxSchedulerSuspended k = 0" and inc: "0 < n"
  shows "\<exists>k' v b. xTaskDelayUntil previous n k = Some (k', v, b) \<and> kernel_inv idle k'"
proof (cases "should_delay (xTickCount k) previous (previous + n)")
  case True
  from inv_delay(2)[OF inv run idle susp should_delay_ticks[OF True inc]]
  obtain k' where "do { k \<leftarrow> prvAddCurrentTaskToDelayedList (previous + n - xTickCount k) False (vTaskSuspendAll k);
      resume_and_yield k } = Some k'" "kernel_inv idle k'" by blast
  then show ?thesis
    using True susp inc by (auto simp: xTaskDelayUntil_def Let_def bind_eq_Some_conv)
next
  case False
  have "uxSchedulerSuspended (vTaskSuspendAll k) = 1" using susp by simp
  from inv_resume_and_yield[OF inv_suspend_all[OF inv run] this] False susp inc show ?thesis
    by (auto simp: xTaskDelayUntil_def Let_def)
qed

lemma inv_catch_up:
  assumes inv: "kernel_inv idle k" and run: "running k me" and susp: "uxSchedulerSuspended k = 0"
  shows "\<exists>k' b. xTaskCatchUpTicks n k = Some (k', b) \<and> kernel_inv idle k'"
proof -
  let ?k = "(vTaskSuspendAll k)\<lparr>xPendedTicks := xPendedTicks k + n\<rparr>"
  have "kernel_inv idle ?k"
    using inv_suspend_all[OF inv run] susp by (simp add: kernel_inv_def current_ok_def)
  from inv_resume_all[OF this] susp show ?thesis by (auto simp: xTaskCatchUpTicks_def Let_def)
qed

section \<open>Waiting for an event\<close>

lemma inv_place:
  assumes inv: "kernel_inv idle k" and run: "running k me" and idle: "me \<noteq> idle" and ticks: "ticks \<noteq> 0"
    and k1: "core_inv {} k1" "same_rest k k1" "tcb k1 = (tcb k)(me := c)"
    and c: "state_in c = state_in (tcb k me)" "event_in c = Some (WaitL w)"
      "ucNotifyState c = ucNotifyState (tcb k me)"
  shows "\<exists>k'. prvAddCurrentTaskToDelayedList ticks indefinitely k1 = Some k' \<and> kernel_inv idle k' \<and>
    same_rest k k' \<and> tcb k' = (tcb k)(me := blocked_tcb ticks indefinitely k1 c)"
proof -
  have me: "pxCurrentTCB k = Some me" "\<not> waiting (tcb k me)" using run by (simp_all add: running_def)
  obtain p where p: "state_in (tcb k me) = Some (ReadyL p)" using run by (auto simp: running_def ready_def)
  have "pxCurrentTCB k1 = Some me" using same_rest_simps(1)[OF k1(2)] me by simp
  moreover have "state_in (tcb k1 me) = Some (ReadyL p)" using p c(1) by (simp add: k1(3))
  ultimately obtain k' where k': "prvAddCurrentTaskToDelayedList ticks indefinitely k1 = Some k'"
    "core_inv {} k'" "same_rest k1 k'" "tcb k' = (tcb k1)(me := blocked_tcb ticks indefinitely k1 (tcb k1 me))"
    using add_delayed_ok[OF k1(1) _ _ ticks] by blast
  have rest: "same_rest k k'" using same_rest_trans[OF k1(2) k'(3)] .
  have tcb': "tcb k' = (tcb k)(me := blocked_tcb ticks indefinitely k1 c)" by (simp add: k'(4) k1(3))
  have "\<not> waiting c" using me(2) c(3) by (simp add: waiting_def)
  have "kernel_inv idle k'"
    by (rule kernel_inv_one[OF inv k'(2) tcb' same_rest_main[OF rest]])
      (use kernel_invD(2)[OF inv, of me] p c idle \<open>\<not> waiting c\<close> same_rest_simps[OF rest]
        in \<open>auto simp: tcb_ok_def current_ok_def\<close>)
  with k'(1) rest tcb' show ?thesis by blast
qed

lemma inv_place_on:
  assumes inv: "kernel_inv idle k" and run: "running k me" and idle: "me \<noteq> idle"
  shows "ticks \<noteq> 0 \<Longrightarrow> \<exists>k'. vTaskPlaceOnEventList w ticks k = Some k' \<and> kernel_inv idle k'"
    "ticks \<noteq> 0 \<Longrightarrow> uxSchedulerSuspended k \<noteq> 0 \<Longrightarrow>
      \<exists>k' c. vTaskPlaceOnUnorderedEventList w v ticks k = Some k' \<and> kernel_inv idle k' \<and> same_rest k k' \<and>
        tcb k' = (tcb k)(me := c) \<and> event_in c = Some (WaitL w) \<and>
        event_value c = v OR taskEVENT_LIST_ITEM_VALUE_IN_USE"
    "ticks \<noteq> 0 \<or> forever \<Longrightarrow>
      \<exists>k'. vTaskPlaceOnEventListRestricted w ticks forever k = Some k' \<and> kernel_inv idle k'"
proof -
  note core = kernel_invD(1)[OF inv]
  have me: "pxCurrentTCB k = Some me" "\<And>i. ucNotifyState (tcb k me) i \<noteq> WAITING"
    using run by (auto simp: running_def waiting_def)
  have event: "event_in (tcb k me) = None"
    using kernel_invD(8)[OF inv me(1)] run by (simp add: current_ok_def running_def)
  note place = inv_place[OF inv run idle]
  show "\<exists>k'. vTaskPlaceOnEventList w ticks k = Some k' \<and> kernel_inv idle k'" if "ticks \<noteq> 0"
    using place[OF that core_inv_event_add(2)[OF core event me(2)] event_add_simps(14,8), where w = w and indefinitely = True]
    by (auto simp: vTaskPlaceOnEventList_def me(1))
  show "\<exists>k'. vTaskPlaceOnEventListRestricted w ticks forever k = Some k' \<and> kernel_inv idle k'"
    if "ticks \<noteq> 0 \<or> forever"
  proof -
    have "(if forever then MAX_DELAY else ticks) \<noteq> 0" using that by auto
    from place[OF this core_inv_event_add(1)[OF core event me(2)] event_add_simps(7,1), where w = w and indefinitely = forever]
    show ?thesis by (auto simp: vTaskPlaceOnEventListRestricted_def me(1))
  qed
  show "\<exists>k' c. vTaskPlaceOnUnorderedEventList w v ticks k = Some k' \<and> kernel_inv idle k' \<and> same_rest k k' \<and>
      tcb k' = (tcb k)(me := c) \<and> event_in c = Some (WaitL w) \<and>
      event_value c = v OR taskEVENT_LIST_ITEM_VALUE_IN_USE"
    if "ticks \<noteq> 0" "uxSchedulerSuspended k \<noteq> 0"
  proof -
    let ?k = "upd_tcb me (event_value_update (\<lambda>_. v OR taskEVENT_LIST_ITEM_VALUE_IN_USE)) k"
    let ?k1 = "event_append (WaitL w) me ?k"
    have "core_inv {} ?k" by (rule core_inv_upd_tcb[OF core]) auto
    then have core1: "core_inv {} ?k1" by (rule core_inv_event_add(1)) (use event me(2) in auto)
    have rest1: "same_rest k ?k1" by (simp add: same_rest_def)
    have tcb1: "tcb ?k1 = (tcb k)(me := (tcb k me)\<lparr>event_value := v OR taskEVENT_LIST_ITEM_VALUE_IN_USE,
        event_in := Some (WaitL w)\<rparr>)" by simp
    let ?c = "(tcb k me)\<lparr>event_value := v OR taskEVENT_LIST_ITEM_VALUE_IN_USE, event_in := Some (WaitL w)\<rparr>"
    have "\<exists>k'. prvAddCurrentTaskToDelayedList ticks True ?k1 = Some k' \<and> kernel_inv idle k' \<and> same_rest k k' \<and>
        tcb k' = (tcb k)(me := blocked_tcb ticks True ?k1 ?c)"
      using place[OF that(1) core1 rest1 tcb1, of w True] by auto
    moreover have "event_in (blocked_tcb ticks True ?k1 ?c) = Some (WaitL w)"
      "event_value (blocked_tcb ticks True ?k1 ?c) = v OR taskEVENT_LIST_ITEM_VALUE_IN_USE"
      by (simp_all add: blocked_tcb_def)
    ultimately have "\<exists>k' c. prvAddCurrentTaskToDelayedList ticks True ?k1 = Some k' \<and> kernel_inv idle k' \<and> same_rest k k' \<and>
        tcb k' = (tcb k)(me := c) \<and> event_in c = Some (WaitL w) \<and>
        event_value c = v OR taskEVENT_LIST_ITEM_VALUE_IN_USE" by blast
    then show ?thesis using that(2) me(1) by (auto simp: vTaskPlaceOnUnorderedEventList_def Let_def)
  qed
qed

end
