(* ===== verification/TaskLife.thy ===== *)
theory TaskLife
  imports TaskCalls
begin

text \<open>
  Operations that change the priority of a task, suspend it, abort its delay, create it and
  delete it: each returns and preserves the invariant of the kernel.
\<close>

section \<open>Priorities\<close>

text \<open>A change of the priority fields of a task that is on no ready list.\<close>

lemma core_inv_upd_prio:
  assumes inv: "core_inv P k" and t: "\<And>p. state_in (tcb k t) \<noteq> Some (ReadyL p)"
    and f: "\<And>c. state_in (f c) = state_in c" "\<And>c. event_in (f c) = event_in c"
      "\<And>c. ucNotifyState (f c) = ucNotifyState c" "\<And>c. state_value (f c) = state_value c"
    and less: "uxPriority (f (tcb k t)) < 32" "uxBasePriority (f (tcb k t)) < 32"
  shows "core_inv P (upd_tcb t f k)"
proof -
  have "prio_inv (upd_tcb t f k)" using core_invD(2)[OF inv] t less f unfolding prio_inv_def by auto
  moreover have "lists_inv (upd_tcb t f k) = lists_inv k" by (rule lists_inv_cong) (auto simp: f)
  moreover have "mask_inv P (upd_tcb t f k) = mask_inv P k" by (rule mask_inv_cong) auto
  moreover have "time_inv (upd_tcb t f k) = time_inv k" by (rule time_inv_cong) (auto simp: f)
  moreover have "notify_inv (upd_tcb t f k) = notify_inv k" by (rule notify_inv_cong) (auto simp: f)
  ultimately show ?thesis using core_invD[OF inv] by (simp add: core_inv_def)
qed

text \<open>A ready task moved to the list of its new priority.\<close>

lemma core_inv_requeue:
  assumes inv: "core_inv {} k" and t: "state_in (tcb k t) = Some (ReadyL p)"
    and f: "\<And>c. state_in (f c) = state_in c" "\<And>c. event_in (f c) = event_in c"
      "\<And>c. ucNotifyState (f c) = ucNotifyState c" "\<And>c. state_value (f c) = state_value c"
    and comm: "\<And>c s. f (c\<lparr>state_in := s\<rparr>) = (f c)\<lparr>state_in := s\<rparr>"
    and less: "uxPriority (f (tcb k t)) < 32" "uxBasePriority (f (tcb k t)) < 32"
  shows "\<exists>k1 n. state_remove t k = Some (k1, n) \<and> state_remove t (upd_tcb t f k) = Some (upd_tcb t f k1, n) \<and>
    tcb k1 = (tcb k)(t := (tcb k t)\<lparr>state_in := None\<rparr>) \<and> same_rest k k1 \<and>
    (n = 0 \<longrightarrow> slist k (ReadyL p) = [t]) \<and>
    core_inv {} (prvAddTaskToReadyList t (upd_tcb t f (if n = 0 then reset_top p k1 else k1)))"
proof -
  note r = removed_simps[OF t]
  let ?n = "length (remove1 t (slist k (ReadyL p)))"
  let ?k1 = "if ?n = 0 then reset_top p (removed t k) else removed t k"
  have p: "uxPriority (tcb k t) = p" using core_invD(2)[OF inv] t by (auto simp: prio_inv_def)
  have "core_inv {} ?k1" by (rule core_inv_unlinked[OF inv t refl p[symmetric]]) auto
  moreover have "tcb ?k1 = (tcb k)(t := (tcb k t)\<lparr>state_in := None\<rparr>)" by (simp add: r)
  ultimately have "core_inv {} (upd_tcb t f ?k1)"
    using less by (intro core_inv_upd_prio) (simp_all add: f comm)
  then have "core_inv {} (prvAddTaskToReadyList t (upd_tcb t f ?k1))"
    using core_inv_add_ready[of "{}" "upd_tcb t f ?k1" t] by (simp add: r f)
  moreover have "state_remove t (upd_tcb t f k) = Some (upd_tcb t f (removed t k), ?n)"
    using t by (simp add: removed_def state_remove_def f Let_def upd_tcb_def comm)
  moreover have "slist k (ReadyL p) = [t]" if "?n = 0"
  proof -
    have "t \<in> set (slist k (ReadyL p))" using lists_inv_mem[OF core_invD(1)[OF inv]] t by simp
    with that show ?thesis
      by (cases "slist k (ReadyL p)") (auto split: if_splits)
  qed
  ultimately show ?thesis
    using state_remove_eq[OF t] r(1,4)
    by (intro exI[of _ "removed t k"] exI[of _ ?n]) (simp split del: if_split)
qed

text \<open>The same for the invariant of the kernel, for a ready task and for any other.\<close>

lemma kernel_inv_prio:
  assumes inv: "kernel_inv idle k" and core: "core_inv {} k'" and main: "same_main k k'"
    and susp: "uxSchedulerSuspended k' = uxSchedulerSuspended k" "xPendedTicks k' = xPendedTicks k"
    and t: "tcb k' = (tcb k)(t := c)"
    and c: "ready c = ready (tcb k t)" "event_in c = event_in (tcb k t)"
      "ucNotifyState c = ucNotifyState (tcb k t)"
      "\<not> ready (tcb k t) \<Longrightarrow> state_in c = state_in (tcb k t)"
  shows "kernel_inv idle k'"
proof (rule kernel_inv_one[OF inv core t main susp])
  have state: "ready (tcb k t) \<or> state_in c = state_in (tcb k t)" using c(4) by blast
  show "tcb_ok c" using kernel_invD(2)[OF inv, of t] c state by (auto simp: tcb_ok_def ready_def)
  show "(state_in c = None) = (state_in (tcb k t) = None)"
    "(state_in c = Some TerminationL) = (state_in (tcb k t) = Some TerminationL)"
    using state c(1) by (auto simp: ready_def)
  show "ready c" if "t = idle" using that kernel_invD(3)[OF inv] c(1) by simp
  show "current_ok k c" if "pxCurrentTCB k = Some t"
    using kernel_invD(8)[OF inv that] c by (simp add: current_ok_def waiting_def)
qed (use kernel_invD(10)[OF inv, of t] c in simp)

lemma prio_less: "kernel_inv idle k \<Longrightarrow> uxPriority (tcb k t) < 32 \<and> uxBasePriority (tcb k t) < 32"
  using core_invD(2)[OF kernel_invD(1)[of idle k]] by (simp add: prio_inv_def)

lemma ready_list:
  assumes "kernel_inv idle k" "ready (tcb k t)"
  shows "state_in (tcb k t) = Some (ReadyL (uxPriority (tcb k t)))"
  using core_invD(2)[OF kernel_invD(1)[OF assms(1)]] assms(2) by (auto simp: prio_inv_def ready_def)

text \<open>The update that \<open>set_event_priority\<close> makes.\<close>

definition event_priority :: "nat \<Rightarrow> tcb \<Rightarrow> tcb" where
  "event_priority p c =
    (if event_value c AND taskEVENT_LIST_ITEM_VALUE_IN_USE = 0 then c\<lparr>event_value := item_value p\<rparr> else c)"

lemma event_priority_simps [simp]:
  "state_in (event_priority p c) = state_in c" "event_in (event_priority p c) = event_in c"
  "ucNotifyState (event_priority p c) = ucNotifyState c" "state_value (event_priority p c) = state_value c"
  "uxPriority (event_priority p c) = uxPriority c" "uxBasePriority (event_priority p c) = uxBasePriority c"
  "uxMutexesHeld (event_priority p c) = uxMutexesHeld c"
  "event_priority p (c\<lparr>state_in := s\<rparr>) = (event_priority p c)\<lparr>state_in := s\<rparr>"
  by (simp_all add: event_priority_def)

lemma upd_tcb_id: "f (tcb k t) = tcb k t \<Longrightarrow> upd_tcb t f k = k"
  by (simp add: upd_tcb_def)

lemma upd_tcb_upd [simp]: "upd_tcb t g (upd_tcb t f k) = upd_tcb t (\<lambda>c. g (f c)) k"
  by (simp add: upd_tcb_def)

lemma set_event_priority_eq: "set_event_priority t p k = upd_tcb t (event_priority p) k"
  by (auto simp: set_event_priority_def event_priority_def upd_tcb_def)

lemma upd_reset_top: "upd_tcb t f (reset_top p k) = reset_top p (upd_tcb t f k)"
  by (simp add: upd_tcb_def reset_top_def)

lemma inv_requeue:
  assumes inv: "kernel_inv idle k" and t: "ready (tcb k t)"
    and f: "\<And>c. state_in (f c) = state_in c" "\<And>c. event_in (f c) = event_in c"
      "\<And>c. ucNotifyState (f c) = ucNotifyState c" "\<And>c. state_value (f c) = state_value c"
    and comm: "\<And>c s. f (c\<lparr>state_in := s\<rparr>) = (f c)\<lparr>state_in := s\<rparr>"
    and less: "uxPriority (f (tcb k t)) < 32" "uxBasePriority (f (tcb k t)) < 32"
  obtains k1 n where "state_remove t k = Some (k1, n)"
    "state_remove t (upd_tcb t f k) = Some (upd_tcb t f k1, n)"
    "tcb k1 = (tcb k)(t := (tcb k t)\<lparr>state_in := None\<rparr>)"
    "n = 0 \<longrightarrow> slist k (ReadyL (uxPriority (tcb k t))) = [t]"
    "kernel_inv idle (prvAddTaskToReadyList t (upd_tcb t f
      (if n = 0 then reset_top (uxPriority (tcb k t)) k1 else k1)))"
proof -
  let ?p = "uxPriority (tcb k t)"
  obtain k1 n where k1: "state_remove t k = Some (k1, n)"
    "state_remove t (upd_tcb t f k) = Some (upd_tcb t f k1, n)"
    "tcb k1 = (tcb k)(t := (tcb k t)\<lparr>state_in := None\<rparr>)" "same_rest k k1"
    "n = 0 \<longrightarrow> slist k (ReadyL ?p) = [t]"
    "core_inv {} (prvAddTaskToReadyList t (upd_tcb t f (if n = 0 then reset_top ?p k1 else k1)))"
    (is "core_inv {} ?k'")
    using core_inv_requeue[OF kernel_invD(1)[OF inv] ready_list[OF inv t] f comm less] by blast
  have "same_main k ?k'" "uxSchedulerSuspended ?k' = uxSchedulerSuspended k" "xPendedTicks ?k' = xPendedTicks k"
    using same_rest_simps[OF k1(4)] by (simp_all add: same_main_def)
  moreover have "tcb ?k' = (tcb k)(t := (f (tcb k t))\<lparr>state_in := Some (ReadyL (uxPriority (f (tcb k t))))\<rparr>)"
    by (auto simp: fun_eq_iff k1(3) comm)
  ultimately have "kernel_inv idle ?k'"
    by (rule kernel_inv_prio[OF inv k1(6)]) (use t f in auto)
  then show ?thesis by (rule that[OF k1(1-3,5)])
qed

lemma inv_upd_prio:
  assumes inv: "kernel_inv idle k" and t: "\<not> ready (tcb k t)"
    and f: "\<And>c. state_in (f c) = state_in c" "\<And>c. event_in (f c) = event_in c"
      "\<And>c. ucNotifyState (f c) = ucNotifyState c" "\<And>c. state_value (f c) = state_value c"
    and less: "uxPriority (f (tcb k t)) < 32" "uxBasePriority (f (tcb k t)) < 32"
  shows "kernel_inv idle (upd_tcb t f k)"
proof -
  have "core_inv {} (upd_tcb t f k)"
    by (rule core_inv_upd_prio[OF kernel_invD(1)[OF inv] _ f less]) (use t in \<open>auto simp: ready_def\<close>)
  then show ?thesis
    by (rule kernel_inv_prio[OF inv _ _ _ _ upd_tcb_simps(1)]) (auto simp: same_main_def f ready_def)
qed

lemma inv_inherit:
  assumes inv: "kernel_inv idle k"
  shows "\<exists>k' b. xTaskPriorityInherit (Some h) k = Some (k', b) \<and> kernel_inv idle k'"
proof -
  obtain me where me: "pxCurrentTCB k = Some me" using kernel_inv_current[OF inv] by blast
  let ?p = "uxPriority (tcb k me)"
  have p: "?p < 32" using prio_less[OF inv] by blast
  have inv1: "kernel_inv idle (upd_tcb h (event_priority ?p) k)" by (rule inv_upd_tcb[OF inv]) auto
  let ?k = "upd_tcb h (event_priority ?p) k"
  have r: "ready (tcb ?k h) = ready (tcb k h)" by (simp add: ready_def)
  show ?thesis
  proof (cases "?p \<le> uxPriority (tcb k h)")
    case True
    then show ?thesis using inv me by (auto simp: xTaskPriorityInherit_def)
  next
    case less: False
    show ?thesis
    proof (cases "ready (tcb k h)")
      case True
      have r1: "ready (tcb ?k h)" using True r by simp
      have comm: "uxPriority_update (\<lambda>_. ?p) (c\<lparr>state_in := s\<rparr>) = (uxPriority_update (\<lambda>_. ?p) c)\<lparr>state_in := s\<rparr>"
        for c s by (cases c) simp
      have less1: "uxPriority (uxPriority_update (\<lambda>_. ?p) (tcb ?k h)) < 32"
        "uxBasePriority (uxPriority_update (\<lambda>_. ?p) (tcb ?k h)) < 32"
        using p prio_less[OF inv, of h] by simp_all
      obtain k1 n where k1: "state_remove h ?k = Some (k1, n)"
        "kernel_inv idle (prvAddTaskToReadyList h (upd_tcb h (uxPriority_update (\<lambda>_. ?p))
          (if n = 0 then reset_top (uxPriority (tcb ?k h)) k1 else k1)))"
        by (rule inv_requeue[where f = "uxPriority_update (\<lambda>_. ?p)", OF inv1 r1 _ _ _ _ comm less1],
          simp, simp, simp, simp) blast
      have eq: "requeue h (uxPriority (tcb k h)) ?p ?k = Some (prvAddTaskToReadyList h
          (upd_tcb h (uxPriority_update (\<lambda>_. ?p)) (if n = 0 then reset_top (uxPriority (tcb k h)) k1 else k1)))"
        by (simp add: requeue_def k1(1))
      show ?thesis
        using less me ready_list[OF inv True] k1(2) eq
        by (auto simp: xTaskPriorityInherit_def Let_def set_event_priority_eq cong: if_cong split del: if_split)
    next
      case False
      have "kernel_inv idle (upd_tcb h (uxPriority_update (\<lambda>_. ?p)) ?k)"
        by (rule inv_upd_prio[OF inv1]) (use False r p prio_less[OF inv, of h] in auto)
      moreover have "state_in (tcb k h) \<noteq> Some (ReadyL q)" for q using False by (auto simp: ready_def)
      ultimately show ?thesis
        using less me by (auto simp: xTaskPriorityInherit_def Let_def set_event_priority_eq)
    qed
  qed
qed

lemma inv_disinherit:
  assumes inv: "kernel_inv idle k" and run: "running k h" and held: "uxMutexesHeld (tcb k h) \<noteq> 0"
  shows "\<exists>k' b. xTaskPriorityDisinherit (Some h) k = Some (k', b) \<and> kernel_inv idle k'"
proof -
  have me: "pxCurrentTCB k = Some h" "ready (tcb k h)" using run by (simp_all add: running_def)
  let ?k = "upd_tcb h (uxMutexesHeld_update (\<lambda>n. n - 1)) k"
  let ?f = "\<lambda>c. c\<lparr>uxPriority := uxBasePriority c, event_value := item_value (uxBasePriority c)\<rparr>"
  have inv1: "kernel_inv idle ?k" by (rule inv_upd_tcb[OF inv]) auto
  have comm: "?f (c\<lparr>state_in := s\<rparr>) = (?f c)\<lparr>state_in := s\<rparr>" for c s by (cases c) simp
  have ready1: "ready (tcb ?k h)" using me(2) by (simp add: ready_def)
  have less1: "uxPriority (?f (tcb ?k h)) < 32" "uxBasePriority (?f (tcb ?k h)) < 32"
    using prio_less[OF inv, of h] by simp_all
  show ?thesis
  proof (cases "uxPriority (tcb ?k h) \<noteq> uxBasePriority (tcb ?k h) \<and> uxMutexesHeld (tcb ?k h) = 0")
    case True
    obtain k1 n where k1: "state_remove h ?k = Some (k1, n)"
      "tcb k1 = (tcb ?k)(h := (tcb ?k h)\<lparr>state_in := None\<rparr>)"
      "kernel_inv idle (prvAddTaskToReadyList h (upd_tcb h ?f
        (if n = 0 then reset_top (uxPriority (tcb ?k h)) k1 else k1)))"
      by (rule inv_requeue[where f = ?f, OF inv1 ready1 _ _ _ _ comm less1], simp, simp, simp, simp) blast
    have same: "uxPriority (tcb k1 h) = uxPriority (tcb k h)" by (simp add: k1(2))
    show ?thesis
      using k1(1,3) True me(1) held
      by (auto simp: xTaskPriorityDisinherit_def Let_def same cong: if_cong split del: if_split)
  next
    case False
    then show ?thesis using inv1 me(1) held by (auto simp: xTaskPriorityDisinherit_def Let_def)
  qed
qed

text \<open>
  After a time-out the mask is reset with the new priority, so the list that the holder leaves
  must hold another task: the one that timed out, when the two have the same priority.
\<close>

lemma inv_disinherit_after:
  assumes inv: "kernel_inv idle k" and run: "running k me" and highest: "highest < 32"
    and held: "uxMutexesHeld (tcb k h) \<noteq> 0" and h: "h \<noteq> me"
    and same: "uxPriority (tcb k h) = uxPriority (tcb k me)"
  shows "\<exists>k'. vTaskPriorityDisinheritAfterTimeout (Some h) highest k = Some k' \<and> kernel_inv idle k'"
proof -
  let ?use = "if uxBasePriority (tcb k h) < highest then highest else uxBasePriority (tcb k h)"
  let ?f = "\<lambda>c. event_priority ?use (c\<lparr>uxPriority := ?use\<rparr>)"
  have me: "pxCurrentTCB k = Some me" "ready (tcb k me)" using run by (simp_all add: running_def)
  have use: "?use < 32" "uxBasePriority (tcb k h) < 32" using highest prio_less[OF inv, of h] by auto
  have comm: "?f (c\<lparr>state_in := s\<rparr>) = (?f c)\<lparr>state_in := s\<rparr>" for c s
    by (cases c) (simp add: event_priority_def)
  have less1: "uxPriority (?f (tcb k h)) < 32" "uxBasePriority (?f (tcb k h)) < 32"
    using use by simp_all
  have ready_h: "ready (tcb k h) \<longleftrightarrow> state_in (tcb k h) = Some (ReadyL (uxPriority (tcb k h)))"
    using ready_list[OF inv, of h] by (auto simp: ready_def)
  show ?thesis
  proof (cases "uxPriority (tcb k h) \<noteq> ?use \<and> uxMutexesHeld (tcb k h) = 1")
    case True
    show ?thesis
    proof (cases "ready (tcb k h)")
      case ready: True
      obtain k1 n where k1: "state_remove h (upd_tcb h ?f k) = Some (upd_tcb h ?f k1, n)"
        "n = 0 \<longrightarrow> slist k (ReadyL (uxPriority (tcb k h))) = [h]"
        "kernel_inv idle (prvAddTaskToReadyList h (upd_tcb h ?f
          (if n = 0 then reset_top (uxPriority (tcb k h)) k1 else k1)))"
        by (rule inv_requeue[where f = ?f, OF inv ready _ _ _ _ comm less1], simp, simp, simp, simp) blast
      have "me \<in> set (slist k (ReadyL (uxPriority (tcb k h))))"
        using ready_list[OF inv me(2)] same lists_inv_mem[OF core_invD(1)[OF kernel_invD(1)[OF inv]]]
        by simp
      then have "n \<noteq> 0" using k1(2) h by auto
      then show ?thesis
        using True ready ready_h k1(1,3) me(1) h
        by (simp add: vTaskPriorityDisinheritAfterTimeout_def Let_def set_event_priority_eq)
    next
      case False
      have "kernel_inv idle (upd_tcb h ?f k)"
        by (rule inv_upd_prio[OF inv False]) (use use in auto)
      then show ?thesis
        using True False ready_h me(1) h
        by (simp add: vTaskPriorityDisinheritAfterTimeout_def Let_def set_event_priority_eq)
    qed
  next
    case False
    then show ?thesis using inv held
      by (auto simp: vTaskPriorityDisinheritAfterTimeout_def Let_def)
  qed
qed

lemma inv_priority_set:
  assumes inv: "kernel_inv idle k" and new: "new < 32"
  shows "\<exists>k'. vTaskPrioritySet t new k = Some k' \<and> kernel_inv idle k'"
proof -
  let ?f = "\<lambda>c. event_priority new (c\<lparr>uxPriority := if uxBasePriority c = uxPriority c then new else uxPriority c,
    uxBasePriority := new\<rparr>)"
  obtain me where me: "pxCurrentTCB k = Some me" using kernel_inv_current[OF inv] by blast
  have chain: "set_event_priority t new (upd_tcb t (uxBasePriority_update (\<lambda>_. new))
      (if uxBasePriority (tcb k t) = uxPriority (tcb k t) then upd_tcb t (uxPriority_update (\<lambda>_. new)) k else k))
    = upd_tcb t ?f k"
    by (auto simp: set_event_priority_eq upd_tcb_def)
  have less: "uxPriority (?f (tcb k t)) < 32" "uxBasePriority (?f (tcb k t)) < 32"
    using new prio_less[OF inv, of t] by auto
  have comm: "?f (c\<lparr>state_in := s\<rparr>) = (?f c)\<lparr>state_in := s\<rparr>" for c s
    by (cases c) (simp add: event_priority_def)
  have ready_t: "ready (tcb k t) \<longleftrightarrow> state_in (tcb k t) = Some (ReadyL (uxPriority (tcb k t)))"
    using ready_list[OF inv, of t] by (auto simp: ready_def)
  let ?step = "if state_in (tcb (upd_tcb t ?f k) t) = Some (ReadyL (uxPriority (tcb k t))) then do {
       (k', n) \<leftarrow> state_remove t (upd_tcb t ?f k);
       let k' = (if n = 0 then reset_top (uxPriority (tcb k t)) k' else k');
       Some (prvAddTaskToReadyList t k') } else Some (upd_tcb t ?f k)"
  have "\<exists>k'. ?step = Some k' \<and> kernel_inv idle k'"
  proof (cases "ready (tcb k t)")
    case True
    obtain k1 n where k1: "state_remove t (upd_tcb t ?f k) = Some (upd_tcb t ?f k1, n)"
      "kernel_inv idle (prvAddTaskToReadyList t (upd_tcb t ?f
          (if n = 0 then reset_top (uxPriority (tcb k t)) k1 else k1)))"
      by (rule inv_requeue[where f = ?f, OF inv True _ _ _ _ comm less], simp, simp, simp, simp) blast
    have "(if n = 0 then reset_top p (upd_tcb t ?f k1) else upd_tcb t ?f k1) =
      upd_tcb t ?f (if n = 0 then reset_top p k1 else k1)" for p by (simp add: upd_reset_top)
    with k1 True ready_t show ?thesis by (simp split del: if_split)
  next
    case False
    have "kernel_inv idle (upd_tcb t ?f k)" by (rule inv_upd_prio[OF inv False]) (use less in auto)
    then show ?thesis using False ready_t by simp
  qed
  then obtain k' where k': "?step = Some k'" "kernel_inv idle k'" by blast
  let ?y = "if uxBasePriority (tcb k t) < new then t \<noteq> me \<and> uxPriority (tcb k me) \<le> new else t = me"
  have "vTaskPrioritySet t new k =
    (if uxBasePriority (tcb k t) \<noteq> new then Some (if ?y then yield k' else k') else Some k)"
    unfolding vTaskPrioritySet_def Let_def chain using new me k'(1)
    by (simp add: Let_def cong: if_cong split del: if_split)
  then show ?thesis using inv k'(2) by simp
qed

section \<open>Taking a task off its lists\<close>

lemma core_inv_reset_next:
  assumes "core_inv P k"
  shows "core_inv P (prvResetNextTaskUnblockTime k)"
proof -
  note inv = core_invD[OF assms]
  have "xNextTaskUnblockTime (prvResetNextTaskUnblockTime k) \<le> state_value (tcb k t)"
    if "state_in (tcb k t) = Some (pxDelayed k)" for t
    using reset_next_le[OF inv(1) _ that] inv(4) by (simp add: time_inv_def)
  then have "time_inv (prvResetNextTaskUnblockTime k)"
    using inv(4) unfolding time_inv_def wake_time_def by simp
  then show ?thesis
    unfolding prvResetNextTaskUnblockTime_def using inv by (intro core_inv_next) simp_all
qed

lemma core_inv_append:
  assumes "core_inv P k" "state_in (tcb k t) = None" "l = SuspendedL \<or> l = TerminationL"
  shows "core_inv P (state_append l t k)"
  using core_invD[OF assms(1)] assms(2,3)
  by (auto simp: core_inv_def lists_inv_state_add prio_inv_state_add mask_inv_state_add
      time_inv_state_append notify_inv_state_add)

lemma taskRESET_simps [simp]:
  "tcb (taskRESET_READY_PRIORITY p k) = tcb k" "same_rest k (taskRESET_READY_PRIORITY p k)"
  by (simp_all add: taskRESET_READY_PRIORITY_def)

lemma unlink_task_ok:
  assumes inv: "core_inv {} k" and t: "state_in (tcb k t) \<noteq> None"
  shows "\<exists>k'. unlink_task t k = Some k' \<and> core_inv {} k' \<and> same_rest k k' \<and>
    tcb k' = (tcb k)(t := (tcb k t)\<lparr>state_in := None, event_in := None\<rparr>)"
proof -
  obtain l where l: "state_in (tcb k t) = Some l" using t by auto
  note r = removed_simps[OF l]
  let ?n = "length (remove1 t (slist k l))"
  let ?k1 = "if ?n = 0 then taskRESET_READY_PRIORITY (uxPriority (tcb (removed t k) t)) (removed t k)
             else removed t k"
  have p: "uxPriority (tcb (removed t k) t) = uxPriority (tcb k t)" by (simp add: r)
  have "core_inv {} ?k1" unfolding p by (rule core_inv_unlinked[OF inv l refl refl]) auto
  from core_inv_event_remove[OF this, of t] have "core_inv {} (event_remove t ?k1)" .
  moreover have "same_rest k (event_remove t ?k1)"
    using same_rest_trans[OF r(4)] by (auto simp: same_rest_def taskRESET_READY_PRIORITY_def)
  ultimately show ?thesis
    by (cases "?n = 0") (simp_all add: unlink_task_def state_remove_eq[OF l] r)
qed

section \<open>Suspending a task\<close>

lemma clear_waiting_imp: "clear_waiting f i = WAITING \<Longrightarrow> f i = WAITING"
  by (auto simp: clear_waiting_def split: if_splits)

lemma inv_task_suspend:
  assumes inv: "kernel_inv idle k" and t: "live k t" "t \<noteq> idle"
    and me: "pxCurrentTCB k = Some t \<Longrightarrow> uxSchedulerSuspended k = 0"
  shows "\<exists>k'. vTaskSuspend t k = Some k' \<and> kernel_inv idle k' \<and> state_in (tcb k' t) = Some SuspendedL"
proof -
  obtain k1 where k1: "unlink_task t k = Some k1" "core_inv {} k1" "same_rest k k1"
    "tcb k1 = (tcb k)(t := (tcb k t)\<lparr>state_in := None, event_in := None\<rparr>)"
    using unlink_task_ok[OF kernel_invD(1)[OF inv]] t(1) by (auto simp: live_def)
  let ?k2 = "state_append SuspendedL t k1"
  let ?k3 = "upd_tcb t (ucNotifyState_update clear_waiting) ?k2"
  let ?k4 = "prvResetNextTaskUnblockTime ?k3"
  let ?c = "(tcb k t)\<lparr>state_in := Some SuspendedL, event_in := None,
              ucNotifyState := clear_waiting (ucNotifyState (tcb k t))\<rparr>"
  have "core_inv {} ?k2" by (rule core_inv_append[OF k1(2)]) (simp_all add: k1(4))
  then have "core_inv {} ?k3" by (rule core_inv_upd_tcb) (use clear_waiting_imp in auto)
  then have core: "core_inv {} ?k4" by (rule core_inv_reset_next)
  have rest: "same_rest k ?k4"
    using same_rest_simps[OF k1(3)] by (simp add: same_rest_def)
  have tcb4: "tcb ?k4 = (tcb k)(t := ?c)"
    by (cases "tcb k t") (simp add: k1(4))
  have "kernel_inv idle ?k4"
    by (rule kernel_inv_one[OF inv core tcb4 same_rest_main[OF rest]])
      (use t me same_rest_simps[OF rest] kernel_invD(2)[OF inv, of t] clear_waiting_imp in
        \<open>auto simp: tcb_ok_def current_ok_def live_def ready_def\<close>)
  moreover have "xSchedulerRunning ?k3" "pxCurrentTCB ?k4 = pxCurrentTCB k"
    "uxSchedulerSuspended ?k4 = uxSchedulerSuspended k"
    using kernel_invD(4)[OF inv] same_rest_simps[OF k1(3)] by simp_all
  ultimately show ?thesis
    using k1(1) me tcb4 kernel_invD(4)[OF inv] same_rest_simps[OF rest]
    by (auto simp: vTaskSuspend_def Let_def yield_def)
qed

section \<open>Aborting a delay\<close>

lemma blocked_state:
  assumes "eTaskGetState t k = eBlocked"
  shows "pxCurrentTCB k \<noteq> Some t" "state_in (tcb k t) = Some SuspendedL \<or> delayed k t"
  using assms by (auto simp: eTaskGetState_def delayed_def split: option.splits slist_id.splits if_splits)

lemma inv_abort:
  assumes inv: "kernel_inv idle k" and run: "running k me"
  shows "\<exists>k' b. xTaskAbortDelay t k = Some (k', b) \<and> kernel_inv idle k'"
proof -
  let ?k = "vTaskSuspendAll k"
  note inv1 = inv_suspend_all[OF inv run]
  have resume: "\<exists>k' b. xTaskResumeAll k1 = Some (k', b) \<and> kernel_inv idle k'"
    if "kernel_inv idle k1" "uxSchedulerSuspended k1 \<noteq> 0" for k1
    using inv_resume_all[OF that] by blast
  show ?thesis
  proof (cases "eTaskGetState t ?k = eBlocked")
    case False
    then show ?thesis using resume[OF inv1] by (auto simp: xTaskAbortDelay_def Let_def)
  next
    case True
    obtain l where l: "state_in (tcb k t) = Some l" "l = SuspendedL \<or> (\<exists>b. l = DelayedL b)"
      using blocked_state(2)[OF True] by (auto simp: delayed_def)
    have l': "state_in (tcb ?k t) = Some l" using l(1) by simp
    note r = removed_simps[OF l']
    let ?k1 = "removed t ?k"
    let ?f = "ucDelayAborted_update (\<lambda>_. True)"
    let ?k2 = "if event_in (tcb ?k1 t) \<noteq> None then upd_tcb t ?f (event_remove t ?k1) else ?k1"
    let ?k3 = "prvAddTaskToReadyList t ?k2"
    have "core_inv {} ?k1" by (rule core_inv_removed(2)[OF kernel_invD(1)[OF inv1] l']) (use l(2) in auto)
    then have core2: "core_inv {} ?k2"
      using core_inv_upd_tcb[OF core_inv_event_remove, of "{}" ?k1 ?f t t] by simp
    have none: "state_in (tcb ?k2 t) = None" by (simp add: r)
    have core3: "core_inv {} ?k3" using core_inv_add_ready[OF core2 none] by simp
    let ?c = "if event_in (tcb k t) \<noteq> None then ?f (woken (tcb k t)) else woken (tcb k t)"
    have tcb3: "tcb ?k3 = (tcb ?k)(t := ?c)"
      by (cases "tcb k t") (simp add: r woken_def)
    have rest2: "same_rest ?k ?k2" using same_rest_simps[OF r(4)] by (simp add: same_rest_def)
    have rest3: "same_rest ?k ?k3" using same_rest_trans[OF rest2 prvAddTaskToReadyList_simps(7)] .
    have woken: "tcb_ok (woken (tcb k t))" using kernel_invD(2)[OF inv] by simp
    have notidle: "t \<noteq> idle" using kernel_invD(3)[OF inv] l by (auto simp: ready_def)
    have "kernel_inv idle ?k3"
      by (rule kernel_inv_one[OF inv1 core3 tcb3 same_rest_main[OF rest3]])
        (use same_rest_simps[OF rest3] woken l blocked_state(1)[OF True] notidle in
          \<open>auto simp: tcb_ok_def current_ok_def ready_def\<close>)
    moreover have "pxCurrentTCB ?k3 = Some me" "uxSchedulerSuspended ?k3 \<noteq> 0"
      using same_rest_simps[OF rest3] run by (simp_all add: running_def)
    ultimately show ?thesis
      using True resume[of ?k3] resume[of "?k3\<lparr>xYieldPending := True\<rparr>"]
      by (auto simp: xTaskAbortDelay_def Let_def state_remove_eq[OF l'] simp del: prvAddTaskToReadyList_simps)
  qed
qed

section \<open>Other operations on event lists\<close>

lemma inv_remove_unordered:
  assumes inv: "kernel_inv idle k" and susp: "uxSchedulerSuspended k \<noteq> 0"
    and t: "event_in (tcb k t) = Some (WaitL w)"
  shows "\<exists>k'. vTaskRemoveFromUnorderedEventList t v k = Some k' \<and> kernel_inv idle k' \<and> same_main k k' \<and>
    tcb k' = (tcb k)(t := woken ((tcb k t)\<lparr>event_value := v OR taskEVENT_LIST_ITEM_VALUE_IN_USE\<rparr>)) \<and>
    elist k' = (elist k)(WaitL w := remove1 t (elist k (WaitL w))) \<and>
    uxSchedulerSuspended k' = uxSchedulerSuspended k \<and> xPendedTicks k' = xPendedTicks k \<and>
    xTickCount k' = xTickCount k"
proof -
  let ?f = "event_value_update (\<lambda>_. v OR taskEVENT_LIST_ITEM_VALUE_IN_USE)"
  let ?k = "upd_tcb t ?f k"
  have inv1: "kernel_inv idle ?k" by (rule inv_upd_tcb[OF inv]) auto
  obtain me where me: "pxCurrentTCB k = Some me" using kernel_inv_current[OF inv] by blast
  have live: "live k t" using kernel_invD(2)[OF inv, of t] t by (simp add: tcb_ok_def live_def)
  have core: "core_inv {} (event_remove t ?k)" by (rule core_inv_event_remove[OF kernel_invD(1)[OF inv1]])
  obtain k2 where k2: "make_ready t (event_remove t ?k) = Some k2" "core_inv {} k2"
    "same_rest (event_remove t ?k) k2"
    "tcb k2 = (tcb (event_remove t ?k))(t := (tcb (event_remove t ?k) t)\<lparr>state_in :=
        Some (ReadyL (uxPriority (tcb (event_remove t ?k) t)))\<rparr>)" "elist k2 = elist (event_remove t ?k)"
    using make_ready_ok[OF core, of t] live by (auto simp: live_def)
  have rest: "same_rest k k2" using k2(3) by (simp add: same_rest_def)
  have tcb2: "tcb k2 = (tcb ?k)(t := woken (tcb ?k t))"
    using k2(4) by (cases "tcb k t") (simp add: woken_def)
  have lists: "elist k2 = (elist k)(WaitL w := remove1 t (elist k (WaitL w)))"
    using t by (simp add: k2(5) event_remove_elist)
  have "same_main ?k k2" using same_rest_main[OF rest] by (simp add: same_main_def)
  then have "kernel_inv idle k2"
    by (rule kernel_inv_one[OF inv1 k2(2) tcb2])
      (use same_rest_simps[OF rest] live susp kernel_invD(2)[OF inv1, of t] kernel_invD(8)[OF inv1] in
        \<open>auto simp: live_def current_ok_def\<close>)
  then show ?thesis
    using susp me t k2(1) same_rest_simps[OF rest] lists tcb2 same_rest_main[OF rest]
    by (simp add: vTaskRemoveFromUnorderedEventList_def Let_def same_main_def)
qed

end
