(* ===== verification/TaskReach.thy ===== *)
theory TaskReach
  imports TaskLife
begin

text \<open>
  Creating, deleting and cleaning up tasks, and the scheduler as a transition system: its
  initial states are those in which \<open>vTaskStartScheduler\<close> leaves the kernel, its steps the calls
  that tasks and interrupts make. The invariant holds in every reachable state, so no
  assertion of \<open>tasks.c\<close> fails on the way.
\<close>

section \<open>Creating a task\<close>

definition new_tcb :: "nat \<Rightarrow> tcb" where
  "new_tcb p = empty_tcb\<lparr>uxPriority := p, uxBasePriority := p, event_value := item_value p\<rparr>"

lemma new_tcb_simps [simp]:
  "state_in (new_tcb p) = None" "event_in (new_tcb p) = None" "uxPriority (new_tcb p) = p"
  "uxBasePriority (new_tcb p) = p" "ucNotifyState (new_tcb p) = (\<lambda>_. NOT_WAITING)"
  by (simp_all add: new_tcb_def empty_tcb_def)

lemma prvInitialiseNewTask_eq:
  "prvInitialiseNewTask t p k = (if p < 32 then Some (upd_tcb t (\<lambda>_. new_tcb p) k) else None)"
  by (simp add: prvInitialiseNewTask_def new_tcb_def)

lemma core_inv_new_tcb:
  assumes inv: "core_inv P k" and t: "state_in (tcb k t) = None" "event_in (tcb k t) = None" and p: "p < 32"
  shows "core_inv P (upd_tcb t (\<lambda>_. new_tcb p) k)" (is "core_inv P ?k")
proof -
  note inv' = core_invD[OF inv]
  have "lists_inv ?k = lists_inv k" by (rule lists_inv_cong) (auto simp: t)
  moreover have "prio_inv ?k" using inv'(2) p by (auto simp: prio_inv_def)
  moreover have "mask_inv P ?k = mask_inv P k" by (rule mask_inv_cong) auto
  moreover have "time_inv ?k"
  proof -
    have same: "map (wake_time ?k) (slist ?k l) = map (wake_time k) (slist k l)" for l
      using lists_inv_mem[OF inv'(1), of t l] t by (auto simp: wake_time_def)
    show ?thesis using inv'(4) t unfolding time_inv_def same by auto
  qed
  moreover have "notify_inv ?k" using inv'(5) by (auto simp: notify_inv_def)
  ultimately show ?thesis using inv' by (simp add: core_inv_def)
qed

lemma inv_create:
  assumes inv: "kernel_inv idle k" and t: "state_in (tcb k t) = None" and p: "p < 32"
  shows "\<exists>k'. xTaskCreate t p k = Some k' \<and> kernel_inv idle k'"
proof -
  obtain me where me: "pxCurrentTCB k = Some me" "current_ok k (tcb k me)"
    using kernel_inv_current[OF inv] by blast
  have event: "event_in (tcb k t) = None" using kernel_invD(2)[OF inv, of t] t by (auto simp: tcb_ok_def)
  let ?k1 = "upd_tcb t (\<lambda>_. new_tcb p) k"
  let ?k2 = "prvAddTaskToReadyList t (?k1\<lparr>uxCurrentNumberOfTasks := uxCurrentNumberOfTasks k + 1\<rparr>)"
  let ?c = "(new_tcb p)\<lparr>state_in := Some (ReadyL p)\<rparr>"
  have "core_inv {} ?k1" by (rule core_inv_new_tcb[OF kernel_invD(1)[OF inv] t event p])
  then have core: "core_inv {} ?k2"
    using core_inv_add_ready[of "{}" "?k1\<lparr>uxCurrentNumberOfTasks := uxCurrentNumberOfTasks k + 1\<rparr>" t] by simp
  have tcb2: "tcb ?k2 = (tcb k)(t := ?c)" by simp
  have c: "ready ?c" "tcb_ok ?c" "\<And>k. current_ok k ?c" "event_in ?c = None" "state_in ?c = Some (ReadyL p)"
    by (auto simp: tcb_ok_def current_ok_def waiting_def)
  have alive: "{u. state_in (tcb ?k2 u) \<noteq> None} = insert t {u. state_in (tcb k u) \<noteq> None}"
    "{u. state_in (tcb ?k2 u) = Some TerminationL} = {u. state_in (tcb k u) = Some TerminationL}"
    unfolding tcb2 using t by (auto split: if_splits)
  have "tcb_ok (tcb ?k2 u)" "event_in (tcb ?k2 u) = Some PendingReadyL \<Longrightarrow> event_in (tcb k u) = Some PendingReadyL"
    for u unfolding tcb2 using kernel_invD(2)[OF inv, of u] c(2,4) by (auto split: if_splits)
  moreover have "ready (tcb ?k2 idle)" unfolding tcb2 using kernel_invD(3)[OF inv] c(1) by auto
  moreover have "current_ok k (tcb ?k2 me)" unfolding tcb2 using me(2) c(3) by auto
  then have "current_ok ?k2 (tcb ?k2 me)" by (simp add: current_ok_def)
  moreover have "t \<notin> {u. state_in (tcb k u) \<noteq> None}" using t by simp
  ultimately have "kernel_inv idle ?k2"
    using kernel_invD(4-7,9,10)[OF inv] core me(1) unfolding kernel_inv_def alive by auto
  moreover have "xTaskCreate t p k =
    Some (if uxPriority (tcb ?k2 me) < uxPriority (tcb ?k2 t) then yield ?k2 else ?k2)"
    using p me(1) kernel_invD(4)[OF inv]
    by (simp add: xTaskCreate_def prvInitialiseNewTask_eq prvAddNewTaskToReadyList_def Let_def)
  ultimately show ?thesis by simp
qed

section \<open>Deleting a task\<close>

lemma inv_delete:
  assumes inv: "kernel_inv idle k" and t: "live k t" "t \<noteq> idle"
    and susp: "pxCurrentTCB k = Some t \<Longrightarrow> uxSchedulerSuspended k = 0"
  shows "\<exists>k'. vTaskDelete t k = Some k' \<and> kernel_inv idle k'"
proof -
  obtain k1 where k1: "unlink_task t k = Some k1" "core_inv {} k1" "same_rest k k1"
    "tcb k1 = (tcb k)(t := (tcb k t)\<lparr>state_in := None, event_in := None\<rparr>)"
    using unlink_task_ok[OF kernel_invD(1)[OF inv]] t(1) by (auto simp: live_def)
  note rest = same_rest_simps[OF k1(3)]
  obtain me where me: "pxCurrentTCB k = Some me" "current_ok k (tcb k me)"
    using kernel_inv_current[OF inv] by blast
  show ?thesis
  proof (cases "me = t")
    case True
    let ?k2 = "(state_append TerminationL t k1)\<lparr>uxDeletedTasksWaitingCleanUp := uxDeletedTasksWaitingCleanUp k + 1\<rparr>"
    let ?c = "(tcb k t)\<lparr>state_in := Some TerminationL, event_in := None\<rparr>"
    have core: "core_inv {} ?k2" using core_inv_append[OF k1(2), of t TerminationL] by (simp add: k1(4))
    have tcb2: "tcb ?k2 = (tcb k)(t := ?c)" by (cases "tcb k t") (simp add: k1(4))
    have sets: "{u. state_in (tcb ?k2 u) \<noteq> None} = {u. state_in (tcb k u) \<noteq> None}"
      "{u. state_in (tcb ?k2 u) = Some TerminationL} = insert t {u. state_in (tcb k u) = Some TerminationL}"
      unfolding tcb2 using t(1) by (auto simp: live_def split: if_splits)
    have fin: "finite {u. state_in (tcb k u) = Some TerminationL}"
      using kernel_invD(5)[OF inv] by (rule rev_finite_subset) auto
    have zero: "uxSchedulerSuspended k = 0" using susp me True by simp
    have "tcb_ok (tcb ?k2 u)" "event_in (tcb ?k2 u) \<noteq> Some PendingReadyL" for u
      unfolding tcb2 using kernel_invD(2)[OF inv, of u] kernel_invD(10)[OF inv zero, of u]
      by (auto simp: tcb_ok_def ready_def)
    moreover have "ready (tcb ?k2 idle)" unfolding tcb2 using kernel_invD(3)[OF inv] t(2) by auto
    moreover have "current_ok ?k2 (tcb ?k2 me)"
      unfolding tcb2 using True zero rest by (simp add: current_ok_def)
    moreover have "t \<notin> {u. state_in (tcb k u) = Some TerminationL}" using t(1) by (simp add: live_def)
    ultimately have "kernel_inv idle ?k2"
      using kernel_invD(4-7,9)[OF inv] core me(1) fin zero rest unfolding kernel_inv_def sets by auto
    then show ?thesis
      using k1(1) True me(1) kernel_invD(4)[OF inv] zero rest
      by (simp add: vTaskDelete_def Let_def)
  next
    case False
    let ?k2 = "prvResetNextTaskUnblockTime (k1\<lparr>uxCurrentNumberOfTasks := uxCurrentNumberOfTasks k - 1\<rparr>)"
    let ?c = "(tcb k t)\<lparr>state_in := None, event_in := None\<rparr>"
    have core: "core_inv {} ?k2" using core_inv_reset_next k1(2) by simp
    have tcb2: "tcb ?k2 = (tcb k)(t := ?c)" by (simp add: k1(4))
    have sets: "{u. state_in (tcb ?k2 u) \<noteq> None} = {u. state_in (tcb k u) \<noteq> None} - {t}"
      "{u. state_in (tcb ?k2 u) = Some TerminationL} = {u. state_in (tcb k u) = Some TerminationL}"
      unfolding tcb2 using t(1) by (auto simp: live_def split: if_splits)
    have "tcb_ok (tcb ?k2 u)" "event_in (tcb ?k2 u) = Some PendingReadyL \<Longrightarrow> event_in (tcb k u) = Some PendingReadyL"
      for u unfolding tcb2 using kernel_invD(2)[OF inv, of u]
      by (auto simp: tcb_ok_def ready_def split: if_splits)
    moreover have "ready (tcb ?k2 idle)" unfolding tcb2 using kernel_invD(3)[OF inv] t(2) by auto
    moreover have "current_ok k (tcb ?k2 me)" unfolding tcb2 using me(2) False by simp
    then have "current_ok ?k2 (tcb ?k2 me)" using rest by (simp add: current_ok_def)
    moreover have "card ({u. state_in (tcb k u) \<noteq> None} - {t}) = card {u. state_in (tcb k u) \<noteq> None} - 1"
      using t(1) by (simp add: live_def)
    ultimately have "kernel_inv idle ?k2"
      using kernel_invD(4-7,9,10)[OF inv] core me(1) rest unfolding kernel_inv_def sets by auto
    then show ?thesis
      using k1(1) False me(1) rest by (simp add: vTaskDelete_def Let_def)
  qed
qed

section \<open>The idle task\<close>

lemma termination_list:
  assumes "kernel_inv idle k"
  shows "length (slist k TerminationL) = uxDeletedTasksWaitingCleanUp k"
proof -
  note lists = core_invD(1)[OF kernel_invD(1)[OF assms]]
  have "set (slist k TerminationL) = {u. state_in (tcb k u) = Some TerminationL}"
    using lists_inv_mem[OF lists] by auto
  then show ?thesis
    using kernel_invD(7)[OF assms] lists distinct_card unfolding lists_inv_def by metis
qed

lemma inv_cleanup_loop:
  assumes "kernel_inv idle k" "n = uxDeletedTasksWaitingCleanUp k"
  shows "\<exists>k'. prvCheckTasksWaitingTermination n k = Some k' \<and> kernel_inv idle k' \<and>
    uxDeletedTasksWaitingCleanUp k' = 0"
  using assms
proof (induction n arbitrary: k)
  case (Suc n)
  note inv = Suc.prems(1)
  obtain t ts where list: "slist k TerminationL = t # ts"
    using termination_list[OF inv] Suc.prems(2) by (cases "slist k TerminationL") auto
  have t: "state_in (tcb k t) = Some TerminationL"
    using lists_inv_mem[OF core_invD(1)[OF kernel_invD(1)[OF inv]], of t TerminationL] list by simp
  note r = removed_simps[OF t] and rest = same_rest_simps[OF removed_simps(4)[OF t]]
  let ?k = "(removed t k)\<lparr>uxCurrentNumberOfTasks := uxCurrentNumberOfTasks k - 1,
               uxDeletedTasksWaitingCleanUp := uxDeletedTasksWaitingCleanUp k - 1\<rparr>"
  have core: "core_inv {} ?k" using core_inv_removed(2)[OF kernel_invD(1)[OF inv] t] by simp
  have tcb2: "tcb ?k = (tcb k)(t := (tcb k t)\<lparr>state_in := None\<rparr>)" by (simp add: r)
  have sets: "{u. state_in (tcb ?k u) \<noteq> None} = {u. state_in (tcb k u) \<noteq> None} - {t}"
    "{u. state_in (tcb ?k u) = Some TerminationL} = {u. state_in (tcb k u) = Some TerminationL} - {t}"
    unfolding tcb2 using t by (auto split: if_splits)
  have "tcb_ok (tcb ?k u)" "event_in (tcb ?k u) = event_in (tcb k u)" for u
    unfolding tcb2 using kernel_invD(2)[OF inv, of u] kernel_invD(2)[OF inv, of t] t
    by (auto simp: tcb_ok_def ready_def split: if_splits)
  moreover have "ready (tcb ?k idle)"
    unfolding tcb2 using kernel_invD(3)[OF inv] t by (auto simp: ready_def)
  moreover obtain me where me: "pxCurrentTCB k = Some me" "current_ok k (tcb k me)"
    using kernel_inv_current[OF inv] by blast
  moreover have "current_ok ?k (tcb ?k me)"
    unfolding tcb2 using me(2) rest by (auto simp: current_ok_def ready_def waiting_def)
  moreover have "card ({u. state_in (tcb k u) \<noteq> None} - {t}) = card {u. state_in (tcb k u) \<noteq> None} - 1"
    "card ({u. state_in (tcb k u) = Some TerminationL} - {t}) = card {u. state_in (tcb k u) = Some TerminationL} - 1"
    using t by simp_all
  ultimately have "kernel_inv idle ?k"
    using kernel_invD(4-7,9,10)[OF inv] core me(1) rest unfolding kernel_inv_def sets by simp
  moreover have "n = uxDeletedTasksWaitingCleanUp ?k" by (simp flip: Suc.prems(2))
  moreover have "prvCheckTasksWaitingTermination (Suc n) k = prvCheckTasksWaitingTermination n ?k"
    using list rest by (simp add: state_remove_eq[OF t])
  ultimately show ?case using Suc.IH by metis
qed simp

lemma inv_cleanup: "kernel_inv idle k \<Longrightarrow> \<exists>k'. idle_cleanup k = Some k' \<and> kernel_inv idle k'"
  using inv_cleanup_loop[OF _ refl, of idle k] by (auto simp: idle_cleanup_def)

section \<open>Starting the scheduler\<close>

definition kernel0 :: kernel where
  "kernel0 = \<lparr>tcb = (\<lambda>_. empty_tcb), pxCurrentTCB = None, slist = (\<lambda>_. []), rindex = (\<lambda>_. None),
     elist = (\<lambda>_. []), pxDelayedTaskList = False, uxCurrentNumberOfTasks = 0,
     uxDeletedTasksWaitingCleanUp = 0, xTickCount = 0, uxTopReadyPriority = 0,
     xSchedulerRunning = False, xPendedTicks = 0, xYieldPending = False, xNumOfOverflows = 0,
     xNextTaskUnblockTime = 0, uxSchedulerSuspended = 0, sw_int = False\<rparr>"

fun create_tasks :: "(tid \<times> nat) list \<Rightarrow> kernel \<Rightarrow> kernel option" where
  "create_tasks [] k = Some k"
| "create_tasks ((t, p) # ts) k = do { k \<leftarrow> xTaskCreate t p k; create_tasks ts k }"

text \<open>The tasks that the application creates, and then \<open>vTaskStartScheduler\<close>.\<close>

definition boot :: "(tid \<times> nat) list \<Rightarrow> tid \<Rightarrow> kernel option" where
  "boot ts idle = do { k \<leftarrow> create_tasks ts kernel0; vTaskStartScheduler idle k }"

text \<open>Before the scheduler runs, tasks are ready or do not exist.\<close>

definition start_inv :: "tid set \<Rightarrow> kernel \<Rightarrow> bool" where
  "start_inv T k \<longleftrightarrow> core_inv {} k \<and> \<not> xSchedulerRunning k \<and> finite T \<and>
    (\<forall>t. event_in (tcb k t) = None \<and> \<not> waiting (tcb k t) \<and> (t \<in> T \<longrightarrow> ready (tcb k t)) \<and>
         (t \<notin> T \<longrightarrow> state_in (tcb k t) = None)) \<and>
    uxCurrentNumberOfTasks k = card T \<and> uxDeletedTasksWaitingCleanUp k = 0 \<and>
    uxSchedulerSuspended k = 0 \<and> xPendedTicks k = 0 \<and>
    (k = kernel0 \<and> T = {} \<or> (\<exists>me \<in> T. pxCurrentTCB k = Some me))"

lemma start_inv_kernel0: "start_inv {} kernel0"
  by (auto simp: start_inv_def kernel0_def core_inv_def lists_inv_def prio_inv_def mask_inv_def
      time_inv_def notify_inv_def empty_tcb_def waiting_def)

lemma start_inv_create:
  assumes inv: "start_inv T k" and t: "t \<notin> T" and p: "p < 32"
  shows "\<exists>k'. xTaskCreate t p k = Some k' \<and> start_inv (insert t T) k'"
proof -
  note inv' = inv[unfolded start_inv_def]
  let ?k1 = "(upd_tcb t (\<lambda>_. new_tcb p) k)\<lparr>uxCurrentNumberOfTasks := uxCurrentNumberOfTasks k + 1\<rparr>"
  have none: "state_in (tcb k t) = None" "event_in (tcb k t) = None" using inv' t by auto
  have core1: "core_inv {} ?k1" using core_inv_new_tcb[OF _ none p] inv' by simp
  have result: "start_inv (insert t T) (prvAddTaskToReadyList t (?k1\<lparr>pxCurrentTCB := Some me\<rparr>))"
    if "me \<in> insert t T" for me
  proof -
    let ?k2 = "?k1\<lparr>pxCurrentTCB := Some me\<rparr>"
    have "core_inv {} (prvAddTaskToReadyList t ?k2)"
      using core_inv_add_ready[of "{}" ?k2 t] core1 by simp
    moreover have "tcb (prvAddTaskToReadyList t ?k2) = (tcb k)(t := (new_tcb p)\<lparr>state_in := Some (ReadyL p)\<rparr>)"
      by simp
    ultimately show ?thesis
      using inv' t that unfolding start_inv_def by (auto simp: waiting_def)
  qed
  show ?thesis
  proof (cases "k = kernel0 \<and> T = {}")
    case True
    have "prvInitialiseTaskLists (?k1\<lparr>pxCurrentTCB := Some t\<rparr>) = ?k1\<lparr>pxCurrentTCB := Some t\<rparr>"
      using True by (simp add: prvInitialiseTaskLists_def kernel0_def upd_tcb_def fun_upd_idem)
    then have "xTaskCreate t p k = Some (prvAddTaskToReadyList t (?k1\<lparr>pxCurrentTCB := Some t\<rparr>))"
      using True p
      by (simp add: xTaskCreate_def prvInitialiseNewTask_eq prvAddNewTaskToReadyList_def Let_def)
        (simp add: kernel0_def upd_tcb_def)
    then show ?thesis using result[of t] by simp
  next
    case False
    then obtain me where me: "me \<in> T" "pxCurrentTCB k = Some me" using inv' by blast
    let ?me = "if uxPriority (tcb k me) \<le> p then t else me"
    have "me \<noteq> t" using me(1) t by blast
    then have eq: "xTaskCreate t p k = Some (prvAddTaskToReadyList t (?k1\<lparr>pxCurrentTCB := Some ?me\<rparr>))"
      using p me inv'
      by (simp add: xTaskCreate_def prvInitialiseNewTask_eq prvAddNewTaskToReadyList_def Let_def upd_tcb_def)
    show ?thesis unfolding eq using result[of ?me] me(1) by simp
  qed
qed

lemma start_inv_tasks:
  assumes "start_inv T k" "distinct (map fst ts)" "set (map fst ts) \<inter> T = {}" "\<forall>(t, p) \<in> set ts. p < 32"
  shows "\<exists>k'. create_tasks ts k = Some k' \<and> start_inv (T \<union> set (map fst ts)) k'"
  using assms
proof (induction ts arbitrary: k T)
  case (Cons a ts)
  obtain t p where a: "a = (t, p)" by fastforce
  obtain k1 where k1: "xTaskCreate t p k = Some k1" "start_inv (insert t T) k1"
    using start_inv_create[OF Cons.prems(1), of t p] Cons.prems(3,4) a by auto
  have "set (map fst ts) \<inter> insert t T = {}" using Cons.prems(2,3) a by auto
  from Cons.IH[OF k1(2) _ this] Cons.prems(2,4) k1(1) a show ?case by auto
qed auto

lemma boot_inv:
  assumes "distinct (map fst ts)" "idle \<notin> set (map fst ts)" "\<forall>(t, p) \<in> set ts. p < 32"
  shows "\<exists>k me. boot ts idle = Some k \<and> kernel_inv idle k \<and> running k me \<and> uxSchedulerSuspended k = 0"
proof -
  obtain k1 where k1: "create_tasks ts kernel0 = Some k1" "start_inv (set (map fst ts)) k1"
    using start_inv_tasks[OF start_inv_kernel0 assms(1) _ assms(3)] by auto
  let ?T = "insert idle (set (map fst ts))"
  obtain k2 where k2: "xTaskCreate idle 0 k1 = Some k2" "start_inv ?T k2"
    using start_inv_create[OF k1(2) assms(2), of 0] by auto
  note inv = k2(2)[unfolded start_inv_def]
  let ?k = "k2\<lparr>xNextTaskUnblockTime := MAX_DELAY, xSchedulerRunning := True, xTickCount := 0\<rparr>"
  have only_ready: "state_in (tcb k2 t) \<noteq> Some (DelayedL b)" "state_in (tcb k2 t) \<noteq> Some TerminationL" for t b
    using inv by (cases "t \<in> ?T"; auto simp: ready_def)+
  have "time_inv ?k"
  proof -
    have "slist k2 (DelayedL b) = []" for b
      using lists_inv_mem[of k2 _ "DelayedL b"] only_ready inv core_invD(1)
      by (metis last_in_set)
    then show ?thesis using only_ready by (simp add: time_inv_def)
  qed
  moreover have "lists_inv ?k = lists_inv k2" by (rule lists_inv_cong) auto
  moreover have "prio_inv ?k = prio_inv k2" by (rule prio_inv_cong) auto
  moreover have "mask_inv {} ?k = mask_inv {} k2" by (rule mask_inv_cong) auto
  moreover have "notify_inv ?k = notify_inv k2" by (rule notify_inv_cong) auto
  ultimately have core: "core_inv {} ?k" using inv by (simp add: core_inv_def)
  have "(state_in (tcb k2 t) \<noteq> None) = (t \<in> ?T)" for t
    using inv by (metis option.distinct(1) ready_def)
  then have sets: "{t. state_in (tcb k2 t) \<noteq> None} = ?T" "{t. state_in (tcb k2 t) = Some TerminationL} = {}"
    using only_ready by auto
  have "tcb_ok (tcb k2 t)" for t using inv unfolding tcb_ok_def waiting_def by auto
  moreover obtain me where me: "me \<in> ?T" "pxCurrentTCB k2 = Some me" using inv by auto
  moreover have "ready (tcb k2 idle)" using inv by simp
  ultimately have "kernel_inv idle ?k"
    using core inv sets unfolding kernel_inv_def by (simp add: current_ok_def)
  moreover have "ready (tcb k2 me)" "\<not> waiting (tcb k2 me)" using inv me(1) by blast+
  then have "running ?k me" using me(2) by (simp add: running_def)
  moreover have "boot ts idle = Some ?k" "uxSchedulerSuspended ?k = 0"
    using k1(1) k2(1) inv by (simp_all add: boot_def vTaskStartScheduler_def)
  ultimately show ?thesis by blast
qed

section \<open>The scheduler as a transition system\<close>

text \<open>
  \<open>call idle k r\<close>: in the state \<open>k\<close> a task or an interrupt makes a call whose result is \<open>r\<close>,
  \<open>None\<close> for a failed assertion. The premises are the rules of the interface: a call that can
  block is made by the running task, never by the idle task, and not while the scheduler is
  suspended unless it is part of a queue or event group operation; handles denote tasks that
  exist; a task that waits for a notification is not resumed from an interrupt.
\<close>

inductive call :: "tid \<Rightarrow> kernel \<Rightarrow> kernel option \<Rightarrow> bool" for idle where
  tick: "call idle k (tick_interrupt k)"
| switch: "sw_int k \<Longrightarrow> call idle k (take_sw_int k)"
| yield: "call idle k (Some (yield k))"
| missed_yield: "call idle k (Some (vTaskMissedYield k))"
| suspend_all: "running k me \<Longrightarrow> call idle k (Some (vTaskSuspendAll k))"
| resume_all: "uxSchedulerSuspended k \<noteq> 0 \<Longrightarrow> call idle k (map_option fst (xTaskResumeAll k))"
| catch_up: "running k me \<Longrightarrow> uxSchedulerSuspended k = 0 \<Longrightarrow>
    call idle k (map_option fst (xTaskCatchUpTicks n k))"
| delay: "running k me \<Longrightarrow> me \<noteq> idle \<Longrightarrow> uxSchedulerSuspended k = 0 \<Longrightarrow> call idle k (vTaskDelay ticks k)"
| delay_until: "running k me \<Longrightarrow> me \<noteq> idle \<Longrightarrow> uxSchedulerSuspended k = 0 \<Longrightarrow> 0 < ticks \<Longrightarrow>
    call idle k (map_option fst (xTaskDelayUntil previous ticks k))"
| abort_delay: "running k me \<Longrightarrow> call idle k (map_option fst (xTaskAbortDelay t k))"
| place: "running k me \<Longrightarrow> me \<noteq> idle \<Longrightarrow> ticks \<noteq> 0 \<Longrightarrow> call idle k (vTaskPlaceOnEventList w ticks k)"
| place_unordered: "running k me \<Longrightarrow> me \<noteq> idle \<Longrightarrow> ticks \<noteq> 0 \<Longrightarrow> uxSchedulerSuspended k \<noteq> 0 \<Longrightarrow>
    call idle k (vTaskPlaceOnUnorderedEventList w v ticks k)"
| place_restricted: "running k me \<Longrightarrow> me \<noteq> idle \<Longrightarrow> ticks \<noteq> 0 \<or> forever \<Longrightarrow>
    call idle k (vTaskPlaceOnEventListRestricted w ticks forever k)"
| remove_event: "elist k (WaitL w) \<noteq> [] \<Longrightarrow> call idle k (map_option fst (xTaskRemoveFromEventList w k))"
| remove_unordered: "uxSchedulerSuspended k \<noteq> 0 \<Longrightarrow> event_in (tcb k t) = Some (WaitL w) \<Longrightarrow>
    call idle k (vTaskRemoveFromUnorderedEventList t v k)"
| reset_value: "call idle k (map_option fst (uxTaskResetEventItemValue k))"
| check_time_out: "call idle k (map_option fst (xTaskCheckForTimeOut tmo ticks k))"
| mutex_held: "call idle k (Some (fst (pvTaskIncrementMutexHeldCount k)))"
| inherit: "call idle k (map_option fst (xTaskPriorityInherit (Some h) k))"
| disinherit: "running k h \<Longrightarrow> uxMutexesHeld (tcb k h) \<noteq> 0 \<Longrightarrow>
    call idle k (map_option fst (xTaskPriorityDisinherit (Some h) k))"
| disinherit_after: "running k me \<Longrightarrow> highest < 32 \<Longrightarrow> uxMutexesHeld (tcb k h) \<noteq> 0 \<Longrightarrow> h \<noteq> me \<Longrightarrow>
    uxPriority (tcb k h) = uxPriority (tcb k me) \<Longrightarrow>
    call idle k (vTaskPriorityDisinheritAfterTimeout (Some h) highest k)"
| priority_set: "new < 32 \<Longrightarrow> call idle k (vTaskPrioritySet t new k)"
| notify_wait: "running k me \<Longrightarrow> me \<noteq> idle \<Longrightarrow> uxSchedulerSuspended k = 0 \<Longrightarrow>
    i < configTASK_NOTIFICATION_ARRAY_ENTRIES \<Longrightarrow> call idle k (xTaskGenericNotifyWait_enter i bits ticks k)"
| notify_wait_leave: "call idle k (map_option fst (xTaskGenericNotifyWait_leave i bits k))"
| notify_take: "running k me \<Longrightarrow> me \<noteq> idle \<Longrightarrow> uxSchedulerSuspended k = 0 \<Longrightarrow>
    i < configTASK_NOTIFICATION_ARRAY_ENTRIES \<Longrightarrow> call idle k (ulTaskGenericNotifyTake_enter i ticks k)"
| notify_take_leave: "call idle k (map_option fst (ulTaskGenericNotifyTake_leave i clear k))"
| notify: "i < configTASK_NOTIFICATION_ARRAY_ENTRIES \<Longrightarrow> live k t \<Longrightarrow>
    call idle k (map_option fst (xTaskGenericNotify t i v action k))"
| notify_from_isr: "i < configTASK_NOTIFICATION_ARRAY_ENTRIES \<Longrightarrow> live k t \<Longrightarrow>
    call idle k (map_option fst (xTaskGenericNotifyFromISR t i v action k))"
| notify_give: "i < configTASK_NOTIFICATION_ARRAY_ENTRIES \<Longrightarrow> live k t \<Longrightarrow>
    call idle k (map_option fst (vTaskGenericNotifyGiveFromISR t i k))"
| state_clear: "i < configTASK_NOTIFICATION_ARRAY_ENTRIES \<Longrightarrow>
    call idle k (map_option fst (xTaskGenericNotifyStateClear t i k))"
| value_clear: "i < configTASK_NOTIFICATION_ARRAY_ENTRIES \<Longrightarrow>
    call idle k (Some (fst (ulTaskGenericNotifyValueClear t i bits k)))"
| suspend: "live k t \<Longrightarrow> t \<noteq> idle \<Longrightarrow> (pxCurrentTCB k = Some t \<Longrightarrow> uxSchedulerSuspended k = 0) \<Longrightarrow>
    call idle k (vTaskSuspend t k)"
| resume: "call idle k (vTaskResume t k)"
| resume_from_isr: "\<not> waiting (tcb k t) \<Longrightarrow> call idle k (map_option fst (xTaskResumeFromISR t k))"
| create: "state_in (tcb k t) = None \<Longrightarrow> p < 32 \<Longrightarrow> call idle k (xTaskCreate t p k)"
| delete: "live k t \<Longrightarrow> t \<noteq> idle \<Longrightarrow> (pxCurrentTCB k = Some t \<Longrightarrow> uxSchedulerSuspended k = 0) \<Longrightarrow>
    call idle k (vTaskDelete t k)"
| cleanup: "pxCurrentTCB k = Some idle \<Longrightarrow> call idle k (idle_cleanup k)"

inductive reachable :: "tid \<Rightarrow> kernel \<Rightarrow> bool" for idle where
  start: "distinct (map fst ts) \<Longrightarrow> idle \<notin> set (map fst ts) \<Longrightarrow> \<forall>(t, p) \<in> set ts. p < 32 \<Longrightarrow>
    boot ts idle = Some k \<Longrightarrow> reachable idle k"
| step: "reachable idle k \<Longrightarrow> call idle k (Some k') \<Longrightarrow> reachable idle k'"

text \<open>Every call returns and preserves the invariant.\<close>

lemma inv_delay_any:
  assumes "kernel_inv idle k" "running k me" "me \<noteq> idle" "uxSchedulerSuspended k = 0"
  shows "\<exists>k'. vTaskDelay ticks k = Some k' \<and> kernel_inv idle k'"
proof (cases "ticks = 0")
  case True
  then show ?thesis using assms(1) by (simp add: vTaskDelay_def)
next
  case False
  then show ?thesis using inv_delay(1)[OF assms] by blast
qed

lemma call_ok:
  assumes "call idle k r" and inv: "kernel_inv idle k"
  shows "\<exists>k'. r = Some k' \<and> kernel_inv idle k'"
  using assms(1)
proof cases
  case tick
  then show ?thesis using inv_tick[OF inv] by simp
next
  case switch
  then show ?thesis using inv_switch[OF inv] by blast
next
  case missed_yield
  then show ?thesis using inv by (simp add: vTaskMissedYield_def)
next
  case suspend_all
  then show ?thesis using inv_suspend_all[OF inv] by blast
next
  case resume_all
  then show ?thesis using inv_resume_all[OF inv] by force
next
  case catch_up
  then show ?thesis using inv_catch_up[OF inv] by force
next
  case delay
  then show ?thesis using inv_delay_any[OF inv] by blast
next
  case delay_until
  then show ?thesis using inv_delay_until[OF inv] by force
next
  case abort_delay
  then show ?thesis using inv_abort[OF inv] by force
next
  case place
  then show ?thesis using inv_place_on(1)[OF inv] by blast
next
  case place_unordered
  then show ?thesis using inv_place_on(2)[OF inv] by blast
next
  case place_restricted
  then show ?thesis using inv_place_on(3)[OF inv] by blast
next
  case (remove_event w)
  then show ?thesis using inv_remove_event[OF inv] by (cases "elist k (WaitL w)") force+
next
  case remove_unordered
  then show ?thesis using inv_remove_unordered[OF inv] by blast
next
  case reset_value
  then show ?thesis using inv_reset_event_value[OF inv] by auto
next
  case check_time_out
  then show ?thesis using inv_check_time_out[OF inv] by force
next
  case mutex_held
  then show ?thesis using inv_mutex_count[OF inv] by simp
next
  case inherit
  then show ?thesis using inv_inherit[OF inv] by force
next
  case disinherit
  then show ?thesis using inv_disinherit[OF inv] by force
next
  case disinherit_after
  then show ?thesis using inv_disinherit_after[OF inv] by blast
next
  case priority_set
  then show ?thesis using inv_priority_set[OF inv] by blast
next
  case notify_wait
  then show ?thesis using inv_notify_wait(1)[OF inv] by blast
next
  case notify_wait_leave
  then show ?thesis using inv_notify_leave(1)[OF inv] by force
next
  case notify_take
  then show ?thesis using inv_notify_wait(2)[OF inv] by blast
next
  case notify_take_leave
  then show ?thesis using inv_notify_leave(2)[OF inv] by force
next
  case notify
  then show ?thesis using inv_notify[OF inv] by force
next
  case notify_from_isr
  then show ?thesis using inv_notify_from_isr[OF inv] by force
next
  case notify_give
  then show ?thesis using inv_notify_give[OF inv] by force
next
  case state_clear
  then show ?thesis using inv_notify_clear(1)[OF inv] by force
next
  case value_clear
  then show ?thesis using inv_notify_clear(2)[OF inv] by simp
next
  case suspend
  then show ?thesis using inv_task_suspend[OF inv] by blast
next
  case resume
  then show ?thesis using inv_resume[OF inv] by blast
next
  case resume_from_isr
  then show ?thesis using inv_resume_from_isr[OF inv] by force
next
  case create
  then show ?thesis using inv_create[OF inv] by blast
next
  case delete
  then show ?thesis using inv_delete[OF inv] by blast
next
  case cleanup
  then show ?thesis using inv_cleanup[OF inv] by blast
qed (use inv in simp)

lemma reachable_inv: "reachable idle k \<Longrightarrow> kernel_inv idle k"
proof (induction rule: reachable.induct)
  case (start ts k)
  then show ?case using boot_inv[OF start(1-3)] by auto
next
  case (step k k')
  then show ?case using call_ok by blast
qed

lemma reachable_boot:
  assumes "distinct (map fst ts)" "idle \<notin> set (map fst ts)" "\<forall>(t, p) \<in> set ts. p < 32"
  shows "\<exists>k me. boot ts idle = Some k \<and> reachable idle k \<and> running k me \<and> uxSchedulerSuspended k = 0"
  using boot_inv[OF assms] reachable.start[OF assms] by blast

lemma guard_Some [simp]: "guard b = Some u \<longleftrightarrow> b"
  by (simp add: guard_def)

lemma guard_bind_Some: "Option.bind (guard b) f = Some x \<longleftrightarrow> b \<and> f () = Some x"
  by (cases b) simp_all

text \<open>Nobody waits for a notification before the tasks run.\<close>

definition calm :: "kernel \<Rightarrow> bool" where
  "calm k \<longleftrightarrow> (\<forall>t i. ucNotifyState (tcb k t) i = NOT_WAITING)"

lemma calm_create: "calm k \<Longrightarrow> xTaskCreate t p k = Some k' \<Longrightarrow> calm k'"
  by (auto simp: calm_def xTaskCreate_def prvInitialiseNewTask_def prvAddNewTaskToReadyList_def Let_def
      prvInitialiseTaskLists_def prvAddTaskToReadyList_def upd_tcb_def yield_def empty_tcb_def
      guard_bind_Some split: option.splits if_splits)

lemma boot_calm:
  assumes "boot ts idle = Some k"
  shows "\<not> waiting (tcb k t)"
proof -
  have create: "calm k0 \<Longrightarrow> create_tasks ts k0 = Some k1 \<Longrightarrow> calm k1" for k0 k1
    by (induction ts k0 rule: create_tasks.induct) (auto simp: bind_eq_Some_conv dest: calm_create)
  have "calm kernel0" by (simp add: calm_def kernel0_def empty_tcb_def)
  moreover obtain k1 k2 where "create_tasks ts kernel0 = Some k1" "xTaskCreate idle 0 k1 = Some k2" "tcb k = tcb k2"
    using assms by (auto simp: boot_def vTaskStartScheduler_def bind_eq_Some_conv)
  ultimately have "calm k" using calm_create[of k1 idle 0 k2] create[of kernel0 k1] by (simp add: calm_def)
  then show ?thesis by (simp add: calm_def waiting_def)
qed

text \<open>Resuming the scheduler when nothing is pending.\<close>

lemma resume_keeps:
  assumes inv: "kernel_inv idle k" and susp: "uxSchedulerSuspended k \<noteq> 0"
    and quiet: "uxSchedulerSuspended k = 1 \<Longrightarrow> elist k PendingReadyL = [] \<and> xPendedTicks k = 0"
  shows "\<exists>k' b. xTaskResumeAll k = Some (k', b) \<and> kernel_inv idle k' \<and> tcb k' = tcb k \<and> elist k' = elist k \<and>
    same_main k k' \<and> uxSchedulerSuspended k' = uxSchedulerSuspended k - 1 \<and> xPendedTicks k' = xPendedTicks k"
proof -
  obtain k' b where k': "xTaskResumeAll k = Some (k', b)" "kernel_inv idle k'" "same_main k k'"
    "uxSchedulerSuspended k' = uxSchedulerSuspended k - 1" using inv_resume_all[OF inv susp] by blast
  obtain me where me: "pxCurrentTCB k = Some me" using kernel_inv_current[OF inv] by blast
  have num: "uxCurrentNumberOfTasks k > 0" by (rule kernel_inv_num[OF inv])
  have "tcb k' = tcb k \<and> elist k' = elist k \<and> xPendedTicks k' = xPendedTicks k"
  proof (cases "uxSchedulerSuspended k = 1")
    case True
    let ?k = "k\<lparr>uxSchedulerSuspended := 0\<rparr>"
    have "move_pending me (?k, False) = Some (?k, False)" using quiet[OF True] by (subst move_pending.simps) simp
    then show ?thesis using k'(1) True quiet[OF True] me num
      by (auto simp: xTaskResumeAll_def Let_def yield_def split: if_splits)
  next
    case False
    then show ?thesis using k'(1) susp by (auto simp: xTaskResumeAll_def Let_def)
  qed
  then show ?thesis using k' by blast
qed

lemma quiet_lists:
  assumes "kernel_inv idle k" "uxSchedulerSuspended k = 0"
    "elist k1 PendingReadyL = elist k PendingReadyL" "xPendedTicks k1 = xPendedTicks k"
  shows "elist k1 PendingReadyL = [] \<and> xPendedTicks k1 = 0"
  using core_invD(1)[OF kernel_invD(1)[OF assms(1)]] kernel_invD(9,10)[OF assms(1,2)] assms(3,4)
  by (metis last_in_set lists_inv_def)

end
