(* ===== verification/QueueSteps.thy ===== *)
theory QueueSteps
  imports QueueData TaskReach
begin

text \<open>
  A queue as a transition system: the critical sections of tasks and the calls of interrupts are
  its steps, labelled with what they do to the sequence of items. Every sequence of steps is
  one of a double-ended queue of bounded length.
\<close>

section \<open>The steps\<close>

datatype queue_op =
    Send "8 word list option" tick copy_position "time_out option"
  | SendFromISR "8 word list option" copy_position
  | GiveFromISR
  | Receive "nat option" tick "time_out option"
  | ReceiveFromISR "nat option"
  | Peek "nat option" tick "time_out option"
  | PeekFromISR "nat option"
  | Take tick bool "time_out option"
  | GiveRecursive
  | TakeRecursive tick bool "time_out option"
  | Lock
  | SendBlock time_out tick
  | ReceiveBlock time_out tick
  | TakeBlock time_out tick bool
  | TakeExpired bool
  | UnlockTx
  | UnlockRx
  | Resume block
  | WaitRestricted tick bool
  | Clear

datatype queue_event =
    Sent copy_position "8 word list"
  | Received "8 word list"
  | Peeked "8 word list"
  | FullSeen
  | EmptySeen
  | Cleared

definition payload :: "8 word list option \<Rightarrow> queue \<Rightarrow> 8 word list" where
  "payload pv q = (case item_bytes pv q of None \<Rightarrow> [] | Some bs \<Rightarrow> bs)"

text \<open>A step returns the new state and the events that it shows.\<close>

fun queue_step :: "queue_op \<Rightarrow> sys \<Rightarrow> (sys \<times> queue_event list) option" where
  "queue_step (Send pv ticks pos entry) s = do {
     (s', r) \<leftarrow> xQueueGenericSend_try pv ticks pos entry s;
     Some (s', [if r = Moved then Sent pos (payload pv (snd s)) else FullSeen]) }"
| "queue_step (SendFromISR pv pos) s = do {
     (s', ok, _) \<leftarrow> xQueueGenericSendFromISR pv pos s;
     Some (s', [if ok then Sent pos (payload pv (snd s)) else FullSeen]) }"
| "queue_step GiveFromISR s = do {
     (s', ok, _) \<leftarrow> xQueueGiveFromISR s;
     Some (s', [if ok then Sent queueSEND_TO_BACK [] else FullSeen]) }"
| "queue_step (Receive buf ticks entry) s = do {
     (s', r, bs) \<leftarrow> xQueueReceive_try buf ticks entry s;
     Some (s', [if r = Moved then Received bs else EmptySeen]) }"
| "queue_step (ReceiveFromISR buf) s = do {
     (s', ok, _, bs) \<leftarrow> xQueueReceiveFromISR buf s;
     Some (s', [if ok then Received bs else EmptySeen]) }"
| "queue_step (Peek buf ticks entry) s = do {
     (s', r, bs) \<leftarrow> xQueuePeek_try buf ticks entry s;
     Some (s', [if r = Moved then Peeked bs else EmptySeen]) }"
| "queue_step (PeekFromISR buf) s = do {
     (q', ok, bs) \<leftarrow> xQueuePeekFromISR buf (snd s);
     Some ((fst s, q'), [if ok then Peeked bs else EmptySeen]) }"
| "queue_step (Take ticks inherited entry) s = do {
     (s', r) \<leftarrow> xQueueSemaphoreTake_try ticks inherited entry s;
     Some (s', [if r = Moved then Received [] else EmptySeen]) }"
| "queue_step GiveRecursive s = do {
     (s', _) \<leftarrow> xQueueGiveMutexRecursive s;
     Some (s', if uxMessagesWaiting (snd s') = uxMessagesWaiting (snd s) then []
               else [Sent queueSEND_TO_BACK []]) }"
| "queue_step (TakeRecursive ticks inherited entry) s = do {
     (s', r) \<leftarrow> xQueueTakeMutexRecursive_try ticks inherited entry s;
     Some (s', if r \<noteq> Moved then [EmptySeen]
               else if uxMessagesWaiting (snd s') = uxMessagesWaiting (snd s) then [] else [Received []]) }"
| "queue_step Lock s = Some (queue_lock s, [])"
| "queue_step (SendBlock tmo ticks) s = do {
     (s', _, _, b) \<leftarrow> xQueueGenericSend_block tmo ticks s;
     Some (s', if b = Blocked then [FullSeen] else []) }"
| "queue_step (ReceiveBlock tmo ticks) s = do {
     (s', _, _, b) \<leftarrow> xQueueReceive_block tmo ticks s;
     Some (s', if b = Blocked then [EmptySeen] else []) }"
| "queue_step (TakeBlock tmo ticks inherited) s = do {
     (s', _, _, b, _) \<leftarrow> xQueueSemaphoreTake_block tmo ticks inherited s;
     Some (s', if b = Blocked then [EmptySeen] else []) }"
| "queue_step (TakeExpired inherited) s = do {
     (s', up) \<leftarrow> xQueueSemaphoreTake_expired inherited s;
     Some (s', if up then [EmptySeen] else []) }"
| "queue_step UnlockTx s = do { s \<leftarrow> prvUnlockQueue_tx s; Some (s, []) }"
| "queue_step UnlockRx s = do { s \<leftarrow> prvUnlockQueue_rx s; Some (s, []) }"
| "queue_step (Resume b) s = do { s \<leftarrow> queue_resume b s; Some (s, []) }"
| "queue_step (WaitRestricted ticks forever) s = do {
     s \<leftarrow> vQueueWaitForMessageRestricted ticks forever s; Some (s, []) }"
| "queue_step Clear s = do { (s, ok) \<leftarrow> xQueueGenericReset False s; Some (s, if ok then [Cleared] else []) }"

text \<open>Overwriting is for queues that carry data; semaphores and mutexes do not have the call.\<close>

fun allowed :: "nat \<Rightarrow> queue_op \<Rightarrow> bool" where
  "allowed sz (Send _ _ pos _) = (sz = 0 \<longrightarrow> pos \<noteq> queueOVERWRITE)"
| "allowed sz (SendFromISR _ pos) = (sz = 0 \<longrightarrow> pos \<noteq> queueOVERWRITE)"
| "allowed sz (GiveRecursive) = (sz = 0)"
| "allowed sz (TakeRecursive _ _ _) = (sz = 0)"
| "allowed sz _ = True"

text \<open>Between two steps of the queue the scheduler may do anything: \<open>Inl k\<close> is its new state.\<close>

fun queue_run :: "(kernel + queue_op) list \<Rightarrow> sys \<Rightarrow> (sys \<times> queue_event list) option" where
  "queue_run [] s = Some (s, [])"
| "queue_run (Inl k # ops) s = queue_run ops (k, snd s)"
| "queue_run (Inr a # ops) s = do {
     (s, es) \<leftarrow> queue_step a s;
     (s, es') \<leftarrow> queue_run ops s;
     Some (s, es @ es') }"

section \<open>The specification\<close>

text \<open>A double-ended queue with room for \<open>n\<close> items; \<open>None\<close> for an event that cannot happen.\<close>

fun deque_event :: "nat \<Rightarrow> queue_event \<Rightarrow> 8 word list list \<Rightarrow> 8 word list list option" where
  "deque_event n (Sent pos x) xs =
    (if length xs < n \<or> pos = queueOVERWRITE \<and> n = 1 then Some (deque_send pos x xs) else None)"
| "deque_event n (Received x) xs = (if xs \<noteq> [] \<and> hd xs = x then Some (tl xs) else None)"
| "deque_event n (Peeked x) xs = (if xs \<noteq> [] \<and> hd xs = x then Some xs else None)"
| "deque_event n FullSeen xs = (if length xs = n then Some xs else None)"
| "deque_event n EmptySeen xs = (if xs = [] then Some xs else None)"
| "deque_event n Cleared xs = Some []"

fun deque_run :: "nat \<Rightarrow> queue_event list \<Rightarrow> 8 word list list \<Rightarrow> 8 word list list option" where
  "deque_run n [] xs = Some xs"
| "deque_run n (e # es) xs = Option.bind (deque_event n e xs) (deque_run n es)"

lemma deque_run_append:
  "deque_run n (es @ es') xs = Option.bind (deque_run n es xs) (deque_run n es')"
  by (induction es arbitrary: xs) (auto split: Option.bind_split)

section \<open>What moving one item does\<close>

lemma queue_inv_fields [simp]:
  "queue_inv (q\<lparr>xMutexHolder := h\<rparr>) = queue_inv q" "queue_inv (q\<lparr>uxRecursiveCallCount := c\<rparr>) = queue_inv q"
  by (auto simp: queue_inv_def ring_ok_def)

lemma queue_inv_locks [simp]:
  "queue_inv q \<Longrightarrow> - 1 \<le> c \<Longrightarrow> queue_inv (q\<lparr>cTxLock := c\<rparr>)"
  "queue_inv q \<Longrightarrow> - 1 \<le> c \<Longrightarrow> queue_inv (q\<lparr>cRxLock := c\<rparr>)"
  by (auto simp: queue_inv_def ring_ok_def)

lemma items_fields [simp]:
  "items (q\<lparr>xMutexHolder := h\<rparr>) = items q" "items (q\<lparr>uxRecursiveCallCount := c\<rparr>) = items q"
  "items (q\<lparr>cTxLock := l\<rparr>) = items q" "items (q\<lparr>cRxLock := l\<rparr>) = items q"
  by (simp_all add: items_def slot_def read_index_def)

lemma items_None: "items q = [] \<longleftrightarrow> uxMessagesWaiting q = 0"
  by (metis length_0_conv length_items)

text \<open>The steps keep the shape of the queue.\<close>

definition same_shape :: "queue \<Rightarrow> queue \<Rightarrow> bool" where
  "same_shape q q' \<longleftrightarrow> is_mutex q' = is_mutex q \<and> uxLength q' = uxLength q \<and> uxItemSize q' = uxItemSize q \<and>
    xTasksWaitingToSend q' = xTasksWaitingToSend q \<and> xTasksWaitingToReceive q' = xTasksWaitingToReceive q"

lemma same_shape_simps [simp]: "same_shape q q"
  "same_shape q (q'\<lparr>xMutexHolder := h\<rparr>) = same_shape q q'"
  "same_shape q (q'\<lparr>uxRecursiveCallCount := c\<rparr>) = same_shape q q'"
  "same_shape q (q'\<lparr>cTxLock := l\<rparr>) = same_shape q q'" "same_shape q (q'\<lparr>cRxLock := l\<rparr>) = same_shape q q'"
  "same_shape q (q'\<lparr>uxMessagesWaiting := n\<rparr>) = same_shape q q'"
  "same_shape q (q'\<lparr>pcReadFrom := r\<rparr>) = same_shape q q'"
  by (auto simp: same_shape_def)

lemma same_shape_trans: "same_shape q q' \<Longrightarrow> same_shape q' q'' \<Longrightarrow> same_shape q q''"
  by (simp add: same_shape_def)

lemma same_shapeD:
  assumes "same_shape q q'"
  shows "is_mutex q' = is_mutex q" "uxLength q' = uxLength q" "uxItemSize q' = uxItemSize q"
    "xTasksWaitingToSend q' = xTasksWaitingToSend q" "xTasksWaitingToReceive q' = xTasksWaitingToReceive q"
  using assms by (simp_all add: same_shape_def)

lemma q_frame_shape: "q_frame q' = q_frame q \<Longrightarrow> same_shape q q'"
  by (simp add: q_frame_def same_shape_def)

lemma q_frameD:
  assumes "q_frame q' = q_frame q"
  shows "cRxLock q' = cRxLock q" "cTxLock q' = cTxLock q" "uxRecursiveCallCount q' = uxRecursiveCallCount q"
  using assms by (simp_all add: q_frame_def)

lemma ring_no_size: "ring_ok q r \<Longrightarrow> uxItemSize q = 0 \<Longrightarrow> ring_ok (q\<lparr>uxMessagesWaiting := n\<rparr>) r"
  by (simp add: ring_ok_def)

lemma count_items:
  assumes inv: "queue_inv q" and size: "uxItemSize q = 0" and n: "n \<le> uxLength q"
  shows "queue_inv (q\<lparr>uxMessagesWaiting := n\<rparr>)" "items (q\<lparr>uxMessagesWaiting := n\<rparr>) = replicate n []"
    "items q = replicate (uxMessagesWaiting q) []"
proof -
  from inv obtain r where "ring_ok q r" by (auto simp: queue_inv_def)
  from queue_inv_step[OF inv ring_no_size[OF this size]] n
  show "queue_inv (q\<lparr>uxMessagesWaiting := n\<rparr>)" by simp
qed (use size items_empty_size in simp_all)

lemma deque_send_replicate:
  "pos \<noteq> queueOVERWRITE \<Longrightarrow> deque_send pos x (replicate n x) = replicate (Suc n) x"
  by (cases pos) (simp_all add: replicate_append_same)

lemma copy_to_ok:
  assumes inv: "queue_inv q" and room: "uxMessagesWaiting q < uxLength q \<or> pos = queueOVERWRITE"
    and over: "pos = queueOVERWRITE \<Longrightarrow> uxLength q = 1 \<and> uxItemSize q \<noteq> 0"
    and run: "prvCopyDataToQueue pv pos (k, q) = Some ((k', q'), y)"
  shows "queue_inv q' \<and> q_frame q' = q_frame q \<and> items q' = deque_send pos (payload pv q) (items q) \<and>
    (\<not> is_mutex q \<longrightarrow> k' = k \<and> \<not> y)"
proof (cases "uxItemSize q = 0")
  case True
  then have pos: "pos \<noteq> queueOVERWRITE" and n: "uxMessagesWaiting q + 1 \<le> uxLength q" using room over by auto
  have "payload pv q = []" using True by (simp add: payload_def item_bytes_def split: option.splits)
  moreover have "q' = q\<lparr>uxMessagesWaiting := uxMessagesWaiting q + 1\<rparr> \<or>
    q' = q\<lparr>xMutexHolder := None, uxMessagesWaiting := uxMessagesWaiting q + 1\<rparr>"
    using run True by (auto simp: prvCopyDataToQueue_def split: if_splits Option.bind_splits)
  moreover have "\<not> is_mutex q \<longrightarrow> k' = k \<and> \<not> y"
    using run True by (auto simp: prvCopyDataToQueue_def)
  moreover have "queue_inv (q\<lparr>xMutexHolder := None, uxMessagesWaiting := uxMessagesWaiting q + 1\<rparr>)"
    "items (q\<lparr>xMutexHolder := None, uxMessagesWaiting := uxMessagesWaiting q + 1\<rparr>) = replicate (Suc (uxMessagesWaiting q)) []"
    using count_items[of "q\<lparr>xMutexHolder := None\<rparr>", OF _ _ ] inv True n by simp_all
  ultimately show ?thesis
    using count_items[OF inv True n] deque_send_replicate[OF pos, of "[] :: 8 word list"] by auto
next
  case False
  then obtain bs where bs: "item_bytes pv q = Some bs"
    using run by (auto simp: prvCopyDataToQueue_def split: if_splits Option.bind_splits)
  show ?thesis
  proof (cases "pos = queueSEND_TO_BACK")
    case True
    then show ?thesis
      using copy_back[OF inv False _ bs, of k] room run bs by (auto simp: payload_def)
  next
    case not_back: False
    have "pos = queueSEND_TO_FRONT \<Longrightarrow> uxMessagesWaiting q < uxLength q" using room by auto
    from copy_front[OF inv False not_back this _ bs, of k] show ?thesis
      using over run bs by (auto simp: payload_def)
  qed
qed

section \<open>What each step does\<close>

text \<open>A step from a queue \<open>q\<close> to \<open>q'\<close> that shows \<open>es\<close> is a step of the deque.\<close>

definition refines :: "queue \<Rightarrow> queue \<Rightarrow> queue_event list \<Rightarrow> bool" where
  "refines q q' es \<longleftrightarrow> queue_inv q' \<and> same_shape q q' \<and>
    deque_run (uxLength q) es (items q) = Some (items q')"

lemma refines_refl [simp]: "queue_inv q \<Longrightarrow> refines q q []"
  by (simp add: refines_def)

lemma refines_silent: "queue_inv q' \<Longrightarrow> same_shape q q' \<Longrightarrow> items q' = items q \<Longrightarrow> refines q q' []"
  by (simp add: refines_def)

lemma refines_full: "queue_inv q \<Longrightarrow> uxMessagesWaiting q = uxLength q \<Longrightarrow> refines q q [FullSeen]"
  by (simp add: refines_def)

lemma refines_empty: "queue_inv q \<Longrightarrow> uxMessagesWaiting q = 0 \<Longrightarrow> refines q q [EmptySeen]"
  by (simp add: refines_def items_None)

lemma refines_trans:
  assumes "refines q q' es" "refines q' q'' es'"
  shows "refines q q'' (es @ es')"
  using assms same_shape_trans same_shapeD(2)[of q q']
  by (auto simp: refines_def deque_run_append)

lemma refines_fields [simp]:
  "refines q (q'\<lparr>xMutexHolder := h\<rparr>) es = refines q q' es"
  "refines q (q'\<lparr>uxRecursiveCallCount := c\<rparr>) es = refines q q' es"
  by (simp_all add: refines_def)

lemma refines_locks:
  "refines q q' es \<Longrightarrow> - 1 \<le> c \<Longrightarrow> refines q (q'\<lparr>cTxLock := c\<rparr>) es"
  "refines q q' es \<Longrightarrow> - 1 \<le> c \<Longrightarrow> refines q (q'\<lparr>cRxLock := c\<rparr>) es"
  by (simp_all add: refines_def)

lemma refines_sent:
  assumes "queue_inv q" "uxMessagesWaiting q < uxLength q \<or> pos = queueOVERWRITE"
    "pos = queueOVERWRITE \<Longrightarrow> uxLength q = 1 \<and> uxItemSize q \<noteq> 0"
    "prvCopyDataToQueue pv pos (k, q) = Some ((k', q'), y)"
  shows "refines q q' [Sent pos (payload pv q)]"
  using copy_to_ok[OF assms] assms(2,3) q_frame_shape by (auto simp: refines_def)

lemma refines_received:
  assumes inv: "queue_inv q" and n: "uxMessagesWaiting q > 0" and run: "prvCopyDataFromQueue q = Some (q1, bs)"
  shows "refines q (q1\<lparr>uxMessagesWaiting := uxMessagesWaiting q - 1\<rparr>) [Received bs]"
    "q1\<lparr>pcReadFrom := pcReadFrom q\<rparr> = q" "refines q q [Peeked bs]" "q_frame q1 = q_frame q"
proof -
  obtain q2 where q2: "prvCopyDataFromQueue q = Some (q2, hd (items q))" "q_frame q2 = q_frame q"
    "q2\<lparr>pcReadFrom := pcReadFrom q\<rparr> = q"
    "queue_inv (q2\<lparr>uxMessagesWaiting := uxMessagesWaiting q - 1\<rparr>)"
    "items (q2\<lparr>uxMessagesWaiting := uxMessagesWaiting q - 1\<rparr>) = tl (items q)"
    using copy_from[OF inv n] by blast
  have eq: "q1 = q2" "bs = hd (items q)" using q2(1) run by simp_all
  have ne: "items q \<noteq> []" using n items_None[of q] by simp
  show "refines q (q1\<lparr>uxMessagesWaiting := uxMessagesWaiting q - 1\<rparr>) [Received bs]"
    using q2(4,5) ne q_frame_shape[OF q2(2)] by (simp add: refines_def eq)
  show "q1\<lparr>pcReadFrom := pcReadFrom q\<rparr> = q" "q_frame q1 = q_frame q" using q2 by (simp_all add: eq)
  show "refines q q [Peeked bs]" using inv ne by (simp add: refines_def eq)
qed

lemma refines_taken:
  assumes "queue_inv q" "uxItemSize q = 0" "uxMessagesWaiting q > 0"
  shows "refines q (q\<lparr>uxMessagesWaiting := uxMessagesWaiting q - 1\<rparr>) [Received []]"
  using count_items(1,2)[OF assms(1,2), of "uxMessagesWaiting q - 1"] count_items(3)[OF assms(1,2) le0]
    queue_invD(1)[OF assms(1)] assms
  by (cases "uxMessagesWaiting q") (auto simp: refines_def)

lemma raise_lock_ge: "raise_lock c = Some c' \<Longrightarrow> - 1 \<le> c \<Longrightarrow> - 1 \<le> c'"
  by (auto simp: raise_lock_def split: if_splits)

lemma refines_isr_added:
  assumes "isr_added c (k, q1) = Some ((k', q'), w)" "refines q q1 es" "- 1 \<le> c"
  shows "refines q q' es"
  using assms raise_lock_ge
  by (auto simp: isr_added_def refines_locks split: if_splits Option.bind_splits prod.splits)

lemma send_refines:
  assumes inv: "queue_inv q" and ok: "uxItemSize q = 0 \<longrightarrow> pos \<noteq> queueOVERWRITE"
    and run: "xQueueGenericSend_try pv ticks pos entry (k, q) = Some ((k', q'), r)"
  shows "refines q q' [if r = Moved then Sent pos (payload pv q) else FullSeen]"
proof (cases "uxMessagesWaiting q < uxLength q \<or> pos = queueOVERWRITE")
  case True
  from run have over: "pos = queueOVERWRITE \<longrightarrow> uxLength q = 1"
    by (auto simp: xQueueGenericSend_try_def guard_bind_Some)
  from run True obtain k1 y where copy: "prvCopyDataToQueue pv pos (k, q) = Some ((k1, q'), y)" and r: "r = Moved"
    by (auto simp: xQueueGenericSend_try_def guard_bind_Some split: Option.bind_splits if_splits)
  then show ?thesis using refines_sent[OF inv True _ copy] over ok by auto
next
  case False
  then have "r \<noteq> Moved" "q' = q" using run
    by (auto simp: xQueueGenericSend_try_def guard_bind_Some split: if_splits)
  then show ?thesis using refines_full[OF inv] False queue_invD(1)[OF inv] by simp
qed

lemma send_isr_refines:
  assumes inv: "queue_inv q" and ok: "uxItemSize q = 0 \<longrightarrow> pos \<noteq> queueOVERWRITE"
    and run: "xQueueGenericSendFromISR pv pos (k, q) = Some ((k', q'), sent, w)"
  shows "refines q q' [if sent then Sent pos (payload pv q) else FullSeen]"
proof (cases "uxMessagesWaiting q < uxLength q \<or> pos = queueOVERWRITE")
  case True
  from run have over: "pos = queueOVERWRITE \<longrightarrow> uxLength q = 1"
    by (auto simp: xQueueGenericSendFromISR_def guard_bind_Some)
  from run True obtain k1 q1 y where copy: "prvCopyDataToQueue pv pos (k, q) = Some ((k1, q1), y)"
    "isr_added (cTxLock q) (k1, q1) = Some ((k', q'), w)" and r: "sent"
    by (auto simp: xQueueGenericSendFromISR_def guard_bind_Some split: Option.bind_splits if_splits)
  have "refines q q1 [Sent pos (payload pv q)]" using refines_sent[OF inv True _ copy(1)] over ok by auto
  from refines_isr_added[OF copy(2) this] show ?thesis using r queue_invD(5)[OF inv] by simp
next
  case False
  then have "\<not> sent" "q' = q" using run
    by (auto simp: xQueueGenericSendFromISR_def guard_bind_Some split: if_splits)
  then show ?thesis using refines_full[OF inv] False queue_invD(1)[OF inv] by simp
qed

lemma give_isr_refines:
  assumes inv: "queue_inv q" and run: "xQueueGiveFromISR (k, q) = Some ((k', q'), given, w)"
  shows "refines q q' [if given then Sent queueSEND_TO_BACK [] else FullSeen]"
proof (cases "uxMessagesWaiting q < uxLength q")
  case True
  let ?q = "q\<lparr>uxMessagesWaiting := uxMessagesWaiting q + 1\<rparr>"
  from run have size: "uxItemSize q = 0" by (auto simp: xQueueGiveFromISR_def guard_bind_Some)
  from run True have add: "isr_added (cTxLock q) (k, ?q) = Some ((k', q'), w)" and given
    by (auto simp: xQueueGiveFromISR_def guard_bind_Some split: Option.bind_splits)
  have "refines q ?q [Sent queueSEND_TO_BACK []]"
    using count_items(1,2)[OF inv size, of "uxMessagesWaiting q + 1"] count_items(3)[OF inv size le0] True
    by (simp add: refines_def replicate_append_same)
  from refines_isr_added[OF add this] show ?thesis using \<open>given\<close> queue_invD(5)[OF inv] by simp
next
  case False
  then have "\<not> given" "q' = q" using run
    by (auto simp: xQueueGiveFromISR_def guard_bind_Some split: if_splits)
  then show ?thesis using refines_full[OF inv] False queue_invD(1)[OF inv] by simp
qed

lemma receive_refines:
  assumes inv: "queue_inv q"
  shows "xQueueReceive_try buf ticks entry (k, q) = Some ((k', q'), r, bs) \<Longrightarrow>
      refines q q' [if r = Moved then Received bs else EmptySeen]"
    "xQueuePeek_try buf ticks entry (k, q) = Some ((k', q'), r, bs) \<Longrightarrow>
      refines q q' [if r = Moved then Peeked bs else EmptySeen]"
    "xQueueReceiveFromISR buf (k, q) = Some ((k', q'), got, w, bs) \<Longrightarrow>
      refines q q' [if got then Received bs else EmptySeen]"
    "xQueuePeekFromISR buf q = Some (q', got, bs) \<Longrightarrow>
      refines q q' [if got then Peeked bs else EmptySeen]"
  using refines_received[OF inv] refines_empty[OF inv] queue_invD(4)[OF inv]
  by (auto simp: xQueueReceive_try_def xQueuePeek_try_def xQueueReceiveFromISR_def xQueuePeekFromISR_def
      Let_def guard_bind_Some intro!: refines_locks dest: raise_lock_ge split: Option.bind_splits if_splits)

lemma take_refines:
  assumes inv: "queue_inv q"
    and run: "xQueueSemaphoreTake_try ticks inherited entry (k, q) = Some ((k', q'), r)"
  shows "refines q q' [if r = Moved then Received [] else EmptySeen]"
proof (cases "uxMessagesWaiting q > 0")
  case True
  let ?q = "q\<lparr>uxMessagesWaiting := uxMessagesWaiting q - 1\<rparr>"
  have "r = Moved" "uxItemSize q = 0" "q' = ?q \<or> (\<exists>h. q' = ?q\<lparr>xMutexHolder := h\<rparr>)"
    using run True
    by (auto simp: xQueueSemaphoreTake_try_def guard_bind_Some Let_def split: Option.bind_splits if_splits prod.splits)
  then show ?thesis using refines_taken[OF inv] True by auto
next
  case False
  then have "r \<noteq> Moved" "q' = q" using run
    by (auto simp: xQueueSemaphoreTake_try_def guard_bind_Some split: if_splits)
  then show ?thesis using refines_empty[OF inv] False by simp
qed

text \<open>Recursive mutexes: the holder only counts.\<close>

lemma refines_count:
  assumes "refines q q' [Sent pos x]" "pos \<noteq> queueOVERWRITE"
  shows "uxMessagesWaiting q' = Suc (uxMessagesWaiting q)"
proof -
  have "items q' = deque_send pos x (items q)" using assms by (auto simp: refines_def split: if_splits)
  then have "length (items q') = Suc (length (items q))" using assms(2) by (cases pos) simp_all
  then show ?thesis by simp
qed

lemma refines_count_received:
  assumes "refines q q' [Received x]"
  shows "uxMessagesWaiting q = Suc (uxMessagesWaiting q')"
proof -
  have "items q' = tl (items q)" "items q \<noteq> []" using assms by (auto simp: refines_def split: if_splits)
  then have "length (items q) = Suc (length (items q'))" by (cases "items q") simp_all
  then show ?thesis by simp
qed

lemma refines_counting [simp]: "refines (q\<lparr>uxRecursiveCallCount := c\<rparr>) q' es = refines q q' es"
  by (simp add: refines_def same_shape_def)

lemma send_unchanged:
  "xQueueGenericSend_try pv ticks queueSEND_TO_BACK entry (k, q) = Some ((k', q'), r) \<Longrightarrow> r \<noteq> Moved \<Longrightarrow> q' = q"
  by (auto simp: xQueueGenericSend_try_def guard_bind_Some split: if_splits Option.bind_splits)

lemma take_unchanged:
  "xQueueSemaphoreTake_try ticks inherited entry (k, q) = Some ((k', q'), r) \<Longrightarrow> r \<noteq> Moved \<Longrightarrow> q' = q"
  by (auto simp: xQueueSemaphoreTake_try_def guard_bind_Some Let_def split: if_splits Option.bind_splits prod.splits)

lemma payload_None [simp]: "payload None q = []"
  by (simp add: payload_def item_bytes_def)

lemma give_recursive_refines:
  assumes inv: "queue_inv q" and run: "xQueueGiveMutexRecursive (k, q) = Some ((k', q'), b)"
  shows "refines q q' (if uxMessagesWaiting q' = uxMessagesWaiting q then [] else [Sent queueSEND_TO_BACK []])"
proof (cases "xMutexHolder q = pxCurrentTCB k \<and> uxRecursiveCallCount q - 1 = 0")
  case True
  let ?q = "q\<lparr>uxRecursiveCallCount := 0\<rparr>"
  obtain r where att: "xQueueGenericSend_try None 0 queueSEND_TO_BACK None (k, ?q) = Some ((k', q'), r)"
    using run True by (auto simp: xQueueGiveMutexRecursive_def Let_def split: Option.bind_splits)
  have "refines q q' [if r = Moved then Sent queueSEND_TO_BACK [] else FullSeen]"
    using send_refines[OF _ _ att] inv by (simp cong: if_cong)
  then show ?thesis
    using refines_count[of q q' queueSEND_TO_BACK "[]"] send_unchanged[OF att] inv by (cases "r = Moved") auto
next
  case False
  then have "q' = q \<or> (\<exists>c. q' = q\<lparr>uxRecursiveCallCount := c\<rparr>)"
    using run by (auto simp: xQueueGiveMutexRecursive_def Let_def split: if_splits)
  then show ?thesis using inv by auto
qed

lemma take_recursive_refines:
  assumes inv: "queue_inv q" and run: "xQueueTakeMutexRecursive_try ticks inherited entry (k, q) = Some ((k', q'), r)"
  shows "refines q q' (if r \<noteq> Moved then [EmptySeen]
    else if uxMessagesWaiting q' = uxMessagesWaiting q then [] else [Received []])"
proof (cases "xMutexHolder q = pxCurrentTCB k")
  case True
  then show ?thesis using run inv by (auto simp: xQueueTakeMutexRecursive_try_def)
next
  case False
  then obtain q1 where att: "xQueueSemaphoreTake_try ticks inherited entry (k, q) = Some ((k', q1), r)"
    and q1: "q' = (if r = Moved then q1\<lparr>uxRecursiveCallCount := uxRecursiveCallCount q1 + 1\<rparr> else q1)"
    using run by (auto simp: xQueueTakeMutexRecursive_try_def split: Option.bind_splits)
  then show ?thesis
    using take_refines[OF inv att] refines_count_received[of q q1 "[]"] by (auto split: if_splits)
qed

text \<open>The sections of the blocking calls do not move items.\<close>

lemma lock_refines: "queue_inv q \<Longrightarrow> refines q (prvLockQueue q) []"
  by (rule refines_silent) (auto simp: prvLockQueue_def)

lemma block_refines:
  assumes inv: "queue_inv q"
  shows "xQueueGenericSend_block tmo ticks (k, q) = Some ((k', q'), tmo', n, b) \<Longrightarrow>
      refines q q' (if b = Blocked then [FullSeen] else [])"
    "xQueueReceive_block tmo ticks (k, q) = Some ((k', q'), tmo', n, b) \<Longrightarrow>
      refines q q' (if b = Blocked then [EmptySeen] else [])"
    "xQueueSemaphoreTake_block tmo ticks inherited (k, q) = Some ((k', q'), tmo', n, b, h) \<Longrightarrow>
      refines q q' (if b = Blocked then [EmptySeen] else [])"
    "xQueueSemaphoreTake_expired inherited (k, q) = Some ((k', q'), up) \<Longrightarrow>
      refines q q' (if up then [EmptySeen] else [])"
  using inv refines_full[OF inv] refines_empty[OF inv]
  by (auto simp: xQueueGenericSend_block_def xQueueReceive_block_def xQueueSemaphoreTake_block_def
      xQueueSemaphoreTake_expired_def prvIsQueueFull_def prvIsQueueEmpty_def
      split: Option.bind_splits if_splits)

lemma unlock_refines:
  assumes inv: "queue_inv q"
  shows "prvUnlockQueue_tx (k, q) = Some (k', q') \<Longrightarrow> refines q q' []"
    "prvUnlockQueue_rx (k, q) = Some (k', q') \<Longrightarrow> refines q q' []"
    "queue_resume b (k, q) = Some (k', q') \<Longrightarrow> refines q q' []"
  using inv
  by (auto simp: prvUnlockQueue_tx_def prvUnlockQueue_rx_def queue_resume_def intro!: refines_locks
      split: Option.bind_splits)

lemma wait_restricted_refines:
  assumes inv: "queue_inv q" and run: "vQueueWaitForMessageRestricted ticks forever (k, q) = Some (k', q')"
  shows "refines q q' []"
proof -
  obtain k1 s where s: "prvUnlockQueue_tx (k1, prvLockQueue q) = Some s" "prvUnlockQueue_rx s = Some (k', q')"
    using run by (auto simp: vQueueWaitForMessageRestricted_def Let_def split: Option.bind_splits)
  obtain k2 q2 where [simp]: "s = (k2, q2)" by fastforce
  have lock: "refines q (prvLockQueue q) []" using inv by (rule lock_refines)
  then have "refines (prvLockQueue q) q2 []" using unlock_refines(1)[of "prvLockQueue q" k1 k2 q2] s(1) by (simp add: refines_def)
  moreover from this have "refines q2 q' []" using unlock_refines(2)[of q2 k2 k' q'] s(2)
    by (simp add: refines_def)
  ultimately show ?thesis using lock refines_trans by (metis append_Nil)
qed

lemma reset_refines:
  assumes inv: "queue_inv q" and run: "xQueueGenericReset new (k, q) = Some ((k', q'), ok)"
  shows "refines q q' (if ok then [Cleared] else [])"
proof (cases ok)
  case True
  note d = queue_invD[OF inv]
  let ?q = "q\<lparr>pcTail := int (uxLength q * uxItemSize q), uxMessagesWaiting := 0, pcWriteTo := 0,
    pcReadFrom := int ((uxLength q - 1) * uxItemSize q), cRxLock := queueUNLOCKED, cTxLock := queueUNLOCKED\<rparr>"
  have "q' = ?q" using run True
    by (auto simp: xQueueGenericReset_def Let_def split: if_splits Option.bind_splits)
  moreover have "ring_ok ?q (uxLength q - 1)" using d(6) by (simp add: ring_ok_def)
  then have "queue_inv ?q" using inv by (auto simp: queue_inv_def)
  moreover from this have "items ?q = []" by (simp add: items_None)
  ultimately show ?thesis using True by (simp add: refines_def same_shape_def)
next
  case False
  then show ?thesis using run inv
    by (auto simp: xQueueGenericReset_def Let_def split: if_splits Option.bind_splits)
qed

section \<open>Refinement\<close>

lemma step_refines:
  assumes inv: "queue_inv q" and ok: "allowed (uxItemSize q) a"
    and run: "queue_step a (k, q) = Some ((k', q'), es)"
  shows "refines q q' es"
proof (cases a)
  case (Send pv ticks pos entry)
  then obtain r where r: "xQueueGenericSend_try pv ticks pos entry (k, q) = Some ((k', q'), r)"
    "es = [if r = Moved then Sent pos (payload pv q) else FullSeen]"
    using run by (auto simp: bind_eq_Some_conv)
  then show ?thesis using send_refines[OF inv _ r(1)] ok Send by simp
next
  case (SendFromISR pv pos)
  then obtain r w where r: "xQueueGenericSendFromISR pv pos (k, q) = Some ((k', q'), r, w)"
    "es = [if r then Sent pos (payload pv q) else FullSeen]"
    using run by (auto simp: bind_eq_Some_conv)
  then show ?thesis using send_isr_refines[OF inv _ r(1)] ok SendFromISR by simp
next
  case GiveFromISR
  then obtain r w where r: "xQueueGiveFromISR (k, q) = Some ((k', q'), r, w)"
    "es = [if r then Sent queueSEND_TO_BACK [] else FullSeen]"
    using run by (auto simp: bind_eq_Some_conv)
  then show ?thesis using give_isr_refines[OF inv r(1)] by simp
next
  case (Receive buf ticks entry)
  then obtain r bs where r: "xQueueReceive_try buf ticks entry (k, q) = Some ((k', q'), r, bs)"
    "es = [if r = Moved then Received bs else EmptySeen]"
    using run by (auto simp: bind_eq_Some_conv)
  then show ?thesis using receive_refines(1)[OF inv r(1)] by simp
next
  case (Peek buf ticks entry)
  then obtain r bs where r: "xQueuePeek_try buf ticks entry (k, q) = Some ((k', q'), r, bs)"
    "es = [if r = Moved then Peeked bs else EmptySeen]"
    using run by (auto simp: bind_eq_Some_conv)
  then show ?thesis using receive_refines(2)[OF inv r(1)] by simp
next
  case (ReceiveFromISR buf)
  then obtain r w bs where r: "xQueueReceiveFromISR buf (k, q) = Some ((k', q'), r, w, bs)"
    "es = [if r then Received bs else EmptySeen]"
    using run by (auto simp: bind_eq_Some_conv)
  then show ?thesis using receive_refines(3)[OF inv r(1)] by simp
next
  case (PeekFromISR buf)
  then obtain r bs where r: "xQueuePeekFromISR buf q = Some (q', r, bs)"
    "es = [if r then Peeked bs else EmptySeen]"
    using run by (auto simp: bind_eq_Some_conv)
  then show ?thesis using receive_refines(4)[OF inv r(1)] by simp
next
  case (Take ticks inherited entry)
  then obtain r where r: "xQueueSemaphoreTake_try ticks inherited entry (k, q) = Some ((k', q'), r)"
    "es = [if r = Moved then Received [] else EmptySeen]"
    using run by (auto simp: bind_eq_Some_conv)
  then show ?thesis using take_refines[OF inv r(1)] by simp
next
  case GiveRecursive
  then obtain r where r: "xQueueGiveMutexRecursive (k, q) = Some ((k', q'), r)"
    "es = (if uxMessagesWaiting q' = uxMessagesWaiting q then [] else [Sent queueSEND_TO_BACK []])"
    using run by (auto simp: bind_eq_Some_conv)
  then show ?thesis using give_recursive_refines[OF inv r(1)] by simp
next
  case (TakeRecursive ticks inherited entry)
  then obtain r where r: "xQueueTakeMutexRecursive_try ticks inherited entry (k, q) = Some ((k', q'), r)"
    "es = (if r \<noteq> Moved then [EmptySeen]
           else if uxMessagesWaiting q' = uxMessagesWaiting q then [] else [Received []])"
    using run by (auto simp: bind_eq_Some_conv)
  then show ?thesis using take_recursive_refines[OF inv r(1)] by simp
next
  case Lock
  then show ?thesis using run lock_refines[OF inv] by (auto simp: queue_lock_def)
next
  case (WaitRestricted ticks forever)
  then show ?thesis using run wait_restricted_refines[OF inv] by (auto simp: bind_eq_Some_conv)
next
  case Clear
  then show ?thesis using run reset_refines[OF inv] by (auto simp: bind_eq_Some_conv)
next
  case (SendBlock tmo ticks)
  then show ?thesis using run block_refines(1)[OF inv] by (fastforce simp: bind_eq_Some_conv)
next
  case (ReceiveBlock tmo ticks)
  then show ?thesis using run block_refines(2)[OF inv] by (fastforce simp: bind_eq_Some_conv)
next
  case (TakeBlock tmo ticks inherited)
  then show ?thesis using run block_refines(3)[OF inv] by (fastforce simp: bind_eq_Some_conv)
next
  case (TakeExpired inherited)
  then show ?thesis using run block_refines(4)[OF inv] by (fastforce simp: bind_eq_Some_conv)
qed (use run unlock_refines[OF inv] in \<open>auto simp: bind_eq_Some_conv\<close>)

lemma run_refines:
  assumes "queue_inv q" "\<And>a. Inr a \<in> set ops \<Longrightarrow> allowed (uxItemSize q) a"
    "queue_run ops (k, q) = Some ((k', q'), es)"
  shows "refines q q' es"
  using assms
proof (induction ops arbitrary: k q es)
  case (Cons a ops)
  show ?case
  proof (cases a)
    case (Inl k1)
    then show ?thesis using Cons.IH[of q k1 es] Cons.prems by simp
  next
    case (Inr b)
    then obtain k1 q1 es1 es2 where step: "queue_step b (k, q) = Some ((k1, q1), es1)"
      "queue_run ops (k1, q1) = Some ((k', q'), es2)" "es = es1 @ es2"
      using Cons.prems(3) by (auto split: Option.bind_splits)
    have first: "refines q q1 es1" using step_refines[OF Cons.prems(1) _ step(1)] Cons.prems(2) Inr by simp
    then have "uxItemSize q1 = uxItemSize q" "queue_inv q1" by (simp_all add: refines_def same_shape_def)
    then have "refines q1 q' es2" using Cons.IH[OF _ _ step(2)] Cons.prems(2) by simp
    with first show ?thesis unfolding step(3) by (rule refines_trans)
  qed
qed simp

end
