(* ===== verification/QueueSafe.thy ===== *)
theory QueueSafe
  imports QueueSteps
begin

text \<open>
  Queues use the scheduler through its event lists only. What they rely on is a locale, in
  which the loops of \<open>queue.c\<close> are shown to wake the right tasks; the scheduler provides it. With
  it every step of a queue, made as its interface allows, returns and preserves the invariant
  of the kernel.
\<close>

section \<open>Event lists as the queues see them\<close>

text \<open>
  \<open>remove w\<close> takes the first task off the list \<open>w\<close> and leaves the other lists alone; the flag says
  whether that task should run at once, and \<open>missed\<close> records this for later.
\<close>

locale event_lists =
  fixes inv :: "'k \<Rightarrow> bool"
    and waiters :: "'k \<Rightarrow> nat \<Rightarrow> 't list"
    and remove :: "nat \<Rightarrow> 'k \<Rightarrow> ('k \<times> bool) option"
    and missed :: "'k \<Rightarrow> 'k"
  assumes remove_head: "inv k \<Longrightarrow> waiters k w = t # ts \<Longrightarrow>
      \<exists>k' b. remove w k = Some (k', b) \<and> inv k' \<and> waiters k' = (waiters k)(w := ts)"
    and missed_inv: "inv k \<Longrightarrow> inv (missed k)"
    and missed_waiters [simp]: "waiters (missed k) = waiters k"

text \<open>While the scheduler is suspended the tasks taken off a list are pending, in that order.\<close>

locale deferred_event_lists = event_lists +
  fixes pending :: "'k \<Rightarrow> 't list"
  assumes remove_pending: "inv k \<Longrightarrow> waiters k w = t # ts \<Longrightarrow> remove w k = Some (k', b) \<Longrightarrow>
      pending k' = pending k @ [t]"
    and missed_pending [simp]: "pending (missed k) = pending k"

text \<open>The loop that makes up for the wake-ups that were put off, at most \<open>n\<close> of them.\<close>

fun drain :: "('k \<Rightarrow> 't list) \<Rightarrow> ('k \<Rightarrow> ('k \<times> bool) option) \<Rightarrow> ('k \<Rightarrow> 'k) \<Rightarrow> nat \<Rightarrow> 'k \<Rightarrow> 'k option" where
  "drain waiters remove missed 0 k = Some k"
| "drain waiters remove missed (Suc n) k =
    (if waiters k = [] then Some k
     else Option.bind (remove k) (\<lambda>(k, y). drain waiters remove missed n (if y then missed k else k)))"

context event_lists
begin

lemma drain_ok:
  assumes "inv k"
  shows "\<exists>k'. drain (\<lambda>k. waiters k w) (remove w) missed n k = Some k' \<and> inv k' \<and>
    waiters k' = (waiters k)(w := drop n (waiters k w))"
  using assms
proof (induction n arbitrary: k)
  case (Suc n)
  show ?case
  proof (cases "waiters k w")
    case Nil
    then show ?thesis using Suc.prems by (simp add: fun_upd_idem)
  next
    case (Cons t ts)
    obtain k1 b where k1: "remove w k = Some (k1, b)" "inv k1" "waiters k1 = (waiters k)(w := ts)"
      using remove_head[OF Suc.prems Cons] by blast
    let ?k = "if b then missed k1 else k1"
    have inv: "inv ?k" and w: "waiters ?k = (waiters k)(w := ts)" using k1 missed_inv by simp_all
    obtain k' where k': "drain (\<lambda>k. waiters k w) (remove w) missed n ?k = Some k'" "inv k'"
      "waiters k' = (waiters ?k)(w := drop n (waiters ?k w))"
      using Suc.IH[OF inv] by blast
    have "waiters k' = (waiters k)(w := drop (Suc n) (waiters k w))" by (simp add: k'(3) w Cons)
    then show ?thesis using k1(1) k'(1,2) Cons by (auto simp: fun_eq_iff)
  qed
qed (simp add: fun_upd_idem)

lemma wake_first:
  assumes "inv k"
  shows "\<exists>k' b. (if waiters k w = [] then Some (k, False) else remove w k) = Some (k', b) \<and> inv k' \<and>
    waiters k' = (waiters k)(w := tl (waiters k w))"
  using remove_head[OF assms, of w] assms by (cases "waiters k w") (auto simp: fun_upd_idem)

end

context deferred_event_lists
begin

lemma drain_pending:
  assumes "inv k" "drain (\<lambda>k. waiters k w) (remove w) missed n k = Some k'"
  shows "pending k' = pending k @ take n (waiters k w)"
  using assms
proof (induction n arbitrary: k)
  case (Suc n)
  show ?case
  proof (cases "waiters k w")
    case Nil
    then show ?thesis using Suc.prems by simp
  next
    case (Cons t ts)
    obtain k1 b where k1: "remove w k = Some (k1, b)" "inv k1" "waiters k1 = (waiters k)(w := ts)"
      using remove_head[OF Suc.prems(1) Cons] by blast
    let ?k = "if b then missed k1 else k1"
    have "inv ?k" "waiters ?k = (waiters k)(w := ts)" "pending ?k = pending k @ [t]"
      using k1 missed_inv remove_pending[OF Suc.prems(1) Cons k1(1)] by simp_all
    with Suc.IH[of ?k] Suc.prems(2) k1(1) Cons show ?thesis by simp
  qed
qed simp

end

section \<open>The scheduler provides them\<close>

lemma make_ready_elist:
  assumes "make_ready t k = Some k'"
  shows "elist k' = elist k"
proof (cases "state_in (tcb k t)")
  case None
  then show ?thesis using assms by (simp add: make_ready_def state_remove_def)
next
  case (Some l)
  then show ?thesis using assms removed_simps(3)[OF Some]
    by (auto simp: make_ready_def state_remove_eq[OF Some])
qed

text \<open>The exact effect of taking a task off an event list.\<close>

lemma remove_event_lists:
  assumes inv: "kernel_inv idle k" and w: "elist k (WaitL w) = t # ts"
    and run: "xTaskRemoveFromEventList w k = Some (k', b)"
  shows "elist k' = (elist k)(WaitL w := ts, PendingReadyL :=
    (if uxSchedulerSuspended k = 0 then elist k PendingReadyL else elist k PendingReadyL @ [t]))"
proof -
  have t: "event_in (tcb k t) = Some (WaitL w)"
    using core_invD(1)[OF kernel_invD(1)[OF inv]] w unfolding lists_inv_def by (metis list.set_intros(1))
  have removed: "elist (event_remove t k) = (elist k)(WaitL w := ts)"
    using t w by (simp add: event_remove_elist)
  show ?thesis
  proof (cases "uxSchedulerSuspended k = 0")
    case True
    obtain k1 where k1: "make_ready t (event_remove t k) = Some k1" "elist k' = elist k1"
      using run w True by (auto simp: xTaskRemoveFromEventList_def Let_def bind_eq_Some_conv split: if_splits)
    show ?thesis using k1(2) make_ready_elist[OF k1(1)] removed True
      by (auto simp: fun_eq_iff)
  next
    case False
    have "elist k' = elist (event_append PendingReadyL t (event_remove t k))"
      using run w False by (auto simp: xTaskRemoveFromEventList_def Let_def bind_eq_Some_conv split: if_splits)
    then show ?thesis using removed False by (auto simp: fun_eq_iff)
  qed
qed

lemma remove_event_waiters:
  assumes inv: "kernel_inv idle k" and w: "elist k (WaitL w) = t # ts"
  shows "\<exists>k' b. xTaskRemoveFromEventList w k = Some (k', b) \<and> kernel_inv idle k' \<and>
    uxSchedulerSuspended k' = uxSchedulerSuspended k \<and>
    (\<lambda>v. elist k' (WaitL v)) = (\<lambda>v. elist k (WaitL v))(w := ts)"
proof -
  obtain k' b where k': "xTaskRemoveFromEventList w k = Some (k', b)" "kernel_inv idle k'"
    "uxSchedulerSuspended k' = uxSchedulerSuspended k"
    using inv_remove_event[OF assms] by blast
  moreover have "(\<lambda>v. elist k' (WaitL v)) = (\<lambda>v. elist k (WaitL v))(w := ts)"
    by (rule ext) (simp add: remove_event_lists[OF assms k'(1)])
  ultimately show ?thesis by blast
qed

interpretation ready_lists: event_lists "kernel_inv idle" "\<lambda>k w. elist k (WaitL w)"
    xTaskRemoveFromEventList vTaskMissedYield
  for idle
proof unfold_locales
  fix k w t ts
  assume "kernel_inv idle k" "elist k (WaitL w) = t # ts"
  then show "\<exists>k' b. xTaskRemoveFromEventList w k = Some (k', b) \<and> kernel_inv idle k' \<and>
      (\<lambda>w. elist k' (WaitL w)) = (\<lambda>w. elist k (WaitL w))(w := ts)"
    using remove_event_waiters[of idle k w t ts] by blast
qed (simp_all add: vTaskMissedYield_def)

interpretation suspended_lists: deferred_event_lists
    "\<lambda>k. kernel_inv idle k \<and> uxSchedulerSuspended k \<noteq> 0" "\<lambda>k w. elist k (WaitL w)"
    xTaskRemoveFromEventList vTaskMissedYield "\<lambda>k. elist k PendingReadyL"
  for idle
proof unfold_locales
  fix k w t ts
  assume inv: "kernel_inv idle k \<and> uxSchedulerSuspended k \<noteq> 0" and w: "elist k (WaitL w) = t # ts"
  then show "\<exists>k' b. xTaskRemoveFromEventList w k = Some (k', b) \<and>
      (kernel_inv idle k' \<and> uxSchedulerSuspended k' \<noteq> 0) \<and>
      (\<lambda>w. elist k' (WaitL w)) = (\<lambda>w. elist k (WaitL w))(w := ts)"
    using remove_event_waiters[of idle k w t ts] by fastforce
  show "elist k' PendingReadyL = elist k PendingReadyL @ [t]"
    if "xTaskRemoveFromEventList w k = Some (k', b)" for k' b
    using remove_event_lists[OF _ w that] inv by auto
qed (auto simp: vTaskMissedYield_def)

lemma unlock_loop_drain:
  "unlock_loop n w k = drain (\<lambda>k. elist k (WaitL w)) (xTaskRemoveFromEventList w) vTaskMissedYield n k"
proof (induction n arbitrary: k)
  case (Suc n)
  then show ?case by (cases "xTaskRemoveFromEventList w k") auto
qed simp

section \<open>Every step returns\<close>

text \<open>The mutex is given back by its holder, which is running and holds a mutex.\<close>

definition giver_ok :: "sys \<Rightarrow> bool" where
  "giver_ok s = (case s of (k, q) \<Rightarrow> is_mutex q \<longrightarrow>
    (case xMutexHolder q of None \<Rightarrow> True | Some h \<Rightarrow> running k h \<and> uxMutexesHeld (tcb k h) \<noteq> 0))"

text \<open>
  The time-out of a task that waited for a mutex and made its holder inherit: the holder, if there
  is one, still has the priority of this task and holds mutexes, and those that go on waiting
  have a priority in their event items.
\<close>

definition expired_ok :: "sys \<Rightarrow> bool" where
  "expired_ok s = (case s of (k, q) \<Rightarrow>
    (\<forall>t \<in> set (elist k (WaitL (xTasksWaitingToReceive q))). \<exists>p < 32. event_value (tcb k t) = item_value p) \<and>
    (case xMutexHolder q of None \<Rightarrow> True
     | Some h \<Rightarrow> \<exists>me. running k me \<and> h \<noteq> me \<and> uxMutexesHeld (tcb k h) \<noteq> 0 \<and>
         uxPriority (tcb k h) = uxPriority (tcb k me)))"

text \<open>
  When the interface allows a step: the rules in the comments of \<open>queue.h\<close> and \<open>semphr.h\<close>, and
  the assertions. Interrupts move fewer than 128 items while the queue is locked.
\<close>

fun may :: "tid \<Rightarrow> queue_op \<Rightarrow> sys \<Rightarrow> bool" where
  "may idle (Send pv ticks pos entry) s = (item_bytes pv (snd s) \<noteq> None \<and>
     (pos = queueOVERWRITE \<longrightarrow> uxLength (snd s) = 1 \<and> uxItemSize (snd s) \<noteq> 0) \<and>
     (uxSchedulerSuspended (fst s) \<noteq> 0 \<longrightarrow> ticks = 0) \<and> giver_ok s)"
| "may idle (SendFromISR pv pos) s = (item_bytes pv (snd s) \<noteq> None \<and>
     (pos = queueOVERWRITE \<longrightarrow> uxLength (snd s) = 1 \<and> uxItemSize (snd s) \<noteq> 0) \<and>
     \<not> is_mutex (snd s) \<and> cTxLock (snd s) \<noteq> queueINT8_MAX)"
| "may idle GiveFromISR s = (uxItemSize (snd s) = 0 \<and> \<not> is_mutex (snd s) \<and> cTxLock (snd s) \<noteq> queueINT8_MAX)"
| "may idle (Receive buf ticks entry) s = (buffer_ok buf (snd s) \<and>
     (uxSchedulerSuspended (fst s) \<noteq> 0 \<longrightarrow> ticks = 0))"
| "may idle (ReceiveFromISR buf) s = (buffer_ok buf (snd s) \<and> cRxLock (snd s) \<noteq> queueINT8_MAX)"
| "may idle (Peek buf ticks entry) s = (buffer_ok buf (snd s) \<and>
     (uxSchedulerSuspended (fst s) \<noteq> 0 \<longrightarrow> ticks = 0))"
| "may idle (PeekFromISR buf) s = (buffer_ok buf (snd s) \<and> uxItemSize (snd s) \<noteq> 0)"
| "may idle (Take ticks inherited entry) s = (uxItemSize (snd s) = 0 \<and>
     (uxSchedulerSuspended (fst s) \<noteq> 0 \<longrightarrow> ticks = 0) \<and> (ticks = 0 \<longrightarrow> \<not> inherited))"
| "may idle GiveRecursive s = (uxItemSize (snd s) = 0 \<and> giver_ok s)"
| "may idle (TakeRecursive ticks inherited entry) s = (uxItemSize (snd s) = 0 \<and>
     (uxSchedulerSuspended (fst s) \<noteq> 0 \<longrightarrow> ticks = 0) \<and> (ticks = 0 \<longrightarrow> \<not> inherited))"
| "may idle Lock s = (\<exists>me. running (fst s) me)"
| "may idle (SendBlock tmo ticks) s = (\<exists>me. running (fst s) me \<and> me \<noteq> idle)"
| "may idle (ReceiveBlock tmo ticks) s = (\<exists>me. running (fst s) me \<and> me \<noteq> idle)"
| "may idle (TakeBlock tmo ticks inherited) s = (\<exists>me. running (fst s) me \<and> me \<noteq> idle)"
| "may idle (TakeExpired inherited) s = (inherited \<longrightarrow> expired_ok s)"
| "may idle UnlockTx s = True"
| "may idle UnlockRx s = True"
| "may idle (Resume b) s = (uxSchedulerSuspended (fst s) \<noteq> 0)"
| "may idle (WaitRestricted ticks forever) s =
     ((\<exists>me. running (fst s) me \<and> me \<noteq> idle) \<and> (ticks \<noteq> 0 \<or> forever))"
| "may idle Clear s = True"

text \<open>The parts of the steps that touch the kernel.\<close>

lemma wake_one_ok:
  assumes "kernel_inv idle k"
  shows "\<exists>k' b. wake_one w k = Some (k', b) \<and> kernel_inv idle k'"
  using ready_lists.wake_first[OF assms, of w] by (auto simp: wake_one_def)

lemma unlock_loop_ok:
  assumes "kernel_inv idle k"
  shows "\<exists>k'. unlock_loop n w k = Some k' \<and> kernel_inv idle k'"
  using ready_lists.drain_ok[OF assms] by (fastforce simp: unlock_loop_drain)

lemma yield_if_inv [simp]: "kernel_inv idle (yield_if b k) = kernel_inv idle k"
  by (simp add: yield_if_def)

lemma isr_added_ok:
  assumes "kernel_inv idle k" "c \<noteq> queueINT8_MAX"
  shows "\<exists>k' q' b. isr_added c (k, q) = Some ((k', q'), b) \<and> kernel_inv idle k'"
  using wake_one_ok[OF assms(1), of "xTasksWaitingToReceive q"] assms
  by (auto simp: isr_added_def raise_lock_def)

text \<open>Moving data never accesses memory outside the storage area.\<close>

lemma copy_to_returns:
  assumes inv: "kernel_inv idle k" and q: "queue_inv q" and bytes: "item_bytes pv q \<noteq> None"
    and room: "uxMessagesWaiting q < uxLength q \<or> pos = queueOVERWRITE"
    and over: "pos = queueOVERWRITE \<Longrightarrow> uxLength q = 1 \<and> uxItemSize q \<noteq> 0" and giver: "giver_ok (k, q)"
  shows "\<exists>k' q' b. prvCopyDataToQueue pv pos (k, q) = Some ((k', q'), b) \<and> kernel_inv idle k'"
proof (cases "uxItemSize q = 0")
  case True
  show ?thesis
  proof (cases "is_mutex q \<and> xMutexHolder q \<noteq> None")
    case mutex: True
    then obtain h where "xMutexHolder q = Some h" "running k h" "uxMutexesHeld (tcb k h) \<noteq> 0"
      using giver by (auto simp: giver_ok_def)
    then show ?thesis using inv_disinherit[OF inv, of h] True mutex by (auto simp: prvCopyDataToQueue_def)
  next
    case False
    then show ?thesis using True inv by (auto simp: prvCopyDataToQueue_def xTaskPriorityDisinherit_def)
  qed
next
  case False
  obtain bs where bs: "item_bytes pv q = Some bs" using bytes by blast
  have front: "pos = queueSEND_TO_FRONT \<Longrightarrow> uxMessagesWaiting q < uxLength q" using room by auto
  show ?thesis
  proof (cases "pos = queueSEND_TO_BACK")
    case True
    then show ?thesis using copy_back[OF q False _ bs, of k] room inv by (metis copy_position.distinct(3))
  next
    case not_back: False
    show ?thesis by (rule copy_front[OF q False not_back front _ bs, of k]) (use over inv in auto)
  qed
qed

lemma item_bytes_null: "item_bytes pv q \<noteq> None \<Longrightarrow> \<not> (pv = None \<and> uxItemSize q \<noteq> 0)"
  by (cases pv) (auto simp: item_bytes_def split: if_splits)

lemma copy_from_returns:
  "queue_inv q \<Longrightarrow> uxMessagesWaiting q > 0 \<Longrightarrow> \<exists>q1 bs. prvCopyDataFromQueue q = Some (q1, bs)"
  using copy_from by blast

lemma send_returns:
  assumes inv: "kernel_inv idle k" and q: "queue_inv q" and may: "may idle (Send pv ticks pos entry) (k, q)"
  shows "\<exists>k' q' r. xQueueGenericSend_try pv ticks pos entry (k, q) = Some ((k', q'), r) \<and> kernel_inv idle k'"
proof (cases "uxMessagesWaiting q < uxLength q \<or> pos = queueOVERWRITE")
  case True
  have "\<not> (pv = None \<and> uxItemSize q \<noteq> 0)" using may item_bytes_null[of pv q] by simp
  moreover obtain k1 q1 y where copy: "prvCopyDataToQueue pv pos (k, q) = Some ((k1, q1), y)" "kernel_inv idle k1"
    using copy_to_returns[OF inv q _ True, of pv] may by auto
  moreover have "\<exists>k2 b. xTaskRemoveFromEventList (xTasksWaitingToReceive q1) k1 = Some (k2, b) \<and> kernel_inv idle k2"
    if "elist k1 (WaitL (xTasksWaitingToReceive q1)) \<noteq> []"
    using wake_one_ok[OF copy(2), of "xTasksWaitingToReceive q1"] that by (simp add: wake_one_def)
  ultimately show ?thesis using may True by (auto simp: xQueueGenericSend_try_def)
next
  case False
  have "\<not> (pv = None \<and> uxItemSize q \<noteq> 0)" using may item_bytes_null[of pv q] by simp
  then show ?thesis using False may inv by (auto simp: xQueueGenericSend_try_def)
qed

lemma isr_returns:
  assumes inv: "kernel_inv idle k" and q: "queue_inv q"
  shows "may idle (SendFromISR pv pos) (k, q) \<Longrightarrow>
      \<exists>k' q' r w. xQueueGenericSendFromISR pv pos (k, q) = Some ((k', q'), r, w) \<and> kernel_inv idle k'"
    "may idle GiveFromISR (k, q) \<Longrightarrow>
      \<exists>k' q' r w. xQueueGiveFromISR (k, q) = Some ((k', q'), r, w) \<and> kernel_inv idle k'"
    "may idle (ReceiveFromISR buf) (k, q) \<Longrightarrow>
      \<exists>k' q' r w bs. xQueueReceiveFromISR buf (k, q) = Some ((k', q'), r, w, bs) \<and> kernel_inv idle k'"
proof -
  assume may: "may idle (SendFromISR pv pos) (k, q)"
  have "\<not> (pv = None \<and> uxItemSize q \<noteq> 0)" using may item_bytes_null[of pv q] by simp
  moreover have "pos = queueOVERWRITE \<longrightarrow> uxLength q = 1" using may by simp
  ultimately have guards: "guard (\<not> (pv = None \<and> uxItemSize q \<noteq> 0)) = Some ()"
    "guard (\<not> (pos = queueOVERWRITE \<and> uxLength q \<noteq> 1)) = Some ()" by simp_all
  show "\<exists>k' q' r w. xQueueGenericSendFromISR pv pos (k, q) = Some ((k', q'), r, w) \<and> kernel_inv idle k'"
  proof (cases "uxMessagesWaiting q < uxLength q \<or> pos = queueOVERWRITE")
    case room: True
    obtain k1 q1 y where copy: "prvCopyDataToQueue pv pos (k, q) = Some ((k1, q1), y)" "kernel_inv idle k1"
      using copy_to_returns[OF inv q _ room, of pv] may by (auto simp: giver_ok_def)
    obtain k2 q2 w where added: "isr_added (cTxLock q) (k1, q1) = Some ((k2, q2), w)" "kernel_inv idle k2"
      using isr_added_ok[OF copy(2), of "cTxLock q" q1] may by auto
    then show ?thesis using room copy(1) guards by (auto simp: xQueueGenericSendFromISR_def)
  next
    case False
    then have "xQueueGenericSendFromISR pv pos (k, q) = Some ((k, q), False, False)"
      using guards by (simp add: xQueueGenericSendFromISR_def)
    then show ?thesis using inv by blast
  qed
next
  assume may: "may idle GiveFromISR (k, q)"
  then show "\<exists>k' q' r w. xQueueGiveFromISR (k, q) = Some ((k', q'), r, w) \<and> kernel_inv idle k'"
    using isr_added_ok[OF inv, of "cTxLock q" "q\<lparr>uxMessagesWaiting := uxMessagesWaiting q + 1\<rparr>"] inv
    by (auto simp: xQueueGiveFromISR_def)
next
  assume may: "may idle (ReceiveFromISR buf) (k, q)"
  show "\<exists>k' q' r w bs. xQueueReceiveFromISR buf (k, q) = Some ((k', q'), r, w, bs) \<and> kernel_inv idle k'"
  proof (cases "uxMessagesWaiting q > 0")
    case True
    then obtain q1 bs where "prvCopyDataFromQueue q = Some (q1, bs)" using copy_from_returns[OF q] by blast
    then show ?thesis using True may inv wake_one_ok[OF inv, of "xTasksWaitingToSend q1"]
      by (auto simp: xQueueReceiveFromISR_def Let_def raise_lock_def)
  next
    case False
    then have "xQueueReceiveFromISR buf (k, q) = Some ((k, q), False, False, [])"
      using may by (simp add: xQueueReceiveFromISR_def)
    then show ?thesis using inv by blast
  qed
qed

lemma receive_returns:
  assumes inv: "kernel_inv idle k" and q: "queue_inv q"
    and may: "buffer_ok buf q" "uxSchedulerSuspended k \<noteq> 0 \<longrightarrow> ticks = 0"
  shows "\<exists>k' q' r bs. xQueueReceive_try buf ticks entry (k, q) = Some ((k', q'), r, bs) \<and> kernel_inv idle k'"
    "\<exists>k' q' r bs. xQueuePeek_try buf ticks entry (k, q) = Some ((k', q'), r, bs) \<and> kernel_inv idle k'"
proof -
  have "(\<exists>k' q' r bs. xQueueReceive_try buf ticks entry (k, q) = Some ((k', q'), r, bs) \<and> kernel_inv idle k') \<and>
    (\<exists>k' q' r bs. xQueuePeek_try buf ticks entry (k, q) = Some ((k', q'), r, bs) \<and> kernel_inv idle k')"
  proof (cases "uxMessagesWaiting q > 0")
    case True
    obtain q1 bs where q1: "prvCopyDataFromQueue q = Some (q1, bs)" using copy_from_returns[OF q True] by blast
    obtain k1 b1 where k1: "wake_one (xTasksWaitingToSend q1) k = Some (k1, b1)" "kernel_inv idle k1"
      using wake_one_ok[OF inv] by blast
    obtain k2 b2 where k2: "wake_one (xTasksWaitingToReceive q1) k = Some (k2, b2)" "kernel_inv idle k2"
      using wake_one_ok[OF inv] by blast
    show ?thesis using True q1 k1 k2 may
      by (auto simp: xQueueReceive_try_def xQueuePeek_try_def Let_def guard_bind_Some)
  next
    case False
    then show ?thesis using may inv
      by (auto simp: xQueueReceive_try_def xQueuePeek_try_def guard_bind_Some)
  qed
  then show "\<exists>k' q' r bs. xQueueReceive_try buf ticks entry (k, q) = Some ((k', q'), r, bs) \<and> kernel_inv idle k'"
    "\<exists>k' q' r bs. xQueuePeek_try buf ticks entry (k, q) = Some ((k', q'), r, bs) \<and> kernel_inv idle k'"
    by blast+
qed

lemma take_returns:
  assumes inv: "kernel_inv idle k" and may: "may idle (Take ticks inherited entry) (k, q)"
  shows "\<exists>k' q' r. xQueueSemaphoreTake_try ticks inherited entry (k, q) = Some ((k', q'), r) \<and> kernel_inv idle k'"
proof (cases "uxMessagesWaiting q > 0")
  case True
  obtain k1 h where k1: "pvTaskIncrementMutexHeldCount k = (k1, h)" "kernel_inv idle k1"
    using inv_mutex_count[OF inv] by (cases "pvTaskIncrementMutexHeldCount k") simp
  show ?thesis
    using True may k1(1) wake_one_ok[OF k1(2), of "xTasksWaitingToSend q"] wake_one_ok[OF inv, of "xTasksWaitingToSend q"]
    by (cases "is_mutex q") (auto simp: xQueueSemaphoreTake_try_def Let_def)
next
  case False
  then show ?thesis using may inv by (auto simp: xQueueSemaphoreTake_try_def)
qed

text \<open>Without time-out the check leaves the kernel and a non-zero number of ticks.\<close>

lemma check_time_out_waits:
  assumes "xTaskCheckForTimeOut tmo ticks k = Some (k', tmo', n, False)"
  shows "k' = k" "n \<noteq> 0"
  using assms
  by (auto simp: xTaskCheckForTimeOut_def Let_def bind_eq_Some_conv word_less_nat_alt split: if_splits)

lemma state_remove_other:
  assumes "state_remove t k = Some (k1, n)"
  shows "pxCurrentTCB k1 = pxCurrentTCB k" "u \<noteq> t \<Longrightarrow> tcb k1 u = tcb k u"
proof -
  obtain l where l: "state_in (tcb k t) = Some l" using assms by (cases "state_in (tcb k t)") (auto simp: state_remove_def)
  then have "k1 = removed t k" using assms by (simp add: state_remove_eq)
  then show "pxCurrentTCB k1 = pxCurrentTCB k" "u \<noteq> t \<Longrightarrow> tcb k1 u = tcb k u"
    using removed_simps[OF l] by (simp_all add: same_rest_def)
qed

lemma requeue_other:
  assumes "requeue t reset new k = Some k1"
  shows "pxCurrentTCB k1 = pxCurrentTCB k" "u \<noteq> t \<Longrightarrow> tcb k1 u = tcb k u"
proof -
  obtain k0 n where k0: "state_remove t k = Some (k0, n)"
    "k1 = prvAddTaskToReadyList t (upd_tcb t (uxPriority_update (\<lambda>_. new)) (if n = 0 then reset_top reset k0 else k0))"
    using assms by (auto simp: requeue_def bind_eq_Some_conv Let_def)
  show "pxCurrentTCB k1 = pxCurrentTCB k" "u \<noteq> t \<Longrightarrow> tcb k1 u = tcb k u"
    using state_remove_other[OF k0(1)] by (simp_all add: k0(2))
qed

lemma inherit_running:
  assumes run: "running k me" and inherit: "xTaskPriorityInherit holder k = Some (k', b)"
  shows "running k' me"
proof -
  have me: "pxCurrentTCB k = Some me" using run by (simp add: running_def)
  have "k' = k \<or> (\<exists>h. h \<noteq> me \<and> pxCurrentTCB k' = pxCurrentTCB k \<and> tcb k' me = tcb k me)"
  proof (cases holder)
    case None
    then show ?thesis using inherit by (simp add: xTaskPriorityInherit_def)
  next
    case (Some h)
    show ?thesis
    proof (cases "uxPriority (tcb k h) < uxPriority (tcb k me)")
      case True
      then have "h \<noteq> me" by auto
      let ?p = "uxPriority (tcb k me)"
      let ?k = "set_event_priority h ?p k"
      have "requeue h (uxPriority (tcb ?k h)) ?p ?k = Some k' \<or> k' = upd_tcb h (uxPriority_update (\<lambda>_. ?p)) ?k"
        using inherit Some me True by (auto simp: xTaskPriorityInherit_def Let_def bind_eq_Some_conv split: if_splits)
      then show ?thesis
        using requeue_other(1)[of h _ ?p ?k k'] requeue_other(2)[of h _ ?p ?k k' me] \<open>h \<noteq> me\<close>
        by (auto simp: set_event_priority_eq)
    next
      case False
      then show ?thesis using inherit Some me by (auto simp: xTaskPriorityInherit_def Let_def)
    qed
  qed
  then show ?thesis using run by (auto simp: running_def)
qed

text \<open>Blocking, after the check for the time-out.\<close>

lemma block_returns:
  assumes inv: "kernel_inv idle k" and me: "running k me" "me \<noteq> idle"
  shows "\<exists>k' q' t n b. xQueueGenericSend_block tmo ticks (k, q) = Some ((k', q'), t, n, b) \<and> kernel_inv idle k'"
    "\<exists>k' q' t n b. xQueueReceive_block tmo ticks (k, q) = Some ((k', q'), t, n, b) \<and> kernel_inv idle k'"
    "\<exists>k' q' t n b h. xQueueSemaphoreTake_block tmo ticks inherited (k, q) = Some ((k', q'), t, n, b, h) \<and>
      kernel_inv idle k'"
proof -
  obtain k1 tmo1 n up where check: "xTaskCheckForTimeOut tmo ticks k = Some (k1, tmo1, n, up)" "kernel_inv idle k1"
    using inv_check_time_out[OF inv] by blast
  have wait: "k1 = k" "n \<noteq> 0" if "\<not> up" using check_time_out_waits[of tmo ticks k k1 tmo1 n] check(1) that by simp_all
  have place: "\<exists>k'. vTaskPlaceOnEventList w n k = Some k' \<and> kernel_inv idle k'" if "\<not> up" for w
    using inv_place_on(1)[OF inv me wait(2)[OF that]] .
  show "\<exists>k' q' t n b. xQueueGenericSend_block tmo ticks (k, q) = Some ((k', q'), t, n, b) \<and> kernel_inv idle k'"
    using check wait(1) place[of "xTasksWaitingToSend q"]
    by (cases up; cases "prvIsQueueFull q") (auto simp: xQueueGenericSend_block_def)
  show "\<exists>k' q' t n b. xQueueReceive_block tmo ticks (k, q) = Some ((k', q'), t, n, b) \<and> kernel_inv idle k'"
    using check wait(1) place[of "xTasksWaitingToReceive q"]
    by (cases up; cases "prvIsQueueEmpty q") (auto simp: xQueueReceive_block_def)
  show "\<exists>k' q' t n b h. xQueueSemaphoreTake_block tmo ticks inherited (k, q) = Some ((k', q'), t, n, b, h) \<and>
      kernel_inv idle k'"
  proof (cases "\<not> up \<and> prvIsQueueEmpty q \<and> is_mutex q")
    case True
    obtain k2 h where k2: "xTaskPriorityInherit (xMutexHolder q) k = Some (k2, h)" "kernel_inv idle k2"
    proof (cases "xMutexHolder q")
      case None
      then show ?thesis using that[of k False] inv by (simp add: xTaskPriorityInherit_def)
    next
      case (Some h)
      then show ?thesis using that inv_inherit[OF inv, of h] by auto
    qed
    have "\<exists>k'. vTaskPlaceOnEventList (xTasksWaitingToReceive q) n k2 = Some k' \<and> kernel_inv idle k'"
      using inv_place_on(1)[OF k2(2) inherit_running[OF me(1) k2(1)] me(2)] wait(2) True by blast
    then show ?thesis using True check wait(1) k2(1) by (auto simp: xQueueSemaphoreTake_block_def)
  next
    case False
    then show ?thesis using check wait(1) place[of "xTasksWaitingToReceive q"]
      by (cases up; cases "prvIsQueueEmpty q") (auto simp: xQueueSemaphoreTake_block_def)
  qed
qed

lemma disinherit_priority_less:
  assumes "expired_ok (k, q)"
  shows "prvGetDisinheritPriorityAfterTimeout (k, q) < 32"
proof (cases "elist k (WaitL (xTasksWaitingToReceive q))")
  case Nil
  then show ?thesis by (simp add: prvGetDisinheritPriorityAfterTimeout_def)
next
  case (Cons t ts)
  then obtain p where p: "p < 32" "event_value (tcb k t) = item_value p" using assms by (auto simp: expired_ok_def)
  have "of_nat 32 - item_value p = (of_nat p :: 32 word)" by (simp add: item_value_def)
  then have "prvGetDisinheritPriorityAfterTimeout (k, q) = unat (of_nat p :: 32 word)"
    using Cons p(2) by (simp add: prvGetDisinheritPriorityAfterTimeout_def)
  then show ?thesis using p(1) by (simp add: unat_of_nat)
qed

lemma expired_returns:
  assumes inv: "kernel_inv idle k" and may: "inherited \<longrightarrow> expired_ok (k, q)"
  shows "\<exists>k' q' b. xQueueSemaphoreTake_expired inherited (k, q) = Some ((k', q'), b) \<and> kernel_inv idle k'"
proof (cases "inherited \<and> prvIsQueueEmpty q")
  case True
  have less: "prvGetDisinheritPriorityAfterTimeout (k, q) < 32" using disinherit_priority_less may True by simp
  have "\<exists>k'. vTaskPriorityDisinheritAfterTimeout (xMutexHolder q) (prvGetDisinheritPriorityAfterTimeout (k, q)) k =
      Some k' \<and> kernel_inv idle k'"
  proof (cases "xMutexHolder q")
    case None
    then show ?thesis using inv by (simp add: vTaskPriorityDisinheritAfterTimeout_def)
  next
    case (Some h)
    obtain me where "running k me" "h \<noteq> me" "uxMutexesHeld (tcb k h) \<noteq> 0"
      "uxPriority (tcb k h) = uxPriority (tcb k me)"
      using may True Some by (auto simp: expired_ok_def)
    then show ?thesis using inv_disinherit_after[OF inv _ less] Some by simp
  qed
  then show ?thesis using True by (auto simp: xQueueSemaphoreTake_expired_def)
next
  case False
  then show ?thesis using inv by (auto simp: xQueueSemaphoreTake_expired_def)
qed

lemma recursive_returns:
  assumes inv: "kernel_inv idle k" and q: "queue_inv q"
  shows "may idle GiveRecursive (k, q) \<Longrightarrow>
      \<exists>k' q' b. xQueueGiveMutexRecursive (k, q) = Some ((k', q'), b) \<and> kernel_inv idle k'"
    "may idle (TakeRecursive ticks inherited entry) (k, q) \<Longrightarrow>
      \<exists>k' q' r. xQueueTakeMutexRecursive_try ticks inherited entry (k, q) = Some ((k', q'), r) \<and> kernel_inv idle k'"
proof -
  assume may: "may idle GiveRecursive (k, q)"
  let ?q = "q\<lparr>uxRecursiveCallCount := 0\<rparr>"
  have "may idle (Send None 0 queueSEND_TO_BACK None) (k, ?q)"
    using may by (simp add: item_bytes_def giver_ok_def)
  then obtain k1 q1 r where "xQueueGenericSend_try None 0 queueSEND_TO_BACK None (k, ?q) = Some ((k1, q1), r)"
    "kernel_inv idle k1"
    using send_returns[OF inv, of ?q] q by fastforce
  then show "\<exists>k' q' b. xQueueGiveMutexRecursive (k, q) = Some ((k', q'), b) \<and> kernel_inv idle k'"
    using inv by (cases "uxRecursiveCallCount q - 1 = 0") (auto simp: xQueueGiveMutexRecursive_def Let_def)
next
  assume may: "may idle (TakeRecursive ticks inherited entry) (k, q)"
  then obtain k1 q1 r where "xQueueSemaphoreTake_try ticks inherited entry (k, q) = Some ((k1, q1), r)" "kernel_inv idle k1"
    using take_returns[OF inv, of ticks inherited entry q] by auto
  then show "\<exists>k' q' r. xQueueTakeMutexRecursive_try ticks inherited entry (k, q) = Some ((k', q'), r) \<and> kernel_inv idle k'"
    using inv by (auto simp: xQueueTakeMutexRecursive_try_def)
qed

lemma unlock_returns:
  assumes inv: "kernel_inv idle k"
  shows "\<exists>k' q'. prvUnlockQueue_tx (k, q) = Some (k', q') \<and> kernel_inv idle k'"
    "\<exists>k' q'. prvUnlockQueue_rx (k, q) = Some (k', q') \<and> kernel_inv idle k'"
    "uxSchedulerSuspended k \<noteq> 0 \<Longrightarrow> \<exists>k' q'. queue_resume b (k, q) = Some (k', q') \<and> kernel_inv idle k'"
  using unlock_loop_ok[OF inv, of "nat (cTxLock q)" "xTasksWaitingToReceive q"]
    unlock_loop_ok[OF inv, of "nat (cRxLock q)" "xTasksWaitingToSend q"] inv_resume_all[OF inv]
  by (auto simp: prvUnlockQueue_tx_def prvUnlockQueue_rx_def queue_resume_def)

lemma wait_restricted_returns:
  assumes inv: "kernel_inv idle k" and me: "running k me" "me \<noteq> idle" and ticks: "ticks \<noteq> 0 \<or> forever"
  shows "\<exists>k' q'. vQueueWaitForMessageRestricted ticks forever (k, q) = Some (k', q') \<and> kernel_inv idle k'"
proof -
  let ?q = "prvLockQueue q"
  obtain k1 where k1: "(if uxMessagesWaiting ?q = 0
      then vTaskPlaceOnEventListRestricted (xTasksWaitingToReceive ?q) ticks forever k else Some k) = Some k1"
    "kernel_inv idle k1"
    using inv_place_on(3)[OF inv me ticks, of "xTasksWaitingToReceive ?q"] inv
    by (cases "uxMessagesWaiting ?q = 0") auto
  obtain k2 q2 where k2: "prvUnlockQueue_tx (k1, ?q) = Some (k2, q2)" "kernel_inv idle k2"
    using unlock_returns(1)[OF k1(2)] by blast
  obtain k3 q3 where k3: "prvUnlockQueue_rx (k2, q2) = Some (k3, q3)" "kernel_inv idle k3"
    using unlock_returns(2)[OF k2(2)] by blast
  show ?thesis using k1(1) k2(1) k3
    by (simp add: vQueueWaitForMessageRestricted_def Let_def)
qed

lemma reset_returns:
  assumes inv: "kernel_inv idle k"
  shows "\<exists>k' q' b. xQueueGenericReset False (k, q) = Some ((k', q'), b) \<and> kernel_inv idle k'"
  using wake_one_ok[OF inv, of "xTasksWaitingToSend q"] inv
  by (auto simp: xQueueGenericReset_def Let_def)

lemma step_returns:
  assumes inv: "kernel_inv idle k" and q: "queue_inv q" and may: "may idle a (k, q)"
  shows "\<exists>k' q' es. queue_step a (k, q) = Some ((k', q'), es) \<and> kernel_inv idle k'"
proof (cases a)
  case (Send pv ticks pos entry)
  then show ?thesis using send_returns[OF inv q, of pv ticks pos entry] may by fastforce
next
  case (SendFromISR pv pos)
  then show ?thesis using isr_returns(1)[OF inv q, of pv pos] may by fastforce
next
  case GiveFromISR
  then show ?thesis using isr_returns(2)[OF inv q] may by fastforce
next
  case (Receive buf ticks entry)
  then show ?thesis using receive_returns(1)[OF inv q, of buf ticks entry] may by fastforce
next
  case (ReceiveFromISR buf)
  then show ?thesis using isr_returns(3)[OF inv q, of buf] may by fastforce
next
  case (Peek buf ticks entry)
  then show ?thesis using receive_returns(2)[OF inv q, of buf ticks entry] may by fastforce
next
  case (PeekFromISR buf)
  have "\<exists>r. xQueuePeekFromISR buf q = Some r"
    using copy_from_returns[OF q] may PeekFromISR
    by (cases "uxMessagesWaiting q > 0") (auto simp: xQueuePeekFromISR_def)
  then show ?thesis using PeekFromISR inv by fastforce
next
  case (Take ticks inherited entry)
  then show ?thesis using take_returns[OF inv, of ticks inherited entry q] may by fastforce
next
  case GiveRecursive
  then show ?thesis using recursive_returns(1)[OF inv q] may by fastforce
next
  case (TakeRecursive ticks inherited entry)
  then show ?thesis using recursive_returns(2)[OF inv q, of ticks inherited entry] may by fastforce
next
  case Lock
  then show ?thesis using inv_suspend_all[OF inv] may by (auto simp: queue_lock_def)
next
  case (SendBlock tmo ticks)
  then show ?thesis using block_returns(1)[OF inv, of _ tmo ticks q] may by fastforce
next
  case (ReceiveBlock tmo ticks)
  then show ?thesis using block_returns(2)[OF inv, of _ tmo ticks q] may by fastforce
next
  case (TakeBlock tmo ticks inherited)
  then show ?thesis using block_returns(3)[OF inv, of _ tmo ticks inherited q] may by fastforce
next
  case (TakeExpired inherited)
  then show ?thesis using expired_returns[OF inv, of inherited q] may by fastforce
next
  case UnlockTx
  then show ?thesis using unlock_returns(1)[OF inv, of q] by fastforce
next
  case UnlockRx
  then show ?thesis using unlock_returns(2)[OF inv, of q] by fastforce
next
  case (Resume b)
  then show ?thesis using unlock_returns(3)[OF inv, of b q] may by fastforce
next
  case (WaitRestricted ticks forever)
  then show ?thesis using wait_restricted_returns[OF inv, of _ ticks forever q] may by fastforce
next
  case Clear
  then show ?thesis using reset_returns[OF inv, of q] by fastforce
qed

lemma may_allowed: "may idle a (k, q) \<Longrightarrow> allowed (uxItemSize q) a"
  by (cases a) auto

section \<open>Creating queues\<close>

lemma new_queue_reset:
  assumes len: "len > 0" "SIZE_MAX div len \<ge> sz" and mem: "length mem = len * sz"
    and empty: "elist k (WaitL ws) = []" "elist k (WaitL wr) = []"
  shows "\<exists>q. prvInitialiseNewQueue len sz ws wr mem k = Some (k, q) \<and> queue_inv q \<and> items q = [] \<and>
    uxLength q = len \<and> uxItemSize q = sz \<and> \<not> is_mutex q \<and> xMutexHolder q = None \<and>
    xTasksWaitingToSend q = ws \<and> xTasksWaitingToReceive q = wr"
proof -
  let ?q = "(new_queue len sz ws wr mem)\<lparr>pcTail := int (len * sz), uxMessagesWaiting := 0, pcWriteTo := 0,
    pcReadFrom := int ((len - 1) * sz), cRxLock := queueUNLOCKED, cTxLock := queueUNLOCKED\<rparr>"
  have "k\<lparr>elist := (elist k)(WaitL ws := [], WaitL wr := [])\<rparr> = k"
    using empty by (cases k) (simp add: fun_eq_iff)
  then have run: "prvInitialiseNewQueue len sz ws wr mem k = Some (k, ?q)"
    using len by (simp add: prvInitialiseNewQueue_def xQueueGenericReset_def new_queue_def Let_def)
  have "ring_ok ?q (len - 1)" using len(1) by (simp add: ring_ok_def new_queue_def)
  then have "queue_inv ?q" using mem by (auto simp: queue_inv_def new_queue_def)
  then show ?thesis using run by (simp add: items_None new_queue_def)
qed

text \<open>
  A queue is created with an empty storage area, a counting semaphore with its initial count, a
  mutex with its one item; the new lists are in no use.
\<close>

definition area_ok :: "nat \<Rightarrow> nat \<Rightarrow> 8 word list option \<Rightarrow> bool" where
  "area_ok len sz mem = (case mem of None \<Rightarrow> True | Some m \<Rightarrow> length m = len * sz)"

lemma create_ok:
  assumes run: "xQueueGenericCreate queue_t len sz mem ws wr k = Some (Some (k', q))"
    and mem: "area_ok len sz mem" and empty: "elist k (WaitL ws) = []" "elist k (WaitL wr) = []"
  shows "k' = k" "queue_inv q" "items q = []" "uxLength q = len" "uxItemSize q = sz" "\<not> is_mutex q"
    "xMutexHolder q = None" "xTasksWaitingToReceive q = wr"
proof -
  obtain m where m: "mem = Some m" "len > 0" "SIZE_MAX div len \<ge> sz"
    "prvInitialiseNewQueue len sz ws wr m k = Some (k', q)"
    using run by (auto simp: xQueueGenericCreate_def split: if_splits option.splits)
  from new_queue_reset[OF m(2,3) _ empty, of m] m(4) mem m(1)
  show "k' = k" "queue_inv q" "items q = []" "uxLength q = len" "uxItemSize q = sz" "\<not> is_mutex q"
    "xMutexHolder q = None" "xTasksWaitingToReceive q = wr"
    by (auto simp: area_ok_def)
qed

lemma create_counting_ok:
  assumes run: "xQueueCreateCountingSemaphore queue_t most initial alloc ws wr k = Some (Some (k', q))"
    and empty: "elist k (WaitL ws) = []" "elist k (WaitL wr) = []"
  shows "k' = k" "queue_inv q" "items q = replicate initial []"
proof -
  obtain q0 where q0: "xQueueGenericCreate queue_t most 0 (if alloc then Some [] else None) ws wr k = Some (Some (k', q0))"
    "q = q0\<lparr>uxMessagesWaiting := initial\<rparr>" "initial \<le> most"
    using run by (auto simp: xQueueCreateCountingSemaphore_def bind_eq_Some_conv split: if_splits option.splits)
  have mem: "area_ok most 0 (if alloc then Some [] else None)" by (simp add: area_ok_def)
  note c = create_ok[OF q0(1) mem empty]
  show "k' = k" by (rule c(1))
  show "queue_inv q" "items q = replicate initial []"
    using count_items(1,2)[OF c(2,5), of initial] q0(2,3) c(4) by simp_all
qed

lemma create_mutex_ok:
  assumes run: "xQueueCreateMutex queue_t alloc ws wr k = Some (Some (k', q))"
    and empty: "elist k (WaitL ws) = []" "elist k (WaitL wr) = []"
  shows "k' = k" "queue_inv q" "items q = [[]]" "is_mutex q" "xMutexHolder q = None"
proof -
  obtain k0 q0 where q0: "xQueueGenericCreate queue_t 1 0 (if alloc then Some [] else None) ws wr k = Some (Some (k0, q0))"
    "prvInitialiseMutex (k0, q0) = Some (k', q)"
    using run by (auto simp: xQueueCreateMutex_def bind_eq_Some_conv split: option.splits)
  have mem: "area_ok 1 0 (if alloc then Some [] else None)" by (simp add: area_ok_def)
  note c = create_ok[OF q0(1) mem empty]
  let ?q = "q0\<lparr>xMutexHolder := None, is_mutex := True, uxRecursiveCallCount := 0\<rparr>"
  have inv: "queue_inv ?q" using c(2,4,5) by (auto simp: queue_inv_def ring_ok_def)
  have none: "elist k (WaitL (xTasksWaitingToReceive q0)) = []" using c(8) empty(2) by simp
  have zero: "uxMessagesWaiting ?q = 0" using c(3) items_None[of q0] by simp
  have eq: "xQueueGenericSend_try None 0 queueSEND_TO_BACK None (k0, ?q) =
      Some ((k, ?q\<lparr>uxMessagesWaiting := 1\<rparr>), Moved)"
    using c zero none
    by (simp add: xQueueGenericSend_try_def prvCopyDataToQueue_def xTaskPriorityDisinherit_def yield_if_def)
  then have "k' = k" "q = ?q\<lparr>uxMessagesWaiting := 1\<rparr>" using q0(2) by (simp_all add: prvInitialiseMutex_def)
  moreover have "queue_inv (?q\<lparr>uxMessagesWaiting := 1\<rparr>)" "items (?q\<lparr>uxMessagesWaiting := 1\<rparr>) = [[]]"
    using count_items(1,2)[OF inv, of 1] c(4,5) by simp_all
  ultimately show "k' = k" "queue_inv q" "items q = [[]]" "is_mutex q" "xMutexHolder q = None" by simp_all
qed

section \<open>Reachable states\<close>

text \<open>A queue in a running system: it is created, and the scheduler and the queue take steps.\<close>

inductive queue_reachable :: "tid \<Rightarrow> sys \<Rightarrow> bool" for idle where
  create: "reachable idle k \<Longrightarrow> elist k (WaitL ws) = [] \<Longrightarrow> elist k (WaitL wr) = [] \<Longrightarrow> area_ok len sz mem \<Longrightarrow>
    xQueueGenericCreate queue_t len sz mem ws wr k = Some (Some s) \<Longrightarrow> queue_reachable idle s"
| create_counting: "reachable idle k \<Longrightarrow> elist k (WaitL ws) = [] \<Longrightarrow> elist k (WaitL wr) = [] \<Longrightarrow>
    xQueueCreateCountingSemaphore queue_t most initial alloc ws wr k = Some (Some s) \<Longrightarrow> queue_reachable idle s"
| create_mutex: "reachable idle k \<Longrightarrow> elist k (WaitL ws) = [] \<Longrightarrow> elist k (WaitL wr) = [] \<Longrightarrow>
    xQueueCreateMutex queue_t alloc ws wr k = Some (Some s) \<Longrightarrow> queue_reachable idle s"
| kernel: "queue_reachable idle (k, q) \<Longrightarrow> call idle k (Some k') \<Longrightarrow> queue_reachable idle (k', q)"
| step: "queue_reachable idle s \<Longrightarrow> may idle a s \<Longrightarrow> queue_step a s = Some (s', es) \<Longrightarrow> queue_reachable idle s'"

lemma queue_reachable_inv: "queue_reachable idle s \<Longrightarrow> kernel_inv idle (fst s) \<and> queue_inv (snd s)"
proof (induction rule: queue_reachable.induct)
  case (create k ws wr len sz mem queue_t s)
  then show ?case using create_ok[of queue_t len sz mem ws wr k "fst s" "snd s"] reachable_inv by auto
next
  case (create_counting k ws wr queue_t most initial alloc s)
  then show ?case using create_counting_ok[of queue_t most initial alloc ws wr k "fst s" "snd s"] reachable_inv by auto
next
  case (create_mutex k ws wr queue_t alloc s)
  then show ?case using create_mutex_ok[of queue_t alloc ws wr k "fst s" "snd s"] reachable_inv by auto
next
  case (kernel k q k')
  then show ?case using call_ok[OF kernel.hyps(2)] by auto
next
  case (step s a s' es)
  obtain k q k' q' where s: "s = (k, q)" "s' = (k', q')" by fastforce
  have inv: "kernel_inv idle k" "queue_inv q" using step.IH s by simp_all
  have "kernel_inv idle k'" using step_returns[OF inv, of a] step.hyps(2,3) s by auto
  moreover have "refines q q' es" using step_refines[OF inv(2) may_allowed] step.hyps(2,3) s by blast
  ultimately show ?case using s by (simp add: refines_def)
qed

end
