(* ===== verification/TaskProps.thy ===== *)
theory TaskProps
  imports TaskReach
begin

text \<open>
  What the scheduler promises: no assertion fails in any reachable state, the running task is a
  ready task of the highest priority and tasks of equal priority take turns, a delay ends
  with the tick that it names, time-outs are exact across the overflow of the tick count, and
  a mutex holder has the priority of the tasks it blocks.
\<close>

section \<open>The invariant\<close>


lemma boot_current: "map_option pxCurrentTCB (boot [(1, 5), (2, 5)] 0) = Some (Some 2)"
  by code_simp

lemma boot_example:
  "\<exists>k. boot [(1, 5), (2, 5)] 0 = Some k \<and> reachable 0 k \<and> running k 2 \<and> uxSchedulerSuspended k = 0"
  using reachable_boot[of "[(1, 5), (2, 5)]" 0] boot_current by (auto simp: running_def)


section \<open>The context switch\<close>

fun switches :: "nat \<Rightarrow> kernel \<Rightarrow> kernel option" where
  "switches 0 k = Some k"
| "switches (Suc n) k = do { k \<leftarrow> switches n k; take_sw_int (yield k) }"

text \<open>The position of the list index, as the position before the first item when it is at the end.\<close>

definition index_pos :: "tid option \<Rightarrow> tid list \<Rightarrow> nat" where
  "index_pos i xs = (case i of None \<Rightarrow> length xs - 1 | Some x \<Rightarrow> length (takeWhile (\<lambda>y. y \<noteq> x) xs))"

lemma index_pos_nth:
  assumes "distinct xs" "j < length xs"
  shows "index_pos (Some (xs ! j)) xs = j"
proof -
  have "takeWhile (\<lambda>y. y \<noteq> xs ! j) xs = take j xs"
    using assms by (intro takeWhile_eq_take_P_nth) (auto simp: nth_eq_iff_index_eq)
  with assms(2) show ?thesis by (simp add: index_pos_def)
qed

lemma next_in_pos:
  assumes "xs \<noteq> []" "\<And>x. i = Some x \<Longrightarrow> x \<in> set xs"
  shows "next_in i xs = xs ! (Suc (index_pos i xs) mod length xs)"
proof (cases i)
  case None
  then show ?thesis using assms(1) by (simp add: next_in_def index_pos_def hd_conv_nth)
next
  case (Some x)
  let ?j = "length (takeWhile (\<lambda>y. y \<noteq> x) xs)"
  have j: "?j < length xs"
  proof -
    have "takeWhile (\<lambda>y. y \<noteq> x) xs \<noteq> xs" using assms(2)[OF Some] by (metis (full_types) takeWhile_eq_all_conv)
    then show ?thesis using length_takeWhile_le[of "\<lambda>y. y \<noteq> x" xs] takeWhile_eq_take[of "\<lambda>y. y \<noteq> x" xs]
      by (metis le_neq_implies_less order_refl take_all)
  qed
  have drop: "tl (dropWhile (\<lambda>y. y \<noteq> x) xs) = drop (Suc ?j) xs"
    by (simp add: dropWhile_eq_drop drop_Suc tl_drop)
  show ?thesis
  proof (cases "Suc ?j < length xs")
    case True
    then have "drop (Suc ?j) xs = xs ! Suc ?j # drop (Suc (Suc ?j)) xs" by (rule Cons_nth_drop_Suc[symmetric])
    with drop True Some show ?thesis by (simp add: next_in_def index_pos_def)
  next
    case False
    then have "Suc ?j = length xs" using j by simp
    then show ?thesis using drop Some assms(1) by (simp add: next_in_def index_pos_def hd_conv_nth)
  qed
qed

text \<open>One switch, in terms of the list of the highest priority.\<close>

lemma switch_highest:
  assumes inv: "kernel_inv idle k" and susp: "uxSchedulerSuspended k = 0"
    and u: "state_in (tcb k u) = Some (ReadyL q)" and max: "\<And>v r. state_in (tcb k v) = Some (ReadyL r) \<Longrightarrow> r \<le> q"
  shows "\<exists>k'. take_sw_int (yield k) = Some k' \<and> kernel_inv idle k' \<and> tcb k' = tcb k \<and> slist k' = slist k \<and>
    uxSchedulerSuspended k' = 0 \<and> pxCurrentTCB k' = Some (next_in (rindex k q) (slist k (ReadyL q))) \<and>
    rindex k' q = pxCurrentTCB k'"
proof -
  let ?k = "k\<lparr>sw_int := False\<rparr>"
  have p: "state_in (tcb ?k u) = Some (ReadyL q)" using u by simp
  obtain k' p where k': "vTaskSwitchContext ?k = Some k'" "core_inv {} k'"
    "pxCurrentTCB k' = Some (next_in (rindex ?k p) (slist ?k (ReadyL p)))"
    "next_in (rindex ?k p) (slist ?k (ReadyL p)) \<in> set (slist ?k (ReadyL p))"
    "\<forall>u r. state_in (tcb ?k u) = Some (ReadyL r) \<longrightarrow> r \<le> p"
    "k' = ?k\<lparr>xYieldPending := False, rindex := (rindex ?k)(p := pxCurrentTCB k'),
             pxCurrentTCB := pxCurrentTCB k'\<rparr>"
    using switch_ok[OF _ p] kernel_invD(1)[OF inv] susp by auto
  have "state_in (tcb k (next_in (rindex k p) (slist k (ReadyL p)))) = Some (ReadyL p)"
    using k'(4) lists_inv_mem[OF core_invD(1)[OF kernel_invD(1)[OF inv]]] by simp
  then have "p = q" using max k'(5) u by (simp add: order_antisym)
  moreover have "tcb k' = tcb k" "slist k' = slist k" "uxSchedulerSuspended k' = uxSchedulerSuspended k"
    "rindex k' p = pxCurrentTCB k'"
    by (subst k'(6), simp)+
  moreover have "take_sw_int (yield k) = Some k'" using k'(1) by (simp add: take_sw_int_def yield_def)
  moreover have "kernel_inv idle k'" using inv_switch[of idle "yield k"] inv \<open>take_sw_int _ = _\<close> by simp
  ultimately show ?thesis using k'(3) susp by simp
qed

text \<open>Property C9: a context switch with the scheduler running selects a task of the list of the
  highest priority that has a ready task, and successive switches take the tasks of this list in
  turn, beginning after the task that ran last: none is starved by tasks of its own priority.\<close>

theorem context_switch_round_robin:
  assumes "reachable idle k" "uxSchedulerSuspended k = 0"
    and "ready (tcb k u)" and "\<And>v. ready (tcb k v) \<Longrightarrow> uxPriority (tcb k v) \<le> uxPriority (tcb k u)"
  defines "xs \<equiv> slist k (ReadyL (uxPriority (tcb k u)))"
  shows "\<exists>k'. switches (Suc n) k = Some k' \<and> tcb k' = tcb k \<and>
    set xs = {v. ready (tcb k v) \<and> uxPriority (tcb k v) = uxPriority (tcb k u)} \<and>
    pxCurrentTCB k' = Some (xs ! ((Suc (index_pos (rindex k (uxPriority (tcb k u))) xs) + n) mod length xs))"
proof -
  let ?q = "uxPriority (tcb k u)"
  note inv = reachable_inv[OF assms(1)]
  note lists = core_invD(1)[OF kernel_invD(1)[OF inv]]
  have q: "state_in (tcb k u) = Some (ReadyL ?q)" by (rule ready_list[OF inv assms(3)])
  have max: "r \<le> ?q" if "state_in (tcb k v) = Some (ReadyL r)" for v r
    using assms(4)[of v] that core_invD(2)[OF kernel_invD(1)[OF inv]] by (auto simp: ready_def prio_inv_def)
  have mem: "v \<in> set xs \<longleftrightarrow> state_in (tcb k v) = Some (ReadyL ?q)" for v
    unfolding xs_def by (rule lists_inv_mem[OF lists])
  have "u \<in> set xs" "distinct xs" using mem[of u] q lists by (simp_all add: xs_def lists_inv_def)
  then have xs: "xs \<noteq> []" "distinct xs" by auto
  have set_xs: "set xs = {v. ready (tcb k v) \<and> uxPriority (tcb k v) = ?q}"
    using mem ready_list[OF inv] core_invD(2)[OF kernel_invD(1)[OF inv]]
    by (auto simp: ready_def prio_inv_def)
  have index: "x \<in> set xs" if "rindex k ?q = Some x" for x
    using lists that unfolding lists_inv_def xs_def by blast
  let ?i = "Suc (index_pos (rindex k ?q) xs)"
  have run: "\<exists>k'. switches (Suc n) k = Some k' \<and> kernel_inv idle k' \<and> tcb k' = tcb k \<and> slist k' = slist k \<and>
      uxSchedulerSuspended k' = 0 \<and> rindex k' ?q = Some (xs ! ((?i + n) mod length xs)) \<and>
      pxCurrentTCB k' = Some (xs ! ((?i + n) mod length xs))" for n
  proof (induction n)
    case 0
    obtain k' where "take_sw_int (yield k) = Some k'" "kernel_inv idle k'" "tcb k' = tcb k" "slist k' = slist k"
      "uxSchedulerSuspended k' = 0" "pxCurrentTCB k' = Some (next_in (rindex k ?q) xs)"
      "rindex k' ?q = pxCurrentTCB k'"
      using switch_highest[OF inv assms(2) q] max unfolding xs_def by blast
    then show ?case using next_in_pos[OF xs(1), of "rindex k ?q"] index by simp
  next
    case (Suc n)
    then obtain k1 where k1: "switches (Suc n) k = Some k1" "kernel_inv idle k1" "tcb k1 = tcb k"
      "slist k1 = slist k" "uxSchedulerSuspended k1 = 0"
      "rindex k1 ?q = Some (xs ! ((?i + n) mod length xs))" by blast
    have less: "(?i + n) mod length xs < length xs" using xs(1) by simp
    have "next_in (rindex k1 ?q) xs = xs ! (Suc ((?i + n) mod length xs) mod length xs)"
      unfolding k1(6) using next_in_pos[OF xs(1), of "Some (xs ! ((?i + n) mod length xs))"]
        index_pos_nth[OF xs(2) less] less by simp
    also have "Suc ((?i + n) mod length xs) mod length xs = (?i + Suc n) mod length xs"
      by (simp add: mod_Suc_eq)
    finally have nxt: "next_in (rindex k1 ?q) (slist k1 (ReadyL ?q)) = xs ! ((?i + Suc n) mod length xs)"
      by (simp add: k1(4) xs_def)
    have "\<And>v r. state_in (tcb k1 v) = Some (ReadyL r) \<Longrightarrow> r \<le> ?q" "state_in (tcb k1 u) = Some (ReadyL ?q)"
      using max q by (simp_all add: k1(3))
    then obtain k' where "take_sw_int (yield k1) = Some k'" "kernel_inv idle k'" "tcb k' = tcb k1"
      "slist k' = slist k1" "uxSchedulerSuspended k' = 0"
      "pxCurrentTCB k' = Some (next_in (rindex k1 ?q) (slist k1 (ReadyL ?q)))" "rindex k' ?q = pxCurrentTCB k'"
      using switch_highest[OF k1(2,5)] by blast
    then show ?case using k1(1,3,4) nxt by simp
  qed
  show ?thesis using run[of n] set_xs by blast
qed

theorem context_switch_round_robin_witness:
  "\<exists>k k'. boot [(1, 5), (2, 5)] 0 = Some k \<and> switches 3 k = Some k' \<and> tcb k' = tcb k"
proof -
  obtain k where k: "boot [(1, 5), (2, 5)] 0 = Some k" "reachable 0 k" "running k 2" "uxSchedulerSuspended k = 0"
    using boot_example by blast
  let ?S = "{v. ready (tcb k v)}" and ?f = "\<lambda>v. uxPriority (tcb k v)"
  have fin: "finite ?S"
    using kernel_invD(5)[OF reachable_inv[OF k(2)]] by (rule rev_finite_subset) (auto simp: ready_def)
  have "2 \<in> ?S" using k(3) by (simp add: running_def)
  then have "Max (?f ` ?S) \<in> ?f ` ?S" using fin by (intro Max_in) auto
  then obtain u where "ready (tcb k u)" "?f u = Max (?f ` ?S)" by auto
  then have u: "ready (tcb k u)" "\<And>v. ready (tcb k v) \<Longrightarrow> ?f v \<le> ?f u" using fin by auto
  from context_switch_round_robin[OF k(2,4) u, of 2] k(1) show ?thesis
    by (auto simp: numeral_3_eq_3 numeral_2_eq_2)
qed

section \<open>Delays\<close>

text \<open>What happens while a task is delayed: ticks, context switches, and sections in which the
  running task suspends the scheduler, nested as they may be.\<close>

datatype event = Tick | Switch | SuspendAll | ResumeAll

fun play :: "event list \<Rightarrow> kernel \<Rightarrow> kernel option" where
  "play [] k = Some k"
| "play (Tick # es) k = do { k \<leftarrow> tick_interrupt k; play es k }"
| "play (Switch # es) k = do { k \<leftarrow> take_sw_int k; play es k }"
| "play (SuspendAll # es) k = play es (vTaskSuspendAll k)"
| "play (ResumeAll # es) k = do { (k, _) \<leftarrow> xTaskResumeAll k; play es k }"

fun nested :: "nat \<Rightarrow> event list \<Rightarrow> bool" where
  "nested d [] = (d = 0)"
| "nested d (SuspendAll # es) = nested (Suc d) es"
| "nested d (ResumeAll # es) = (d > 0 \<and> nested (d - 1) es)"
| "nested d (_ # es) = nested d es"

definition count_ticks :: "event list \<Rightarrow> nat" where
  "count_ticks es = length (filter (\<lambda>e. e = Tick) es)"

definition sleep_inv :: "tid \<Rightarrow> tid \<Rightarrow> nat \<Rightarrow> nat \<Rightarrow> kernel \<Rightarrow> bool" where
  "sleep_inv idle t n c k \<longleftrightarrow> core_inv {} k \<and> (\<exists>me. pxCurrentTCB k = Some me) \<and>
    0 < uxCurrentNumberOfTasks k \<and> ready (tcb k idle) \<and>
    (\<forall>u. event_in (tcb k u) = Some PendingReadyL \<longrightarrow> live k u) \<and>
    (uxSchedulerSuspended k = 0 \<longrightarrow> xPendedTicks k = 0) \<and> event_in (tcb k t) = None \<and>
    (if delayed k t then ticks_left k t + c = n + xPendedTicks k
     else ready (tcb k t) \<and> n + xPendedTicks k \<le> c)"

lemma ticks_left_add:
  assumes "tcb k' t = tcb k t" "xTickCount k' = xTickCount k + of_nat n" "n < ticks_left k t"
  shows "ticks_left k' t = ticks_left k t - n"
proof -
  let ?d = "state_value (tcb k t) - xTickCount k"
  have "unat ?d < 2 ^ LENGTH(32)" by (rule unsigned_less)
  then have "n < 2 ^ 32" using assms(3) by (simp add: ticks_left_def)
  then have n: "unat (of_nat n :: tick) = n" by (simp add: unat_of_nat)
  have "(of_nat n :: tick) \<le> ?d" using assms(3) n by (simp add: word_le_nat_alt ticks_left_def)
  then have "unat (?d - of_nat n) = unat ?d - n" using n by (simp add: unat_sub)
  then show ?thesis using assms(1,2) by (simp add: ticks_left_def diff_diff_eq)
qed

lemma sleep_inv_same:
  assumes "sleep_inv idle t n c k" "core_inv {} k'" "tcb k' = tcb k" "pxCurrentTCB k' \<noteq> None"
    "uxCurrentNumberOfTasks k' = uxCurrentNumberOfTasks k" "xTickCount k' = xTickCount k"
    "xPendedTicks k' = xPendedTicks k" "uxSchedulerSuspended k' = 0 \<Longrightarrow> uxSchedulerSuspended k = 0"
  shows "sleep_inv idle t n c k'"
  using assms by (auto simp: sleep_inv_def live_def delayed_def ticks_left_def)

lemma sleep_tick:
  assumes s: "sleep_inv idle t n c k"
  shows "\<exists>k'. tick_interrupt k = Some k' \<and> sleep_inv idle t n (Suc c) k' \<and>
    uxSchedulerSuspended k' = uxSchedulerSuspended k"
proof (cases "uxSchedulerSuspended k = 0")
  case False
  then show ?thesis using s
    unfolding tick_interrupt_def xTaskIncrementTick_def sleep_inv_def live_def delayed_def ticks_left_def
    by simp
next
  case True
  note s' = s[unfolded sleep_inv_def]
  obtain me where me: "pxCurrentTCB k = Some me" using s' by blast
  obtain k' b where k': "xTaskIncrementTick k = Some (k', b)" "core_inv {} k'" "xTickCount k' = xTickCount k + 1"
    "\<forall>t. tcb k' t = (if due k t then woken (tcb k t) else tcb k t)" "same_main k k'"
    "uxSchedulerSuspended k' = 0" "xPendedTicks k' = xPendedTicks k"
    using tick_ok[OF _ me True] s' by blast
  have "live k' u" if "event_in (tcb k' u) = Some PendingReadyL" for u
    using that s' k'(4) by (auto simp: live_def split: if_splits)
  moreover have "event_in (tcb k' t) = None" "ready (tcb k' idle)" using s' k'(4) by auto
  moreover have "if delayed k' t then ticks_left k' t + Suc c = n + xPendedTicks k'
     else ready (tcb k' t) \<and> n + xPendedTicks k' \<le> Suc c"
  proof (cases "delayed k t")
    case delayed: True
    note left = delayed_left[OF conjunct1[OF s'] delayed]
    show ?thesis
    proof (cases "ticks_left k t = 1")
      case one: True
      then have "tcb k' t = woken (tcb k t)" using k'(4) due_left[of k t] delayed by simp
      then show ?thesis using s' delayed one k'(7) by (auto simp: delayed_def)
    next
      case False
      then have same: "tcb k' t = tcb k t" using k'(4) due_left[of k t] by simp
      then have "delayed k' t" using delayed by (simp add: delayed_def)
      moreover have "ticks_left k' t = ticks_left k t - 1" by (rule ticks_left_Suc[OF same k'(3) left])
      ultimately show ?thesis using s' delayed left k'(7) by auto
    qed
  next
    case False
    then have "tcb k' t = tcb k t" using k'(4) due_left[of k t] by simp
    then show ?thesis using False s' k'(7) by (simp add: delayed_def)
  qed
  ultimately have "sleep_inv idle t n (Suc c) k'"
    using s' k'(2,6,7) same_mainD[OF k'(5)] True by (simp add: sleep_inv_def)
  then have "sleep_inv idle t n (Suc c) (if b then yield k' else k')"
    using sleep_inv_same[of idle t n "Suc c" k' "yield k'"] k'(2,5) me
    by (auto simp: yield_def same_main_def)
  then show ?thesis using k'(1,6) True by (auto simp: tick_interrupt_def yield_def)
qed

lemma sleep_switch:
  assumes s: "sleep_inv idle t n c k"
  shows "\<exists>k'. take_sw_int k = Some k' \<and> sleep_inv idle t n c k' \<and>
    uxSchedulerSuspended k' = uxSchedulerSuspended k"
proof (cases "uxSchedulerSuspended k = 0")
  case False
  have "sleep_inv idle t n c (k\<lparr>sw_int := False, xYieldPending := True\<rparr>)"
    by (rule sleep_inv_same[OF s]) (use s in \<open>auto simp: sleep_inv_def\<close>)
  with False show ?thesis by (simp add: take_sw_int_def vTaskSwitchContext_def)
next
  case True
  let ?k = "k\<lparr>sw_int := False\<rparr>"
  obtain p where p: "state_in (tcb ?k idle) = Some (ReadyL p)" using s by (auto simp: sleep_inv_def ready_def)
  have core: "core_inv {} ?k" using s by (simp add: sleep_inv_def)
  obtain k' q where k': "vTaskSwitchContext ?k = Some k'" "core_inv {} k'"
    "pxCurrentTCB k' = Some (next_in (rindex ?k q) (slist ?k (ReadyL q)))"
    "k' = ?k\<lparr>xYieldPending := False, rindex := (rindex ?k)(q := pxCurrentTCB k'),
             pxCurrentTCB := pxCurrentTCB k'\<rparr>"
    using switch_ok[OF core p] True by auto
  have "tcb k' = tcb k" "uxCurrentNumberOfTasks k' = uxCurrentNumberOfTasks k" "xTickCount k' = xTickCount k"
    "xPendedTicks k' = xPendedTicks k" "uxSchedulerSuspended k' = uxSchedulerSuspended k"
    by (subst k'(4), simp)+
  then show ?thesis using sleep_inv_same[OF s k'(2)] k'(1,3) by (simp add: take_sw_int_def)
qed

lemma sleep_resume:
  assumes s: "sleep_inv idle t n c k" and susp: "uxSchedulerSuspended k \<noteq> 0"
  shows "\<exists>k' b. xTaskResumeAll k = Some (k', b) \<and> sleep_inv idle t n c k' \<and>
    uxSchedulerSuspended k' = uxSchedulerSuspended k - 1"
proof -
  note s' = s[unfolded sleep_inv_def]
  obtain me where me: "pxCurrentTCB k = Some me" using s' by blast
  have start: "core_inv {} k" "0 < uxCurrentNumberOfTasks k"
    "\<And>u. event_in (tcb k u) = Some PendingReadyL \<Longrightarrow> live k u" using s' by blast+
  obtain k' b where k': "xTaskResumeAll k = Some (k', b)" "core_inv {} k'" "same_main k k'" "wakes k k'"
    "uxSchedulerSuspended k' = uxSchedulerSuspended k - 1"
    "if uxSchedulerSuspended k = 1
     then xTickCount k' = xTickCount k + of_nat (xPendedTicks k) \<and> xPendedTicks k' = 0 \<and>
       (\<forall>t. tcb k' t = (if event_in (tcb k t) = Some PendingReadyL \<or>
                           delayed k t \<and> ticks_left k t \<le> xPendedTicks k
                        then woken (tcb k t) else tcb k t))
     else xTickCount k' = xTickCount k \<and> xPendedTicks k' = xPendedTicks k \<and> tcb k' = tcb k"
    by (rule resume_all_ok[OF start(1) susp me start(2), THEN exE], erule start(3), elim exE conjE, rule that)
  have "sleep_inv idle t n c k'"
  proof (cases "uxSchedulerSuspended k = 1")
    case False
    then have "xTickCount k' = xTickCount k" "xPendedTicks k' = xPendedTicks k" "tcb k' = tcb k"
      "uxSchedulerSuspended k' \<noteq> 0" using k'(5,6) susp by simp_all
    then show ?thesis
      using sleep_inv_same[OF s k'(2)] same_mainD(1,3)[OF k'(3)] me by simp
  next
    case True
    have t: "tcb k' u = (if event_in (tcb k u) = Some PendingReadyL \<or>
        delayed k u \<and> ticks_left k u \<le> xPendedTicks k then woken (tcb k u) else tcb k u)"
      and tick: "xTickCount k' = xTickCount k + of_nat (xPendedTicks k)" "xPendedTicks k' = 0" for u
      using k'(6) True by simp_all
    have "if delayed k' t then ticks_left k' t + c = n + xPendedTicks k'
       else ready (tcb k' t) \<and> n + xPendedTicks k' \<le> c"
    proof (cases "delayed k t \<and> ticks_left k t \<le> xPendedTicks k")
      case woken: True
      then have "tcb k' t = woken (tcb k t)" using t[of t] by simp
      then show ?thesis using woken s' tick(2) by (auto simp: delayed_def)
    next
      case False
      then have same: "tcb k' t = tcb k t" using t[of t] s' by auto
      then have "delayed k' t = delayed k t" by (simp add: delayed_def)
      moreover have "ticks_left k' t = ticks_left k t - xPendedTicks k" if "delayed k t"
        using ticks_left_add[OF same tick(1)] False that by simp
      ultimately show ?thesis using False s' tick(2) same by auto
    qed
    moreover have "event_in (tcb k' t) = None" "ready (tcb k' idle)" using t s' by auto
    moreover have "event_in (tcb k' u) \<noteq> Some PendingReadyL" for u using t[of u] by simp
    ultimately show ?thesis
      using s' k'(2) tick(2) same_mainD[OF k'(3)] by (simp add: sleep_inv_def)
  qed
  with k' show ?thesis by blast
qed

lemma sleep_play:
  assumes "sleep_inv idle t n c k" "nested (uxSchedulerSuspended k) es"
  shows "\<exists>k'. play es k = Some k' \<and> sleep_inv idle t n (c + count_ticks es) k' \<and> uxSchedulerSuspended k' = 0"
  using assms
proof (induction es arbitrary: c k)
  case Nil
  then show ?case by (simp add: count_ticks_def)
next
  case (Cons e es)
  show ?case
  proof (cases e)
    case Tick
    obtain k1 where k1: "tick_interrupt k = Some k1" "sleep_inv idle t n (Suc c) k1"
      "uxSchedulerSuspended k1 = uxSchedulerSuspended k" using sleep_tick[OF Cons.prems(1)] by blast
    show ?thesis using Cons.IH[OF k1(2)] Cons.prems(2) k1(1,3) Tick by (simp add: count_ticks_def)
  next
    case Switch
    obtain k1 where k1: "take_sw_int k = Some k1" "sleep_inv idle t n c k1"
      "uxSchedulerSuspended k1 = uxSchedulerSuspended k" using sleep_switch[OF Cons.prems(1)] by blast
    show ?thesis using Cons.IH[OF k1(2)] Cons.prems(2) k1(1,3) Switch by (simp add: count_ticks_def)
  next
    case SuspendAll
    have "sleep_inv idle t n c (vTaskSuspendAll k)"
      by (rule sleep_inv_same[OF Cons.prems(1)])
        (use Cons.prems(1) in \<open>auto simp: sleep_inv_def vTaskSuspendAll_def\<close>)
    from Cons.IH[OF this] Cons.prems(2) SuspendAll show ?thesis by (simp add: count_ticks_def)
  next
    case ResumeAll
    then have "uxSchedulerSuspended k \<noteq> 0" using Cons.prems(2) by simp
    from sleep_resume[OF Cons.prems(1) this] obtain k1 b where k1: "xTaskResumeAll k = Some (k1, b)"
      "sleep_inv idle t n c k1" "uxSchedulerSuspended k1 = uxSchedulerSuspended k - 1" by blast
    show ?thesis using Cons.IH[OF k1(2)] Cons.prems(2) k1(1,3) ResumeAll by (simp add: count_ticks_def)
  qed
qed

text \<open>Property C8: \<open>vTaskDelay\<close> blocks the calling task for exactly the given number of ticks:
  whatever ticks, context switches and sections with the scheduler suspended follow, the task is
  delayed as long as fewer ticks have come and ready from that tick on, also when the tick count
  overflows in between and when ticks come while the scheduler is suspended.\<close>

theorem vTaskDelay_exact:
  assumes "reachable idle k" "running k me" "me \<noteq> idle" "uxSchedulerSuspended k = 0" "n \<noteq> 0" "nested 0 es"
  shows "\<exists>k1 k2. vTaskDelay n k = Some k1 \<and> sw_int k1 \<and> play es k1 = Some k2 \<and>
    (if count_ticks es < unat n
     then delayed k2 me \<and> ticks_left k2 me = unat n - count_ticks es
     else ready (tcb k2 me))"
proof -
  note inv = reachable_inv[OF assms(1)]
  obtain k1 where k1: "vTaskDelay n k = Some k1" "kernel_inv idle k1" "sw_int k1"
    "uxSchedulerSuspended k1 = 0" "xTickCount k1 = xTickCount k"
    "tcb k1 = (tcb k)(me := blocked_tcb n False k (tcb k me))"
    using inv_delay(1)[OF inv assms(2-5)] by blast
  have me: "pxCurrentTCB k = Some me" "ready (tcb k me)" using assms(2) by (simp_all add: running_def)
  have delayed: "delayed k1 me" "ticks_left k1 me = unat n"
    by (simp_all add: k1(5,6) delayed_def ticks_left_def blocked_list_def blocked_tcb_def)
  have event: "event_in (tcb k1 me) = None"
    using kernel_invD(8)[OF inv me(1)] me(2) by (simp add: k1(6) current_ok_def)
  have "sleep_inv idle me (unat n) 0 k1"
    using k1(2,4) delayed event kernel_inv_num[OF k1(2)] kernel_inv_pending_live[OF k1(2)]
      kernel_inv_current[OF k1(2)] kernel_invD(1,3,9)[OF k1(2)]
    by (auto simp: sleep_inv_def)
  from sleep_play[OF this] assms(6) k1(4) obtain k2 where k2: "play es k1 = Some k2"
    "sleep_inv idle me (unat n) (count_ticks es) k2" "uxSchedulerSuspended k2 = 0" by auto
  have "xPendedTicks k2 = 0" using k2(2,3) by (simp add: sleep_inv_def)
  moreover have "0 < ticks_left k2 me" if "delayed k2 me"
    using delayed_left[OF _ that] k2(2) by (auto simp: sleep_inv_def)
  ultimately show ?thesis using k1(1,3) k2(1,2) by (auto simp: sleep_inv_def split: if_splits)
qed

theorem vTaskDelay_exact_witness:
  "\<exists>k k1 k2. boot [(1, 5), (2, 5)] 0 = Some k \<and> vTaskDelay 2 k = Some k1 \<and>
    play [Switch, Tick, SuspendAll, Tick, ResumeAll] k1 = Some k2 \<and> ready (tcb k2 2)"
proof -
  obtain k where k: "boot [(1, 5), (2, 5)] 0 = Some k" "reachable 0 k" "running k 2" "uxSchedulerSuspended k = 0"
    using boot_example by blast
  from vTaskDelay_exact[OF k(2,3) _ k(4), of 2 "[Switch, Tick, SuspendAll, Tick, ResumeAll]"] k(1)
  show ?thesis by (auto simp: count_ticks_def)
qed

section \<open>Time-outs\<close>

text \<open>The tick count and its overflows, as one count that does not overflow.\<close>

definition clock :: "kernel \<Rightarrow> nat \<Rightarrow> bool" where
  "clock k T \<longleftrightarrow> xTickCount k = of_nat T \<and> xNumOfOverflows k = of_nat (T div 2 ^ 32)"

lemma clock_tick:
  assumes "core_inv {} k" "pxCurrentTCB k = Some me" "uxSchedulerSuspended k = 0" "clock k T"
  shows "\<exists>k' s. xTaskIncrementTick k = Some (k', s) \<and> clock k' (Suc T)"
proof -
  obtain k' s where k': "xTaskIncrementTick k = Some (k', s)" "xTickCount k' = xTickCount k + 1"
    "xNumOfOverflows k' = xNumOfOverflows k + (if xTickCount k + 1 = 0 then 1 else 0)"
    using tick_ok[OF assms(1-3)] by blast
  have Suc: "xTickCount k + 1 = of_nat (Suc T)" using assms(4) by (simp add: clock_def)
  have "(of_nat (Suc T) :: tick) = 0 \<longleftrightarrow> 2 ^ LENGTH(32) dvd Suc T" by (rule word_of_nat_eq_0_iff)
  then have zero: "xTickCount k + 1 = 0 \<longleftrightarrow> Suc T mod 2 ^ 32 = 0"
    unfolding Suc by (simp add: dvd_eq_mod_eq_0)
  have "xNumOfOverflows k' = of_nat (Suc T div 2 ^ 32)"
  proof (cases "Suc T mod 2 ^ 32 = 0")
    case True
    then have "Suc T div 2 ^ 32 = Suc (T div 2 ^ 32)" by (rule div_Suc[THEN trans, OF if_P])
    then show ?thesis using True zero k'(3) assms(4) by (simp only: clock_def of_nat_Suc if_True add.commute refl)
  next
    case False
    then have "Suc T div 2 ^ 32 = T div 2 ^ 32" by (rule div_Suc[THEN trans, OF if_not_P])
    then show ?thesis using False zero k'(3) assms(4) by (simp only: clock_def if_False add_0_right)
  qed
  then have "clock k' (Suc T)" using k'(2) Suc by (simp only: clock_def)
  with k'(1) show ?thesis by blast
qed

lemma div_within:
  assumes "T0 \<le> T" "T - T0 \<le> 2 ^ 32"
  shows "T div 2 ^ 32 = T0 div 2 ^ 32 \<or> T div 2 ^ 32 = Suc (T0 div (2::nat) ^ 32)"
proof -
  have "T \<le> T0 + 2 ^ 32" using assms by simp
  then have "T div 2 ^ 32 \<le> (T0 + 2 ^ 32) div 2 ^ 32" by (rule div_le_mono)
  moreover have "T0 div 2 ^ 32 \<le> T div 2 ^ 32" using assms(1) by (rule div_le_mono)
  ultimately show ?thesis by simp linarith
qed

text \<open>Property C11: \<open>xTaskCheckForTimeOut\<close> decides exactly whether the time has passed since the
  time-out was set, whatever overflows of the tick count lie in between, provided it is called
  within \<open>2 ^ 32\<close> ticks; if it has not passed, the ticks left and the new starting point keep
  the deadline, so that a loop of waits never waits longer in total than was asked for.\<close>

theorem xTaskCheckForTimeOut_exact:
  assumes "pxCurrentTCB k = Some me" "\<not> ucDelayAborted (tcb k me)" "ticks \<noteq> MAX_DELAY"
    and "clock k0 T0" "clock k T" "T0 \<le> T" "T - T0 \<le> 2 ^ 32"
  shows "\<exists>tmo left. xTaskCheckForTimeOut (vTaskInternalSetTimeOutState k0) ticks k =
      Some (k, tmo, left, T0 + unat ticks \<le> T) \<and>
    (if T0 + unat ticks \<le> T then left = 0
     else tmo = vTaskInternalSetTimeOutState k \<and> T + unat left = T0 + unat ticks)"
proof -
  have now: "xTickCount k = of_nat T" "xNumOfOverflows k = of_nat (T div 2 ^ 32)"
    and entry: "xTickCount k0 = of_nat T0" "xNumOfOverflows k0 = of_nat (T0 div 2 ^ 32)"
    using assms(4,5) by (simp_all add: clock_def)
  have elapsed: "(of_nat T - of_nat T0 :: tick) = of_nat (T - T0)" using assms(6) by (simp add: of_nat_diff)
  have ge: "((of_nat T :: tick) \<ge> of_nat T0) \<longleftrightarrow> T0 mod 2 ^ 32 \<le> T mod 2 ^ 32"
    by (simp add: word_le_nat_alt unat_of_nat)
  have ticks: "unat ticks < 2 ^ 32" using unsigned_less[of ticks, where ?'a = nat] by simp
  have split: "T = 2 ^ 32 * (T div 2 ^ 32) + T mod 2 ^ 32" "T0 = 2 ^ 32 * (T0 div 2 ^ 32) + T0 mod 2 ^ 32"
    by simp_all
  note next_div = div_within[OF assms(6,7)]
  show ?thesis
  proof (cases "T - T0 = 2 ^ 32")
    case True
    then have T: "T = T0 + 2 ^ 32" using assms(6) by simp
    have "T div 2 ^ 32 = Suc (T0 div 2 ^ 32)" "T mod 2 ^ 32 = T0 mod 2 ^ 32" unfolding T by simp_all
    then have "xNumOfOverflows k \<noteq> xNumOfOverflows k0" "xTickCount k0 \<le> xTickCount k"
      using ge by (simp_all add: now entry)
    moreover have "T0 + unat ticks \<le> T" using ticks T by simp
    ultimately show ?thesis
      using assms(1-3) by (simp add: xTaskCheckForTimeOut_def vTaskInternalSetTimeOutState_def)
  next
    case False
    then have less: "T - T0 < 2 ^ 32" using assms(7) by simp
    then have unat: "unat (of_nat (T - T0) :: tick) = T - T0" by (simp add: unat_of_nat)
    have wrap: "\<not> (T0 mod 2 ^ 32 \<le> T mod 2 ^ 32)" if "T div 2 ^ 32 \<noteq> T0 div 2 ^ 32"
    proof -
      have "2 ^ 32 * (T div 2 ^ 32) = 2 ^ 32 + 2 ^ 32 * (T0 div 2 ^ 32)"
        using next_div that by (simp only: mult_Suc_right) auto
      then show ?thesis using less split assms(6) by linarith
    qed
    then have cond: "\<not> (xNumOfOverflows k \<noteq> xNumOfOverflows k0 \<and> xTickCount k0 \<le> xTickCount k)"
      using ge wrap by (cases "T div 2 ^ 32 = T0 div 2 ^ 32") (simp_all add: now entry)
    have lt: "(of_nat (T - T0) :: tick) < ticks \<longleftrightarrow> T < T0 + unat ticks"
      using unat assms(6) by (simp add: word_less_nat_alt) linarith
    have left: "unat (ticks - of_nat (T - T0)) = unat ticks - (T - T0)" if "T < T0 + unat ticks"
    proof -
      have "(of_nat (T - T0) :: tick) \<le> ticks" using lt that by simp
      then show ?thesis using unat by (simp add: unat_sub)
    qed
    have e: "xTickCount k - xTickCount k0 = of_nat (T - T0)" by (simp only: now entry elapsed)
    have "xTaskCheckForTimeOut (vTaskInternalSetTimeOutState k0) ticks k = Some
      (if of_nat (T - T0) < ticks
       then (k, vTaskInternalSetTimeOutState k, ticks - of_nat (T - T0), False)
       else (k, vTaskInternalSetTimeOutState k0, 0, True))"
      unfolding xTaskCheckForTimeOut_def vTaskInternalSetTimeOutState_def Let_def time_out.simps e
      using assms(1-3) cond by auto
    then show ?thesis using lt left assms(6) by (cases "T < T0 + unat ticks") simp_all
  qed
qed

definition clock_example :: "32 word \<Rightarrow> nat \<Rightarrow> kernel" where
  "clock_example overflows T = kernel0\<lparr>pxCurrentTCB := Some 0, xNumOfOverflows := overflows, xTickCount := of_nat T\<rparr>"

theorem xTaskCheckForTimeOut_exact_witness:
  "\<exists>tmo left. xTaskCheckForTimeOut (vTaskInternalSetTimeOutState (clock_example 0 (2 ^ 32 - 5))) 20
    (clock_example 1 (2 ^ 32 + 5)) = Some (clock_example 1 (2 ^ 32 + 5), tmo, left, False) \<and> unat left = 10"
proof -
  have "clock (clock_example 0 (2 ^ 32 - 5)) (2 ^ 32 - 5)" "clock (clock_example 1 (2 ^ 32 + 5)) (2 ^ 32 + 5)"
    by (simp_all add: clock_def clock_example_def)
  moreover have "pxCurrentTCB (clock_example 1 (2 ^ 32 + 5)) = Some 0"
    "\<not> ucDelayAborted (tcb (clock_example 1 (2 ^ 32 + 5)) 0)"
    by (simp_all add: clock_example_def kernel0_def empty_tcb_def)
  ultimately show ?thesis
    using xTaskCheckForTimeOut_exact[of "clock_example 1 (2 ^ 32 + 5)" 0 20 "clock_example 0 (2 ^ 32 - 5)"
        "2 ^ 32 - 5" "2 ^ 32 + 5"] by auto
qed

section \<open>Priority inheritance\<close>

lemma inherit_tcb:
  assumes inv: "kernel_inv idle k" and me: "pxCurrentTCB k = Some me"
  shows "\<exists>k' b c. xTaskPriorityInherit (Some h) k = Some (k', b) \<and> tcb k' = (tcb k)(h := c) \<and>
    uxPriority c = max (uxPriority (tcb k h)) (uxPriority (tcb k me)) \<and>
    uxBasePriority c = uxBasePriority (tcb k h) \<and> uxMutexesHeld c = uxMutexesHeld (tcb k h) \<and>
    state_in c = (if ready (tcb k h) then Some (ReadyL (uxPriority c)) else state_in (tcb k h)) \<and>
    b = (uxPriority (tcb k h) < uxPriority (tcb k me) \<or> uxBasePriority (tcb k h) < uxPriority (tcb k me))"
proof -
  let ?p = "uxPriority (tcb k me)" and ?k = "upd_tcb h (event_priority (uxPriority (tcb k me))) k"
  have ready_h: "ready (tcb k h) \<longleftrightarrow> state_in (tcb k h) = Some (ReadyL (uxPriority (tcb k h)))"
    using ready_list[OF inv, of h] by (auto simp: ready_def)
  consider "?p \<le> uxPriority (tcb k h)" | "uxPriority (tcb k h) < ?p" "ready (tcb k h)"
    | "uxPriority (tcb k h) < ?p" "\<not> ready (tcb k h)" by linarith
  then show ?thesis
  proof cases
    case 1
    then show ?thesis using me ready_h
      by (intro exI[of _ k] exI[of _ "uxBasePriority (tcb k h) < ?p"] exI[of _ "tcb k h"])
        (auto simp: xTaskPriorityInherit_def)
  next
    case 2
    let ?c = "(event_priority ?p (tcb k h))\<lparr>uxPriority := ?p, state_in := Some (ReadyL ?p)\<rparr>"
    have l: "state_in (tcb ?k h) = Some (ReadyL (uxPriority (tcb k h)))" using 2(2) ready_h by simp
    note r = removed_simps[OF l]
    have "\<exists>k'. requeue h (uxPriority (tcb k h)) ?p ?k = Some k' \<and> tcb k' = (tcb k)(h := ?c)"
      using l by (cases "event_priority ?p (tcb k h)") (simp add: requeue_def state_remove_eq[OF l] r)
    then obtain k' where k': "requeue h (uxPriority (tcb k h)) ?p ?k = Some k'" "tcb k' = (tcb k)(h := ?c)"
      by blast
    then show ?thesis using 2 me ready_h
      by (intro exI[of _ k'] exI[of _ True] exI[of _ ?c])
        (simp add: xTaskPriorityInherit_def Let_def set_event_priority_eq)
  next
    case 3
    let ?c = "(event_priority ?p (tcb k h))\<lparr>uxPriority := ?p\<rparr>"
    show ?thesis using 3 me ready_h
      by (intro exI[of _ "upd_tcb h (uxPriority_update (\<lambda>_. ?p)) ?k"] exI[of _ True] exI[of _ ?c])
        (simp add: xTaskPriorityInherit_def Let_def set_event_priority_eq)
  qed
qed

lemma disinherit_tcb:
  assumes inv: "kernel_inv idle k" and run: "running k h" and held: "uxMutexesHeld (tcb k h) \<noteq> 0"
  shows "\<exists>k' b c. xTaskPriorityDisinherit (Some h) k = Some (k', b) \<and> tcb k' = (tcb k)(h := c) \<and>
    uxPriority c = (if uxMutexesHeld (tcb k h) = 1 then uxBasePriority (tcb k h) else uxPriority (tcb k h)) \<and>
    uxBasePriority c = uxBasePriority (tcb k h) \<and> uxMutexesHeld c = uxMutexesHeld (tcb k h) - 1 \<and>
    state_in c = Some (ReadyL (uxPriority c)) \<and> b = (uxPriority c \<noteq> uxPriority (tcb k h))"
proof -
  have me: "pxCurrentTCB k = Some h" "ready (tcb k h)" using run by (simp_all add: running_def)
  let ?k = "upd_tcb h (uxMutexesHeld_update (\<lambda>n. n - Suc 0)) k"
  have l: "state_in (tcb ?k h) = Some (ReadyL (uxPriority (tcb k h)))" using ready_list[OF inv me(2)] by simp
  note r = removed_simps[OF l]
  show ?thesis
  proof (cases "uxPriority (tcb k h) \<noteq> uxBasePriority (tcb k h) \<and> uxMutexesHeld (tcb k h) = 1")
    case True
    let ?c = "(tcb k h)\<lparr>uxMutexesHeld := 0, event_value := item_value (uxBasePriority (tcb k h)),
        uxPriority := uxBasePriority (tcb k h), state_in := Some (ReadyL (uxBasePriority (tcb k h)))\<rparr>"
    have "\<exists>k'. xTaskPriorityDisinherit (Some h) k = Some (k', True) \<and> tcb k' = (tcb k)(h := ?c)"
      using True me l
      by (cases "tcb k h") (simp add: xTaskPriorityDisinherit_def Let_def state_remove_eq[OF l] r)
    then obtain k' where "xTaskPriorityDisinherit (Some h) k = Some (k', True)" "tcb k' = (tcb k)(h := ?c)"
      by blast
    then show ?thesis using True by (intro exI[of _ k'] exI[of _ True] exI[of _ ?c]) simp
  next
    case False
    then show ?thesis using me held l
      by (intro exI[of _ ?k] exI[of _ False] exI[of _ "tcb ?k h"])
        (auto simp: xTaskPriorityDisinherit_def Let_def)
  qed
qed

text \<open>Property C10: a task that blocks on a mutex raises the holder to its own priority, and only
  if that is higher, moving the holder to the ready list of the new priority when it is ready; no
  other task changes, and the result tells whether the holder runs above its base priority. A
  holder that gives back its last mutex returns to its base priority and to the list of it; with
  other mutexes held it keeps the inherited priority.\<close>

theorem priority_inheritance:
  assumes "reachable idle k" "running k me" "uxBasePriority (tcb k h) \<le> uxPriority (tcb k h)"
  shows "(\<exists>k' b c. xTaskPriorityInherit (Some h) k = Some (k', b) \<and> tcb k' = (tcb k)(h := c) \<and>
      uxPriority c = max (uxPriority (tcb k h)) (uxPriority (tcb k me)) \<and>
      uxBasePriority c = uxBasePriority (tcb k h) \<and> uxMutexesHeld c = uxMutexesHeld (tcb k h) \<and>
      state_in c = (if ready (tcb k h) then Some (ReadyL (uxPriority c)) else state_in (tcb k h)) \<and>
      b = (uxBasePriority (tcb k h) < uxPriority (tcb k me))) \<and>
    (uxMutexesHeld (tcb k me) \<noteq> 0 \<longrightarrow>
      (\<exists>k' b c. xTaskPriorityDisinherit (Some me) k = Some (k', b) \<and> tcb k' = (tcb k)(me := c) \<and>
        uxPriority c = (if uxMutexesHeld (tcb k me) = 1 then uxBasePriority (tcb k me) else uxPriority (tcb k me)) \<and>
        uxBasePriority c = uxBasePriority (tcb k me) \<and> uxMutexesHeld c = uxMutexesHeld (tcb k me) - 1 \<and>
        state_in c = Some (ReadyL (uxPriority c)) \<and> b = (uxPriority c \<noteq> uxPriority (tcb k me))))"
proof (intro conjI impI)
  note inv = reachable_inv[OF assms(1)]
  have me: "pxCurrentTCB k = Some me" using assms(2) by (simp add: running_def)
  have base: "(uxPriority (tcb k h) < uxPriority (tcb k me) \<or> uxBasePriority (tcb k h) < uxPriority (tcb k me)) =
    (uxBasePriority (tcb k h) < uxPriority (tcb k me))" using assms(3) by linarith
  show "\<exists>k' b c. xTaskPriorityInherit (Some h) k = Some (k', b) \<and> tcb k' = (tcb k)(h := c) \<and>
      uxPriority c = max (uxPriority (tcb k h)) (uxPriority (tcb k me)) \<and>
      uxBasePriority c = uxBasePriority (tcb k h) \<and> uxMutexesHeld c = uxMutexesHeld (tcb k h) \<and>
      state_in c = (if ready (tcb k h) then Some (ReadyL (uxPriority c)) else state_in (tcb k h)) \<and>
      b = (uxBasePriority (tcb k h) < uxPriority (tcb k me))"
    using inherit_tcb[OF inv me, of h] unfolding base .
qed (rule disinherit_tcb[OF reachable_inv[OF assms(1)] assms(2)])

theorem priority_inheritance_witness:
  "\<exists>k k' b. boot [(1, 5), (2, 5)] 0 = Some k \<and> xTaskPriorityInherit (Some 0) k = Some (k', b) \<and>
    uxPriority (tcb k' 0) = 5 \<and> b"
proof -
  obtain k where k: "boot [(1, 5), (2, 5)] 0 = Some k" "reachable 0 k" "running k 2" "uxSchedulerSuspended k = 0"
    using boot_example by blast
  have "map_option (\<lambda>k. (uxPriority (tcb k 2), uxPriority (tcb k 0), uxBasePriority (tcb k 0)))
    (boot [(1, 5), (2, 5)] 0) = Some (5, 0, 0)" by code_simp
  then have p: "uxPriority (tcb k 2) = 5" "uxPriority (tcb k 0) = 0" "uxBasePriority (tcb k 0) = 0"
    using k(1) by simp_all
  from priority_inheritance[OF k(2,3), of 0] p k(1) show ?thesis by fastforce
qed

text \<open>
  \<open>vTaskPriorityDisinheritAfterTimeout\<close> when the holder is alone on its ready list, as after the
  priority of the waiting task was raised while it waited: the bit of the emptied list stays set.
\<close>

lemma disinherit_after_stale_mask:
  assumes inv: "kernel_inv idle k" and me: "pxCurrentTCB k = Some me" "me \<noteq> h"
    and h: "slist k (ReadyL p) = [h]" "uxMutexesHeld (tcb k h) = 1"
      "uxBasePriority (tcb k h) < p" "highest < p"
  shows "\<exists>k'. vTaskPriorityDisinheritAfterTimeout (Some h) highest k = Some k' \<and>
    bit (uxTopReadyPriority k') p \<and> slist k' (ReadyL p) = []"
proof -
  let ?use = "if uxBasePriority (tcb k h) < highest then highest else uxBasePriority (tcb k h)"
  let ?f = "\<lambda>c. event_priority ?use (c\<lparr>uxPriority := ?use\<rparr>)"
  let ?k = "upd_tcb h ?f k"
  have s: "state_in (tcb k h) = Some (ReadyL p)"
    using h(1) lists_inv_mem[OF core_invD(1)[OF kernel_invD(1)[OF inv]], of h "ReadyL p"] by simp
  then have p: "uxPriority (tcb k h) = p" "p < 32"
    using core_invD(2)[OF kernel_invD(1)[OF inv]] by (auto simp: prio_inv_def)
  have l: "state_in (tcb ?k h) = Some (ReadyL p)" using s by simp
  note r = removed_simps[OF l]
  have less: "?use < p" using h(3,4) by simp
  have bit: "bit (uxTopReadyPriority k) p"
    using core_invD(3)[OF kernel_invD(1)[OF inv]] h(1) p(2) by (simp add: mask_inv_def)
  have "vTaskPriorityDisinheritAfterTimeout (Some h) highest k =
    Some (prvAddTaskToReadyList h (reset_top ?use (removed h ?k)))"
    using less p me h l
    by (simp add: vTaskPriorityDisinheritAfterTimeout_def Let_def set_event_priority_eq
        state_remove_eq[OF l] r)
  moreover have "bit (uxTopReadyPriority (prvAddTaskToReadyList h (reset_top ?use (removed h ?k)))) p"
    using bit less p(2)
    by (simp add: r reset_top_def record_ready_bit reset_ready_bit)
  moreover have "slist (prvAddTaskToReadyList h (reset_top ?use (removed h ?k))) (ReadyL p) = []"
    using less h(1) by (simp add: r)
  ultimately show ?thesis by blast
qed

text \<open>
  A task that waits for a notification without time-out counts as suspended for
  \<open>vTaskResume\<close>: it is made ready although nothing was notified.
\<close>

lemma resume_wakes_notification_wait:
  assumes inv: "kernel_inv idle k" and t: "pxCurrentTCB k \<noteq> Some t" "state_in (tcb k t) = Some SuspendedL"
    "ucNotifyState (tcb k t) i = WAITING"
  shows "\<exists>k'. vTaskResume t k = Some k' \<and> ready (tcb k' t) \<and> ucNotifyState (tcb k' t) i = WAITING"
proof -
  have event: "event_in (tcb k t) = None" by (rule kernel_inv_waiting_event[OF inv t(3)])
  then have susp: "prvTaskIsTaskSuspended t k" using t(2) by (simp add: prvTaskIsTaskSuspended_def)
  obtain me where me: "pxCurrentTCB k = Some me" using kernel_inv_current[OF inv] by blast
  have live: "live k t" using t(2) by (simp add: live_def)
  obtain k' where k': "make_ready t k = Some k'" "same_rest k k'" "tcb k' = (tcb k)(t := woken (tcb k t))"
    using inv_make_ready[OF inv live event] by blast
  let ?k = "if uxPriority (tcb k' me) \<le> uxPriority (tcb k' t) then yield k' else k'"
  have "vTaskResume t k = Some ?k"
    using t(1) susp k'(1) me same_rest_simps[OF k'(2)] by (simp add: vTaskResume_def)
  moreover have "tcb ?k = tcb k'" by (simp add: yield_def)
  ultimately show ?thesis using k'(3) t(3) by simp
qed

text \<open>
  \<open>vTaskPrioritySet\<close> on a task that runs with an inherited priority changes only the base
  priority, also when the new priority is the higher one.
\<close>

lemma priority_set_below_base:
  assumes inv: "kernel_inv idle k" and p: "uxBasePriority (tcb k t) < uxPriority (tcb k t)"
    "uxPriority (tcb k t) < new" "new < 32" and t: "\<not> ready (tcb k t)"
  shows "\<exists>k'. vTaskPrioritySet t new k = Some k' \<and> uxPriority (tcb k' t) < uxBasePriority (tcb k' t)"
proof -
  obtain me where me: "pxCurrentTCB k = Some me" using kernel_inv_current[OF inv] by blast
  have "state_in (tcb k t) \<noteq> Some (ReadyL q)" for q using t by (auto simp: ready_def)
  with p me show ?thesis
    by (auto simp: vTaskPrioritySet_def Let_def set_event_priority_eq yield_def)
qed

end
