(* ===== verification/QueueProps.thy ===== *)
theory QueueProps
  imports QueueSafe TaskProps
begin

text \<open>
  What queues, semaphores and mutexes promise: their operations return and keep the kernel and the
  queue consistent, every history of a queue is one of a bounded double-ended queue, no
  wake-up is lost or invented while the queue is locked, and a recursive mutex is given back by the
  last of its gives.
\<close>

section \<open>Safety\<close>





section \<open>Refinement\<close>

text \<open>Property C2: whatever the tasks, the interrupts and the scheduler do, the events of a queue, in the
  order of its critical sections, are those of a double-ended queue of bounded length: an item
  is received once, unchanged, and in the order of the sends to the back and to the front, a peek
  shows the next item and leaves it, a send fails or blocks only when the queue is full and a
  receive only when it is empty, and a reset empties it. With empty items this is the count of
  a semaphore or the availability of a mutex, which is never above its maximum.\<close>

theorem queue_refines_deque:
  assumes "queue_inv q" "\<And>a. Inr a \<in> set ops \<Longrightarrow> allowed (uxItemSize q) a"
    "queue_run ops (k, q) = Some ((k', q'), es)"
  shows "deque_run (uxLength q) es (items q) = Some (items q') \<and> queue_inv q' \<and> uxLength q' = uxLength q \<and>
    length (items q') \<le> uxLength q"
  using run_refines[OF assms] queue_invD(1)[of q'] same_shapeD(2)[of q q'] by (auto simp: refines_def)

definition example_ops :: "(kernel + queue_op) list" where
  "example_ops = map Inr [Send (Some [1]) 0 queueSEND_TO_BACK None, SendFromISR (Some [2]) queueSEND_TO_FRONT,
     Send (Some [3]) 0 queueSEND_TO_BACK None, Receive (Some 1) 0 None, SendFromISR (Some [4]) queueSEND_TO_BACK,
     Receive (Some 1) 0 None]"

definition two_bytes :: queue where
  "two_bytes = \<lparr>is_mutex = False, storage = [0, 0], pcWriteTo = 0, pcTail = 2, pcReadFrom = 1,
     xMutexHolder = None, uxRecursiveCallCount = 0, xTasksWaitingToSend = 0, xTasksWaitingToReceive = 1,
     uxMessagesWaiting = 0, uxLength = 2, uxItemSize = 1, cRxLock = - 1, cTxLock = - 1\<rparr>"

lemma two_bytes_new: "prvInitialiseNewQueue 2 1 0 1 [0, 0] kernel0 = Some (kernel0, two_bytes)"
  by (simp add: prvInitialiseNewQueue_def xQueueGenericReset_def new_queue_def two_bytes_def Let_def kernel0_def
      fun_upd_idem)

lemma example_run: "map_option snd (queue_run example_ops (kernel0, two_bytes)) =
    Some [Sent queueSEND_TO_BACK [1], Sent queueSEND_TO_FRONT [2], FullSeen, Received [2],
      Sent queueSEND_TO_BACK [4], Received [1]]"
  by code_simp

theorem queue_refines_deque_witness:
  "\<exists>q k' q'. prvInitialiseNewQueue 2 1 0 1 [0, 0] kernel0 = Some (kernel0, q) \<and>
     queue_run example_ops (kernel0, q) = Some ((k', q'),
     [Sent queueSEND_TO_BACK [1], Sent queueSEND_TO_FRONT [2], FullSeen, Received [2],
      Sent queueSEND_TO_BACK [4], Received [1]]) \<and> items q' = [[4]]"
proof -
  let ?q = two_bytes
  have q: "prvInitialiseNewQueue 2 1 0 1 [0, 0] kernel0 = Some (kernel0, ?q)" "queue_inv ?q"
    "items ?q = []" "uxLength ?q = 2" "uxItemSize ?q = 1"
    using new_queue_reset[of 2 1 "[0, 0]" kernel0 0 1] two_bytes_new by (auto simp: kernel0_def)
  obtain k' q' where run: "queue_run example_ops (kernel0, ?q) = Some ((k', q'),
     [Sent queueSEND_TO_BACK [1], Sent queueSEND_TO_FRONT [2], FullSeen, Received [2],
      Sent queueSEND_TO_BACK [4], Received [1]])"
    using example_run by auto
  have "allowed (uxItemSize ?q) a" if "Inr a \<in> set example_ops" for a
    using that q(5) by (auto simp: example_ops_def)
  from queue_refines_deque[OF q(2) this run] q(1,3,4) run show ?thesis by auto
qed

section \<open>Wake-ups while the queue is locked\<close>

definition sends :: "queue_event list \<Rightarrow> nat" where
  "sends es = length (filter (\<lambda>e. case e of Sent _ _ \<Rightarrow> True | _ \<Rightarrow> False) es)"

definition receives :: "queue_event list \<Rightarrow> nat" where
  "receives es = length (filter (\<lambda>e. case e of Received _ \<Rightarrow> True | _ \<Rightarrow> False) es)"

lemma counts_simps [simp]:
  "sends [] = 0" "receives [] = 0" "sends (es @ es') = sends es + sends es'"
  "receives (es @ es') = receives es + receives es'" "sends [Sent pos x] = 1" "receives [Sent pos x] = 0"
  "sends [Received x] = 0" "receives [Received x] = 1" "sends [FullSeen] = 0" "receives [FullSeen] = 0"
  "sends [EmptySeen] = 0" "receives [EmptySeen] = 0"
  by (simp_all add: sends_def receives_def)

fun isr_op :: "queue_op \<Rightarrow> bool" where
  "isr_op (SendFromISR _ _) = True"
| "isr_op GiveFromISR = True"
| "isr_op (ReceiveFromISR _) = True"
| "isr_op _ = False"

text \<open>A locked queue lets an interrupt move an item and count it, and leaves the kernel alone.\<close>

definition locked_step :: "kernel \<Rightarrow> queue \<Rightarrow> kernel \<Rightarrow> queue \<Rightarrow> queue_event list \<Rightarrow> bool" where
  "locked_step k q k' q' es \<longleftrightarrow> k' = k \<and> cTxLock q' = cTxLock q + int (sends es) \<and>
    cRxLock q' = cRxLock q + int (receives es) \<and> same_shape q q'"

lemma isr_added_locked:
  assumes "isr_added c (k, q) = Some ((k', q'), w)" "c = cTxLock q" "0 \<le> c"
  shows "k' = k \<and> q' = q\<lparr>cTxLock := c + 1\<rparr>"
  using assms by (auto simp: isr_added_def raise_lock_def split: if_splits)

lemma locked_isr_step:
  assumes inv: "queue_inv q" and lock: "0 \<le> cTxLock q" "0 \<le> cRxLock q" and plain: "\<not> is_mutex q"
    and a: "isr_op a" "allowed (uxItemSize q) a" and run: "queue_step a (k, q) = Some ((k', q'), es)"
  shows "locked_step k q k' q' es"
proof (cases a)
  case (SendFromISR pv pos)
  then obtain b w where b: "xQueueGenericSendFromISR pv pos (k, q) = Some ((k', q'), b, w)"
    "es = [if b then Sent pos (payload pv q) else FullSeen]"
    using run by (auto simp: bind_eq_Some_conv)
  show ?thesis
  proof (cases "uxMessagesWaiting q < uxLength q \<or> pos = queueOVERWRITE")
    case True
    from b(1) True have over: "pos = queueOVERWRITE \<longrightarrow> uxLength q = 1"
      by (auto simp: xQueueGenericSendFromISR_def guard_bind_Some)
    obtain k1 q1 y where copy: "prvCopyDataToQueue pv pos (k, q) = Some ((k1, q1), y)"
      "isr_added (cTxLock q) (k1, q1) = Some ((k', q'), w)" and b
      using b(1) True by (auto simp: xQueueGenericSendFromISR_def guard_bind_Some bind_eq_Some_conv)
    have "k1 = k" "q_frame q1 = q_frame q"
      using copy_to_ok[OF inv True _ copy(1)] over a(2) plain SendFromISR by auto
    then show ?thesis using isr_added_locked[OF copy(2)] lock b(2) \<open>b\<close> q_frameD[of q1 q] q_frame_shape[of q1 q]
      by (simp add: locked_step_def)
  next
    case False
    then show ?thesis using b by (auto simp: xQueueGenericSendFromISR_def guard_bind_Some locked_step_def)
  qed
next
  case GiveFromISR
  then obtain b w where b: "xQueueGiveFromISR (k, q) = Some ((k', q'), b, w)"
    "es = [if b then Sent queueSEND_TO_BACK [] else FullSeen]"
    using run by (auto simp: bind_eq_Some_conv)
  show ?thesis
  proof (cases "uxMessagesWaiting q < uxLength q")
    case True
    then have added: "isr_added (cTxLock q) (k, q\<lparr>uxMessagesWaiting := uxMessagesWaiting q + 1\<rparr>) = Some ((k', q'), w)" "b"
      using b(1) by (auto simp: xQueueGiveFromISR_def guard_bind_Some bind_eq_Some_conv)
    then show ?thesis using isr_added_locked[OF added(1)] lock b(2) by (simp add: locked_step_def)
  next
    case False
    then show ?thesis using b by (auto simp: xQueueGiveFromISR_def guard_bind_Some locked_step_def)
  qed
next
  case (ReceiveFromISR buf)
  then obtain b w bs where b: "xQueueReceiveFromISR buf (k, q) = Some ((k', q'), b, w, bs)"
    "es = [if b then Received bs else EmptySeen]"
    using run by (auto simp: bind_eq_Some_conv)
  show ?thesis
  proof (cases "uxMessagesWaiting q > 0")
    case True
    obtain q1 cs where q1: "prvCopyDataFromQueue q = Some (q1, cs)" using copy_from_returns[OF inv True] by blast
    have "q_frame q1 = q_frame q" using refines_received(4)[OF inv True q1] .
    then have rx: "cRxLock q1 = cRxLock q" "cTxLock q1 = cTxLock q" "same_shape q q1"
      using q_frameD[of q1 q] q_frame_shape[of q1 q] by simp_all
    have "k' = k \<and> b \<and> q' = q1\<lparr>uxMessagesWaiting := uxMessagesWaiting q - 1, cRxLock := cRxLock q + 1\<rparr>"
    proof (cases "cRxLock q = queueINT8_MAX")
      case max: True
      then show ?thesis using b(1) True q1 by (simp add: xQueueReceiveFromISR_def guard_bind_Some Let_def raise_lock_def)
    next
      case False
      moreover have "cRxLock q \<noteq> queueUNLOCKED" using lock(2) by simp
      ultimately show ?thesis using b(1) True q1
        by (simp add: xQueueReceiveFromISR_def guard_bind_Some Let_def raise_lock_def)
    qed
    then show ?thesis using b(2) rx by (simp add: locked_step_def)
  next
    case False
    then show ?thesis using b by (auto simp: xQueueReceiveFromISR_def guard_bind_Some locked_step_def)
  qed
qed (use a(1) in simp_all)

lemma locked_isr_run:
  assumes "queue_inv q" "0 \<le> cTxLock q" "0 \<le> cRxLock q" "\<not> is_mutex q"
    "\<forall>a \<in> set ops. isr_op a \<and> allowed (uxItemSize q) a" "queue_run (map Inr ops) (k, q) = Some ((k', q'), es)"
  shows "locked_step k q k' q' es"
  using assms
proof (induction ops arbitrary: k q es)
  case (Cons a ops)
  obtain k1 q1 es1 es2 where step: "queue_step a (k, q) = Some ((k1, q1), es1)"
    "queue_run (map Inr ops) (k1, q1) = Some ((k', q'), es2)" "es = es1 @ es2"
    using Cons.prems(6) by (auto simp: bind_eq_Some_conv)
  have a: "isr_op a" "allowed (uxItemSize q) a" using Cons.prems(5) by simp_all
  have first: "locked_step k q k1 q1 es1" by (rule locked_isr_step[OF Cons.prems(1-4) a step(1)])
  have "queue_inv q1" using step_refines[OF Cons.prems(1) a(2) step(1)] by (simp add: refines_def)
  moreover have "0 \<le> cTxLock q1" "0 \<le> cRxLock q1" "\<not> is_mutex q1" "uxItemSize q1 = uxItemSize q"
    using first Cons.prems(2-4) by (simp_all add: locked_step_def same_shape_def)
  ultimately have "locked_step k1 q1 k' q' es2" using Cons.IH[OF _ _ _ _ _ step(2)] Cons.prems(5) by simp
  with first show ?case unfolding locked_step_def step(3) by (auto intro: same_shape_trans)
qed (simp add: locked_step_def)

text \<open>Property C5: no wake-up is lost or invented by locking. Interrupts that use a locked queue leave all
  waiting tasks where they are; when the queue is unlocked afterwards, exactly one waiting
  receiver per item sent and one waiting sender per item received, those at the front of the
  lists and in their order, become pending-ready, fewer only if no more are waiting, and the
  queue is unlocked.\<close>

theorem locked_queue_wakeups:
  assumes "kernel_inv idle k" "uxSchedulerSuspended k \<noteq> 0" "queue_inv q" "\<not> is_mutex q"
    "cTxLock q = queueLOCKED_UNMODIFIED" "cRxLock q = queueLOCKED_UNMODIFIED"
    "xTasksWaitingToSend q \<noteq> xTasksWaitingToReceive q"
    "\<forall>a \<in> set ops. isr_op a \<and> allowed (uxItemSize q) a" "queue_run (map Inr ops) (k, q) = Some ((k1, q1), es)"
  shows "k1 = k \<and> (\<exists>k2 q2 k3 q3. prvUnlockQueue_tx (k, q1) = Some (k2, q2) \<and>
    prvUnlockQueue_rx (k2, q2) = Some (k3, q3) \<and> kernel_inv idle k3 \<and>
    elist k3 (WaitL (xTasksWaitingToReceive q)) = drop (sends es) (elist k (WaitL (xTasksWaitingToReceive q))) \<and>
    elist k3 (WaitL (xTasksWaitingToSend q)) = drop (receives es) (elist k (WaitL (xTasksWaitingToSend q))) \<and>
    elist k3 PendingReadyL = elist k PendingReadyL @
      take (sends es) (elist k (WaitL (xTasksWaitingToReceive q))) @
      take (receives es) (elist k (WaitL (xTasksWaitingToSend q))) \<and>
    cTxLock q3 = queueUNLOCKED \<and> cRxLock q3 = queueUNLOCKED)"
proof -
  let ?r = "xTasksWaitingToReceive q" and ?s = "xTasksWaitingToSend q"
  have inv: "kernel_inv idle k \<and> uxSchedulerSuspended k \<noteq> 0" using assms(1,2) by simp
  have step: "locked_step k q k1 q1 es" using locked_isr_run[OF assms(3) _ _ assms(4,8,9)] assms(5,6) by simp
  then have q1: "k1 = k" "nat (cTxLock q1) = sends es" "nat (cRxLock q1) = receives es"
    "xTasksWaitingToReceive q1 = ?r" "xTasksWaitingToSend q1 = ?s"
    using assms(5,6) by (simp_all add: locked_step_def same_shape_def)
  obtain k2 where k2: "unlock_loop (sends es) ?r k = Some k2" "kernel_inv idle k2 \<and> uxSchedulerSuspended k2 \<noteq> 0"
    "(\<lambda>w. elist k2 (WaitL w)) = (\<lambda>w. elist k (WaitL w))(?r := drop (sends es) (elist k (WaitL ?r)))"
    using suspended_lists.drain_ok[OF inv, of ?r "sends es"] by (auto simp: unlock_loop_drain)
  have p2: "elist k2 PendingReadyL = elist k PendingReadyL @ take (sends es) (elist k (WaitL ?r))"
    using suspended_lists.drain_pending[OF inv, of ?r "sends es" k2] k2(1) by (simp add: unlock_loop_drain)
  obtain k3 where k3: "unlock_loop (receives es) ?s k2 = Some k3" "kernel_inv idle k3 \<and> uxSchedulerSuspended k3 \<noteq> 0"
    "(\<lambda>w. elist k3 (WaitL w)) = (\<lambda>w. elist k2 (WaitL w))(?s := drop (receives es) (elist k2 (WaitL ?s)))"
    using suspended_lists.drain_ok[OF k2(2), of ?s "receives es"] by (auto simp: unlock_loop_drain)
  have p3: "elist k3 PendingReadyL = elist k2 PendingReadyL @ take (receives es) (elist k2 (WaitL ?s))"
    using suspended_lists.drain_pending[OF k2(2), of ?s "receives es" k3] k3(1) by (simp add: unlock_loop_drain)
  have s2: "elist k2 (WaitL ?s) = elist k (WaitL ?s)" and r2: "elist k2 (WaitL ?r) = drop (sends es) (elist k (WaitL ?r))"
    using fun_cong[OF k2(3), of ?s] fun_cong[OF k2(3), of ?r] assms(7) by simp_all
  have s3: "elist k3 (WaitL ?s) = drop (receives es) (elist k2 (WaitL ?s))" and r3: "elist k3 (WaitL ?r) = elist k2 (WaitL ?r)"
    using fun_cong[OF k3(3), of ?s] fun_cong[OF k3(3), of ?r] assms(7) by simp_all
  have "prvUnlockQueue_tx (k, q1) = Some (k2, q1\<lparr>cTxLock := queueUNLOCKED\<rparr>)"
    using k2(1) q1 by (simp add: prvUnlockQueue_tx_def)
  moreover have "prvUnlockQueue_rx (k2, q1\<lparr>cTxLock := queueUNLOCKED\<rparr>) =
      Some (k3, q1\<lparr>cTxLock := queueUNLOCKED, cRxLock := queueUNLOCKED\<rparr>)"
    using k3(1) q1 by (cases q1) (simp add: prvUnlockQueue_rx_def)
  ultimately show ?thesis using q1(1) k3(2) p2 p3 s2 r2 s3 r3 by auto
qed

text \<open>Task 2 waits to receive, the scheduler is suspended, and interrupts send two items.\<close>

definition waiting_kernel :: "kernel option" where
  "waiting_kernel = do { k \<leftarrow> boot [(1, 5), (2, 5)] 0; vTaskPlaceOnEventList 1 5 (vTaskSuspendAll k) }"

lemma waiting_kernel_ok: "\<exists>k. waiting_kernel = Some k \<and> kernel_inv 0 k \<and> uxSchedulerSuspended k \<noteq> 0 \<and>
    elist k (WaitL 1) = [2] \<and> elist k PendingReadyL = []"
proof -
  obtain k where k: "boot [(1, 5), (2, 5)] 0 = Some k" "reachable 0 k" "running k 2" "uxSchedulerSuspended k = 0"
    using boot_example by blast
  have "kernel_inv 0 (vTaskSuspendAll k)" "running (vTaskSuspendAll k) 2"
    using inv_suspend_all[OF reachable_inv[OF k(2)] k(3)] k(3) by simp_all
  from inv_place_on(1)[OF this, of 5 1]
  obtain k1 where k1: "vTaskPlaceOnEventList 1 5 (vTaskSuspendAll k) = Some k1" "kernel_inv 0 k1" by auto
  have "map_option (\<lambda>k. (uxSchedulerSuspended k, elist k (WaitL 1), elist k PendingReadyL)) waiting_kernel =
    Some (1, [2], [])" by code_simp
  then show ?thesis using k(1) k1 by (simp add: waiting_kernel_def)
qed

theorem locked_queue_wakeups_witness:
  "\<exists>k k2 q2 k3 q3 q1. waiting_kernel = Some k \<and>
    queue_run (map Inr [SendFromISR (Some [1]) queueSEND_TO_BACK, SendFromISR (Some [2]) queueSEND_TO_BACK])
      (k, prvLockQueue two_bytes) = Some ((k, q1), [Sent queueSEND_TO_BACK [1], Sent queueSEND_TO_BACK [2]]) \<and>
    prvUnlockQueue_tx (k, q1) = Some (k2, q2) \<and> prvUnlockQueue_rx (k2, q2) = Some (k3, q3) \<and>
    elist k3 (WaitL 1) = [] \<and> elist k3 PendingReadyL = [2]"
proof -
  let ?ops = "[SendFromISR (Some [1]) queueSEND_TO_BACK, SendFromISR (Some [2]) queueSEND_TO_BACK]"
  let ?es = "[Sent queueSEND_TO_BACK [1], Sent queueSEND_TO_BACK [2]]"
  obtain k where k: "waiting_kernel = Some k" "kernel_inv 0 k" "uxSchedulerSuspended k \<noteq> 0"
    "elist k (WaitL 1) = [2]" "elist k PendingReadyL = []"
    using waiting_kernel_ok by blast
  have inv: "queue_inv (prvLockQueue two_bytes)"
    using new_queue_reset[of 2 1 "[0, 0]" kernel0 0 1] two_bytes_new lock_refines[of two_bytes]
    by (auto simp: kernel0_def refines_def)
  have fields: "\<not> is_mutex (prvLockQueue two_bytes)" "cTxLock (prvLockQueue two_bytes) = 0"
    "cRxLock (prvLockQueue two_bytes) = 0" "xTasksWaitingToReceive (prvLockQueue two_bytes) = 1"
    "xTasksWaitingToSend (prvLockQueue two_bytes) \<noteq> xTasksWaitingToReceive (prvLockQueue two_bytes)"
    "\<forall>a \<in> set ?ops. isr_op a \<and> allowed (uxItemSize (prvLockQueue two_bytes)) a"
    by (simp_all add: prvLockQueue_def two_bytes_def)
  obtain k1 q1 where run: "queue_run (map Inr ?ops) (k, prvLockQueue two_bytes) = Some ((k1, q1), ?es)"
    by (simp add: xQueueGenericSendFromISR_def prvCopyDataToQueue_def prvLockQueue_def two_bytes_def
        item_bytes_def memcpy_to_def isr_added_def raise_lock_def payload_def Let_def)
  note res = locked_queue_wakeups[OF k(2,3) inv fields(1-3,5,6) run]
  have "sends ?es = 2" "receives ?es = 0" by (simp_all add: sends_def receives_def)
  with res run k(1,4,5) fields(4) show ?thesis by auto
qed

section \<open>Recursive mutexes\<close>


text \<open>How often the mutex is held after them; it is not given back on the way, nor taken \<open>2 ^ 32\<close> times.\<close>

fun held_after :: "nat \<Rightarrow> bool list \<Rightarrow> nat option" where
  "held_after d [] = Some d"
| "held_after d (True # ops) = (if d + 1 < 2 ^ 32 then held_after (d + 1) ops else None)"
| "held_after d (False # ops) = (if d > 1 then held_after (d - 1) ops else None)"

lemma held_after_ge: "held_after d ops = Some n \<Longrightarrow> 0 < d \<Longrightarrow> 0 < n"
  by (induction d ops rule: held_after.induct) (auto split: if_splits)






section \<open>A stale flag\<close>

text \<open>
  The assertion in \<open>xQueueSemaphoreTake\<close> that no priority was inherited when no time is left can
  fail. The time of a task that made the holder inherit is up in the state \<open>s\<close>; in \<open>s2\<close>, once the
  scheduler is resumed and the holder has run, the mutex is available, so the task starts another
  round, with no time left and the flag still set; in \<open>s3\<close>, before its first critical section,
  a task of higher priority has taken the mutex.
\<close>

lemma stale_inheritance_flag:
  assumes "xQueueSemaphoreTake_block tmo ticks True s = Some (s1, tmo', n, TimedOut, flag)"
    "\<And>me. pxCurrentTCB (fst s) = Some me \<Longrightarrow> \<not> ucDelayAborted (tcb (fst s) me)"
    "uxMessagesWaiting (snd s2) > 0" "uxMessagesWaiting (snd s3) = 0"
  shows "xQueueSemaphoreTake_expired flag s2 = Some (s2, False)"
    "xQueueSemaphoreTake_try n flag (Some tmo') s3 = None"
proof -
  obtain k q where s: "s = (k, q)" by fastforce
  have "flag" "n = 0"
    using assms(1,2) s
    by (auto simp: xQueueSemaphoreTake_block_def xTaskCheckForTimeOut_def bind_eq_Some_conv Let_def split: if_splits)
  then show "xQueueSemaphoreTake_expired flag s2 = Some (s2, False)"
    "xQueueSemaphoreTake_try n flag (Some tmo') s3 = None"
    using assms(3,4)
    by (simp_all add: xQueueSemaphoreTake_expired_def prvIsQueueEmpty_def xQueueSemaphoreTake_try_def case_prod_beta)
qed

end
