(* ===== verification/EventGroup.thy ===== *)
theory EventGroup
  imports TaskReach
begin

text \<open>
  Event groups (\<open>freertos/event_groups.c\<close>): a word of bits and an event list of tasks that wait for
  some or all of a set of bits. What a task waits for is the value of its event item, with the
  options in the upper four bits; when its bits come it finds there the bits that were set. A
  blocking function is split where other tasks run: \<open>_enter\<close> is the part up to and including the
  resumption of the scheduler, \<open>_leave\<close> what the task does when it runs again. Setting bits works
  with the scheduler suspended, and interrupts do not touch event groups.
\<close>

section \<open>State\<close>

type_synonym event_bits = "32 word"

abbreviation eventCLEAR_EVENTS_ON_EXIT_BIT :: event_bits where "eventCLEAR_EVENTS_ON_EXIT_BIT \<equiv> 0x40000000"
abbreviation eventUNBLOCKED_DUE_TO_BIT_SET :: event_bits where "eventUNBLOCKED_DUE_TO_BIT_SET \<equiv> 0x20000000"
abbreviation eventWAIT_FOR_ALL_BITS :: event_bits where "eventWAIT_FOR_ALL_BITS \<equiv> 0x10000000"
abbreviation eventEVENT_BITS_CONTROL_BYTES :: event_bits where "eventEVENT_BITS_CONTROL_BYTES \<equiv> 0xf0000000"

record event_group =
  uxEventBits :: event_bits
  xTasksWaitingForBits :: nat

type_synonym eg_sys = "kernel \<times> event_group"

text \<open>The argument is whether the allocation succeeded, and the identity of the new list.\<close>

definition xEventGroupCreate :: "bool \<Rightarrow> nat \<Rightarrow> kernel \<Rightarrow> eg_sys option" where
  "xEventGroupCreate alloc w k =
    (if alloc then Some (k\<lparr>elist := (elist k)(WaitL w := [])\<rparr>, \<lparr>uxEventBits = 0, xTasksWaitingForBits = w\<rparr>)
     else None)"

section \<open>Setting and clearing bits\<close>

definition prvTestWaitCondition :: "event_bits \<Rightarrow> event_bits \<Rightarrow> bool \<Rightarrow> bool" where
  "prvTestWaitCondition uxCurrentEventBits uxBitsToWaitFor xWaitForAllBits =
    (if \<not> xWaitForAllBits then uxCurrentEventBits AND uxBitsToWaitFor \<noteq> 0
     else uxCurrentEventBits AND uxBitsToWaitFor = uxBitsToWaitFor)"

text \<open>
  The loop of \<open>xEventGroupSetBits\<close> over the waiting tasks. It fetches the next item before it removes
  the current one, so it visits the tasks that are on the list when it starts.
\<close>

fun set_bits_loop :: "tid list \<Rightarrow> event_bits \<Rightarrow> event_bits \<Rightarrow> kernel \<Rightarrow> (kernel \<times> event_bits) option" where
  "set_bits_loop [] bits uxBitsToClear k = Some (k, uxBitsToClear)"
| "set_bits_loop (t # ts) bits uxBitsToClear k =
    (let v = event_value (tcb k t);
         uxControlBits = v AND eventEVENT_BITS_CONTROL_BYTES;
         uxBitsWaitedFor = v AND NOT eventEVENT_BITS_CONTROL_BYTES;
         xMatchFound = (if uxControlBits AND eventWAIT_FOR_ALL_BITS = 0 then uxBitsWaitedFor AND bits \<noteq> 0
                        else uxBitsWaitedFor AND bits = uxBitsWaitedFor)
     in if xMatchFound then do {
          k \<leftarrow> vTaskRemoveFromUnorderedEventList t (bits OR eventUNBLOCKED_DUE_TO_BIT_SET) k;
          set_bits_loop ts bits
            (if uxControlBits AND eventCLEAR_EVENTS_ON_EXIT_BIT \<noteq> 0 then uxBitsToClear OR uxBitsWaitedFor
             else uxBitsToClear) k
        }
        else set_bits_loop ts bits uxBitsToClear k)"

definition xEventGroupSetBits_enter :: "event_bits \<Rightarrow> eg_sys \<Rightarrow> eg_sys option" where
  "xEventGroupSetBits_enter uxBitsToSet s = (case s of (k, g) \<Rightarrow> do {
     _ \<leftarrow> guard (uxBitsToSet AND eventEVENT_BITS_CONTROL_BYTES = 0);
     let k = vTaskSuspendAll k;
     let bits = uxEventBits g OR uxBitsToSet;
     (k, clear) \<leftarrow> set_bits_loop (elist k (WaitL (xTasksWaitingForBits g))) bits 0 k;
     (k, _) \<leftarrow> xTaskResumeAll k;
     Some (k, g\<lparr>uxEventBits := bits AND NOT clear\<rparr>)
   })"

text \<open>The result is read after the scheduler is resumed.\<close>

definition xEventGroupSetBits :: "event_bits \<Rightarrow> eg_sys \<Rightarrow> (eg_sys \<times> event_bits) option" where
  "xEventGroupSetBits uxBitsToSet s = do {
     (k, g) \<leftarrow> xEventGroupSetBits_enter uxBitsToSet s;
     Some ((k, g), uxEventBits g)
   }"

definition xEventGroupClearBits :: "event_bits \<Rightarrow> event_group \<Rightarrow> (event_group \<times> event_bits) option" where
  "xEventGroupClearBits uxBitsToClear g =
    (if uxBitsToClear AND eventEVENT_BITS_CONTROL_BYTES = 0
     then Some (g\<lparr>uxEventBits := uxEventBits g AND NOT uxBitsToClear\<rparr>, uxEventBits g) else None)"

definition xEventGroupGetBitsFromISR :: "event_group \<Rightarrow> event_bits" where
  "xEventGroupGetBitsFromISR g = uxEventBits g"

section \<open>Waiting\<close>

text \<open>\<open>xTaskResumeAll\<close>, and a yield if the task is to block and that has not yielded.\<close>

definition eg_resume :: "tick \<Rightarrow> kernel \<Rightarrow> kernel option" where
  "eg_resume ticks k = do {
     (k, already) \<leftarrow> xTaskResumeAll k;
     Some (if ticks \<noteq> 0 \<and> \<not> already then yield k else k)
   }"

text \<open>The results: the ticks that are left, non-zero if the task has blocked, and the bits to return if not.\<close>

definition xEventGroupWaitBits_enter ::
  "event_bits \<Rightarrow> bool \<Rightarrow> bool \<Rightarrow> tick \<Rightarrow> eg_sys \<Rightarrow> (eg_sys \<times> tick \<times> event_bits) option" where
  "xEventGroupWaitBits_enter uxBitsToWaitFor xClearOnExit xWaitForAllBits xTicksToWait s = (case s of (k, g) \<Rightarrow> do {
     _ \<leftarrow> guard (uxBitsToWaitFor AND eventEVENT_BITS_CONTROL_BYTES = 0 \<and> uxBitsToWaitFor \<noteq> 0);
     _ \<leftarrow> guard (\<not> (uxSchedulerSuspended k \<noteq> 0 \<and> xTicksToWait \<noteq> 0));
     let k = vTaskSuspendAll k;
     let cur = uxEventBits g;
     if prvTestWaitCondition cur uxBitsToWaitFor xWaitForAllBits then do {
       k \<leftarrow> eg_resume 0 k;
       Some ((k, if xClearOnExit then g\<lparr>uxEventBits := cur AND NOT uxBitsToWaitFor\<rparr> else g), 0, cur)
     }
     else if xTicksToWait = 0 then do {
       k \<leftarrow> eg_resume 0 k;
       Some ((k, g), 0, cur)
     }
     else do {
       let control = (if xClearOnExit then eventCLEAR_EVENTS_ON_EXIT_BIT else 0) OR
                     (if xWaitForAllBits then eventWAIT_FOR_ALL_BITS else 0);
       k \<leftarrow> vTaskPlaceOnUnorderedEventList (xTasksWaitingForBits g) (uxBitsToWaitFor OR control) xTicksToWait k;
       k \<leftarrow> eg_resume xTicksToWait k;
       Some ((k, g), xTicksToWait, 0)
     }
   })"

text \<open>When the task that blocked runs again.\<close>

definition xEventGroupWaitBits_leave ::
  "event_bits \<Rightarrow> bool \<Rightarrow> bool \<Rightarrow> eg_sys \<Rightarrow> (eg_sys \<times> event_bits) option" where
  "xEventGroupWaitBits_leave uxBitsToWaitFor xClearOnExit xWaitForAllBits s = (case s of (k, g) \<Rightarrow> do {
     (k, v) \<leftarrow> uxTaskResetEventItemValue k;
     if v AND eventUNBLOCKED_DUE_TO_BIT_SET = 0 then do {
       let cur = uxEventBits g;
       Some ((k, if prvTestWaitCondition cur uxBitsToWaitFor xWaitForAllBits \<and> xClearOnExit
                 then g\<lparr>uxEventBits := cur AND NOT uxBitsToWaitFor\<rparr> else g),
             cur AND NOT eventEVENT_BITS_CONTROL_BYTES)
     }
     else Some ((k, g), v AND NOT eventEVENT_BITS_CONTROL_BYTES)
   })"

definition xEventGroupSync_enter ::
  "event_bits \<Rightarrow> event_bits \<Rightarrow> tick \<Rightarrow> eg_sys \<Rightarrow> (eg_sys \<times> tick \<times> event_bits) option" where
  "xEventGroupSync_enter uxBitsToSet uxBitsToWaitFor xTicksToWait s = (case s of (k, g) \<Rightarrow> do {
     _ \<leftarrow> guard (uxBitsToWaitFor AND eventEVENT_BITS_CONTROL_BYTES = 0 \<and> uxBitsToWaitFor \<noteq> 0);
     _ \<leftarrow> guard (\<not> (uxSchedulerSuspended k \<noteq> 0 \<and> xTicksToWait \<noteq> 0));
     let original = uxEventBits g;
     (k, g) \<leftarrow> xEventGroupSetBits_enter uxBitsToSet (vTaskSuspendAll k, g);
     if (original OR uxBitsToSet) AND uxBitsToWaitFor = uxBitsToWaitFor then do {
       k \<leftarrow> eg_resume 0 k;
       Some ((k, g\<lparr>uxEventBits := uxEventBits g AND NOT uxBitsToWaitFor\<rparr>), 0, original OR uxBitsToSet)
     }
     else if xTicksToWait \<noteq> 0 then do {
       k \<leftarrow> vTaskPlaceOnUnorderedEventList (xTasksWaitingForBits g)
             (uxBitsToWaitFor OR eventCLEAR_EVENTS_ON_EXIT_BIT OR eventWAIT_FOR_ALL_BITS) xTicksToWait k;
       k \<leftarrow> eg_resume xTicksToWait k;
       Some ((k, g), xTicksToWait, 0)
     }
     else do {
       k \<leftarrow> eg_resume 0 k;
       Some ((k, g), 0, uxEventBits g)
     }
   })"

definition xEventGroupSync_leave :: "event_bits \<Rightarrow> eg_sys \<Rightarrow> (eg_sys \<times> event_bits) option" where
  "xEventGroupSync_leave uxBitsToWaitFor s = (case s of (k, g) \<Rightarrow> do {
     (k, v) \<leftarrow> uxTaskResetEventItemValue k;
     if v AND eventUNBLOCKED_DUE_TO_BIT_SET = 0 then do {
       let cur = uxEventBits g;
       Some ((k, if cur AND uxBitsToWaitFor = uxBitsToWaitFor
                 then g\<lparr>uxEventBits := cur AND NOT uxBitsToWaitFor\<rparr> else g),
             cur AND NOT eventEVENT_BITS_CONTROL_BYTES)
     }
     else Some ((k, g), v AND NOT eventEVENT_BITS_CONTROL_BYTES)
   })"

section \<open>Deletion\<close>

text \<open>The loop over the waiting tasks, which are all made ready with no bits. Not ending is \<open>None\<close>.\<close>

partial_function (option) delete_loop :: "nat \<Rightarrow> kernel \<Rightarrow> kernel option" where
  "delete_loop w k =
    (case elist k (WaitL w) of
       [] \<Rightarrow> Some k
     | t # _ \<Rightarrow> Option.bind (vTaskRemoveFromUnorderedEventList t eventUNBLOCKED_DUE_TO_BIT_SET k) (delete_loop w))"

declare delete_loop.simps [code]

definition vEventGroupDelete :: "eg_sys \<Rightarrow> kernel option" where
  "vEventGroupDelete s = (case s of (k, g) \<Rightarrow> do {
     k \<leftarrow> delete_loop (xTasksWaitingForBits g) (vTaskSuspendAll k);
     (k, _) \<leftarrow> xTaskResumeAll k;
     Some k
   })"

section \<open>Calls deferred to the timer task\<close>

definition vEventGroupSetBitsCallback :: "32 word \<Rightarrow> eg_sys \<Rightarrow> eg_sys option" where
  "vEventGroupSetBitsCallback ulBitsToSet s = map_option fst (xEventGroupSetBits ulBitsToSet s)"

definition vEventGroupClearBitsCallback :: "32 word \<Rightarrow> event_group \<Rightarrow> event_group option" where
  "vEventGroupClearBitsCallback ulBitsToClear g = map_option fst (xEventGroupClearBits ulBitsToClear g)"

end
