(* ===== verification/EventGroupProps.thy ===== *)
theory EventGroupProps
  imports EventGroup TaskProps
begin

text \<open>
  Setting bits wakes exactly the tasks whose condition then holds and clears exactly the bits that
  they asked to clear; a task that is woken returns with bits that satisfy its condition.
\<close>

section \<open>What a task waits for\<close>

definition eg_match :: "event_bits \<Rightarrow> event_bits \<Rightarrow> bool" where
  "eg_match bits v =
    (if (v AND eventEVENT_BITS_CONTROL_BYTES) AND eventWAIT_FOR_ALL_BITS = 0
     then (v AND NOT eventEVENT_BITS_CONTROL_BYTES) AND bits \<noteq> 0
     else (v AND NOT eventEVENT_BITS_CONTROL_BYTES) AND bits = v AND NOT eventEVENT_BITS_CONTROL_BYTES)"

definition eg_clears :: "event_bits \<Rightarrow> event_bits" where
  "eg_clears v = (if (v AND eventEVENT_BITS_CONTROL_BYTES) AND eventCLEAR_EVENTS_ON_EXIT_BIT \<noteq> 0
    then v AND NOT eventEVENT_BITS_CONTROL_BYTES else 0)"

text \<open>The tasks among \<open>ts\<close> whose condition holds, and the bits that they clear.\<close>

definition eg_hits :: "event_bits \<Rightarrow> kernel \<Rightarrow> tid list \<Rightarrow> tid list" where
  "eg_hits bits k ts = filter (\<lambda>t. eg_match bits (event_value (tcb k t))) ts"

definition eg_cleared :: "event_bits \<Rightarrow> kernel \<Rightarrow> tid list \<Rightarrow> event_bits" where
  "eg_cleared bits k ts = foldr (\<lambda>t c. eg_clears (event_value (tcb k t)) OR c) (eg_hits bits k ts) 0"

definition eg_woken :: "event_bits \<Rightarrow> tcb \<Rightarrow> tcb" where
  "eg_woken bits c = woken (c\<lparr>event_value := bits OR eventUNBLOCKED_DUE_TO_BIT_SET OR taskEVENT_LIST_ITEM_VALUE_IN_USE\<rparr>)"

lemma set_bits_loop_Cons:
  "set_bits_loop (t # ts) bits c k =
    (if eg_match bits (event_value (tcb k t)) then Option.bind
       (vTaskRemoveFromUnorderedEventList t (bits OR eventUNBLOCKED_DUE_TO_BIT_SET) k)
       (set_bits_loop ts bits (c OR eg_clears (event_value (tcb k t))))
     else set_bits_loop ts bits c k)"
  by (simp add: eg_match_def eg_clears_def Let_def cong: if_cong)

declare set_bits_loop.simps(2) [simp del]

section \<open>The loop\<close>

lemma set_bits_loop_ok:
  assumes "kernel_inv idle k" "uxSchedulerSuspended k \<noteq> 0" "distinct ts"
    "\<And>t. t \<in> set ts \<Longrightarrow> event_in (tcb k t) = Some (WaitL w)"
  shows "\<exists>k'. set_bits_loop ts bits c k = Some (k', c OR eg_cleared bits k ts) \<and> kernel_inv idle k' \<and>
    same_main k k' \<and> uxSchedulerSuspended k' = uxSchedulerSuspended k \<and> xPendedTicks k' = xPendedTicks k \<and>
    (\<forall>t. tcb k' t = (if t \<in> set (eg_hits bits k ts) then eg_woken bits (tcb k t) else tcb k t)) \<and>
    elist k' = (elist k)(WaitL w := filter (\<lambda>t. t \<notin> set (eg_hits bits k ts)) (elist k (WaitL w)))"
  using assms
proof (induction ts arbitrary: k c)
  case Nil
  then show ?case by (simp add: eg_hits_def eg_cleared_def fun_upd_idem)
next
  case (Cons t ts)
  have event: "event_in (tcb k t) = Some (WaitL w)" using Cons.prems(4) by simp
  show ?case
  proof (cases "eg_match bits (event_value (tcb k t))")
    case False
    then have "eg_hits bits k (t # ts) = eg_hits bits k ts" "eg_cleared bits k (t # ts) = eg_cleared bits k ts"
      by (simp_all add: eg_hits_def eg_cleared_def)
    then show ?thesis using Cons.IH[OF Cons.prems(1,2), of c] Cons.prems(3,4) False
      by (simp add: set_bits_loop_Cons)
  next
    case True
    obtain k1 where k1: "vTaskRemoveFromUnorderedEventList t (bits OR eventUNBLOCKED_DUE_TO_BIT_SET) k = Some k1"
      "kernel_inv idle k1" "same_main k k1" "tcb k1 = (tcb k)(t := eg_woken bits (tcb k t))"
      "elist k1 = (elist k)(WaitL w := remove1 t (elist k (WaitL w)))"
      "uxSchedulerSuspended k1 = uxSchedulerSuspended k" "xPendedTicks k1 = xPendedTicks k"
      using inv_remove_unordered[OF Cons.prems(1,2) event, of "bits OR eventUNBLOCKED_DUE_TO_BIT_SET"]
      by (auto simp: eg_woken_def or.assoc)
    have other: "tcb k1 u = tcb k u" if "u \<in> set ts" for u using that Cons.prems(3) by (auto simp: k1(4))
    have hits: "eg_hits bits k1 ts = eg_hits bits k ts" unfolding eg_hits_def by (rule filter_cong) (auto simp: other)
    have "foldr (\<lambda>t c. eg_clears (event_value (tcb k1 t)) OR c) xs 0 = foldr (\<lambda>t c. eg_clears (event_value (tcb k t)) OR c) xs 0"
      if "set xs \<subseteq> set ts" for xs using that other by (induction xs) auto
    then have cleared: "eg_cleared bits k1 ts = eg_cleared bits k ts"
      by (simp add: eg_cleared_def hits) (simp add: eg_hits_def)
    have event1: "event_in (tcb k1 u) = Some (WaitL w)" if "u \<in> set ts" for u
      using Cons.prems(4)[of u] that other by simp
    have susp1: "uxSchedulerSuspended k1 \<noteq> 0" using k1(6) Cons.prems(2) by simp
    have dist: "distinct ts" using Cons.prems(3) by simp
    obtain k2 where k2: "set_bits_loop ts bits (c OR eg_clears (event_value (tcb k t))) k1 =
        Some (k2, (c OR eg_clears (event_value (tcb k t))) OR eg_cleared bits k1 ts)" "kernel_inv idle k2" "same_main k1 k2"
      "uxSchedulerSuspended k2 = uxSchedulerSuspended k1" "xPendedTicks k2 = xPendedTicks k1"
      "\<forall>t. tcb k2 t = (if t \<in> set (eg_hits bits k1 ts) then eg_woken bits (tcb k1 t) else tcb k1 t)"
      "elist k2 = (elist k1)(WaitL w := filter (\<lambda>t. t \<notin> set (eg_hits bits k1 ts)) (elist k1 (WaitL w)))"
      using Cons.IH[OF k1(2) susp1 dist event1, of "c OR eg_clears (event_value (tcb k t))"] by blast
    have notin: "t \<notin> set (eg_hits bits k ts)" using Cons.prems(3) by (auto simp: eg_hits_def)
    have hit: "eg_hits bits k (t # ts) = t # eg_hits bits k ts" using True by (simp add: eg_hits_def)
    have all: "eg_cleared bits k (t # ts) = eg_clears (event_value (tcb k t)) OR eg_cleared bits k ts"
      by (simp add: eg_cleared_def hit)
    have "distinct (elist k (WaitL w))" using core_invD(1)[OF kernel_invD(1)[OF Cons.prems(1)]] by (simp add: lists_inv_def)
    then have lists: "elist k2 = (elist k)(WaitL w := filter (\<lambda>u. u \<notin> set (eg_hits bits k (t # ts))) (elist k (WaitL w)))"
      by (simp add: k2(7) k1(5) hits hit distinct_remove1_removeAll removeAll_filter_not_eq)
        (rule arg_cong[where f = "\<lambda>xs. (elist k)(WaitL w := xs)"], auto intro: filter_cong)
    have "tcb k2 u = (if u \<in> set (eg_hits bits k (t # ts)) then eg_woken bits (tcb k u) else tcb k u)" for u
      using k2(6) notin by (auto simp: hit hits k1(4))
    moreover have "same_main k k2" using same_main_trans[OF k1(3) k2(3)] .
    ultimately show ?thesis using True k1(1,6,7) k2(1,2,4,5) lists
      by (intro exI[of _ k2]) (simp add: set_bits_loop_Cons all cleared or.assoc)
  qed
qed

lemma set_bits_enter_ok:
  fixes g :: event_group and b :: event_bits
  assumes inv: "kernel_inv idle k" and me: "running k me" and bits: "b AND eventEVENT_BITS_CONTROL_BYTES = 0"
  defines "w \<equiv> WaitL (xTasksWaitingForBits g)" and "new \<equiv> uxEventBits g OR b"
  shows "\<exists>k'. xEventGroupSetBits_enter b (k, g) = Some (k', g\<lparr>uxEventBits := new AND NOT (eg_cleared new k (elist k w))\<rparr>) \<and>
    kernel_inv idle k' \<and> same_main k k' \<and> uxSchedulerSuspended k' = uxSchedulerSuspended k \<and>
    (\<forall>t. tcb k' t = (if t \<in> set (eg_hits new k (elist k w)) then eg_woken new (tcb k t) else tcb k t)) \<and>
    elist k' = (elist k)(w := filter (\<lambda>t. t \<notin> set (eg_hits new k (elist k w))) (elist k w))"
proof -
  let ?k = "vTaskSuspendAll k"
  have inv1: "kernel_inv idle ?k" by (rule inv_suspend_all[OF inv me])
  have lists: "lists_inv k" by (rule core_invD(1)[OF kernel_invD(1)[OF inv]])
  have same: "elist ?k = elist k" "tcb ?k = tcb k" by (simp_all add: vTaskSuspendAll_def)
  have "eg_hits new ?k = eg_hits new k" "eg_cleared new ?k = eg_cleared new k"
    by (simp_all add: fun_eq_iff eg_hits_def eg_cleared_def)
  then obtain k1 where k1: "set_bits_loop (elist k w) new 0 ?k = Some (k1, eg_cleared new k (elist k w))"
    "kernel_inv idle k1" "same_main ?k k1" "uxSchedulerSuspended k1 = Suc (uxSchedulerSuspended k)"
    "xPendedTicks k1 = xPendedTicks k"
    "\<forall>t. tcb k1 t = (if t \<in> set (eg_hits new k (elist k w)) then eg_woken new (tcb k t) else tcb k t)"
    "elist k1 = (elist k)(w := filter (\<lambda>t. t \<notin> set (eg_hits new k (elist k w))) (elist k w))"
    using set_bits_loop_ok[OF inv1, of "elist k w" "xTasksWaitingForBits g" new 0] lists same
    by (auto simp: lists_inv_def w_def)
  have "elist k1 PendingReadyL = [] \<and> xPendedTicks k1 = 0" if "uxSchedulerSuspended k1 = 1"
    by (rule quiet_lists[OF inv]) (use that k1(4,5,7) in \<open>auto simp: w_def\<close>)
  then obtain k2 c where k2: "xTaskResumeAll k1 = Some (k2, c)" "kernel_inv idle k2" "tcb k2 = tcb k1" "elist k2 = elist k1"
    "same_main k1 k2" "uxSchedulerSuspended k2 = uxSchedulerSuspended k1 - 1"
    using resume_keeps[OF k1(2)] k1(4) by auto
  have "same_main k k2" using same_main_trans[OF same_main_trans[OF suspend_all_simps(7) k1(3)] k2(5)] .
  then show ?thesis using bits k1 k2 same
    by (simp add: xEventGroupSetBits_enter_def Let_def w_def new_def)
qed

section \<open>Setting bits\<close>

lemma xEventGroupSetBits_exact_aux:
  fixes g :: event_group and b :: event_bits
  assumes "kernel_inv idle k" "running k me" "b AND eventEVENT_BITS_CONTROL_BYTES = 0"
  defines "w \<equiv> WaitL (xTasksWaitingForBits g)" and "new \<equiv> uxEventBits g OR b"
  shows "\<exists>k' bits. xEventGroupSetBits b (k, g) = Some ((k', g\<lparr>uxEventBits := bits\<rparr>), bits) \<and>
    bits = new AND NOT (eg_cleared new k (elist k w)) \<and> kernel_inv idle k' \<and>
    uxSchedulerSuspended k' = uxSchedulerSuspended k \<and>
    (\<forall>t. tcb k' t = (if t \<in> set (elist k w) \<and> eg_match new (event_value (tcb k t))
                     then eg_woken new (tcb k t) else tcb k t)) \<and>
    elist k' w = filter (\<lambda>t. \<not> eg_match new (event_value (tcb k t))) (elist k w)"
proof -
  obtain k' where k': "xEventGroupSetBits_enter b (k, g) = Some (k', g\<lparr>uxEventBits := new AND NOT (eg_cleared new k (elist k w))\<rparr>)"
    "kernel_inv idle k'" "uxSchedulerSuspended k' = uxSchedulerSuspended k"
    "\<forall>t. tcb k' t = (if t \<in> set (eg_hits new k (elist k w)) then eg_woken new (tcb k t) else tcb k t)"
    "elist k' = (elist k)(w := filter (\<lambda>t. t \<notin> set (eg_hits new k (elist k w))) (elist k w))"
    using set_bits_enter_ok[OF assms(1-3), of g] unfolding w_def new_def by blast
  have "elist k' w = filter (\<lambda>t. \<not> eg_match new (event_value (tcb k t))) (elist k w)"
    unfolding k'(5) by (auto simp: eg_hits_def intro: filter_cong)
  then show ?thesis using k'(1-4) by (auto simp: xEventGroupSetBits_def eg_hits_def)
qed

text \<open>Property C14: setting bits wakes exactly the waiting tasks whose condition holds for the new bits, all the
  bits they asked for or one of them, and hands them these bits; it clears afterwards exactly the bits
  that these tasks asked to clear, leaves the other tasks and the order of the remaining list
  alone, returns the bits that remain, and keeps the kernel consistent.\<close>

theorem xEventGroupSetBits_exact:
  fixes g :: event_group and b :: event_bits
  assumes "kernel_inv idle k" "running k me" "b AND eventEVENT_BITS_CONTROL_BYTES = 0"
  defines "w \<equiv> WaitL (xTasksWaitingForBits g)" and "new \<equiv> uxEventBits g OR b"
  shows "\<exists>k' bits. xEventGroupSetBits b (k, g) = Some ((k', g\<lparr>uxEventBits := bits\<rparr>), bits) \<and>
    bits = new AND NOT (eg_cleared new k (elist k w)) \<and> kernel_inv idle k' \<and>
    uxSchedulerSuspended k' = uxSchedulerSuspended k \<and>
    (\<forall>t. tcb k' t = (if t \<in> set (elist k w) \<and> eg_match new (event_value (tcb k t))
                     then eg_woken new (tcb k t) else tcb k t)) \<and>
    elist k' w = filter (\<lambda>t. \<not> eg_match new (event_value (tcb k t))) (elist k w)"
  unfolding w_def new_def by (rule xEventGroupSetBits_exact_aux[OF assms(1-3)])

section \<open>Waiting for bits\<close>

lemma mask_disjoint:
  fixes x m :: "32 word"
  assumes "x AND m = 0"
  shows "x AND NOT m = x" "x AND (m AND n) = 0" "(x OR y) AND NOT m = x OR (y AND NOT m)"
proof -
  have "x = x AND (m OR NOT m)" by simp
  also have "\<dots> = (x AND m) OR (x AND NOT m)" by (rule bit.conj_disj_distrib)
  finally show *: "x AND NOT m = x" using assms by simp
  show "x AND (m AND n) = 0" using assms by (simp add: and.assoc[symmetric])
  show "(x OR y) AND NOT m = x OR (y AND NOT m)" by (simp add: bit.conj_disj_distrib2 *)
qed

text \<open>The item value that a waiting task leaves means what it asked for.\<close>

definition wait_value :: "event_bits \<Rightarrow> bool \<Rightarrow> bool \<Rightarrow> event_bits" where
  "wait_value wait clear all = (wait OR (if clear then eventCLEAR_EVENTS_ON_EXIT_BIT else 0) OR
     (if all then eventWAIT_FOR_ALL_BITS else 0)) OR taskEVENT_LIST_ITEM_VALUE_IN_USE"

lemma wait_value_parts:
  assumes "wait AND eventEVENT_BITS_CONTROL_BYTES = 0"
  shows "wait_value wait clear all AND NOT eventEVENT_BITS_CONTROL_BYTES = wait"
    "((wait_value wait clear all AND eventEVENT_BITS_CONTROL_BYTES) AND eventWAIT_FOR_ALL_BITS = 0) = (\<not> all)"
    "((wait_value wait clear all AND eventEVENT_BITS_CONTROL_BYTES) AND eventCLEAR_EVENTS_ON_EXIT_BIT \<noteq> 0) = clear"
proof -
  have parts: "wait_value wait clear all AND m = (wait AND m) OR
      ((if clear then eventCLEAR_EVENTS_ON_EXIT_BIT else 0) AND m) OR
      ((if all then eventWAIT_FOR_ALL_BITS else 0) AND m) OR (taskEVENT_LIST_ITEM_VALUE_IN_USE AND m)" for m
    by (simp only: wait_value_def bit.conj_disj_distrib2 or.assoc)
  show "wait_value wait clear all AND NOT eventEVENT_BITS_CONTROL_BYTES = wait"
    unfolding parts mask_disjoint(1)[OF assms] by (cases clear; cases all) simp_all
  show "((wait_value wait clear all AND eventEVENT_BITS_CONTROL_BYTES) AND eventWAIT_FOR_ALL_BITS = 0) = (\<not> all)"
    unfolding parts assms by (cases clear; cases all) simp_all
  show "((wait_value wait clear all AND eventEVENT_BITS_CONTROL_BYTES) AND eventCLEAR_EVENTS_ON_EXIT_BIT \<noteq> 0) = clear"
    unfolding parts assms by (cases clear; cases all) simp_all
qed

lemma wait_value_match:
  assumes "wait AND eventEVENT_BITS_CONTROL_BYTES = 0"
  shows "eg_match bits (wait_value wait clear all) = prvTestWaitCondition bits wait all"
    "eg_clears (wait_value wait clear all) = (if clear then wait else 0)"
  unfolding eg_match_def eg_clears_def prvTestWaitCondition_def wait_value_parts[OF assms]
  by (simp_all add: and.commute)

lemma cleared_includes:
  "t \<in> set ts \<Longrightarrow> eg_match bits (event_value (tcb k t)) \<Longrightarrow>
    eg_clears (event_value (tcb k t)) AND NOT (eg_cleared bits k ts) = 0"
proof (induction ts)
  case (Cons u us)
  have "x AND NOT (x OR y) = 0" "x AND NOT y = 0 \<Longrightarrow> x AND NOT (z OR y) = 0" for x y z :: event_bits
    by (simp_all add: bit.de_Morgan_disj and.assoc[symmetric])
      (metis and.assoc and.commute bit.conj_zero_left)
  then show ?case using Cons by (auto simp: eg_cleared_def eg_hits_def)
qed simp

lemma wait_enter_blocks:
  assumes inv: "kernel_inv idle k" and me: "running k me" "me \<noteq> idle"
    and bits: "wait AND eventEVENT_BITS_CONTROL_BYTES = 0" "wait \<noteq> 0"
    and susp: "uxSchedulerSuspended k = 0" and ticks: "ticks \<noteq> 0"
    and cond: "\<not> prvTestWaitCondition (uxEventBits g) wait all"
  shows "\<exists>k1. xEventGroupWaitBits_enter wait clear all ticks (k, g) = Some ((k1, g), ticks, 0) \<and>
    kernel_inv idle k1 \<and> uxSchedulerSuspended k1 = 0 \<and> (\<forall>u. u \<noteq> me \<longrightarrow> tcb k1 u = tcb k u) \<and>
    event_in (tcb k1 me) = Some (WaitL (xTasksWaitingForBits g)) \<and> event_value (tcb k1 me) = wait_value wait clear all"
proof -
  let ?k = "vTaskSuspendAll k" and ?w = "xTasksWaitingForBits g"
  let ?v = "wait OR (if clear then eventCLEAR_EVENTS_ON_EXIT_BIT else 0) OR (if all then eventWAIT_FOR_ALL_BITS else 0)"
  have me1: "running ?k me" using me(1) by simp
  have susp1: "uxSchedulerSuspended ?k \<noteq> 0" by simp
  obtain k2 c where k2: "vTaskPlaceOnUnorderedEventList ?w ?v ticks ?k = Some k2" "kernel_inv idle k2" "same_rest ?k k2"
    "tcb k2 = (tcb ?k)(me := c)" "event_in c = Some (WaitL ?w)" "event_value c = ?v OR taskEVENT_LIST_ITEM_VALUE_IN_USE"
    using inv_place_on(2)[OF inv_suspend_all[OF inv me(1)] me1 me(2) ticks susp1, of ?w ?v] by blast
  have rest: "uxSchedulerSuspended k2 = 1" "xPendedTicks k2 = 0"
    using same_rest_simps[OF k2(3)] susp kernel_invD(9)[OF inv susp] by simp_all
  have "event_in (tcb k2 t) \<noteq> Some PendingReadyL" for t
    using kernel_invD(10)[OF inv susp, of t] k2(5) by (auto simp: k2(4))
  then have "elist k2 PendingReadyL = []"
    using core_invD(1)[OF kernel_invD(1)[OF k2(2)]] by (metis last_in_set lists_inv_def)
  then obtain k3 b where k3: "xTaskResumeAll k2 = Some (k3, b)" "kernel_inv idle k3" "tcb k3 = tcb k2" "uxSchedulerSuspended k3 = 0"
    using resume_keeps[OF k2(2)] rest by auto
  have "xEventGroupWaitBits_enter wait clear all ticks (k, g) = Some ((if \<not> b then yield k3 else k3, g), ticks, 0)"
    using bits susp ticks cond k2(1) k3(1) by (simp add: xEventGroupWaitBits_enter_def Let_def eg_resume_def)
  then show ?thesis
    by (rule exI[of _ "if \<not> b then yield k3 else k3", OF conjI]) (use k2(4-6) k3(2-4) in \<open>simp add: yield_def wait_value_def\<close>)
qed

lemma wait_enter_blocked:
  assumes inv: "kernel_inv idle k" and me: "running k me" "me \<noteq> idle"
    and run: "xEventGroupWaitBits_enter wait clear all ticks (k, g) = Some ((k1, g1), n, r)" and n: "n \<noteq> 0"
  shows "wait AND eventEVENT_BITS_CONTROL_BYTES = 0"
    "event_in (tcb k1 me) = Some (WaitL (xTasksWaitingForBits g))"
    "event_value (tcb k1 me) = wait_value wait clear all"
proof -
  have facts: "wait AND eventEVENT_BITS_CONTROL_BYTES = 0" "wait \<noteq> 0" "uxSchedulerSuspended k = 0" "ticks \<noteq> 0"
    "\<not> prvTestWaitCondition (uxEventBits g) wait all"
    using run n by (auto simp: xEventGroupWaitBits_enter_def Let_def guard_bind_Some bind_eq_Some_conv split: if_splits)
  show "wait AND eventEVENT_BITS_CONTROL_BYTES = 0" by (rule facts(1))
  show "event_in (tcb k1 me) = Some (WaitL (xTasksWaitingForBits g))" "event_value (tcb k1 me) = wait_value wait clear all"
    using wait_enter_blocks[OF inv me facts, of clear] run by auto
qed

text \<open>Property C6: a task that blocks in \<open>xEventGroupWaitBits\<close> is woken by exactly those calls of
  \<open>xEventGroupSetBits\<close> after which its condition holds, whatever happened in between as long as it
  was still waiting. When it runs again, in any later state in which it was not touched, the call
  returns the bits at the time they were set, without control bits, for which the condition holds,
  and the bits it asked to clear are cleared. A call after which the condition does not hold leaves
  the task alone.\<close>

theorem event_group_wait_wakes:
  assumes "kernel_inv idle k" "running k me" "me \<noteq> idle"
    "xEventGroupWaitBits_enter wait clear all ticks (k, g) = Some ((k1, g1), n, r)" "n \<noteq> 0"
    "kernel_inv idle k2" "tcb k2 me = tcb k1 me" "running k2 you"
    "xTasksWaitingForBits g2 = xTasksWaitingForBits g" "uxEventBits g2 AND eventEVENT_BITS_CONTROL_BYTES = 0"
    "b AND eventEVENT_BITS_CONTROL_BYTES = 0"
  shows "\<exists>k3 g3 v. xEventGroupSetBits b (k2, g2) = Some ((k3, g3), v) \<and>
    (if prvTestWaitCondition (uxEventBits g2 OR b) wait all
     then ready (tcb k3 me) \<and> (clear \<longrightarrow> wait AND uxEventBits g3 = 0) \<and>
       (\<forall>k4 g4. pxCurrentTCB k4 = Some me \<longrightarrow> tcb k4 me = tcb k3 me \<longrightarrow>
          (\<exists>k5. xEventGroupWaitBits_leave wait clear all (k4, g4) = Some ((k5, g4), uxEventBits g2 OR b)))
     else tcb k3 me = tcb k2 me)"
proof -
  note enter = wait_enter_blocked[OF assms(1-5)]
  let ?new = "uxEventBits g2 OR b" and ?w = "WaitL (xTasksWaitingForBits g2)"
  let ?C = "eg_cleared ?new k2 (elist k2 ?w)"
  have wait: "wait AND eventEVENT_BITS_CONTROL_BYTES = 0" by (rule enter(1))
  have mem: "me \<in> set (elist k2 ?w)"
    using core_invD(1)[OF kernel_invD(1)[OF assms(6)]] enter(2) assms(7,9) by (simp add: lists_inv_def)
  have val: "event_value (tcb k2 me) = wait_value wait clear all" using enter(3) assms(7) by simp
  obtain k3 where k3: "xEventGroupSetBits b (k2, g2) = Some ((k3, g2\<lparr>uxEventBits := ?new AND NOT ?C\<rparr>), ?new AND NOT ?C)"
    "tcb k3 me = (if eg_match ?new (event_value (tcb k2 me)) then eg_woken ?new (tcb k2 me) else tcb k2 me)"
    using xEventGroupSetBits_exact_aux[OF assms(6,8,11), of g2] mem by auto
  have new: "?new AND eventEVENT_BITS_CONTROL_BYTES = 0" using assms(10,11) by (simp add: bit.conj_disj_distrib2)
  show ?thesis
  proof (cases "prvTestWaitCondition ?new wait all")
    case True
    then have match: "eg_match ?new (event_value (tcb k2 me))" by (simp add: val wait_value_match(1)[OF wait])
    then have t3: "tcb k3 me = eg_woken ?new (tcb k2 me)" using k3(2) by simp
    have clears: "clear \<longrightarrow> wait AND (?new AND NOT ?C) = 0"
    proof
      assume clear
      then have "wait AND NOT ?C = 0"
        using cleared_includes[OF mem match] by (simp add: val wait_value_match(2)[OF wait])
      then show "wait AND (?new AND NOT ?C) = 0" by (metis and.left_commute bit.conj_zero_right)
    qed
    have leave: "\<exists>k5. xEventGroupWaitBits_leave wait clear all (k4, g4) = Some ((k5, g4), ?new)"
      if k4: "pxCurrentTCB k4 = Some me" "tcb k4 me = tcb k3 me" for k4 g4
    proof -
      let ?v = "?new OR eventUNBLOCKED_DUE_TO_BIT_SET OR taskEVENT_LIST_ITEM_VALUE_IN_USE"
      have v: "event_value (tcb k4 me) = ?v" using k4(2) t3 by (simp add: eg_woken_def)
      have "?v AND NOT eventEVENT_BITS_CONTROL_BYTES = ?new" using mask_disjoint(3)[OF new] by (simp add: or.assoc)
      moreover have "?v AND eventUNBLOCKED_DUE_TO_BIT_SET \<noteq> 0"
        using mask_disjoint(2)[OF new, of eventUNBLOCKED_DUE_TO_BIT_SET] by (simp add: or.assoc bit.conj_disj_distrib2)
      ultimately show ?thesis using k4(1) v
        by (simp add: xEventGroupWaitBits_leave_def uxTaskResetEventItemValue_def del: word_bw_assocs)
    qed
    have "ready (tcb k3 me)" using t3 by (simp add: eg_woken_def)
    then show ?thesis using k3(1) clears leave True by auto
  next
    case False
    then show ?thesis using k3 by (simp add: val wait_value_match(1)[OF wait])
  qed
qed


section \<open>Examples\<close>

text \<open>Task 2 waits for both of two bits, and another task runs.\<close>

abbreviation eg_example :: event_group where "eg_example \<equiv> \<lparr>uxEventBits = 0, xTasksWaitingForBits = 0\<rparr>"

lemma waiting_example:
  "\<exists>k k1 k2 you. boot [(1, 5), (2, 5)] 0 = Some k \<and> kernel_inv 0 k \<and> running k 2 \<and>
    xEventGroupWaitBits_enter 3 True True 10 (k, eg_example) = Some ((k1, eg_example), 10, 0) \<and>
    take_sw_int k1 = Some k2 \<and> kernel_inv 0 k2 \<and> tcb k2 = tcb k1 \<and> running k2 you \<and>
    event_in (tcb k2 2) = Some (WaitL 0) \<and> event_value (tcb k2 2) = wait_value 3 True True"
proof -
  obtain k where k: "boot [(1, 5), (2, 5)] 0 = Some k" "reachable 0 k" "running k 2" "uxSchedulerSuspended k = 0"
    using boot_example by blast
  obtain k1 where k1: "xEventGroupWaitBits_enter 3 True True 10 (k, eg_example) = Some ((k1, eg_example), 10, 0)"
    "kernel_inv 0 k1" "uxSchedulerSuspended k1 = 0" "\<forall>u. u \<noteq> 2 \<longrightarrow> tcb k1 u = tcb k u"
    "event_in (tcb k1 2) = Some (WaitL 0)" "event_value (tcb k1 2) = wait_value 3 True True"
    using wait_enter_blocks[OF reachable_inv[OF k(2)] k(3) _ _ _ k(4), where wait = 3 and ticks = 10 and g = eg_example
        and all = True and clear = True]
    by (auto simp: prvTestWaitCondition_def)
  obtain k2 you where k2: "take_sw_int k1 = Some k2" "kernel_inv 0 k2" "tcb k2 = tcb k1" "pxCurrentTCB k2 = Some you" "ready (tcb k1 you)"
    using inv_switch[OF k1(2)] k1(3) by auto
  have "you \<noteq> 2" using k2(5) kernel_invD(2)[OF k1(2), of 2] k1(5) by (auto simp: tcb_ok_def)
  then have "running k2 you" using k2(3-5) k1(4) boot_calm[OF k(1), of you] by (simp add: running_def)
  then show ?thesis using k(1,3) reachable_inv[OF k(2)] k1(1,5,6) k2(1-3) by auto
qed

theorem event_group_wait_wakes_witness:
  "\<exists>k k1 k2 k3 g3 v. boot [(1, 5), (2, 5)] 0 = Some k \<and>
    xEventGroupWaitBits_enter 3 True True 10 (k, eg_example) = Some ((k1, eg_example), 10, 0) \<and>
    take_sw_int k1 = Some k2 \<and> xEventGroupSetBits 7 (k2, eg_example) = Some ((k3, g3), v) \<and>
    ready (tcb k3 2) \<and> 3 AND uxEventBits g3 = 0"
proof -
  obtain k k1 k2 you where k: "boot [(1, 5), (2, 5)] 0 = Some k" "kernel_inv 0 k" "running k 2"
    "xEventGroupWaitBits_enter 3 True True 10 (k, eg_example) = Some ((k1, eg_example), 10, 0)"
    "take_sw_int k1 = Some k2" "kernel_inv 0 k2" "tcb k2 = tcb k1" "running k2 you" using waiting_example by blast
  have "tcb k2 2 = tcb k1 2" using k(7) by simp
  from event_group_wait_wakes[OF k(2,3) _ k(4) _ k(6) this k(8), where ?g2.0 = eg_example and b = 7]
  show ?thesis using k(1,4,5) by (auto simp: prvTestWaitCondition_def)
qed

theorem xEventGroupSetBits_exact_witness:
  "\<exists>k k3. kernel_inv 0 k \<and> event_in (tcb k 2) = Some (WaitL 0) \<and>
    (\<exists>bits. xEventGroupSetBits 7 (k, eg_example) = Some ((k3, eg_example\<lparr>uxEventBits := bits\<rparr>), bits)) \<and>
    tcb k3 2 = eg_woken 7 (tcb k 2) \<and> kernel_inv 0 k3"
proof -
  obtain k you where k: "kernel_inv 0 k" "running k you" "event_in (tcb k 2) = Some (WaitL 0)"
    "event_value (tcb k 2) = wait_value 3 True True" using waiting_example by blast
  have mem: "2 \<in> set (elist k (WaitL 0))"
    using core_invD(1)[OF kernel_invD(1)[OF k(1)]] k(3) by (simp add: lists_inv_def)
  have match: "eg_match 7 (wait_value 3 True True)" by (simp add: wait_value_match prvTestWaitCondition_def)
  from xEventGroupSetBits_exact[OF k(1,2), where g = eg_example and b = 7] mem match k(1,3,4)
  show ?thesis by fastforce
qed

section \<open>Deletion\<close>

lemma delete_loop_ok:
  assumes "kernel_inv idle k" "uxSchedulerSuspended k \<noteq> 0" "elist k (WaitL w) = ts"
  shows "\<exists>k'. delete_loop w k = Some k' \<and> kernel_inv idle k' \<and> same_main k k' \<and>
    uxSchedulerSuspended k' = uxSchedulerSuspended k \<and> xPendedTicks k' = xPendedTicks k \<and>
    elist k' = (elist k)(WaitL w := []) \<and>
    (\<forall>t. tcb k' t = (if t \<in> set ts then eg_woken 0 (tcb k t) else tcb k t))"
  using assms
proof (induction ts arbitrary: k)
  case Nil
  then show ?case by (subst delete_loop.simps) (simp add: fun_upd_idem)
next
  case (Cons t ts)
  have lists: "lists_inv k" by (rule core_invD(1)[OF kernel_invD(1)[OF Cons.prems(1)]])
  have event: "event_in (tcb k t) = Some (WaitL w)"
    using lists Cons.prems(3) by (metis list.set_intros(1) lists_inv_def)
  have t: "t \<notin> set ts" using lists Cons.prems(3) by (metis distinct.simps(2) lists_inv_def)
  obtain k1 where k1: "vTaskRemoveFromUnorderedEventList t eventUNBLOCKED_DUE_TO_BIT_SET k = Some k1"
    "kernel_inv idle k1" "same_main k k1" "tcb k1 = (tcb k)(t := eg_woken 0 (tcb k t))"
    "elist k1 = (elist k)(WaitL w := ts)"
    "uxSchedulerSuspended k1 = uxSchedulerSuspended k" "xPendedTicks k1 = xPendedTicks k"
    using inv_remove_unordered[OF Cons.prems(1,2) event, of eventUNBLOCKED_DUE_TO_BIT_SET] Cons.prems(3)
    by (auto simp: eg_woken_def)
  have susp1: "uxSchedulerSuspended k1 \<noteq> 0" and list1: "elist k1 (WaitL w) = ts" using k1(5,6) Cons.prems(2) by simp_all
  obtain k2 where k2: "delete_loop w k1 = Some k2" "kernel_inv idle k2" "same_main k1 k2"
    "uxSchedulerSuspended k2 = uxSchedulerSuspended k1" "xPendedTicks k2 = xPendedTicks k1"
    "elist k2 = (elist k1)(WaitL w := [])"
    "\<forall>t. tcb k2 t = (if t \<in> set ts then eg_woken 0 (tcb k1 t) else tcb k1 t)"
    using Cons.IH[OF k1(2) susp1 list1] by blast
  have "delete_loop w k = Some k2" using Cons.prems(3) k1(1) k2(1) by (subst delete_loop.simps) simp
  moreover have "same_main k k2" by (rule same_main_trans[OF k1(3) k2(3)])
  ultimately show ?case using k2 k1 t by (intro exI[of _ k2]) auto
qed

text \<open>Property C28: deleting an event group ends: it makes every waiting task ready, with a value that holds
  no bits, changes no other task, leaves the waiting list empty and keeps the kernel consistent.\<close>

theorem vEventGroupDelete_wakes_all:
  assumes "kernel_inv idle k" "running k me"
  shows "\<exists>k'. vEventGroupDelete (k, g) = Some k' \<and> kernel_inv idle k' \<and>
    uxSchedulerSuspended k' = uxSchedulerSuspended k \<and> elist k' (WaitL (xTasksWaitingForBits g)) = [] \<and>
    (\<forall>t. tcb k' t = (if event_in (tcb k t) = Some (WaitL (xTasksWaitingForBits g))
                     then eg_woken 0 (tcb k t) else tcb k t))"
proof -
  let ?w = "xTasksWaitingForBits g"
  have lists: "lists_inv k" by (rule core_invD(1)[OF kernel_invD(1)[OF assms(1)]])
  obtain k1 where k1: "delete_loop ?w (vTaskSuspendAll k) = Some k1" "kernel_inv idle k1"
    "uxSchedulerSuspended k1 = Suc (uxSchedulerSuspended k)" "xPendedTicks k1 = xPendedTicks k"
    "elist k1 = (elist k)(WaitL ?w := [])"
    "\<forall>t. tcb k1 t = (if t \<in> set (elist k (WaitL ?w)) then eg_woken 0 (tcb k t) else tcb k t)"
    using delete_loop_ok[OF inv_suspend_all[OF assms], of ?w] by (auto simp: vTaskSuspendAll_def)
  have "elist k1 PendingReadyL = [] \<and> xPendedTicks k1 = 0" if "uxSchedulerSuspended k1 = 1"
    by (rule quiet_lists[OF assms(1)]) (use that k1(3-5) in auto)
  then obtain k2 b where k2: "xTaskResumeAll k1 = Some (k2, b)" "kernel_inv idle k2" "tcb k2 = tcb k1" "elist k2 = elist k1"
    "uxSchedulerSuspended k2 = uxSchedulerSuspended k1 - 1"
    using resume_keeps[OF k1(2)] k1(3) by auto
  have "t \<in> set (elist k (WaitL ?w)) \<longleftrightarrow> event_in (tcb k t) = Some (WaitL ?w)" for t
    using lists by (simp add: lists_inv_def)
  then show ?thesis using k1 k2 by (simp add: vEventGroupDelete_def)
qed

theorem vEventGroupDelete_wakes_all_witness:
  "\<exists>k k'. kernel_inv 0 k \<and> event_in (tcb k 2) = Some (WaitL 0) \<and> vEventGroupDelete (k, eg_example) = Some k' \<and>
    tcb k' 2 = eg_woken 0 (tcb k 2) \<and> elist k' (WaitL 0) = []"
proof -
  obtain k you where k: "kernel_inv 0 k" "running k you" "event_in (tcb k 2) = Some (WaitL 0)"
    using waiting_example by blast
  from vEventGroupDelete_wakes_all[OF k(1,2), where g = eg_example] k(1,3) show ?thesis by fastforce
qed

end
