(* ===== verification/Timers.thy ===== *)
theory Timers
  imports Queue
begin

text \<open>
  Software timers (\<open>freertos/timers.c\<close>). A timer task keeps the active timers in two lists sorted by
  expiry time: the current list has those that expire before the tick count overflows, the other
  list those that expire after it. Other tasks and interrupts send it commands through a queue.
  The functions here are those of the timer task; what they find in the tick count is an argument,
  since it advances while they run. The functions that a timer calls, and those that are
  deferred to the timer task, are the application's: they are parameters, and may do anything
  with the rest of the system, the field \<open>world\<close>. The field \<open>fired\<close> records the calls.
\<close>

section \<open>State\<close>

type_synonym timer_handle = "32 word"

record timer =
  xTimerPeriodInTicks :: tick
  pvTimerID :: "32 word"
  ucStatus :: "8 word"
  item_val :: tick
  item_in :: "bool option"

abbreviation tmrSTATUS_IS_ACTIVE :: "8 word" where "tmrSTATUS_IS_ACTIVE \<equiv> 1"
abbreviation tmrSTATUS_IS_AUTORELOAD :: "8 word" where "tmrSTATUS_IS_AUTORELOAD \<equiv> 4"
abbreviation tmrMAX_TIME_BEFORE_OVERFLOW :: tick where "tmrMAX_TIME_BEFORE_OVERFLOW \<equiv> - 1"

text \<open>The two lists are \<open>tlist False\<close> and \<open>tlist True\<close>; the overflow list is the one that is not current.\<close>

record 'w timers =
  tmr :: "timer_handle \<Rightarrow> timer option"
  tlist :: "bool \<Rightarrow> timer_handle list"
  pxCurrentTimerList :: bool
  xLastTime :: tick
  fired :: "timer_handle list"
  world :: 'w

type_synonym 'w callback = "timer_handle \<Rightarrow> 'w timers \<Rightarrow> 'w timers"

definition upd_tmr :: "timer_handle \<Rightarrow> (timer \<Rightarrow> timer) \<Rightarrow> 'w timers \<Rightarrow> 'w timers" where
  "upd_tmr t f s = s\<lparr>tmr := (tmr s)(t := map_option f (tmr s t))\<rparr>"

definition expiry_value :: "'w timers \<Rightarrow> timer_handle \<Rightarrow> nat" where
  "expiry_value s t = (case tmr s t of None \<Rightarrow> 0 | Some c \<Rightarrow> unat (item_val c))"

text \<open>\<open>uxListRemove\<close> and \<open>vListInsert\<close> of the item of a timer.\<close>

definition timer_remove :: "timer_handle \<Rightarrow> 'w timers \<Rightarrow> 'w timers option" where
  "timer_remove t s = do {
     c \<leftarrow> tmr s t;
     l \<leftarrow> item_in c;
     Some (upd_tmr t (item_in_update (\<lambda>_. None)) (s\<lparr>tlist := (tlist s)(l := remove1 t (tlist s l))\<rparr>))
   }"

definition timer_insert :: "bool \<Rightarrow> timer_handle \<Rightarrow> 'w timers \<Rightarrow> 'w timers" where
  "timer_insert l t s = upd_tmr t (item_in_update (\<lambda>_. Some l))
     (s\<lparr>tlist := (tlist s)(l := insert_by (expiry_value s) t (tlist s l))\<rparr>)"

definition call_back :: "'w callback \<Rightarrow> timer_handle \<Rightarrow> 'w timers \<Rightarrow> 'w timers" where
  "call_back cb t s = cb t (s\<lparr>fired := fired s @ [t]\<rparr>)"

definition auto_reload :: "timer \<Rightarrow> bool" where
  "auto_reload c = (ucStatus c AND tmrSTATUS_IS_AUTORELOAD \<noteq> 0)"

definition set_active :: "timer_handle \<Rightarrow> 'w timers \<Rightarrow> 'w timers" where
  "set_active t = upd_tmr t (\<lambda>c. c\<lparr>ucStatus := ucStatus c OR tmrSTATUS_IS_ACTIVE\<rparr>)"

definition set_inactive :: "timer_handle \<Rightarrow> 'w timers \<Rightarrow> 'w timers" where
  "set_inactive t = upd_tmr t (\<lambda>c. c\<lparr>ucStatus := ucStatus c AND NOT tmrSTATUS_IS_ACTIVE\<rparr>)"

section \<open>Creating timers\<close>

definition tmrSIZE_OF_MESSAGE :: nat where
  "tmrSIZE_OF_MESSAGE = 16"

text \<open>The queue is created with the first timer, or when the scheduler starts.\<close>

definition prvCheckForValidListAndQueue ::
  "nat \<Rightarrow> nat \<Rightarrow> 8 word list option \<Rightarrow> nat \<Rightarrow> nat \<Rightarrow> (kernel \<times> queue option) timers \<Rightarrow>
   (kernel \<times> queue option) timers option" where
  "prvCheckForValidListAndQueue queue_t configTIMER_QUEUE_LENGTH mem ws wr s = (case world s of (k, xTimerQueue) \<Rightarrow>
    (if xTimerQueue = None then do {
       let s = s\<lparr>tlist := (\<lambda>_. []), pxCurrentTimerList := False\<rparr>;
       r \<leftarrow> xQueueGenericCreate queue_t configTIMER_QUEUE_LENGTH tmrSIZE_OF_MESSAGE mem ws wr k;
       Some (s\<lparr>world := (case r of None \<Rightarrow> (k, None) | Some (k, q) \<Rightarrow> (k, Some q))\<rparr>)
     }
     else Some s))"

definition prvInitialiseNewTimer ::
  "nat \<Rightarrow> nat \<Rightarrow> 8 word list option \<Rightarrow> nat \<Rightarrow> nat \<Rightarrow> tick \<Rightarrow> bool \<Rightarrow> 32 word \<Rightarrow> timer_handle \<Rightarrow>
   (kernel \<times> queue option) timers \<Rightarrow> (kernel \<times> queue option) timers option" where
  "prvInitialiseNewTimer queue_t configTIMER_QUEUE_LENGTH mem ws wr xTimerPeriod uxAutoReload pvID t s = do {
     _ \<leftarrow> guard (xTimerPeriod > 0);
     s \<leftarrow> prvCheckForValidListAndQueue queue_t configTIMER_QUEUE_LENGTH mem ws wr s;
     Some (s\<lparr>tmr := (tmr s)(t := Some
       \<lparr>xTimerPeriodInTicks = xTimerPeriod, pvTimerID = pvID,
        ucStatus = (if uxAutoReload then tmrSTATUS_IS_AUTORELOAD else 0), item_val = 0, item_in = None\<rparr>)\<rparr>)
   }"

text \<open>The handle is the address of the new block, \<open>None\<close> if there is no memory.\<close>

definition xTimerCreate ::
  "nat \<Rightarrow> nat \<Rightarrow> 8 word list option \<Rightarrow> nat \<Rightarrow> nat \<Rightarrow> tick \<Rightarrow> bool \<Rightarrow> 32 word \<Rightarrow> timer_handle option \<Rightarrow>
   (kernel \<times> queue option) timers \<Rightarrow> (kernel \<times> queue option) timers option" where
  "xTimerCreate queue_t configTIMER_QUEUE_LENGTH mem ws wr xTimerPeriod uxAutoReload pvID block s =
    (case block of
       None \<Rightarrow> Some s
     | Some t \<Rightarrow> prvInitialiseNewTimer queue_t configTIMER_QUEUE_LENGTH mem ws wr xTimerPeriod uxAutoReload pvID t s)"

text \<open>The creation of the timer task when the scheduler starts; \<open>p\<close> is \<open>configTIMER_TASK_PRIORITY\<close>.\<close>

definition xTimerCreateTimerTask ::
  "nat \<Rightarrow> nat \<Rightarrow> 8 word list option \<Rightarrow> nat \<Rightarrow> nat \<Rightarrow> tid \<Rightarrow> nat \<Rightarrow>
   (kernel \<times> queue option) timers \<Rightarrow> (kernel \<times> queue option) timers option" where
  "xTimerCreateTimerTask queue_t configTIMER_QUEUE_LENGTH mem ws wr t p s = do {
     s \<leftarrow> prvCheckForValidListAndQueue queue_t configTIMER_QUEUE_LENGTH mem ws wr s;
     let (k, xTimerQueue) = world s;
     _ \<leftarrow> guard (xTimerQueue \<noteq> None);
     k \<leftarrow> xTaskCreate t p k;
     Some (s\<lparr>world := (k, xTimerQueue)\<rparr>)
   }"

section \<open>Reading and setting the fields of a timer\<close>

definition xTimerGetPeriod :: "timer_handle \<Rightarrow> 'w timers \<Rightarrow> tick option" where
  "xTimerGetPeriod t s = map_option xTimerPeriodInTicks (tmr s t)"

definition xTimerGetExpiryTime :: "timer_handle \<Rightarrow> 'w timers \<Rightarrow> tick option" where
  "xTimerGetExpiryTime t s = map_option item_val (tmr s t)"

definition xTimerIsTimerActive :: "timer_handle \<Rightarrow> 'w timers \<Rightarrow> bool option" where
  "xTimerIsTimerActive t s = map_option (\<lambda>c. ucStatus c AND tmrSTATUS_IS_ACTIVE \<noteq> 0) (tmr s t)"

definition uxTimerGetReloadMode :: "timer_handle \<Rightarrow> 'w timers \<Rightarrow> bool option" where
  "uxTimerGetReloadMode t s = map_option auto_reload (tmr s t)"

definition vTimerSetReloadMode :: "timer_handle \<Rightarrow> bool \<Rightarrow> 'w timers \<Rightarrow> 'w timers option" where
  "vTimerSetReloadMode t uxAutoReload s = do {
     _ \<leftarrow> tmr s t;
     Some (upd_tmr t (\<lambda>c. c\<lparr>ucStatus := (if uxAutoReload then ucStatus c OR tmrSTATUS_IS_AUTORELOAD
                                          else ucStatus c AND NOT tmrSTATUS_IS_AUTORELOAD)\<rparr>) s)
   }"

definition pvTimerGetTimerID :: "timer_handle \<Rightarrow> 'w timers \<Rightarrow> 32 word option" where
  "pvTimerGetTimerID t s = map_option pvTimerID (tmr s t)"

definition vTimerSetTimerID :: "timer_handle \<Rightarrow> 32 word \<Rightarrow> 'w timers \<Rightarrow> 'w timers option" where
  "vTimerSetTimerID t new s = do { _ \<leftarrow> tmr s t; Some (upd_tmr t (pvTimerID_update (\<lambda>_. new)) s) }"

section \<open>Expiry\<close>

text \<open>The result says whether the timer has to be processed now.\<close>

definition prvInsertTimerInActiveList ::
  "timer_handle \<Rightarrow> tick \<Rightarrow> tick \<Rightarrow> tick \<Rightarrow> 'w timers \<Rightarrow> ('w timers \<times> bool) option" where
  "prvInsertTimerInActiveList t xNextExpiryTime xTimeNow xCommandTime s = do {
     c \<leftarrow> tmr s t;
     let s = upd_tmr t (item_val_update (\<lambda>_. xNextExpiryTime)) s;
     if xNextExpiryTime \<le> xTimeNow then
       (if xTimeNow - xCommandTime \<ge> xTimerPeriodInTicks c then Some (s, True)
        else Some (timer_insert (\<not> pxCurrentTimerList s) t s, False))
     else
       (if xTimeNow < xCommandTime \<and> xNextExpiryTime \<ge> xCommandTime then Some (s, True)
        else Some (timer_insert (pxCurrentTimerList s) t s, False))
   }"

text \<open>The loop that makes up for missed periods. Not ending is \<open>None\<close>.\<close>

partial_function (option) prvReloadTimer ::
  "'w callback \<Rightarrow> timer_handle \<Rightarrow> tick \<Rightarrow> tick \<Rightarrow> 'w timers \<Rightarrow> 'w timers option" where
  "prvReloadTimer cb t xExpiredTime xTimeNow s =
    Option.bind (tmr s t) (\<lambda>c.
    Option.bind (prvInsertTimerInActiveList t (xExpiredTime + xTimerPeriodInTicks c) xTimeNow xExpiredTime s) (\<lambda>(s1, due).
      if due then prvReloadTimer cb t (xExpiredTime + xTimerPeriodInTicks c) xTimeNow (call_back cb t s1)
      else Some s1))"

declare prvReloadTimer.simps [code]

definition prvProcessExpiredTimer :: "'w callback \<Rightarrow> tick \<Rightarrow> tick \<Rightarrow> 'w timers \<Rightarrow> 'w timers option" where
  "prvProcessExpiredTimer cb xNextExpireTime xTimeNow s =
    (case tlist s (pxCurrentTimerList s) of
       [] \<Rightarrow> None
     | t # _ \<Rightarrow> do {
         s \<leftarrow> timer_remove t s;
         c \<leftarrow> tmr s t;
         s \<leftarrow> (if auto_reload c then prvReloadTimer cb t xNextExpireTime xTimeNow s else Some (set_inactive t s));
         Some (call_back cb t s)
       })"

partial_function (option) switch_loop :: "'w callback \<Rightarrow> 'w timers \<Rightarrow> 'w timers option" where
  "switch_loop cb s =
    (case tlist s (pxCurrentTimerList s) of
       [] \<Rightarrow> Some s
     | t # _ \<Rightarrow> Option.bind (tmr s t) (\<lambda>c.
         Option.bind (prvProcessExpiredTimer cb (item_val c) tmrMAX_TIME_BEFORE_OVERFLOW s) (switch_loop cb)))"

declare switch_loop.simps [code]

definition prvSwitchTimerLists :: "'w callback \<Rightarrow> 'w timers \<Rightarrow> 'w timers option" where
  "prvSwitchTimerLists cb s = do {
     s \<leftarrow> switch_loop cb s;
     Some (s\<lparr>pxCurrentTimerList := \<not> pxCurrentTimerList s\<rparr>)
   }"

text \<open>The first argument is the tick count; the result says whether the lists were switched.\<close>

definition prvSampleTimeNow :: "tick \<Rightarrow> 'w callback \<Rightarrow> 'w timers \<Rightarrow> ('w timers \<times> bool) option" where
  "prvSampleTimeNow xTimeNow cb s = do {
     (s, switched) \<leftarrow> (if xTimeNow < xLastTime s then do { s \<leftarrow> prvSwitchTimerLists cb s; Some (s, True) }
                       else Some (s, False));
     Some (s\<lparr>xLastTime := xTimeNow\<rparr>, switched)
   }"

text \<open>The next expiry time and whether the list is empty.\<close>

definition prvGetNextExpireTime :: "'w timers \<Rightarrow> (tick \<times> bool) option" where
  "prvGetNextExpireTime s =
    (case tlist s (pxCurrentTimerList s) of
       [] \<Rightarrow> Some (0, True)
     | t # _ \<Rightarrow> map_option (\<lambda>c. (item_val c, False)) (tmr s t))"

section \<open>Commands\<close>

abbreviation tmrCOMMAND_EXECUTE_CALLBACK_FROM_ISR :: "32 word" where "tmrCOMMAND_EXECUTE_CALLBACK_FROM_ISR \<equiv> - 2"
abbreviation tmrCOMMAND_EXECUTE_CALLBACK :: "32 word" where "tmrCOMMAND_EXECUTE_CALLBACK \<equiv> - 1"
abbreviation tmrCOMMAND_START :: "32 word" where "tmrCOMMAND_START \<equiv> 1"
abbreviation tmrCOMMAND_RESET :: "32 word" where "tmrCOMMAND_RESET \<equiv> 2"
abbreviation tmrCOMMAND_STOP :: "32 word" where "tmrCOMMAND_STOP \<equiv> 3"
abbreviation tmrCOMMAND_CHANGE_PERIOD :: "32 word" where "tmrCOMMAND_CHANGE_PERIOD \<equiv> 4"
abbreviation tmrCOMMAND_DELETE :: "32 word" where "tmrCOMMAND_DELETE \<equiv> 5"
abbreviation tmrFIRST_FROM_ISR_COMMAND :: "32 word" where "tmrFIRST_FROM_ISR_COMMAND \<equiv> 6"
abbreviation tmrCOMMAND_START_FROM_ISR :: "32 word" where "tmrCOMMAND_START_FROM_ISR \<equiv> 6"
abbreviation tmrCOMMAND_RESET_FROM_ISR :: "32 word" where "tmrCOMMAND_RESET_FROM_ISR \<equiv> 7"
abbreviation tmrCOMMAND_STOP_FROM_ISR :: "32 word" where "tmrCOMMAND_STOP_FROM_ISR \<equiv> 8"
abbreviation tmrCOMMAND_CHANGE_PERIOD_FROM_ISR :: "32 word" where "tmrCOMMAND_CHANGE_PERIOD_FROM_ISR \<equiv> 9"

text \<open>A message is an identifier and a union; which member it has depends on the sign of the identifier.\<close>

datatype message_union =
    xTimerParameters tick timer_handle
  | xCallbackParameters "32 word" "32 word" "32 word"

record daemon_message =
  xMessageID :: "32 word"
  message_u :: message_union

text \<open>
  The bytes of the structure, which the queue copies. The parameters of a command are one word shorter
  than the union; the argument \<open>pad\<close> is what the stack holds there.
\<close>

definition word_bytes :: "32 word \<Rightarrow> 8 word list" where
  "word_bytes w = le32_bytes (unat w)"

definition word_of_bytes :: "8 word list \<Rightarrow> 32 word" where
  "word_of_bytes bs = of_nat (le32_value bs)"

definition message_bytes :: "32 word \<Rightarrow> daemon_message \<Rightarrow> 8 word list" where
  "message_bytes pad m = word_bytes (xMessageID m) @
    (case message_u m of
       xTimerParameters v t \<Rightarrow> word_bytes v @ word_bytes t @ word_bytes pad
     | xCallbackParameters f p1 p2 \<Rightarrow> word_bytes f @ word_bytes p1 @ word_bytes p2)"

definition message_of_bytes :: "8 word list \<Rightarrow> daemon_message" where
  "message_of_bytes bs =
    (let i = word_of_bytes (take 4 bs); a = word_of_bytes (take 4 (drop 4 bs));
         b = word_of_bytes (take 4 (drop 8 bs)); c = word_of_bytes (take 4 (drop 12 bs))
     in \<lparr>xMessageID = i, message_u = (if sint i < 0 then xCallbackParameters a b c else xTimerParameters a b)\<rparr>)"

text \<open>The body of the loop of \<open>prvProcessReceivedCommands\<close>; \<open>pf\<close> is what the pended functions do.\<close>

definition process_command ::
  "'w callback \<Rightarrow> (32 word \<Rightarrow> 32 word \<Rightarrow> 32 word \<Rightarrow> 'w timers \<Rightarrow> 'w timers) \<Rightarrow> tick \<Rightarrow> daemon_message \<Rightarrow>
   'w timers \<Rightarrow> 'w timers option" where
  "process_command cb pf tick_count m s =
    (case message_u m of
       xCallbackParameters f p1 p2 \<Rightarrow> Some (pf f p1 p2 s)
     | xTimerParameters v t \<Rightarrow> do {
         c \<leftarrow> tmr s t;
         s \<leftarrow> (if item_in c \<noteq> None then timer_remove t s else Some s);
         (s, _) \<leftarrow> prvSampleTimeNow tick_count cb s;
         let i = xMessageID m;
         if i = tmrCOMMAND_START \<or> i = tmrCOMMAND_START_FROM_ISR \<or> i = tmrCOMMAND_RESET \<or> i = tmrCOMMAND_RESET_FROM_ISR
         then do {
           let s = set_active t s;
           c \<leftarrow> tmr s t;
           (s, due) \<leftarrow> prvInsertTimerInActiveList t (v + xTimerPeriodInTicks c) tick_count v s;
           if due then do {
             c \<leftarrow> tmr s t;
             s \<leftarrow> (if auto_reload c then prvReloadTimer cb t (v + xTimerPeriodInTicks c) tick_count s
                  else Some (set_inactive t s));
             Some (call_back cb t s)
           }
           else Some s
         }
         else if i = tmrCOMMAND_STOP \<or> i = tmrCOMMAND_STOP_FROM_ISR then Some (set_inactive t s)
         else if i = tmrCOMMAND_CHANGE_PERIOD \<or> i = tmrCOMMAND_CHANGE_PERIOD_FROM_ISR
         then do {
           let s = upd_tmr t (xTimerPeriodInTicks_update (\<lambda>_. v)) (set_active t s);
           _ \<leftarrow> guard (v > 0);
           (s, _) \<leftarrow> prvInsertTimerInActiveList t (tick_count + v) tick_count tick_count s;
           Some s
         }
         else if i = tmrCOMMAND_DELETE then Some (s\<lparr>tmr := (tmr s)(t := None)\<rparr>)
         else Some s
       })"

text \<open>One round of the loop: receive a message without waiting, and process it.\<close>

definition receive_command ::
  "sys callback \<Rightarrow> (32 word \<Rightarrow> 32 word \<Rightarrow> 32 word \<Rightarrow> sys timers \<Rightarrow> sys timers) \<Rightarrow> tick \<Rightarrow>
   sys timers \<Rightarrow> (sys timers \<times> bool) option" where
  "receive_command cb pf tick_count s = do {
     (w, r, bs) \<leftarrow> xQueueReceive_try (Some tmrSIZE_OF_MESSAGE) 0 None (world s);
     let s = s\<lparr>world := w\<rparr>;
     if r = Moved then do {
       s \<leftarrow> process_command cb pf tick_count (message_of_bytes bs) s;
       Some (s, True)
     }
     else Some (s, False)
   }"

section \<open>The timer task\<close>

definition prvProcessTimerOrBlockTask :: "sys callback \<Rightarrow> tick \<Rightarrow> bool \<Rightarrow> sys timers \<Rightarrow> sys timers option" where
  "prvProcessTimerOrBlockTask cb xNextExpireTime xListWasEmpty s = (case world s of (k, q) \<Rightarrow> do {
     let k = vTaskSuspendAll k;
     let xTimeNow = xTickCount k;
     (s, switched) \<leftarrow> prvSampleTimeNow xTimeNow cb (s\<lparr>world := (k, q)\<rparr>);
     let (k, q) = world s;
     if \<not> switched then
       (if \<not> xListWasEmpty \<and> xNextExpireTime \<le> xTimeNow then do {
          (k, _) \<leftarrow> xTaskResumeAll k;
          prvProcessExpiredTimer cb xNextExpireTime xTimeNow (s\<lparr>world := (k, q)\<rparr>)
        }
        else do {
          let forever = (if xListWasEmpty then tlist s (\<not> pxCurrentTimerList s) = [] else xListWasEmpty);
          (k, q) \<leftarrow> vQueueWaitForMessageRestricted (xNextExpireTime - xTimeNow) forever (k, q);
          (k, already) \<leftarrow> xTaskResumeAll k;
          Some (s\<lparr>world := (if already then k else yield k, q)\<rparr>)
        })
     else do {
       (k, _) \<leftarrow> xTaskResumeAll k;
       Some (s\<lparr>world := (k, q)\<rparr>)
     }
   })"

section \<open>Sending commands\<close>

datatype scheduler_state = taskSCHEDULER_NOT_STARTED | taskSCHEDULER_RUNNING | taskSCHEDULER_SUSPENDED

definition xTaskGetSchedulerState :: "kernel \<Rightarrow> scheduler_state" where
  "xTaskGetSchedulerState k =
    (if \<not> xSchedulerRunning k then taskSCHEDULER_NOT_STARTED
     else if uxSchedulerSuspended k = 0 then taskSCHEDULER_RUNNING else taskSCHEDULER_SUSPENDED)"

definition timer_command :: "timer_handle \<Rightarrow> 32 word \<Rightarrow> tick \<Rightarrow> daemon_message" where
  "timer_command xTimer xCommandID xOptionalValue =
    \<lparr>xMessageID = xCommandID, message_u = xTimerParameters xOptionalValue xTimer\<rparr>"

text \<open>
  The two forms of \<open>xTimerGenericCommand\<close>, for tasks and for interrupts. That of tasks is the first
  critical section of \<open>xQueueSendToBack\<close>; the rounds of its loop are those of \<open>queue.c\<close>.
\<close>

definition xTimerGenericCommand_try ::
  "32 word \<Rightarrow> timer_handle \<Rightarrow> 32 word \<Rightarrow> tick \<Rightarrow> tick \<Rightarrow> time_out option \<Rightarrow> kernel \<times> queue option \<Rightarrow>
   ((kernel \<times> queue option) \<times> attempt) option" where
  "xTimerGenericCommand_try pad xTimer xCommandID xOptionalValue xTicksToWait entry w = (case w of (k, xTimerQueue) \<Rightarrow> do {
     _ \<leftarrow> guard (xTimer \<noteq> 0 \<and> sint xCommandID < sint tmrFIRST_FROM_ISR_COMMAND);
     case xTimerQueue of None \<Rightarrow> Some (w, Refused) | Some q \<Rightarrow> do {
       let ticks = (if xTaskGetSchedulerState k = taskSCHEDULER_RUNNING then xTicksToWait else 0);
       ((k, q), r) \<leftarrow> xQueueGenericSend_try (Some (message_bytes pad (timer_command xTimer xCommandID xOptionalValue)))
                      ticks queueSEND_TO_BACK entry (k, q);
       Some ((k, Some q), r)
     }
   })"

definition xTimerGenericCommand_isr ::
  "32 word \<Rightarrow> timer_handle \<Rightarrow> 32 word \<Rightarrow> tick \<Rightarrow> kernel \<times> queue option \<Rightarrow>
   ((kernel \<times> queue option) \<times> bool \<times> bool) option" where
  "xTimerGenericCommand_isr pad xTimer xCommandID xOptionalValue w = (case w of (k, xTimerQueue) \<Rightarrow> do {
     _ \<leftarrow> guard (xTimer \<noteq> 0 \<and> sint xCommandID \<ge> sint tmrFIRST_FROM_ISR_COMMAND);
     case xTimerQueue of None \<Rightarrow> Some (w, False, False) | Some q \<Rightarrow> do {
       ((k, q), ok, woken) \<leftarrow> xQueueGenericSendFromISR
          (Some (message_bytes pad (timer_command xTimer xCommandID xOptionalValue))) queueSEND_TO_BACK (k, q);
       Some ((k, Some q), ok, woken)
     }
   })"

definition xTimerPendFunctionCall_try ::
  "32 word \<Rightarrow> 32 word \<Rightarrow> 32 word \<Rightarrow> tick \<Rightarrow> time_out option \<Rightarrow> sys \<Rightarrow> (sys \<times> attempt) option" where
  "xTimerPendFunctionCall_try f p1 p2 xTicksToWait entry s =
    xQueueGenericSend_try (Some (message_bytes 0
      \<lparr>xMessageID = tmrCOMMAND_EXECUTE_CALLBACK, message_u = xCallbackParameters f p1 p2\<rparr>))
      xTicksToWait queueSEND_TO_BACK entry s"

definition xTimerPendFunctionCallFromISR :: "32 word \<Rightarrow> 32 word \<Rightarrow> 32 word \<Rightarrow> sys \<Rightarrow> (sys \<times> bool \<times> bool) option" where
  "xTimerPendFunctionCallFromISR f p1 p2 s =
    xQueueGenericSendFromISR (Some (message_bytes 0
      \<lparr>xMessageID = tmrCOMMAND_EXECUTE_CALLBACK_FROM_ISR, message_u = xCallbackParameters f p1 p2\<rparr>))
      queueSEND_TO_BACK s"

end
