(* ===== verification/TimerData.thy ===== *)
theory TimerData
  imports Timers TaskInv
begin

text \<open>
  The timer lists as an agenda: the active timers with the times at which they expire, counted without
  overflow, in order. Each step of the timer task is a step on the agenda.
\<close>

section \<open>The agenda\<close>

abbreviation tick_wrap :: nat where "tick_wrap \<equiv> 4294967296"

type_synonym agenda = "(timer_handle \<times> nat) list"

text \<open>The current list belongs to the epoch \<open>e\<close> of the tick count, the other list to the next one.\<close>

definition epoch_list :: "nat \<Rightarrow> bool \<Rightarrow> 'w timers \<Rightarrow> agenda" where
  "epoch_list e l s = map (\<lambda>t. (t, e * tick_wrap + expiry_value s t)) (tlist s l)"

definition agenda :: "nat \<Rightarrow> 'w timers \<Rightarrow> agenda" where
  "agenda e s = epoch_list e (pxCurrentTimerList s) s @ epoch_list (Suc e) (\<not> pxCurrentTimerList s) s"

definition timers_inv :: "'w timers \<Rightarrow> bool" where
  "timers_inv s \<longleftrightarrow>
    (\<forall>l. sorted (map (expiry_value s) (tlist s l)) \<and> distinct (tlist s l)) \<and>
    (\<forall>l t. t \<in> set (tlist s l) \<longleftrightarrow> (\<exists>c. tmr s t = Some c \<and> item_in c = Some l)) \<and>
    (\<forall>t c. tmr s t = Some c \<longrightarrow> xTimerPeriodInTicks c \<noteq> 0)"

text \<open>Period and reload mode of a timer.\<close>

definition timer_mode :: "'w timers \<Rightarrow> timer_handle \<Rightarrow> nat \<times> bool" where
  "timer_mode s t = (case tmr s t of None \<Rightarrow> (0, False) | Some c \<Rightarrow> (unat (xTimerPeriodInTicks c), auto_reload c))"

text \<open>What a callback may do: anything with the rest of the system, and change the identifiers of timers.\<close>

definition same_timers :: "'w timers \<Rightarrow> 'w timers \<Rightarrow> bool" where
  "same_timers s s' \<longleftrightarrow> tlist s' = tlist s \<and> pxCurrentTimerList s' = pxCurrentTimerList s \<and>
    xLastTime s' = xLastTime s \<and> fired s' = fired s \<and>
    (\<forall>t. map_option (pvTimerID_update (\<lambda>_. 0)) (tmr s' t) = map_option (pvTimerID_update (\<lambda>_. 0)) (tmr s t))"

definition callback_ok :: "'w callback \<Rightarrow> bool" where
  "callback_ok cb \<longleftrightarrow> (\<forall>t s. same_timers s (cb t s))"

section \<open>The specification\<close>

definition spec_insert :: "timer_handle \<Rightarrow> nat \<Rightarrow> agenda \<Rightarrow> agenda" where
  "spec_insert t E ag = insert_by snd (t, E) ag"

text \<open>How often a timer that expires at \<open>E\<close> is called until the time \<open>T\<close>, and when it expires next.\<close>

definition calls :: "nat \<times> bool \<Rightarrow> nat \<Rightarrow> nat \<Rightarrow> nat" where
  "calls m T E = (if snd m then (T - E) div fst m + 1 else 1)"

definition reinsert :: "(timer_handle \<Rightarrow> nat \<times> bool) \<Rightarrow> nat \<Rightarrow> timer_handle \<times> nat \<Rightarrow> agenda \<Rightarrow> agenda" where
  "reinsert m T x ag = (case x of (t, E) \<Rightarrow>
    if snd (m t) then spec_insert t (E + calls (m t) T E * fst (m t)) ag else ag)"

definition call_list :: "(timer_handle \<Rightarrow> nat \<times> bool) \<Rightarrow> nat \<Rightarrow> timer_handle \<times> nat \<Rightarrow> timer_handle list" where
  "call_list m T x = (case x of (t, E) \<Rightarrow> replicate (calls (m t) T E) t)"

text \<open>All entries up to the time \<open>T\<close> expire, in order.\<close>

definition due_entries :: "nat \<Rightarrow> agenda \<Rightarrow> agenda" where
  "due_entries T ag = takeWhile (\<lambda>x. snd x \<le> T) ag"

definition expire_until :: "(timer_handle \<Rightarrow> nat \<times> bool) \<Rightarrow> nat \<Rightarrow> agenda \<Rightarrow> agenda" where
  "expire_until m T ag = fold (reinsert m T) (due_entries T ag) (dropWhile (\<lambda>x. snd x \<le> T) ag)"

definition calls_until :: "(timer_handle \<Rightarrow> nat \<times> bool) \<Rightarrow> nat \<Rightarrow> agenda \<Rightarrow> timer_handle list" where
  "calls_until m T ag = concat (map (call_list m T) (due_entries T ag))"

lemma insert_by_above:
  "\<forall>y \<in> set xs. f y \<le> f x \<Longrightarrow> insert_by f x (xs @ ys) = xs @ insert_by f x ys"
  by (simp add: insert_by_def takeWhile_append2 dropWhile_append2)

lemma insert_by_below:
  "\<forall>y \<in> set ys. f x < f y \<Longrightarrow> insert_by f x (xs @ ys) = insert_by f x xs @ ys"
proof (induction xs)
  case Nil
  then show ?case by (cases ys) (auto simp: insert_by_def)
qed (simp add: insert_by_def)

lemma due_insert:
  assumes "T < E"
  shows "due_entries T (spec_insert t E ag) = due_entries T ag"
    "dropWhile (\<lambda>x. snd x \<le> T) (spec_insert t E ag) = spec_insert t E (dropWhile (\<lambda>x. snd x \<le> T) ag)"
  using assms by (induction ag) (auto simp: due_entries_def spec_insert_def insert_by_def)

lemma next_expiry_later:
  assumes "E \<le> T" "p \<noteq> (0::nat)"
  shows "T < E + ((T - E) div p + 1) * p"
proof -
  have "T - E < p + (T - E) div p * p" using assms(2) by (intro dividend_less_div_times) simp
  then show ?thesis using assms(1) by (simp add: algebra_simps)
qed

lemma expire_until_Cons:
  assumes "E \<le> T" "fst (m t) \<noteq> 0"
  shows "expire_until m T ((t, E) # ag) = expire_until m T (reinsert m T (t, E) ag)"
    "calls_until m T ((t, E) # ag) = call_list m T (t, E) @ calls_until m T (reinsert m T (t, E) ag)"
proof -
  have head: "due_entries T ((t, E) # ag) = (t, E) # due_entries T ag"
    "dropWhile (\<lambda>x. snd x \<le> T) ((t, E) # ag) = dropWhile (\<lambda>x. snd x \<le> T) ag"
    using assms(1) by (simp_all add: due_entries_def)
  have due: "due_entries T (reinsert m T (t, E) ag) = due_entries T ag"
    "dropWhile (\<lambda>x. snd x \<le> T) (reinsert m T (t, E) ag) =
      reinsert m T (t, E) (dropWhile (\<lambda>x. snd x \<le> T) ag)"
    using due_insert[OF next_expiry_later[OF assms]] by (auto simp: reinsert_def calls_def)
  show "expire_until m T ((t, E) # ag) = expire_until m T (reinsert m T (t, E) ag)"
    "calls_until m T ((t, E) # ag) = call_list m T (t, E) @ calls_until m T (reinsert m T (t, E) ag)"
    by (simp_all add: expire_until_def calls_until_def head due assms(1))
qed

lemma expire_until_done: "ag = [] \<or> T < snd (hd ag) \<Longrightarrow> expire_until m T ag = ag \<and> calls_until m T ag = []"
  by (cases ag) (auto simp: expire_until_def calls_until_def due_entries_def)

section \<open>Changes outside the lists\<close>

lemma same_timersD:
  assumes "same_timers s s'"
  shows "tlist s' = tlist s" "pxCurrentTimerList s' = pxCurrentTimerList s" "xLastTime s' = xLastTime s"
    "fired s' = fired s" "expiry_value s' = expiry_value s" "timer_mode s' = timer_mode s"
    "agenda e s' = agenda e s" "timers_inv s' = timers_inv s"
    "tmr s t = Some c \<Longrightarrow> \<exists>c'. tmr s' t = Some c' \<and> item_in c' = item_in c \<and> item_val c' = item_val c \<and>
       xTimerPeriodInTicks c' = xTimerPeriodInTicks c \<and> ucStatus c' = ucStatus c"
proof -
  note same = assms[unfolded same_timers_def]
  have rel: "map_option (pvTimerID_update (\<lambda>_. 0)) (tmr s' t) = map_option (pvTimerID_update (\<lambda>_. 0)) (tmr s t)" for t
    using same by simp
  have none: "(tmr s' t = None) = (tmr s t = None)" for t using rel[of t] by (metis option.map_disc_iff)
  show lists: "tlist s' = tlist s" "pxCurrentTimerList s' = pxCurrentTimerList s" "xLastTime s' = xLastTime s"
    "fired s' = fired s" using same by simp_all
  have fields: "item_in c' = item_in c \<and> item_val c' = item_val c \<and>
      xTimerPeriodInTicks c' = xTimerPeriodInTicks c \<and> ucStatus c' = ucStatus c"
    if "tmr s t = Some c" "tmr s' t = Some c'" for t c c'
    using rel[of t] that by (cases c; cases c') simp
  have pair: "tmr s t = None \<and> tmr s' t = None \<or> (\<exists>c c'. tmr s t = Some c \<and> tmr s' t = Some c' \<and>
      item_in c' = item_in c \<and> item_val c' = item_val c \<and>
      xTimerPeriodInTicks c' = xTimerPeriodInTicks c \<and> ucStatus c' = ucStatus c)" for t
    using fields[of t] none[of t] by (cases "tmr s t"; cases "tmr s' t") blast+
  show "tmr s t = Some c \<Longrightarrow> \<exists>c'. tmr s' t = Some c' \<and> item_in c' = item_in c \<and> item_val c' = item_val c \<and>
       xTimerPeriodInTicks c' = xTimerPeriodInTicks c \<and> ucStatus c' = ucStatus c" for t c
    using pair[of t] by auto
  have point: "expiry_value s' t = expiry_value s t" "timer_mode s' t = timer_mode s t" for t
    using pair[of t] by (auto simp: expiry_value_def timer_mode_def auto_reload_def)
  show val: "expiry_value s' = expiry_value s" "timer_mode s' = timer_mode s" using point by blast+
  show "agenda e s' = agenda e s" by (simp add: agenda_def epoch_list_def val lists)
  have "(\<exists>c. tmr s' t = Some c \<and> item_in c = Some l) = (\<exists>c. tmr s t = Some c \<and> item_in c = Some l)"
    "(\<forall>c. tmr s' t = Some c \<longrightarrow> xTimerPeriodInTicks c \<noteq> 0) = (\<forall>c. tmr s t = Some c \<longrightarrow> xTimerPeriodInTicks c \<noteq> 0)" for t l
    using pair[of t] by auto
  then show "timers_inv s' = timers_inv s" unfolding timers_inv_def lists val by simp
qed

lemma call_back_same:
  "callback_ok cb \<Longrightarrow> same_timers (s\<lparr>fired := fired s @ [t]\<rparr>) (call_back cb t s)"
  by (simp add: callback_ok_def call_back_def)

lemma timers_fields [simp]:
  "expiry_value (s\<lparr>fired := f\<rparr>) = expiry_value s" "expiry_value (s\<lparr>world := w\<rparr>) = expiry_value s"
  "expiry_value (s\<lparr>xLastTime := n\<rparr>) = expiry_value s" "expiry_value (s\<lparr>pxCurrentTimerList := b\<rparr>) = expiry_value s"
  "expiry_value (s\<lparr>tlist := ls\<rparr>) = expiry_value s"
  "timer_mode (s\<lparr>fired := f\<rparr>) = timer_mode s" "timer_mode (s\<lparr>world := w\<rparr>) = timer_mode s"
  "timer_mode (s\<lparr>xLastTime := n\<rparr>) = timer_mode s" "timer_mode (s\<lparr>pxCurrentTimerList := b\<rparr>) = timer_mode s"
  "timer_mode (s\<lparr>tlist := ls\<rparr>) = timer_mode s"
  by (simp_all add: expiry_value_def timer_mode_def fun_eq_iff)

lemma timers_inv_fields [simp]:
  "agenda e (s\<lparr>fired := f\<rparr>) = agenda e s" "agenda e (s\<lparr>world := w\<rparr>) = agenda e s" "agenda e (s\<lparr>xLastTime := n\<rparr>) = agenda e s"
  "timers_inv (s\<lparr>fired := f\<rparr>) = timers_inv s" "timers_inv (s\<lparr>world := w\<rparr>) = timers_inv s"
  "timers_inv (s\<lparr>xLastTime := n\<rparr>) = timers_inv s" "timers_inv (s\<lparr>pxCurrentTimerList := b\<rparr>) = timers_inv s"
  by (simp_all add: agenda_def epoch_list_def timers_inv_def)

lemma upd_tmr_simps [simp]:
  "tlist (upd_tmr t f s) = tlist s" "pxCurrentTimerList (upd_tmr t f s) = pxCurrentTimerList s"
  "xLastTime (upd_tmr t f s) = xLastTime s" "fired (upd_tmr t f s) = fired s" "world (upd_tmr t f s) = world s"
  "tmr (upd_tmr t f s) u = (if u = t then map_option f (tmr s t) else tmr s u)"
  by (simp_all add: upd_tmr_def)

lemma callback_effect:
  assumes "callback_ok cb"
  shows "tlist (call_back cb t s) = tlist s" "pxCurrentTimerList (call_back cb t s) = pxCurrentTimerList s"
    "xLastTime (call_back cb t s) = xLastTime s" "fired (call_back cb t s) = fired s @ [t]"
    "timer_mode (call_back cb t s) = timer_mode s" "agenda e (call_back cb t s) = agenda e s"
    "timers_inv (call_back cb t s) = timers_inv s"
    "tmr s u = Some c \<Longrightarrow> \<exists>c'. tmr (call_back cb t s) u = Some c' \<and> item_in c' = item_in c \<and> item_val c' = item_val c \<and>
       xTimerPeriodInTicks c' = xTimerPeriodInTicks c \<and> ucStatus c' = ucStatus c"
  using same_timersD[OF call_back_same[OF assms, of s t]] by simp_all

section \<open>Changes of one timer\<close>

text \<open>A timer that is in no list: its record may change.\<close>

definition idle_timer :: "'w timers \<Rightarrow> timer_handle \<Rightarrow> timer \<Rightarrow> bool" where
  "idle_timer s t c \<longleftrightarrow> timers_inv s \<and> tmr s t = Some c \<and> item_in c = None"

lemma idle_timerD:
  assumes "idle_timer s t c"
  shows "timers_inv s" "tmr s t = Some c" "item_in c = None" "t \<notin> set (tlist s l)" "xTimerPeriodInTicks c \<noteq> 0"
  using assms by (auto simp: idle_timer_def timers_inv_def)

lemma idle_timer_cong:
  assumes idle: "idle_timer s t c" and same: "tlist s' = tlist s" "\<And>u. u \<noteq> t \<Longrightarrow> tmr s' u = tmr s u"
    and t: "tmr s' t = Some c' \<and> item_in c' = None \<and> xTimerPeriodInTicks c' \<noteq> 0"
  shows "idle_timer s' t c'"
    "pxCurrentTimerList s' = pxCurrentTimerList s \<Longrightarrow> agenda e s' = agenda e s"
proof -
  note facts = idle_timerD[OF idle]
  have val: "expiry_value s' u = expiry_value s u" if "u \<in> set (tlist s l)" for u l
  proof -
    have "u \<noteq> t" using that facts(4)[of l] by auto
    then show ?thesis by (simp add: expiry_value_def same(2))
  qed
  have maps: "map (expiry_value s') (tlist s l) = map (expiry_value s) (tlist s l)" for l
    by (rule map_cong) (use val in auto)
  show "idle_timer s' t c'"
    unfolding idle_timer_def timers_inv_def same(1) maps
  proof (intro conjI allI impI)
    fix l show "sorted (map (expiry_value s) (tlist s l))" "distinct (tlist s l)"
      using facts(1) by (simp_all add: timers_inv_def)
    fix u show "(u \<in> set (tlist s l)) = (\<exists>c. tmr s' u = Some c \<and> item_in c = Some l)"
      using facts(1,4) same(2)[of u] t by (cases "u = t") (auto simp: timers_inv_def)
  next
    fix u d assume "tmr s' u = Some d"
    then show "xTimerPeriodInTicks d \<noteq> 0" using facts(1) same(2)[of u] t by (cases "u = t") (auto simp: timers_inv_def)
  qed (use t in simp_all)
  show "agenda e s' = agenda e s" if "pxCurrentTimerList s' = pxCurrentTimerList s"
    using that val by (simp add: agenda_def epoch_list_def same(1))
qed

lemma idle_upd:
  assumes "idle_timer s t c" "item_in (f c) = None" "xTimerPeriodInTicks (f c) \<noteq> 0"
  shows "idle_timer (upd_tmr t f s) t (f c)" "agenda e (upd_tmr t f s) = agenda e s"
  using idle_timer_cong[OF assms(1), of "upd_tmr t f s" "f c"] assms idle_timerD[OF assms(1)] by simp_all

lemma timer_mode_upd [simp]:
  "timer_mode (upd_tmr t f s) u = (if u = t then (case tmr s t of None \<Rightarrow> (0, False)
     | Some c \<Rightarrow> (unat (xTimerPeriodInTicks (f c)), auto_reload (f c))) else timer_mode s u)"
  by (simp add: timer_mode_def split: option.split)

lemma timer_mode_Some: "tmr s t = Some c \<Longrightarrow> timer_mode s t = (unat (xTimerPeriodInTicks c), auto_reload c)"
  by (simp add: timer_mode_def)

section \<open>Insertion and removal\<close>

lemma map_insert_by:
  "(\<And>y. y \<in> set xs \<Longrightarrow> (f y \<le> f x) = (f' (g y) \<le> f' (g x))) \<Longrightarrow>
    map g (insert_by f x xs) = insert_by f' (g x) (map g xs)"
  by (induction xs) (simp_all add: insert_by_def)

lemma timer_insert_simps [simp]:
  "pxCurrentTimerList (timer_insert l t s) = pxCurrentTimerList s" "xLastTime (timer_insert l t s) = xLastTime s"
  "fired (timer_insert l t s) = fired s" "timer_mode (timer_insert l t s) = timer_mode s"
  "expiry_value (timer_insert l t s) = expiry_value s" "world (timer_insert l t s) = world s"
  by (auto simp: timer_insert_def fun_eq_iff expiry_value_def timer_mode_def auto_reload_def upd_tmr_def split: option.split)

lemma insert_inv:
  assumes "idle_timer s t c"
  shows "timers_inv (timer_insert l t s)"
    "tmr (timer_insert l t s) t = Some (c\<lparr>item_in := Some l\<rparr>)"
    "u \<noteq> t \<Longrightarrow> tmr (timer_insert l t s) u = tmr s u"
proof -
  note facts = idle_timerD[OF assms]
  show t: "tmr (timer_insert l t s) t = Some (c\<lparr>item_in := Some l\<rparr>)" "u \<noteq> t \<Longrightarrow> tmr (timer_insert l t s) u = tmr s u" for u
    using facts(2) by (simp_all add: timer_insert_def)
  have list: "tlist (timer_insert l t s) = (tlist s)(l := insert_by (expiry_value s) t (tlist s l))"
    by (simp add: timer_insert_def)
  have sorted: "sorted (map (expiry_value s) (tlist (timer_insert l t s) l')) \<and> distinct (tlist (timer_insert l t s) l')" for l'
  proof (cases "l' = l")
    case True
    have "distinct (tlist s l)" "sorted (map (expiry_value s) (tlist s l))" using facts(1) by (simp_all add: timers_inv_def)
    then show ?thesis using True facts(4)[of l] by (simp add: list sorted_insert_by distinct_insert_by)
  qed (use facts(1) in \<open>simp add: list timers_inv_def\<close>)
  have mem: "(u \<in> set (tlist (timer_insert l t s) l')) = (\<exists>c. tmr (timer_insert l t s) u = Some c \<and> item_in c = Some l')" for u l'
    using facts(1,3,4) t by (cases "u = t") (auto simp: list timers_inv_def)
  have per: "xTimerPeriodInTicks d \<noteq> 0" if "tmr (timer_insert l t s) u = Some d" for u d
    using that facts(1,5) t by (cases "u = t") (auto simp: timers_inv_def)
  show "timers_inv (timer_insert l t s)"
    unfolding timers_inv_def timer_insert_simps using sorted mem per by blast
qed

lemma epoch_list_insert:
  "epoch_list e l (timer_insert l t s) = spec_insert t (e * tick_wrap + expiry_value s t) (epoch_list e l s)"
  "l' \<noteq> l \<Longrightarrow> epoch_list e l' (timer_insert l t s) = epoch_list e l' s"
proof -
  have "map (\<lambda>t. (t, e * tick_wrap + expiry_value s t)) (insert_by (expiry_value s) t xs) =
      insert_by snd (t, e * tick_wrap + expiry_value s t) (map (\<lambda>t. (t, e * tick_wrap + expiry_value s t)) xs)" for xs
    by (rule map_insert_by) simp
  then show "epoch_list e l (timer_insert l t s) = spec_insert t (e * tick_wrap + expiry_value s t) (epoch_list e l s)"
    by (simp add: epoch_list_def spec_insert_def) (simp add: timer_insert_def)
  show "l' \<noteq> l \<Longrightarrow> epoch_list e l' (timer_insert l t s) = epoch_list e l' s"
    by (simp add: epoch_list_def) (simp add: timer_insert_def)
qed

lemma expiry_value_less: "expiry_value s t < tick_wrap"
  using unsigned_less[of "_ :: tick", where 'a = nat] by (auto simp: expiry_value_def split: option.split)

lemma epoch_list_range: "x \<in> set (epoch_list e l s) \<Longrightarrow> e * tick_wrap \<le> snd x \<and> snd x < Suc e * tick_wrap"
  using expiry_value_less[of s] by (auto simp: epoch_list_def)

lemma agenda_insert:
  "agenda e (timer_insert (pxCurrentTimerList s) t s) = spec_insert t (e * tick_wrap + expiry_value s t) (agenda e s)"
  "agenda e (timer_insert (\<not> pxCurrentTimerList s) t s) = spec_insert t (Suc e * tick_wrap + expiry_value s t) (agenda e s)"
proof -
  have "e * tick_wrap + expiry_value s t < Suc e * tick_wrap" using expiry_value_less[of s t] by simp
  then have below: "\<forall>y \<in> set (epoch_list (Suc e) l s). snd (t, e * tick_wrap + expiry_value s t) < snd y" for l
    using epoch_list_range by fastforce
  have above: "\<forall>y \<in> set (epoch_list e l s). snd y \<le> snd (t, Suc e * tick_wrap + expiry_value s t)" for l
    using epoch_list_range[of _ e l s] by fastforce
  show "agenda e (timer_insert (pxCurrentTimerList s) t s) = spec_insert t (e * tick_wrap + expiry_value s t) (agenda e s)"
    using insert_by_below[OF below] by (simp add: agenda_def epoch_list_insert spec_insert_def)
  show "agenda e (timer_insert (\<not> pxCurrentTimerList s) t s) = spec_insert t (Suc e * tick_wrap + expiry_value s t) (agenda e s)"
    using insert_by_above[OF above] by (simp add: agenda_def epoch_list_insert spec_insert_def)
qed

section \<open>The decision about the expiry time\<close>

text \<open>Tick counts are remainders of the time.\<close>

lemma unat_tick: "unat (of_nat T :: tick) = T mod tick_wrap"
  by (simp add: unat_of_nat)

lemma unat_add_tick: "unat (of_nat C + p :: tick) = (C + unat p) mod tick_wrap"
  by (simp add: unat_word_ariths mod_add_left_eq unat_of_nat)

lemma unat_diff_tick:
  assumes "C \<le> T" "T - C < tick_wrap"
  shows "unat (of_nat T - of_nat C :: tick) = T - C"
proof -
  have "(of_nat T - of_nat C :: tick) = of_nat (T - C)" using assms(1) by simp
  then show ?thesis using assms(2) by (simp only: unat_of_nat) simp
qed

text \<open>The same in whole numbers, with the epochs of the command, of now and of the expiry.\<close>

lemma expiry_epochs:
  fixes C T p e :: nat
  assumes "C \<le> T" "T - C < tick_wrap" "0 < p" "p < tick_wrap" "T div tick_wrap = e"
  defines "n \<equiv> (C + p) mod tick_wrap" and "t \<equiv> T mod tick_wrap" and "c \<equiv> C mod tick_wrap"
  shows "n \<le> t \<Longrightarrow> T - C < p \<Longrightarrow> C + p = Suc e * tick_wrap + n"
    "n > t \<Longrightarrow> t < c \<Longrightarrow> n \<ge> c \<Longrightarrow> C + p \<le> T"
    "n > t \<Longrightarrow> \<not> (t < c \<and> n \<ge> c) \<Longrightarrow> C + p = e * tick_wrap + n \<and> T < C + p"
proof -
  define a where "a = C div tick_wrap"
  have C: "C = a * tick_wrap + c" "c < tick_wrap" and T: "T = e * tick_wrap + t" "t < tick_wrap"
    using assms(5) div_mult_mod_eq[of C tick_wrap] div_mult_mod_eq[of T tick_wrap]
    by (simp_all add: a_def c_def t_def)
  have n: "n = (if c + p < tick_wrap then c + p else c + p - tick_wrap)"
  proof -
    have "n = (c + p) mod tick_wrap" by (simp add: n_def c_def mod_add_left_eq)
    moreover have "(c + p) mod tick_wrap = c + p - tick_wrap" if "\<not> c + p < tick_wrap"
      using that C(2) assms(4) by (simp add: mod_if)
    ultimately show ?thesis by simp
  qed
  have "a \<le> e" using C T assms(1) by simp
  moreover have "e \<le> a + 1" using C T assms(1,2) by linarith
  ultimately have ae: "a = e \<or> e = Suc a" by arith
  show "n \<le> t \<Longrightarrow> T - C < p \<Longrightarrow> C + p = Suc e * tick_wrap + n"
    using ae n C T assms(1-4) by (auto split: if_splits)
  show "n > t \<Longrightarrow> t < c \<Longrightarrow> n \<ge> c \<Longrightarrow> C + p \<le> T"
    using ae n C T assms(1-4) by (auto split: if_splits)
  show "n > t \<Longrightarrow> \<not> (t < c \<and> n \<ge> c) \<Longrightarrow> C + p = e * tick_wrap + n \<and> T < C + p"
    using ae n C T assms(1-4) by (auto split: if_splits)
qed

text \<open>
  The decision of \<open>prvInsertTimerInActiveList\<close> about the time \<open>C + p\<close>, when the command was given at
  \<open>C\<close>, it is now \<open>T\<close>, and less than one turn of the tick count has passed.
\<close>

lemma insert_exact:
  assumes idle: "idle_timer s t c" and time: "C \<le> T" "T - C < tick_wrap" "T div tick_wrap = e"
  defines "p \<equiv> unat (xTimerPeriodInTicks c)"
  shows "\<exists>s'. prvInsertTimerInActiveList t (of_nat C + xTimerPeriodInTicks c) (of_nat T) (of_nat C) s = Some (s', C + p \<le> T) \<and>
    xLastTime s' = xLastTime s \<and> pxCurrentTimerList s' = pxCurrentTimerList s \<and> fired s' = fired s \<and>
    timer_mode s' = timer_mode s \<and> timers_inv s' \<and> world s' = world s \<and>
    (if C + p \<le> T then idle_timer s' t (c\<lparr>item_val := of_nat C + xTimerPeriodInTicks c\<rparr>) \<and> agenda e s' = agenda e s
     else agenda e s' = spec_insert t (C + p) (agenda e s) \<and> (\<exists>l. tmr s' t = Some (c\<lparr>item_val := of_nat C + xTimerPeriodInTicks c, item_in := Some l\<rparr>))) \<and>
    (\<forall>u. u \<noteq> t \<longrightarrow> tmr s' u = tmr s u)"
proof -
  note facts = idle_timerD[OF idle]
  let ?n = "of_nat C + xTimerPeriodInTicks c" and ?c = "c\<lparr>item_val := of_nat C + xTimerPeriodInTicks c\<rparr>"
  let ?s = "upd_tmr t (item_val_update (\<lambda>_. ?n)) s"
  have s: "idle_timer ?s t ?c" "agenda e ?s = agenda e s"
    using idle_upd[OF idle, of "item_val_update (\<lambda>_. ?n)"] facts(3,5) by simp_all
  have mode: "timer_mode ?s = timer_mode s" using facts(2) by (auto simp: fun_eq_iff timer_mode_def auto_reload_def)
  have val: "expiry_value ?s t = unat ?n" using facts(2) by (simp add: expiry_value_def)
  have p: "0 < p" "p < tick_wrap" using facts(5) unsigned_less[of "xTimerPeriodInTicks c", where 'a = nat]
    by (simp_all add: p_def unat_gt_0)
  note epochs = expiry_epochs[OF time(1,2) p time(3)]
  have le: "(?n \<le> of_nat T) = ((C + p) mod tick_wrap \<le> T mod tick_wrap)"
    "(xTimerPeriodInTicks c \<le> of_nat T - of_nat C) = (p \<le> T - C)"
    "(of_nat T < (of_nat C :: tick)) = (T mod tick_wrap < C mod tick_wrap)"
    "(of_nat C \<le> ?n) = (C mod tick_wrap \<le> (C + p) mod tick_wrap)"
    by (simp_all add: word_le_nat_alt word_less_nat_alt unat_add_tick unat_tick unat_diff_tick[OF time(1,2)] p_def)
  have run: "prvInsertTimerInActiveList t ?n (of_nat T) (of_nat C) s =
      (if (C + p) mod tick_wrap \<le> T mod tick_wrap
       then if p \<le> T - C then Some (?s, True) else Some (timer_insert (\<not> pxCurrentTimerList s) t ?s, False)
       else if T mod tick_wrap < C mod tick_wrap \<and> C mod tick_wrap \<le> (C + p) mod tick_wrap then Some (?s, True)
       else Some (timer_insert (pxCurrentTimerList s) t ?s, False))"
    using facts(2) by (simp add: prvInsertTimerInActiveList_def Let_def le)
  have inv: "timers_inv ?s" using idle_timerD(1)[OF s(1)] .
  consider (due) "C + p \<le> T" "prvInsertTimerInActiveList t ?n (of_nat T) (of_nat C) s = Some (?s, True)"
    | (put) l where "\<not> C + p \<le> T" "prvInsertTimerInActiveList t ?n (of_nat T) (of_nat C) s = Some (timer_insert l t ?s, False)"
      "agenda e (timer_insert l t ?s) = spec_insert t (C + p) (agenda e s)"
  proof (cases "(C + p) mod tick_wrap \<le> T mod tick_wrap")
    case True
    show ?thesis
    proof (cases "p \<le> T - C")
      case True
      then show ?thesis using due run \<open>(C + p) mod _ \<le> _\<close> time(1) by simp
    next
      case False
      have "C + p = Suc e * tick_wrap + (C + p) mod tick_wrap" using epochs(1)[OF True] False by simp
      then have "agenda e (timer_insert (\<not> pxCurrentTimerList s) t ?s) = spec_insert t (C + p) (agenda e s)"
        using agenda_insert(2)[of e ?s t] by (simp add: val unat_add_tick p_def s(2))
      then show ?thesis using put[of "\<not> pxCurrentTimerList s"] run True False time(1) by simp
    qed
  next
    case False
    then have gt: "T mod tick_wrap < (C + p) mod tick_wrap" by simp
    show ?thesis
    proof (cases "T mod tick_wrap < C mod tick_wrap \<and> C mod tick_wrap \<le> (C + p) mod tick_wrap")
      case True
      then show ?thesis using due run False epochs(2)[OF gt] by simp
    next
      case in_epoch: False
      have "C + p = e * tick_wrap + (C + p) mod tick_wrap \<and> T < C + p" using epochs(3)[OF gt in_epoch] .
      moreover from this have "agenda e (timer_insert (pxCurrentTimerList s) t ?s) = spec_insert t (C + p) (agenda e s)"
        using agenda_insert(1)[of e ?s t] by (simp add: val unat_add_tick p_def s(2))
      ultimately show ?thesis using put[of "pxCurrentTimerList s"] run False in_epoch by simp
    qed
  qed
  then show ?thesis
  proof cases
    case due
    then show ?thesis using s inv mode by simp
  next
    case put
    then show ?thesis using insert_inv[OF s(1), where l = l] mode by auto
  qed
qed

section \<open>Expiry of one timer\<close>

text \<open>What a step leaves alone.\<close>

definition step_frame :: "'w timers \<Rightarrow> 'w timers \<Rightarrow> bool" where
  "step_frame s s' \<longleftrightarrow> pxCurrentTimerList s' = pxCurrentTimerList s \<and> xLastTime s' = xLastTime s \<and>
    timer_mode s' = timer_mode s \<and> (\<forall>u. (tmr s' u = None) = (tmr s u = None))"

lemma step_frame_trans: "step_frame s1 s2 \<Longrightarrow> step_frame s2 s3 \<Longrightarrow> step_frame s1 s3"
  by (simp add: step_frame_def)

lemma step_frameD:
  assumes "step_frame s s'"
  shows "pxCurrentTimerList s' = pxCurrentTimerList s" "xLastTime s' = xLastTime s" "timer_mode s' = timer_mode s"
    "(tmr s' u = None) = (tmr s u = None)"
  using assms by (auto simp: step_frame_def)

lemma callback_frame:
  assumes "callback_ok cb"
  shows "step_frame s (call_back cb t s)"
proof -
  note same = call_back_same[OF assms, of s t]
  have "(tmr (call_back cb t s) u = None) = (tmr s u = None)" for u
    using same unfolding same_timers_def by simp (metis option.map_disc_iff)
  then show ?thesis using same_timersD(2,3,6)[OF same] by (simp add: step_frame_def)
qed

lemma callback_idle:
  assumes "callback_ok cb" "idle_timer s t c"
  shows "\<exists>c'. idle_timer (call_back cb u s) t c' \<and> xTimerPeriodInTicks c' = xTimerPeriodInTicks c \<and>
    auto_reload c' = auto_reload c"
  using callback_effect(7,8)[OF assms(1), where t = u and s = s] idle_timerD[OF assms(2)]
  by (fastforce simp: idle_timer_def auto_reload_def)

lemma reload_ok:
  assumes cb: "callback_ok cb" and idle: "idle_timer s t c"
    and time: "E \<le> T" "T - E < tick_wrap" "T div tick_wrap = e"
    and p: "p = unat (xTimerPeriodInTicks c)"
  shows "\<exists>s'. prvReloadTimer cb t (of_nat E) (of_nat T) s = Some s' \<and> timers_inv s' \<and> step_frame s s' \<and>
    agenda e s' = spec_insert t (E + ((T - E) div p + 1) * p) (agenda e s) \<and>
    fired s' = fired s @ replicate ((T - E) div p) t"
  using idle time(1,2) p
proof (induction "T - E" arbitrary: E s c rule: less_induct)
  case (less E s c)
  note idle = less.prems(1)
  note per = less.prems(4)
  let ?E = "of_nat E + xTimerPeriodInTicks c"
  have p: "0 < p" using idle_timerD(5)[OF idle] per by (simp add: unat_gt_0)
  obtain s1 where s1: "prvInsertTimerInActiveList t ?E (of_nat T) (of_nat E) s = Some (s1, E + p \<le> T)"
    "xLastTime s1 = xLastTime s" "pxCurrentTimerList s1 = pxCurrentTimerList s" "fired s1 = fired s"
    "timer_mode s1 = timer_mode s" "timers_inv s1" "\<forall>u. u \<noteq> t \<longrightarrow> tmr s1 u = tmr s u"
    "if E + p \<le> T then idle_timer s1 t (c\<lparr>item_val := ?E\<rparr>) \<and> agenda e s1 = agenda e s
     else agenda e s1 = spec_insert t (E + p) (agenda e s) \<and> (\<exists>l. tmr s1 t = Some (c\<lparr>item_val := ?E, item_in := Some l\<rparr>))"
    using insert_exact[OF idle less.prems(2,3) time(3)] unfolding per[symmetric] by blast
  have alive: "tmr s1 t \<noteq> None" using s1(8) by (auto split: if_splits dest: idle_timerD(2))
  have frame: "step_frame s s1"
    using s1(2,3,5,7) alive idle_timerD(2)[OF idle] unfolding step_frame_def by (metis option.distinct(1))
  show ?case
  proof (cases "E + p \<le> T")
    case False
    then have "(T - E) div p = 0" using less.prems(2) by simp
    moreover have "prvReloadTimer cb t (of_nat E) (of_nat T) s = Some s1"
      using s1(1) False idle_timerD(2)[OF idle] by (subst prvReloadTimer.simps) simp
    ultimately show ?thesis using s1(4,6,8) frame False less.prems(4) by simp
  next
    case True
    let ?s = "call_back cb t s1"
    have idle1: "idle_timer s1 t (c\<lparr>item_val := ?E\<rparr>)" using s1(8) True by simp
    obtain c2 where c2: "idle_timer ?s t c2" "xTimerPeriodInTicks c2 = xTimerPeriodInTicks c"
      using callback_idle[OF cb idle1, of t] by auto
    have less_time: "T - (E + p) < T - E" "E + p \<le> T" "T - (E + p) < tick_wrap"
      using True p less.prems(3) by simp_all
    have same: "agenda e ?s = agenda e s" "fired ?s = fired s @ [t]"
      using callback_effect[OF cb, where t = t and s = s1] s1(4,8) True by simp_all
    have div: "(T - E) div p = Suc ((T - (E + p)) div p)"
      using True p by (simp add: le_div_geq)
    have next_E: "of_nat (E + p) = ?E" using per by simp
    have per2: "p = unat (xTimerPeriodInTicks c2)" using per c2(2) by simp
    obtain s' where s': "prvReloadTimer cb t ?E (of_nat T) ?s = Some s'" "timers_inv s'" "step_frame ?s s'"
      "agenda e s' = spec_insert t (E + p + ((T - (E + p)) div p + 1) * p) (agenda e ?s)"
      "fired s' = fired ?s @ replicate ((T - (E + p)) div p) t"
      using less.hyps[OF less_time(1) c2(1) less_time(2,3) per2] unfolding next_E by blast
    have run: "prvReloadTimer cb t (of_nat E) (of_nat T) s = Some s'"
      using s1(1) s'(1) True idle_timerD(2)[OF idle] by (subst prvReloadTimer.simps) simp
    have "step_frame s s'"
      using step_frame_trans[OF step_frame_trans[OF frame callback_frame[OF cb, where s = s1 and t = t]] s'(3)] .
    moreover have "E + ((T - E) div p + 1) * p = E + p + ((T - (E + p)) div p + 1) * p" unfolding div by simp
    ultimately show ?thesis using run s'(2,4,5) same div by (intro exI[of _ s']) (simp add: add.assoc)
  qed
qed

lemma remove_ok:
  assumes inv: "timers_inv s" and t: "tmr s t = Some c" "item_in c = Some l"
  shows "\<exists>s'. timer_remove t s = Some s' \<and> idle_timer s' t (c\<lparr>item_in := None\<rparr>) \<and> step_frame s s' \<and> fired s' = fired s \<and>
    world s' = world s \<and> tlist s' = (tlist s)(l := remove1 t (tlist s l)) \<and> (\<forall>e l'. epoch_list e l' s' = filter (\<lambda>x. fst x \<noteq> t) (epoch_list e l' s))"
proof -
  let ?s = "upd_tmr t (item_in_update (\<lambda>_. None)) (s\<lparr>tlist := (tlist s)(l := remove1 t (tlist s l))\<rparr>)"
  have lists: "sorted (map (expiry_value s) (tlist s l'))" "distinct (tlist s l')"
    "u \<in> set (tlist s l') \<longleftrightarrow> (\<exists>c. tmr s u = Some c \<and> item_in c = Some l')" for l' u
    using inv by (simp_all add: timers_inv_def)
  have val: "expiry_value ?s = expiry_value s" using t by (auto simp: fun_eq_iff expiry_value_def)
  have mode: "timer_mode ?s = timer_mode s" using t by (auto simp: fun_eq_iff timer_mode_def auto_reload_def)
  have "sorted (map (expiry_value s) (tlist ?s l')) \<and> distinct (tlist ?s l')" for l'
    using lists(1,2)[of l'] by (auto simp: sorted_remove1_map)
  moreover have "(u \<in> set (tlist ?s l')) = (\<exists>c. tmr ?s u = Some c \<and> item_in c = Some l')" for u l'
    using lists(2)[of l] lists(3)[of u l'] t by (cases "u = t") auto
  moreover have "xTimerPeriodInTicks d \<noteq> 0" if "tmr ?s u = Some d" for u d
    using that inv t by (cases "u = t") (auto simp: timers_inv_def)
  ultimately have "timers_inv ?s" unfolding timers_inv_def val by blast
  then have idle: "idle_timer ?s t (c\<lparr>item_in := None\<rparr>)" using t by (simp add: idle_timer_def)
  have rem: "remove1 t (tlist s l) = filter (\<lambda>x. x \<noteq> t) (tlist s l)"
    using lists(2)[of l] by (simp add: distinct_remove1_removeAll removeAll_filter_not_eq) (metis (mono_tags, lifting) filter_cong)
  have "tlist ?s l' = filter (\<lambda>x. x \<noteq> t) (tlist s l')" for l'
  proof (cases "l' = l")
    case False
    then have "t \<notin> set (tlist s l')" using lists(3)[of t l'] t by auto
    then show ?thesis using False by (auto intro!: filter_True[symmetric])
  qed (simp add: rem)
  then have "epoch_list e l' ?s = filter (\<lambda>x. fst x \<noteq> t) (epoch_list e l' s)" for e l'
    unfolding epoch_list_def val by (simp only: filter_map comp_def fst_conv)
  moreover have "step_frame s ?s" using t mode by (simp add: step_frame_def)
  ultimately show ?thesis using idle t by (intro exI[of _ ?s]) (simp add: timer_remove_def)
qed

text \<open>A timer that has expired and is off the lists is set again, or made inactive, and called.\<close>

lemma fire_ok:
  assumes cb: "callback_ok cb" and idle: "idle_timer s t c" and time: "E \<le> T" "T - E < tick_wrap" "T div tick_wrap = e"
  shows "\<exists>s1. (if auto_reload c then prvReloadTimer cb t (of_nat E) (of_nat T) s else Some (set_inactive t s)) = Some s1 \<and>
    timers_inv (call_back cb t s1) \<and> step_frame s (call_back cb t s1) \<and>
    agenda e (call_back cb t s1) = reinsert (timer_mode s) T (t, E) (agenda e s) \<and>
    fired (call_back cb t s1) = fired s @ call_list (timer_mode s) T (t, E)"
proof -
  have mode: "timer_mode s t = (unat (xTimerPeriodInTicks c), auto_reload c)" using idle_timerD(2)[OF idle] by (rule timer_mode_Some)
  obtain s1 where s1: "(if auto_reload c then prvReloadTimer cb t (of_nat E) (of_nat T) s else Some (set_inactive t s)) = Some s1"
    "timers_inv s1" "step_frame s s1" "agenda e s1 = reinsert (timer_mode s) T (t, E) (agenda e s)"
    "fired s1 @ [t] = fired s @ call_list (timer_mode s) T (t, E)"
  proof (cases "auto_reload c")
    case True
    obtain s1 where "prvReloadTimer cb t (of_nat E) (of_nat T) s = Some s1" "timers_inv s1" "step_frame s s1"
      "agenda e s1 = spec_insert t (E + ((T - E) div fst (timer_mode s t) + 1) * fst (timer_mode s t)) (agenda e s)"
      "fired s1 = fired s @ replicate ((T - E) div fst (timer_mode s t)) t"
      using reload_ok[OF cb idle time, of "fst (timer_mode s t)"] mode by auto
    then show ?thesis using that True mode
      by (simp add: reinsert_def calls_def call_list_def replicate_append_same)
  next
    case False
    let ?f = "\<lambda>c. c\<lparr>ucStatus := ucStatus c AND NOT tmrSTATUS_IS_ACTIVE\<rparr>"
    have upd: "idle_timer (set_inactive t s) t (?f c)" "agenda e (set_inactive t s) = agenda e s"
      unfolding set_inactive_def using idle_upd[OF idle, of ?f] idle_timerD(3,5)[OF idle] by simp_all
    have keep: "auto_reload (?f c) = auto_reload c" by (simp add: auto_reload_def and.assoc)
    have t: "tmr s t = Some c" by (rule idle_timerD(2)[OF idle])
    have "timer_mode (set_inactive t s) u = timer_mode s u" for u
      unfolding set_inactive_def timer_mode_upd using t keep by (simp add: timer_mode_Some)
    then have "step_frame s (set_inactive t s)"
      using t unfolding step_frame_def fun_eq_iff by (simp add: set_inactive_def)
    then show ?thesis using that[of "set_inactive t s"] False upd idle_timerD(1)[OF upd(1)] mode
      by (simp add: reinsert_def calls_def call_list_def set_inactive_def)
  qed
  have "step_frame s (call_back cb t s1)"
    using step_frame_trans[OF s1(3) callback_frame[OF cb, where s = s1 and t = t]] .
  then show ?thesis using s1 callback_effect[OF cb, where s = s1 and t = t] by (intro exI[of _ s1]) simp
qed

text \<open>The head of the current list is the first entry of the agenda.\<close>

lemma process_expired_ok:
  assumes cb: "callback_ok cb" and inv: "timers_inv s" and head: "tlist s (pxCurrentTimerList s) = t # ts"
    and E: "E = e * tick_wrap + expiry_value s t" and time: "E \<le> T" "T div tick_wrap = e"
  shows "\<exists>s' ag. prvProcessExpiredTimer cb (of_nat E) (of_nat T) s = Some s' \<and> timers_inv s' \<and> step_frame s s' \<and>
    agenda e s = (t, E) # ag \<and> agenda e s' = reinsert (timer_mode s) T (t, E) ag \<and>
    fired s' = fired s @ call_list (timer_mode s) T (t, E)"
proof -
  let ?l = "pxCurrentTimerList s"
  have mem: "t \<in> set (tlist s ?l)" using head by simp
  then obtain c where c: "tmr s t = Some c" "item_in c = Some ?l" using inv unfolding timers_inv_def by blast
  obtain s1 where s1: "timer_remove t s = Some s1" "idle_timer s1 t (c\<lparr>item_in := None\<rparr>)" "step_frame s s1"
    "fired s1 = fired s" "\<forall>e l'. epoch_list e l' s1 = filter (\<lambda>x. fst x \<noteq> t) (epoch_list e l' s)"
    using remove_ok[OF inv c] by blast
  let ?ag = "epoch_list e ?l s1 @ epoch_list (Suc e) (\<not> ?l) s1"
  have agenda1: "agenda e s1 = ?ag" using step_frameD(1)[OF s1(3)] by (simp add: agenda_def)
  have distinct: "distinct (tlist s ?l)" using inv by (simp add: timers_inv_def)
  then have "t \<notin> set ts" "filter (\<lambda>x. x \<noteq> t) ts = ts" using head by (auto intro!: filter_True)
  then have "epoch_list e ?l s = (t, E) # epoch_list e ?l s1"
    unfolding s1(5)[rule_format] by (simp add: epoch_list_def head E filter_map comp_def)
  moreover have "t \<notin> set (tlist s (\<not> ?l))" using inv c by (auto simp: timers_inv_def)
  then have "epoch_list (Suc e) (\<not> ?l) s1 = epoch_list (Suc e) (\<not> ?l) s"
    unfolding s1(5)[rule_format] by (auto simp: epoch_list_def intro!: filter_True)
  ultimately have agenda: "agenda e s = (t, E) # ?ag" by (simp add: agenda_def)
  have gap: "T - E < tick_wrap" using time E by auto
  obtain s2 where s2: "(if auto_reload (c\<lparr>item_in := None\<rparr>) then prvReloadTimer cb t (of_nat E) (of_nat T) s1
      else Some (set_inactive t s1)) = Some s2"
    "timers_inv (call_back cb t s2)" "step_frame s1 (call_back cb t s2)"
    "agenda e (call_back cb t s2) = reinsert (timer_mode s1) T (t, E) (agenda e s1)"
    "fired (call_back cb t s2) = fired s1 @ call_list (timer_mode s1) T (t, E)"
    using fire_ok[OF cb s1(2) time(1) gap time(2)] by blast
  have "prvProcessExpiredTimer cb (of_nat E) (of_nat T) s = Some (call_back cb t s2)"
    using head s1(1) s2(1) idle_timerD(2)[OF s1(2)] by (simp add: prvProcessExpiredTimer_def)
  then show ?thesis
    using agenda agenda1 s1(4) s2(2,4,5) step_frameD(3)[OF s1(3)] step_frame_trans[OF s1(3) s2(3)] by auto
qed

section \<open>Switching the lists\<close>

lemma of_nat_epoch: "of_nat (e * tick_wrap + n) = (of_nat n :: tick)"
  by (simp only: word_unat_eq_iff unat_of_nat) simp

definition epoch_end :: "nat \<Rightarrow> nat" where
  "epoch_end e = e * tick_wrap + 4294967295"

lemma epoch_end_facts: "of_nat (epoch_end e) = tmrMAX_TIME_BEFORE_OVERFLOW" "epoch_end e div tick_wrap = e"
  "n < tick_wrap \<Longrightarrow> e * tick_wrap + n \<le> epoch_end e"
  unfolding epoch_end_def of_nat_epoch by simp_all

lemma current_empty:
  assumes "tlist s (pxCurrentTimerList s) = []"
  shows "agenda e s = [] \<or> epoch_end e < snd (hd (agenda e s))"
proof (cases "agenda e s")
  case (Cons x xs)
  then have "x \<in> set (epoch_list (Suc e) (\<not> pxCurrentTimerList s) s)"
    using assms by (simp add: agenda_def epoch_list_def)
  then have "Suc e * tick_wrap \<le> snd x" using epoch_list_range by blast
  then show ?thesis using Cons by (simp add: epoch_end_def)
qed simp

lemma timer_mode_pos: "timers_inv s \<Longrightarrow> tmr s t = Some c \<Longrightarrow> fst (timer_mode s t) \<noteq> 0"
  by (simp add: timer_mode_Some timers_inv_def unat_eq_zero)

lemma switch_loop_ok:
  assumes cb: "callback_ok cb" and inv: "timers_inv s"
  shows "\<exists>s'. switch_loop cb s = Some s' \<and> timers_inv s' \<and> step_frame s s' \<and>
    tlist s' (pxCurrentTimerList s) = [] \<and> agenda e s' = expire_until (timer_mode s) (epoch_end e) (agenda e s) \<and>
    fired s' = fired s @ calls_until (timer_mode s) (epoch_end e) (agenda e s)"
  using inv
proof (induction "length (due_entries (epoch_end e) (agenda e s))" arbitrary: s rule: less_induct)
  case (less s)
  let ?T = "epoch_end e" and ?m = "timer_mode s"
  show ?case
  proof (cases "tlist s (pxCurrentTimerList s)")
    case Nil
    then have "switch_loop cb s = Some s" by (subst switch_loop.simps) simp
    then show ?thesis using Nil expire_until_done[OF current_empty[OF Nil, of e], of ?m] less.prems
      by (simp add: step_frame_def)
  next
    case (Cons t ts)
    let ?E = "e * tick_wrap + expiry_value s t"
    have "t \<in> set (tlist s (pxCurrentTimerList s))" using Cons by simp
    then obtain c where c: "tmr s t = Some c" using less.prems unfolding timers_inv_def by blast
    have E: "?E \<le> ?T" by (rule epoch_end_facts(3)[OF expiry_value_less])
    have val: "of_nat ?E = item_val c" using c unfolding of_nat_epoch by (simp add: expiry_value_def)
    obtain s1 ag where s1: "prvProcessExpiredTimer cb (of_nat ?E) (of_nat ?T) s = Some s1" "timers_inv s1" "step_frame s s1"
      "agenda e s = (t, ?E) # ag" "agenda e s1 = reinsert ?m ?T (t, ?E) ag" "fired s1 = fired s @ call_list ?m ?T (t, ?E)"
      using process_expired_ok[OF cb less.prems Cons refl E epoch_end_facts(2)] by blast
    have pos: "fst (?m t) \<noteq> 0" using timer_mode_pos[OF less.prems c] .
    have "due_entries ?T (reinsert ?m ?T (t, ?E) ag) = due_entries ?T ag"
      using due_insert(1)[OF next_expiry_later[OF E pos]] by (auto simp: reinsert_def calls_def)
    then have "length (due_entries ?T (agenda e s1)) < length (due_entries ?T (agenda e s))"
      using E unfolding s1(4,5) by (simp add: due_entries_def)
    then obtain s2 where s2: "switch_loop cb s1 = Some s2" "timers_inv s2" "step_frame s1 s2"
      "tlist s2 (pxCurrentTimerList s1) = []" "agenda e s2 = expire_until (timer_mode s1) ?T (agenda e s1)"
      "fired s2 = fired s1 @ calls_until (timer_mode s1) ?T (agenda e s1)"
      using less.hyps[OF _ s1(2)] by blast
    have "switch_loop cb s = Some s2"
      using Cons c s1(1) s2(1) unfolding val epoch_end_facts(1) by (subst switch_loop.simps) simp
    moreover have "step_frame s s2" by (rule step_frame_trans[OF s1(3) s2(3)])
    ultimately show ?thesis
      using s2(2,4-6) s1(4-6) step_frameD(1,3)[OF s1(3)] expire_until_Cons[of ?E ?T ?m t ag, OF E pos] by simp
  qed
qed

lemma switch_lists_ok:
  assumes cb: "callback_ok cb" and inv: "timers_inv s"
  shows "\<exists>s'. prvSwitchTimerLists cb s = Some s' \<and> timers_inv s' \<and> xLastTime s' = xLastTime s \<and>
    timer_mode s' = timer_mode s \<and> (\<forall>u. (tmr s' u = None) = (tmr s u = None)) \<and>
    agenda (Suc e) s' = expire_until (timer_mode s) (epoch_end e) (agenda e s) \<and>
    fired s' = fired s @ calls_until (timer_mode s) (epoch_end e) (agenda e s)"
proof -
  obtain s1 where s1: "switch_loop cb s = Some s1" "timers_inv s1" "step_frame s s1"
    "tlist s1 (pxCurrentTimerList s) = []" "agenda e s1 = expire_until (timer_mode s) (epoch_end e) (agenda e s)"
    "fired s1 = fired s @ calls_until (timer_mode s) (epoch_end e) (agenda e s)"
    using switch_loop_ok[OF assms] by blast
  have "agenda (Suc e) (s1\<lparr>pxCurrentTimerList := \<not> pxCurrentTimerList s1\<rparr>) = agenda e s1"
    using s1(4) step_frameD(1)[OF s1(3)] by (simp add: agenda_def epoch_list_def)
  then show ?thesis using s1 step_frameD[OF s1(3)]
    by (simp add: prvSwitchTimerLists_def)
qed

section \<open>Sampling the time\<close>

text \<open>The timer task last looked at the time \<open>L\<close>; no timer is set for later than one turn of the count after that.\<close>

definition service_inv :: "nat \<Rightarrow> 'w timers \<Rightarrow> bool" where
  "service_inv L s \<longleftrightarrow> timers_inv s \<and> xLastTime s = of_nat L \<and>
    (\<forall>x \<in> set (agenda (L div tick_wrap) s). snd x < L + tick_wrap)"

text \<open>What happens when it looks again at \<open>T\<close>: if the count has overflowed, the old epoch is finished.\<close>

definition sampled :: "(timer_handle \<Rightarrow> nat \<times> bool) \<Rightarrow> nat \<Rightarrow> nat \<Rightarrow> agenda \<Rightarrow> agenda" where
  "sampled m L T ag = (if L div tick_wrap < T div tick_wrap then expire_until m (epoch_end (L div tick_wrap)) ag else ag)"

definition sample_calls :: "(timer_handle \<Rightarrow> nat \<times> bool) \<Rightarrow> nat \<Rightarrow> nat \<Rightarrow> agenda \<Rightarrow> timer_handle list" where
  "sample_calls m L T ag = (if L div tick_wrap < T div tick_wrap then calls_until m (epoch_end (L div tick_wrap)) ag else [])"

lemma epoch_passed:
  fixes L T :: nat
  assumes "L \<le> T" "T - L < tick_wrap"
  shows "(T mod tick_wrap < L mod tick_wrap) = (L div tick_wrap < T div tick_wrap)"
    "L div tick_wrap < T div tick_wrap \<Longrightarrow> T div tick_wrap = Suc (L div tick_wrap)"
proof -
  define a b l t where "a = L div tick_wrap" and "b = T div tick_wrap" and "l = L mod tick_wrap" and "t = T mod tick_wrap"
  have "L = a * tick_wrap + l" "T = b * tick_wrap + t" "l < tick_wrap" "t < tick_wrap"
    using div_mult_mod_eq[of L tick_wrap] div_mult_mod_eq[of T tick_wrap] by (simp_all add: a_def b_def l_def t_def)
  then have "t < l \<longleftrightarrow> a < b" "a < b \<Longrightarrow> b = Suc a" using assms by linarith+
  then show "(T mod tick_wrap < L mod tick_wrap) = (L div tick_wrap < T div tick_wrap)"
    "L div tick_wrap < T div tick_wrap \<Longrightarrow> T div tick_wrap = Suc (L div tick_wrap)"
    by (simp_all add: a_def b_def l_def t_def)
qed

lemma sample_ok:
  assumes cb: "callback_ok cb" and inv: "timers_inv s" "xLastTime s = of_nat L" and time: "L \<le> T" "T - L < tick_wrap"
  shows "\<exists>s'. prvSampleTimeNow (of_nat T) cb s = Some (s', L div tick_wrap < T div tick_wrap) \<and>
    timers_inv s' \<and> xLastTime s' = of_nat T \<and> timer_mode s' = timer_mode s \<and> (\<forall>u. (tmr s' u = None) = (tmr s u = None)) \<and>
    agenda (T div tick_wrap) s' = sampled (timer_mode s) L T (agenda (L div tick_wrap) s) \<and>
    fired s' = fired s @ sample_calls (timer_mode s) L T (agenda (L div tick_wrap) s) \<and>
    (\<not> L div tick_wrap < T div tick_wrap \<longrightarrow> s' = s\<lparr>xLastTime := of_nat T\<rparr>)"
proof -
  have le: "L div tick_wrap \<le> T div tick_wrap" using time(1) by (rule div_le_mono)
  have epoch: "(of_nat T < (of_nat L :: tick)) = (L div tick_wrap < T div tick_wrap)"
    "L div tick_wrap < T div tick_wrap \<Longrightarrow> T div tick_wrap = Suc (L div tick_wrap)"
    using epoch_passed[OF time] by (simp_all add: word_less_nat_alt unat_tick)
  show ?thesis
  proof (cases "L div tick_wrap < T div tick_wrap")
    case False
    then have "T div tick_wrap = L div tick_wrap" using le by simp
    then show ?thesis using inv False epoch(1) by (simp add: prvSampleTimeNow_def sampled_def sample_calls_def)
  next
    case True
    obtain s' where "prvSwitchTimerLists cb s = Some s'" "timers_inv s'" "xLastTime s' = xLastTime s"
      "timer_mode s' = timer_mode s" "\<forall>u. (tmr s' u = None) = (tmr s u = None)"
      "agenda (Suc (L div tick_wrap)) s' = expire_until (timer_mode s) (epoch_end (L div tick_wrap)) (agenda (L div tick_wrap) s)"
      "fired s' = fired s @ calls_until (timer_mode s) (epoch_end (L div tick_wrap)) (agenda (L div tick_wrap) s)"
      using switch_lists_ok[OF cb inv(1)] by blast
    then show ?thesis using True epoch(1) epoch(2)[OF True]
      by (simp add: prvSampleTimeNow_def sampled_def sample_calls_def inv(2))
  qed
qed

end
