(* ===== verification/TimerSteps.thy ===== *)
theory TimerSteps
  imports TimerData QueueSafe
begin

text \<open>
  The effect of a command, and of one turn of the timer task, on the agenda.
\<close>

section \<open>Bounds and members of an agenda\<close>

lemma set_spec_insert [simp]: "set (spec_insert t E ag) = insert (t, E) (set ag)"
  by (simp add: spec_insert_def)

lemma reinsert_set:
  "x \<in> set (reinsert m T y ag) \<longleftrightarrow>
    x \<in> set ag \<or> (snd (m (fst y)) \<and> x = (fst y, snd y + calls (m (fst y)) T (snd y) * fst (m (fst y))))"
  by (cases y) (auto simp: reinsert_def)

text \<open>What holds of every entry when entries that are due are replaced.\<close>

lemma expire_until_all:
  assumes "\<And>x. x \<in> set ag \<Longrightarrow> P x"
    "\<And>x. x \<in> set ag \<Longrightarrow> snd x \<le> T \<Longrightarrow> snd (m (fst x)) \<Longrightarrow>
      P (fst x, snd x + calls (m (fst x)) T (snd x) * fst (m (fst x)))"
    "y \<in> set (expire_until m T ag)"
  shows "P y"
proof -
  have "P y" if "y \<in> set (fold (reinsert m T) xs ys)" "\<And>x. x \<in> set ys \<Longrightarrow> P x"
    "\<And>x. x \<in> set xs \<Longrightarrow> snd (m (fst x)) \<Longrightarrow> P (fst x, snd x + calls (m (fst x)) T (snd x) * fst (m (fst x)))" for xs ys
    using that
  proof (induction xs arbitrary: ys)
    case (Cons x xs)
    have "P z" if "z \<in> set (reinsert m T x ys)" for z
      using that Cons.prems(2)[of z] Cons.prems(3)[of x] unfolding reinsert_set by auto
    then show ?case using Cons.IH[of "reinsert m T x ys"] Cons.prems(1,3) by simp
  qed simp
  moreover have "x \<in> set ag \<and> snd x \<le> T" if "x \<in> set (due_entries T ag)" for x
    using that by (auto simp: due_entries_def dest: set_takeWhileD)
  moreover have "x \<in> set ag" if "x \<in> set (dropWhile (\<lambda>x. snd x \<le> T) ag)" for x
    using that by (rule set_dropWhileD)
  ultimately show ?thesis using assms by (simp add: expire_until_def)
qed

lemma next_expiry_bound:
  fixes p :: nat
  assumes "E \<le> T"
  shows "E + ((T - E) div p + 1) * p \<le> T + p"
proof -
  have "(T - E) div p * p \<le> T - E" by (rule div_times_less_eq_dividend)
  then have "E + (T - E) div p * p \<le> T" using assms by linarith
  then show ?thesis by simp
qed

lemma calls_bound: "E \<le> T \<Longrightarrow> snd m \<Longrightarrow> E + calls m T E * fst m \<le> T + fst m"
  using next_expiry_bound[of E T "fst m"] by (simp add: calls_def)

lemma timer_mode_less: "fst (timer_mode s t) < tick_wrap"
  using unsigned_less[of "_ :: tick", where 'a = nat] by (auto simp: timer_mode_def split: option.split)

lemma sampled_bound:
  assumes "\<forall>x \<in> set ag. snd x < L + tick_wrap" "L \<le> T" "T - L < tick_wrap" "\<And>t. fst (m t) < tick_wrap"
  shows "\<forall>x \<in> set (sampled m L T ag). snd x < T + tick_wrap"
proof (cases "L div tick_wrap < T div tick_wrap")
  case True
  have "T div tick_wrap = Suc (L div tick_wrap)" using epoch_passed(2)[OF assms(2,3) True] .
  then have "epoch_end (L div tick_wrap) < T" using div_mult_mod_eq[of T tick_wrap] by (simp add: epoch_end_def)
  then have late: "epoch_end (L div tick_wrap) + fst (m t) < T + tick_wrap" for t using assms(4)[of t] by simp
  have old: "\<forall>x \<in> set ag. snd x < T + tick_wrap" using assms(1,2) by fastforce
  have "snd x < T + tick_wrap" if "x \<in> set (expire_until m (epoch_end (L div tick_wrap)) ag)" for x
  proof (rule expire_until_all[rotated 2, OF that])
    fix x assume x: "x \<in> set ag" "snd x \<le> epoch_end (L div tick_wrap)" "snd (m (fst x))"
    from late[of "fst x"] calls_bound[OF x(2,3)]
    show "snd (fst x, snd x + calls (m (fst x)) (epoch_end (L div tick_wrap)) (snd x) * fst (m (fst x))) < T + tick_wrap"
      by simp
  qed (use old in blast)
  then show ?thesis using True by (auto simp: sampled_def)
qed (use assms(1,2) in \<open>fastforce simp: sampled_def\<close>)

lemma sampled_members: "fst ` set (sampled m L T ag) \<subseteq> fst ` set ag"
proof -
  have "fst y \<in> fst ` set ag" if "y \<in> set (expire_until m T' ag)" for y T'
    using that by (elim expire_until_all[rotated 2]) auto
  then show ?thesis by (auto simp: sampled_def)
qed

lemma agenda_member: "t \<in> fst ` set (agenda e s) \<longleftrightarrow> (\<exists>l. t \<in> set (tlist s l))"
proof -
  have "(\<exists>l. t \<in> set (tlist s l)) = (t \<in> set (tlist s b) \<or> t \<in> set (tlist s (\<not> b)))" for b
    using ex_bool_eq[of "\<lambda>l. t \<in> set (tlist s l)"] by (cases b) auto
  then show ?thesis by (simp add: agenda_def epoch_list_def image_Un image_image)
qed

lemma agenda_distinct: "timers_inv s \<Longrightarrow> distinct (map fst (agenda e s))"
  by (auto simp: agenda_def epoch_list_def comp_def timers_inv_def)

lemma idle_not_listed:
  assumes "timers_inv s" "tmr s t = Some c" "t \<notin> fst ` set (agenda e s)"
  shows "idle_timer s t c"
proof -
  have "item_in c = None"
    using assms(1,2) assms(3)[unfolded agenda_member] unfolding timers_inv_def by (cases "item_in c") auto
  then show ?thesis using assms(1,2) by (simp add: idle_timer_def)
qed

section \<open>Commands\<close>

definition pended_ok :: "(32 word \<Rightarrow> 32 word \<Rightarrow> 32 word \<Rightarrow> 'w timers \<Rightarrow> 'w timers) \<Rightarrow> bool" where
  "pended_ok pf \<longleftrightarrow> (\<forall>f p1 p2 s. same_timers s (pf f p1 p2 s))"

definition start_command :: "32 word \<Rightarrow> bool" where
  "start_command i \<longleftrightarrow> i = tmrCOMMAND_START \<or> i = tmrCOMMAND_START_FROM_ISR \<or> i = tmrCOMMAND_RESET \<or> i = tmrCOMMAND_RESET_FROM_ISR"

definition period_command :: "32 word \<Rightarrow> bool" where
  "period_command i \<longleftrightarrow> i = tmrCOMMAND_CHANGE_PERIOD \<or> i = tmrCOMMAND_CHANGE_PERIOD_FROM_ISR"

text \<open>
  The agenda after a command to the timer \<open>t\<close> that was given at \<open>C\<close> (or carries the period \<open>C\<close>) and is
  processed at \<open>T\<close>: the timer leaves the agenda, the time is sampled, and the command is carried out.
\<close>

definition command_agenda :: "(timer_handle \<Rightarrow> nat \<times> bool) \<Rightarrow> nat \<Rightarrow> nat \<Rightarrow> 32 word \<Rightarrow> nat \<Rightarrow> timer_handle \<Rightarrow> agenda \<Rightarrow> agenda" where
  "command_agenda m L T i C t ag =
    (let ag = sampled m L T (filter (\<lambda>x. fst x \<noteq> t) ag); E = C + fst (m t)
     in if start_command i then (if E \<le> T then reinsert m T (t, E) ag else spec_insert t E ag)
        else if period_command i then spec_insert t (T + C) ag else ag)"

definition command_calls :: "(timer_handle \<Rightarrow> nat \<times> bool) \<Rightarrow> nat \<Rightarrow> nat \<Rightarrow> 32 word \<Rightarrow> nat \<Rightarrow> timer_handle \<Rightarrow> agenda \<Rightarrow> timer_handle list" where
  "command_calls m L T i C t ag =
    sample_calls m L T (filter (\<lambda>x. fst x \<noteq> t) ag) @
    (if start_command i \<and> C + fst (m t) \<le> T then call_list m T (t, C + fst (m t)) else [])"

lemma status_upd:
  assumes "idle_timer s t c" "f = (\<lambda>c. c\<lparr>ucStatus := g (ucStatus c)\<rparr>)"
    "\<And>w. (g w AND tmrSTATUS_IS_AUTORELOAD) = (w AND tmrSTATUS_IS_AUTORELOAD)"
  shows "idle_timer (upd_tmr t f s) t (f c)" "agenda e (upd_tmr t f s) = agenda e s"
    "timer_mode (upd_tmr t f s) = timer_mode s"
proof -
  show "idle_timer (upd_tmr t f s) t (f c)" "agenda e (upd_tmr t f s) = agenda e s"
    using idle_upd[OF assms(1), of f] idle_timerD[OF assms(1)] by (simp_all add: assms(2))
  have "timer_mode (upd_tmr t f s) u = timer_mode s u" for u
    unfolding timer_mode_upd using idle_timerD(2)[OF assms(1)] assms(2,3) by (simp add: timer_mode_Some auto_reload_def)
  then show "timer_mode (upd_tmr t f s) = timer_mode s" by blast
qed

lemma active_ok:
  assumes "idle_timer s t c"
  shows "idle_timer (set_active t s) t (c\<lparr>ucStatus := ucStatus c OR tmrSTATUS_IS_ACTIVE\<rparr>)"
    "agenda e (set_active t s) = agenda e s" "timer_mode (set_active t s) = timer_mode s"
  unfolding set_active_def using status_upd[OF assms refl, of "\<lambda>w. w OR tmrSTATUS_IS_ACTIVE"]
  by (simp_all add: bit.conj_disj_distrib2)

lemma inactive_ok:
  assumes "idle_timer s t c"
  shows "idle_timer (set_inactive t s) t (c\<lparr>ucStatus := ucStatus c AND NOT tmrSTATUS_IS_ACTIVE\<rparr>)"
    "agenda e (set_inactive t s) = agenda e s" "timer_mode (set_inactive t s) = timer_mode s"
  unfolding set_inactive_def using status_upd[OF assms refl, of "\<lambda>w. w AND NOT tmrSTATUS_IS_ACTIVE"]
  by (simp_all add: and.assoc)

lemma remove_if_listed:
  assumes inv: "timers_inv s" and t: "tmr s t = Some c"
  shows "\<exists>s'. (if item_in c \<noteq> None then timer_remove t s else Some s) = Some s' \<and> timers_inv s' \<and>
    tmr s' t = Some (c\<lparr>item_in := None\<rparr>) \<and> step_frame s s' \<and> fired s' = fired s \<and> (\<forall>u. u \<noteq> t \<longrightarrow> tmr s' u = tmr s u) \<and>
    agenda e s' = filter (\<lambda>x. fst x \<noteq> t) (agenda e s)"
proof (cases "item_in c")
  case None
  then have "idle_timer s t c" using assms by (simp add: idle_timer_def)
  then have "t \<notin> fst ` set (agenda e s)" using idle_timerD(4) by (auto simp: agenda_member)
  then have "filter (\<lambda>x. fst x \<noteq> t) (agenda e s) = agenda e s" by (auto intro!: filter_True)
  then show ?thesis using None assms by (simp add: step_frame_def)
next
  case (Some l)
  obtain s' where s': "timer_remove t s = Some s'" "idle_timer s' t (c\<lparr>item_in := None\<rparr>)" "step_frame s s'" "fired s' = fired s"
    "\<forall>e l'. epoch_list e l' s' = filter (\<lambda>x. fst x \<noteq> t) (epoch_list e l' s)"
    using remove_ok[OF inv t Some] by blast
  have "tmr s' u = tmr s u" if "u \<noteq> t" for u using s'(1) that t Some by (auto simp: timer_remove_def)
  moreover have "agenda e s' = filter (\<lambda>x. fst x \<noteq> t) (agenda e s)"
    using s'(5) step_frameD(1)[OF s'(3)] by (simp add: agenda_def)
  ultimately show ?thesis using s' Some idle_timerD[OF s'(2)] by simp
qed

text \<open>The part common to all commands: the timer is off the lists, and the time is sampled.\<close>

lemma command_start:
  assumes cb: "callback_ok cb" and inv: "service_inv L s" and time: "L \<le> T" "T - L < tick_wrap" and t: "tmr s t = Some c"
  defines "ag \<equiv> filter (\<lambda>x. fst x \<noteq> t) (agenda (L div tick_wrap) s)"
  shows "\<exists>s1 s2 b c2. (if item_in c \<noteq> None then timer_remove t s else Some s) = Some s1 \<and>
    prvSampleTimeNow (of_nat T) cb s1 = Some (s2, b) \<and> idle_timer s2 t c2 \<and> xLastTime s2 = of_nat T \<and>
    timer_mode s2 = timer_mode s \<and> (\<forall>u. (tmr s2 u = None) = (tmr s u = None)) \<and>
    timer_mode s t = (unat (xTimerPeriodInTicks c2), auto_reload c2) \<and>
    agenda (T div tick_wrap) s2 = sampled (timer_mode s) L T ag \<and> fired s2 = fired s @ sample_calls (timer_mode s) L T ag \<and>
    (\<forall>x \<in> set (sampled (timer_mode s) L T ag). snd x < T + tick_wrap)"
proof -
  have s: "timers_inv s" "xLastTime s = of_nat L" "\<forall>x \<in> set (agenda (L div tick_wrap) s). snd x < L + tick_wrap"
    using inv by (simp_all add: service_inv_def)
  obtain s1 where s1: "(if item_in c \<noteq> None then timer_remove t s else Some s) = Some s1" "timers_inv s1" "step_frame s s1"
    "fired s1 = fired s" "agenda (L div tick_wrap) s1 = ag"
    using remove_if_listed[OF s(1) t, of "L div tick_wrap"] unfolding ag_def by blast
  note frame = step_frameD[OF s1(3)]
  obtain s2 b where s2: "prvSampleTimeNow (of_nat T) cb s1 = Some (s2, b)" "timers_inv s2" "xLastTime s2 = of_nat T"
    "timer_mode s2 = timer_mode s1" "\<forall>u. (tmr s2 u = None) = (tmr s1 u = None)"
    "agenda (T div tick_wrap) s2 = sampled (timer_mode s1) L T ag" "fired s2 = fired s1 @ sample_calls (timer_mode s1) L T ag"
    using sample_ok[OF cb s1(2) _ time, unfolded s1(5)] frame(2) s(2) by auto
  obtain c2 where c2: "tmr s2 t = Some c2" using s2(5) frame(4)[of t] t by (cases "tmr s2 t") auto
  have "t \<notin> fst ` set ag" by (auto simp: ag_def)
  then have "t \<notin> fst ` set (agenda (T div tick_wrap) s2)" unfolding s2(6) using sampled_members by blast
  then have idle: "idle_timer s2 t c2" by (rule idle_not_listed[OF s2(2) c2])
  have "\<forall>x \<in> set ag. snd x < L + tick_wrap" using s(3) by (simp add: ag_def)
  then have "\<forall>x \<in> set (sampled (timer_mode s) L T ag). snd x < T + tick_wrap"
    by (rule sampled_bound[OF _ time timer_mode_less])
  then show ?thesis using s1(1,4) s2 idle frame timer_mode_Some[OF c2] by auto
qed

lemma process_command_ok:
  assumes cb: "callback_ok cb" and inv: "service_inv L s" and time: "L \<le> T" "T - L < tick_wrap" and t: "tmr s t = Some c"
    and arg: "v = of_nat C" "start_command i \<Longrightarrow> C \<le> T \<and> T - C < tick_wrap" "period_command i \<Longrightarrow> 0 < C \<and> C < tick_wrap"
  shows "\<exists>s'. process_command cb pf (of_nat T) \<lparr>xMessageID = i, message_u = xTimerParameters v t\<rparr> s = Some s' \<and>
    service_inv T s' \<and>
    agenda (T div tick_wrap) s' = command_agenda (timer_mode s) L T i C t (agenda (L div tick_wrap) s) \<and>
    fired s' = fired s @ command_calls (timer_mode s) L T i C t (agenda (L div tick_wrap) s) \<and>
    (\<forall>u. u \<noteq> t \<longrightarrow> timer_mode s' u = timer_mode s u \<and> (tmr s' u = None) = (tmr s u = None)) \<and>
    (if i = tmrCOMMAND_DELETE then tmr s' t = None
     else tmr s' t \<noteq> None \<and> timer_mode s' t = (if period_command i then (C, snd (timer_mode s t)) else timer_mode s t))"
proof -
  let ?m = "timer_mode s" and ?e = "T div tick_wrap"
  let ?ag = "sampled ?m L T (filter (\<lambda>x. fst x \<noteq> t) (agenda (L div tick_wrap) s))"
  obtain s1 s2 b c2 where s1: "(if item_in c \<noteq> None then timer_remove t s else Some s) = Some s1"
    and s2: "prvSampleTimeNow (of_nat T) cb s1 = Some (s2, b)" "idle_timer s2 t c2" "xLastTime s2 = of_nat T"
      "timer_mode s2 = ?m" "\<forall>u. (tmr s2 u = None) = (tmr s u = None)"
      "?m t = (unat (xTimerPeriodInTicks c2), auto_reload c2)" "agenda ?e s2 = ?ag"
      "fired s2 = fired s @ sample_calls ?m L T (filter (\<lambda>x. fst x \<noteq> t) (agenda (L div tick_wrap) s))"
      "\<forall>x \<in> set ?ag. snd x < T + tick_wrap"
    using command_start[OF cb inv time t] by blast
  let ?run = "process_command cb pf (of_nat T) \<lparr>xMessageID = i, message_u = xTimerParameters v t\<rparr> s"
  note idle = s2(2)
  have t2: "tmr s2 t = Some c2" by (rule idle_timerD(2)[OF idle])
  consider (start) "start_command i" | (stop) "i = tmrCOMMAND_STOP \<or> i = tmrCOMMAND_STOP_FROM_ISR" "\<not> start_command i" "\<not> period_command i"
    | (period) "period_command i" "\<not> start_command i" | (delete) "i = tmrCOMMAND_DELETE" "\<not> start_command i" "\<not> period_command i"
    | (other) "i \<noteq> tmrCOMMAND_STOP \<and> i \<noteq> tmrCOMMAND_STOP_FROM_ISR \<and> i \<noteq> tmrCOMMAND_DELETE" "\<not> start_command i" "\<not> period_command i"
    by (auto simp: start_command_def period_command_def)
  then show ?thesis
  proof cases
    case other
    have "?run = Some s2" using t s1 s2(1) other
      by (auto simp: process_command_def start_command_def period_command_def)
    then show ?thesis using other s2 t2 idle_timerD(1)[OF idle]
      by (simp add: service_inv_def command_agenda_def command_calls_def)
  next
    case delete
    let ?s = "s2\<lparr>tmr := (tmr s2)(t := None)\<rparr>"
    have run: "?run = Some ?s" using t s1 s2(1) delete(1) by (auto simp: process_command_def)
    have val: "expiry_value ?s u = expiry_value s2 u" if "u \<in> set (tlist s2 l)" for u l
      using that idle_timerD(4)[OF idle, of l] by (auto simp: expiry_value_def)
    then have maps: "map (expiry_value ?s) (tlist s2 l) = map (expiry_value s2) (tlist s2 l)"
      "epoch_list e l ?s = epoch_list e l s2" for l e by (auto simp: epoch_list_def)
    have "(u \<in> set (tlist s2 l)) = (\<exists>c. tmr ?s u = Some c \<and> item_in c = Some l)"
      "tmr ?s u = Some d \<longrightarrow> xTimerPeriodInTicks d \<noteq> 0" for u l d
      using idle_timerD(1)[OF idle] idle_timerD(4)[OF idle, of l] by (auto simp: timers_inv_def)
    moreover have "sorted (map (expiry_value ?s) (tlist s2 l)) \<and> distinct (tlist s2 l)" for l
      unfolding maps using idle_timerD(1)[OF idle] by (simp add: timers_inv_def)
    ultimately have "timers_inv ?s" unfolding timers_inv_def by simp
    moreover have "agenda ?e ?s = ?ag" using s2(7) by (simp add: agenda_def maps)
    moreover have "timer_mode ?s u = ?m u" if "u \<noteq> t" for u using that s2(4) by (auto simp: timer_mode_def fun_eq_iff)
    ultimately show ?thesis using run delete s2
      by (simp add: service_inv_def command_agenda_def command_calls_def)
  next
    case stop
    have run: "?run = Some (set_inactive t s2)"
      using t s1 s2(1) stop by (auto simp: process_command_def start_command_def)
    note inact = inactive_ok[OF idle]
    have fields: "xLastTime (set_inactive t s2) = of_nat T" "fired (set_inactive t s2) = fired s2"
      "(tmr (set_inactive t s2) u = None) = (tmr s2 u = None)" for u
      using s2(3) t2 by (simp_all add: set_inactive_def)
    have "i \<noteq> tmrCOMMAND_DELETE" using stop(1) by auto
    then show ?thesis using run stop(2,3) s2(4,5,7-9) fields inact(2,3) idle_timerD(1,2)[OF inact(1)]
      by (simp add: service_inv_def command_agenda_def command_calls_def)
  next
    case period
    have C: "0 < C" "unat v = C" "v > 0" using arg(3)[OF period(1)] unfolding arg(1)
      by (simp_all add: unat_tick word_less_nat_alt)
    let ?c = "c2\<lparr>ucStatus := ucStatus c2 OR tmrSTATUS_IS_ACTIVE, xTimerPeriodInTicks := v\<rparr>"
    let ?s = "upd_tmr t (xTimerPeriodInTicks_update (\<lambda>_. v)) (set_active t s2)"
    note act = active_ok[OF idle]
    have upd: "idle_timer ?s t ?c" "agenda ?e ?s = ?ag"
      using idle_upd[OF act(1), of "xTimerPeriodInTicks_update (\<lambda>_. v)"] idle_timerD(3)[OF idle] C(3) act(2) s2(7) by simp_all
    obtain s3 where s3: "prvInsertTimerInActiveList t (of_nat T + v) (of_nat T) (of_nat T) ?s = Some (s3, T + unat v \<le> T)"
      "xLastTime s3 = of_nat T" "fired s3 = fired s2" "timer_mode s3 = timer_mode ?s" "timers_inv s3"
      "agenda ?e s3 = spec_insert t (T + C) ?ag" "\<forall>u. u \<noteq> t \<longrightarrow> tmr s3 u = tmr s2 u" "tmr s3 t \<noteq> None"
      using insert_exact[OF upd(1), where C = T and T = T and e = ?e] upd(2) C s2(3) by (auto simp: set_active_def)
    have run: "?run = Some s3"
      using t s1 s2(1) period s3(1) C(3) by (auto simp: process_command_def Let_def start_command_def period_command_def)
    have modes: "timer_mode s3 t = (C, snd (?m t))" "u \<noteq> t \<Longrightarrow> timer_mode s3 u = ?m u" for u
    proof -
      have "auto_reload ?c = auto_reload c2" by (simp add: auto_reload_def bit.conj_disj_distrib2)
      then show "timer_mode s3 t = (C, snd (?m t))"
        unfolding s3(4) timer_mode_Some[OF idle_timerD(2)[OF upd(1)]] using C(2) s2(6) by simp
      show "u \<noteq> t \<Longrightarrow> timer_mode s3 u = ?m u" unfolding s3(4) using s2(4) act(3) by simp
    qed
    have "T + C < T + tick_wrap" using arg(3)[OF period(1)] by simp
    then show ?thesis using run period s3 s2(5,8,9) modes
      by (auto simp: service_inv_def command_agenda_def command_calls_def period_command_def)
  next
    case start
    let ?C = "C + fst (?m t)"
    note act = active_ok[OF idle]
    note C = arg(2)[OF start]
    let ?c = "c2\<lparr>ucStatus := ucStatus c2 OR tmrSTATUS_IS_ACTIVE\<rparr>"
    have P: "fst (?m t) = unat (xTimerPeriodInTicks c2)" using s2(6) by simp
    obtain s3 where s3: "prvInsertTimerInActiveList t (of_nat C + xTimerPeriodInTicks c2) (of_nat T) (of_nat C) (set_active t s2) = Some (s3, ?C \<le> T)"
      "xLastTime s3 = of_nat T" "fired s3 = fired s2" "timer_mode s3 = ?m" "timers_inv s3" "\<forall>u. u \<noteq> t \<longrightarrow> tmr s3 u = tmr s2 u"
      "if ?C \<le> T then idle_timer s3 t (?c\<lparr>item_val := of_nat C + xTimerPeriodInTicks c2\<rparr>) \<and> agenda ?e s3 = ?ag
       else agenda ?e s3 = spec_insert t ?C ?ag \<and> tmr s3 t \<noteq> None"
    proof -
      have fields: "xLastTime (set_active t s2) = of_nat T" "fired (set_active t s2) = fired s2"
        "xTimerPeriodInTicks ?c = xTimerPeriodInTicks c2" "u \<noteq> t \<Longrightarrow> tmr (set_active t s2) u = tmr s2 u" for u
        using s2(3) by (simp_all add: set_active_def)
      obtain s3 where "prvInsertTimerInActiveList t (of_nat C + xTimerPeriodInTicks c2) (of_nat T) (of_nat C) (set_active t s2) = Some (s3, ?C \<le> T)"
        "xLastTime s3 = of_nat T" "fired s3 = fired s2" "timer_mode s3 = ?m" "timers_inv s3"
        "if ?C \<le> T then idle_timer s3 t (?c\<lparr>item_val := of_nat C + xTimerPeriodInTicks c2\<rparr>) \<and> agenda ?e s3 = ?ag
         else agenda ?e s3 = spec_insert t ?C ?ag \<and> (\<exists>l. tmr s3 t = Some (?c\<lparr>item_val := of_nat C + xTimerPeriodInTicks c2, item_in := Some l\<rparr>))"
        "\<forall>u. u \<noteq> t \<longrightarrow> tmr s3 u = tmr (set_active t s2) u"
        using insert_exact[OF act(1) conjunct1[OF C] conjunct2[OF C] refl]
        unfolding fields(1-3) act(2,3) P[symmetric] s2(4,7) by blast
      then show ?thesis using that[of s3] fields(4) by (auto split: if_splits)
    qed
    have tset: "tmr (set_active t s2) t = Some ?c" by (rule idle_timerD(2)[OF act(1)])
    show ?thesis
    proof (cases "?C \<le> T")
      case False
      have run: "?run = Some s3"
        using t s1 s2(1) start s3(1) tset False arg(1) by (auto simp: process_command_def Let_def start_command_def)
      have "?C < T + tick_wrap" using C timer_mode_less[of s t] by simp
      then show ?thesis using run start False s3 s2(5,8,9)
        by (auto simp: service_inv_def command_agenda_def command_calls_def start_command_def period_command_def)
    next
      case True
      let ?c3 = "?c\<lparr>item_val := of_nat C + xTimerPeriodInTicks c2\<rparr>"
      have idle3: "idle_timer s3 t ?c3" and ag3: "agenda ?e s3 = ?ag" using s3(7) True by simp_all
      have gap: "T - ?C < tick_wrap" using C True by simp
      have word: "of_nat ?C = of_nat C + xTimerPeriodInTicks c2" using P by simp
      obtain s4 where s4: "(if auto_reload ?c3 then prvReloadTimer cb t (of_nat C + xTimerPeriodInTicks c2) (of_nat T) s3
          else Some (set_inactive t s3)) = Some s4" "timers_inv (call_back cb t s4)" "step_frame s3 (call_back cb t s4)"
        "agenda ?e (call_back cb t s4) = reinsert ?m T (t, ?C) ?ag"
        "fired (call_back cb t s4) = fired s3 @ call_list ?m T (t, ?C)"
        using fire_ok[OF cb idle3 True gap refl] unfolding word s3(4) ag3 by blast
      have run: "?run = Some (call_back cb t s4)"
        using t s1 s2(1) start s3(1) tset True arg(1) s4(1) idle_timerD(2)[OF idle3]
        by (auto simp: process_command_def Let_def start_command_def)
      have bound: "\<forall>x \<in> set (reinsert ?m T (t, ?C) ?ag). snd x < T + tick_wrap"
        using s2(9) calls_bound[OF True, of "?m t"] timer_mode_less[of s t] by (auto simp: reinsert_set intro: le_less_trans)
      note frame = step_frameD[OF s4(3)]
      have alive: "(tmr (call_back cb t s4) u = None) = (tmr s u = None)" for u
        using frame(4)[of u] s3(6) idle_timerD(2)[OF idle3] s2(5) t by (cases "u = t") auto
      show ?thesis using run start True s4(2,4,5) s3(2-4) s2(8) bound frame(2,3) alive t
        by (intro exI[of _ "call_back cb t s4"])
          (auto simp: service_inv_def command_agenda_def command_calls_def start_command_def period_command_def)
    qed
  qed
qed

section \<open>One turn of the timer task\<close>

text \<open>A turn finishes the old epoch, or expires the first timer if it is due, or else the task blocks.\<close>

definition turn_agenda :: "(timer_handle \<Rightarrow> nat \<times> bool) \<Rightarrow> nat \<Rightarrow> nat \<Rightarrow> agenda \<Rightarrow> agenda" where
  "turn_agenda m L T ag =
    (if L div tick_wrap < T div tick_wrap then sampled m L T ag
     else case ag of [] \<Rightarrow> [] | x # xs \<Rightarrow> if snd x \<le> T then reinsert m T x xs else ag)"

definition turn_calls :: "(timer_handle \<Rightarrow> nat \<times> bool) \<Rightarrow> nat \<Rightarrow> nat \<Rightarrow> agenda \<Rightarrow> timer_handle list" where
  "turn_calls m L T ag =
    (if L div tick_wrap < T div tick_wrap then sample_calls m L T ag
     else case ag of [] \<Rightarrow> [] | x # xs \<Rightarrow> if snd x \<le> T then call_list m T x else [])"

text \<open>The task blocks until the first timer expires or the tick count overflows, or for good without timers.\<close>

definition turn_blocks :: "nat \<Rightarrow> nat \<Rightarrow> agenda \<Rightarrow> bool" where
  "turn_blocks L T ag \<longleftrightarrow> L div tick_wrap = T div tick_wrap \<and> (ag = [] \<or> T < snd (hd ag))"

definition turn_sleep :: "nat \<Rightarrow> agenda \<Rightarrow> nat" where
  "turn_sleep T ag =
    (if ag = [] then epoch_end (T div tick_wrap) + 1 - T
     else min (snd (hd ag)) (epoch_end (T div tick_wrap) + 1) - T)"

lemma turn_bound:
  assumes "\<forall>x \<in> set ag. snd x < L + tick_wrap" "L \<le> T" "T - L < tick_wrap" "\<And>t. fst (m t) < tick_wrap"
  shows "\<forall>x \<in> set (turn_agenda m L T ag). snd x < T + tick_wrap"
proof (cases "L div tick_wrap < T div tick_wrap")
  case True
  then show ?thesis using sampled_bound[OF assms] by (simp add: turn_agenda_def)
next
  case False
  show ?thesis
  proof (cases ag)
    case (Cons x xs)
    have "snd y < T + tick_wrap" if "y \<in> set ag" for y using that assms(1,2) by fastforce
    moreover have "snd y < T + tick_wrap" if "y \<in> set (reinsert m T x xs)" "snd x \<le> T" for y
      using that calls_bound[of "snd x" T "m (fst x)"] assms(4)[of "fst x"] \<open>\<And>y. y \<in> set ag \<Longrightarrow> _\<close>[of y] Cons
      by (auto simp: reinsert_set intro: le_less_trans)
    ultimately show ?thesis using False Cons by (auto simp: turn_agenda_def)
  qed (use False in \<open>simp add: turn_agenda_def\<close>)
qed

text \<open>What \<open>prvGetNextExpireTime\<close> reports about the first entry.\<close>

lemma next_expire_ok:
  assumes inv: "timers_inv s" and time: "T div tick_wrap = e"
    and bound: "\<forall>x \<in> set (agenda e s). snd x < T + tick_wrap"
  shows "\<exists>n b. prvGetNextExpireTime s = Some (n, b) \<and>
    ((\<not> b \<and> n \<le> of_nat T) = (agenda e s \<noteq> [] \<and> snd (hd (agenda e s)) \<le> T)) \<and>
    (\<not> (agenda e s \<noteq> [] \<and> snd (hd (agenda e s)) \<le> T) \<longrightarrow>
       (if b then tlist s (\<not> pxCurrentTimerList s) = [] else b) = (agenda e s = []) \<and>
       (agenda e s \<noteq> [] \<longrightarrow> n - of_nat T = of_nat (turn_sleep T (agenda e s)) \<and> n - of_nat T \<noteq> 0))"
proof (cases "tlist s (pxCurrentTimerList s)")
  case Nil
  then have ag: "agenda e s = epoch_list (Suc e) (\<not> pxCurrentTimerList s) s"
    by (simp add: agenda_def epoch_list_def)
  have empty: "(tlist s (\<not> pxCurrentTimerList s) = []) = (agenda e s = [])" by (simp add: ag epoch_list_def)
  have range: "Suc e * tick_wrap \<le> snd x" if "x \<in> set (agenda e s)" for x
    using that epoch_list_range unfolding ag by blast
  have T: "T = e * tick_wrap + T mod tick_wrap" "T mod tick_wrap < tick_wrap" using time by auto
  have late: "T < snd (hd (agenda e s)) \<and> Suc e * tick_wrap \<le> snd (hd (agenda e s)) \<and> T mod tick_wrap \<noteq> 0" if "agenda e s \<noteq> []"
  proof -
    have mem: "hd (agenda e s) \<in> set (agenda e s)" using that by simp
    have "snd (hd (agenda e s)) < T + tick_wrap" using bound mem by blast
    then show ?thesis using range[OF mem] T by auto
  qed
  have "(0 :: tick) - of_nat T = of_nat (turn_sleep T (agenda e s)) \<and> (0 :: tick) - of_nat T \<noteq> 0" if "agenda e s \<noteq> []"
  proof -
    have "turn_sleep T (agenda e s) = Suc e * tick_wrap - T"
      using late[OF that] that T(1) time by (simp add: turn_sleep_def epoch_end_def)
    moreover have "T \<le> Suc e * tick_wrap" using T by simp
    ultimately have "of_nat (turn_sleep T (agenda e s)) + of_nat T = (of_nat (Suc e * tick_wrap + 0) :: tick)"
      by (simp flip: of_nat_add)
    then have "of_nat (turn_sleep T (agenda e s)) = (0 :: tick) - of_nat T"
      unfolding of_nat_epoch by (simp add: eq_neg_iff_add_eq_0)
    moreover have "(of_nat T :: tick) \<noteq> 0" using late[OF that] by (metis unat_tick unat_0)
    ultimately show ?thesis by simp
  qed
  moreover have "\<not> (agenda e s \<noteq> [] \<and> snd (hd (agenda e s)) \<le> T)" using late by auto
  moreover have "prvGetNextExpireTime s = Some (0, True)" using Nil by (simp add: prvGetNextExpireTime_def)
  ultimately show ?thesis using empty by (intro exI[of _ 0] exI[of _ True]) (simp only: if_True, blast)
next
  case (Cons t ts)
  let ?E = "e * tick_wrap + expiry_value s t"
  have "t \<in> set (tlist s (pxCurrentTimerList s))" using Cons by simp
  then obtain c where c: "tmr s t = Some c" using inv unfolding timers_inv_def by blast
  have ag: "agenda e s \<noteq> []" "hd (agenda e s) = (t, ?E)" using Cons by (simp_all add: agenda_def epoch_list_def)
  have T: "T = e * tick_wrap + T mod tick_wrap" "T mod tick_wrap < tick_wrap" using time by auto
  have val: "expiry_value s t = unat (item_val c)" using c by (simp add: expiry_value_def)
  have le: "(item_val c \<le> of_nat T) = (?E \<le> T)"
    unfolding word_le_nat_alt unat_tick val[symmetric] using T(1) by linarith
  have "item_val c - of_nat T = of_nat (turn_sleep T (agenda e s)) \<and> item_val c - of_nat T \<noteq> 0" if "\<not> ?E \<le> T"
  proof -
    have "turn_sleep T (agenda e s) = ?E - T"
      using expiry_value_less[of s t] time ag by (simp add: turn_sleep_def epoch_end_def)
    then have "of_nat (turn_sleep T (agenda e s)) + of_nat T = (of_nat ?E :: tick)"
      using that by (simp flip: of_nat_add)
    moreover have "of_nat ?E = item_val c" unfolding of_nat_epoch val by simp
    ultimately have "of_nat (turn_sleep T (agenda e s)) = item_val c - of_nat T" by (simp add: eq_diff_eq)
    moreover have "item_val c \<noteq> of_nat T" using le that by auto
    ultimately show ?thesis by simp
  qed
  moreover have "prvGetNextExpireTime s = Some (item_val c, False)" using Cons c by (simp add: prvGetNextExpireTime_def)
  moreover have "(item_val c \<le> of_nat T) = (snd (hd (agenda e s)) \<le> T)" using le ag(2) by simp
  ultimately show ?thesis using ag(1) le
    by (intro exI[of _ "item_val c"] exI[of _ False]) (simp only: if_False not_False_eq_True simp_thms, blast)
qed

lemma turn_decision:
  assumes inv: "service_inv L s" and time: "L \<le> T" "L div tick_wrap = T div tick_wrap"
  shows "\<exists>n b. prvGetNextExpireTime s = Some (n, b) \<and>
    ((\<not> b \<and> n \<le> of_nat T) = (\<not> turn_blocks L T (agenda (L div tick_wrap) s))) \<and>
    (turn_blocks L T (agenda (L div tick_wrap) s) \<longrightarrow>
       (if b then tlist s (\<not> pxCurrentTimerList s) = [] else b) = (agenda (L div tick_wrap) s = []) \<and>
       (agenda (L div tick_wrap) s \<noteq> [] \<longrightarrow>
          n - of_nat T = of_nat (turn_sleep T (agenda (L div tick_wrap) s)) \<and> n - of_nat T \<noteq> 0))"
proof -
  let ?ag = "agenda (L div tick_wrap) s"
  have inv1: "timers_inv s" and bound: "\<forall>x \<in> set ?ag. snd x < T + tick_wrap"
    using inv time(1) unfolding service_inv_def by fastforce+
  have blocks: "turn_blocks L T ?ag \<longleftrightarrow> \<not> (?ag \<noteq> [] \<and> snd (hd ?ag) \<le> T)"
    using time(2) by (auto simp: turn_blocks_def)
  show ?thesis unfolding blocks not_not using next_expire_ok[OF inv1 time(2)[symmetric] bound] .
qed

lemma next_expire_fields [simp]:
  "prvGetNextExpireTime (s\<lparr>world := w\<rparr>) = prvGetNextExpireTime s"
  "prvGetNextExpireTime (s\<lparr>xLastTime := n\<rparr>) = prvGetNextExpireTime s"
  by (simp_all add: prvGetNextExpireTime_def split: list.split)

lemma next_expire_total: "timers_inv s \<Longrightarrow> \<exists>n b. prvGetNextExpireTime s = Some (n, b)"
proof (cases "tlist s (pxCurrentTimerList s)")
  case (Cons t ts)
  assume "timers_inv s"
  moreover have "t \<in> set (tlist s (pxCurrentTimerList s))" using Cons by simp
  ultimately obtain c where "tmr s t = Some c" unfolding timers_inv_def by blast
  then have "prvGetNextExpireTime s = Some (item_val c, False)" using Cons by (simp add: prvGetNextExpireTime_def)
  then show ?thesis by blast
next
  case Nil
  then have "prvGetNextExpireTime s = Some (0, True)" by (simp add: prvGetNextExpireTime_def)
  then show ?thesis by blast
qed

lemma turn_expires:
  assumes cb: "callback_ok cb" and inv: "timers_inv s" and first: "prvGetNextExpireTime s = Some (n, b)"
    and due: "\<not> b" "n \<le> of_nat T" and e: "T div tick_wrap = e"
  shows "\<exists>s' t E ag. prvProcessExpiredTimer cb n (of_nat T) s = Some s' \<and> timers_inv s' \<and> step_frame s s' \<and>
    agenda e s = (t, E) # ag \<and> E \<le> T \<and> agenda e s' = reinsert (timer_mode s) T (t, E) ag \<and>
    fired s' = fired s @ call_list (timer_mode s) T (t, E)"
proof -
  obtain t ts c where head: "tlist s (pxCurrentTimerList s) = t # ts" "tmr s t = Some c" "n = item_val c"
    using first due(1) by (auto simp: prvGetNextExpireTime_def split: list.splits)
  let ?E = "e * tick_wrap + expiry_value s t"
  have n: "of_nat ?E = n" unfolding of_nat_epoch using head(2,3) by (simp add: expiry_value_def)
  have "expiry_value s t \<le> T mod tick_wrap"
    using due(2) head(2,3) by (simp add: word_le_nat_alt unat_tick expiry_value_def)
  then have E: "?E \<le> T" using e div_mult_mod_eq[of T tick_wrap] by linarith
  show ?thesis using process_expired_ok[OF cb inv head(1) refl E e] E unfolding n by blast
qed

lemma turn_effect:
  assumes cb: "callback_ok cb" and inv: "service_inv L s" and time: "L \<le> T" "T - L < tick_wrap"
    and world: "world s = (k, q)" "xTickCount k = of_nat T"
    and run: "prvGetNextExpireTime s = Some (n, b)" "prvProcessTimerOrBlockTask cb n b s = Some s'"
  defines "ag \<equiv> agenda (L div tick_wrap) s"
  shows "service_inv T s'" "timer_mode s' = timer_mode s" "(tmr s' u = None) = (tmr s u = None)"
    "agenda (T div tick_wrap) s' = turn_agenda (timer_mode s) L T ag"
    "fired s' = fired s @ turn_calls (timer_mode s) L T ag"
proof -
  let ?m = "timer_mode s" and ?s = "s\<lparr>world := (vTaskSuspendAll k, q)\<rparr>"
  have s: "timers_inv s" "xLastTime s = of_nat L" "\<forall>x \<in> set ag. snd x < L + tick_wrap"
    using inv by (simp_all add: service_inv_def ag_def)
  obtain s1 where s1: "prvSampleTimeNow (of_nat T) cb ?s = Some (s1, L div tick_wrap < T div tick_wrap)"
    "timers_inv s1" "xLastTime s1 = of_nat T" "timer_mode s1 = ?m" "\<forall>u. (tmr s1 u = None) = (tmr s u = None)"
    "agenda (T div tick_wrap) s1 = sampled ?m L T ag" "fired s1 = fired s @ sample_calls ?m L T ag"
    "\<not> L div tick_wrap < T div tick_wrap \<longrightarrow> s1 = ?s\<lparr>xLastTime := of_nat T\<rparr>"
    using sample_ok[OF cb, of ?s L T] s time by (auto simp: ag_def)
  have ticks: "xTickCount (vTaskSuspendAll k) = of_nat T" using world(2) by (simp add: vTaskSuspendAll_def)
  have "timers_inv s' \<and> xLastTime s' = of_nat T \<and> timer_mode s' = ?m \<and> (\<forall>u. (tmr s' u = None) = (tmr s u = None)) \<and>
    agenda (T div tick_wrap) s' = turn_agenda ?m L T ag \<and> fired s' = fired s @ turn_calls ?m L T ag"
  proof (cases "L div tick_wrap < T div tick_wrap")
    case True
    then obtain w where "s' = s1\<lparr>world := w\<rparr>"
      using run(2) s1(1) world(1) ticks
      by (cases "world s1") (auto simp: prvProcessTimerOrBlockTask_def Let_def bind_eq_Some_conv)
    then show ?thesis using s1 True by (simp add: turn_agenda_def turn_calls_def)
  next
    case False
    then have epoch: "L div tick_wrap = T div tick_wrap" using time(1) div_le_mono[of L T tick_wrap] by simp
    have s1_eq: "s1 = ?s\<lparr>xLastTime := of_nat T\<rparr>" using s1(8) False by simp
    have ag1: "agenda (T div tick_wrap) s1 = ag" using s1(6) False by (simp add: sampled_def)
    have decide: "(\<not> b \<and> n \<le> of_nat T) = (\<not> turn_blocks L T ag)"
      using turn_decision[OF inv time(1) epoch] run(1) by (auto simp: ag_def)
    show ?thesis
    proof (cases "turn_blocks L T ag")
      case True
      then have due: "\<not> (\<not> b \<and> n \<le> of_nat T)" using decide by simp
      obtain w where "s' = s1\<lparr>world := w\<rparr>"
        using run(2) s1(1) world(1) ticks False due
        by (cases "world s1") (auto simp: prvProcessTimerOrBlockTask_def Let_def bind_eq_Some_conv split: if_splits)
      moreover have "turn_agenda ?m L T ag = ag" "turn_calls ?m L T ag = []"
        using True False by (auto simp: turn_agenda_def turn_calls_def turn_blocks_def split: list.split)
      ultimately show ?thesis using s1 ag1 False by (simp add: sample_calls_def)
    next
      case expired: False
      then have due: "\<not> b" "n \<le> of_nat T" using decide by auto
      obtain w where w: "prvProcessExpiredTimer cb n (of_nat T) (s1\<lparr>world := w\<rparr>) = Some s'"
        using run(2) s1(1) world(1) ticks False due
        by (cases "world s1") (auto simp: prvProcessTimerOrBlockTask_def Let_def bind_eq_Some_conv split: if_splits)
      let ?s2 = "s1\<lparr>world := w\<rparr>"
      have "prvGetNextExpireTime ?s2 = Some (n, b)" using run(1) by (simp add: s1_eq)
      moreover have "timers_inv ?s2" using s1(2) by simp
      ultimately obtain t E ag' where s': "timers_inv s'" "step_frame ?s2 s'" "agenda (T div tick_wrap) ?s2 = (t, E) # ag'" "E \<le> T"
        "agenda (T div tick_wrap) s' = reinsert (timer_mode ?s2) T (t, E) ag'"
        "fired s' = fired ?s2 @ call_list (timer_mode ?s2) T (t, E)"
        using turn_expires[OF cb _ _ due refl] w by fastforce
      have mode: "timer_mode ?s2 = ?m" and fired: "fired ?s2 = fired s" by (simp_all add: s1_eq)
      have "ag = (t, E) # ag'" using s'(3) ag1 by simp
      then have "turn_agenda ?m L T ag = reinsert ?m T (t, E) ag'" "turn_calls ?m L T ag = call_list ?m T (t, E)"
        using False s'(4) by (simp_all add: turn_agenda_def turn_calls_def)
      then show ?thesis using s'(1,5,6) step_frameD[OF s'(2)] mode fired by (simp add: s1_eq)
    qed
  qed
  moreover have "\<forall>x \<in> set (turn_agenda ?m L T ag). snd x < T + tick_wrap"
    by (rule turn_bound[OF s(3) time timer_mode_less])
  ultimately show "service_inv T s'" "timer_mode s' = timer_mode s" "(tmr s' u = None) = (tmr s u = None)"
    "agenda (T div tick_wrap) s' = turn_agenda (timer_mode s) L T ag"
    "fired s' = fired s @ turn_calls (timer_mode s) L T ag"
    by (simp_all add: service_inv_def)
qed

end
