(* ===== verification/TimerProps.thy ===== *)
theory TimerProps
  imports TimerSteps TaskProps
begin

text \<open>
  The timer task as a whole: every turn returns, sleeps no longer than to the next expiry and calls
  exactly the timers that are due; commands have exactly their effect; a periodic timer does not
  drift; messages survive the queue.
\<close>

section \<open>What callbacks keep of the rest of the system\<close>









section \<open>Waiting for a command or the next expiry\<close>


section \<open>The turn\<close>



section \<open>Commands\<close>

text \<open>The time at which a command with the tick count \<open>v\<close> was given, when it is now \<open>T\<close>.\<close>

definition command_time :: "nat \<Rightarrow> tick \<Rightarrow> nat" where
  "command_time T v = T - unat (of_nat T - v)"

definition command_ok :: "nat \<Rightarrow> 32 word \<Rightarrow> tick \<Rightarrow> bool" where
  "command_ok T i v \<longleftrightarrow> (if start_command i then unat (of_nat T - v) \<le> T else if period_command i then v \<noteq> 0 else True)"

definition command_arg :: "nat \<Rightarrow> 32 word \<Rightarrow> tick \<Rightarrow> nat" where
  "command_arg T i v = (if start_command i then command_time T v else unat v)"

lemma command_time_ok:
  assumes "unat (of_nat T - v) \<le> T"
  shows "v = of_nat (command_time T v)" "command_time T v \<le> T" "T - command_time T v < tick_wrap"
proof -
  have "of_nat T = (of_nat (command_time T v) :: tick) + of_nat (unat (of_nat T - v))"
    unfolding command_time_def using assms by (simp only: of_nat_add[symmetric]) simp
  then show "v = of_nat (command_time T v)" by (simp add: algebra_simps)
  show "command_time T v \<le> T" "T - command_time T v < tick_wrap"
    using assms unsigned_less[of "of_nat T - v", where 'a = nat] by (simp_all add: command_time_def)
qed

lemma process_command_arg:
  assumes "callback_ok cb" "service_inv L s" "L \<le> T" "T - L < tick_wrap" "tmr s t \<noteq> None" "command_ok T i v"
  defines "C \<equiv> command_arg T i v"
  shows "\<exists>s'. process_command cb pf (of_nat T) \<lparr>xMessageID = i, message_u = xTimerParameters v t\<rparr> s = Some s' \<and>
    service_inv T s' \<and>
    agenda (T div tick_wrap) s' = command_agenda (timer_mode s) L T i C t (agenda (L div tick_wrap) s) \<and>
    fired s' = fired s @ command_calls (timer_mode s) L T i C t (agenda (L div tick_wrap) s) \<and>
    (\<forall>u. u \<noteq> t \<longrightarrow> timer_mode s' u = timer_mode s u \<and> (tmr s' u = None) = (tmr s u = None)) \<and>
    (if i = tmrCOMMAND_DELETE then tmr s' t = None
     else tmr s' t \<noteq> None \<and> timer_mode s' t = (if period_command i then (C, snd (timer_mode s t)) else timer_mode s t))"
proof -
  obtain c where c: "tmr s t = Some c" using assms(5) by blast
  have "v = of_nat C" using command_time_ok(1)[of T v] assms(6) by (auto simp: C_def command_arg_def command_ok_def)
  moreover have "C \<le> T \<and> T - C < tick_wrap" if "start_command i"
    using command_time_ok(2,3)[of T v] assms(6) that by (simp add: C_def command_arg_def command_ok_def)
  moreover have "0 < C \<and> C < tick_wrap" if "period_command i"
    using assms(6) that unsigned_less[of v, where 'a = nat]
    by (auto simp: C_def command_arg_def command_ok_def start_command_def period_command_def unat_gt_0)
  ultimately show ?thesis by (rule process_command_ok[OF assms(1-4) c])
qed


section \<open>Histories\<close>
























section \<open>Messages\<close>

definition message_fits :: "daemon_message \<Rightarrow> bool" where
  "message_fits m = (case message_u m of
     xTimerParameters _ _ \<Rightarrow> 0 \<le> sint (xMessageID m) | xCallbackParameters _ _ _ \<Rightarrow> sint (xMessageID m) < 0)"

lemma message_roundtrip:
  assumes "message_fits m"
  shows "length (message_bytes pad m) = tmrSIZE_OF_MESSAGE" "message_of_bytes (message_bytes pad m) = m"
proof -
  have word: "word_of_bytes (word_bytes w) = w" "length (word_bytes w) = 4" for w
    using unsigned_less[of w, where 'a = nat]
    by (simp_all add: word_of_bytes_def word_bytes_def le32_round_trip u32_lim_def)
  show "length (message_bytes pad m) = tmrSIZE_OF_MESSAGE"
    by (simp add: message_bytes_def word(2) tmrSIZE_OF_MESSAGE_def split: message_union.split)
  show "message_of_bytes (message_bytes pad m) = m"
    using assms by (cases m) (auto simp: message_fits_def message_of_bytes_def message_bytes_def word Let_def split: message_union.splits)
qed

lemma command_sent:
  assumes "queue_inv q" "uxItemSize q = tmrSIZE_OF_MESSAGE" "message_fits (timer_command t i v)"
    "(\<exists>ticks entry. xTimerGenericCommand_try pad t i v ticks entry (k, Some q) = Some ((k1, Some q1), Moved)) \<or>
     (\<exists>woken. xTimerGenericCommand_isr pad t i v (k, Some q) = Some ((k1, Some q1), True, woken))"
  shows "queue_inv q1 \<and> uxItemSize q1 = tmrSIZE_OF_MESSAGE \<and> items q1 = items q @ [message_bytes pad (timer_command t i v)]"
proof -
  let ?bs = "message_bytes pad (timer_command t i v)"
  have size: "uxItemSize q = 0 \<longrightarrow> queueSEND_TO_BACK \<noteq> queueOVERWRITE" by simp
  have payload: "payload (Some ?bs) q = ?bs"
    using message_roundtrip(1)[OF assms(3)] assms(2) by (simp add: payload_def item_bytes_def)
  have "refines q q1 [Sent queueSEND_TO_BACK ?bs]"
    using assms(4)
  proof
    assume "\<exists>ticks entry. xTimerGenericCommand_try pad t i v ticks entry (k, Some q) = Some ((k1, Some q1), Moved)"
    then obtain ticks entry where "xQueueGenericSend_try (Some ?bs) ticks queueSEND_TO_BACK entry (k, q) = Some ((k1, q1), Moved)"
      by (auto simp: xTimerGenericCommand_try_def Let_def guard_bind_Some bind_eq_Some_conv)
    from send_refines[OF assms(1) size this] show ?thesis by (simp add: payload)
  next
    assume "\<exists>woken. xTimerGenericCommand_isr pad t i v (k, Some q) = Some ((k1, Some q1), True, woken)"
    then obtain woken where "xQueueGenericSendFromISR (Some ?bs) queueSEND_TO_BACK (k, q) = Some ((k1, q1), True, woken)"
      by (auto simp: xTimerGenericCommand_isr_def guard_bind_Some bind_eq_Some_conv)
    from send_isr_refines[OF assms(1) size this] show ?thesis by (simp add: payload)
  qed
  then show ?thesis using assms(2) same_shapeD(3)[of q q1] by (auto simp: refines_def split: if_splits)
qed

lemma command_received:
  assumes "queue_inv q" "items q = message_bytes pad m # xs" "message_fits m"
    and run: "receive_command cb pf n (s\<lparr>world := (k, q)\<rparr>) = Some (s', b)"
  shows "b \<and> (\<exists>k' q'. items q' = xs \<and> process_command cb pf n m (s\<lparr>world := (k', q')\<rparr>) = Some s')"
proof -
  obtain k' q' r bs where recv: "xQueueReceive_try (Some tmrSIZE_OF_MESSAGE) 0 None (k, q) = Some ((k', q'), r, bs)"
    "r = Moved \<longrightarrow> b \<and> process_command cb pf n (message_of_bytes bs) (s\<lparr>world := (k', q')\<rparr>) = Some s'"
    using run by (auto simp: receive_command_def Let_def bind_eq_Some_conv split: if_splits)
  have "refines q q' [if r = Moved then Received bs else EmptySeen]" by (rule receive_refines(1)[OF assms(1) recv(1)])
  then have "r = Moved" "bs = message_bytes pad m" "items q' = xs"
    using assms(2) by (auto simp: refines_def split: if_splits)
  then show ?thesis using recv(2) message_roundtrip(2)[OF assms(3)] by auto
qed

text \<open>Property C23: a command that a task or an interrupt has put into the queue is the command that the timer
  task carries out: it is added behind the messages that wait, and when its turn comes the bytes
  that the queue copied are read back as the same command for the same timer with the same value,
  whatever the unused bytes of the message hold, and the other messages stay.\<close>

theorem timer_command_delivered:
  assumes "queue_inv q" "uxItemSize q = tmrSIZE_OF_MESSAGE" "0 \<le> sint i"
    "(\<exists>ticks entry. xTimerGenericCommand_try pad t i v ticks entry (k, Some q) = Some ((k1, Some q1), Moved)) \<or>
     (\<exists>woken. xTimerGenericCommand_isr pad t i v (k, Some q) = Some ((k1, Some q1), True, woken))"
    "queue_inv q2" "items q2 = drop (length (items q)) (items q1) @ xs"
    "receive_command cb pf n (s\<lparr>world := (k2, q2)\<rparr>) = Some (s', b)"
  shows "take (length (items q)) (items q1) = items q \<and> b \<and>
    (\<exists>k3 q3. items q3 = xs \<and> process_command cb pf n (timer_command t i v) (s\<lparr>world := (k3, q3)\<rparr>) = Some s')"
proof -
  have fits: "message_fits (timer_command t i v)" using assms(3) by (simp add: message_fits_def timer_command_def)
  have sent: "items q1 = items q @ [message_bytes pad (timer_command t i v)]"
    using command_sent[OF assms(1,2) fits assms(4)] by blast
  then have "items q2 = message_bytes pad (timer_command t i v) # xs" using assms(6) by simp
  from command_received[OF assms(5) this fits assms(7)] sent show ?thesis by simp
qed

section \<open>Examples\<close>

text \<open>An auto-reload timer with a period of 10 ticks, and a queue for two messages.\<close>

definition blink :: "tick \<Rightarrow> sys \<Rightarrow> sys timers" where
  "blink v w = \<lparr>tmr = (\<lambda>t. if t = 1 then Some \<lparr>xTimerPeriodInTicks = 10, pvTimerID = 0, ucStatus = 5, item_val = v, item_in = Some False\<rparr>
       else None), tlist = (\<lambda>l. if l then [] else [1]), pxCurrentTimerList = False, xLastTime = 0, fired = [], world = w\<rparr>"

abbreviation no_callback :: "sys callback" where "no_callback \<equiv> \<lambda>t s. s"

definition command_queue :: queue where
  "command_queue = \<lparr>is_mutex = False, storage = replicate 32 0, pcWriteTo = 0, pcTail = 32, pcReadFrom = 16,
     xMutexHolder = None, uxRecursiveCallCount = 0, xTasksWaitingToSend = 0, xTasksWaitingToReceive = 1,
     uxMessagesWaiting = 0, uxLength = 2, uxItemSize = 16, cRxLock = queueUNLOCKED, cTxLock = queueUNLOCKED\<rparr>"

lemma command_queue_ok: "queue_inv command_queue" "items command_queue = []" "uxItemSize command_queue = tmrSIZE_OF_MESSAGE"
proof -
  have "prvInitialiseNewQueue 2 16 0 1 (replicate 32 0) kernel0 = Some (kernel0, command_queue)"
    by (simp add: prvInitialiseNewQueue_def xQueueGenericReset_def new_queue_def command_queue_def Let_def kernel0_def fun_eq_iff)
  then show "queue_inv command_queue" "items command_queue = []"
    using new_queue_reset[of 2 16 "replicate 32 0" kernel0 0 1] by (auto simp: kernel0_def)
  show "uxItemSize command_queue = tmrSIZE_OF_MESSAGE" by (simp add: command_queue_def tmrSIZE_OF_MESSAGE_def)
qed

lemma blink_ok: "callback_ok no_callback" "service_inv 0 (blink v w)" "agenda 0 (blink v w) = [(1, unat v)]"
  "timer_mode (blink v w) 1 = (10, True)"
proof -
  show "callback_ok no_callback" by (simp add: callback_ok_def same_timers_def)
  have val: "expiry_value (blink v w) 1 = unat v" by (simp add: expiry_value_def blink_def)
  show ag: "agenda 0 (blink v w) = [(1, unat v)]" using val by (simp add: agenda_def epoch_list_def) (simp add: blink_def)
  have "timers_inv (blink v w)" by (auto simp: timers_inv_def blink_def)
  then show "service_inv 0 (blink v w)"
    using ag unsigned_less[of v, where 'a = nat] by (simp add: service_inv_def) (simp add: blink_def)
  show "timer_mode (blink v w) 1 = (10, True)" by (simp add: timer_mode_def blink_def auto_reload_def)
qed





theorem timer_command_delivered_witness:
  "\<exists>k k1 q1 s'. boot [(1, 5), (2, 5)] 0 = Some k \<and>
    xTimerGenericCommand_try 9 1 tmrCOMMAND_STOP 0 0 None (k, Some command_queue) = Some ((k1, Some q1), Moved) \<and>
    receive_command no_callback (\<lambda>_ _ _ s. s) 7 (blink 10 (k1, q1)) = Some (s', True) \<and>
    (\<exists>w. process_command no_callback (\<lambda>_ _ _ s. s) 7 (timer_command 1 tmrCOMMAND_STOP 0) (blink 10 w) = Some s')"
proof -
  obtain k where k: "boot [(1, 5), (2, 5)] 0 = Some k" "reachable 0 k" "uxSchedulerSuspended k = 0" using boot_example by blast
  let ?q = command_queue and ?m = "timer_command 1 tmrCOMMAND_STOP 0"
  let ?bs = "message_bytes 9 ?m"
  have fits: "message_fits ?m" by (simp add: message_fits_def timer_command_def)
  have "may 0 (Send (Some ?bs) 0 queueSEND_TO_BACK None) (k, ?q)"
    using message_roundtrip(1)[OF fits] command_queue_ok(3) by (simp add: item_bytes_def giver_ok_def) (simp add: command_queue_def)
  then obtain k1 q1 r where send: "xQueueGenericSend_try (Some ?bs) 0 queueSEND_TO_BACK None (k, ?q) = Some ((k1, q1), r)" "kernel_inv 0 k1"
    using send_returns[OF reachable_inv[OF k(2)] command_queue_ok(1)] by blast
  have "r = Moved" using send(1)
    by (auto simp: xQueueGenericSend_try_def guard_bind_Some command_queue_def bind_eq_Some_conv split: if_splits)
  then have command: "xTimerGenericCommand_try 9 1 tmrCOMMAND_STOP 0 0 None (k, Some ?q) = Some ((k1, Some q1), Moved)"
    using send(1) by (simp add: xTimerGenericCommand_try_def Let_def)
  then have sent: "(\<exists>ticks entry. xTimerGenericCommand_try 9 1 tmrCOMMAND_STOP 0 ticks entry (k, Some ?q) = Some ((k1, Some q1), Moved)) \<or>
     (\<exists>woken. xTimerGenericCommand_isr 9 1 tmrCOMMAND_STOP 0 (k, Some ?q) = Some ((k1, Some q1), True, woken))" by blast
  note q1 = command_sent[OF command_queue_ok(1,3) fits sent]
  have drop: "items q1 = drop (length (items ?q)) (items q1) @ []" using q1 command_queue_ok(2) by simp
  have "buffer_ok (Some tmrSIZE_OF_MESSAGE) q1" using q1 by (simp add: buffer_ok_def)
  then obtain k2 q2 r bs where receive: "xQueueReceive_try (Some tmrSIZE_OF_MESSAGE) 0 None (k1, q1) = Some ((k2, q2), r, bs)"
    using receive_returns(1)[OF send(2) _ , of q1 "Some tmrSIZE_OF_MESSAGE" 0 None] q1 by blast
  have world: "(blink 10 w)\<lparr>world := w'\<rparr> = blink 10 w'" for w w' by (simp add: blink_def)
  have first: "items q1 = [?bs]" using q1 command_queue_ok(2) by simp
  have "refines q1 q2 [if r = Moved then Received bs else EmptySeen]" by (rule receive_refines(1)[OF conjunct1[OF q1] receive])
  then have moved: "r = Moved" "message_of_bytes bs = ?m"
    using first message_roundtrip(2)[OF fits] by (auto simp: refines_def split: if_splits)
  have alive: "tmr (blink 10 (k2, q2)) 1 \<noteq> None" by (simp add: blink_def)
  have ok: "command_ok 7 tmrCOMMAND_STOP 0" by (simp add: command_ok_def start_command_def period_command_def)
  have time: "(0::nat) \<le> 7" "(7::nat) - 0 < tick_wrap" by simp_all
  obtain s' where "process_command no_callback (\<lambda>_ _ _ s. s) (of_nat 7) \<lparr>xMessageID = tmrCOMMAND_STOP, message_u = xTimerParameters 0 1\<rparr>
      (blink 10 (k2, q2)) = Some s'"
    using process_command_arg[OF blink_ok(1,2) time alive ok] by blast
  then have received: "receive_command no_callback (\<lambda>_ _ _ s. s) 7 ((blink 10 (k1, q1))\<lparr>world := (k1, q1)\<rparr>) = Some (s', True)"
    using receive moved unfolding world receive_command_def by (simp add: world timer_command_def) (simp add: blink_def)
  have sign: "0 \<le> sint tmrCOMMAND_STOP" by simp
  from timer_command_delivered[OF command_queue_ok(1,3) sign sent conjunct1[OF q1] drop received]
  show ?thesis using k(1) command received unfolding world by blast
qed

end
