(* ===== verification/Fifo.thy ===== *)
theory Fifo
  imports Prelude
begin

text \<open>
  The two contracts the buffers of the program share. A \<^emph>\<open>byte stream\<close> accepts a prefix of
  what is put and hands out a prefix of what it holds; a \<^emph>\<open>packet queue\<close> accepts a whole
  packet or nothing and hands back whole packets. Clients are proved once here, over any
  interleaving of operations; the log ring, the stream buffer, the message buffer and the
  shared-memory ring interpret the locales with the model of their code.
\<close>

section \<open>Byte streams\<close>

datatype 'a fifo_op = Put "'a list" | Get nat

text \<open>Run a sequence of operations, collecting what was accepted and what was delivered.\<close>

fun fifo_run :: "('s \<Rightarrow> 'a list \<Rightarrow> 's \<times> nat) \<Rightarrow> ('s \<Rightarrow> nat \<Rightarrow> 's \<times> 'a list) \<Rightarrow>
    's \<Rightarrow> 'a fifo_op list \<Rightarrow> 's \<times> 'a list \<times> 'a list" where
  "fifo_run put get s [] = (s, [], [])"
| "fifo_run put get s (Put xs # ops) =
     (case put s xs of (s1, n) \<Rightarrow>
      case fifo_run put get s1 ops of (s2, acc, del) \<Rightarrow> (s2, take n xs @ acc, del))"
| "fifo_run put get s (Get n # ops) =
     (case get s n of (s1, ys) \<Rightarrow>
      case fifo_run put get s1 ops of (s2, acc, del) \<Rightarrow> (s2, acc, ys @ del))"

locale byte_stream =
  fixes inv :: "'s \<Rightarrow> bool"
    and content :: "'s \<Rightarrow> 'a list"
    and cap :: "'s \<Rightarrow> nat"
    and okput :: "'a list \<Rightarrow> bool"
    and put :: "'s \<Rightarrow> 'a list \<Rightarrow> 's \<times> nat"
    and get :: "'s \<Rightarrow> nat \<Rightarrow> 's \<times> 'a list"
  assumes content_le: "inv s \<Longrightarrow> length (content s) \<le> cap s"
    and put_inv: "inv s \<Longrightarrow> okput xs \<Longrightarrow> inv (fst (put s xs))"
    and put_cap: "inv s \<Longrightarrow> okput xs \<Longrightarrow> cap (fst (put s xs)) = cap s"
    and put_count: "inv s \<Longrightarrow> okput xs \<Longrightarrow>
          snd (put s xs) = min (length xs) (cap s - length (content s))"
    and put_content: "inv s \<Longrightarrow> okput xs \<Longrightarrow>
          content (fst (put s xs)) = content s @ take (snd (put s xs)) xs"
    and get_inv: "inv s \<Longrightarrow> inv (fst (get s n))"
    and get_cap: "inv s \<Longrightarrow> cap (fst (get s n)) = cap s"
    and get_content: "inv s \<Longrightarrow> content s = snd (get s n) @ content (fst (get s n))"
    and get_len: "inv s \<Longrightarrow> length (snd (get s n)) \<le> n"
begin

lemma put_split:
  assumes "inv s" "okput xs" "put s xs = (s1, n)"
  shows "inv s1 \<and> cap s1 = cap s \<and> n = min (length xs) (cap s - length (content s)) \<and>
         content s1 = content s @ take n xs"
  using put_inv [of s xs] put_cap [of s xs] put_count [of s xs] put_content [of s xs] assms by simp

lemma get_split:
  assumes "inv s" "get s n = (s1, ys)"
  shows "inv s1 \<and> cap s1 = cap s \<and> content s = ys @ content s1 \<and> length ys \<le> n"
  using get_inv [of s n] get_cap [of s n] get_content [of s n] get_len [of s n] assms by simp

lemma put_within_cap:
  assumes "inv s" "okput xs" "put s xs = (s1, n)" "length (content s) + length xs \<le> cap s"
  shows "n = length xs \<and> content s1 = content s @ xs"
  using put_split [OF assms(1-3)] assms(4) by simp

text \<open>First in, first out: nothing is lost, duplicated or reordered between two ends.\<close>

lemma run_fifo:
  assumes "inv s" "\<forall>xs. Put xs \<in> set ops \<longrightarrow> okput xs"
    and "fifo_run put get s ops = (s', acc, del)"
  shows "inv s' \<and> cap s' = cap s \<and> content s @ acc = del @ content s'"
  using assms
proof (induction ops arbitrary: s acc del)
  case Nil
  then show ?case by simp
next
  case (Cons op ops)
  show ?case
  proof (cases op)
    case (Put xs)
    obtain s1 n where p: "put s xs = (s1, n)" by fastforce
    obtain acc1 del1 where r: "fifo_run put get s1 ops = (s', acc1, del1)"
      using Cons.prems(3) p Put by (auto split: prod.splits)
    have "okput xs" using Cons.prems(2) Put by simp
    note 1 = put_split [OF Cons.prems(1) this p]
    have 2: "inv s' \<and> cap s' = cap s1 \<and> content s1 @ acc1 = del1 @ content s'"
      using Cons.IH [OF _ _ r] 1 Cons.prems(2) by simp
    have "acc = take n xs @ acc1" "del = del1"
      using Cons.prems(3) p r Put by simp_all
    with 1 2 show ?thesis by simp
  next
    case (Get n)
    obtain s1 ys where g: "get s n = (s1, ys)" by fastforce
    obtain acc1 del1 where r: "fifo_run put get s1 ops = (s', acc1, del1)"
      using Cons.prems(3) g Get by (auto split: prod.splits)
    note 1 = get_split [OF Cons.prems(1) g]
    have 2: "inv s' \<and> cap s' = cap s1 \<and> content s1 @ acc1 = del1 @ content s'"
      using Cons.IH [OF _ _ r] 1 Cons.prems(2) by simp
    have "acc = acc1" "del = ys @ del1"
      using Cons.prems(3) g r Get by simp_all
    with 1 2 show ?thesis by simp
  qed
qed

lemma run_delivers_prefix:
  assumes "inv s" "\<forall>xs. Put xs \<in> set ops \<longrightarrow> okput xs" "content s = []"
    and "fifo_run put get s ops = (s', acc, del)"
  shows "\<exists>rest. acc = del @ rest \<and> length rest \<le> cap s"
  using run_fifo [OF assms(1,2,4)] assms(3) content_le by fastforce

end

text \<open>A stream whose reader takes all it may take, not only a prefix of that.\<close>

locale greedy_stream = byte_stream +
  assumes get_count: "inv s \<Longrightarrow> length (snd (get s n)) = min n (length (content s))"
begin

lemma get_all:
  assumes "inv s" "length (content s) \<le> n"
  shows "snd (get s n) = content s \<and> content (fst (get s n)) = []"
  using get_content [of s n] get_count [of s n] assms
  by (metis append_Nil2 append_eq_conv_conj min.absorb2 take_all_iff drop_all le_refl)

lemma put_get_roundtrip:
  assumes "inv s" "okput xs" "content s = []" "length xs \<le> cap s"
  shows "snd (get (fst (put s xs)) (length xs)) = xs"
proof -
  obtain s1 n where p: "put s xs = (s1, n)" by fastforce
  have "inv s1" "content s1 = xs"
    using put_within_cap [OF assms(1,2) p] put_split [OF assms(1,2) p] assms(3,4) by simp_all
  then show ?thesis using get_all [of s1 "length xs"] p by simp
qed

end

section \<open>Packet queues\<close>

datatype 'a pkt_op = Send "'a list" | Recv

text \<open>
  The reader takes the packets in the order and with the sizes they were sent with, so
  a run carries the sizes of the packets in flight.
\<close>

fun pkt_run :: "('s \<Rightarrow> 'a list \<Rightarrow> 's \<times> bool) \<Rightarrow> ('s \<Rightarrow> nat \<Rightarrow> 's \<times> 'a list) \<Rightarrow>
    's \<Rightarrow> nat list \<Rightarrow> 'a pkt_op list \<Rightarrow> 's \<times> 'a list list \<times> 'a list list" where
  "pkt_run send recv s ns [] = (s, [], [])"
| "pkt_run send recv s ns (Send m # ops) =
     (case send s m of (s1, ok) \<Rightarrow>
      case pkt_run send recv s1 (if ok then ns @ [length m] else ns) ops of
        (s2, acc, del) \<Rightarrow> (s2, if ok then m # acc else acc, del))"
| "pkt_run send recv s [] (Recv # ops) = pkt_run send recv s [] ops"
| "pkt_run send recv s (n # ns) (Recv # ops) =
     (case recv s n of (s1, ys) \<Rightarrow>
      case pkt_run send recv s1 ns ops of (s2, acc, del) \<Rightarrow> (s2, acc, ys # del))"

locale packet_queue =
  fixes holds :: "'s \<Rightarrow> 'a list list \<Rightarrow> bool"
    and valid :: "'s \<Rightarrow> 'a list \<Rightarrow> bool"
    and send :: "'s \<Rightarrow> 'a list \<Rightarrow> 's \<times> bool"
    and recv :: "'s \<Rightarrow> nat \<Rightarrow> 's \<times> 'a list"
  assumes send_holds: "holds s ms \<Longrightarrow> valid s m \<Longrightarrow> send s m = (s', ok) \<Longrightarrow>
            holds s' (if ok then ms @ [m] else ms)"
    and send_valid: "holds s ms \<Longrightarrow> valid s m \<Longrightarrow> send s m = (s', ok) \<Longrightarrow> valid s' = valid s"
    and recv_holds: "holds s (m # ms) \<Longrightarrow> recv s (length m) = (s', ys) \<Longrightarrow>
            ys = m \<and> holds s' ms"
    and recv_valid: "holds s (m # ms) \<Longrightarrow> recv s (length m) = (s', ys) \<Longrightarrow> valid s' = valid s"
begin

lemma run_packets:
  assumes "holds s ms" "\<forall>m. Send m \<in> set ops \<longrightarrow> valid s m"
    and "pkt_run send recv s (map length ms) ops = (s', acc, del)"
  shows "\<exists>ms'. holds s' ms' \<and> ms @ acc = del @ ms'"
  using assms
proof (induction ops arbitrary: s ms acc del)
  case Nil
  then show ?case by auto
next
  case (Cons op ops)
  show ?case
  proof (cases op)
    case (Send m)
    obtain s1 ok where p: "send s m = (s1, ok)" by fastforce
    let ?ms = "if ok then ms @ [m] else ms"
    obtain acc1 del1 where r: "pkt_run send recv s1 (map length ?ms) ops = (s', acc1, del1)"
      and e: "acc = (if ok then m # acc1 else acc1)" "del = del1"
      using Cons.prems(3) p Send by (auto split: prod.splits if_splits)
    have v: "valid s m" using Cons.prems(2) Send by simp
    have "holds s1 ?ms" by (rule send_holds [OF Cons.prems(1) v p])
    moreover have "\<forall>m. pkt_op.Send m \<in> set ops \<longrightarrow> valid s1 m"
      using Cons.prems(2) send_valid [OF Cons.prems(1) v p] by simp
    ultimately obtain ms' where "holds s' ms'" "?ms @ acc1 = del1 @ ms'"
      using Cons.IH [OF _ _ r] by blast
    with e show ?thesis by (auto split: if_splits)
  next
    case Recv
    show ?thesis
    proof (cases ms)
      case Nil
      with Cons.prems Recv show ?thesis
        using Cons.IH [of s "[]" acc del] by simp
    next
      case (Cons m ms1)
      obtain s1 ys where g: "recv s (length m) = (s1, ys)" by fastforce
      obtain acc1 del1 where r: "pkt_run send recv s1 (map length ms1) ops = (s', acc1, del1)"
        and e: "acc = acc1" "del = ys # del1"
        using Cons.prems(3) g Recv Cons by (auto split: prod.splits)
      have h: "holds s (m # ms1)" using Cons.prems(1) Cons by simp
      have "ys = m" "holds s1 ms1" using recv_holds [OF h g] by simp_all
      moreover have "\<forall>m. Send m \<in> set ops \<longrightarrow> valid s1 m"
        using Cons.prems(2) recv_valid [OF h g] by simp
      ultimately obtain ms' where "holds s' ms'" "ms1 @ acc1 = del1 @ ms'"
        using Cons.IH [OF _ _ r] by blast
      with e \<open>ys = m\<close> Cons show ?thesis by auto
    qed
  qed
qed

end

end
