(* ===== verification/StreamBuffer.thy ===== *)
theory StreamBuffer
  imports Fifo
begin

text \<open>
  FreeRTOS stream and message buffers (\<open>freertos/stream_buffer.c\<close>): the ring of bytes, the
  framing of messages with their length, the blocking send with its wait loop and the
  notifications of the waiting task. A failed \<open>configASSERT\<close> (it is \<open>assert\<close> in this build)
  is \<open>None\<close>. A stream buffer is shown to be a byte stream, a message buffer a packet queue.
\<close>

section \<open>The structure\<close>

type_synonym task = nat

text \<open>
  \<open>StreamBuffer_t\<close>. \<open>pucBuffer\<close> is the storage area; \<open>notified\<close> records the tasks passed to
  \<open>xTaskNotify\<close> by the completion macros, in order.
\<close>

record stream_buffer =
  xTail :: nat
  xHead :: nat
  xLength :: nat
  xTriggerLevelBytes :: nat
  xTaskWaitingToReceive :: "task option"
  xTaskWaitingToSend :: "task option"
  pucBuffer :: "byte list"
  ucFlags :: byte
  uxStreamBufferNumber :: nat
  notified :: "task list"

definition sbFLAGS_IS_MESSAGE_BUFFER :: byte where
  "sbFLAGS_IS_MESSAGE_BUFFER = 1"

definition sbBYTES_TO_STORE_MESSAGE_LENGTH :: nat where
  "sbBYTES_TO_STORE_MESSAGE_LENGTH = 4"

definition sizeof_StreamBuffer_t :: nat where
  "sizeof_StreamBuffer_t = 36"

definition is_message_buffer :: "stream_buffer \<Rightarrow> bool" where
  "is_message_buffer s = (ucFlags s AND sbFLAGS_IS_MESSAGE_BUFFER \<noteq> 0)"

section \<open>Creation and reset\<close>

text \<open>
  The storage is first filled with \<open>0x55\<close> (asserts are on), then the structure is cleared and
  the given fields are set.
\<close>

definition prvInitialiseNewStreamBuffer ::
    "byte list \<Rightarrow> nat \<Rightarrow> nat \<Rightarrow> byte \<Rightarrow> task list \<Rightarrow> stream_buffer" where
  "prvInitialiseNewStreamBuffer buf nbytes trigger flags notes =
     \<lparr>xTail = 0, xHead = 0, xLength = nbytes, xTriggerLevelBytes = trigger,
      xTaskWaitingToReceive = None, xTaskWaitingToSend = None,
      pucBuffer = mem_write buf 0 (replicate nbytes 0x55), ucFlags = flags,
      uxStreamBufferNumber = 0, notified = notes\<rparr>"

text \<open>
  \<open>malloc\<close> is the heap's answer: the storage behind the structure, or \<open>None\<close> when there is no
  memory. The outer \<open>None\<close> is a failed assert, the inner one the \<open>NULL\<close> handle.
\<close>

definition xStreamBufferGenericCreate ::
    "(nat \<Rightarrow> byte list option) \<Rightarrow> nat \<Rightarrow> nat \<Rightarrow> bool \<Rightarrow> stream_buffer option option" where
  "xStreamBufferGenericCreate malloc nbytes trigger is_message =
     (if (if is_message then \<not> nbytes > sbBYTES_TO_STORE_MESSAGE_LENGTH else \<not> nbytes > 0) then None
      else if \<not> trigger \<le> nbytes then None
      else
        (let flags = (if is_message then sbFLAGS_IS_MESSAGE_BUFFER else 0);
             trigger = (if trigger = 0 then 1 else trigger)
         in Some
           (if nbytes < u32_add (u32_add nbytes 1) sizeof_StreamBuffer_t then
              (let nbytes = u32_add nbytes 1 in
               case malloc (u32_add nbytes sizeof_StreamBuffer_t) of
                 None \<Rightarrow> None
               | Some mem \<Rightarrow> Some (prvInitialiseNewStreamBuffer
                    (drop sizeof_StreamBuffer_t mem) nbytes trigger flags []))
            else None)))"

definition xStreamBufferReset :: "stream_buffer \<Rightarrow> stream_buffer \<times> bool" where
  "xStreamBufferReset s =
     (if xTaskWaitingToReceive s = None \<and> xTaskWaitingToSend s = None
      then ((prvInitialiseNewStreamBuffer (pucBuffer s) (xLength s) (xTriggerLevelBytes s)
               (ucFlags s) (notified s))\<lparr>uxStreamBufferNumber := uxStreamBufferNumber s\<rparr>, True)
      else (s, False))"

definition xStreamBufferSetTriggerLevel :: "nat \<Rightarrow> stream_buffer \<Rightarrow> stream_buffer \<times> bool" where
  "xStreamBufferSetTriggerLevel trigger s =
     (let trigger = (if trigger = 0 then 1 else trigger) in
      if trigger < xLength s then (s\<lparr>xTriggerLevelBytes := trigger\<rparr>, True) else (s, False))"

section \<open>Space and content\<close>

definition prvBytesInBuffer :: "stream_buffer \<Rightarrow> nat" where
  "prvBytesInBuffer s =
     (let c = u32_sub (u32_add (xLength s) (xHead s)) (xTail s)
      in if c \<ge> xLength s then u32_sub c (xLength s) else c)"

definition xStreamBufferBytesAvailable :: "stream_buffer \<Rightarrow> nat" where
  "xStreamBufferBytesAvailable s = prvBytesInBuffer s"

text \<open>
  The loop that re-reads \<open>xTail\<close> runs once when no reader interferes; the subtraction of one is
  the slot that tells a full buffer from an empty one.
\<close>

definition xStreamBufferSpacesAvailable :: "stream_buffer \<Rightarrow> nat" where
  "xStreamBufferSpacesAvailable s =
     (let sp = u32_sub (u32_sub (u32_add (xLength s) (xTail s)) (xHead s)) 1
      in if sp \<ge> xLength s then u32_sub sp (xLength s) else sp)"

definition xStreamBufferIsEmpty :: "stream_buffer \<Rightarrow> bool" where
  "xStreamBufferIsEmpty s = (xHead s = xTail s)"

definition xStreamBufferIsFull :: "stream_buffer \<Rightarrow> bool" where
  "xStreamBufferIsFull s =
     (xStreamBufferSpacesAvailable s \<le>
        (if is_message_buffer s then sbBYTES_TO_STORE_MESSAGE_LENGTH else 0))"

section \<open>Moving bytes\<close>

definition prvWriteBytesToBuffer ::
    "stream_buffer \<Rightarrow> byte list \<Rightarrow> nat \<Rightarrow> (stream_buffer \<times> nat) option" where
  "prvWriteBytesToBuffer s xs head =
     (let count = length xs; first = min (u32_sub (xLength s) head) count in
      if \<not> count > 0 then None
      else if \<not> u32_add head first \<le> xLength s then None
      else
        (let buf = mem_write (pucBuffer s) head (take first xs);
             head' = u32_add head count;
             head' = (if head' \<ge> xLength s then u32_sub head' (xLength s) else head')
         in if count > first then
              (if \<not> u32_sub count first \<le> xLength s then None
               else Some (s\<lparr>pucBuffer := mem_write buf 0 (drop first xs)\<rparr>, head'))
            else Some (s\<lparr>pucBuffer := buf\<rparr>, head')))"

definition prvReadBytesFromBuffer ::
    "stream_buffer \<Rightarrow> nat \<Rightarrow> nat \<Rightarrow> (byte list \<times> nat) option" where
  "prvReadBytesFromBuffer s count tail =
     (let first = min (u32_sub (xLength s) tail) count in
      if \<not> count \<noteq> 0 then None
      else if \<not> first \<le> count then None
      else if \<not> u32_add tail first \<le> xLength s then None
      else
        (let xs = mem_read (pucBuffer s) tail first;
             xs = (if count > first then xs @ mem_read (pucBuffer s) 0 (u32_sub count first) else xs);
             tail' = u32_add tail count
         in Some (xs, if tail' \<ge> xLength s then u32_sub tail' (xLength s) else tail')))"

definition prvWriteMessageToBuffer ::
    "stream_buffer \<Rightarrow> byte list \<Rightarrow> nat \<Rightarrow> nat \<Rightarrow> (stream_buffer \<times> nat) option" where
  "prvWriteMessageToBuffer s xs space required =
     (case (if is_message_buffer s then
              (if space \<ge> required then
                 (case prvWriteBytesToBuffer s (le32_bytes (length xs)) (xHead s) of
                    None \<Rightarrow> None | Some (s, head) \<Rightarrow> Some (s, head, length xs))
               else Some (s, xHead s, 0))
            else Some (s, xHead s, min (length xs) space)) of
        None \<Rightarrow> None
      | Some (s, head, n) \<Rightarrow>
          if n \<noteq> 0 then
            (case prvWriteBytesToBuffer s (take n xs) head of
               None \<Rightarrow> None | Some (s, head') \<Rightarrow> Some (s\<lparr>xHead := head'\<rparr>, n))
          else Some (s, 0))"

definition prvReadMessageFromBuffer ::
    "stream_buffer \<Rightarrow> nat \<Rightarrow> nat \<Rightarrow> (stream_buffer \<times> byte list) option" where
  "prvReadMessageFromBuffer s buflen avail =
     (case (if is_message_buffer s then
              (case prvReadBytesFromBuffer s sbBYTES_TO_STORE_MESSAGE_LENGTH (xTail s) of
                 None \<Rightarrow> None
               | Some (bs, tail) \<Rightarrow>
                   (let n = le32_value bs in
                    Some (tail, if n > buflen then 0 else n,
                          u32_sub avail sbBYTES_TO_STORE_MESSAGE_LENGTH)))
            else Some (xTail s, buflen, avail)) of
        None \<Rightarrow> None
      | Some (tail, n, avail) \<Rightarrow>
          (let count = min n avail in
           if count \<noteq> 0 then
             (case prvReadBytesFromBuffer s count tail of
                None \<Rightarrow> None | Some (xs, tail') \<Rightarrow> Some (s\<lparr>xTail := tail'\<rparr>, xs))
           else Some (s, [])))"

section \<open>Completion notifications\<close>

definition sbSEND_COMPLETED :: "stream_buffer \<Rightarrow> stream_buffer" where
  "sbSEND_COMPLETED s =
     (case xTaskWaitingToReceive s of
        None \<Rightarrow> s
      | Some t \<Rightarrow> s\<lparr>notified := notified s @ [t], xTaskWaitingToReceive := None\<rparr>)"

definition sbRECEIVE_COMPLETED :: "stream_buffer \<Rightarrow> stream_buffer" where
  "sbRECEIVE_COMPLETED s =
     (case xTaskWaitingToSend s of
        None \<Rightarrow> s
      | Some t \<Rightarrow> s\<lparr>notified := notified s @ [t], xTaskWaitingToSend := None\<rparr>)"

definition xStreamBufferSendCompletedFromISR :: "stream_buffer \<Rightarrow> stream_buffer \<times> bool" where
  "xStreamBufferSendCompletedFromISR s =
     (if xTaskWaitingToReceive s \<noteq> None then (sbSEND_COMPLETED s, True) else (s, False))"

definition xStreamBufferReceiveCompletedFromISR :: "stream_buffer \<Rightarrow> stream_buffer \<times> bool" where
  "xStreamBufferReceiveCompletedFromISR s =
     (if xTaskWaitingToSend s \<noteq> None then (sbRECEIVE_COMPLETED s, True) else (s, False))"

section \<open>Receiving\<close>

definition bytes_to_store_length :: "stream_buffer \<Rightarrow> nat" where
  "bytes_to_store_length s =
     (if is_message_buffer s then sbBYTES_TO_STORE_MESSAGE_LENGTH else 0)"

text \<open>The second half of both receive functions: read, then tell a waiting sender.\<close>

definition receive_available :: "stream_buffer \<Rightarrow> nat \<Rightarrow> nat \<Rightarrow> (stream_buffer \<times> byte list) option" where
  "receive_available s buflen avail =
     (if avail > bytes_to_store_length s then
        (case prvReadMessageFromBuffer s buflen avail of
           None \<Rightarrow> None
         | Some (s, xs) \<Rightarrow> Some (if xs \<noteq> [] then sbRECEIVE_COMPLETED s else s, xs))
      else Some (s, []))"

definition xStreamBufferReceiveFromISR :: "stream_buffer \<Rightarrow> nat \<Rightarrow> (stream_buffer \<times> byte list) option" where
  "xStreamBufferReceiveFromISR s buflen = receive_available s buflen (prvBytesInBuffer s)"

definition xStreamBufferNextMessageLengthBytes :: "stream_buffer \<Rightarrow> nat option" where
  "xStreamBufferNextMessageLengthBytes s =
     (if is_message_buffer s then
        (let avail = prvBytesInBuffer s in
         if avail > sbBYTES_TO_STORE_MESSAGE_LENGTH then
           map_option (\<lambda>(bs, _). le32_value bs)
             (prvReadBytesFromBuffer s sbBYTES_TO_STORE_MESSAGE_LENGTH (xTail s))
         else if \<not> avail = 0 then None else Some 0)
      else Some 0)"

section \<open>Sending\<close>

text \<open>The second half of both send functions: write, then tell a waiting receiver.\<close>

definition send_with_space ::
    "stream_buffer \<Rightarrow> byte list \<Rightarrow> nat \<Rightarrow> nat \<Rightarrow> (stream_buffer \<times> nat) option" where
  "send_with_space s xs space required =
     (case prvWriteMessageToBuffer s xs space required of
        None \<Rightarrow> None
      | Some (s, n) \<Rightarrow>
          Some (if n > 0 \<and> prvBytesInBuffer s \<ge> xTriggerLevelBytes s
                then sbSEND_COMPLETED s else s, n))"

definition xStreamBufferSendFromISR :: "stream_buffer \<Rightarrow> byte list \<Rightarrow> (stream_buffer \<times> nat) option" where
  "xStreamBufferSendFromISR s xs =
     send_with_space s xs (xStreamBufferSpacesAvailable s)
       (if is_message_buffer s then u32_add (length xs) sbBYTES_TO_STORE_MESSAGE_LENGTH
        else length xs)"

text \<open>
  The wait loop of the blocking send. What happens while the sender is blocked in
  \<open>xTaskNotifyWait\<close> is an event: the receives (with their buffer lengths) that the reader
  performs, and whether \<open>xTaskCheckForTimeOut\<close> then reports that the time is up. When the
  given events run out, the sender is still blocked.
\<close>

datatype send_event = SendWait (reads: "nat list") (timed_out: bool)

datatype send_wait = Proceed stream_buffer nat | StillBlocked stream_buffer | AssertFailed

fun reader_runs :: "stream_buffer \<Rightarrow> nat list \<Rightarrow> stream_buffer option" where
  "reader_runs s [] = Some s"
| "reader_runs s (n # ns) =
     (case xStreamBufferReceiveFromISR s n of None \<Rightarrow> None | Some (s', _) \<Rightarrow> reader_runs s' ns)"

fun send_wait_loop :: "task \<Rightarrow> nat \<Rightarrow> stream_buffer \<Rightarrow> send_event list \<Rightarrow> send_wait" where
  "send_wait_loop me required s evs =
     (let space = xStreamBufferSpacesAvailable s in
      if space < required then
        (if xTaskWaitingToSend s \<noteq> None then AssertFailed
         else
           (let s = s\<lparr>xTaskWaitingToSend := Some me\<rparr> in
            case evs of
              [] \<Rightarrow> StillBlocked s
            | ev # evs \<Rightarrow>
                (case reader_runs s (reads ev) of
                   None \<Rightarrow> AssertFailed
                 | Some s \<Rightarrow>
                     (let s = s\<lparr>xTaskWaitingToSend := None\<rparr> in
                      if timed_out ev then Proceed s space
                      else send_wait_loop me required s evs))))
      else Proceed s space)"

datatype send_result = Sent stream_buffer nat | SendBlocked stream_buffer | SendAssert

definition xStreamBufferSend ::
    "task \<Rightarrow> stream_buffer \<Rightarrow> byte list \<Rightarrow> nat \<Rightarrow> send_event list \<Rightarrow> send_result" where
  "xStreamBufferSend me s xs ticks evs =
     (let max_space = u32_sub (xLength s) 1;
          msg = is_message_buffer s;
          required = (if msg then u32_add (length xs) sbBYTES_TO_STORE_MESSAGE_LENGTH else length xs)
      in if msg \<and> \<not> required > length xs then SendAssert
         else
           (let ticks = (if msg \<and> required > max_space then 0 else ticks);
                required = (if \<not> msg \<and> required > max_space then max_space else required)
            in case (if ticks \<noteq> 0 then send_wait_loop me required s evs else Proceed s 0) of
                 AssertFailed \<Rightarrow> SendAssert
               | StillBlocked s \<Rightarrow> SendBlocked s
               | Proceed s space \<Rightarrow>
                   (let space = (if space = 0 then xStreamBufferSpacesAvailable s else space) in
                    case send_with_space s xs space required of
                      None \<Rightarrow> SendAssert | Some (s, n) \<Rightarrow> Sent s n)))"

text \<open>
  The blocking receive waits at most once; while it is blocked the writer performs the given
  sends. It re-reads the content afterwards, whether it was notified or timed out.
\<close>

fun writer_runs :: "stream_buffer \<Rightarrow> byte list list \<Rightarrow> stream_buffer option" where
  "writer_runs s [] = Some s"
| "writer_runs s (xs # xss) =
     (case xStreamBufferSendFromISR s xs of None \<Rightarrow> None | Some (s', _) \<Rightarrow> writer_runs s' xss)"

definition xStreamBufferReceive ::
    "task \<Rightarrow> stream_buffer \<Rightarrow> nat \<Rightarrow> nat \<Rightarrow> byte list list \<Rightarrow> (stream_buffer \<times> byte list) option" where
  "xStreamBufferReceive me s buflen ticks writes =
     (let avail = prvBytesInBuffer s in
      if ticks \<noteq> 0 \<and> avail \<le> bytes_to_store_length s then
        (if xTaskWaitingToReceive s \<noteq> None then None
         else
           (case writer_runs (s\<lparr>xTaskWaitingToReceive := Some me\<rparr>) writes of
              None \<Rightarrow> None
            | Some s \<Rightarrow>
                (let s = s\<lparr>xTaskWaitingToReceive := None\<rparr>
                 in receive_available s buflen (prvBytesInBuffer s))))
      else receive_available s buflen avail)"

section \<open>The ring invariant and the abstract content\<close>

definition sb_inv :: "stream_buffer \<Rightarrow> bool" where
  "sb_inv s \<longleftrightarrow> 2 \<le> xLength s \<and> xLength s \<le> u32_lim div 2 \<and> length (pucBuffer s) = xLength s \<and>
     xHead s < xLength s \<and> xTail s < xLength s"

definition sb_used :: "stream_buffer \<Rightarrow> nat" where
  "sb_used s = (if xTail s \<le> xHead s then xHead s - xTail s else xLength s + xHead s - xTail s)"

definition sb_content :: "stream_buffer \<Rightarrow> byte list" where
  "sb_content s = ring_seg (pucBuffer s) (xTail s) (sb_used s)"

definition sb_cap :: "stream_buffer \<Rightarrow> nat" where
  "sb_cap s = xLength s - 1"

lemma sb_used_le: "sb_inv s \<Longrightarrow> sb_used s \<le> sb_cap s"
  by (auto simp: sb_inv_def sb_used_def sb_cap_def)

lemma length_sb_content [simp]: "length (sb_content s) = sb_used s"
  by (simp add: sb_content_def)

lemma prvBytesInBuffer_used: "sb_inv s \<Longrightarrow> prvBytesInBuffer s = sb_used s"
  by (auto simp: prvBytesInBuffer_def sb_used_def sb_inv_def u32_lim_half u32_lim_def u32_simps Let_def)

lemma xStreamBufferSpacesAvailable_free:
  "sb_inv s \<Longrightarrow> xStreamBufferSpacesAvailable s = sb_cap s - sb_used s"
  by (auto simp: xStreamBufferSpacesAvailable_def sb_used_def sb_cap_def sb_inv_def u32_lim_half
      u32_lim_def u32_simps Let_def)

text \<open>Head position as the code advances it.\<close>

lemma sb_head_adv:
  assumes "sb_inv s"
  shows "xHead s = ring_adv (xLength s) (xTail s) (sb_used s)"
  using assms by (auto simp: ring_adv_def sb_used_def sb_inv_def)

lemma prvWriteBytesToBuffer_ring:
  assumes "sb_inv s" "head < xLength s" "xs \<noteq> []" "length xs < xLength s"
  shows "prvWriteBytesToBuffer s xs head =
    Some (s\<lparr>pucBuffer := ring_put (pucBuffer s) head xs\<rparr>, ring_adv (xLength s) head (length xs))"
proof -
  have "u32_sub (xLength s) head = xLength s - head" "u32_add head (length xs) = head + length xs"
    "u32_add head (min (xLength s - head) (length xs)) = head + min (xLength s - head) (length xs)"
    using assms by (auto simp: u32_simps sb_inv_def u32_lim_half u32_lim_def)
  moreover have "u32_sub (length xs) (min (xLength s - head) (length xs)) =
      length xs - min (xLength s - head) (length xs)"
    "head + length xs \<ge> xLength s \<Longrightarrow> u32_sub (head + length xs) (xLength s) = head + length xs - xLength s"
    using assms by (auto simp: u32_simps sb_inv_def u32_lim_half u32_lim_def)
  moreover have "length (pucBuffer s) = xLength s" using assms by (simp add: sb_inv_def)
  ultimately show ?thesis
    using assms by (auto simp: prvWriteBytesToBuffer_def Let_def ring_put_def ring_adv_def
        mem_simps min_def)
qed

lemma prvReadBytesFromBuffer_ring:
  assumes "sb_inv s" "tail < xLength s" "n \<noteq> 0" "n < xLength s"
  shows "prvReadBytesFromBuffer s n tail =
    Some (ring_seg (pucBuffer s) tail n, ring_adv (xLength s) tail n)"
proof -
  have len: "length (pucBuffer s) = xLength s" using assms by (simp add: sb_inv_def)
  have "u32_sub (xLength s) tail = xLength s - tail" "u32_add tail n = tail + n"
    "u32_add tail (min (xLength s - tail) n) = tail + min (xLength s - tail) n"
    using assms by (auto simp: u32_simps sb_inv_def u32_lim_half u32_lim_def)
  moreover have "u32_sub n (min (xLength s - tail) n) = n - min (xLength s - tail) n"
    "tail + n \<ge> xLength s \<Longrightarrow> u32_sub (tail + n) (xLength s) = tail + n - xLength s"
    using assms by (auto simp: u32_simps sb_inv_def u32_lim_half u32_lim_def)
  moreover have "ring_seg (pucBuffer s) tail n =
      mem_read (pucBuffer s) tail (min (xLength s - tail) n) @
      mem_read (pucBuffer s) 0 (n - min (xLength s - tail) n)"
    using ring_seg_two_reads [of tail "pucBuffer s" n] len assms by simp
  ultimately show ?thesis
    using assms by (auto simp: prvReadBytesFromBuffer_def Let_def ring_adv_def mem_simps min_def)
qed

section \<open>Appending to and consuming the content\<close>

text \<open>The two transitions every operation reduces to; the proofs below are about these.\<close>

definition sb_append :: "stream_buffer \<Rightarrow> byte list \<Rightarrow> stream_buffer" where
  "sb_append s xs = s\<lparr>pucBuffer := ring_put (pucBuffer s) (xHead s) xs,
     xHead := ring_adv (xLength s) (xHead s) (length xs)\<rparr>"

definition sb_consume :: "stream_buffer \<Rightarrow> nat \<Rightarrow> stream_buffer" where
  "sb_consume s n = s\<lparr>xTail := ring_adv (xLength s) (xTail s) n\<rparr>"

lemma ring_adv_add:
  "pos < len \<Longrightarrow> m + n \<le> len \<Longrightarrow> ring_adv len (ring_adv len pos m) n = ring_adv len pos (m + n)"
  by (auto simp: ring_adv_def)

lemma sb_append_fields [simp]:
  "xLength (sb_append s xs) = xLength s" "xTail (sb_append s xs) = xTail s"
  "ucFlags (sb_append s xs) = ucFlags s" "xTriggerLevelBytes (sb_append s xs) = xTriggerLevelBytes s"
  "xTaskWaitingToReceive (sb_append s xs) = xTaskWaitingToReceive s"
  "xTaskWaitingToSend (sb_append s xs) = xTaskWaitingToSend s" "notified (sb_append s xs) = notified s"
  "sb_cap (sb_append s xs) = sb_cap s" "is_message_buffer (sb_append s xs) = is_message_buffer s"
  by (simp_all add: sb_append_def sb_cap_def is_message_buffer_def)

lemma sb_consume_fields [simp]:
  "xLength (sb_consume s n) = xLength s" "xHead (sb_consume s n) = xHead s"
  "ucFlags (sb_consume s n) = ucFlags s" "xTriggerLevelBytes (sb_consume s n) = xTriggerLevelBytes s"
  "xTaskWaitingToReceive (sb_consume s n) = xTaskWaitingToReceive s"
  "xTaskWaitingToSend (sb_consume s n) = xTaskWaitingToSend s" "notified (sb_consume s n) = notified s"
  "sb_cap (sb_consume s n) = sb_cap s" "is_message_buffer (sb_consume s n) = is_message_buffer s"
  "pucBuffer (sb_consume s n) = pucBuffer s"
  by (simp_all add: sb_consume_def sb_cap_def is_message_buffer_def)

lemma sb_append_inv:
  assumes "sb_inv s" "sb_used s + length xs \<le> sb_cap s"
  shows "sb_inv (sb_append s xs)"
proof -
  have "length xs < xLength s" using assms by (auto simp: sb_cap_def sb_inv_def)
  with assms show ?thesis by (simp add: sb_inv_def sb_append_def)
qed

lemma sb_append_used:
  assumes "sb_inv s" "sb_used s + length xs \<le> sb_cap s"
  shows "sb_used (sb_append s xs) = sb_used s + length xs"
  using assms by (auto simp: sb_used_def sb_append_def ring_adv_def sb_inv_def sb_cap_def split: if_splits)

lemma sb_append_content:
  assumes "sb_inv s" "sb_used s + length xs \<le> sb_cap s"
  shows "sb_content (sb_append s xs) = sb_content s @ xs"
proof -
  have len: "length (pucBuffer s) = xLength s" "xTail s < xLength s" using assms by (auto simp: sb_inv_def)
  have "ring_seg (ring_put (pucBuffer s) (ring_adv (xLength s) (xTail s) (sb_used s)) xs) (xTail s)
      (sb_used s + length xs) = ring_seg (pucBuffer s) (xTail s) (sb_used s) @ xs"
    using ring_seg_put [of "xTail s" "pucBuffer s" "sb_used s" xs] len assms(2) by (simp add: sb_cap_def)
  then show ?thesis
    using sb_head_adv [OF assms(1)] sb_append_used [OF assms]
    by (simp add: sb_content_def) (simp add: sb_append_def)
qed

lemma sb_consume_all:
  assumes "sb_inv s" "n \<le> sb_used s"
  shows "sb_inv (sb_consume s n)" "sb_used (sb_consume s n) = sb_used s - n"
    and "sb_content (sb_consume s n) = drop n (sb_content s)"
proof -
  have n: "n < xLength s" and len: "length (pucBuffer s) = xLength s" "xTail s < xLength s"
    using assms sb_used_le [OF assms(1)] by (auto simp: sb_inv_def sb_cap_def)
  show "sb_inv (sb_consume s n)" using assms n by (simp add: sb_inv_def sb_consume_def)
  show u: "sb_used (sb_consume s n) = sb_used s - n"
    using assms n by (auto simp: sb_used_def sb_consume_def ring_adv_def sb_inv_def split: if_splits)
  show "sb_content (sb_consume s n) = drop n (sb_content s)"
    using u drop_ring_seg_adv [of n "sb_used s" "xTail s" "pucBuffer s"] assms(2) n len
    by (simp add: sb_content_def) (simp add: sb_consume_def)
qed

lemma ring_put_append:
  assumes "pos < length buf" "length xs + length ys \<le> length buf"
  shows "ring_put (ring_put buf pos xs) (ring_adv (length buf) pos (length xs)) ys =
         ring_put buf pos (xs @ ys)"
  using assms
  by (intro nth_equalityI)
    (auto simp: nth_ring_put ring_adv_def nth_append intro!: arg_cong [where f = "\<lambda>i. ys ! i"])

lemma sb_append_append:
  assumes "sb_inv s" "length xs + length ys \<le> sb_cap s"
  shows "sb_append (sb_append s xs) ys = sb_append s (xs @ ys)"
  using assms
  by (simp add: sb_append_def sb_inv_def sb_cap_def ring_put_append [of "xHead s" "pucBuffer s" xs ys, symmetric]
      ring_adv_add [of "xHead s" "xLength s" "length xs" "length ys", symmetric])

lemma sb_append_Nil: "sb_inv s \<Longrightarrow> sb_append s [] = s"
  by (simp add: sb_append_def ring_put_def mem_simps ring_adv_def sb_inv_def)

section \<open>What each operation does to the content\<close>

definition frame :: "byte list \<Rightarrow> byte list" where
  "frame m = le32_bytes (length m) @ m"

lemma length_frame [simp]: "length (frame m) = 4 + length m"
  by (simp add: frame_def)

lemma sb_completed_fields [simp]:
  "xLength (sbSEND_COMPLETED s) = xLength s" "xLength (sbRECEIVE_COMPLETED s) = xLength s"
  "sb_inv (sbSEND_COMPLETED s) = sb_inv s" "sb_inv (sbRECEIVE_COMPLETED s) = sb_inv s"
  "sb_content (sbSEND_COMPLETED s) = sb_content s" "sb_content (sbRECEIVE_COMPLETED s) = sb_content s"
  "sb_used (sbSEND_COMPLETED s) = sb_used s" "sb_used (sbRECEIVE_COMPLETED s) = sb_used s"
  "sb_cap (sbSEND_COMPLETED s) = sb_cap s" "sb_cap (sbRECEIVE_COMPLETED s) = sb_cap s"
  "is_message_buffer (sbSEND_COMPLETED s) = is_message_buffer s"
  "is_message_buffer (sbRECEIVE_COMPLETED s) = is_message_buffer s"
  "xTaskWaitingToSend (sbSEND_COMPLETED s) = xTaskWaitingToSend s"
  "xTaskWaitingToReceive (sbRECEIVE_COMPLETED s) = xTaskWaitingToReceive s"
  "xTaskWaitingToSend (sbRECEIVE_COMPLETED s) = None"
  "xTaskWaitingToReceive (sbSEND_COMPLETED s) = None"
  by (auto simp: sbSEND_COMPLETED_def sbRECEIVE_COMPLETED_def sb_inv_def sb_content_def sb_used_def
      sb_cap_def is_message_buffer_def split: option.splits)

lemma sb_waiting_fields [simp]:
  "sb_inv (s\<lparr>xTaskWaitingToSend := t\<rparr>) = sb_inv s" "sb_inv (s\<lparr>xTaskWaitingToReceive := t\<rparr>) = sb_inv s"
  "sb_content (s\<lparr>xTaskWaitingToSend := t\<rparr>) = sb_content s"
  "sb_content (s\<lparr>xTaskWaitingToReceive := t\<rparr>) = sb_content s"
  "sb_used (s\<lparr>xTaskWaitingToSend := t\<rparr>) = sb_used s"
  "sb_used (s\<lparr>xTaskWaitingToReceive := t\<rparr>) = sb_used s"
  "sb_cap (s\<lparr>xTaskWaitingToSend := t\<rparr>) = sb_cap s"
  "sb_cap (s\<lparr>xTaskWaitingToReceive := t\<rparr>) = sb_cap s"
  "is_message_buffer (s\<lparr>xTaskWaitingToSend := t\<rparr>) = is_message_buffer s"
  "is_message_buffer (s\<lparr>xTaskWaitingToReceive := t\<rparr>) = is_message_buffer s"
  by (auto simp: sb_inv_def sb_content_def sb_used_def sb_cap_def is_message_buffer_def)

lemma write_sb_append:
  assumes "sb_inv s" "xs \<noteq> []" "sb_used s + length xs \<le> sb_cap s"
  shows "prvWriteBytesToBuffer s xs (xHead s) =
    Some (s\<lparr>pucBuffer := ring_put (pucBuffer s) (xHead s) xs\<rparr>, xHead (sb_append s xs))"
proof -
  have "length xs < xLength s" "xHead s < xLength s" using assms by (auto simp: sb_inv_def sb_cap_def)
  with assms show ?thesis by (simp add: prvWriteBytesToBuffer_ring) (simp add: sb_append_def)
qed

lemma prvWriteMessageToBuffer_stream:
  assumes "sb_inv s" "\<not> is_message_buffer s" "space \<le> sb_cap s - sb_used s"
  shows "prvWriteMessageToBuffer s xs space required =
    Some (sb_append s (take (min (length xs) space) xs), min (length xs) space)"
proof (cases "min (length xs) space = 0")
  case True
  then show ?thesis using assms by (auto simp: prvWriteMessageToBuffer_def sb_append_Nil)
next
  case False
  let ?n = "min (length xs) space"
  have "sb_used s + length (take ?n xs) \<le> sb_cap s" using assms sb_used_le [OF assms(1)] by simp
  moreover have "take ?n xs \<noteq> []" using False by auto
  ultimately show ?thesis
    using False assms write_sb_append [of s "take ?n xs"]
    by (simp add: prvWriteMessageToBuffer_def) (simp add: sb_append_def)
qed

text \<open>A message that fits is written with its length in front; one that does not leaves no trace.\<close>

lemma prvWriteMessageToBuffer_message:
  assumes "sb_inv s" "is_message_buffer s" "xs \<noteq> []" "length xs + 4 \<le> space"
    and "space \<le> sb_cap s - sb_used s"
  shows "prvWriteMessageToBuffer s xs space (length xs + 4) = Some (sb_append s (frame xs), length xs)"
proof -
  let ?h = "le32_bytes (length xs)" and ?b = "ring_put (pucBuffer s) (xHead s) (le32_bytes (length xs))"
  have h: "sb_used s + length ?h \<le> sb_cap s" "?h \<noteq> []"
    using assms sb_used_le [OF assms(1)] length_le32_bytes [of "length xs"] by (simp, force)
  let ?s = "sb_append s ?h"
  have inv: "sb_inv ?s" using sb_append_inv [OF assms(1) h(1)] .
  have "sb_used ?s + length xs \<le> sb_cap ?s"
    using sb_append_used [OF assms(1) h(1)] assms sb_used_le [OF assms(1)] by simp
  then have xs: "length xs < xLength s" using inv by (auto simp: sb_cap_def sb_inv_def)
  have "sb_inv (s\<lparr>pucBuffer := ?b\<rparr>)" "xHead ?s < xLength s"
    using inv assms(1) by (auto simp: sb_inv_def sb_append_def)
  then have "prvWriteBytesToBuffer (s\<lparr>pucBuffer := ?b\<rparr>) xs (xHead ?s) =
      Some (s\<lparr>pucBuffer := ring_put ?b (xHead ?s) xs\<rparr>, ring_adv (xLength s) (xHead ?s) (length xs))"
    using prvWriteBytesToBuffer_ring [of "s\<lparr>pucBuffer := ?b\<rparr>" "xHead ?s" xs] xs assms(3) by simp
  moreover have "sb_append s (frame xs) = sb_append ?s xs"
    unfolding frame_def using assms h
    by (intro sb_append_append [symmetric]) (auto simp: sb_cap_def)
  ultimately show ?thesis
    using assms write_sb_append [OF assms(1) h(2,1)]
    by (simp add: prvWriteMessageToBuffer_def) (simp add: sb_append_def)
qed

lemma prvWriteMessageToBuffer_full:
  assumes "is_message_buffer s" "space < required"
  shows "prvWriteMessageToBuffer s xs space required = Some (s, 0)"
  using assms by (simp add: prvWriteMessageToBuffer_def)

definition sb_sent :: "stream_buffer \<Rightarrow> stream_buffer" where
  "sb_sent s = (if prvBytesInBuffer s \<ge> xTriggerLevelBytes s then sbSEND_COMPLETED s else s)"

lemma sb_sent_fields [simp]:
  "sb_inv (sb_sent s) = sb_inv s" "sb_content (sb_sent s) = sb_content s"
  "sb_used (sb_sent s) = sb_used s" "sb_cap (sb_sent s) = sb_cap s"
  "is_message_buffer (sb_sent s) = is_message_buffer s"
  "xTaskWaitingToSend (sb_sent s) = xTaskWaitingToSend s"
  by (simp_all add: sb_sent_def)

lemma send_with_space_stream:
  fixes xs :: "byte list"
  assumes "sb_inv s" "\<not> is_message_buffer s" "space \<le> sb_cap s - sb_used s"
  defines "k \<equiv> min (length xs) space"
  shows "send_with_space s xs space required =
    Some (if k > 0 then sb_sent (sb_append s (take k xs)) else s, k)"
  using prvWriteMessageToBuffer_stream [OF assms(1-3), of xs required] assms(1)
  by (auto simp: send_with_space_def sb_sent_def k_def sb_append_Nil)

lemma send_with_space_message:
  assumes "sb_inv s" "is_message_buffer s" "xs \<noteq> []" "space \<le> sb_cap s - sb_used s"
  shows "send_with_space s xs space (length xs + 4) =
    Some (if length xs + 4 \<le> space then (sb_sent (sb_append s (frame xs)), length xs) else (s, 0))"
  using prvWriteMessageToBuffer_message [OF assms(1-3) _ assms(4)]
    prvWriteMessageToBuffer_full [OF assms(2), of space "length xs + 4" xs] assms(3)
  by (auto simp: send_with_space_def sb_sent_def not_le)

lemma receive_available_stream:
  fixes n :: nat
  assumes "sb_inv s" "\<not> is_message_buffer s"
  defines "k \<equiv> min n (sb_used s)"
  shows "receive_available s n (sb_used s) =
    Some (if k > 0 then sbRECEIVE_COMPLETED (sb_consume s k) else s, take k (sb_content s))"
proof (cases "k = 0")
  case True
  then show ?thesis
    using assms(2) by (auto simp: receive_available_def bytes_to_store_length_def
        prvReadMessageFromBuffer_def k_def Let_def)
next
  case False
  have k: "k \<le> sb_used s" "k < xLength s" "xTail s < xLength s"
    using sb_used_le [OF assms(1)] assms(1) False by (auto simp: k_def sb_cap_def sb_inv_def)
  have r: "prvReadBytesFromBuffer s k (xTail s) = Some (take k (sb_content s), xTail (sb_consume s k))"
    using prvReadBytesFromBuffer_ring [OF assms(1) k(3) False k(2)] k(1)
    by (simp add: sb_content_def take_ring_seg sb_consume_def)
  have "0 < sb_used s" "0 < n" "take k (sb_content s) \<noteq> []"
    using False k(1) length_sb_content [of s] by (auto simp: k_def simp del: length_sb_content)
  then show ?thesis
    using assms(2) False r
    by (simp add: receive_available_def bytes_to_store_length_def prvReadMessageFromBuffer_def
        k_def [symmetric] Let_def) (simp add: sb_consume_def)
qed

lemma read_length_prefix:
  assumes "sb_inv s" "sb_content s = frame m @ rest"
  shows "prvReadBytesFromBuffer s 4 (xTail s) =
    Some (le32_bytes (length m), xTail (sb_consume s 4))"
proof -
  have u: "4 + length m \<le> sb_used s" using arg_cong [OF assms(2), of length] by simp
  then have k: "4 < xLength s" "xTail s < xLength s"
    using sb_used_le [OF assms(1)] assms(1) by (auto simp: sb_cap_def sb_inv_def)
  have "take 4 (sb_content s) = le32_bytes (length m)" using assms(2) by (simp add: frame_def)
  then have "ring_seg (pucBuffer s) (xTail s) 4 = le32_bytes (length m)"
    using u by (simp add: sb_content_def take_ring_seg)
  then show ?thesis
    using prvReadBytesFromBuffer_ring [OF assms(1) k(2) _ k(1)] by (simp add: sb_consume_def)
qed

text \<open>A reader takes the next message whole, or leaves it when it does not fit its buffer.\<close>

lemma receive_available_message:
  assumes "sb_inv s" "is_message_buffer s" "sb_content s = frame m @ rest" "m \<noteq> []"
  shows "receive_available s n (sb_used s) =
    Some (if length m \<le> n then (sbRECEIVE_COMPLETED (sb_consume s (4 + length m)), m) else (s, []))"
proof -
  have u: "sb_used s = 4 + length m + length rest" using arg_cong [OF assms(3), of length] by simp
  then have k: "length m < xLength s" "xTail s < xLength s" "4 + length m < xLength s"
      "length m < u32_lim" "4 \<le> xLength s" "sb_used s < u32_lim"
    using sb_used_le [OF assms(1)] assms(1) u32_lim_half by (auto simp: sb_cap_def sb_inv_def u32_lim_def)
  have t4: "xTail (sb_consume s 4) < xLength s" using k by (simp add: sb_consume_def)
  have "take (length m) (drop 4 (sb_content s)) = m" using assms(3) by (simp add: frame_def)
  then have "take (length m) (sb_content (sb_consume s 4)) = m"
    using sb_consume_all(3) [OF assms(1), of 4] u by simp
  then have "ring_seg (pucBuffer s) (xTail (sb_consume s 4)) (length m) = m"
    using sb_consume_all(2) [OF assms(1), of 4] u by (simp add: sb_content_def take_ring_seg)
  then have r: "prvReadBytesFromBuffer s (length m) (xTail (sb_consume s 4)) =
      Some (m, ring_adv (xLength s) (xTail (sb_consume s 4)) (length m))"
    using prvReadBytesFromBuffer_ring [OF assms(1) t4 _ k(1)] assms(4) by simp
  have a: "ring_adv (xLength s) (xTail (sb_consume s 4)) (length m) = xTail (sb_consume s (4 + length m))"
    using k ring_adv_add [of "xTail s" "xLength s" 4 "length m"] by (simp add: sb_consume_def)
  have "u32_sub (sb_used s) 4 = length m + length rest" using u k by (simp add: u32_simps)
  then have "prvReadMessageFromBuffer s n (sb_used s) =
      Some (if length m \<le> n then (sb_consume s (4 + length m), m) else (s, []))"
    using assms(2,4) read_length_prefix [OF assms(1,3)] r a le32_round_trip [OF k(4)]
    by (simp add: prvReadMessageFromBuffer_def sbBYTES_TO_STORE_MESSAGE_LENGTH_def Let_def)
      (simp add: sb_consume_def)
  then show ?thesis
    using assms(2,4) u
    by (auto simp: receive_available_def bytes_to_store_length_def sbBYTES_TO_STORE_MESSAGE_LENGTH_def)
qed

section \<open>A stream buffer is a byte stream, a message buffer a packet queue\<close>

definition sb_stream :: "stream_buffer \<Rightarrow> bool" where
  "sb_stream s \<longleftrightarrow> sb_inv s \<and> \<not> is_message_buffer s"

definition sb_put :: "stream_buffer \<Rightarrow> byte list \<Rightarrow> stream_buffer \<times> nat" where
  "sb_put s xs = the (xStreamBufferSendFromISR s xs)"

definition sb_get :: "stream_buffer \<Rightarrow> nat \<Rightarrow> stream_buffer \<times> byte list" where
  "sb_get s n = the (xStreamBufferReceiveFromISR s n)"

lemma xStreamBufferSendFromISR_stream:
  assumes "sb_stream s"
  shows "xStreamBufferSendFromISR s xs =
    (let k = min (length xs) (sb_cap s - sb_used s)
     in Some (if k > 0 then sb_sent (sb_append s (take k xs)) else s, k))"
  using assms send_with_space_stream [of s "sb_cap s - sb_used s" xs]
  by (simp add: xStreamBufferSendFromISR_def sb_stream_def xStreamBufferSpacesAvailable_free Let_def)

lemma xStreamBufferReceiveFromISR_stream:
  assumes "sb_stream s"
  shows "xStreamBufferReceiveFromISR s n =
    (let k = min n (sb_used s)
     in Some (if k > 0 then sbRECEIVE_COMPLETED (sb_consume s k) else s, take k (sb_content s)))"
  using assms receive_available_stream [of s n]
  by (simp add: xStreamBufferReceiveFromISR_def sb_stream_def prvBytesInBuffer_used Let_def)

interpretation sbuf: greedy_stream sb_stream sb_content sb_cap "\<lambda>_. True" sb_put sb_get
proof (unfold_locales, goal_cases)
  case (1 s)
  then show ?case using sb_used_le by (simp add: sb_stream_def)
next
  case (2 s xs)
  let ?t = "take (min (length xs) (sb_cap s - sb_used s)) xs"
  have "sb_used s + length ?t \<le> sb_cap s" using 2 sb_used_le [of s] by (auto simp: sb_stream_def)
  then have "sb_inv (sb_append s ?t)" using 2 sb_append_inv unfolding sb_stream_def by blast
  then show ?case using 2
    by (auto simp: sb_put_def xStreamBufferSendFromISR_stream Let_def) (auto simp: sb_stream_def)
next
  case (3 s xs)
  then show ?case by (auto simp: sb_put_def xStreamBufferSendFromISR_stream Let_def)
next
  case (4 s xs)
  then show ?case by (auto simp: sb_put_def xStreamBufferSendFromISR_stream Let_def)
next
  case (5 s xs)
  let ?t = "take (min (length xs) (sb_cap s - sb_used s)) xs"
  have "sb_used s + length ?t \<le> sb_cap s" using 5 sb_used_le [of s] by (auto simp: sb_stream_def)
  then have "sb_content (sb_append s ?t) = sb_content s @ ?t"
    using 5 sb_append_content unfolding sb_stream_def by blast
  then show ?case using 5
    by (simp add: sb_put_def xStreamBufferSendFromISR_stream Let_def)
next
  case (6 s n)
  then show ?case using sb_consume_all(1) [of s "min n (sb_used s)"]
    by (auto simp: sb_get_def xStreamBufferReceiveFromISR_stream Let_def sb_stream_def)
next
  case (7 s n)
  then show ?case by (auto simp: sb_get_def xStreamBufferReceiveFromISR_stream Let_def)
next
  case (8 s n)
  then show ?case using sb_consume_all(3) [of s "min n (sb_used s)"]
    by (auto simp: sb_get_def xStreamBufferReceiveFromISR_stream Let_def sb_stream_def)
next
  case (9 s n)
  then show ?case by (auto simp: sb_get_def xStreamBufferReceiveFromISR_stream Let_def)
next
  case (10 s n)
  then show ?case by (auto simp: sb_get_def xStreamBufferReceiveFromISR_stream Let_def)
qed

definition sb_holds :: "stream_buffer \<Rightarrow> byte list list \<Rightarrow> bool" where
  "sb_holds s ms \<longleftrightarrow> sb_inv s \<and> is_message_buffer s \<and> sb_content s = concat (map frame ms) \<and>
     (\<forall>m\<in>set ms. m \<noteq> [])"

definition msg_valid :: "stream_buffer \<Rightarrow> byte list \<Rightarrow> bool" where
  "msg_valid s m \<longleftrightarrow> m \<noteq> [] \<and> length m + 4 < u32_lim"


lemma sb_holds_waiting [simp]:
  "sb_holds (s\<lparr>xTaskWaitingToSend := t\<rparr>) ms = sb_holds s ms"
  "sb_holds (s\<lparr>xTaskWaitingToReceive := t\<rparr>) ms = sb_holds s ms"
  by (simp_all add: sb_holds_def)

lemma sb_holds_append:
  assumes "sb_holds s ms" "m \<noteq> []" "length m + 4 \<le> sb_cap s - sb_used s"
  shows "sb_holds (sb_sent (sb_append s (frame m))) (ms @ [m])"
proof -
  have "sb_inv s" "sb_used s + length (frame m) \<le> sb_cap s"
    using assms by (auto simp: sb_holds_def)
  then show ?thesis
    using assms sb_append_inv [of s "frame m"] sb_append_content [of s "frame m"]
    by (auto simp: sb_holds_def)
qed

lemma sb_holds_consume:
  assumes "sb_holds s (m # ms)"
  shows "sb_holds (sbRECEIVE_COMPLETED (sb_consume s (4 + length m))) ms"
proof -
  have "sb_inv s" and c: "sb_content s = frame m @ concat (map frame ms)"
    using assms by (auto simp: sb_holds_def)
  moreover have "4 + length m \<le> sb_used s" using arg_cong [OF c, of length] by simp
  ultimately show ?thesis
    using assms sb_consume_all(1,3) [of s "4 + length m"] by (auto simp: sb_holds_def)
qed


lemma xStreamBufferReceiveFromISR_message:
  assumes "sb_holds s (m # ms)"
  shows "xStreamBufferReceiveFromISR s n =
    Some (if length m \<le> n then (sbRECEIVE_COMPLETED (sb_consume s (4 + length m)), m) else (s, []))"
  using assms receive_available_message [of s m "concat (map frame ms)" n]
  by (simp add: xStreamBufferReceiveFromISR_def sb_holds_def prvBytesInBuffer_used)

lemma xStreamBufferReceiveFromISR_no_message:
  assumes "sb_holds s []"
  shows "xStreamBufferReceiveFromISR s n = Some (s, [])"
  using assms length_sb_content [of s]
  by (simp add: xStreamBufferReceiveFromISR_def sb_holds_def prvBytesInBuffer_used receive_available_def
      del: length_sb_content)


section \<open>The blocking send\<close>

text \<open>
  What a sender that waits relies on: whatever the reader takes meanwhile, a predicate \<open>P\<close> of
  the buffer survives and the free space only grows, so a space measured before the wait is
  still there after it.
\<close>

locale waiting_sender =
  fixes P :: "stream_buffer \<Rightarrow> bool"
  assumes P_inv: "P s \<Longrightarrow> sb_inv s"
    and P_receive: "P s \<Longrightarrow> \<exists>s' ys. xStreamBufferReceiveFromISR s n = Some (s', ys) \<and> P s' \<and>
          sb_cap s' = sb_cap s \<and> sb_used s' \<le> sb_used s"
    and P_waiting: "P s \<Longrightarrow> P (s\<lparr>xTaskWaitingToSend := t\<rparr>)"
begin

lemma reader_runs_P:
  "P s \<Longrightarrow> \<exists>s'. reader_runs s ns = Some s' \<and> P s' \<and> sb_cap s' = sb_cap s \<and> sb_used s' \<le> sb_used s"
proof (induction ns arbitrary: s)
  case (Cons n ns)
  obtain s1 ys where 1: "xStreamBufferReceiveFromISR s n = Some (s1, ys)" "P s1"
      "sb_cap s1 = sb_cap s" "sb_used s1 \<le> sb_used s"
    using P_receive [OF Cons.prems] by blast
  with Cons.IH [of s1] show ?case by fastforce
qed simp

lemma send_wait_loop_P:
  assumes "P s" "xTaskWaitingToSend s = None"
  shows "case send_wait_loop me required s evs of
      AssertFailed \<Rightarrow> False
    | StillBlocked s' \<Rightarrow> P s' \<and> xTaskWaitingToSend s' = Some me
    | Proceed s' space \<Rightarrow> P s' \<and> xTaskWaitingToSend s' = None \<and> sb_cap s' = sb_cap s \<and>
        space \<le> sb_cap s' - sb_used s' \<and> ((\<forall>ev\<in>set evs. \<not> timed_out ev) \<longrightarrow> required \<le> space)"
  using assms
proof (induction evs arbitrary: s)
  case Nil
  then show ?case
    using xStreamBufferSpacesAvailable_free [OF P_inv] P_waiting by (simp add: Let_def)
next
  case (Cons ev evs)
  let ?space = "xStreamBufferSpacesAvailable s"
  have sp: "?space = sb_cap s - sb_used s" using Cons.prems xStreamBufferSpacesAvailable_free P_inv by simp
  show ?case
  proof (cases "?space < required")
    case True
    obtain s1 where 1: "reader_runs (s\<lparr>xTaskWaitingToSend := Some me\<rparr>) (reads ev) = Some s1" "P s1"
        "sb_cap s1 = sb_cap s" "sb_used s1 \<le> sb_used s"
      using reader_runs_P [OF P_waiting [OF Cons.prems(1)], of "Some me" "reads ev"] by auto
    let ?s1 = "s1\<lparr>xTaskWaitingToSend := None\<rparr>"
    have P1: "P ?s1" using 1 P_waiting by simp
    have "send_wait_loop me required s (ev # evs) =
        (if timed_out ev then Proceed ?s1 ?space else send_wait_loop me required ?s1 evs)"
      using True Cons.prems 1 by (simp add: Let_def)
    then show ?thesis
      using Cons.IH [OF P1] P1 1 sp by (auto split: send_wait.splits)
  next
    case False
    then show ?thesis using Cons.prems sp by (simp add: Let_def)
  qed
qed

end

interpretation stream_wait: waiting_sender
  "\<lambda>s. sb_stream s \<and> sb_cap s = c \<and> (\<exists>k. sb_content s = drop k xs)" for c xs
proof (unfold_locales, goal_cases)
  case (1 s)
  then show ?case by (simp add: sb_stream_def)
next
  case (2 s n)
  then have s: "sb_stream s" by simp
  let ?r = "sb_get s n"
  have r: "xStreamBufferReceiveFromISR s n = Some ?r"
    by (simp add: sb_get_def xStreamBufferReceiveFromISR_stream [OF s] Let_def)
  obtain k where k: "sb_content s = drop k xs" using 2 by blast
  have c: "sb_content s = snd ?r @ sb_content (fst ?r)" by (rule sbuf.get_content [OF s])
  then have "sb_content (fst ?r) = drop (length (snd ?r) + k) xs"
    using k by (metis append_eq_conv_conj drop_drop)
  moreover have "sb_used (fst ?r) \<le> sb_used s" using arg_cong [OF c, of length] by simp
  ultimately show ?case
    using r sbuf.get_inv [OF s, of n] sbuf.get_cap [OF s, of n] 2 by (metis prod.collapse)
next
  case (3 s t)
  then show ?case by (simp add: sb_stream_def)
qed

interpretation message_wait: waiting_sender
  "\<lambda>s. sb_cap s = c \<and> (\<exists>k. sb_holds s (drop k ms))" for c ms
proof (unfold_locales, goal_cases)
  case (1 s)
  then show ?case by (auto simp: sb_holds_def)
next
  case (2 s n)
  then obtain k where k: "sb_holds s (drop k ms)" by blast
  show ?case
  proof (cases "drop k ms")
    case Nil
    then show ?thesis using 2 k xStreamBufferReceiveFromISR_no_message [of s n] by auto
  next
    case (Cons m rest)
    have "sb_holds s (m # rest)" using k Cons by simp
    moreover have "rest = drop (Suc k) ms" using Cons by (metis drop_Suc tl_drop list.sel(3))
    moreover have "4 + length m \<le> sb_used s" "sb_inv s"
      using k Cons length_sb_content [of s] by (auto simp: sb_holds_def simp del: length_sb_content)
    ultimately show ?thesis
      using 2 k sb_holds_consume [of s m rest] xStreamBufferReceiveFromISR_message [of s m rest n]
        sb_consume_all(2) [of s "4 + length m"] by auto
  qed
next
  case (3 s t)
  then show ?case by simp
qed

section \<open>Properties\<close>

text \<open>Every operation of the stream send, split by how the wait ends.\<close>

lemma xStreamBufferSend_stream_cases:
  assumes "sb_stream s"
  shows "xStreamBufferSend me s xs ticks evs =
    (case (if ticks \<noteq> 0 then send_wait_loop me (min (length xs) (sb_cap s)) s evs else Proceed s 0) of
       AssertFailed \<Rightarrow> SendAssert
     | StillBlocked s1 \<Rightarrow> SendBlocked s1
     | Proceed s1 space \<Rightarrow>
         (let space = (if space = 0 then xStreamBufferSpacesAvailable s1 else space) in
          case send_with_space s1 xs space (min (length xs) (sb_cap s)) of
            None \<Rightarrow> SendAssert | Some (s2, n) \<Rightarrow> Sent s2 n))"
proof -
  have c: "u32_sub (xLength s) 1 = sb_cap s" and m: "is_message_buffer s = False"
    using assms by (simp_all add: sb_stream_def sb_inv_def sb_cap_def u32_simps u32_lim_def)
  have l: "(if sb_cap s < length xs then sb_cap s else length xs) = min (length xs) (sb_cap s)"
    by (simp add: min_def)
  show ?thesis
    unfolding xStreamBufferSend_def Let_def m c simp_thms if_False l by (rule TrueI)
qed

lemma send_after_wait_stream:
  assumes "sb_stream s" "space \<le> sb_cap s - sb_used s"
  defines "sp \<equiv> (if space = 0 then xStreamBufferSpacesAvailable s else space)"
  shows "\<exists>s'. send_with_space s xs sp req = Some (s', min (length xs) sp) \<and> sb_stream s' \<and>
    sb_cap s' = sb_cap s \<and> sb_content s' = sb_content s @ take (min (length xs) sp) xs"
proof -
  have inv: "sb_inv s" "\<not> is_message_buffer s" using assms(1) by (simp_all add: sb_stream_def)
  have sp: "sp \<le> sb_cap s - sb_used s"
    using assms(2) xStreamBufferSpacesAvailable_free [OF inv(1)] by (simp add: sp_def)
  let ?t = "take (min (length xs) sp) xs"
  have t: "sb_used s + length ?t \<le> sb_cap s" using sp sb_used_le [OF inv(1)] by auto
  show ?thesis
    using send_with_space_stream [OF inv sp, of xs req] sb_append_inv [OF inv(1) t]
      sb_append_content [OF inv(1) t] inv by (auto simp: sb_stream_def)
qed

text \<open>Property C4: a stream buffer is a first-in first-out byte stream. For any interleaving of
  sends and receives (each taking or giving as much as there is room or data for), the bytes
  held at the start followed by the bytes accepted are the bytes delivered followed by the bytes
  still held: nothing is lost, duplicated or reordered, and the ring invariant survives.\<close>

theorem stream_buffer_fifo:
  assumes "sb_stream s" "fifo_run sb_put sb_get s ops = (s', acc, del)"
  shows "sb_stream s' \<and> sb_cap s' = sb_cap s \<and> sb_content s @ acc = del @ sb_content s'"
  using sbuf.run_fifo [OF assms(1) _ assms(2)] by simp

definition demo_stream :: stream_buffer where
  "demo_stream = prvInitialiseNewStreamBuffer (replicate 5 0) 5 1 0 []"

definition demo_message :: stream_buffer where
  "demo_message = prvInitialiseNewStreamBuffer (replicate 14 0) 14 1 1 []"

lemma demo_stream_ok: "sb_stream demo_stream"
  by (simp add: demo_stream_def prvInitialiseNewStreamBuffer_def sb_stream_def sb_inv_def u32_lim_def
      is_message_buffer_def mem_write_def)

lemma demo_message_ok: "sb_holds demo_message []"
  by (simp add: demo_message_def prvInitialiseNewStreamBuffer_def sb_holds_def sb_inv_def u32_lim_def
      is_message_buffer_def mem_write_def sb_content_def sb_used_def sbFLAGS_IS_MESSAGE_BUFFER_def)

theorem stream_buffer_fifo_witness:
  "\<exists>s' acc del. fifo_run sb_put sb_get demo_stream [Put [1, 2, 3], Get 2, Put [4, 5, 6], Get 9] = (s', acc, del)
     \<and> acc = del @ sb_content s'"
proof -
  obtain s' acc del where r: "fifo_run sb_put sb_get demo_stream
      [Put [1, 2, 3], Get 2, Put [4, 5, 6], Get 9] = (s', acc, del)"
    by (metis prod.collapse)
  have "sb_content demo_stream = []"
    by (simp add: demo_stream_def prvInitialiseNewStreamBuffer_def sb_content_def sb_used_def)
  with r show ?thesis using stream_buffer_fifo [OF demo_stream_ok r] by auto
qed



text \<open>Property C29: the blocking send of a stream buffer is safe and keeps the order whatever the
  reader takes while it waits and whenever the time runs out: no assert fails, the ring is never
  overrun by the space measured before the wait, what is sent is a prefix of the data and is
  appended to what the reader left; without a timeout the send delivers all the buffer can hold.\<close>

theorem xStreamBufferSend_stream:
  assumes "sb_stream s" "xTaskWaitingToSend s = None"
  shows "case xStreamBufferSend me s xs ticks evs of
      SendAssert \<Rightarrow> False
    | SendBlocked s' \<Rightarrow> sb_stream s' \<and> xTaskWaitingToSend s' = Some me \<and> ticks \<noteq> 0 \<and>
        (\<exists>k. sb_content s' = drop k (sb_content s))
    | Sent s' n \<Rightarrow> sb_stream s' \<and> sb_cap s' = sb_cap s \<and> n \<le> length xs \<and>
        (\<exists>k. sb_content s' = drop k (sb_content s) @ take n xs) \<and>
        (ticks \<noteq> 0 \<and> (\<forall>ev\<in>set evs. \<not> timed_out ev) \<longrightarrow> n \<ge> min (length xs) (sb_cap s))"
proof -
  let ?w = "if ticks \<noteq> 0 then send_wait_loop me (min (length xs) (sb_cap s)) s evs else Proceed s 0"
  have d: "\<exists>k. sb_content s = drop k (sb_content s)" by (rule exI [of _ 0]) simp
  have w: "case ?w of
      AssertFailed \<Rightarrow> False
    | StillBlocked s' \<Rightarrow> (sb_stream s' \<and> sb_cap s' = sb_cap s \<and> (\<exists>k. sb_content s' = drop k (sb_content s))) \<and>
        xTaskWaitingToSend s' = Some me \<and> ticks \<noteq> 0
    | Proceed s' space \<Rightarrow> (sb_stream s' \<and> sb_cap s' = sb_cap s \<and> (\<exists>k. sb_content s' = drop k (sb_content s))) \<and>
        space \<le> sb_cap s' - sb_used s' \<and>
        (ticks \<noteq> 0 \<and> (\<forall>ev\<in>set evs. \<not> timed_out ev) \<longrightarrow> min (length xs) (sb_cap s) \<le> space)"
    using stream_wait.send_wait_loop_P [where s = s and c = "sb_cap s" and xs = "sb_content s" and
        me = me and required = "min (length xs) (sb_cap s)" and evs = evs] assms d
    by (cases "ticks = 0") (auto split: send_wait.splits simp del: send_wait_loop.simps)
  show ?thesis
  proof (cases ?w)
    case (Proceed s1 space)
    then have p: "sb_stream s1" "sb_cap s1 = sb_cap s" "\<exists>k. sb_content s1 = drop k (sb_content s)"
        "space \<le> sb_cap s1 - sb_used s1"
        "ticks \<noteq> 0 \<and> (\<forall>ev\<in>set evs. \<not> timed_out ev) \<longrightarrow> min (length xs) (sb_cap s) \<le> space"
      using w by (auto simp del: send_wait_loop.simps)
    let ?sp = "if space = 0 then xStreamBufferSpacesAvailable s1 else space"
    obtain s2 where "send_with_space s1 xs ?sp (min (length xs) (sb_cap s)) = Some (s2, min (length xs) ?sp)"
        "sb_stream s2" "sb_cap s2 = sb_cap s1" "sb_content s2 = sb_content s1 @ take (min (length xs) ?sp) xs"
      using send_after_wait_stream [OF p(1,4)] by blast
    then show ?thesis
      using p Proceed unfolding xStreamBufferSend_stream_cases [OF assms(1)]
      by (auto simp: Let_def simp del: send_wait_loop.simps)
  next
    case (StillBlocked s1)
    then show ?thesis
      using w unfolding xStreamBufferSend_stream_cases [OF assms(1)]
      by (auto simp del: send_wait_loop.simps)
  next
    case AssertFailed
    then show ?thesis using w by (simp del: send_wait_loop.simps)
  qed
qed

theorem xStreamBufferSend_stream_witness:
  "case xStreamBufferSend 7 demo_stream [1, 2, 3, 4, 5, 6] 10 [SendWait [2] True] of
      SendAssert \<Rightarrow> False
    | SendBlocked s' \<Rightarrow> sb_stream s'
    | Sent s' n \<Rightarrow> sb_stream s' \<and> n \<le> 6"
proof -
  have "xTaskWaitingToSend demo_stream = None"
    by (simp add: demo_stream_def prvInitialiseNewStreamBuffer_def)
  then show ?thesis
    using xStreamBufferSend_stream [OF demo_stream_ok, where me = 7 and xs = "[1, 2, 3, 4, 5, 6]"
        and ticks = 10 and evs = "[SendWait [2] True]"]
    by (auto split: send_result.splits simp del: send_wait_loop.simps)
qed

text \<open>Property C31: once the reader has emptied the buffer, a waiting sender is released: with one
  receive that drains the content before the time runs out, the blocking send returns having
  written as much of its data as the buffer can hold at all.\<close>

theorem xStreamBufferSend_released:
  assumes "sb_stream s" "xTaskWaitingToSend s = None" "ticks \<noteq> 0" "sb_used s \<le> n"
  shows "\<exists>s' k. xStreamBufferSend me s xs ticks (SendWait [n] False # evs) = Sent s' k \<and>
           k \<ge> min (length xs) (sb_cap s)"
proof -
  let ?req = "min (length xs) (sb_cap s)" and ?s = "s\<lparr>xTaskWaitingToSend := Some me\<rparr>"
  have st: "sb_stream ?s" using assms(1) by (simp add: sb_stream_def)
  obtain s1 ys where g: "sb_get ?s n = (s1, ys)" by fastforce
  have 1: "sb_stream s1" "sb_cap s1 = sb_cap s"
    using sbuf.get_inv [OF st, of n] sbuf.get_cap [OF st, of n] g by simp_all
  have "sb_content s1 = []" using sbuf.get_all [OF st, of n] g assms(4) by simp
  then have u1: "sb_used s1 = 0" using length_sb_content [of s1] by simp
  have r: "reader_runs ?s [n] = Some s1"
    using g by (simp add: sb_get_def xStreamBufferReceiveFromISR_stream [OF st] Let_def)
  let ?s1 = "s1\<lparr>xTaskWaitingToSend := None\<rparr>"
  have sp1: "xStreamBufferSpacesAvailable ?s1 = sb_cap s"
    using 1 u1 xStreamBufferSpacesAvailable_free [of ?s1] by (simp add: sb_stream_def)
  have "send_wait_loop me ?req ?s1 evs = Proceed ?s1 (sb_cap s)"
    using sp1 by (subst send_wait_loop.simps) (simp add: Let_def del: send_wait_loop.simps)
  then have w: "\<exists>s2 sp. send_wait_loop me ?req s (SendWait [n] False # evs) = Proceed s2 sp \<and>
      sb_stream s2 \<and> sb_cap s2 = sb_cap s \<and> ?req \<le> sp \<and> sp \<le> sb_cap s2 - sb_used s2"
    using assms r 1 u1 xStreamBufferSpacesAvailable_free [of s]
    by (subst send_wait_loop.simps) (auto simp: Let_def sb_stream_def simp del: send_wait_loop.simps reader_runs.simps)
  then obtain s2 sp where 2: "send_wait_loop me ?req s (SendWait [n] False # evs) = Proceed s2 sp"
      "sb_stream s2" "sb_cap s2 = sb_cap s" "?req \<le> sp" "sp \<le> sb_cap s2 - sb_used s2" by blast
  show ?thesis
    using send_after_wait_stream [OF 2(2,5), of xs ?req] 2 assms(3)
    unfolding xStreamBufferSend_stream_cases [OF assms(1)]
    by (auto simp: Let_def simp del: send_wait_loop.simps)
qed

theorem xStreamBufferSend_released_witness:
  "\<exists>s' k. xStreamBufferSend 7 demo_stream [1, 2, 3, 4, 5, 6] 10 [SendWait [4] False] = Sent s' k \<and> 3 < k"
proof -
  have "xTaskWaitingToSend demo_stream = None" "sb_used demo_stream \<le> 4" "sb_cap demo_stream = 4"
    by (simp_all add: demo_stream_def prvInitialiseNewStreamBuffer_def sb_used_def sb_cap_def)
  then obtain s' k where "xStreamBufferSend 7 demo_stream [1, 2, 3, 4, 5, 6] 10 [SendWait [4] False] = Sent s' k"
      "k \<ge> min (length [1, 2, 3, 4, 5, 6 :: byte]) 4"
    using xStreamBufferSend_released [OF demo_stream_ok, of 10 4 7 "[1, 2, 3, 4, 5, 6]" "[]"] by auto
  moreover have "min (length [1, 2, 3, 4, 5, 6 :: byte]) 4 = 4" by simp
  ultimately show ?thesis by (intro exI [of _ s'] exI [of _ k] conjI; linarith?)
qed

lemma xStreamBufferSend_message_cases:
  assumes "sb_holds s ms" "msg_valid s xs"
  shows "xStreamBufferSend me s xs ticks evs =
    (case (if (if sb_cap s < length xs + 4 then 0 else ticks) \<noteq> 0
           then send_wait_loop me (length xs + 4) s evs else Proceed s 0) of
       AssertFailed \<Rightarrow> SendAssert
     | StillBlocked s1 \<Rightarrow> SendBlocked s1
     | Proceed s1 space \<Rightarrow>
         (let space = (if space = 0 then xStreamBufferSpacesAvailable s1 else space) in
          case send_with_space s1 xs space (length xs + 4) of
            None \<Rightarrow> SendAssert | Some (s2, n) \<Rightarrow> Sent s2 n))"
proof -
  have c: "u32_sub (xLength s) 1 = sb_cap s" and m: "is_message_buffer s = True"
    and r: "u32_add (length xs) sbBYTES_TO_STORE_MESSAGE_LENGTH = length xs + 4"
    and v: "(length xs < length xs + 4) = True"
    using assms by (simp_all add: sb_holds_def msg_valid_def sb_inv_def sb_cap_def u32_simps u32_lim_def
        sbBYTES_TO_STORE_MESSAGE_LENGTH_def)
  show ?thesis
    unfolding xStreamBufferSend_def Let_def m r v c simp_thms if_False if_True by (rule TrueI)
qed

text \<open>Property C30: the blocking send of a message buffer writes the whole message or nothing,
  behind what the reader left of the older messages; a message that could never fit is refused
  at once, and no assert fails, whatever happens during the wait.\<close>

theorem xStreamBufferSend_message:
  assumes "sb_holds s ms" "msg_valid s m" "xTaskWaitingToSend s = None"
  shows "case xStreamBufferSend me s m ticks evs of
      SendAssert \<Rightarrow> False
    | SendBlocked s' \<Rightarrow> xTaskWaitingToSend s' = Some me \<and> length m + 4 \<le> sb_cap s \<and>
        (\<exists>k. sb_holds s' (drop k ms))
    | Sent s' n \<Rightarrow> (n = 0 \<and> (\<exists>k. sb_holds s' (drop k ms)) \<or>
         n = length m \<and> length m + 4 \<le> sb_cap s \<and> (\<exists>k. sb_holds s' (drop k ms @ [m])))"
proof -
  let ?w = "if (if sb_cap s < length m + 4 then 0 else ticks) \<noteq> 0
            then send_wait_loop me (length m + 4) s evs else Proceed s 0"
  have d: "\<exists>k. sb_holds s (drop k ms)" using assms(1) by (intro exI [of _ 0]) simp
  have w: "case ?w of
      AssertFailed \<Rightarrow> False
    | StillBlocked s' \<Rightarrow> (\<exists>k. sb_holds s' (drop k ms)) \<and> xTaskWaitingToSend s' = Some me \<and>
        length m + 4 \<le> sb_cap s
    | Proceed s' space \<Rightarrow> (sb_cap s' = sb_cap s \<and> (\<exists>k. sb_holds s' (drop k ms))) \<and>
        space \<le> sb_cap s' - sb_used s'"
    using message_wait.send_wait_loop_P [where s = s and c = "sb_cap s" and ms = ms and
        me = me and required = "length m + 4" and evs = evs] assms d
    by (cases "sb_cap s < length m + 4"; cases "ticks = 0")
      (auto split: send_wait.splits simp del: send_wait_loop.simps)
  show ?thesis
  proof (cases ?w)
    case (Proceed s1 space)
    then obtain k where k: "sb_cap s1 = sb_cap s" "sb_holds s1 (drop k ms)" "space \<le> sb_cap s1 - sb_used s1"
      using w by (auto simp del: send_wait_loop.simps)
    let ?sp = "if space = 0 then xStreamBufferSpacesAvailable s1 else space"
    have sp: "?sp \<le> sb_cap s1 - sb_used s1"
      using k xStreamBufferSpacesAvailable_free [of s1] by (simp add: sb_holds_def)
    have "send_with_space s1 m ?sp (length m + 4) = Some (if length m + 4 \<le> ?sp
        then (sb_sent (sb_append s1 (frame m)), length m) else (s1, 0))"
      using k assms(2) by (intro send_with_space_message sp) (auto simp: sb_holds_def msg_valid_def)
    then have "xStreamBufferSend me s m ticks evs = (if length m + 4 \<le> ?sp
        then Sent (sb_sent (sb_append s1 (frame m))) (length m) else Sent s1 0)"
      unfolding xStreamBufferSend_message_cases [OF assms(1,2)] Proceed by (simp add: Let_def)
    moreover have "sb_holds (sb_sent (sb_append s1 (frame m))) (drop k ms @ [m])" "length m + 4 \<le> sb_cap s"
      if "length m + 4 \<le> ?sp"
    proof -
      have "length m + 4 \<le> sb_cap s1 - sb_used s1" using that sp by linarith
      then show "sb_holds (sb_sent (sb_append s1 (frame m))) (drop k ms @ [m])" "length m + 4 \<le> sb_cap s"
        using sb_holds_append [OF k(2), of m] k(1) assms(2) by (simp_all add: msg_valid_def)
    qed
    ultimately show ?thesis using k(2) by (auto split: if_splits)
  next
    case (StillBlocked s1)
    then show ?thesis
      using w unfolding xStreamBufferSend_message_cases [OF assms(1,2)]
      by (auto simp del: send_wait_loop.simps)
  next
    case AssertFailed
    then show ?thesis using w by (simp del: send_wait_loop.simps)
  qed
qed

theorem xStreamBufferSend_message_witness:
  "case xStreamBufferSend 7 demo_message [1, 2, 3] 10 [] of
      SendAssert \<Rightarrow> False
    | SendBlocked s' \<Rightarrow> (\<exists>k. sb_holds s' (drop k []))
    | Sent s' n \<Rightarrow> n = 0 \<or> n = 3"
proof -
  have "xTaskWaitingToSend demo_message = None" "msg_valid demo_message [1, 2, 3]"
    by (simp_all add: demo_message_def prvInitialiseNewStreamBuffer_def msg_valid_def u32_lim_def)
  then show ?thesis
    using xStreamBufferSend_message [OF demo_message_ok, of "[1, 2, 3]" 7 10 "[]"]
    by (auto split: send_result.splits simp del: send_wait_loop.simps)
qed

text \<open>The reader of a message buffer sees one message at a time: the length it is
  told is the length of the oldest message, a large enough buffer receives exactly that message,
  and a smaller one receives nothing and leaves the message where it is.\<close>

theorem message_receive_next:
  assumes "sb_holds s (m # ms)"
  shows "xStreamBufferNextMessageLengthBytes s = Some (length m) \<and>
    (if length m \<le> n
     then \<exists>s'. xStreamBufferReceive me s n ticks ws = Some (s', m) \<and> sb_holds s' ms
     else xStreamBufferReceive me s n ticks ws = Some (s, []))"
proof -
  have s: "sb_inv s" "is_message_buffer s" and m: "m \<noteq> []"
    and c: "sb_content s = frame m @ concat (map frame ms)" using assms by (auto simp: sb_holds_def)
  have u: "4 + length m \<le> sb_used s" using arg_cong [OF c, of length] by simp
  have "0 < length m" using m by simp
  with u have l4: "4 < sb_used s" by linarith
  have l: "length m < u32_lim" "4 < sb_used s"
    using u l4 sb_used_le [OF s(1)] s(1) by (auto simp: sb_inv_def sb_cap_def u32_lim_def)
  have "xStreamBufferNextMessageLengthBytes s = Some (length m)"
    using read_length_prefix [OF s(1) c] s l prvBytesInBuffer_used [OF s(1)] le32_round_trip [OF l(1)]
    by (simp add: xStreamBufferNextMessageLengthBytes_def sbBYTES_TO_STORE_MESSAGE_LENGTH_def Let_def)
  moreover have "xStreamBufferReceive me s n ticks ws = xStreamBufferReceiveFromISR s n"
    using s l prvBytesInBuffer_used [OF s(1)]
    by (simp add: xStreamBufferReceive_def xStreamBufferReceiveFromISR_def bytes_to_store_length_def
        sbBYTES_TO_STORE_MESSAGE_LENGTH_def Let_def)
  ultimately show ?thesis
    using xStreamBufferReceiveFromISR_message [OF assms, of n] sb_holds_consume [OF assms] by simp
qed

theorem message_receive_next_witness:
  "xStreamBufferNextMessageLengthBytes (sb_sent (sb_append demo_message (frame [7, 8]))) = Some 2"
proof -
  have "sb_holds (sb_sent (sb_append demo_message (frame [7, 8]))) ([] @ [[7, 8]])"
    by (rule sb_holds_append [OF demo_message_ok])
      (simp_all add: demo_message_def prvInitialiseNewStreamBuffer_def sb_cap_def sb_used_def)
  then show ?thesis using message_receive_next [of _ "[7, 8]" "[]"] by simp
qed

text \<open>Creation. With a heap that returns blocks of the requested size, a buffer of
  fewer than two gigabytes is created empty, with room for exactly the requested bytes, the
  requested kind and a trigger level of at least one; creation fails on an assert exactly for a
  size too small for its kind or a trigger level above the size, and returns \<open>NULL\<close> only when the
  heap does.\<close>

theorem xStreamBufferGenericCreate_ok:
  assumes "\<forall>n mem. malloc n = Some mem \<longrightarrow> length mem = n" "nbytes < u32_lim div 2"
  shows "case xStreamBufferGenericCreate malloc nbytes trigger msg of
      None \<Rightarrow> (if msg then nbytes \<le> 4 else nbytes = 0) \<or> nbytes < trigger
    | Some None \<Rightarrow> malloc (nbytes + 1 + sizeof_StreamBuffer_t) = None
    | Some (Some s) \<Rightarrow> sb_inv s \<and> sb_content s = [] \<and> sb_cap s = nbytes \<and> is_message_buffer s = msg \<and>
        xTriggerLevelBytes s = max 1 trigger \<and> (msg \<longrightarrow> sb_holds s []) \<and> (\<not> msg \<longrightarrow> sb_stream s)"
proof (cases "(if msg then nbytes \<le> 4 else nbytes = 0) \<or> nbytes < trigger")
  case True
  then show ?thesis
    by (auto simp: xStreamBufferGenericCreate_def sbBYTES_TO_STORE_MESSAGE_LENGTH_def split: if_splits)
next
  case False
  let ?total = "nbytes + 1 + sizeof_StreamBuffer_t"
  have a: "u32_add nbytes 1 = nbytes + 1" "u32_add (nbytes + 1) sizeof_StreamBuffer_t = ?total"
    using assms(2) by (auto simp: u32_simps u32_lim_def sizeof_StreamBuffer_t_def)
  let ?flags = "if msg then sbFLAGS_IS_MESSAGE_BUFFER else 0"
  let ?t = "if trigger = 0 then 1 else trigger"
  have v: "(if msg then \<not> nbytes > sbBYTES_TO_STORE_MESSAGE_LENGTH else \<not> nbytes > 0) = False"
    "(\<not> trigger \<le> nbytes) = False"
    using False by (auto simp: sbBYTES_TO_STORE_MESSAGE_LENGTH_def)
  have g: "xStreamBufferGenericCreate malloc nbytes trigger msg = Some (case malloc ?total of
      None \<Rightarrow> None | Some mem \<Rightarrow> Some (prvInitialiseNewStreamBuffer
        (drop sizeof_StreamBuffer_t mem) (nbytes + 1) ?t ?flags []))"
    unfolding xStreamBufferGenericCreate_def Let_def v if_False a
    by (simp add: sizeof_StreamBuffer_t_def)
  show ?thesis
  proof (cases "malloc ?total")
    case None
    then show ?thesis using g by simp
  next
    case (Some mem)
    then have "length mem = ?total" using assms(1) by blast
    then have m: "length (mem_write (drop sizeof_StreamBuffer_t mem) 0 (replicate (nbytes + 1) (0x55 :: byte))) = nbytes + 1"
      by (simp add: mem_simps)
    have n: "2 \<le> nbytes + 1" "nbytes + 1 \<le> u32_lim div 2" using False assms(2) by (auto split: if_splits)
    let ?s = "prvInitialiseNewStreamBuffer (drop sizeof_StreamBuffer_t mem) (nbytes + 1) ?t ?flags []"
    have i: "sb_inv ?s" using m n by (simp add: prvInitialiseNewStreamBuffer_def sb_inv_def)
    have f: "sb_content ?s = []" "sb_cap ?s = nbytes" "is_message_buffer ?s = msg"
        "xTriggerLevelBytes ?s = max 1 trigger"
      by (auto simp: prvInitialiseNewStreamBuffer_def sb_content_def sb_used_def sb_cap_def
          is_message_buffer_def sbFLAGS_IS_MESSAGE_BUFFER_def)
    show ?thesis
      unfolding g Some option.case using i f by (simp only: sb_holds_def sb_stream_def) simp
  qed
qed

theorem xStreamBufferGenericCreate_ok_witness:
  "case xStreamBufferGenericCreate (\<lambda>n. Some (replicate n 0)) 10 0 True of
     Some (Some s) \<Rightarrow> sb_holds s [] | _ \<Rightarrow> False"
  using xStreamBufferGenericCreate_ok [where malloc = "\<lambda>n. Some (replicate n 0)" and nbytes = 10
      and trigger = 0 and msg = True]
  by (auto simp: u32_lim_def split: option.splits)

lemma writer_runs_puts:
  assumes "sb_stream s"
  shows "writer_runs s ws = Some (fst (fifo_run sb_put sb_get s (map Put ws))) \<and>
    snd (snd (fifo_run sb_put sb_get s (map Put ws))) = []"
  using assms
proof (induction ws arbitrary: s)
  case (Cons xs ws)
  have "xStreamBufferSendFromISR s xs = Some (sb_put s xs)"
    by (simp add: sb_put_def xStreamBufferSendFromISR_stream [OF Cons.prems] Let_def)
  then show ?case
    using Cons.IH [OF sbuf.put_inv [OF Cons.prems, of xs]] by (auto split: prod.splits)
qed simp

text \<open>Property C32: the receive of a stream buffer, blocking or not, delivers the oldest bytes: as
  many as its buffer takes of what was there, or, when there was nothing and it may wait, of
  what the writers put in meanwhile; what it does not take stays, in order.\<close>

theorem xStreamBufferReceive_stream:
  fixes ticks :: nat and me :: task and ws :: "byte list list"
  assumes "sb_stream s" "xTaskWaitingToReceive s = None"
  defines "written \<equiv> (if ticks \<noteq> 0 \<and> sb_content s = []
      then fst (snd (fifo_run sb_put sb_get (s\<lparr>xTaskWaitingToReceive := Some me\<rparr>) (map Put ws))) else [])"
  shows "\<exists>s' ys. xStreamBufferReceive me s n ticks ws = Some (s', ys) \<and> sb_stream s' \<and>
    sb_content s @ written = ys @ sb_content s' \<and> length ys = min n (length (sb_content s @ written))"
proof -
  have s: "sb_inv s" "\<not> is_message_buffer s" using assms(1) by (simp_all add: sb_stream_def)
  have get: "\<exists>s' ys. receive_available t n (prvBytesInBuffer t) = Some (s', ys) \<and> sb_stream s' \<and>
      sb_content t = ys @ sb_content s' \<and> length ys = min n (length (sb_content t))" if "sb_stream t" for t
  proof -
    have "receive_available t n (prvBytesInBuffer t) = Some (sb_get t n)"
      using xStreamBufferReceiveFromISR_stream [OF that, of n]
      by (simp add: sb_get_def xStreamBufferReceiveFromISR_def Let_def)
    then show ?thesis
      using sbuf.get_inv [OF that, of n] sbuf.get_content [OF that, of n] sbuf.get_count [OF that, of n]
      by (metis prod.collapse)
  qed
  have e: "(sb_used s = 0) = (sb_content s = [])"
    using length_sb_content [of s] by (metis length_0_conv)
  show ?thesis
  proof (cases "ticks \<noteq> 0 \<and> sb_content s = []")
    case False
    then have "xStreamBufferReceive me s n ticks ws = receive_available s n (prvBytesInBuffer s)"
      using s e prvBytesInBuffer_used [OF s(1)]
      by (auto simp: xStreamBufferReceive_def bytes_to_store_length_def Let_def)
    moreover have "written = []" using False unfolding written_def by (simp only: if_False)
    ultimately show ?thesis using get [OF assms(1)] by simp
  next
    case True
    let ?s = "s\<lparr>xTaskWaitingToReceive := Some me\<rparr>"
    have st: "sb_stream ?s" using s by (simp add: sb_stream_def)
    obtain s1 acc del where r: "fifo_run sb_put sb_get ?s (map Put ws) = (s1, acc, del)"
      by (metis prod.collapse)
    have w: "writer_runs ?s ws = Some s1" "del = []" using writer_runs_puts [OF st, of ws] r by simp_all
    have i: "sb_stream s1" "sb_content s @ acc = sb_content s1"
      using sbuf.run_fifo [OF st _ r] w(2) by simp_all
    have "written = acc" using True r by (simp add: written_def)
    moreover have "sb_stream (s1\<lparr>xTaskWaitingToReceive := None\<rparr>)" using i(1) by (simp add: sb_stream_def)
    moreover have "xStreamBufferReceive me s n ticks ws =
        receive_available (s1\<lparr>xTaskWaitingToReceive := None\<rparr>) n (prvBytesInBuffer (s1\<lparr>xTaskWaitingToReceive := None\<rparr>))"
      using True s e prvBytesInBuffer_used [OF s(1)] w(1) assms(2)
      by (simp add: xStreamBufferReceive_def bytes_to_store_length_def Let_def)
    ultimately show ?thesis using get [of "s1\<lparr>xTaskWaitingToReceive := None\<rparr>"] i(2) by simp
  qed
qed

theorem xStreamBufferReceive_stream_witness:
  "\<exists>s' ys. xStreamBufferReceive 3 demo_stream 2 5 [[1, 2], [3]] = Some (s', ys) \<and> sb_stream s'"
  using xStreamBufferReceive_stream [OF demo_stream_ok, where ticks = 5 and me = 3
      and ws = "[[1, 2], [3]]" and n = 2]
  by (auto simp: demo_stream_def prvInitialiseNewStreamBuffer_def)

end
