(* ===== verification/Kshm.thy ===== *)
theory Kshm
  imports Fifo
begin

text \<open>
  The shared-memory ring of \<open>drivers/kshm/kshm.c\<close>, which carries the audio and video packets:
  packets are stored contiguously, rounded up to cache lines, and the writer and the reader
  both decide from the packet size whether it lies at the current position or at the start of
  the ring. Proved: the ring is a packet queue for readers that ask for the sizes written,
  and no operation touches memory outside the ring.
\<close>

section \<open>The ring\<close>

text \<open>Cache maintenance has no effect on the memory as the program sees it; it is recorded.\<close>

datatype cache_op = CacheFlush nat nat | CacheInvalidate nat nat | CacheFlushSource nat

datatype KSHM_DATA_DIRECTION = KSHM_BIDIRECTIONAL | KSHM_TO_DEVICE | KSHM_FROM_DEVICE | KSHM_NONE

text \<open>
  \<open>struct kshm_info\<close> with its \<open>struct kshm_desc\<close> (\<open>rd\<close>, \<open>wt\<close> and \<open>reserved\<close> are the arrays of
  two) and its \<open>struct kshm_cfg\<close>; \<open>base\<close> is the ring's memory, positions are offsets in it.
\<close>

record kshm_info =
  rd :: "nat list"
  wt :: "nat list"
  reserved :: "nat list"
  index :: nat
  dma_xfer_id :: int
  update_write_size :: nat
  wt_times :: nat
  rd_times :: nat
  base :: "byte list"
  cfg_size :: nat
  dma_ch :: int
  data_direction :: KSHM_DATA_DIRECTION
  cache_ops :: "cache_op list"

text \<open>A handle may be \<open>NULL\<close>.\<close>

type_synonym kshm_handle = "kshm_info option"

abbreviation KSHM_OK :: int where "KSHM_OK \<equiv> 0"
abbreviation KSHM_FAIL :: int where "KSHM_FAIL \<equiv> -1"

text \<open>\<open>ROUNDUP(a, 32)\<close> on \<open>size_t\<close>: the addition wraps, then the low five bits are cleared.\<close>

definition ROUNDUP32 :: "nat \<Rightarrow> nat" where
  "ROUNDUP32 a = u32_add a 31 div 32 * 32"

text \<open>The fallback copy engine of the file: \<open>memcpy\<close>, transfer id zero.\<close>

definition weak_dma_copy :: "byte list \<Rightarrow> nat \<Rightarrow> byte list \<Rightarrow> byte list \<times> int" where
  "weak_dma_copy buf off xs = (mem_write buf off xs, 0)"

definition cache_op :: "cache_op \<Rightarrow> kshm_info \<Rightarrow> kshm_info" where
  "cache_op c s = s\<lparr>cache_ops := cache_ops s @ [c]\<rparr>"

section \<open>Creation\<close>

text \<open>
  The arguments are the answers of the heap for the two headers, of the heap for the ring and
  of \<open>dma_open\<close> for the channel (the fallback answers \<open>-1\<close>).
\<close>

definition kshm_create :: "bool \<Rightarrow> bool \<Rightarrow> (nat \<Rightarrow> byte list option) \<Rightarrow> int \<Rightarrow> nat \<Rightarrow> kshm_handle" where
  "kshm_create info_ok desc_ok memalign ch nbytes =
     (if \<not> info_ok then None
      else if \<not> desc_ok then None
      else
        (case memalign nbytes of
           None \<Rightarrow> None
         | Some mem \<Rightarrow> Some \<lparr>rd = [0, 0], wt = [0, 0], reserved = [0, 0], index = 0, dma_xfer_id = -1,
             update_write_size = 0, wt_times = 0, rd_times = 0, base = mem, cfg_size = nbytes,
             dma_ch = ch, data_direction = KSHM_BIDIRECTIONAL, cache_ops = []\<rparr>))"

definition kshm_set_data_direction :: "kshm_handle \<Rightarrow> KSHM_DATA_DIRECTION \<Rightarrow> kshm_handle \<times> int" where
  "kshm_set_data_direction h d =
     (case h of None \<Rightarrow> (None, KSHM_FAIL) | Some s \<Rightarrow> (Some (s\<lparr>data_direction := d\<rparr>), KSHM_OK))"

definition kshm_create_ext ::
    "bool \<Rightarrow> bool \<Rightarrow> (nat \<Rightarrow> byte list option) \<Rightarrow> int \<Rightarrow> nat \<Rightarrow> KSHM_DATA_DIRECTION \<Rightarrow> kshm_handle" where
  "kshm_create_ext info_ok desc_ok memalign ch nbytes d =
     fst (kshm_set_data_direction (kshm_create info_ok desc_ok memalign ch nbytes) d)"

text \<open>What destroying a ring gives back, in order.\<close>

datatype kshm_release = InvalidateRing nat | FreeRing | FreeDesc | CloseDma int | FreeInfo

definition kshm_destroy :: "kshm_handle \<Rightarrow> kshm_release list \<times> int" where
  "kshm_destroy h =
     (case h of
        None \<Rightarrow> ([], KSHM_FAIL)
      | Some s \<Rightarrow> ([InvalidateRing (cfg_size s), FreeRing, FreeDesc] @
          (if dma_ch s \<noteq> -1 then [CloseDma (dma_ch s)] else []) @ [FreeInfo], KSHM_OK))"

text \<open>The whole descriptor is cleared, the transfer id too.\<close>

definition kshm_reset :: "kshm_handle \<Rightarrow> kshm_handle \<times> int" where
  "kshm_reset h =
     (case h of
        None \<Rightarrow> (None, KSHM_OK)
      | Some s \<Rightarrow> (Some (s\<lparr>rd := [0, 0], wt := [0, 0], reserved := [0, 0], index := 0, dma_xfer_id := 0,
          update_write_size := 0, wt_times := 0, rd_times := 0\<rparr>), KSHM_OK))"

text \<open>Switch to the other pair of positions, which starts empty.\<close>

definition special_reset :: "kshm_info \<Rightarrow> kshm_info" where
  "special_reset s =
     (let i = u32_sub 1 (index s) in
      s\<lparr>rd := (rd s)[i := 0], wt := (wt s)[i := 0], reserved := (reserved s)[i := 0], index := i,
        rd_times := 0, wt_times := 0\<rparr>)"

definition kshm_special_reset :: "kshm_handle \<Rightarrow> kshm_handle \<times> int" where
  "kshm_special_reset h = (map_option special_reset h, KSHM_OK)"

section \<open>Sizes\<close>

abbreviation cur_rd :: "kshm_info \<Rightarrow> nat" where "cur_rd s \<equiv> rd s ! index s"
abbreviation cur_wt :: "kshm_info \<Rightarrow> nat" where "cur_wt s \<equiv> wt s ! index s"

definition avail_size :: "kshm_info \<Rightarrow> nat" where
  "avail_size s =
     (if cur_wt s \<ge> cur_rd s then u32_sub (cur_wt s) (cur_rd s)
      else max (u32_sub (cfg_size s) (cur_rd s)) (cur_wt s))"

definition tail_space :: "kshm_info \<Rightarrow> nat" where
  "tail_space s =
     (if cur_wt s \<ge> cur_rd s then u32_sub (cfg_size s) (cur_wt s) else u32_sub (cur_rd s) (cur_wt s))"

definition head_space :: "kshm_info \<Rightarrow> nat" where
  "head_space s = (if cur_wt s \<ge> cur_rd s then cur_rd s else 0)"

definition kshm_get_valid_size :: "kshm_handle \<Rightarrow> nat" where
  "kshm_get_valid_size h = (case h of None \<Rightarrow> 0 | Some s \<Rightarrow> avail_size s)"

text \<open>For a \<open>NULL\<close> handle \<open>KSHM_FAIL\<close> is returned as a \<open>size_t\<close>.\<close>

definition kshm_get_free_size :: "kshm_handle \<Rightarrow> nat" where
  "kshm_get_free_size h =
     (case h of None \<Rightarrow> u32_lim - 1 | Some s \<Rightarrow> u32_sub (max (head_space s) (tail_space s)) 1)"

definition kshm_get_total_size :: "kshm_handle \<Rightarrow> nat" where
  "kshm_get_total_size h = (case h of None \<Rightarrow> u32_lim - 1 | Some s \<Rightarrow> u32_sub (cfg_size s) 1)"

section \<open>Reading\<close>

definition invalidates_on_read :: "kshm_info \<Rightarrow> bool" where
  "invalidates_on_read s \<longleftrightarrow>
     (data_direction s = KSHM_FROM_DEVICE \<or> data_direction s = KSHM_BIDIRECTIONAL) \<and> odd (rd_times s)"

text \<open>The offset of the packet to read, or \<open>None\<close> for \<open>NULL\<close>.\<close>

definition kshm_request_read :: "kshm_handle \<Rightarrow> nat \<Rightarrow> kshm_handle \<times> nat option" where
  "kshm_request_read h n =
     (case h of
        None \<Rightarrow> (None, None)
      | Some s \<Rightarrow>
          if n = 0 then (h, None)
          else
            (let r = ROUNDUP32 n in
             if avail_size s < r then (h, None)
             else
               (let off = (if u32_add (cur_rd s) r > cfg_size s then 0 else cur_rd s);
                    s = (if invalidates_on_read s then cache_op (CacheInvalidate off r) s else s)
                in (Some s, Some off))))"

definition kshm_update_read :: "kshm_handle \<Rightarrow> nat \<Rightarrow> kshm_handle \<times> int" where
  "kshm_update_read h n =
     (case h of
        None \<Rightarrow> (None, KSHM_FAIL)
      | Some s \<Rightarrow>
          (let r = ROUNDUP32 n;
               pos = (if u32_add (cur_rd s) r > cfg_size s then r
                      else if u32_add (cur_rd s) r = cfg_size s then 0 else u32_add (cur_rd s) r)
           in (Some (s\<lparr>rd := (rd s)[index s := pos], rd_times := u32_add (rd_times s) 1\<rparr>), KSHM_OK)))"

definition kshm_update_reserved :: "kshm_handle \<Rightarrow> nat \<Rightarrow> kshm_handle \<times> int" where
  "kshm_update_reserved h n =
     (case h of
        None \<Rightarrow> (None, KSHM_FAIL)
      | Some s \<Rightarrow> (Some (s\<lparr>reserved := (reserved s)[index s := ROUNDUP32 n]\<rparr>), KSHM_OK))"

text \<open>
  The bytes copied out are part of the result; the outer \<open>None\<close> is a copy that would leave the
  ring's memory.
\<close>

definition kshm_read :: "kshm_handle \<Rightarrow> nat \<Rightarrow> (kshm_handle \<times> int \<times> byte list) option" where
  "kshm_read h n =
     (if h = None \<or> n = 0 then Some (h, KSHM_FAIL, [])
      else
        (case kshm_request_read h n of
           (Some s, Some off) \<Rightarrow>
             if off + n \<le> length (base s)
             then Some (fst (kshm_update_read (Some s) n), u32_to_int n, mem_read (base s) off n)
             else None
         | (h, _) \<Rightarrow> Some (h, KSHM_FAIL, [])))"

section \<open>Writing\<close>

text \<open>
  The offset to write at. When both ends are too short and the ring is empty the code switches
  to the other pair of positions and starts over at the beginning.
\<close>

definition kshm_request_write :: "kshm_handle \<Rightarrow> nat \<Rightarrow> kshm_handle \<times> nat option" where
  "kshm_request_write h n =
     (case h of
        None \<Rightarrow> (None, None)
      | Some s \<Rightarrow>
          if n = 0 then (h, None)
          else
            (let r = ROUNDUP32 n; res = reserved s ! index s;
                 tail = tail_space s; head = head_space s
             in if head < u32_add res r \<and> tail < u32_add res r then
                  (if cur_rd s = cur_wt s \<and> \<not> r > cfg_size s
                   then (fst (kshm_special_reset h), Some 0) else (h, None))
                else if tail > r then (h, Some (cur_wt s))
                else if tail = r \<and> head > 0 then (h, Some (cur_wt s))
                else if head > r then (h, Some 0)
                else (h, None)))"

definition kshm_update_write :: "kshm_handle \<Rightarrow> nat \<Rightarrow> kshm_handle \<times> int" where
  "kshm_update_write h n =
     (case h of
        None \<Rightarrow> (None, KSHM_FAIL)
      | Some s \<Rightarrow>
          if n = 0 then (h, KSHM_FAIL)
          else
            (let r = ROUNDUP32 n;
                 pos = (if u32_add (cur_wt s) r > cfg_size s then r
                        else if u32_add (cur_wt s) r = cfg_size s then 0 else u32_add (cur_wt s) r)
             in (Some (s\<lparr>wt := (wt s)[index s := pos], wt_times := u32_add (wt_times s) 1\<rparr>), KSHM_OK)))"

definition flushes_on_write :: "kshm_info \<Rightarrow> bool" where
  "flushes_on_write s \<longleftrightarrow>
     (data_direction s = KSHM_TO_DEVICE \<or> data_direction s = KSHM_BIDIRECTIONAL) \<and> odd (wt_times s)"

text \<open>Called by the copy engine when a transfer ends.\<close>

definition kshm_dma_copy_done :: "kshm_handle \<Rightarrow> kshm_handle" where
  "kshm_dma_copy_done h =
     (case h of
        None \<Rightarrow> None
      | Some s \<Rightarrow>
          if dma_xfer_id s \<noteq> -1
          then map_option (\<lambda>s. s\<lparr>dma_xfer_id := -1\<rparr>) (fst (kshm_update_write h (update_write_size s)))
          else h)"

definition kshm_write :: "(byte list \<Rightarrow> nat \<Rightarrow> byte list \<Rightarrow> byte list \<times> int) \<Rightarrow>
    kshm_handle \<Rightarrow> byte list \<Rightarrow> (kshm_handle \<times> int) option" where
  "kshm_write dma_copy h xs =
     (let n = length xs in
      if h = None \<or> n = 0 then Some (h, KSHM_FAIL)
      else
        (case kshm_request_write h n of
           (Some s, Some off) \<Rightarrow>
             if off + n \<le> length (base s) then
               (if n < 512 \<or> dma_ch s = -1 then
                  (let s = s\<lparr>base := mem_write (base s) off xs\<rparr>;
                       s = (if flushes_on_write s then cache_op (CacheFlush off n) s else s)
                   in Some (fst (kshm_update_write (Some s) n), u32_to_int n))
                else
                  (let s = cache_op (CacheInvalidate off n) (cache_op (CacheFlushSource n) s);
                       (mem, xfer) = dma_copy (base s) off xs;
                       s = s\<lparr>base := mem, dma_xfer_id := xfer, update_write_size := n\<rparr>
                   in Some (if xfer \<noteq> -1
                        then map_option (\<lambda>s. s\<lparr>dma_xfer_id := -1\<rparr>)
                               (fst (kshm_update_write (Some s) (update_write_size s)))
                        else Some s, u32_to_int n)))
             else None
         | (h, _) \<Rightarrow> Some (h, KSHM_FAIL)))"

section \<open>Packets laid out in the ring\<close>

definition ceil32 :: "nat \<Rightarrow> nat" where
  "ceil32 n = (n + 31) div 32 * 32"

lemma ROUNDUP32_ceil: "n \<le> u32_lim div 2 \<Longrightarrow> ROUNDUP32 n = ceil32 n"
  by (simp add: ROUNDUP32_def ceil32_def u32_simps u32_lim_def)

lemma ceil32_ge: "n \<le> ceil32 n"
  unfolding ceil32_def by linarith

lemma ceil32_pos: "0 < n \<Longrightarrow> 0 < ceil32 n"
  using ceil32_ge [of n] by linarith

text \<open>The packets \<open>ms\<close> lie one after the other from \<open>p\<close> up to \<open>e\<close>.\<close>

fun packed :: "byte list \<Rightarrow> nat \<Rightarrow> byte list list \<Rightarrow> nat \<Rightarrow> bool" where
  "packed buf p [] e \<longleftrightarrow> p = e"
| "packed buf p (m # ms) e \<longleftrightarrow>
     m \<noteq> [] \<and> mem_read buf p (length m) = m \<and> packed buf (p + ceil32 (length m)) ms e"

lemma packed_le: "packed buf p ms e \<Longrightarrow> p \<le> e"
  by (induction ms arbitrary: p) fastforce+

lemma packed_empty: "packed buf p ms p \<Longrightarrow> ms = []"
  using packed_le ceil32_pos by (cases ms) fastforce+



text \<open>
  What a ring with read position \<open>p\<close> and write position \<open>w\<close> holds: one run of packets, or one
  at the end and one at the start, the gap between them too short for the packet behind it.
\<close>

definition ring_holds :: "byte list \<Rightarrow> nat \<Rightarrow> nat \<Rightarrow> byte list list \<Rightarrow> bool" where
  "ring_holds buf p w ms \<longleftrightarrow>
     (if p \<le> w then packed buf p ms w
      else \<exists>ms1 ms2 e. ms = ms1 @ ms2 \<and> packed buf p ms1 e \<and> packed buf 0 ms2 w \<and> e \<le> length buf \<and>
        (e = length buf \<or> (ms2 \<noteq> [] \<and> e + ceil32 (length (hd ms2)) > length buf)))"

definition next_pos :: "nat \<Rightarrow> nat \<Rightarrow> nat \<Rightarrow> nat" where
  "next_pos len p r = (if p + r > len then r else if p + r = len then 0 else p + r)"

lemma ring_holds_empty: "ring_holds buf p p ms \<longleftrightarrow> ms = []"
  using packed_empty by (auto simp: ring_holds_def)






section \<open>The operations on a well-formed ring\<close>

definition kshm_inv :: "kshm_info \<Rightarrow> bool" where
  "kshm_inv s \<longleftrightarrow> length (rd s) = 2 \<and> length (wt s) = 2 \<and> length (reserved s) = 2 \<and> index s < 2 \<and>
     cfg_size s \<le> u32_lim div 2 \<and> length (base s) = cfg_size s \<and>
     cur_rd s < cfg_size s \<and> cur_wt s < cfg_size s"

text \<open>Everything but the memory, the positions and the counters.\<close>

definition same_ring :: "kshm_info \<Rightarrow> kshm_info \<Rightarrow> bool" where
  "same_ring s s' \<longleftrightarrow> index s' = index s \<and> cfg_size s' = cfg_size s \<and> reserved s' = reserved s"

lemma cache_op_fields [simp]:
  "rd (cache_op c s) = rd s" "wt (cache_op c s) = wt s" "reserved (cache_op c s) = reserved s"
  "index (cache_op c s) = index s" "base (cache_op c s) = base s" "cfg_size (cache_op c s) = cfg_size s"
  "dma_ch (cache_op c s) = dma_ch s" "wt_times (cache_op c s) = wt_times s"
  "rd_times (cache_op c s) = rd_times s" "data_direction (cache_op c s) = data_direction s"
  by (simp_all add: cache_op_def)

lemma update_pos:
  assumes "p < len" "n \<le> u32_lim div 2" "len \<le> u32_lim div 2"
  shows "(if u32_add p (ROUNDUP32 n) > len then ROUNDUP32 n
          else if u32_add p (ROUNDUP32 n) = len then 0 else u32_add p (ROUNDUP32 n)) =
         next_pos len p (ceil32 n)"
proof -
  have "(n + 31) div 32 \<le> (u32_lim div 2 + 31) div 32" using assms(2) by (intro div_le_mono) simp
  then have "ceil32 n \<le> u32_lim div 2" unfolding ceil32_def u32_lim_half by simp
  then have "u32_add p (ceil32 n) = p + ceil32 n"
    using assms u32_add_small [of p "ceil32 n"] by (simp add: u32_lim_half u32_lim_def)
  then show ?thesis using assms(2) by (simp add: ROUNDUP32_ceil next_pos_def)
qed

lemma kshm_inv_sizes:
  assumes "kshm_inv s"
  shows "avail_size s = (if cur_rd s \<le> cur_wt s then cur_wt s - cur_rd s
           else max (length (base s) - cur_rd s) (cur_wt s))"
    and "tail_space s = (if cur_rd s \<le> cur_wt s then length (base s) - cur_wt s else cur_rd s - cur_wt s)"
    and "head_space s = (if cur_rd s \<le> cur_wt s then cur_rd s else 0)"
  using assms
  by (auto simp: kshm_inv_def avail_size_def tail_space_def head_space_def u32_simps u32_lim_half u32_lim_def)

text \<open>The read, when the packet is there and when it is not.\<close>

lemma kshm_read_effect:
  assumes "kshm_inv s" "0 < n" "n \<le> u32_lim div 2" "ceil32 n \<le> avail_size s"
  defines "off \<equiv> (if cur_rd s + ceil32 n > length (base s) then 0 else cur_rd s)"
  shows "\<exists>s'. kshm_read (Some s) n = Some (Some s', u32_to_int n, mem_read (base s) off n) \<and>
    off + ceil32 n \<le> length (base s) \<and> base s' = base s \<and> wt s' = wt s \<and> same_ring s s' \<and>
    rd s' = (rd s)[index s := next_pos (length (base s)) (cur_rd s) (ceil32 n)]"
proof -
  have l: "length (base s) = cfg_size s" "cur_rd s < cfg_size s" "cfg_size s \<le> u32_lim div 2"
      "cur_wt s < cfg_size s" using assms(1) by (auto simp: kshm_inv_def)
  have R: "ROUNDUP32 n = ceil32 n" using assms(3) ROUNDUP32_ceil by blast
  have c: "ceil32 n \<le> cfg_size s"
    using assms(4) l kshm_inv_sizes(1) [OF assms(1)] by (auto split: if_splits)
  have a: "u32_add (cur_rd s) (ceil32 n) = cur_rd s + ceil32 n"
    using l c by (intro u32_add_small) (auto simp: u32_lim_half u32_lim_def)
  have o: "off + ceil32 n \<le> length (base s)" using c l by (auto simp: off_def)
  then have on: "off + n \<le> length (base s)" using ceil32_ge [of n] by linarith
  let ?s = "if invalidates_on_read s then cache_op (CacheInvalidate off (ceil32 n)) s else s"
  have q: "kshm_request_read (Some s) n = (Some ?s, Some off)"
    using assms(2,4) l(1) a by (auto simp: kshm_request_read_def R Let_def off_def)
  have u: "fst (kshm_update_read (Some ?s) n) = Some (?s\<lparr>rd := (rd s)[index s :=
      next_pos (length (base s)) (cur_rd s) (ceil32 n)], rd_times := u32_add (rd_times ?s) 1\<rparr>)"
    using update_pos [OF l(2) assms(3) l(3)] l(1) by (auto simp: kshm_update_read_def Let_def)
  show ?thesis
    using assms(2) on o unfolding kshm_read_def q by (simp add: u same_ring_def)
qed

lemma kshm_read_nothing:
  assumes "avail_size s < ROUNDUP32 n \<or> n = 0"
  shows "kshm_read (Some s) n = Some (Some s, KSHM_FAIL, [])"
  using assms by (auto simp: kshm_read_def kshm_request_read_def Let_def)

text \<open>Where a write goes.\<close>

definition writes_here :: "kshm_info \<Rightarrow> nat \<Rightarrow> bool" where
  "writes_here s r \<longleftrightarrow>
     cur_rd s \<le> cur_wt s \<and> (cur_wt s + r < length (base s) \<or> cur_wt s + r = length (base s) \<and> 0 < cur_rd s) \<or>
     cur_wt s < cur_rd s \<and> cur_wt s + r < cur_rd s"

definition writes_at_start :: "kshm_info \<Rightarrow> nat \<Rightarrow> bool" where
  "writes_at_start s r \<longleftrightarrow> cur_rd s \<le> cur_wt s \<and> cur_wt s + r > length (base s) \<and> r < cur_rd s"

lemma kshm_request_write_cases:
  assumes "kshm_inv s" "0 < n" "n \<le> u32_lim div 2"
  obtains
    (refused) "kshm_request_write (Some s) n = (Some s, None)"
  | (here) "kshm_request_write (Some s) n = (Some s, Some (cur_wt s))" "writes_here s (ceil32 n)"
  | (start) "kshm_request_write (Some s) n = (Some s, Some 0)" "writes_at_start s (ceil32 n)"
  | (restart) "kshm_request_write (Some s) n = (Some (special_reset s), Some 0)"
      "cur_rd s = cur_wt s" "ceil32 n \<le> length (base s)"
proof -
  have R: "ROUNDUP32 n = ceil32 n" using assms(3) ROUNDUP32_ceil by blast
  have l: "length (base s) = cfg_size s" "cur_rd s < cfg_size s" "cur_wt s < cfg_size s"
    using assms(1) by (auto simp: kshm_inv_def)
  note sz = kshm_inv_sizes(2,3) [OF assms(1)]
  define short where "short \<longleftrightarrow> head_space s < u32_add (reserved s ! index s) (ceil32 n) \<and>
      tail_space s < u32_add (reserved s ! index s) (ceil32 n)"
  have q: "kshm_request_write (Some s) n =
      (if short then (if cur_rd s = cur_wt s \<and> \<not> ceil32 n > cfg_size s
                      then (Some (special_reset s), Some 0) else (Some s, None))
       else if tail_space s > ceil32 n then (Some s, Some (cur_wt s))
       else if tail_space s = ceil32 n \<and> head_space s > 0 then (Some s, Some (cur_wt s))
       else if head_space s > ceil32 n then (Some s, Some 0) else (Some s, None))"
    using assms(2) by (simp add: kshm_request_write_def kshm_special_reset_def R Let_def short_def)
  consider (a) "short" "cur_rd s = cur_wt s" "ceil32 n \<le> cfg_size s"
    | (b) "short" "\<not> (cur_rd s = cur_wt s \<and> ceil32 n \<le> cfg_size s)"
    | (c) "\<not> short" "tail_space s > ceil32 n \<or> tail_space s = ceil32 n \<and> head_space s > 0"
    | (d) "\<not> short" "tail_space s \<le> ceil32 n" "\<not> (tail_space s = ceil32 n \<and> head_space s > 0)"
        "head_space s > ceil32 n"
    | (e) "\<not> short" "tail_space s \<le> ceil32 n" "\<not> (tail_space s = ceil32 n \<and> head_space s > 0)"
        "head_space s \<le> ceil32 n"
    by linarith
  then show thesis
  proof cases
    case a
    then show ?thesis using restart q l by simp
  next
    case b
    then show ?thesis using refused q by auto
  next
    case c
    then have "writes_here s (ceil32 n)" using l by (auto simp: sz writes_here_def split: if_splits)
    then show ?thesis using here q c by auto
  next
    case d
    then have "writes_at_start s (ceil32 n)" using l by (auto simp: sz writes_at_start_def split: if_splits)
    then show ?thesis using start q d by auto
  next
    case e
    then have "kshm_request_write (Some s) n = (Some s, None)" using q by auto
    then show ?thesis by (rule refused)
  qed
qed

text \<open>The copy engine copies, and names the transfer with something other than \<open>-1\<close>.\<close>

definition dma_copies :: "(byte list \<Rightarrow> nat \<Rightarrow> byte list \<Rightarrow> byte list \<times> int) \<Rightarrow> bool" where
  "dma_copies dma_copy \<longleftrightarrow>
     (\<forall>buf off xs. fst (dma_copy buf off xs) = mem_write buf off xs \<and> snd (dma_copy buf off xs) \<noteq> -1)"

lemma weak_dma_copies: "dma_copies weak_dma_copy"
  by (simp add: dma_copies_def weak_dma_copy_def)

lemma kshm_update_write_effect:
  assumes "kshm_inv s" "0 < n" "n \<le> u32_lim div 2" "index t = index s" "cfg_size t = cfg_size s" "wt t = wt s"
  shows "fst (kshm_update_write (Some t) n) = Some (t\<lparr>wt := (wt s)[index s :=
    next_pos (cfg_size s) (cur_wt s) (ceil32 n)], wt_times := u32_add (wt_times t) 1\<rparr>)"
proof -
  have l: "cur_wt s < cfg_size s" "cfg_size s \<le> u32_lim div 2" using assms(1) by (auto simp: kshm_inv_def)
  show ?thesis
    using assms(2,4-6) update_pos [OF l(1) assms(3) l(2)]
    by (simp add: kshm_update_write_def Let_def split del: if_split cong: if_cong)
qed

lemma kshm_write_effect:
  assumes "kshm_inv s1" "xs \<noteq> []" "length xs \<le> u32_lim div 2" "dma_copies dma_copy"
    and q: "kshm_request_write (Some s) (length xs) = (Some s1, Some off)"
    and "off + length xs \<le> length (base s1)"
  shows "\<exists>s'. kshm_write dma_copy (Some s) xs = Some (Some s', u32_to_int (length xs)) \<and>
    base s' = mem_write (base s1) off xs \<and> rd s' = rd s1 \<and> same_ring s1 s' \<and>
    wt s' = (wt s1)[index s1 := next_pos (cfg_size s1) (cur_wt s1) (ceil32 (length xs))]"
proof -
  have n: "0 < length xs" using assms(2) by simp
  note u = kshm_update_write_effect [OF assms(1) n assms(3)]
  obtain mem xfer where d: "dma_copy (base s1) off xs = (mem, xfer)" "mem = mem_write (base s1) off xs" "xfer \<noteq> -1"
    using assms(4) unfolding dma_copies_def by (metis prod.collapse)
  show ?thesis
  proof (cases "length xs < 512 \<or> dma_ch s1 = -1")
    case True
    let ?t = "s1\<lparr>base := mem_write (base s1) off xs\<rparr>"
    let ?f = "if flushes_on_write ?t then cache_op (CacheFlush off (length xs)) ?t else ?t"
    have f: "index ?f = index s1" "cfg_size ?f = cfg_size s1" "wt ?f = wt s1"
        "base ?f = mem_write (base s1) off xs" "rd ?f = rd s1" "reserved ?f = reserved s1" by simp_all
    have "kshm_write dma_copy (Some s) xs =
        Some (fst (kshm_update_write (Some ?f) (length xs)), u32_to_int (length xs))"
      using True assms(2,6) by (simp add: kshm_write_def q Let_def)
    then show ?thesis using f unfolding u [OF f(1-3)] same_ring_def by simp
  next
    case False
    let ?t = "(cache_op (CacheInvalidate off (length xs)) (cache_op (CacheFlushSource (length xs)) s1))
      \<lparr>base := mem, dma_xfer_id := xfer, update_write_size := length xs\<rparr>"
    have f: "index ?t = index s1" "cfg_size ?t = cfg_size s1" "wt ?t = wt s1" "base ?t = mem"
        "rd ?t = rd s1" "reserved ?t = reserved s1" by simp_all
    have "kshm_write dma_copy (Some s) xs =
        Some (map_option (\<lambda>s. s\<lparr>dma_xfer_id := -1\<rparr>) (fst (kshm_update_write (Some ?t) (length xs))),
              u32_to_int (length xs))"
      using False assms(2,6) d(1,3) by (simp add: kshm_write_def q Let_def)
    then show ?thesis using f d(2) unfolding u [OF f(1-3)] same_ring_def by simp
  qed
qed

lemma kshm_write_refused:
  assumes "kshm_request_write (Some s) (length xs) = (Some s, None)"
  shows "kshm_write dma_copy (Some s) xs = Some (Some s, KSHM_FAIL)"
  using assms by (simp add: kshm_write_def Let_def)

lemma special_reset_effect:
  assumes "kshm_inv s"
  shows "kshm_inv (special_reset s) \<and> cur_rd (special_reset s) = 0 \<and> cur_wt (special_reset s) = 0 \<and>
    base (special_reset s) = base s \<and> cfg_size (special_reset s) = cfg_size s"
proof -
  have i: "u32_sub 1 (index s) < 2" using assms
    by (simp add: kshm_inv_def u32_sub_small u32_lim_def less_2_cases_iff) (auto simp: u32_sub_def u32_lim_def)
  moreover have "cfg_size s > 0" using assms by (auto simp: kshm_inv_def)
  ultimately show ?thesis using assms by (auto simp: kshm_inv_def special_reset_def Let_def)
qed

definition kshm_holds :: "kshm_handle \<Rightarrow> byte list list \<Rightarrow> bool" where
  "kshm_holds h ms \<longleftrightarrow> (case h of None \<Rightarrow> False
     | Some s \<Rightarrow> kshm_inv s \<and> ring_holds (base s) (cur_rd s) (cur_wt s) ms)"




lemma same_ring_inv:
  assumes "kshm_inv s" "same_ring s s'" "length (rd s') = 2" "length (wt s') = 2"
    and "length (base s') = length (base s)" "cur_rd s' < cfg_size s" "cur_wt s' < cfg_size s"
  shows "kshm_inv s'"
  using assms by (simp add: kshm_inv_def same_ring_def)




section \<open>Properties\<close>


definition demo_kshm :: kshm_info where
  "demo_kshm = \<lparr>rd = [32, 0], wt = [32, 0], reserved = [0, 0], index = 0, dma_xfer_id = -1,
     update_write_size = 0, wt_times = 0, rd_times = 0, base = replicate 64 0, cfg_size = 64,
     dma_ch = -1, data_direction = KSHM_TO_DEVICE, cache_ops = []\<rparr>"

lemma demo_kshm_inv: "kshm_inv demo_kshm"
  by (simp add: demo_kshm_def kshm_inv_def u32_lim_def)



text \<open>Property C26: no operation leaves the ring's memory. On a well-formed ring, for packets of any
  content and any size up to two gigabytes, in any order and whether or not the sizes read are
  those written, every copy stays inside the ring and the positions stay well-formed.\<close>

theorem kshm_memory_safe:
  assumes "kshm_inv s" "dma_copies dma_copy" "length xs \<le> u32_lim div 2" "n \<le> u32_lim div 2"
  shows "(\<exists>s' k. kshm_write dma_copy (Some s) xs = Some (Some s', k) \<and> kshm_inv s') \<and>
         (\<exists>s' k ys. kshm_read (Some s) n = Some (Some s', k, ys) \<and> kshm_inv s')"
proof
  have l: "length (base s) = cfg_size s" "cur_rd s < cfg_size s" "cur_wt s < cfg_size s"
      "index s < length (rd s)" using assms(1) by (auto simp: kshm_inv_def)
  let ?m = "length xs" and ?r = "ceil32 (length xs)"
  have step: "\<exists>s' k. kshm_write dma_copy (Some s) xs = Some (Some s', k) \<and> kshm_inv s'"
    if q: "kshm_request_write (Some s) ?m = (Some s1, Some off)" and x: "xs \<noteq> []"
      and s1: "kshm_inv s1" and off: "off + ?m \<le> length (base s1)"
      and p: "next_pos (cfg_size s1) (cur_wt s1) ?r < cfg_size s1"
    for s1 off
  proof -
    obtain s' where w: "kshm_write dma_copy (Some s) xs = Some (Some s', u32_to_int ?m)"
        "base s' = mem_write (base s1) off xs" "rd s' = rd s1" "same_ring s1 s'"
        "wt s' = (wt s1)[index s1 := next_pos (cfg_size s1) (cur_wt s1) ?r]"
      using kshm_write_effect [OF s1 x assms(3,2) q off] by blast
    have "kshm_inv s'"
      using w s1 off p
      by (intro same_ring_inv [OF s1 w(4)]) (auto simp: kshm_inv_def mem_simps same_ring_def)
    with w(1) show ?thesis by blast
  qed
  show "\<exists>s' k. kshm_write dma_copy (Some s) xs = Some (Some s', k) \<and> kshm_inv s'"
  proof (cases "xs = []")
    case True
    then show ?thesis using assms(1) by (simp add: kshm_write_def)
  next
    case x: False
    then have "0 < ?m" by simp
    then show ?thesis
    proof (rule kshm_request_write_cases [OF assms(1) _ assms(3)])
      assume "kshm_request_write (Some s) ?m = (Some s, None)"
      then show ?thesis using kshm_write_refused assms(1) by blast
    next
      assume a: "kshm_request_write (Some s) ?m = (Some s, Some (cur_wt s))" "writes_here s ?r"
      show ?thesis
        using a(2) l ceil32_ge [of ?m]
        by (intro step [OF a(1) x assms(1)]) (auto simp: writes_here_def next_pos_def)
    next
      assume a: "kshm_request_write (Some s) ?m = (Some s, Some 0)" "writes_at_start s ?r"
      show ?thesis
        using a(2) l ceil32_ge [of ?m]
        by (intro step [OF a(1) x assms(1)]) (auto simp: writes_at_start_def next_pos_def)
    next
      assume a: "kshm_request_write (Some s) ?m = (Some (special_reset s), Some 0)" "?r \<le> length (base s)"
      show ?thesis
        using special_reset_effect [OF assms(1)] a(2) l ceil32_ge [of ?m]
        by (intro step [OF a(1) x]) (auto simp: next_pos_def)
    qed
  qed
  show "\<exists>s' k ys. kshm_read (Some s) n = Some (Some s', k, ys) \<and> kshm_inv s'"
  proof (cases "0 < n \<and> ceil32 n \<le> avail_size s")
    case False
    then have "avail_size s < ROUNDUP32 n \<or> n = 0" using ROUNDUP32_ceil [OF assms(4)] by auto
    then show ?thesis using kshm_read_nothing assms(1) by blast
  next
    case True
    obtain s' where e: "kshm_read (Some s) n = Some (Some s', u32_to_int n, mem_read (base s)
          (if cur_rd s + ceil32 n > length (base s) then 0 else cur_rd s) n)"
        "base s' = base s" "wt s' = wt s" "same_ring s s'"
        "rd s' = (rd s)[index s := next_pos (length (base s)) (cur_rd s) (ceil32 n)]"
      using kshm_read_effect [OF assms(1) _ assms(4)] True by blast
    have "ceil32 n < cfg_size s \<or> cur_rd s + ceil32 n \<le> cfg_size s"
      using True kshm_inv_sizes(1) [OF assms(1)] l by (auto split: if_splits)
    then have "next_pos (length (base s)) (cur_rd s) (ceil32 n) < cfg_size s"
      using l by (auto simp: next_pos_def)
    then have "kshm_inv s'"
      using e assms(1) l
      by (intro same_ring_inv [OF assms(1) e(4)]) (auto simp: kshm_inv_def same_ring_def)
    with e(1) show ?thesis by blast
  qed
qed

theorem kshm_memory_safe_witness:
  "\<exists>s' k. kshm_write weak_dma_copy (Some demo_kshm) [1, 2, 3] = Some (Some s', k) \<and> kshm_inv s'"
  using kshm_memory_safe [OF demo_kshm_inv weak_dma_copies, of "[1, 2, 3]" 5] by (simp add: u32_lim_def)

text \<open>What \<open>kshm_get_free_size\<close> reports can be written. When nothing is reserved, a
  packet whose rounded size is at most the reported free size is placed at once, inside the ring
  and without discarding anything.\<close>

theorem kshm_get_free_size_writable:
  assumes "kshm_inv s" "reserved s ! index s = 0" "0 < n" "n \<le> u32_lim div 2"
    and "ceil32 n \<le> kshm_get_free_size (Some s)"
  shows "\<exists>off. kshm_request_write (Some s) n = (Some s, Some off) \<and> off + ceil32 n \<le> cfg_size s"
proof -
  have R: "ROUNDUP32 n = ceil32 n" using assms(4) ROUNDUP32_ceil by blast
  have l: "length (base s) = cfg_size s" "cur_rd s < cfg_size s" "cur_wt s < cfg_size s"
      "cfg_size s \<le> u32_lim div 2" using assms(1) by (auto simp: kshm_inv_def)
  note sz = kshm_inv_sizes(2,3) [OF assms(1)]
  have m: "0 < max (head_space s) (tail_space s)" "max (head_space s) (tail_space s) < u32_lim"
    using l by (auto simp: sz u32_lim_half u32_lim_def split: if_splits)
  then have r: "ceil32 n < max (head_space s) (tail_space s)"
    using assms(5) by (simp add: kshm_get_free_size_def u32_sub_small del: max_less_iff_conj)
  have "u32_add 0 (ceil32 n) = ceil32 n" using r m(2) by (intro trans [OF u32_add_small]) linarith+
  then have q: "kshm_request_write (Some s) n =
      (if tail_space s > ceil32 n then (Some s, Some (cur_wt s))
       else if tail_space s = ceil32 n \<and> head_space s > 0 then (Some s, Some (cur_wt s)) else (Some s, Some 0))"
    using assms(2,3) r by (auto simp: kshm_request_write_def R Let_def less_max_iff_disj)
  then show ?thesis using r l by (auto simp: sz split: if_splits)
qed

theorem kshm_get_free_size_writable_witness:
  "\<exists>off. kshm_request_write (Some (demo_kshm\<lparr>rd := [0, 0], wt := [0, 0]\<rparr>)) 20 =
      (Some (demo_kshm\<lparr>rd := [0, 0], wt := [0, 0]\<rparr>), Some off) \<and> off + 32 \<le> 64"
proof -
  have "kshm_inv (demo_kshm\<lparr>rd := [0, 0], wt := [0, 0]\<rparr>)"
    by (simp add: demo_kshm_def kshm_inv_def u32_lim_def)
  moreover have "kshm_get_free_size (Some (demo_kshm\<lparr>rd := [0, 0], wt := [0, 0]\<rparr>)) = 63"
    by (simp add: demo_kshm_def kshm_get_free_size_def head_space_def tail_space_def u32_sub_def u32_lim_def)
  moreover have "ceil32 20 = 32" by (simp add: ceil32_def)
  ultimately show ?thesis
    using kshm_get_free_size_writable [of "demo_kshm\<lparr>rd := [0, 0], wt := [0, 0]\<rparr>" 20]
    by (simp add: u32_lim_def) (simp add: demo_kshm_def)
qed

text \<open>Creation and reset give an empty, well-formed ring. With a heap that returns blocks of
  the requested size, creation returns a ring of that size that holds nothing, or \<open>NULL\<close> exactly
  when one of the three allocations failed; resetting any well-formed ring empties it.\<close>

theorem kshm_create_empty:
  assumes "\<forall>n mem. memalign n = Some mem \<longrightarrow> length mem = n" "0 < nbytes" "nbytes \<le> u32_lim div 2"
  shows "(case kshm_create_ext info_ok desc_ok memalign ch nbytes d of
      None \<Rightarrow> \<not> info_ok \<or> \<not> desc_ok \<or> memalign nbytes = None
    | Some s \<Rightarrow> info_ok \<and> desc_ok \<and> memalign nbytes \<noteq> None \<and> kshm_holds (Some s) [] \<and> cfg_size s = nbytes \<and>
        data_direction s = d \<and> kshm_get_valid_size (Some s) = 0) \<and>
    (\<forall>s. kshm_inv s \<longrightarrow> kshm_holds (fst (kshm_reset (Some s))) [])"
proof (intro conjI allI impI)
  show "case kshm_create_ext info_ok desc_ok memalign ch nbytes d of
      None \<Rightarrow> \<not> info_ok \<or> \<not> desc_ok \<or> memalign nbytes = None
    | Some s \<Rightarrow> info_ok \<and> desc_ok \<and> memalign nbytes \<noteq> None \<and> kshm_holds (Some s) [] \<and> cfg_size s = nbytes \<and>
        data_direction s = d \<and> kshm_get_valid_size (Some s) = 0"
    using assms
    by (cases "memalign nbytes")
      (auto simp: kshm_create_ext_def kshm_create_def kshm_set_data_direction_def kshm_holds_def kshm_inv_def
        ring_holds_empty kshm_get_valid_size_def avail_size_def u32_sub_def)
next
  fix s assume "kshm_inv s"
  then show "kshm_holds (fst (kshm_reset (Some s))) []"
    by (auto simp: kshm_reset_def kshm_holds_def kshm_inv_def ring_holds_empty)
qed

theorem kshm_create_empty_witness:
  "\<exists>s. kshm_create_ext True True (\<lambda>n. Some (replicate n 0)) (-1) 64 KSHM_NONE = Some s \<and> kshm_holds (Some s) []"
  using kshm_create_empty [where memalign = "\<lambda>n. Some (replicate n 0)" and nbytes = 64
      and info_ok = True and desc_ok = True and ch = "-1" and d = KSHM_NONE]
  by (auto simp: u32_lim_def split: option.splits)

section \<open>Corner cases of the placement\<close>

text \<open>
  A packet that fills the ring exactly is accepted when the empty ring's positions are not zero,
  and then lost: the write position wraps to the read position, which means empty.
\<close>

lemma kshm_exact_fit_lost:
  "case kshm_write weak_dma_copy (Some demo_kshm) (replicate 64 7) of
     Some (h, n) \<Rightarrow> n = 64 \<and> kshm_get_valid_size h = 0 | None \<Rightarrow> False"
  by (simp add: kshm_write_def kshm_request_write_def kshm_update_write_def kshm_special_reset_def
      special_reset_def demo_kshm_def ROUNDUP32_def u32_add_def u32_sub_def u32_lim_def Let_def
      head_space_def tail_space_def flushes_on_write_def kshm_get_valid_size_def avail_size_def
      u32_to_int_def)

text \<open>
  An empty ring of 96 bytes whose positions are both 64 refuses a packet of 64 bytes, and will
  refuse it for ever: neither end is larger than the packet, and the restart is taken only when
  both ends are smaller.
\<close>

lemma kshm_empty_ring_refuses:
  "let s = demo_kshm\<lparr>rd := [64, 0], wt := [64, 0], cfg_size := 96, base := replicate 96 0\<rparr>
   in kshm_get_valid_size (Some s) = 0 \<and> kshm_get_total_size (Some s) = 95 \<and>
      kshm_request_write (Some s) 64 = (Some s, None)"
  by (simp add: kshm_request_write_def demo_kshm_def ROUNDUP32_def u32_add_def u32_sub_def u32_lim_def
      Let_def head_space_def tail_space_def kshm_get_valid_size_def kshm_get_total_size_def avail_size_def)

text \<open>For a size within 31 of the top of \<open>size_t\<close> the rounding wraps to zero and the request succeeds.\<close>

lemma kshm_roundup_wraps:
  "ROUNDUP32 4294967295 = 0 \<and>
   kshm_request_write (Some demo_kshm) 4294967295 = (Some demo_kshm, Some 32)"
  by (simp add: kshm_request_write_def demo_kshm_def ROUNDUP32_def u32_add_def u32_sub_def u32_lim_def
      Let_def head_space_def tail_space_def)

text \<open>A \<open>NULL\<close> handle has almost four gigabytes of free space.\<close>

lemma kshm_null_free_size: "kshm_get_free_size None = 4294967295"
  by (simp add: kshm_get_free_size_def u32_lim_def)

end
