(* ===== verification/Elog.thy ===== *)
theory Elog
  imports Fifo
begin

text \<open>
  The output stages of the logger (\<open>lib/easylogger\<close>): the ring of the asynchronous mode
  (\<open>elog_async.c\<close>, with \<open>elog_cpyln\<close> of \<open>elog_utils.c\<close>) and the buffered mode (\<open>elog_buf.c\<close>).
  The ring is shown to be a byte stream in line mode and a greedy one otherwise, the output
  thread to terminate and to write out all it was given, and the buffered mode to lose nothing.
\<close>

section \<open>Copying up to the end of a line\<close>

definition ELOG_NEWLINE_SIGN :: "byte list" where
  "ELOG_NEWLINE_SIGN = [10]"

text \<open>The copied bytes; the loop stops behind the newline sign or when the given bytes run out.\<close>

fun cpyln_loop :: "byte list \<Rightarrow> byte list \<Rightarrow> byte list" where
  "cpyln_loop line [] = line"
| "cpyln_loop line (c # log) =
     (let line = line @ [c]; n = length ELOG_NEWLINE_SIGN
      in if length line \<ge> n \<and> drop (length line - n) line = ELOG_NEWLINE_SIGN then line
         else cpyln_loop line log)"

definition elog_cpyln :: "byte list \<Rightarrow> byte list" where
  "elog_cpyln log = cpyln_loop [] log"

lemma cpyln_loop_takeWhile:
  "cpyln_loop line log =
     line @ takeWhile (\<lambda>c. c \<noteq> 10) log @ (if 10 \<in> set log then [10] else [])"
  by (induction line log rule: cpyln_loop.induct)
    (auto simp: ELOG_NEWLINE_SIGN_def Let_def)

lemma elog_cpyln_line:
  "elog_cpyln log = takeWhile (\<lambda>c. c \<noteq> 10) log @ (if 10 \<in> set log then [10] else [])"
  by (simp add: elog_cpyln_def cpyln_loop_takeWhile)

lemma elog_cpyln_prefix: "\<exists>rest. log = elog_cpyln log @ rest"
proof (cases "10 \<in> set log")
  case True
  then obtain ys zs where "log = ys @ 10 # zs" "10 \<notin> set ys" by (meson split_list_first)
  moreover from this have "takeWhile (\<lambda>c. c \<noteq> 10) (ys @ 10 # zs) = ys"
    by (subst takeWhile_append2) auto
  ultimately show ?thesis by (simp add: elog_cpyln_line)
qed (simp add: elog_cpyln_line, metis takeWhile_dropWhile_id)

lemma elog_cpyln_take: "elog_cpyln log = take (length (elog_cpyln log)) log"
  using elog_cpyln_prefix [of log] by (metis append_eq_conv_conj)

lemma elog_cpyln_len: "length (elog_cpyln log) \<le> length log"
  using elog_cpyln_prefix [of log] by (metis le_add1 length_append)

lemma elog_cpyln_Nil [simp]: "elog_cpyln log = [] \<longleftrightarrow> log = []"
  by (cases log) (auto simp: elog_cpyln_line)

section \<open>The asynchronous ring\<close>

text \<open>
  The static variables of \<open>elog_async.c\<close>. \<open>log_buf\<close> is the static array, so \<open>OUTPUT_BUF_SIZE\<close> is
  its length; \<open>port_output\<close> records the calls of \<open>elog_port_output\<close>, \<open>output_notice\<close> is the
  value of the semaphore.
\<close>

record elog_async =
  log_buf :: "byte list"
  write_index :: nat
  read_index :: nat
  buf_is_full :: bool
  buf_is_empty :: bool
  is_enabled :: bool
  init_ok :: bool
  output_notice :: nat
  port_output :: "byte list list"

abbreviation OUTPUT_BUF_SIZE :: "elog_async \<Rightarrow> nat" where
  "OUTPUT_BUF_SIZE s \<equiv> length (log_buf s)"

definition elog_async_get_buf_used :: "elog_async \<Rightarrow> nat" where
  "elog_async_get_buf_used s =
     (if write_index s > read_index s then u32_sub (write_index s) (read_index s)
      else if \<not> buf_is_full s \<and> \<not> buf_is_empty s
           then u32_sub (OUTPUT_BUF_SIZE s) (u32_sub (read_index s) (write_index s))
      else if buf_is_full s then OUTPUT_BUF_SIZE s else 0)"

definition async_get_buf_space :: "elog_async \<Rightarrow> nat" where
  "async_get_buf_space s = u32_sub (OUTPUT_BUF_SIZE s) (elog_async_get_buf_used s)"

definition async_put_log :: "elog_async \<Rightarrow> byte list \<Rightarrow> elog_async \<times> nat" where
  "async_put_log s log =
     (let space = async_get_buf_space s; n = length log; len = OUTPUT_BUF_SIZE s; w = write_index s in
      if space = 0 then (s, 0)
      else
        (let full = (space \<le> n \<or> buf_is_full s);
             n = (if space \<le> n then space else n);
             log = take n log;
             s = (if u32_add w n < len
                  then s\<lparr>log_buf := mem_write (log_buf s) w log, write_index := u32_add w n\<rparr>
                  else s\<lparr>log_buf := mem_write (mem_write (log_buf s) w (take (len - w) log)) 0
                           (drop (len - w) log),
                         write_index := u32_add w (u32_sub n len)\<rparr>)
         in (s\<lparr>buf_is_full := full, buf_is_empty := False\<rparr>, n)))"

definition elog_async_get_line_log :: "elog_async \<Rightarrow> nat \<Rightarrow> elog_async \<times> byte list" where
  "elog_async_get_line_log s n =
     (let used = elog_async_get_buf_used s; len = OUTPUT_BUF_SIZE s; r = read_index s in
      if used = 0 \<or> n = 0 then (s, [])
      else
        (let n = (if used \<le> n then used else n);
             (log, r') =
               (if u32_add r n < len then
                  (let log = elog_cpyln (mem_read (log_buf s) r n) in (log, u32_add r (length log)))
                else
                  (let log = elog_cpyln (mem_read (log_buf s) r (len - r)) in
                   if length log = len - r then
                     (let log = log @ elog_cpyln (mem_read (log_buf s) 0 (n - length log))
                      in (log, u32_add r (u32_sub (length log) len)))
                   else (log, u32_add r (length log))))
         in (s\<lparr>read_index := r',
               buf_is_empty := (if used = length log then True else buf_is_empty s),
               buf_is_full := (if length log \<noteq> 0 then False else buf_is_full s)\<rparr>, log)))"

text \<open>The variant without line output.\<close>

definition elog_async_get_log :: "elog_async \<Rightarrow> nat \<Rightarrow> elog_async \<times> byte list" where
  "elog_async_get_log s n =
     (let used = elog_async_get_buf_used s; len = OUTPUT_BUF_SIZE s; r = read_index s in
      if used = 0 \<or> n = 0 then (s, [])
      else
        (let empty = (used \<le> n \<or> buf_is_empty s); n = (if used \<le> n then used else n);
             (log, r') =
               (if u32_add r n < len then (mem_read (log_buf s) r n, u32_add r n)
                else (mem_read (log_buf s) r (len - r) @ mem_read (log_buf s) 0 (n - (len - r)),
                      u32_add r (u32_sub n len)))
         in (s\<lparr>read_index := r', buf_is_empty := empty, buf_is_full := False\<rparr>, log)))"

text \<open>\<open>OUTPUT_LVL\<close> is \<open>ELOG_LVL_ASSERT\<close>, which is zero.\<close>

definition OUTPUT_LVL :: nat where "OUTPUT_LVL = 0"

definition elog_async_output :: "elog_async \<Rightarrow> nat \<Rightarrow> byte list \<Rightarrow> elog_async" where
  "elog_async_output s level log =
     (if is_enabled s then
        (if level \<ge> OUTPUT_LVL then
           (case async_put_log s log of
              (s, put_size) \<Rightarrow> if put_size > 0 then s\<lparr>output_notice := output_notice s + 1\<rparr> else s)
         else s\<lparr>port_output := port_output s @ [log]\<rparr>)
      else s\<lparr>port_output := port_output s @ [log]\<rparr>)"

text \<open>
  One round of the output thread: take a notice, then get and output lines until there are
  none. The inner loop has no bound of its own; that it ends is proved.
\<close>

partial_function (option) async_poll :: "nat \<Rightarrow> elog_async \<Rightarrow> elog_async option" where
  "async_poll bufsize s =
     (case elog_async_get_line_log s bufsize of
        (s, log) \<Rightarrow>
          if log \<noteq> [] then async_poll bufsize (s\<lparr>port_output := port_output s @ [log]\<rparr>) else Some s)"

definition async_output :: "nat \<Rightarrow> elog_async \<Rightarrow> elog_async option" where
  "async_output bufsize s =
     (if output_notice s = 0 then Some s
      else async_poll bufsize (s\<lparr>output_notice := output_notice s - 1\<rparr>))"

definition elog_async_enabled :: "bool \<Rightarrow> elog_async \<Rightarrow> elog_async" where
  "elog_async_enabled b s = s\<lparr>is_enabled := b\<rparr>"

definition elog_async_init :: "elog_async \<Rightarrow> elog_async" where
  "elog_async_init s = (if init_ok s then s else s\<lparr>output_notice := 0, init_ok := True\<rparr>)"

section \<open>The buffered mode\<close>

record elog_buf =
  bbuf :: "byte list"
  buf_write_size :: nat
  buf_enabled :: bool
  buf_port_output :: "byte list list"

abbreviation ELOG_BUF_OUTPUT_BUF_SIZE :: "elog_buf \<Rightarrow> nat" where
  "ELOG_BUF_OUTPUT_BUF_SIZE s \<equiv> length (bbuf s)"

partial_function (option) buf_output_loop :: "elog_buf \<Rightarrow> byte list \<Rightarrow> elog_buf option" where
  "buf_output_loop s log =
     (if u32_add (buf_write_size s) (length log) > ELOG_BUF_OUTPUT_BUF_SIZE s then
        (let k = u32_sub (ELOG_BUF_OUTPUT_BUF_SIZE s) (buf_write_size s);
             buf = mem_write (bbuf s) (buf_write_size s) (take k log);
             s = s\<lparr>bbuf := buf, buf_port_output := buf_port_output s @ [take (buf_write_size s + k) buf],
                   buf_write_size := 0\<rparr>
         in buf_output_loop s (drop k log))
      else Some (s\<lparr>bbuf := mem_write (bbuf s) (buf_write_size s) log,
                   buf_write_size := u32_add (buf_write_size s) (length log)\<rparr>))"

definition elog_buf_output :: "elog_buf \<Rightarrow> byte list \<Rightarrow> elog_buf option" where
  "elog_buf_output s log =
     (if \<not> buf_enabled s then Some (s\<lparr>buf_port_output := buf_port_output s @ [log]\<rparr>)
      else buf_output_loop s log)"

definition elog_flush :: "elog_buf \<Rightarrow> elog_buf" where
  "elog_flush s = s\<lparr>buf_port_output := buf_port_output s @ [take (buf_write_size s) (bbuf s)],
     buf_write_size := 0\<rparr>"

definition elog_buf_enabled :: "bool \<Rightarrow> elog_buf \<Rightarrow> elog_buf" where
  "elog_buf_enabled b s = s\<lparr>buf_enabled := b\<rparr>"

section \<open>The ring invariant and its content\<close>

definition el_inv :: "elog_async \<Rightarrow> bool" where
  "el_inv s \<longleftrightarrow> 0 < OUTPUT_BUF_SIZE s \<and> OUTPUT_BUF_SIZE s \<le> u32_lim div 2 \<and>
     write_index s < OUTPUT_BUF_SIZE s \<and> read_index s < OUTPUT_BUF_SIZE s \<and>
     (if write_index s = read_index s then buf_is_full s = (\<not> buf_is_empty s)
      else \<not> buf_is_full s \<and> \<not> buf_is_empty s)"

definition el_used :: "elog_async \<Rightarrow> nat" where
  "el_used s =
     (if write_index s > read_index s then write_index s - read_index s
      else if buf_is_empty s then 0 else OUTPUT_BUF_SIZE s - (read_index s - write_index s))"

definition el_content :: "elog_async \<Rightarrow> byte list" where
  "el_content s = ring_seg (log_buf s) (read_index s) (el_used s)"

lemma length_el_content [simp]: "length (el_content s) = el_used s"
  by (simp add: el_content_def)

lemma el_used_le: "el_inv s \<Longrightarrow> el_used s \<le> OUTPUT_BUF_SIZE s"
  by (auto simp: el_inv_def el_used_def)

lemma get_buf_used: "el_inv s \<Longrightarrow> elog_async_get_buf_used s = el_used s"
  by (auto simp: el_inv_def el_used_def elog_async_get_buf_used_def u32_simps u32_lim_def split: if_splits)

lemma get_buf_space: "el_inv s \<Longrightarrow> async_get_buf_space s = OUTPUT_BUF_SIZE s - el_used s"
  using el_used_le [of s]
  by (simp add: async_get_buf_space_def get_buf_used) (simp add: el_inv_def u32_sub_small u32_lim_def)

lemma el_write_adv: "el_inv s \<Longrightarrow> write_index s = ring_adv (OUTPUT_BUF_SIZE s) (read_index s) (el_used s)"
  by (auto simp: el_inv_def el_used_def ring_adv_def split: if_splits)

definition el_append :: "elog_async \<Rightarrow> byte list \<Rightarrow> elog_async" where
  "el_append s xs = s\<lparr>log_buf := ring_put (log_buf s) (write_index s) xs,
     write_index := ring_adv (OUTPUT_BUF_SIZE s) (write_index s) (length xs),
     buf_is_full := (el_used s + length xs = OUTPUT_BUF_SIZE s), buf_is_empty := False\<rparr>"

definition el_consume :: "elog_async \<Rightarrow> nat \<Rightarrow> elog_async" where
  "el_consume s k = s\<lparr>read_index := ring_adv (OUTPUT_BUF_SIZE s) (read_index s) k,
     buf_is_empty := (if el_used s = k then True else buf_is_empty s),
     buf_is_full := (if k \<noteq> 0 then False else buf_is_full s)\<rparr>"

lemma el_append_ok:
  assumes "el_inv s" "xs \<noteq> []" "el_used s + length xs \<le> OUTPUT_BUF_SIZE s"
  shows "el_inv (el_append s xs)" "OUTPUT_BUF_SIZE (el_append s xs) = OUTPUT_BUF_SIZE s"
    and "el_content (el_append s xs) = el_content s @ xs"
proof -
  have xs: "length xs \<le> OUTPUT_BUF_SIZE s" "0 < length xs" using assms by simp_all
  have b: "write_index s < OUTPUT_BUF_SIZE s" "read_index s < OUTPUT_BUF_SIZE s"
    using assms(1) by (simp_all add: el_inv_def)
  show len: "OUTPUT_BUF_SIZE (el_append s xs) = OUTPUT_BUF_SIZE s"
    using b xs by (simp add: el_append_def)
  have "write_index (el_append s xs) = read_index s \<longleftrightarrow> el_used s + length xs = OUTPUT_BUF_SIZE s"
    using assms b xs by (auto simp: el_append_def el_used_def el_inv_def ring_adv_def split: if_splits)
  then show "el_inv (el_append s xs)"
    using assms(1) b xs len by (auto simp: el_inv_def el_append_def)
  have "el_used (el_append s xs) = el_used s + length xs"
    using assms b xs by (auto simp: el_append_def el_used_def el_inv_def ring_adv_def split: if_splits)
  then show "el_content (el_append s xs) = el_content s @ xs"
    using ring_seg_put [of "read_index s" "log_buf s" "el_used s" xs] assms b el_write_adv [OF assms(1)]
    by (simp add: el_content_def) (simp add: el_append_def)
qed

lemma el_consume_ok:
  assumes "el_inv s" "k \<le> el_used s"
  shows "el_inv (el_consume s k)" "OUTPUT_BUF_SIZE (el_consume s k) = OUTPUT_BUF_SIZE s"
    and "el_content (el_consume s k) = drop k (el_content s)"
proof -
  have k: "k \<le> OUTPUT_BUF_SIZE s" using assms el_used_le [of s] by simp
  have b: "write_index s < OUTPUT_BUF_SIZE s" "read_index s < OUTPUT_BUF_SIZE s"
    using assms(1) by (simp_all add: el_inv_def)
  show "OUTPUT_BUF_SIZE (el_consume s k) = OUTPUT_BUF_SIZE s" by (simp add: el_consume_def)
  show "el_inv (el_consume s k)"
    using assms b k by (auto simp: el_inv_def el_consume_def el_used_def ring_adv_def split: if_splits)
  have "el_used (el_consume s k) = el_used s - k"
    using assms b k by (auto simp: el_inv_def el_consume_def el_used_def ring_adv_def split: if_splits)
  then show "el_content (el_consume s k) = drop k (el_content s)"
    using drop_ring_seg_adv [OF assms(2) b(2) k] by (simp add: el_content_def) (simp add: el_consume_def)
qed

text \<open>What the operations do.\<close>

lemma async_put_log_effect:
  assumes "el_inv s" "xs \<noteq> []"
  defines "k \<equiv> min (length xs) (OUTPUT_BUF_SIZE s - el_used s)"
  shows "async_put_log s xs = (if k = 0 then s else el_append s (take k xs), k)"
proof -
  have b: "write_index s < OUTPUT_BUF_SIZE s" "OUTPUT_BUF_SIZE s \<le> u32_lim div 2"
    using assms(1) by (simp_all add: el_inv_def)
  have k: "k \<le> OUTPUT_BUF_SIZE s" "length (take k xs) = k" by (auto simp: k_def)
  have a: "u32_add (write_index s) k = write_index s + k"
    using b k by (intro u32_add_small) (simp add: u32_lim_def)
  have a2: "u32_add (write_index s) (u32_sub k (OUTPUT_BUF_SIZE s)) = write_index s + k - OUTPUT_BUF_SIZE s"
    if "\<not> write_index s + k < OUTPUT_BUF_SIZE s"
    using b k that by (intro u32_add_diff_small) (auto simp: u32_lim_def)
  show ?thesis
  proof (cases "k = 0")
    case True
    then have "OUTPUT_BUF_SIZE s - el_used s = 0" using assms(2) unfolding k_def min_def by (metis length_0_conv)
    then show ?thesis using True get_buf_space [OF assms(1)] by (simp add: async_put_log_def)
  next
    case False
    then have sp: "OUTPUT_BUF_SIZE s - el_used s \<noteq> 0" by (auto simp: k_def)
    have kk: "(if OUTPUT_BUF_SIZE s - el_used s \<le> length xs then OUTPUT_BUF_SIZE s - el_used s
        else length xs) = k" by (simp add: k_def)
    have nf: "\<not> buf_is_full s" using sp assms(1) by (auto simp: el_used_def el_inv_def split: if_splits)
    have f: "(OUTPUT_BUF_SIZE s - el_used s \<le> length xs) = (el_used s + k = OUTPUT_BUF_SIZE s)"
      using sp el_used_le [OF assms(1)] by (auto simp: k_def)
    show ?thesis
      unfolding async_put_log_def Let_def get_buf_space [OF assms(1)] kk
      using sp False a a2 k f nf
      by (auto simp: el_append_def ring_put_def Let_def ring_adv_def mem_simps min_def)
  qed
qed

lemma el_seg_pieces:
  assumes "el_inv s" "n \<le> el_used s"
  shows "read_index s + n < OUTPUT_BUF_SIZE s \<Longrightarrow> mem_read (log_buf s) (read_index s) n = take n (el_content s)"
    and "OUTPUT_BUF_SIZE s \<le> read_index s + n \<Longrightarrow>
      mem_read (log_buf s) (read_index s) (OUTPUT_BUF_SIZE s - read_index s) =
        take (OUTPUT_BUF_SIZE s - read_index s) (el_content s)"
    and "OUTPUT_BUF_SIZE s \<le> read_index s + n \<Longrightarrow>
      mem_read (log_buf s) 0 (n - (OUTPUT_BUF_SIZE s - read_index s)) =
        drop (OUTPUT_BUF_SIZE s - read_index s) (take n (el_content s))"
proof -
  have b: "read_index s < length (log_buf s)" "n \<le> length (log_buf s)"
    using assms el_used_le [OF assms(1)] by (simp_all add: el_inv_def)
  have t: "take n (el_content s) = ring_seg (log_buf s) (read_index s) n"
    using assms(2) by (simp add: el_content_def take_ring_seg)
  note r = ring_seg_two_reads [OF b]
  show "mem_read (log_buf s) (read_index s) n = take n (el_content s)" if "read_index s + n < OUTPUT_BUF_SIZE s"
  proof -
    have "min (length (log_buf s) - read_index s) n = n" using that by simp
    then show ?thesis unfolding t using r unfolding \<open>min _ n = n\<close> by (simp add: mem_read_0)
  qed
  show "mem_read (log_buf s) (read_index s) (OUTPUT_BUF_SIZE s - read_index s) =
        take (OUTPUT_BUF_SIZE s - read_index s) (el_content s)"
    and "mem_read (log_buf s) 0 (n - (OUTPUT_BUF_SIZE s - read_index s)) =
        drop (OUTPUT_BUF_SIZE s - read_index s) (take n (el_content s))"
    if l: "OUTPUT_BUF_SIZE s \<le> read_index s + n"
  proof -
    let ?k = "OUTPUT_BUF_SIZE s - read_index s"
    have k: "min ?k n = ?k" "?k \<le> n" using l by auto
    have len: "length (mem_read (log_buf s) (read_index s) ?k) = ?k" using b by (simp add: mem_simps)
    have e: "take n (el_content s) = mem_read (log_buf s) (read_index s) ?k @ mem_read (log_buf s) 0 (n - ?k)"
      unfolding t using r k(1) by simp
    have "take ?k (take n (el_content s)) = mem_read (log_buf s) (read_index s) ?k"
      unfolding e using len by simp
    then show "mem_read (log_buf s) (read_index s) ?k = take ?k (el_content s)"
      using k(2) by (simp add: min_absorb1)
    show "mem_read (log_buf s) 0 (n - ?k) = drop ?k (take n (el_content s))"
      unfolding e using len by simp
  qed
qed

text \<open>
  What a copied line is: a prefix with no newline sign before its end, which ends with one
  unless it is all there is.
\<close>

definition line_of :: "byte list \<Rightarrow> nat \<Rightarrow> bool" where
  "line_of xs j \<longleftrightarrow> j \<le> length xs \<and> (xs \<noteq> [] \<longrightarrow> 0 < j) \<and> (\<forall>i. Suc i < j \<longrightarrow> xs ! i \<noteq> 10) \<and>
     (j < length xs \<longrightarrow> xs ! (j - 1) = 10)"

lemma elog_cpyln_spec: "\<exists>j. elog_cpyln xs = take j xs \<and> line_of xs j"
proof (cases "10 \<in> set xs")
  case True
  then obtain ys zs where xs: "xs = ys @ 10 # zs" "10 \<notin> set ys" by (meson split_list_first)
  moreover from this have "takeWhile (\<lambda>c. c \<noteq> 10) (ys @ 10 # zs) = ys"
    by (subst takeWhile_append2) auto
  ultimately have "elog_cpyln xs = take (Suc (length ys)) xs \<and> line_of xs (Suc (length ys))"
    by (auto simp: elog_cpyln_line line_of_def nth_append) (metis nth_mem)
  then show ?thesis by blast
next
  case False
  then have "takeWhile (\<lambda>c. c \<noteq> 10) xs = xs" by (auto simp: takeWhile_eq_all_conv)
  with False have "elog_cpyln xs = take (length xs) xs \<and> line_of xs (length xs)"
    by (auto simp: elog_cpyln_line line_of_def)
  then show ?thesis by blast
qed

text \<open>A read of the ring: like a line, but the line structure is lost at the end of the array.\<close>

definition ring_line_of :: "elog_async \<Rightarrow> nat \<Rightarrow> nat \<Rightarrow> bool" where
  "ring_line_of s n k \<longleftrightarrow> k \<le> min n (el_used s) \<and> (0 < n \<and> 0 < el_used s \<longrightarrow> 0 < k) \<and>
     (\<forall>i. Suc i < k \<longrightarrow> el_content s ! i = 10 \<longrightarrow> read_index s + Suc i = OUTPUT_BUF_SIZE s) \<and>
     (k < min n (el_used s) \<longrightarrow> el_content s ! (k - 1) = 10)"

lemma elog_async_get_line_log_effect:
  assumes "el_inv s"
  shows "\<exists>k. elog_async_get_line_log s n = (el_consume s k, take k (el_content s)) \<and> ring_line_of s n k"
proof (cases "el_used s = 0 \<or> n = 0")
  case True
  have "el_consume s 0 = s"
    using True assms by (auto simp: el_consume_def ring_adv_def el_used_def el_inv_def split: if_splits)
  then show ?thesis using True get_buf_used [OF assms]
    by (intro exI [of _ 0]) (auto simp: elog_async_get_line_log_def ring_line_of_def)
next
  case False
  let ?len = "OUTPUT_BUF_SIZE s" and ?r = "read_index s"
  let ?m = "min n (el_used s)" and ?k = "OUTPUT_BUF_SIZE s - read_index s"
  have b: "?r < ?len" "?len \<le> u32_lim div 2" using assms by (simp_all add: el_inv_def)
  have m: "?m \<le> el_used s" "?m \<le> ?len" "0 < ?m" using el_used_le [OF assms] False by auto
  note seg = el_seg_pieces [OF assms m(1)]
  have a: "u32_add ?r j = ?r + j" if "j \<le> ?len" for j
    using that b by (intro u32_add_small) (simp add: u32_lim_def)
  have a2: "u32_add ?r (u32_sub j ?len) = ?r + j - ?len" if "j \<le> ?len" "?len \<le> ?r + j" for j
    using that b by (intro u32_add_diff_small) (auto simp: u32_lim_def)
  have g: "elog_async_get_line_log s n = (el_consume s j, take j (el_content s))"
    if "(if u32_add ?r ?m < ?len then (let log = elog_cpyln (mem_read (log_buf s) ?r ?m) in (log, u32_add ?r (length log)))
         else (let log = elog_cpyln (mem_read (log_buf s) ?r ?k) in
           if length log = ?k then
             (let log = log @ elog_cpyln (mem_read (log_buf s) 0 (?m - length log))
              in (log, u32_add ?r (u32_sub (length log) ?len)))
           else (log, u32_add ?r (length log)))) = (take j (el_content s), ring_adv ?len ?r j)" "j \<le> ?m" for j
  proof -
    have mm: "(if el_used s \<le> n then el_used s else n) = ?m" by (simp add: min_def)
    have "length (take j (el_content s)) = j" using that(2) by simp
    then show ?thesis
      using False unfolding elog_async_get_line_log_def get_buf_used [OF assms] Let_def mm
        that(1) [unfolded Let_def]
      by (simp add: el_consume_def del: length_0_conv length_take length_greater_0_conv take_eq_Nil)
  qed
  show ?thesis
  proof (cases "?r + ?m < ?len")
    case True
    obtain j where j: "elog_cpyln (take ?m (el_content s)) = take j (take ?m (el_content s))"
        "line_of (take ?m (el_content s)) j" using elog_cpyln_spec by blast
    have l: "length (take ?m (el_content s)) = ?m" by simp
    have jm: "j \<le> ?m" "0 < j" using j(2) l m(3) unfolding line_of_def by (metis, metis length_greater_0_conv)
    have t: "take j (take ?m (el_content s)) = take j (el_content s)" using jm(1) by (simp add: min_absorb1)
    have "elog_async_get_line_log s n = (el_consume s j, take j (el_content s))"
      using True a [OF m(2)] seg(1) [OF True] j(1) t jm a [of j] m(2)
      by (intro g) (auto simp: Let_def ring_adv_def)
    moreover have "ring_line_of s n j"
    proof -
      have "take ?m (el_content s) ! (j - 1) = el_content s ! (j - 1)" if "j < ?m"
        using that by (intro nth_take) linarith
      then show ?thesis
        using j(2) jm m(3) unfolding line_of_def ring_line_of_def l by auto
    qed
    ultimately show ?thesis by blast
  next
    case wrap: False
    then have w: "?len \<le> ?r + ?m" by simp
    have k: "?k \<le> ?m" "0 < ?k" using w b by linarith+
    obtain j where j: "elog_cpyln (take ?k (el_content s)) = take j (take ?k (el_content s))"
        "line_of (take ?k (el_content s)) j" using elog_cpyln_spec by blast
    have l: "length (take ?k (el_content s)) = ?k" using k m by simp
    have jk: "j \<le> ?k" "0 < j" using j(2) l k(2) unfolding line_of_def by (metis, metis length_greater_0_conv)
    have t: "take j (take ?k (el_content s)) = take j (el_content s)" using jk(1) by (simp add: min_absorb1)
    have lj: "length (take j (el_content s)) = j" using jk k m by simp
    show ?thesis
    proof (cases "j = ?k")
      case False
      have "elog_async_get_line_log s n = (el_consume s j, take j (el_content s))"
        using wrap a [OF m(2)] seg(2) [OF w] j(1) t jk a [of j] m(2) k False lj
        by (intro g) (auto simp: Let_def ring_adv_def)
      moreover have "ring_line_of s n j"
        using j(2) jk k m(3) False unfolding line_of_def ring_line_of_def l by auto
      ultimately show ?thesis by blast
    next
      case True
      let ?ys = "drop ?k (take ?m (el_content s))"
      obtain i where i: "elog_cpyln ?ys = take i ?ys" "line_of ?ys i" using elog_cpyln_spec by blast
      have ly: "length ?ys = ?m - ?k" using m by simp
      have im: "i \<le> ?m - ?k" "?m - ?k > 0 \<Longrightarrow> 0 < i"
        using i(2) ly unfolding line_of_def by (metis, metis length_greater_0_conv)
      have t2: "take ?k (el_content s) @ take i ?ys = take (?k + i) (el_content s)"
        by (simp only: take_add drop_take take_take min_absorb1 [OF im(1)])
      have yn: "?ys ! p = el_content s ! (?k + p)" if "p < ?m - ?k" for p
      proof -
        have "?ys ! p = take ?m (el_content s) ! (?k + p)" using m k by (intro nth_drop) simp
        also have "\<dots> = el_content s ! (?k + p)" using that by (intro nth_take) linarith
        finally show ?thesis .
      qed
      have c1: "elog_cpyln (mem_read (log_buf s) ?r ?k) = take ?k (el_content s)"
        using seg(2) [OF w] j(1) t True by simp
      have c2: "elog_cpyln (mem_read (log_buf s) 0 (?m - ?k)) = take i ?ys"
        using seg(3) [OF w] i(1) by simp
      have lk: "length (take ?k (el_content s)) = ?k" by (rule l)
      have li: "length (take (?k + i) (el_content s)) = ?k + i"
        using im(1) k m(1) by (simp only: length_take length_el_content) linarith
      have ki: "?k + i \<le> ?len" "?len \<le> ?r + (?k + i)" using im(1) k m(2) b by linarith+
      have ad: "u32_add ?r (u32_sub (?k + i) ?len) = ring_adv ?len ?r (?k + i)"
        using a2 [OF ki] ki(2) by (simp add: ring_adv_def)
      have nw: "\<not> u32_add ?r ?m < ?len" using wrap a [OF m(2)] by simp
      have "elog_async_get_line_log s n = (el_consume s (?k + i), take (?k + i) (el_content s))"
      proof (rule g)
        show "?k + i \<le> ?m" using im(1) k by linarith
      qed (simp only: Let_def nw if_False c1 lk c2 t2 li ad if_True refl)
      moreover have "ring_line_of s n (?k + i)"
        unfolding ring_line_of_def
      proof (intro conjI allI impI)
        show "?k + i \<le> ?m" "0 < ?k + i" using im k by auto
        fix q assume q: "Suc q < ?k + i" "el_content s ! q = 10"
        show "?r + Suc q = ?len"
        proof (cases "Suc q < ?k")
          case True
          then show ?thesis using j(2) q(2) \<open>j = ?k\<close> unfolding line_of_def by auto
        next
          case ge: False
          show ?thesis
          proof (rule ccontr)
            assume "?r + Suc q \<noteq> ?len"
            then have "?k \<le> q" using ge by linarith
            then have "Suc (q - ?k) < i" "q - ?k < ?m - ?k" "?k + (q - ?k) = q" using q(1) im(1) by linarith+
            then show False using i(2) q(2) yn [of "q - ?k"] unfolding line_of_def by metis
          qed
        qed
      next
        assume "?k + i < ?m"
        then have i0: "i < length ?ys" "0 < i" using ly im(2) by linarith+
        then have "?ys ! (i - 1) = 10" using i(2) unfolding line_of_def by blast
        moreover have "i - 1 < ?m - ?k" "?k + (i - 1) = ?k + i - 1" using i0 ly by linarith+
        ultimately show "el_content s ! (?k + i - 1) = 10" using yn [of "i - 1"] by metis
      qed
      ultimately show ?thesis by blast
    qed
  qed
qed

lemma elog_async_get_log_effect:
  fixes n :: nat
  assumes "el_inv s"
  defines "k \<equiv> min n (el_used s)"
  shows "elog_async_get_log s n = (el_consume s k, take k (el_content s))"
proof (cases "k = 0")
  case True
  have "el_consume s 0 = s"
    using assms(1) by (auto simp: el_consume_def ring_adv_def el_used_def el_inv_def split: if_splits)
  moreover have "el_used s = 0 \<or> n = 0" using True by (auto simp: k_def)
  ultimately show ?thesis using True get_buf_used [OF assms(1)]
    by (auto simp: elog_async_get_log_def)
next
  case False
  let ?len = "OUTPUT_BUF_SIZE s" and ?r = "read_index s"
  have b: "?r < ?len" "?len \<le> u32_lim div 2" using assms(1) by (simp_all add: el_inv_def)
  have k: "k \<le> el_used s" "k \<le> ?len" "0 < k" "el_used s \<noteq> 0" "n \<noteq> 0"
    using el_used_le [OF assms(1)] False by (auto simp: k_def)
  note seg = el_seg_pieces [OF assms(1) k(1)]
  have a: "u32_add ?r k = ?r + k" using k b by (intro u32_add_small) (simp add: u32_lim_def)
  have a2: "u32_add ?r (u32_sub k ?len) = ?r + k - ?len" if "?len \<le> ?r + k"
    using that b k by (intro u32_add_diff_small) (auto simp: u32_lim_def)
  have mm: "(if el_used s \<le> n then el_used s else n) = k" by (simp add: k_def min_def)
  have e: "(el_used s \<le> n \<or> buf_is_empty s) = (if el_used s = k then True else buf_is_empty s)"
    by (auto simp: k_def)
  let ?two = "mem_read (log_buf s) ?r (?len - ?r) @ mem_read (log_buf s) 0 (k - (?len - ?r))"
  have two: "?two = take k (el_content s)" if "\<not> ?r + k < ?len"
    using that seg(2,3) by (simp only: not_less) (metis append_take_drop_id le_diff_conv add.commute min_absorb1 take_take)
  have p: "(if u32_add ?r k < ?len then (mem_read (log_buf s) ?r k, u32_add ?r k)
      else (?two, u32_add ?r (u32_sub k ?len))) = (take k (el_content s), ring_adv ?len ?r k)"
    using a a2 seg(1) two by (simp add: ring_adv_def)
  show ?thesis
    unfolding elog_async_get_log_def Let_def get_buf_used [OF assms(1)] mm p e
    using k by (simp add: el_consume_def)
qed

section \<open>The ring is a byte stream\<close>

lemma el_put_facts:
  assumes "el_inv s" "xs \<noteq> []"
  shows "el_inv (fst (async_put_log s xs))" "OUTPUT_BUF_SIZE (fst (async_put_log s xs)) = OUTPUT_BUF_SIZE s"
    "snd (async_put_log s xs) = min (length xs) (OUTPUT_BUF_SIZE s - length (el_content s))"
    "el_content (fst (async_put_log s xs)) = el_content s @ take (snd (async_put_log s xs)) xs"
proof -
  let ?k = "min (length xs) (OUTPUT_BUF_SIZE s - el_used s)"
  have c: "el_used s + length (take ?k xs) \<le> OUTPUT_BUF_SIZE s" using el_used_le [OF assms(1)] by auto
  have t: "take ?k xs \<noteq> []" if "?k \<noteq> 0" using that assms(2) by auto
  note e = async_put_log_effect [OF assms]
  note ok = el_append_ok [OF assms(1) t c]
  show "el_inv (fst (async_put_log s xs))" "OUTPUT_BUF_SIZE (fst (async_put_log s xs)) = OUTPUT_BUF_SIZE s"
    "snd (async_put_log s xs) = min (length xs) (OUTPUT_BUF_SIZE s - length (el_content s))"
    "el_content (fst (async_put_log s xs)) = el_content s @ take (snd (async_put_log s xs)) xs"
    unfolding e using ok assms(1) by (cases "?k = 0"; simp)+
qed

lemma el_consume_facts:
  assumes "el_inv s" "k \<le> el_used s"
  shows "el_inv (el_consume s k) \<and> OUTPUT_BUF_SIZE (el_consume s k) = OUTPUT_BUF_SIZE s \<and>
    el_content s = take k (el_content s) @ el_content (el_consume s k)"
  using el_consume_ok [OF assms] by simp

lemma el_line_get:
  assumes "el_inv s" "elog_async_get_line_log s n = (s', log)"
  shows "el_inv s' \<and> OUTPUT_BUF_SIZE s' = OUTPUT_BUF_SIZE s \<and> el_content s = log @ el_content s' \<and>
    length log \<le> n"
proof -
  obtain k where k: "elog_async_get_line_log s n = (el_consume s k, take k (el_content s))" "k \<le> min n (el_used s)"
    using elog_async_get_line_log_effect [OF assms(1), of n] unfolding ring_line_of_def by blast
  then show ?thesis using el_consume_facts [OF assms(1), of k] assms(2) by auto
qed

interpretation elog_lines: byte_stream el_inv el_content "\<lambda>s. length (log_buf s)" "\<lambda>xs. xs \<noteq> []"
  async_put_log elog_async_get_line_log
proof (unfold_locales, goal_cases)
  case (6 s n)
  then show ?case using el_line_get [of s n] by (metis prod.collapse)
next
  case (7 s n)
  then show ?case using el_line_get [of s n] by (metis prod.collapse)
next
  case (8 s n)
  then show ?case using el_line_get [of s n] by (metis prod.collapse)
next
  case (9 s n)
  then show ?case using el_line_get [of s n] by (metis prod.collapse)
qed (simp_all add: el_used_le el_put_facts)

interpretation elog_bytes: greedy_stream el_inv el_content "\<lambda>s. length (log_buf s)" "\<lambda>xs. xs \<noteq> []"
  async_put_log elog_async_get_log
proof (unfold_locales, goal_cases)
  case (6 s n)
  then show ?case using el_consume_facts [of s "min n (el_used s)"] by (simp add: elog_async_get_log_effect)
next
  case (7 s n)
  then show ?case using el_consume_facts [of s "min n (el_used s)"] by (simp add: elog_async_get_log_effect)
next
  case (8 s n)
  then show ?case using el_consume_facts [of s "min n (el_used s)"] by (simp add: elog_async_get_log_effect)
qed (simp_all add: el_used_le el_put_facts elog_async_get_log_effect)

section \<open>The output thread and the buffered mode\<close>

lemma el_port_fields [simp]:
  "el_inv (s\<lparr>port_output := p\<rparr>) = el_inv s" "el_content (s\<lparr>port_output := p\<rparr>) = el_content s"
  "el_used (s\<lparr>port_output := p\<rparr>) = el_used s"
  "el_inv (s\<lparr>output_notice := q\<rparr>) = el_inv s" "el_content (s\<lparr>output_notice := q\<rparr>) = el_content s"
  by (simp_all add: el_inv_def el_content_def el_used_def)

lemma el_consume_port [simp]:
  "port_output (el_consume s k) = port_output s" "output_notice (el_consume s k) = output_notice s"
  by (simp_all add: el_consume_def)

lemma async_poll_drains:
  assumes "el_inv s" "0 < bufsize"
  shows "\<exists>s' logs. async_poll bufsize s = Some s' \<and> el_inv s' \<and> el_content s' = [] \<and>
    output_notice s' = output_notice s \<and> port_output s' = port_output s @ logs \<and>
    concat logs = el_content s \<and> (\<forall>l\<in>set logs. l \<noteq> [] \<and> length l \<le> bufsize)"
  using assms(1)
proof (induction "el_used s" arbitrary: s rule: less_induct)
  case less
  obtain k where k: "elog_async_get_line_log s bufsize = (el_consume s k, take k (el_content s))"
      "k \<le> min bufsize (el_used s)" "0 < el_used s \<longrightarrow> 0 < k"
    using elog_async_get_line_log_effect [OF less.prems, of bufsize] assms(2) unfolding ring_line_of_def by blast
  have ku: "k \<le> el_used s" "length (take k (el_content s)) = k" using k(2) by simp_all
  note c = el_consume_ok [OF less.prems ku(1)]
  show ?case
  proof (cases "k = 0")
    case True
    then have "el_used s = 0" using k(3) by simp
    then have e: "el_content s = []" using length_el_content [of s] by (simp del: length_el_content)
    have "async_poll bufsize s = Some (el_consume s 0)"
      by (subst async_poll.simps) (simp add: k(1) True)
    then show ?thesis using c e True by (intro exI [of _ "el_consume s 0"] exI [of _ "[]"]) simp
  next
    case False
    let ?log = "take k (el_content s)"
    let ?s = "(el_consume s k)\<lparr>port_output := port_output s @ [?log]\<rparr>"
    have ne: "?log \<noteq> []" using False ku by (metis length_0_conv)
    have step: "async_poll bufsize s = async_poll bufsize ?s"
      by (subst async_poll.simps) (simp only: k(1) prod.case if_P [OF ne] el_consume_port)
    have "el_used ?s < el_used s"
      using c(3) ku False length_el_content [of "el_consume s k"] by simp
    then obtain s' logs where "async_poll bufsize ?s = Some s'" "el_inv s'" "el_content s' = []"
        "output_notice s' = output_notice ?s" "port_output s' = port_output ?s @ logs"
        "concat logs = el_content ?s" "\<forall>l\<in>set logs. l \<noteq> [] \<and> length l \<le> bufsize"
      using less.hyps [of ?s] c(1) by auto
    then show ?thesis
      using step c(3) ne ku k(2) by (intro exI [of _ s'] exI [of _ "?log # logs"]) simp
  qed
qed

definition eb_inv :: "elog_buf \<Rightarrow> bool" where
  "eb_inv s \<longleftrightarrow> 0 < length (bbuf s) \<and> length (bbuf s) \<le> u32_lim div 2 \<and> buf_write_size s \<le> length (bbuf s)"

definition eb_pending :: "elog_buf \<Rightarrow> byte list" where
  "eb_pending s = take (buf_write_size s) (bbuf s)"

lemma take_mem_write:
  "i + length xs \<le> length buf \<Longrightarrow> take (i + length xs) (mem_write buf i xs) = take i buf @ xs"
  by (simp add: mem_write_def)

lemma buf_output_loop_ok:
  assumes "eb_inv s" "length log < u32_lim div 2"
  shows "\<exists>s' outs. buf_output_loop s log = Some s' \<and> eb_inv s' \<and> buf_enabled s' = buf_enabled s \<and>
    length (bbuf s') = length (bbuf s) \<and>
    buf_port_output s' = buf_port_output s @ outs \<and> (\<forall>l\<in>set outs. length l = length (bbuf s)) \<and>
    concat outs @ eb_pending s' = eb_pending s @ log"
  using assms
proof (induction "2 * length log + (if buf_write_size s = length (bbuf s) then 1 else 0)"
    arbitrary: s log rule: less_induct)
  case less
  let ?len = "length (bbuf s)" and ?w = "buf_write_size s"
  have b: "0 < ?len" "?len \<le> u32_lim div 2" "?w \<le> ?len" using less.prems by (simp_all add: eb_inv_def)
  have a: "u32_add ?w (length log) = ?w + length log"
    using b less.prems(2) by (intro u32_add_small) (simp add: u32_lim_def)
  have k: "u32_sub ?len ?w = ?len - ?w" using b by (intro u32_sub_small) (simp_all add: u32_lim_def)
  show ?case
  proof (cases "?w + length log > ?len")
    case False
    then have "buf_output_loop s log = Some (s\<lparr>bbuf := mem_write (bbuf s) ?w log, buf_write_size := ?w + length log\<rparr>)"
      by (subst buf_output_loop.simps) (simp add: a)
    then show ?thesis
      using False b by (intro exI [of _ "s\<lparr>bbuf := mem_write (bbuf s) ?w log, buf_write_size := ?w + length log\<rparr>"]
          exI [of _ "[]"]) (simp add: eb_inv_def eb_pending_def mem_simps take_mem_write)
  next
    case True
    let ?k = "?len - ?w"
    let ?buf = "mem_write (bbuf s) ?w (take ?k log)"
    have kl: "?k \<le> length log" "length (take ?k log) = ?k" using True b by simp_all
    have lb: "length ?buf = ?len" using kl b by (simp add: mem_simps)
    have tb: "take ?len ?buf = take ?w (bbuf s) @ take ?k log"
      using take_mem_write [of ?w "take ?k log" "bbuf s"] kl b by simp
    let ?s = "s\<lparr>bbuf := ?buf, buf_port_output := buf_port_output s @ [take ?len ?buf], buf_write_size := 0\<rparr>"
    have step: "buf_output_loop s log = buf_output_loop ?s (drop ?k log)"
      using True b by (subst buf_output_loop.simps) (simp add: a k Let_def)
    have inv: "eb_inv ?s" using b lb by (simp add: eb_inv_def)
    have m: "2 * length (drop ?k log) + (if buf_write_size ?s = length (bbuf ?s) then 1 else 0) <
        2 * length log + (if ?w = ?len then 1 else 0)"
      using b lb kl by auto
    have "length (drop ?k log) < u32_lim div 2" using less.prems(2) by simp
    then obtain s' outs where h: "buf_output_loop ?s (drop ?k log) = Some s'" "eb_inv s'"
        "buf_enabled s' = buf_enabled ?s" "length (bbuf s') = length (bbuf ?s)"
        "buf_port_output s' = buf_port_output ?s @ outs" "\<forall>l\<in>set outs. length l = length (bbuf ?s)"
        "concat outs @ eb_pending s' = eb_pending ?s @ drop ?k log"
      using less.hyps [OF m inv] by blast
    have "(take ?len ?buf @ concat outs) @ eb_pending s' = eb_pending s @ log"
      using h(7) tb by (simp add: eb_pending_def)
    then show ?thesis
      using h step lb by (intro exI [of _ s'] exI [of _ "take ?len ?buf # outs"]) simp
  qed
qed

section \<open>Properties\<close>

definition demo_elog :: elog_async where
  "demo_elog = \<lparr>log_buf = [98, 10, 97, 10], write_index = 2, read_index = 2, buf_is_full = True,
     buf_is_empty = False, is_enabled = True, init_ok = True, output_notice = 1, port_output = []\<rparr>"

lemma demo_elog_inv: "el_inv demo_elog"
  by (simp add: demo_elog_def el_inv_def u32_lim_def)

text \<open>Property C19: the asynchronous log ring is a first-in first-out byte stream. For any
  interleaving of non-empty puts and reads of lines, the bytes held at the start followed by
  those accepted are those read followed by those still held; the flags that tell full from
  empty stay consistent.\<close>

theorem elog_async_fifo:
  assumes "el_inv s" "\<forall>xs. Put xs \<in> set ops \<longrightarrow> xs \<noteq> []"
    and "fifo_run async_put_log elog_async_get_line_log s ops = (s', acc, del)"
  shows "el_inv s' \<and> el_content s @ acc = del @ el_content s'"
  using elog_lines.run_fifo [OF assms(1,2,3)] by simp

theorem elog_async_fifo_witness:
  "\<exists>s' acc del. fifo_run async_put_log elog_async_get_line_log demo_elog
      [Get 3, Put [1, 2, 3], Get 9] = (s', acc, del) \<and> el_content demo_elog @ acc = del @ el_content s'"
proof -
  obtain s' acc del where r: "fifo_run async_put_log elog_async_get_line_log demo_elog
      [Get 3, Put [1, 2, 3], Get 9] = (s', acc, del)"
    by (metis prod.collapse)
  then show ?thesis using elog_async_fifo [OF demo_elog_inv _ r] by auto
qed

text \<open>Property C33: one round of the output thread ends and writes out everything. With a read
  buffer that is not empty, a thread that was given a notice consumes it, calls the port with
  non-empty pieces that fit its buffer and together are exactly what the ring held, and leaves
  the ring empty.\<close>

theorem async_output_drains:
  assumes "el_inv s" "0 < bufsize" "0 < output_notice s"
  shows "\<exists>s' logs. async_output bufsize s = Some s' \<and> el_inv s' \<and> el_content s' = [] \<and>
    output_notice s' = output_notice s - 1 \<and> port_output s' = port_output s @ logs \<and>
    concat logs = el_content s \<and> (\<forall>l\<in>set logs. l \<noteq> [] \<and> length l \<le> bufsize)"
  using async_poll_drains [of "s\<lparr>output_notice := output_notice s - 1\<rparr>" bufsize] assms
  by (simp add: async_output_def)

theorem async_output_drains_witness:
  "\<exists>s'. async_output 3 demo_elog = Some s' \<and> el_content s' = []"
  using async_output_drains [OF demo_elog_inv, of 3] by (auto simp: demo_elog_def)

text \<open>What a line read delivers. It delivers at least one byte when there is one and room
  for it; if it delivers less than it could, it ends with the newline sign; and a newline sign
  before its end occurs only as the last byte of the array.\<close>

theorem elog_async_get_line_log_lines:
  assumes "el_inv s" "elog_async_get_line_log s n = (s', log)"
  shows "(0 < n \<and> el_content s \<noteq> [] \<longrightarrow> log \<noteq> []) \<and>
    (length log < min n (length (el_content s)) \<longrightarrow> log \<noteq> [] \<and> last log = 10) \<and>
    (\<forall>i. Suc i < length log \<and> log ! i = 10 \<longrightarrow> read_index s + Suc i = OUTPUT_BUF_SIZE s)"
proof -
  obtain k where k: "s' = el_consume s k" "log = take k (el_content s)" "ring_line_of s n k"
    using elog_async_get_line_log_effect [OF assms(1), of n] assms(2) by auto
  have l: "length log = k" using k(2,3) by (simp add: ring_line_of_def)
  have e: "(el_content s \<noteq> []) = (0 < el_used s)" using length_el_content [of s] by (metis length_greater_0_conv)
  have "log \<noteq> [] \<and> last log = 10" if "k < min n (el_used s)"
  proof -
    have k0: "0 < k" using that k(3) by (simp add: ring_line_of_def)
    then have ne: "log \<noteq> []" using l by auto
    then have "last log = log ! (k - 1)" using l by (simp add: last_conv_nth)
    also have "\<dots> = el_content s ! (k - 1)" using k(2) k0 by simp
    finally show ?thesis using ne that k(3) by (simp add: ring_line_of_def)
  qed
  moreover have "log \<noteq> []" if "0 < n" "0 < el_used s"
    using that k(3) l by (auto simp: ring_line_of_def)
  moreover have "read_index s + Suc i = OUTPUT_BUF_SIZE s" if "Suc i < length log" "log ! i = 10" for i
    using that k l by (auto simp: ring_line_of_def)
  ultimately show ?thesis using l e by auto
qed

theorem elog_async_get_line_log_lines_witness:
  "snd (elog_async_get_line_log demo_elog 4) \<noteq> []"
proof -
  obtain s' log where r: "elog_async_get_line_log demo_elog 4 = (s', log)" by fastforce
  have "el_content demo_elog \<noteq> []"
    using length_el_content [of demo_elog] by (auto simp: demo_elog_def el_used_def simp del: length_el_content)
  then show ?thesis using elog_async_get_line_log_lines [OF demo_elog_inv r] r by simp
qed

text \<open>The buffered mode loses and reorders nothing. Whatever the size of a log and the
  fill of the buffer, the loop ends, each call of the port it makes is a full buffer, and what
  was given to the port followed by what is pending is what was there before followed by the
  log; a flush then hands over the rest.\<close>

theorem elog_buf_output_ok:
  assumes "eb_inv s" "buf_enabled s" "length log < u32_lim div 2"
  shows "\<exists>s' outs. elog_buf_output s log = Some s' \<and> eb_inv s' \<and>
    buf_port_output s' = buf_port_output s @ outs \<and> (\<forall>l\<in>set outs. length l = length (bbuf s)) \<and>
    concat outs @ eb_pending s' = eb_pending s @ log \<and>
    concat (buf_port_output (elog_flush s')) = concat (buf_port_output s) @ eb_pending s @ log \<and>
    eb_pending (elog_flush s') = []"
proof -
  obtain s' outs where h: "buf_output_loop s log = Some s'" "eb_inv s'"
      "buf_port_output s' = buf_port_output s @ outs" "\<forall>l\<in>set outs. length l = length (bbuf s)"
      "concat outs @ eb_pending s' = eb_pending s @ log"
    using buf_output_loop_ok [OF assms(1,3)] by blast
  then show ?thesis
    using assms(2) by (intro exI [of _ s'] exI [of _ outs])
      (simp add: elog_buf_output_def elog_flush_def eb_pending_def)
qed

definition demo_elog_buf :: elog_buf where
  "demo_elog_buf = \<lparr>bbuf = [1, 2, 3], buf_write_size = 2, buf_enabled = True, buf_port_output = []\<rparr>"

theorem elog_buf_output_ok_witness:
  "\<exists>s'. elog_buf_output demo_elog_buf [4, 5, 6, 7, 8] = Some s' \<and>
    concat (buf_port_output (elog_flush s')) = [1, 2, 4, 5, 6, 7, 8]"
proof -
  have "eb_inv demo_elog_buf" "buf_enabled demo_elog_buf"
    by (simp_all add: demo_elog_buf_def eb_inv_def u32_lim_def)
  then show ?thesis
    using elog_buf_output_ok [of demo_elog_buf "[4, 5, 6, 7, 8]"]
    by (auto simp: u32_lim_def) (auto simp: demo_elog_buf_def eb_pending_def)
qed

section \<open>Corner cases of the ring\<close>

text \<open>A line read across the end of the array returns two lines when the first ends exactly there.\<close>

lemma line_read_joins_lines_at_wrap:
  "snd (elog_async_get_line_log demo_elog 4) = [97, 10, 98, 10]"
  by (simp add: elog_async_get_line_log_def demo_elog_def elog_async_get_buf_used_def u32_add_def
      u32_sub_def u32_lim_def Let_def mem_read_def elog_cpyln_line)

text \<open>Putting nothing into an empty ring makes it look full of stale bytes.\<close>

definition demo_elog_empty :: elog_async where
  "demo_elog_empty = \<lparr>log_buf = [98, 10, 97, 10], write_index = 2, read_index = 2, buf_is_full = False,
     buf_is_empty = True, is_enabled = True, init_ok = True, output_notice = 0, port_output = []\<rparr>"

lemma empty_put_corrupts:
  "elog_async_get_buf_used demo_elog_empty = 0 \<and>
   elog_async_get_buf_used (fst (async_put_log demo_elog_empty [])) = 4"
proof -
  have u: "elog_async_get_buf_used demo_elog_empty = 0"
    by (simp add: demo_elog_empty_def elog_async_get_buf_used_def)
  have sp: "async_get_buf_space demo_elog_empty = 4"
    unfolding async_get_buf_space_def u by (simp add: demo_elog_empty_def u32_sub_def u32_lim_def)
  have "fst (async_put_log demo_elog_empty []) =
      demo_elog_empty\<lparr>log_buf := [98, 10, 97, 10], write_index := 2, buf_is_full := False, buf_is_empty := False\<rparr>"
    unfolding async_put_log_def Let_def sp
    by (simp add: demo_elog_empty_def u32_add_def u32_lim_def mem_write_def)
  then show ?thesis using u
    by (simp add: demo_elog_empty_def elog_async_get_buf_used_def u32_sub_def u32_lim_def)
qed

end
