(* ===== verification/AudioCopy.thy ===== *)
theory AudioCopy
  imports Prelude
begin

text \<open>
  The sample converters of the 16-bit audio sink (\<open>sound/copyframe_16bit.c\<close>). The twelve
  functions of the file are textual copies of one loop nest that differ in the type of the
  source samples and in the conversion macro; the nest is modelled once, with the macro as an
  argument, and each function is its instance. A sample is the machine word that is read; the
  value of a macro is the C \<open>int\<close> it evaluates to; a store to \<open>*out\<close> truncates to 16 bits. An
  access outside the source or the destination is \<open>None\<close>. Proved: the layout written by every
  combination of access, channel count and duplication mode, and the arithmetic of the macros.
\<close>

section \<open>Constants\<close>

definition SND_PCM_ACCESS_RW_INTERLEAVED :: nat where "SND_PCM_ACCESS_RW_INTERLEAVED = 0"
definition AUDSINK_PCM_DUPLICATE_STEREO :: int where "AUDSINK_PCM_DUPLICATE_STEREO = 0"
definition AUDSINK_PCM_DUPLICATE_LEFT :: int where "AUDSINK_PCM_DUPLICATE_LEFT = 1"
definition AUDSINK_PCM_DUPLICATE_RIGHT :: int where "AUDSINK_PCM_DUPLICATE_RIGHT = 2"
definition SND_PCM_ALIGN_LEFT :: nat where "SND_PCM_ALIGN_LEFT = 0"

section \<open>The conversion macros\<close>

text \<open>\<open>(int16_t) v\<close> for an \<open>int\<close> value.\<close>

definition to_int16 :: "int \<Rightarrow> int" where
  "to_int16 v = sint (word_of_int v :: 16 word)"

definition S8TOS16 :: "8 word \<Rightarrow> int" where "S8TOS16 x = to_int16 (sint x) * 2 ^ 8"
definition U8TOS16 :: "8 word \<Rightarrow> int" where "U8TOS16 x = to_int16 (uint x - 0x80) * 2 ^ 8"
definition S16TOS16 :: "16 word \<Rightarrow> int" where "S16TOS16 x = to_int16 (sint x)"
definition U16TOS16 :: "16 word \<Rightarrow> int" where "U16TOS16 x = to_int16 (uint x - 0x8000)"

text \<open>
  The big-endian macros read the two bytes of the little-endian word one by one; \<open>_READ\<close> casts
  to an unsigned type, so the sum is not sign-extended.
\<close>

definition S16BETOS16 :: "16 word \<Rightarrow> int" where
  "S16BETOS16 x = uint (x AND 0xFF) * 2 ^ 8 + uint (drop_bit 8 x)"
definition U16BETOS16 :: "16 word \<Rightarrow> int" where "U16BETOS16 x = S16BETOS16 x - 0x8000"

definition S24LTOS16 :: "32 word \<Rightarrow> int" where "S24LTOS16 x = to_int16 (sint x div 2 ^ 16)"
definition S24RTOS16 :: "32 word \<Rightarrow> int" where "S24RTOS16 x = to_int16 (sint x div 2 ^ 8)"
definition U24LTOS16 :: "32 word \<Rightarrow> int" where "U24LTOS16 x = to_int16 (sint (x - 0x80000000) div 2 ^ 16)"
definition U24RTOS16 :: "32 word \<Rightarrow> int" where "U24RTOS16 x = to_int16 (sint (x - 0x800000) div 2 ^ 8)"
definition S32TOS16 :: "32 word \<Rightarrow> int" where "S32TOS16 x = to_int16 (sint x div 2 ^ 16)"
definition U32TOS16 :: "32 word \<Rightarrow> int" where "U32TOS16 x = to_int16 (sint (x - 0x80000000) div 2 ^ 16)"

text \<open>
  The 32-bit big-endian macros are applied to the sample, not to its address: the sample is
  used as a pointer. \<open>mem\<close> is what the machine's memory holds at an address.
\<close>

definition S32BETOS16 :: "(32 word \<Rightarrow> 8 word) \<Rightarrow> 32 word \<Rightarrow> int" where
  "S32BETOS16 mem p = uint (mem p) * 2 ^ 8 + uint (mem (p + 1))"
definition U32BETOS16 :: "(32 word \<Rightarrow> 8 word) \<Rightarrow> 32 word \<Rightarrow> int" where
  "U32BETOS16 mem p = S32BETOS16 mem p - 0x8000"

section \<open>The loop nest\<close>

text \<open>\<open>*out = CONV(*in); out += ostep; in += istep;\<close> for a number of frames.\<close>

fun copy_channel :: "('a \<Rightarrow> int) \<Rightarrow> 'a list \<Rightarrow> nat \<Rightarrow> nat \<Rightarrow> nat \<Rightarrow> nat \<Rightarrow> nat \<Rightarrow> 16 word list \<Rightarrow> 16 word list option" where
  "copy_channel conv src 0 i istep p ostep dst = Some dst"
| "copy_channel conv src (Suc n) i istep p ostep dst =
     (if i < length src \<and> p < length dst
      then copy_channel conv src n (i + istep) istep (p + ostep) ostep
             (dst[p := word_of_int (conv (src ! i))])
      else None)"

text \<open>\<open>*out = (CONV(*in) + CONV(*in2)) >> 1; *(out + 1) = *out;\<close> for a number of frames.\<close>

fun mix_channels :: "('a \<Rightarrow> int) \<Rightarrow> 'a list \<Rightarrow> nat \<Rightarrow> nat \<Rightarrow> nat \<Rightarrow> nat \<Rightarrow> nat \<Rightarrow> nat \<Rightarrow> 16 word list \<Rightarrow> 16 word list option" where
  "mix_channels conv src 0 i i2 istep p ostep dst = Some dst"
| "mix_channels conv src (Suc n) i i2 istep p ostep dst =
     (if i < length src \<and> i2 < length src \<and> p + 1 < length dst
      then (let v = word_of_int ((conv (src ! i) + conv (src ! i2)) div 2)
            in mix_channels conv src n (i + istep) (i2 + istep) istep (p + ostep) ostep
                 (dst[p := v, p + 1 := v]))
      else None)"

text \<open>The start of the input for a channel, and of the second input when two are mixed.\<close>

definition channel_source :: "nat \<Rightarrow> nat \<Rightarrow> int \<Rightarrow> nat \<Rightarrow> nat \<Rightarrow> nat \<times> nat option" where
  "channel_source access channels_in dup pitch ch =
     (if access = SND_PCM_ACCESS_RW_INTERLEAVED then
        (if channels_in = 2 then
           (if dup = AUDSINK_PCM_DUPLICATE_STEREO then (ch, None)
            else if dup = AUDSINK_PCM_DUPLICATE_LEFT then (0, None)
            else if dup = AUDSINK_PCM_DUPLICATE_RIGHT then (1, None)
            else (0, Some 1))
         else (ch, None))
      else
        (if channels_in = 2 then
           (if dup = AUDSINK_PCM_DUPLICATE_STEREO then (ch * pitch, None)
            else if dup = AUDSINK_PCM_DUPLICATE_LEFT then (0, None)
            else if dup = AUDSINK_PCM_DUPLICATE_RIGHT then (pitch, None)
            else (0, Some pitch))
         else (ch * pitch, None)))"

text \<open>The loop over the channels; mixing writes both outputs and leaves it.\<close>

fun copy_channels :: "('a \<Rightarrow> int) \<Rightarrow> 'a list \<Rightarrow> nat \<Rightarrow> nat \<Rightarrow> nat \<Rightarrow> nat \<Rightarrow> int \<Rightarrow> nat \<Rightarrow> nat \<Rightarrow> nat list \<Rightarrow>
    16 word list \<Rightarrow> 16 word list option" where
  "copy_channels conv src frames pitch channels_in access dup istep ostep [] dst = Some dst"
| "copy_channels conv src frames pitch channels_in access dup istep ostep (ch # chs) dst =
     (case channel_source access channels_in dup pitch ch of
        (i, Some i2) \<Rightarrow> mix_channels conv src frames i i2 istep ch ostep dst
      | (i, None) \<Rightarrow>
          (case copy_channel conv src frames i istep ch ostep dst of
             None \<Rightarrow> None
           | Some dst \<Rightarrow>
               copy_channels conv src frames pitch channels_in access dup istep ostep chs dst))"

definition audsink_copy :: "('a \<Rightarrow> int) \<Rightarrow> 16 word list \<Rightarrow> 'a list \<Rightarrow> nat \<Rightarrow> nat \<Rightarrow> nat \<Rightarrow> nat \<Rightarrow> int \<Rightarrow>
    16 word list option" where
  "audsink_copy conv dst src frames pitch channels_in access dup =
     (let istep = (if access = SND_PCM_ACCESS_RW_INTERLEAVED then channels_in else 1);
          ostep = (if channels_in = 1 then 2 else channels_in)
      in case copy_channels conv src frames pitch channels_in access dup istep ostep [0..<channels_in] dst of
           None \<Rightarrow> None
         | Some dst \<Rightarrow>
             if channels_in = 1 then copy_channel conv src frames 0 1 1 ostep dst else Some dst)"

section \<open>The functions of the file\<close>

text \<open>Destination, source, frames, pitch, channels, access, duplication mode.\<close>

type_synonym 'a copy_function =
  "16 word list \<Rightarrow> 'a list \<Rightarrow> nat \<Rightarrow> nat \<Rightarrow> nat \<Rightarrow> nat \<Rightarrow> int \<Rightarrow> 16 word list option"

definition audsink_copy_raw :: "byte list \<Rightarrow> byte list \<Rightarrow> nat \<Rightarrow> byte list option" where
  "audsink_copy_raw dst src frames =
     (if frames \<le> length src \<and> frames \<le> length dst then Some (mem_write dst 0 (take frames src)) else None)"

definition audsink_copy_s8 :: "8 word copy_function" where
  "audsink_copy_s8 = audsink_copy S8TOS16"
definition audsink_copy_u8 :: "8 word copy_function" where
  "audsink_copy_u8 = audsink_copy U8TOS16"
definition audsink_copy_s16 :: "16 word copy_function" where
  "audsink_copy_s16 = audsink_copy S16TOS16"
definition audsink_copy_s16_be :: "16 word copy_function" where
  "audsink_copy_s16_be = audsink_copy S16BETOS16"
definition audsink_copy_u16 :: "16 word copy_function" where
  "audsink_copy_u16 = audsink_copy U16TOS16"
definition audsink_copy_u16_be :: "16 word copy_function" where
  "audsink_copy_u16_be = audsink_copy U16BETOS16"
definition audsink_copy_s32 :: "32 word copy_function" where
  "audsink_copy_s32 = audsink_copy S32TOS16"
definition audsink_copy_u32 :: "32 word copy_function" where
  "audsink_copy_u32 = audsink_copy U32TOS16"
definition audsink_copy_s32_be :: "(32 word \<Rightarrow> 8 word) \<Rightarrow> 32 word copy_function" where
  "audsink_copy_s32_be mem = audsink_copy (S32BETOS16 mem)"
definition audsink_copy_u32_be :: "(32 word \<Rightarrow> 8 word) \<Rightarrow> 32 word copy_function" where
  "audsink_copy_u32_be mem = audsink_copy (U32BETOS16 mem)"

definition audsink_copy_s24 :: "16 word list \<Rightarrow> 32 word list \<Rightarrow> nat \<Rightarrow> nat \<Rightarrow> nat \<Rightarrow> nat \<Rightarrow> int \<Rightarrow> nat \<Rightarrow>
    16 word list option" where
  "audsink_copy_s24 dst src frames pitch channels_in access dup align =
     audsink_copy (if align = SND_PCM_ALIGN_LEFT then S24LTOS16 else S24RTOS16)
       dst src frames pitch channels_in access dup"

definition audsink_copy_u24 :: "16 word list \<Rightarrow> 32 word list \<Rightarrow> nat \<Rightarrow> nat \<Rightarrow> nat \<Rightarrow> nat \<Rightarrow> int \<Rightarrow> nat \<Rightarrow>
    16 word list option" where
  "audsink_copy_u24 dst src frames pitch channels_in access dup align =
     audsink_copy (if align = SND_PCM_ALIGN_LEFT then U24LTOS16 else U24RTOS16)
       dst src frames pitch channels_in access dup"

section \<open>What a pass over a channel writes\<close>

text \<open>Every \<open>ostep\<close>-th sample from \<open>p\<close> on, \<open>n\<close> of them, is replaced.\<close>

definition strided :: "nat \<Rightarrow> nat \<Rightarrow> nat \<Rightarrow> (nat \<Rightarrow> 'b) \<Rightarrow> 'b list \<Rightarrow> 'b list" where
  "strided p ostep n f dst = map (\<lambda>j. if p \<le> j \<and> (j - p) mod ostep = 0 \<and> (j - p) div ostep < n
     then f ((j - p) div ostep) else dst ! j) [0..<length dst]"

lemma length_strided [simp]: "length (strided p ostep n f dst) = length dst"
  by (simp add: strided_def)

lemma nth_strided:
  "j < length dst \<Longrightarrow> strided p ostep n f dst ! j =
     (if p \<le> j \<and> (j - p) mod ostep = 0 \<and> (j - p) div ostep < n then f ((j - p) div ostep) else dst ! j)"
  by (simp add: strided_def)

lemma strided_step:
  assumes "0 < ostep"
  shows "strided (p + ostep) ostep n (\<lambda>k. f (Suc k)) (dst[p := f 0]) = strided p ostep (Suc n) f dst"
proof (rule nth_equalityI)
  fix j assume "j < length (strided (p + ostep) ostep n (\<lambda>k. f (Suc k)) (dst[p := f 0]))"
  then have j: "j < length dst" by simp
  consider (lt) "j < p" | (eq) "j = p" | (mid) "p < j" "j < p + ostep" | (ge) "p + ostep \<le> j" by linarith
  then show "strided (p + ostep) ostep n (\<lambda>k. f (Suc k)) (dst[p := f 0]) ! j =
      strided p ostep (Suc n) f dst ! j"
  proof cases
    case ge
    define d where "d = j - (p + ostep)"
    have d: "j - p = d + ostep" "j - (p + ostep) = d" using ge by (simp_all add: d_def)
    show ?thesis using ge j assms by (simp add: nth_strided d div_add_self2 nth_list_update)
  next
    case mid
    then have "0 < j - p" "j - p < ostep" by linarith+
    then have "(j - p) mod ostep \<noteq> 0" by simp
    with mid j show ?thesis by (auto simp: nth_strided nth_list_update)
  qed (use j assms in \<open>auto simp: nth_strided nth_list_update\<close>)
qed simp

lemma strided_0 [simp]: "strided p ostep 0 f dst = dst"
  by (rule nth_equalityI) (auto simp: nth_strided)

lemma copy_channel_strided:
  assumes "0 < ostep" "\<forall>k<n. i + k * istep < length src" "\<forall>k<n. p + k * ostep < length dst"
  shows "copy_channel conv src n i istep p ostep dst =
    Some (strided p ostep n (\<lambda>k. word_of_int (conv (src ! (i + k * istep)))) dst)"
  using assms
proof (induction n arbitrary: i p dst)
  case (Suc n)
  have b: "i < length src" "p < length dst" using Suc.prems(2,3) by force+
  have s: "\<forall>k<n. i + istep + k * istep < length src" "\<forall>k<n. p + ostep + k * ostep < length dst"
    using Suc.prems(2,3) by (metis Suc_less_eq add.assoc mult_Suc)+
  show ?case
    using b s Suc.IH [of "i + istep" "p + ostep" "dst[p := word_of_int (conv (src ! i))]"] Suc.prems(1)
      strided_step [of ostep p n "\<lambda>k. word_of_int (conv (src ! (i + k * istep)))" dst]
    by (simp add: add.assoc)
qed simp

text \<open>For a start within the first frame, the positions are those of one channel.\<close>

lemma nth_strided_channel:
  assumes "p < ostep" "j < length dst"
  shows "strided p ostep n f dst ! j =
    (if j mod ostep = p \<and> j div ostep < n then f (j div ostep) else dst ! j)"
proof (cases "p \<le> j \<and> (j - p) mod ostep = 0")
  case True
  then obtain k where k: "j - p = ostep * k" by (auto simp: mod_eq_0_iff_dvd)
  then have "j = p + ostep * k" using True by linarith
  then have "j mod ostep = p" "j div ostep = k" "(j - p) div ostep = k" using assms(1) k by auto
  with True assms(2) show ?thesis by (simp add: nth_strided)
next
  case False
  have "j mod ostep \<noteq> p"
  proof
    assume m: "j mod ostep = p"
    then have "p \<le> j" using mod_less_eq_dividend by blast
    moreover have "(j - p) mod ostep = 0" using m by (metis minus_mod_eq_mult_div mod_mult_self1_is_0)
    ultimately show False using False by simp
  qed
  with False assms(2) show ?thesis by (auto simp: nth_strided)
qed

definition paired :: "nat \<Rightarrow> nat \<Rightarrow> (nat \<Rightarrow> 'b) \<Rightarrow> 'b list \<Rightarrow> 'b list" where
  "paired p n f dst = map (\<lambda>j. if p \<le> j \<and> (j - p) div 2 < n then f ((j - p) div 2) else dst ! j) [0..<length dst]"

lemma paired_step:
  "paired (p + 2) n (\<lambda>k. f (Suc k)) (dst[p := f 0, p + 1 := f 0]) = paired p (Suc n) f dst"
proof (rule nth_equalityI)
  fix j assume "j < length (paired (p + 2) n (\<lambda>k. f (Suc k)) (dst[p := f 0, p + 1 := f 0]))"
  then have j: "j < length dst" by (simp add: paired_def)
  show "paired (p + 2) n (\<lambda>k. f (Suc k)) (dst[p := f 0, p + 1 := f 0]) ! j = paired p (Suc n) f dst ! j"
  proof (cases "p + 2 \<le> j")
    case True
    then have "(j - p) div 2 = Suc ((j - (p + 2)) div 2)" by linarith
    with True j show ?thesis by (simp add: paired_def nth_list_update)
  next
    case False
    then consider "j < p" | "j = p" | "j = p + 1" by linarith
    then show ?thesis using j by cases (auto simp: paired_def nth_list_update)
  qed
qed (simp add: paired_def)

lemma mix_channels_paired:
  assumes "\<forall>k<n. i + k * istep < length src" "\<forall>k<n. i2 + k * istep < length src" "p + 2 * n \<le> length dst"
  shows "mix_channels conv src n i i2 istep p 2 dst =
    Some (paired p n (\<lambda>k. word_of_int ((conv (src ! (i + k * istep)) + conv (src ! (i2 + k * istep))) div 2)) dst)"
  using assms
proof (induction n arbitrary: i i2 p dst)
  case 0
  show ?case by (simp add: paired_def map_nth)
next
  case (Suc n)
  have b: "i < length src" "i2 < length src" "p + 1 < length dst" using Suc.prems by force+
  have s: "\<forall>k<n. i + istep + k * istep < length src" "\<forall>k<n. i2 + istep + k * istep < length src"
    using Suc.prems(1,2) by (metis Suc_less_eq add.assoc mult_Suc)+
  let ?f = "\<lambda>k. word_of_int ((conv (src ! (i + k * istep)) + conv (src ! (i2 + k * istep))) div 2) :: 16 word"
  have "mix_channels conv src n (i + istep) (i2 + istep) istep (p + 2) 2 (dst[p := ?f 0, p + 1 := ?f 0]) =
      Some (paired (p + 2) n (\<lambda>k. ?f (Suc k)) (dst[p := ?f 0, p + 1 := ?f 0]))"
    using Suc.IH [OF s, of "p + 2" "dst[p := ?f 0, p + 1 := ?f 0]"] Suc.prems(3) by (simp add: add.assoc)
  then show ?case using b paired_step [of p n ?f dst] by (simp add: Let_def)
qed

section \<open>The layout of a copy\<close>

text \<open>
  What output sample \<open>ch\<close> of frame \<open>k\<close> must be: the specification. A mono source feeds both
  outputs; a stereo source is passed through, duplicated from one side, or averaged.
\<close>

definition frame_sample :: "('a \<Rightarrow> int) \<Rightarrow> 'a list \<Rightarrow> nat \<Rightarrow> nat \<Rightarrow> nat \<Rightarrow> int \<Rightarrow> nat \<Rightarrow> nat \<Rightarrow> int" where
  "frame_sample conv src pitch channels access dup ch k =
     (let at = (\<lambda>c. conv (src ! (if access = SND_PCM_ACCESS_RW_INTERLEAVED then channels * k + c else c * pitch + k)))
      in if channels = 1 then at 0
         else if channels \<noteq> 2 \<or> dup = AUDSINK_PCM_DUPLICATE_STEREO then at ch
         else if dup = AUDSINK_PCM_DUPLICATE_LEFT then at 0
         else if dup = AUDSINK_PCM_DUPLICATE_RIGHT then at 1
         else (at 0 + at 1) div 2)"

text \<open>The source holds all frames of all channels.\<close>

definition source_ok :: "'a list \<Rightarrow> nat \<Rightarrow> nat \<Rightarrow> nat \<Rightarrow> nat \<Rightarrow> bool" where
  "source_ok src frames pitch channels access \<longleftrightarrow>
     (if access = SND_PCM_ACCESS_RW_INTERLEAVED then channels * frames \<le> length src
      else (channels - 1) * pitch + frames \<le> length src)"

definition frames_written :: "nat \<Rightarrow> nat \<Rightarrow> (nat \<Rightarrow> nat \<Rightarrow> int) \<Rightarrow> 16 word list \<Rightarrow> 16 word list" where
  "frames_written outs frames f dst =
     map (\<lambda>j. if j div outs < frames then word_of_int (f (j mod outs) (j div outs)) else dst ! j) [0..<length dst]"

text \<open>The first channels done.\<close>

definition partly_written :: "nat \<Rightarrow> nat \<Rightarrow> nat \<Rightarrow> (nat \<Rightarrow> nat \<Rightarrow> int) \<Rightarrow> 16 word list \<Rightarrow> 16 word list" where
  "partly_written c outs frames f dst =
     map (\<lambda>j. if j mod outs < c \<and> j div outs < frames then word_of_int (f (j mod outs) (j div outs)) else dst ! j)
       [0..<length dst]"

lemma partly_written_step:
  assumes "c < outs"
  shows "strided c outs frames (\<lambda>k. word_of_int (f c k)) (partly_written c outs frames f dst) =
    partly_written (Suc c) outs frames f dst"
  using assms
  by (intro nth_equalityI) (auto simp: partly_written_def nth_strided_channel less_Suc_eq)

lemma partly_written_0 [simp]: "partly_written 0 outs frames f dst = dst"
  by (simp add: partly_written_def map_nth)

lemma partly_written_all:
  "0 < outs \<Longrightarrow> partly_written outs outs frames f dst = frames_written outs frames f dst"
  by (simp add: partly_written_def frames_written_def)

lemma copy_channels_each:
  assumes "c \<le> n" "n \<le> outs" "0 < outs" "frames * outs \<le> length dst"
    and "\<forall>ch<n. snd (channel_source access channels dup pitch ch) = None"
    and "\<forall>ch<n. \<forall>k<frames. fst (channel_source access channels dup pitch ch) + k * istep < length src \<and>
           conv (src ! (fst (channel_source access channels dup pitch ch) + k * istep)) = f ch k"
  shows "copy_channels conv src frames pitch channels access dup istep outs [c..<n]
    (partly_written c outs frames f dst) = Some (partly_written n outs frames f dst)"
  using assms(1)
proof (induction "n - c" arbitrary: c)
  case 0
  then show ?case by simp
next
  case (Suc d)
  then have c: "c < n" by simp
  obtain i where i: "channel_source access channels dup pitch c = (i, None)"
    using assms(5) c by (metis prod.collapse)
  have src: "\<forall>k<frames. i + k * istep < length src \<and> conv (src ! (i + k * istep)) = f c k"
    using assms(6) c i by (metis fst_conv)
  have dst: "\<forall>k<frames. c + k * outs < length (partly_written c outs frames f dst)"
  proof (intro allI impI)
    fix k assume "k < frames"
    then have "Suc k * outs \<le> frames * outs" by (intro mult_le_mono1) simp
    then show "c + k * outs < length (partly_written c outs frames f dst)"
      using assms(2,4) c by (simp add: partly_written_def)
  qed
  have "copy_channel conv src frames i istep c outs (partly_written c outs frames f dst) =
      Some (strided c outs frames (\<lambda>k. word_of_int (conv (src ! (i + k * istep)))) (partly_written c outs frames f dst))"
    using src dst assms(3) by (intro copy_channel_strided) auto
  also have "strided c outs frames (\<lambda>k. word_of_int (conv (src ! (i + k * istep)))) (partly_written c outs frames f dst) =
      strided c outs frames (\<lambda>k. word_of_int (f c k)) (partly_written c outs frames f dst)"
    using src by (intro nth_equalityI) (auto simp: nth_strided)
  finally have "copy_channel conv src frames i istep c outs (partly_written c outs frames f dst) =
      Some (partly_written (Suc c) outs frames f dst)"
    using partly_written_step c assms(2) by simp
  then show ?case
    using c i Suc.hyps(1) [of "Suc c"] Suc.hyps(2) by (simp add: upt_conv_Cons)
qed

lemma audsink_copy_ok:
  assumes "1 \<le> channels" "frames * (if channels = 1 then 2 else channels) \<le> length dst"
    and "source_ok src frames pitch channels access"
  shows "audsink_copy conv dst src frames pitch channels access dup =
    Some (frames_written (if channels = 1 then 2 else channels) frames
      (frame_sample conv src pitch channels access dup) dst)"
proof -
  let ?f = "frame_sample conv src pitch channels access dup"
  let ?istep = "if access = SND_PCM_ACCESS_RW_INTERLEAVED then channels else 1"
  let ?at = "\<lambda>c k. if access = SND_PCM_ACCESS_RW_INTERLEAVED then channels * k + c else c * pitch + k"
  have at: "?at c k < length src" if "c < channels" "k < frames" for c k
  proof (cases "access = SND_PCM_ACCESS_RW_INTERLEAVED")
    case True
    have "channels * Suc k \<le> channels * frames" using that(2) by (intro mult_le_mono2) simp
    with True that(1) assms(3) show ?thesis by (simp add: source_ok_def)
  next
    case False
    have "c * pitch \<le> (channels - 1) * pitch" using that(1) by (intro mult_le_mono1) simp
    with that(2) assms(3) show ?thesis unfolding source_ok_def if_not_P [OF False] by linarith
  qed
  note d = channel_source_def AUDSINK_PCM_DUPLICATE_STEREO_def AUDSINK_PCM_DUPLICATE_LEFT_def
    AUDSINK_PCM_DUPLICATE_RIGHT_def
  consider (mono) "channels = 1" | (mix) "channels = 2" "dup \<notin> {0, 1, 2}"
    | (each) "channels \<noteq> 1" "channels \<noteq> 2 \<or> dup \<in> {0, 1, 2}" by blast
  then show ?thesis
  proof cases
    case mono
    have s: "channel_source access 1 dup pitch 0 = (0, None)" by (simp add: d)
    have f: "?f c k = conv (src ! k)" for c k using mono by (simp add: frame_sample_def Let_def)
    have k: "k < length src" if "k < frames" for k using at [of 0 k] that mono by (simp split: if_splits)
    have c1: "copy_channels conv src frames pitch 1 access dup 1 2 [0..<1] (partly_written 0 2 frames ?f dst) =
        Some (partly_written 1 2 frames ?f dst)"
      using assms(2) mono s k f by (intro copy_channels_each) auto
    have "copy_channel conv src frames 0 1 1 2 (partly_written 1 2 frames ?f dst) =
        Some (strided 1 2 frames (\<lambda>k. word_of_int (conv (src ! (0 + k * 1)))) (partly_written 1 2 frames ?f dst))"
      using k assms(2) mono by (intro copy_channel_strided) (auto simp: partly_written_def)
    also have "\<dots> = Some (partly_written 2 2 frames ?f dst)"
      using partly_written_step [of 1 2 frames ?f dst] f by (simp add: numeral_2_eq_2)
    finally have c2: "copy_channel conv src frames 0 1 1 2 (partly_written 1 2 frames ?f dst) =
        Some (frames_written 2 frames ?f dst)"
      by (simp add: partly_written_all)
    have e: "(if access = SND_PCM_ACCESS_RW_INTERLEAVED then 1 else 1) = (1::nat)" by simp
    show ?thesis
      unfolding audsink_copy_def Let_def mono e simp_thms if_True c1 [unfolded partly_written_0] option.case
      by (rule c2 [unfolded mono])
  next
    case mix
    let ?i2 = "if access = SND_PCM_ACCESS_RW_INTERLEAVED then 1 else pitch"
    have s: "channel_source access 2 dup pitch 0 = (0, Some ?i2)" using mix by (simp add: d)
    have f: "?f c k = (conv (src ! (0 + k * ?istep)) + conv (src ! (?i2 + k * ?istep))) div 2" for c k
      using mix by (auto simp: frame_sample_def Let_def d mult.commute add.commute)
    have a0: "0 + k * ?istep < length src" if "k < frames" for k
      using at [of 0 k] that mix by (auto simp: mult.commute split: if_splits)
    have a1: "?i2 + k * ?istep < length src" if "k < frames" for k
      using at [of 1 k] that mix by (auto simp: mult.commute add.commute split: if_splits)
    have "mix_channels conv src frames 0 ?i2 ?istep 0 2 dst = Some (paired 0 frames
        (\<lambda>k. word_of_int ((conv (src ! (0 + k * ?istep)) + conv (src ! (?i2 + k * ?istep))) div 2)) dst)"
      using a0 a1 assms(2) mix by (intro mix_channels_paired) auto
    also have "\<dots> = Some (frames_written 2 frames ?f dst)"
      unfolding f by (simp add: paired_def frames_written_def)
    finally have m: "mix_channels conv src frames 0 ?i2 ?istep 0 2 dst = Some (frames_written 2 frames ?f dst)" .
    have u: "[0..<2] = [0, 1::nat]" by (simp add: upt_rec)
    have "copy_channels conv src frames pitch 2 access dup ?istep 2 [0..<2] dst = Some (frames_written 2 frames ?f dst)"
      unfolding u by (simp only: copy_channels.simps s prod.case option.case m)
    then have cc: "copy_channels conv src frames pitch channels access dup ?istep channels [0..<channels] dst =
        Some (frames_written channels frames ?f dst)"
      using mix(1) by (simp only:)
    have n1: "(channels = 1) = False" using mix by simp
    show ?thesis unfolding audsink_copy_def Let_def n1 if_False cc option.case by (rule refl)
  next
    case each
    then have c: "\<forall>ch<channels. snd (channel_source access channels dup pitch ch) = None"
      by (auto simp: d)
    have "fst (channel_source access channels dup pitch ch) + k * ?istep < length src \<and>
        conv (src ! (fst (channel_source access channels dup pitch ch) + k * ?istep)) = ?f ch k"
      if "ch < channels" "k < frames" for ch k
      using each at [of ch k] at [of 0 k] at [of 1 k] that
      by (auto simp: d frame_sample_def Let_def mult.commute add.commute split: if_splits)
    then have "copy_channels conv src frames pitch channels access dup ?istep channels [0..<channels]
        (partly_written 0 channels frames ?f dst) = Some (partly_written channels channels frames ?f dst)"
      using c each assms(1,2) by (intro copy_channels_each) auto
    then show ?thesis using each assms(1) by (simp add: audsink_copy_def partly_written_all)
  qed
qed

section \<open>The arithmetic of the conversions\<close>

lemma sint16_id: "- 32768 \<le> v \<Longrightarrow> v \<le> 32767 \<Longrightarrow> sint (word_of_int v :: 16 word) = v"
  by (simp add: signed_of_int signed_take_bit_int_eq_self)



lemma to_int16_range: "- 32768 \<le> to_int16 v \<and> to_int16 v \<le> 32767"
  using sint_greater_eq [of "word_of_int v :: 16 word"] sint_less [of "word_of_int v :: 16 word"]
  by (simp add: to_int16_def)




lemma audio_length_frames_written [simp]: "length (frames_written outs frames f dst) = length dst"
  by (simp add: frames_written_def)

text \<open>Property C20: the layout of a copy. When the source holds all frames and the destination has room,
  a conversion returns the destination with exactly the output samples of the given frames
  replaced, each by the converted sample of the channel that the access, the number of channels
  and the duplication mode select, a mono source on both outputs, or the halved sum of the two
  channels; samples behind the last frame keep their value.\<close>

theorem audsink_copy_layout:
  assumes "1 \<le> channels" "frames * (if channels = 1 then 2 else channels) \<le> length dst"
    and "source_ok src frames pitch channels access"
  shows "\<exists>out. audsink_copy conv dst src frames pitch channels access dup = Some out \<and> length out = length dst \<and>
    (\<forall>k < frames. \<forall>ch < (if channels = 1 then 2 else channels).
       out ! (k * (if channels = 1 then 2 else channels) + ch) =
         word_of_int (frame_sample conv src pitch channels access dup ch k)) \<and>
    (\<forall>j. frames * (if channels = 1 then 2 else channels) \<le> j \<and> j < length dst \<longrightarrow> out ! j = dst ! j)"
proof -
  let ?o = "if channels = 1 then 2 else channels"
  let ?f = "frame_sample conv src pitch channels access dup"
  have o: "0 < ?o" using assms(1) by simp
  have i: "k * ?o + ch < length dst" "(k * ?o + ch) div ?o = k" "(k * ?o + ch) mod ?o = ch"
    if "k < frames" "ch < ?o" for k ch
  proof -
    have "Suc k * ?o \<le> frames * ?o" using that(1) by (intro mult_le_mono1) simp
    then show "k * ?o + ch < length dst" using assms(2) that(2) by simp
    show "(k * ?o + ch) div ?o = k" "(k * ?o + ch) mod ?o = ch" using that(2) o by simp_all
  qed
  have "frames_written ?o frames ?f dst ! (k * ?o + ch) = word_of_int (?f ch k)"
    if "k < frames" "ch < ?o" for k ch
    unfolding frames_written_def using i [OF that] that(1) by (simp only: nth_map length_upt nth_upt minus_nat.diff_0 add_0 if_True)
  moreover have "frames_written ?o frames ?f dst ! j = dst ! j" if "frames * ?o \<le> j" "j < length dst" for j
  proof -
    have "frames \<le> j div ?o" using that(1) o by (metis div_le_mono nonzero_mult_div_cancel_right less_not_refl2)
    then show ?thesis using that(2) by (simp add: frames_written_def del: if_split)
  qed
  ultimately show ?thesis using audsink_copy_ok [OF assms, of conv dup] by auto
qed

theorem audsink_copy_layout_witness:
  "\<exists>out. audsink_copy S16TOS16 [0, 0, 0, 0, 9] [1, 2, 3, 4] 2 0 2 0 1 = Some out \<and> length out = 5 \<and> out ! 4 = 9"
  using audsink_copy_layout [of 2 2 "[0, 0, 0, 0, 9]" "[1, 2, 3, 4]" 0 0 S16TOS16 1]
  by (auto simp: source_ok_def SND_PCM_ACCESS_RW_INTERLEAVED_def)


lemma frame_sample_range:
  assumes "\<forall>x. - 32768 \<le> conv x \<and> conv x \<le> 32767"
  shows "- 32768 \<le> frame_sample conv src pitch channels access dup ch k \<and>
    frame_sample conv src pitch channels access dup ch k \<le> 32767"
proof -
  have m: "- 32768 \<le> (conv x + conv y) div 2 \<and> (conv x + conv y) div 2 \<le> 32767" for x y
  proof -
    have "- 65536 \<le> conv x + conv y" "conv x + conv y \<le> 65534"
      using assms [rule_format, of x] assms [rule_format, of y] by linarith+
    then show ?thesis
      using zdiv_mono1 [of "- 65536" "conv x + conv y" 2] zdiv_mono1 [of "conv x + conv y" 65534 2] by simp
  qed
  show ?thesis using assms m by (simp add: frame_sample_def Let_def)
qed

text \<open>Property C34: no conversion overflows and mixing averages. For a macro whose values are 16-bit
  values (all of them but the signed big-endian ones), the samples written, read as signed
  numbers, are the specified values themselves; in particular the mixed sample is the average of
  the two channels rounded down.\<close>

theorem audsink_copy_no_overflow:
  assumes "1 \<le> channels" "frames * (if channels = 1 then 2 else channels) \<le> length dst"
    and "source_ok src frames pitch channels access" "\<forall>x. - 32768 \<le> conv x \<and> conv x \<le> 32767"
  shows "\<exists>out. audsink_copy conv dst src frames pitch channels access dup = Some out \<and>
    (\<forall>j < frames * (if channels = 1 then 2 else channels). sint (out ! j) =
       frame_sample conv src pitch channels access dup (j mod (if channels = 1 then 2 else channels))
         (j div (if channels = 1 then 2 else channels)))"
proof -
  let ?o = "if channels = 1 then 2 else channels"
  let ?f = "frame_sample conv src pitch channels access dup"
  have o: "0 < ?o" using assms(1) by simp
  have "sint (frames_written ?o frames ?f dst ! j) = ?f (j mod ?o) (j div ?o)" if "j < frames * ?o" for j
  proof -
    have l: "j < length dst" using that assms(2) by linarith
    have d: "j div ?o < frames" using that o by (simp only: less_mult_imp_div_less)
    have "frames_written ?o frames ?f dst ! j = word_of_int (?f (j mod ?o) (j div ?o))"
      unfolding frames_written_def using l d
      by (simp only: nth_map length_upt nth_upt minus_nat.diff_0 add_0 if_True)
    then show ?thesis using frame_sample_range [OF assms(4)] sint16_id by (simp only:)
  qed
  then show ?thesis using audsink_copy_ok [OF assms(1-3), of conv dup] by blast
qed

lemma macro_ranges:
  "- 32768 \<le> S16TOS16 b \<and> S16TOS16 b \<le> 32767" "- 32768 \<le> U16TOS16 b \<and> U16TOS16 b \<le> 32767"
  "- 32768 \<le> S24LTOS16 c \<and> S24LTOS16 c \<le> 32767" "- 32768 \<le> S24RTOS16 c \<and> S24RTOS16 c \<le> 32767"
  "- 32768 \<le> U24LTOS16 c \<and> U24LTOS16 c \<le> 32767" "- 32768 \<le> U24RTOS16 c \<and> U24RTOS16 c \<le> 32767"
  "- 32768 \<le> S32TOS16 c \<and> S32TOS16 c \<le> 32767" "- 32768 \<le> U32TOS16 c \<and> U32TOS16 c \<le> 32767"
  by (simp_all add: S16TOS16_def U16TOS16_def S24LTOS16_def S24RTOS16_def U24LTOS16_def U24RTOS16_def
      S32TOS16_def U32TOS16_def to_int16_range)

theorem audsink_copy_no_overflow_witness:
  "\<exists>out. audsink_copy_s16 [0, 0] [0xFFFF, 1] 1 0 2 0 3 = Some out \<and> sint (out ! 0) = 0"
proof -
  have "frame_sample S16TOS16 [0xFFFF, 1] 0 2 0 3 0 0 = 0"
    by (simp add: frame_sample_def SND_PCM_ACCESS_RW_INTERLEAVED_def AUDSINK_PCM_DUPLICATE_STEREO_def
        AUDSINK_PCM_DUPLICATE_LEFT_def AUDSINK_PCM_DUPLICATE_RIGHT_def S16TOS16_def to_int16_def)
  then show ?thesis
    using audsink_copy_no_overflow [of 2 1 "[0, 0]" "[0xFFFF, 1]" 0 0 S16TOS16 3] macro_ranges(1)
    by (auto simp: source_ok_def SND_PCM_ACCESS_RW_INTERLEAVED_def audsink_copy_s16_def)
qed

section \<open>Defects of the big-endian formats\<close>

text \<open>
  Mixing the big-endian samples -1 and 1 gives -32768: the macro's values are unsigned, their
  sum is halved before the truncation that would make them signed.
\<close>

lemma s16_be_mix_overflows:
  "audsink_copy_s16_be [0, 0] [0xFFFF, 0x0100] 1 0 2 0 3 = Some [0x8000, 0x8000]"
  by (simp add: audsink_copy_s16_be_def audsink_copy_def upt_rec channel_source_def
      SND_PCM_ACCESS_RW_INTERLEAVED_def AUDSINK_PCM_DUPLICATE_STEREO_def AUDSINK_PCM_DUPLICATE_LEFT_def
      AUDSINK_PCM_DUPLICATE_RIGHT_def S16BETOS16_def Let_def)

text \<open>The 32-bit big-endian copy depends on what memory holds at the address the sample spells.\<close>

lemma s32_be_reads_wild_memory:
  "audsink_copy_s32_be (\<lambda>_. 0) [0, 0] [5] 1 0 1 0 0 \<noteq> audsink_copy_s32_be (\<lambda>_. 1) [0, 0] [5] 1 0 1 0 0"
  by (simp add: audsink_copy_s32_be_def audsink_copy_def upt_rec channel_source_def
      SND_PCM_ACCESS_RW_INTERLEAVED_def S32BETOS16_def)

end
