(* ===== verification/Crc32.thy ===== *)
theory Crc32
  imports Prelude
begin

text \<open>
  The CRC-32 of \<open>lib/crc/crc32.c\<close>: the table, the routine that aligns its input and then takes
  four bytes at a time, and the byte-wise variant. Proved: both compute the bit-serial CRC of
  the reflected polynomial, whatever the alignment; the checksum of a message can be computed
  in pieces; and a change of a single byte is always detected.
\<close>

section \<open>The table and the step\<close>

definition crc_table :: "32 word list" where
  "crc_table = [
   0x00000000, 0x77073096, 0xee0e612c, 0x990951ba, 0x076dc419, 0x706af48f, 0xe963a535, 0x9e6495a3,
   0x0edb8832, 0x79dcb8a4, 0xe0d5e91e, 0x97d2d988, 0x09b64c2b, 0x7eb17cbd, 0xe7b82d07, 0x90bf1d91,
   0x1db71064, 0x6ab020f2, 0xf3b97148, 0x84be41de, 0x1adad47d, 0x6ddde4eb, 0xf4d4b551, 0x83d385c7,
   0x136c9856, 0x646ba8c0, 0xfd62f97a, 0x8a65c9ec, 0x14015c4f, 0x63066cd9, 0xfa0f3d63, 0x8d080df5,
   0x3b6e20c8, 0x4c69105e, 0xd56041e4, 0xa2677172, 0x3c03e4d1, 0x4b04d447, 0xd20d85fd, 0xa50ab56b,
   0x35b5a8fa, 0x42b2986c, 0xdbbbc9d6, 0xacbcf940, 0x32d86ce3, 0x45df5c75, 0xdcd60dcf, 0xabd13d59,
   0x26d930ac, 0x51de003a, 0xc8d75180, 0xbfd06116, 0x21b4f4b5, 0x56b3c423, 0xcfba9599, 0xb8bda50f,
   0x2802b89e, 0x5f058808, 0xc60cd9b2, 0xb10be924, 0x2f6f7c87, 0x58684c11, 0xc1611dab, 0xb6662d3d,
   0x76dc4190, 0x01db7106, 0x98d220bc, 0xefd5102a, 0x71b18589, 0x06b6b51f, 0x9fbfe4a5, 0xe8b8d433,
   0x7807c9a2, 0x0f00f934, 0x9609a88e, 0xe10e9818, 0x7f6a0dbb, 0x086d3d2d, 0x91646c97, 0xe6635c01,
   0x6b6b51f4, 0x1c6c6162, 0x856530d8, 0xf262004e, 0x6c0695ed, 0x1b01a57b, 0x8208f4c1, 0xf50fc457,
   0x65b0d9c6, 0x12b7e950, 0x8bbeb8ea, 0xfcb9887c, 0x62dd1ddf, 0x15da2d49, 0x8cd37cf3, 0xfbd44c65,
   0x4db26158, 0x3ab551ce, 0xa3bc0074, 0xd4bb30e2, 0x4adfa541, 0x3dd895d7, 0xa4d1c46d, 0xd3d6f4fb,
   0x4369e96a, 0x346ed9fc, 0xad678846, 0xda60b8d0, 0x44042d73, 0x33031de5, 0xaa0a4c5f, 0xdd0d7cc9,
   0x5005713c, 0x270241aa, 0xbe0b1010, 0xc90c2086, 0x5768b525, 0x206f85b3, 0xb966d409, 0xce61e49f,
   0x5edef90e, 0x29d9c998, 0xb0d09822, 0xc7d7a8b4, 0x59b33d17, 0x2eb40d81, 0xb7bd5c3b, 0xc0ba6cad,
   0xedb88320, 0x9abfb3b6, 0x03b6e20c, 0x74b1d29a, 0xead54739, 0x9dd277af, 0x04db2615, 0x73dc1683,
   0xe3630b12, 0x94643b84, 0x0d6d6a3e, 0x7a6a5aa8, 0xe40ecf0b, 0x9309ff9d, 0x0a00ae27, 0x7d079eb1,
   0xf00f9344, 0x8708a3d2, 0x1e01f268, 0x6906c2fe, 0xf762575d, 0x806567cb, 0x196c3671, 0x6e6b06e7,
   0xfed41b76, 0x89d32be0, 0x10da7a5a, 0x67dd4acc, 0xf9b9df6f, 0x8ebeeff9, 0x17b7be43, 0x60b08ed5,
   0xd6d6a3e8, 0xa1d1937e, 0x38d8c2c4, 0x4fdff252, 0xd1bb67f1, 0xa6bc5767, 0x3fb506dd, 0x48b2364b,
   0xd80d2bda, 0xaf0a1b4c, 0x36034af6, 0x41047a60, 0xdf60efc3, 0xa867df55, 0x316e8eef, 0x4669be79,
   0xcb61b38c, 0xbc66831a, 0x256fd2a0, 0x5268e236, 0xcc0c7795, 0xbb0b4703, 0x220216b9, 0x5505262f,
   0xc5ba3bbe, 0xb2bd0b28, 0x2bb45a92, 0x5cb36a04, 0xc2d7ffa7, 0xb5d0cf31, 0x2cd99e8b, 0x5bdeae1d,
   0x9b64c2b0, 0xec63f226, 0x756aa39c, 0x026d930a, 0x9c0906a9, 0xeb0e363f, 0x72076785, 0x05005713,
   0x95bf4a82, 0xe2b87a14, 0x7bb12bae, 0x0cb61b38, 0x92d28e9b, 0xe5d5be0d, 0x7cdcefb7, 0x0bdbdf21,
   0x86d3d2d4, 0xf1d4e242, 0x68ddb3f8, 0x1fda836e, 0x81be16cd, 0xf6b9265b, 0x6fb077e1, 0x18b74777,
   0x88085ae6, 0xff0f6a70, 0x66063bca, 0x11010b5c, 0x8f659eff, 0xf862ae69, 0x616bffd3, 0x166ccf45,
   0xa00ae278, 0xd70dd2ee, 0x4e048354, 0x3903b3c2, 0xa7672661, 0xd06016f7, 0x4969474d, 0x3e6e77db,
   0xaed16a4a, 0xd9d65adc, 0x40df0b66, 0x37d83bf0, 0xa9bcae53, 0xdebb9ec5, 0x47b2cf7f, 0x30b5ffe9,
   0xbdbdf21c, 0xcabac28a, 0x53b39330, 0x24b4a3a6, 0xbad03605, 0xcdd70693, 0x54de5729, 0x23d967bf,
   0xb3667a2e, 0xc4614ab8, 0x5d681b02, 0x2a6f2b94, 0xb40bbe37, 0xc30c8ea1, 0x5a05df1b, 0x2d02ef8d]"

text \<open>\<open>DO_CRC(x)\<close> for the little-endian target.\<close>

definition DO_CRC :: "32 word \<Rightarrow> 8 word \<Rightarrow> 32 word" where
  "DO_CRC crc x = crc_table ! unat ((crc XOR ucast x) AND 255) XOR drop_bit 8 crc"

section \<open>The routines\<close>

text \<open>
  A buffer is its address, of which only the alignment matters, and its bytes. The first loop
  runs to the next multiple of four, the second takes whole words, the third the rest.
\<close>

fun crc_align :: "nat \<Rightarrow> 32 word \<Rightarrow> 8 word list \<Rightarrow> 32 word \<times> 8 word list" where
  "crc_align addr crc [] = (crc, [])"
| "crc_align addr crc (x # xs) =
     (if addr mod 4 \<noteq> 0 then crc_align (addr + 1) (DO_CRC crc x) xs else (crc, x # xs))"

definition load_le32 :: "8 word \<Rightarrow> 8 word \<Rightarrow> 8 word \<Rightarrow> 8 word \<Rightarrow> 32 word" where
  "load_le32 b0 b1 b2 b3 =
     ucast b0 OR push_bit 8 (ucast b1) OR push_bit 16 (ucast b2) OR push_bit 24 (ucast b3)"

fun crc_words :: "nat \<Rightarrow> 32 word \<Rightarrow> 8 word list \<Rightarrow> 32 word \<times> 8 word list" where
  "crc_words (Suc n) crc (b0 # b1 # b2 # b3 # bs) =
     (let crc = crc XOR load_le32 b0 b1 b2 b3;
          crc = DO_CRC crc 0; crc = DO_CRC crc 0; crc = DO_CRC crc 0; crc = DO_CRC crc 0
      in crc_words n crc bs)"
| "crc_words _ crc bs = (crc, bs)"

fun crc_tail :: "32 word \<Rightarrow> 8 word list \<Rightarrow> 32 word" where
  "crc_tail crc [] = crc"
| "crc_tail crc (x # xs) = crc_tail (DO_CRC crc x) xs"

definition crc32_no_comp :: "nat \<Rightarrow> 32 word \<Rightarrow> 8 word list \<Rightarrow> 32 word" where
  "crc32_no_comp addr crc buf =
     (case crc_align addr crc buf of
        (crc, bs) \<Rightarrow> (case crc_words (length bs div 4) crc bs of (crc, bs) \<Rightarrow> crc_tail crc bs))"

definition crc32 :: "nat \<Rightarrow> 32 word \<Rightarrow> 8 word list \<Rightarrow> 32 word" where
  "crc32 addr crc buf = crc32_no_comp addr (crc XOR 0xffffffff) buf XOR 0xffffffff"

definition crc32_wd :: "nat \<Rightarrow> 32 word \<Rightarrow> 8 word list \<Rightarrow> nat \<Rightarrow> 32 word" where
  "crc32_wd addr crc buf chunk_sz = crc32 addr crc buf"

text \<open>The byte-wise loop.\<close>

fun nuttx_crc32part :: "8 word list \<Rightarrow> 32 word \<Rightarrow> 32 word" where
  "nuttx_crc32part [] crc = crc"
| "nuttx_crc32part (x # src) crc =
     nuttx_crc32part src (crc_table ! unat ((crc AND 0xff) XOR ucast x) XOR drop_bit 8 crc)"

definition nuttx_crc32 :: "8 word list \<Rightarrow> 32 word" where
  "nuttx_crc32 src = nuttx_crc32part src 0"

section \<open>The bit-serial reference\<close>

definition crc_bit :: "32 word \<Rightarrow> 32 word" where
  "crc_bit c = (if bit c 0 then drop_bit 1 c XOR 0xedb88320 else drop_bit 1 c)"

definition crc_byte :: "32 word \<Rightarrow> 32 word" where
  "crc_byte c = crc_bit (crc_bit (crc_bit (crc_bit (crc_bit (crc_bit (crc_bit (crc_bit c)))))))"

lemma length_crc_table: "length crc_table = 256"
  by (simp add: crc_table_def)

lemma crc_byte_values:
  "map crc_byte
    [0, 1, 2, 3, 4, 5, 6, 7, 8, 9, 10, 11, 12, 13, 14, 15, 16, 17, 18, 19, 20, 21, 22, 23, 24, 25, 26,
     27, 28, 29, 30, 31, 32, 33, 34, 35, 36, 37, 38, 39, 40, 41, 42, 43, 44, 45, 46, 47, 48, 49, 50, 51,
     52, 53, 54, 55, 56, 57, 58, 59, 60, 61, 62, 63, 64, 65, 66, 67, 68, 69, 70, 71, 72, 73, 74, 75, 76,
     77, 78, 79, 80, 81, 82, 83, 84, 85, 86, 87, 88, 89, 90, 91, 92, 93, 94, 95, 96, 97, 98, 99, 100,
     101, 102, 103, 104, 105, 106, 107, 108, 109, 110, 111, 112, 113, 114, 115, 116, 117, 118, 119, 120,
     121, 122, 123, 124, 125, 126, 127, 128, 129, 130, 131, 132, 133, 134, 135, 136, 137, 138, 139, 140,
     141, 142, 143, 144, 145, 146, 147, 148, 149, 150, 151, 152, 153, 154, 155, 156, 157, 158, 159, 160,
     161, 162, 163, 164, 165, 166, 167, 168, 169, 170, 171, 172, 173, 174, 175, 176, 177, 178, 179, 180,
     181, 182, 183, 184, 185, 186, 187, 188, 189, 190, 191, 192, 193, 194, 195, 196, 197, 198, 199, 200,
     201, 202, 203, 204, 205, 206, 207, 208, 209, 210, 211, 212, 213, 214, 215, 216, 217, 218, 219, 220,
     221, 222, 223, 224, 225, 226, 227, 228, 229, 230, 231, 232, 233, 234, 235, 236, 237, 238, 239, 240,
     241, 242, 243, 244, 245, 246, 247, 248, 249, 250, 251, 252, 253, 254, 255] = crc_table"
  by (simp add: crc_table_def crc_byte_def crc_bit_def)

lemma bytes_upt:
  "map word_of_nat [0..<256] = [
     0, 1, 2, 3, 4, 5, 6, 7, 8, 9, 10, 11, 12, 13, 14, 15, 16, 17, 18, 19, 20, 21, 22, 23, 24, 25, 26,
     27, 28, 29, 30, 31, 32, 33, 34, 35, 36, 37, 38, 39, 40, 41, 42, 43, 44, 45, 46, 47, 48, 49, 50, 51,
     52, 53, 54, 55, 56, 57, 58, 59, 60, 61, 62, 63, 64, 65, 66, 67, 68, 69, 70, 71, 72, 73, 74, 75, 76,
     77, 78, 79, 80, 81, 82, 83, 84, 85, 86, 87, 88, 89, 90, 91, 92, 93, 94, 95, 96, 97, 98, 99, 100,
     101, 102, 103, 104, 105, 106, 107, 108, 109, 110, 111, 112, 113, 114, 115, 116, 117, 118, 119, 120,
     121, 122, 123, 124, 125, 126, 127, 128, 129, 130, 131, 132, 133, 134, 135, 136, 137, 138, 139, 140,
     141, 142, 143, 144, 145, 146, 147, 148, 149, 150, 151, 152, 153, 154, 155, 156, 157, 158, 159, 160,
     161, 162, 163, 164, 165, 166, 167, 168, 169, 170, 171, 172, 173, 174, 175, 176, 177, 178, 179, 180,
     181, 182, 183, 184, 185, 186, 187, 188, 189, 190, 191, 192, 193, 194, 195, 196, 197, 198, 199, 200,
     201, 202, 203, 204, 205, 206, 207, 208, 209, 210, 211, 212, 213, 214, 215, 216, 217, 218, 219, 220,
     221, 222, 223, 224, 225, 226, 227, 228, 229, 230, 231, 232, 233, 234, 235, 236, 237, 238, 239, 240,
     241, 242, 243, 244, 245, 246, 247, 248, 249, 250, 251, 252, 253, 254, 255 :: 32 word]"
  by (simp add: upt_rec)

lemma crc_table_bits: "crc_table = map (\<lambda>i. crc_byte (word_of_nat i)) [0..<256]"
  unfolding crc_byte_values [symmetric] bytes_upt [symmetric] by simp

section \<open>Linearity\<close>

lemma crc_bit_xor: "crc_bit (a XOR b) = crc_bit a XOR crc_bit b"
  by (auto simp: crc_bit_def bit_xor_iff ac_simps)

lemma crc_byte_xor: "crc_byte (a XOR b) = crc_byte a XOR crc_byte b"
  by (simp add: crc_byte_def crc_bit_xor)

lemma crc_bit_even:
  assumes "take_bit 31 y = y"
  shows "crc_bit (push_bit 1 y) = y"
proof -
  have "drop_bit 1 (push_bit 1 y) = take_bit 31 y"
    by (rule bit_word_eqI) (unfold bit_drop_bit_eq bit_push_bit_iff bit_take_bit_iff o_def, auto)
  moreover have "bit (push_bit 1 y) 0 = False" unfolding bit_push_bit_iff by simp
  ultimately show ?thesis unfolding crc_bit_def using assms by (simp only: if_False)
qed

lemma crc_byte_push:
  assumes "take_bit 24 y = y"
  shows "crc_byte (push_bit 8 y) = y"
proof -
  have s: "push_bit (Suc n) y = push_bit 1 (push_bit n y)" for n by simp
  have t: "take_bit 31 (push_bit n y) = push_bit n y" if "n \<le> 7" for n
  proof -
    have "push_bit n y = push_bit n (take_bit 24 y)" using assms by simp
    also have "take_bit 31 \<dots> = \<dots>"
      using that by (intro bit_word_eqI) (auto simp: bit_take_bit_iff bit_push_bit_iff)
    finally show ?thesis using assms by simp
  qed
  have c: "crc_bit (push_bit (Suc n) y) = push_bit n y" if "n \<le> 7" for n
    unfolding s using t [OF that] by (intro crc_bit_even) simp_all
  have "push_bit 8 y = push_bit (Suc (Suc (Suc (Suc (Suc (Suc (Suc (Suc 0)))))))) y" by (simp add: eval_nat_numeral)
  then show ?thesis unfolding crc_byte_def by (simp only: c) (simp add: c)
qed

lemma low_high: "(w :: 32 word) = (w AND 255) XOR push_bit 8 (drop_bit 8 w)"
proof (rule bit_word_eqI)
  fix n assume "n < LENGTH(32)"
  have m: "bit (255 :: 32 word) n = (n < 8)"
  proof -
    have "(255 :: 32 word) = mask 8" by (simp add: mask_eq_exp_minus_1)
    then show ?thesis using \<open>n < LENGTH(32)\<close> by (simp only: bit_mask_iff) auto
  qed
  show "bit w n = bit ((w AND 255) XOR push_bit 8 (drop_bit 8 w)) n"
    unfolding bit_xor_iff bit_and_iff bit_push_bit_iff bit_drop_bit_eq o_def m
    using \<open>n < LENGTH(32)\<close> by auto
qed

lemma take_bit_drop_8: "take_bit 24 (drop_bit 8 (w :: 32 word)) = drop_bit 8 w"
  by (rule bit_word_eqI) (auto simp: bit_take_bit_iff bit_drop_bit_eq dest: bit_imp_le_length)

lemma drop_8_byte: "drop_bit 8 ((c :: 32 word) XOR ucast (x :: 8 word)) = drop_bit 8 c"
  by (rule bit_word_eqI) (auto simp: bit_drop_bit_eq bit_xor_iff bit_ucast_iff dest: bit_imp_le_length)

lemma crc_table_nth: "crc_table ! unat (w AND 255) = crc_byte (w AND 255)"
proof -
  have "w AND 255 = take_bit 8 w" by (simp add: take_bit_eq_mask mask_eq_exp_minus_1)
  then have "unat (w AND 255) < 256"
    using take_bit_nat_less_exp [of 8 "unat w"] by (simp add: unsigned_take_bit_eq)
  then show ?thesis by (simp add: crc_table_bits)
qed

text \<open>The table step is eight bit steps.\<close>

lemma DO_CRC_crc_byte: "DO_CRC crc x = crc_byte (crc XOR ucast x)"
proof -
  let ?w = "crc XOR ucast x"
  have "crc_byte ?w = crc_byte (?w AND 255) XOR crc_byte (push_bit 8 (drop_bit 8 ?w))"
    by (subst low_high) (rule crc_byte_xor)
  also have "crc_byte (push_bit 8 (drop_bit 8 ?w)) = drop_bit 8 crc"
    unfolding drop_8_byte by (intro crc_byte_push take_bit_drop_8)
  finally show ?thesis by (simp add: DO_CRC_def crc_table_nth)
qed

lemma crc_tail_foldl: "crc_tail crc xs = foldl DO_CRC crc xs"
  by (induction crc xs rule: crc_tail.induct) simp_all

lemma crc_align_foldl:
  "crc_align addr crc xs = (crc', ys) \<Longrightarrow> foldl DO_CRC crc xs = foldl DO_CRC crc' ys"
  by (induction addr crc xs rule: crc_align.induct) (auto split: if_splits)

text \<open>Four bytes at once: the word is absorbed first and shifted through the table.\<close>

lemma load_le32_xor:
  "load_le32 b0 b1 b2 b3 =
     ucast b0 XOR push_bit 8 (ucast b1 XOR push_bit 8 (ucast b2 XOR push_bit 8 (ucast b3)))"
  unfolding load_le32_def
  by (rule bit_word_eqI)
    (auto simp: bit_or_iff bit_xor_iff bit_push_bit_iff bit_ucast_iff dest: bit_imp_le_length)

lemma take_24:
  "take_bit 24 (ucast (b :: 8 word) :: 32 word) = ucast b"
  "take_bit 24 (ucast b XOR push_bit 8 (ucast (b' :: 8 word)) :: 32 word) = ucast b XOR push_bit 8 (ucast b')"
  "take_bit 24 (ucast b XOR push_bit 8 (ucast b' XOR push_bit 8 (ucast (b'' :: 8 word))) :: 32 word) =
     ucast b XOR push_bit 8 (ucast b' XOR push_bit 8 (ucast b''))"
  by (rule bit_word_eqI;
      auto simp: bit_take_bit_iff bit_xor_iff bit_push_bit_iff bit_ucast_iff dest: bit_imp_le_length)+

lemma crc_byte_absorb:
  assumes "take_bit 24 y = y"
  shows "crc_byte (c XOR (ucast b XOR push_bit 8 y)) = DO_CRC c b XOR y"
proof -
  have "crc_byte (c XOR (ucast b XOR push_bit 8 y)) = crc_byte ((c XOR ucast b) XOR push_bit 8 y)"
    by (simp only: xor.assoc)
  then show ?thesis using crc_byte_push [OF assms] by (simp only: crc_byte_xor DO_CRC_crc_byte)
qed

lemma DO_CRC_word:
  "DO_CRC (DO_CRC (DO_CRC (DO_CRC (crc XOR load_le32 b0 b1 b2 b3) 0) 0) 0) 0 =
   foldl DO_CRC crc [b0, b1, b2, b3]"
proof -
  have z: "DO_CRC c 0 = crc_byte c" for c by (simp add: DO_CRC_crc_byte)
  show ?thesis
    unfolding z load_le32_xor
    by (simp only: crc_byte_absorb take_24 foldl_Cons foldl_Nil DO_CRC_crc_byte [symmetric])
qed

lemma crc_words_foldl:
  "crc_words n crc xs = (crc', ys) \<Longrightarrow> foldl DO_CRC crc xs = foldl DO_CRC crc' ys"
  by (induction n crc xs rule: crc_words.induct) (auto simp: DO_CRC_word Let_def)

lemma crc32_no_comp_foldl: "crc32_no_comp addr crc buf = foldl DO_CRC crc buf"
  unfolding crc32_no_comp_def
  by (auto simp: crc_tail_foldl split: prod.splits dest!: crc_align_foldl crc_words_foldl)

lemma nuttx_crc32part_foldl: "nuttx_crc32part src crc = foldl DO_CRC crc src"
proof (induction src arbitrary: crc)
  case (Cons x src)
  have "(crc AND 0xff) XOR ucast x = (crc XOR ucast x) AND 255"
  proof (rule bit_word_eqI)
    fix n assume "n < LENGTH(32)"
    have m: "bit (255 :: 32 word) n = (n < 8)"
    proof -
      have "(255 :: 32 word) = mask 8" by (simp add: mask_eq_exp_minus_1)
      then show ?thesis using \<open>n < LENGTH(32)\<close> by (simp only: bit_mask_iff) auto
    qed
    show "bit ((crc AND 0xff) XOR ucast x) n = bit ((crc XOR ucast x) AND 255) n"
      unfolding bit_xor_iff bit_and_iff m by (auto simp: bit_ucast_iff dest: bit_imp_le_length)
  qed
  then show ?case using Cons.IH by (simp add: DO_CRC_def)
qed simp

section \<open>Properties\<close>

text \<open>The bits of a message, the least significant bit of each byte first, one at a time.\<close>

fun crc_serial :: "32 word \<Rightarrow> bool list \<Rightarrow> 32 word" where
  "crc_serial c [] = c"
| "crc_serial c (b # bs) = crc_serial (crc_bit (c XOR (if b then 1 else 0))) bs"

definition byte_bits :: "8 word \<Rightarrow> bool list" where
  "byte_bits x = map (bit x) [0..<8]"

lemma crc_serial_append: "crc_serial c (xs @ ys) = crc_serial (crc_serial c xs) ys"
  by (induction c xs rule: crc_serial.induct) simp_all

lemma crc_bit_absorb:
  "crc_bit (c XOR y) = crc_bit (c XOR (if bit y 0 then 1 else 0)) XOR drop_bit 1 y"
proof -
  let ?b = "if bit y 0 then 1 else 0 :: 32 word" and ?z = "push_bit 1 (drop_bit 1 y)"
  have y: "y = ?b XOR ?z"
  proof (rule bit_word_eqI)
    fix n assume "n < LENGTH(32)"
    then show "bit y n = bit (?b XOR ?z) n"
      unfolding bit_xor_iff bit_push_bit_iff bit_drop_bit_eq o_def
      by (cases n) (auto simp: bit_1_iff)
  qed
  have z: "crc_bit ?z = drop_bit 1 y"
  proof (rule crc_bit_even)
    show "take_bit 31 (drop_bit 1 y) = drop_bit 1 y"
      by (rule bit_word_eqI)
        (unfold bit_take_bit_iff bit_drop_bit_eq o_def, auto dest: bit_imp_le_length)
  qed
  have "c XOR y = c XOR (?b XOR ?z)" by (rule arg_cong [OF y])
  also have "\<dots> = (c XOR ?b) XOR ?z" by (rule xor.assoc [symmetric])
  finally have "crc_bit (c XOR y) = crc_bit ((c XOR ?b) XOR ?z)" by (rule arg_cong)
  also have "\<dots> = crc_bit (c XOR ?b) XOR crc_bit ?z" by (rule crc_bit_xor)
  finally show ?thesis unfolding z .
qed

lemma crc_serial_steps:
  "crc_serial c (map (bit y) [k..<k + j]) XOR drop_bit (k + j) y = (crc_bit ^^ j) (c XOR drop_bit k (y :: 32 word))"
proof (induction j arbitrary: c k)
  case (Suc j)
  let ?b = "if bit y k then 1 else 0 :: 32 word"
  have u: "[k..<k + Suc j] = k # [Suc k..<Suc k + j]" by (simp add: upt_conv_Cons)
  have s: "crc_bit (c XOR drop_bit k y) = crc_bit (c XOR ?b) XOR drop_bit (Suc k) y"
    using crc_bit_absorb [of c "drop_bit k y"] by (simp add: bit_drop_bit_eq)
  have "crc_serial c (map (bit y) [k..<k + Suc j]) XOR drop_bit (k + Suc j) y =
      crc_serial (crc_bit (c XOR ?b)) (map (bit y) [Suc k..<Suc k + j]) XOR drop_bit (Suc k + j) y"
    unfolding u by simp
  also have "\<dots> = (crc_bit ^^ j) (crc_bit (c XOR ?b) XOR drop_bit (Suc k) y)" by (rule Suc.IH)
  also have "\<dots> = (crc_bit ^^ Suc j) (c XOR drop_bit k y)" unfolding s [symmetric] funpow_Suc_right by simp
  finally show ?case .
qed simp

lemma crc_serial_byte: "crc_serial c (byte_bits x) = DO_CRC c x"
proof -
  let ?y = "ucast x :: 32 word"
  have e: "drop_bit 8 ?y = 0"
    by (rule bit_word_eqI) (auto simp: bit_drop_bit_eq bit_ucast_iff dest: bit_imp_le_length)
  have m: "map (bit ?y) [0..<8] = byte_bits x"
    unfolding byte_bits_def by (intro map_cong refl) (simp add: bit_ucast_iff)
  have "(crc_bit ^^ 8) (c XOR ?y) = crc_byte (c XOR ?y)"
    by (simp add: crc_byte_def eval_nat_numeral)
  then show ?thesis using crc_serial_steps [of c ?y 0 8] by (simp add: e m DO_CRC_crc_byte)
qed

lemma crc_serial_foldl: "crc_serial c (concat (map byte_bits xs)) = foldl DO_CRC c xs"
  by (induction xs arbitrary: c) (simp_all add: crc_serial_append crc_serial_byte)

text \<open>Property C21: the checksum is the bit-serial CRC-32. For every buffer, starting value and
  alignment, the routine that aligns its input and takes whole words, and the byte-wise one,
  compute what feeding the bits of the message one at a time through the shift register of the
  reflected polynomial \<open>0xEDB88320\<close> computes.\<close>

theorem crc32_bit_serial:
  "crc32_no_comp addr crc buf = crc_serial crc (concat (map byte_bits buf)) \<and>
   nuttx_crc32part buf crc = crc_serial crc (concat (map byte_bits buf))"
  by (simp add: crc32_no_comp_foldl nuttx_crc32part_foldl crc_serial_foldl)

text \<open>A checksum can be computed in pieces. The CRC of a message continued from the
  CRC of a first part is the CRC of the whole, wherever the parts lie in memory, and the
  watchdog variant with any chunk size gives the same value.\<close>

theorem crc32_chunks:
  "crc32 addr2 (crc32 addr1 crc xs) ys = crc32 addr crc (xs @ ys) \<and>
   crc32_wd addr crc xs chunk_sz = crc32 addr crc xs \<and>
   nuttx_crc32part ys (nuttx_crc32part xs crc) = nuttx_crc32part (xs @ ys) crc"
proof -
  have "(c XOR 0xffffffff) XOR 0xffffffff = c" for c :: "32 word"
    by (simp add: xor.assoc)
  then show ?thesis
    by (simp add: crc32_def crc32_wd_def crc32_no_comp_foldl nuttx_crc32part_foldl)
qed

text \<open>No step loses information: the polynomial has its top bit set.\<close>

lemma xor_cancel_right: "a XOR c = b XOR c \<Longrightarrow> a = (b :: 32 word)"
proof -
  assume "a XOR c = b XOR c"
  then have "(a XOR c) XOR c = (b XOR c) XOR c" by (rule arg_cong)
  then show "a = b" by (simp add: xor.assoc)
qed

lemma xor_cancel_left: "c XOR a = c XOR b \<Longrightarrow> a = (b :: 32 word)"
  using xor_cancel_right [of a c b] by (simp add: xor.commute)

lemma crc_bit_eq_0: "crc_bit c = 0 \<Longrightarrow> c = 0"
proof -
  assume z: "crc_bit c = 0"
  have "\<not> bit c 32" using bit_imp_le_length [of c 32] by auto
  then have d: "\<not> bit (drop_bit 1 c) 31" by (simp add: bit_drop_bit_eq)
  have b0: "\<not> bit c 0"
  proof
    assume "bit c 0"
    then have "bit (crc_bit c) 31" using d by (simp add: crc_bit_def bit_xor_iff del: bit_0)
    then show False using z by simp
  qed
  then have d0: "drop_bit 1 c = 0" using z unfolding crc_bit_def by (simp only: if_False)
  show "c = 0"
  proof (rule bit_word_eqI)
    fix n assume "n < LENGTH(32)"
    show "bit c n = bit 0 n"
    proof (cases n)
      case (Suc k)
      have "bit (drop_bit 1 c) k = bit c n" by (simp add: bit_drop_bit_eq Suc)
      then show ?thesis unfolding d0 by simp
    qed (use b0 in simp)
  qed
qed

lemma crc_bit_inj: "(crc_bit ^^ j) a = (crc_bit ^^ j) b \<Longrightarrow> a = b"
proof (induction j arbitrary: a b)
  case (Suc j)
  have "(crc_bit ^^ j) (crc_bit a) = (crc_bit ^^ j) (crc_bit b)"
    using Suc.prems by (simp only: funpow_Suc_right o_apply)
  then have "crc_bit a = crc_bit b" by (rule Suc.IH)
  then have "crc_bit (a XOR b) = 0" by (simp add: crc_bit_xor)
  then have "a XOR b = b XOR b" using crc_bit_eq_0 by simp
  then show ?case by (rule xor_cancel_right)
qed simp

lemma crc_serial_pack:
  assumes "length bs \<le> 32"
  shows "crc_serial c bs = (crc_bit ^^ length bs) (c XOR horner_sum of_bool 2 bs)"
proof -
  let ?y = "horner_sum of_bool 2 bs :: 32 word"
  have b: "bit ?y n \<longleftrightarrow> n < length bs \<and> bs ! n" for n
    using assms by (auto simp: bit_horner_sum_bit_word_iff)
  have "map (bit ?y) [0..<length bs] = bs" by (rule nth_equalityI) (auto simp: b)
  moreover have "drop_bit (length bs) ?y = 0" by (rule bit_word_eqI) (auto simp: bit_drop_bit_eq b)
  ultimately show ?thesis using crc_serial_steps [of c ?y 0 "length bs"] by simp
qed

lemma crc_serial_burst:
  assumes "length us = length vs" "length us \<le> 32" "crc_serial c us = crc_serial c vs"
  shows "us = vs"
proof -
  have "c XOR horner_sum of_bool 2 us = c XOR (horner_sum of_bool 2 vs :: 32 word)"
    using assms crc_serial_pack [of us c] crc_serial_pack [of vs c] by (auto dest: crc_bit_inj)
  then have e: "horner_sum of_bool 2 us = (horner_sum of_bool 2 vs :: 32 word)"
    by (rule xor_cancel_left)
  show ?thesis
  proof (rule nth_equalityI [OF assms(1)])
    fix n assume n: "n < length us"
    have "bit (horner_sum of_bool 2 us :: 32 word) n = us ! n" "bit (horner_sum of_bool 2 vs :: 32 word) n = vs ! n"
      using n assms(1,2) by (auto simp: bit_horner_sum_bit_word_iff)
    then show "us ! n = vs ! n" unfolding e by simp
  qed
qed

lemma crc_serial_inj: "crc_serial c bs = crc_serial d bs \<Longrightarrow> c = d"
proof (induction bs arbitrary: c d)
  case (Cons b bs)
  let ?b = "if b then 1 else 0 :: 32 word"
  have "crc_bit (c XOR ?b) = crc_bit (d XOR ?b)" using Cons.IH Cons.prems by simp
  then have "c XOR ?b = d XOR ?b" using crc_bit_inj [of 1 "c XOR ?b" "d XOR ?b"] by simp
  then show ?case by (rule xor_cancel_right)
qed simp

text \<open>Property C36: every burst of up to 32 bits is detected. Two messages whose bit sequences agree
  before and behind a window of at most 32 bits and differ inside it have different checksums,
  from any starting value and at any alignment.\<close>

theorem crc32_detects_bursts:
  assumes "concat (map byte_bits m1) = pre @ us @ post" "concat (map byte_bits m2) = pre @ vs @ post"
    and "length us = length vs" "length us \<le> 32" "us \<noteq> vs"
  shows "crc32 addr1 crc m1 \<noteq> crc32 addr2 crc m2"
proof
  assume "crc32 addr1 crc m1 = crc32 addr2 crc m2"
  then have "crc32_no_comp addr1 (crc XOR 0xffffffff) m1 = crc32_no_comp addr2 (crc XOR 0xffffffff) m2"
    unfolding crc32_def by (rule xor_cancel_right)
  then have "crc_serial (crc XOR 0xffffffff) (pre @ us @ post) = crc_serial (crc XOR 0xffffffff) (pre @ vs @ post)"
    using crc_serial_foldl [of "crc XOR 0xffffffff" m1] crc_serial_foldl [of "crc XOR 0xffffffff" m2] assms(1,2)
    by (simp add: crc32_no_comp_foldl)
  then have "crc_serial (crc_serial (crc XOR 0xffffffff) pre) us = crc_serial (crc_serial (crc XOR 0xffffffff) pre) vs"
    unfolding crc_serial_append by (rule crc_serial_inj)
  then have "us = vs" by (rule crc_serial_burst [OF assms(3,4)])
  with assms(5) show False by simp
qed

theorem crc32_detects_bursts_witness:
  "crc32 0 0 [1, 2, 3] \<noteq> crc32 1 0 [1, 6, 3]"
proof -
  have "bit (2 :: 8 word) 2 \<noteq> bit (6 :: 8 word) 2" by simp
  then have "byte_bits 2 ! 2 \<noteq> byte_bits 6 ! 2" by (simp add: byte_bits_def)
  then have "byte_bits 2 \<noteq> byte_bits 6" by metis
  then show ?thesis
    using crc32_detects_bursts [of "[1, 2, 3]" "byte_bits 1" "byte_bits 2" "byte_bits 3" "[1, 6, 3]" "byte_bits 6" 0 0 1]
    by (simp add: byte_bits_def)
qed

end
