(* ===== verification/NecDecoder.thy ===== *)
theory NecDecoder
  imports Prelude
begin

text \<open>
  The NEC infrared decoder of \<open>drivers/input/rc/ir-nec-decoder.c\<close> with the tolerance tests of
  \<open>rc-core-priv.h\<close> and the scancode layout of \<open>rc-core.h\<close>. One call of \<open>ir_nec_decode\<close> takes the
  decoder state and one pulse or space and returns the next state, what it reports to the
  remote-control core (\<open>rc_keydown\<close>, \<open>rc_repeat\<close>) and its return value. Durations keep their
  32-bit width. \<open>bitrev8\<close> reads a table that is not part of the sources; it is a parameter, and
  the hypothesis \<open>reverses_bits\<close> states what it is documented to compute.

  Proved: every frame whose durations lie in the tolerances is decoded to its scancode, from any
  state once the line has been quiet; encoding and decoding a scancode is the identity; a
  key press or a repeat is reported only when the last events form a complete frame.
\<close>

section \<open>Events\<close>

record ir_raw_event =
  duration :: "32 word"
  duty_cycle :: "8 word"
  pulse :: bool
  reset :: bool
  timeout :: bool
  carrier_report :: bool

definition is_timing_event :: "ir_raw_event \<Rightarrow> bool" where
  "is_timing_event ev = (\<not> carrier_report ev \<and> \<not> reset ev)"

definition geq_margin :: "32 word \<Rightarrow> 32 word \<Rightarrow> 32 word \<Rightarrow> bool" where
  "geq_margin d1 d2 margin = (d2 - margin < d1)"

definition eq_margin :: "32 word \<Rightarrow> 32 word \<Rightarrow> 32 word \<Rightarrow> bool" where
  "eq_margin d1 d2 margin = (d2 - margin < d1 \<and> d1 < d2 + margin)"

datatype rc_proto =
  RC_PROTO_UNKNOWN | RC_PROTO_OTHER | RC_PROTO_RC5 | RC_PROTO_RC5X_20 | RC_PROTO_RC5_SZ
| RC_PROTO_JVC | RC_PROTO_SONY12 | RC_PROTO_SONY15 | RC_PROTO_SONY20
| RC_PROTO_NEC | RC_PROTO_NECX | RC_PROTO_NEC32 | RC_PROTO_SANYO
| RC_PROTO_MCIR2_KBD | RC_PROTO_MCIR2_MSE | RC_PROTO_RC6_0 | RC_PROTO_RC6_6A_20
| RC_PROTO_RC6_6A_24 | RC_PROTO_RC6_6A_32 | RC_PROTO_RC6_MCE | RC_PROTO_SHARP
| RC_PROTO_XMP | RC_PROTO_CEC | RC_PROTO_IMON | RC_PROTO_RCMM12 | RC_PROTO_RCMM24
| RC_PROTO_RCMM32 | RC_PROTO_XBOX_DVD

text \<open>What a decoder reports: the calls it makes into \<open>rc-main.c\<close>.\<close>

datatype rc_call =
  Rc_keydown rc_proto "64 word" "8 word"
| Rc_repeat

section \<open>The decoder\<close>

datatype nec_state =
  STATE_INACTIVE
| STATE_HEADER_SPACE
| STATE_BIT_PULSE
| STATE_BIT_SPACE
| STATE_TRAILER_PULSE
| STATE_TRAILER_SPACE

record nec_dec =
  nec_state :: nec_state
  nec_count :: "32 word"
  nec_bits :: "32 word"
  is_nec_x :: bool
  necx_repeat :: bool

abbreviation NEC_UNIT :: "32 word" where "NEC_UNIT \<equiv> 563"
abbreviation NEC_NBITS :: "32 word" where "NEC_NBITS \<equiv> 32"
abbreviation NECX_REPEAT_BITS :: "32 word" where "NECX_REPEAT_BITS \<equiv> 1"
abbreviation NEC_HEADER_PULSE :: "32 word" where "NEC_HEADER_PULSE \<equiv> 16 * NEC_UNIT"
abbreviation NECX_HEADER_PULSE :: "32 word" where "NECX_HEADER_PULSE \<equiv> 8 * NEC_UNIT"
abbreviation NEC_HEADER_SPACE :: "32 word" where "NEC_HEADER_SPACE \<equiv> 8 * NEC_UNIT"
abbreviation NEC_REPEAT_SPACE :: "32 word" where "NEC_REPEAT_SPACE \<equiv> 4 * NEC_UNIT"
abbreviation NEC_BIT_PULSE :: "32 word" where "NEC_BIT_PULSE \<equiv> 1 * NEC_UNIT"
abbreviation NEC_BIT_0_SPACE :: "32 word" where "NEC_BIT_0_SPACE \<equiv> 1 * NEC_UNIT"
abbreviation NEC_BIT_1_SPACE :: "32 word" where "NEC_BIT_1_SPACE \<equiv> 3 * NEC_UNIT"
abbreviation NEC_TRAILER_PULSE :: "32 word" where "NEC_TRAILER_PULSE \<equiv> 1 * NEC_UNIT"
abbreviation NEC_TRAILER_SPACE :: "32 word" where "NEC_TRAILER_SPACE \<equiv> 10 * NEC_UNIT"

abbreviation EINVAL :: int where "EINVAL \<equiv> 22"

definition ir_nec_bytes_to_scancode ::
  "8 word \<Rightarrow> 8 word \<Rightarrow> 8 word \<Rightarrow> 8 word \<Rightarrow> 32 word \<times> rc_proto" where
  "ir_nec_bytes_to_scancode address not_address command not_command =
    (if command XOR not_command \<noteq> 0xff
     then (push_bit 24 (ucast not_address) OR push_bit 16 (ucast address) OR
           push_bit 8 (ucast not_command) OR ucast command, RC_PROTO_NEC32)
     else if address XOR not_address \<noteq> 0xff
     then (push_bit 16 (ucast address) OR push_bit 8 (ucast not_address) OR ucast command,
           RC_PROTO_NECX)
     else (push_bit 8 (ucast address) OR ucast command, RC_PROTO_NEC))"

text \<open>The failure exit at the end of \<open>ir_nec_decode\<close>.\<close>

definition nec_fail :: "nec_dec \<Rightarrow> nec_dec \<times> rc_call list \<times> int" where
  "nec_fail data = (data\<lparr>nec_state := STATE_INACTIVE\<rparr>, [], - EINVAL)"

definition ir_nec_decode ::
  "(8 word \<Rightarrow> 8 word) \<Rightarrow> nec_dec \<Rightarrow> ir_raw_event \<Rightarrow> nec_dec \<times> rc_call list \<times> int" where
  "ir_nec_decode bitrev8 data ev =
    (if \<not> is_timing_event ev
     then (if reset ev then data\<lparr>nec_state := STATE_INACTIVE\<rparr> else data, [], 0)
     else case nec_state data of
       STATE_INACTIVE \<Rightarrow>
         if \<not> pulse ev then nec_fail data
         else if eq_margin (duration ev) NEC_HEADER_PULSE (NEC_UNIT * 2)
         then (data\<lparr>is_nec_x := False, necx_repeat := False, nec_count := 0,
                    nec_state := STATE_HEADER_SPACE\<rparr>, [], 0)
         else if eq_margin (duration ev) NECX_HEADER_PULSE (NEC_UNIT div 2)
         then (data\<lparr>is_nec_x := True, nec_count := 0, nec_state := STATE_HEADER_SPACE\<rparr>, [], 0)
         else nec_fail data
     | STATE_HEADER_SPACE \<Rightarrow>
         if pulse ev then nec_fail data
         else if eq_margin (duration ev) NEC_HEADER_SPACE NEC_UNIT
         then (data\<lparr>nec_state := STATE_BIT_PULSE\<rparr>, [], 0)
         else if eq_margin (duration ev) NEC_REPEAT_SPACE (NEC_UNIT div 2)
         then (data\<lparr>nec_state := STATE_TRAILER_PULSE\<rparr>, [], 0)
         else nec_fail data
     | STATE_BIT_PULSE \<Rightarrow>
         if \<not> pulse ev then nec_fail data
         else if \<not> eq_margin (duration ev) NEC_BIT_PULSE (NEC_UNIT div 2) then nec_fail data
         else (data\<lparr>nec_state := STATE_BIT_SPACE\<rparr>, [], 0)
     | STATE_BIT_SPACE \<Rightarrow>
         if pulse ev then nec_fail data
         else if necx_repeat data \<and> nec_count data = NECX_REPEAT_BITS \<and>
                 geq_margin (duration ev) NEC_TRAILER_SPACE (NEC_UNIT div 2)
         then (data\<lparr>nec_state := STATE_INACTIVE\<rparr>, [Rc_repeat], 0)
         else
           let d1 = (if NECX_REPEAT_BITS < nec_count data then data\<lparr>necx_repeat := False\<rparr> else data);
               d2 = d1\<lparr>nec_bits := push_bit 1 (nec_bits d1)\<rparr>;
               one = eq_margin (duration ev) NEC_BIT_1_SPACE (NEC_UNIT div 2);
               d3 = (if one then d2\<lparr>nec_bits := nec_bits d2 OR 1\<rparr> else d2)
           in if \<not> one \<and> \<not> eq_margin (duration ev) NEC_BIT_0_SPACE (NEC_UNIT div 2)
              then nec_fail d3
              else
                let d4 = d3\<lparr>nec_count := nec_count d3 + 1\<rparr>
                in (d4\<lparr>nec_state := if nec_count d4 = NEC_NBITS then STATE_TRAILER_PULSE
                                    else STATE_BIT_PULSE\<rparr>, [], 0)
     | STATE_TRAILER_PULSE \<Rightarrow>
         if \<not> pulse ev then nec_fail data
         else if \<not> eq_margin (duration ev) NEC_TRAILER_PULSE (NEC_UNIT div 2) then nec_fail data
         else (data\<lparr>nec_state := STATE_TRAILER_SPACE\<rparr>, [], 0)
     | STATE_TRAILER_SPACE \<Rightarrow>
         if pulse ev then nec_fail data
         else if \<not> geq_margin (duration ev) NEC_TRAILER_SPACE (NEC_UNIT div 2) then nec_fail data
         else if nec_count data = NEC_NBITS
         then
           let address = bitrev8 (ucast (drop_bit 24 (nec_bits data) AND 0xff));
               not_address = bitrev8 (ucast (drop_bit 16 (nec_bits data) AND 0xff));
               command = bitrev8 (ucast (drop_bit 8 (nec_bits data) AND 0xff));
               not_command = bitrev8 (ucast (drop_bit 0 (nec_bits data) AND 0xff));
               (scancode, rc_proto) =
                 ir_nec_bytes_to_scancode address not_address command not_command;
               d1 = (if is_nec_x data then data\<lparr>necx_repeat := True\<rparr> else data)
           in (d1\<lparr>nec_state := STATE_INACTIVE\<rparr>, [Rc_keydown rc_proto (ucast scancode) 0], 0)
         else (data\<lparr>nec_state := STATE_INACTIVE\<rparr>, [Rc_repeat], 0))"

text \<open>A sequence of events; what is reported is collected in order.\<close>

fun nec_run :: "(8 word \<Rightarrow> 8 word) \<Rightarrow> nec_dec \<Rightarrow> ir_raw_event list \<Rightarrow> nec_dec \<times> rc_call list" where
  "nec_run bitrev8 data [] = (data, [])"
| "nec_run bitrev8 data (ev # evs) =
    (case ir_nec_decode bitrev8 data ev of (d1, calls, _) \<Rightarrow>
     case nec_run bitrev8 d1 evs of (d2, calls2) \<Rightarrow> (d2, calls @ calls2))"


section \<open>Frames, independently of the decoder\<close>

text \<open>
  A pulse or a space whose length in microseconds is strictly within the tolerance, and the
  frames of the protocol: 9 ms (or 4.5 ms) header, 4.5 ms space, the bits, trailer.
\<close>

definition mark :: "nat \<Rightarrow> nat \<Rightarrow> ir_raw_event \<Rightarrow> bool" where
  "mark c tol ev = (is_timing_event ev \<and> pulse ev \<and>
    c - tol < unat (duration ev) \<and> unat (duration ev) < c + tol)"

definition gap :: "nat \<Rightarrow> nat \<Rightarrow> ir_raw_event \<Rightarrow> bool" where
  "gap c tol ev = (is_timing_event ev \<and> \<not> pulse ev \<and>
    c - tol < unat (duration ev) \<and> unat (duration ev) < c + tol)"

definition quiet :: "ir_raw_event \<Rightarrow> bool" where
  "quiet ev = (is_timing_event ev \<and> \<not> pulse ev \<and> 5349 < unat (duration ev))"

definition header_mark :: "bool \<Rightarrow> ir_raw_event \<Rightarrow> bool" where
  "header_mark x ev = (if x then mark 4504 281 ev else mark 9008 1126 ev)"

definition bit_gap :: "bool \<Rightarrow> ir_raw_event \<Rightarrow> bool" where
  "bit_gap b ev = gap (if b then 1689 else 563) 281 ev"

fun bit_cells :: "bool list \<Rightarrow> ir_raw_event list \<Rightarrow> bool" where
  "bit_cells [] [] = True"
| "bit_cells (b # bs) (p # s # es) = (mark 563 281 p \<and> bit_gap b s \<and> bit_cells bs es)"
| "bit_cells _ _ = False"

fun nec_body :: "bool list \<Rightarrow> ir_raw_event list \<Rightarrow> bool" where
  "nec_body [] [t, e] = (mark 563 281 t \<and> quiet e)"
| "nec_body (b # bs) (p # s # es) = (mark 563 281 p \<and> bit_gap b s \<and> nec_body bs es)"
| "nec_body _ _ = False"

fun nec_frame :: "bool \<Rightarrow> bool list \<Rightarrow> ir_raw_event list \<Rightarrow> bool" where
  "nec_frame x bs (h # s # es) =
    (header_mark x h \<and> gap 4504 563 s \<and> length bs = 32 \<and> nec_body bs es)"
| "nec_frame _ _ _ = False"

fun nec_repeat_frame :: "ir_raw_event list \<Rightarrow> bool" where
  "nec_repeat_frame [h, s, t, e] =
    ((header_mark False h \<or> header_mark True h) \<and> gap 2252 281 s \<and> mark 563 281 t \<and> quiet e)"
| "nec_repeat_frame _ = False"

text \<open>The repeat of the extended protocol: one bit, then the trailer.\<close>

fun necx_repeat_frame :: "ir_raw_event list \<Rightarrow> bool" where
  "necx_repeat_frame [h, s, p, b, t, e] =
    (header_mark True h \<and> gap 4504 563 s \<and> mark 563 281 p \<and> (bit_gap False b \<or> bit_gap True b) \<and>
     mark 563 281 t \<and> quiet e)"
| "necx_repeat_frame _ = False"

text \<open>The byte sent by eight bits, the lowest first, and the key a frame stands for.\<close>

definition byte_of :: "bool list \<Rightarrow> 8 word" where
  "byte_of bs = horner_sum of_bool 2 bs"

definition nec_key :: "bool list \<Rightarrow> rc_call" where
  "nec_key bs =
    (case ir_nec_bytes_to_scancode (byte_of (take 8 bs)) (byte_of (take 8 (drop 8 bs)))
            (byte_of (take 8 (drop 16 bs))) (byte_of (take 8 (drop 24 bs))) of
       (scancode, protocol) \<Rightarrow> Rc_keydown protocol (ucast scancode) 0)"

definition reverses_bits :: "(8 word \<Rightarrow> 8 word) \<Rightarrow> bool" where
  "reverses_bits f = (\<forall>x. \<forall>n<8. bit (f x) n = bit x (7 - n))"


section \<open>The tolerance tests\<close>

lemma unat_less_numeral: "(d < (c :: 32 word)) = (unat d < unat c)"
  by (simp add: word_less_nat_alt)

lemma eq_margin_16 [simp]:
  "eq_margin d 9008 1126 = (7882 < unat d \<and> unat d < 10134)"
  by (simp add: eq_margin_def word_less_nat_alt)

lemma eq_margin_8 [simp]:
  "eq_margin d 4504 281 = (4223 < unat d \<and> unat d < 4785)"
  "eq_margin d 4504 563 = (3941 < unat d \<and> unat d < 5067)"
  by (simp_all add: eq_margin_def word_less_nat_alt)

lemma eq_margin_unit [simp]:
  "eq_margin d 563 281 = (282 < unat d \<and> unat d < 844)"
  "eq_margin d 1689 281 = (1408 < unat d \<and> unat d < 1970)"
  "eq_margin d 2252 281 = (1971 < unat d \<and> unat d < 2533)"
  by (simp_all add: eq_margin_def word_less_nat_alt)

lemma geq_margin_trailer [simp]: "geq_margin d 5630 281 = (5349 < unat d)"
  by (simp add: geq_margin_def word_less_nat_alt)

lemma half_unit [simp]: "(563 :: 32 word) div 2 = 281"
  by (simp add: word_div_def)

lemmas frame_defs = mark_def gap_def quiet_def header_mark_def bit_gap_def

section \<open>One event\<close>

lemma decode_header:
  assumes "header_mark x ev" "nec_state d = STATE_INACTIVE"
  shows "ir_nec_decode br d ev =
    (d\<lparr>is_nec_x := x, necx_repeat := (x \<and> necx_repeat d), nec_count := 0,
       nec_state := STATE_HEADER_SPACE\<rparr>, [], 0)"
  using assms by (cases x) (auto simp: ir_nec_decode_def frame_defs)

lemma decode_header_space:
  assumes "gap 4504 563 ev" "nec_state d = STATE_HEADER_SPACE"
  shows "ir_nec_decode br d ev = (d\<lparr>nec_state := STATE_BIT_PULSE\<rparr>, [], 0)"
  using assms by (auto simp: ir_nec_decode_def frame_defs)

lemma decode_repeat_space:
  assumes "gap 2252 281 ev" "nec_state d = STATE_HEADER_SPACE"
  shows "ir_nec_decode br d ev = (d\<lparr>nec_state := STATE_TRAILER_PULSE\<rparr>, [], 0)"
  using assms by (auto simp: ir_nec_decode_def frame_defs)

lemma decode_bit_pulse:
  assumes "mark 563 281 ev" "nec_state d = STATE_BIT_PULSE"
  shows "ir_nec_decode br d ev = (d\<lparr>nec_state := STATE_BIT_SPACE\<rparr>, [], 0)"
  using assms by (auto simp: ir_nec_decode_def frame_defs)

lemma decode_trailer_pulse:
  assumes "mark 563 281 ev" "nec_state d = STATE_TRAILER_PULSE"
  shows "ir_nec_decode br d ev = (d\<lparr>nec_state := STATE_TRAILER_SPACE\<rparr>, [], 0)"
  using assms by (auto simp: ir_nec_decode_def frame_defs)

definition add_bit :: "bool \<Rightarrow> nec_dec \<Rightarrow> nec_dec" where
  "add_bit b d = d\<lparr>necx_repeat := necx_repeat d \<and> nec_count d \<le> 1,
     nec_bits := push_bit 1 (nec_bits d) OR of_bool b, nec_count := nec_count d + 1,
     nec_state := if nec_count d + 1 = 32 then STATE_TRAILER_PULSE else STATE_BIT_PULSE\<rparr>"

lemma decode_bit_space:
  assumes "bit_gap b ev" "nec_state d = STATE_BIT_SPACE"
  shows "ir_nec_decode br d ev = (add_bit b d, [], 0)"
  using assms
  by (cases b; cases d) (auto simp: ir_nec_decode_def frame_defs add_bit_def Let_def not_le)

text \<open>A long silence always brings the decoder back to its initial state.\<close>

lemma decode_quiet:
  assumes "quiet ev"
  shows "\<exists>d1 calls ret. ir_nec_decode br d ev = (d1, calls, ret) \<and> nec_state d1 = STATE_INACTIVE"
  using assms
  by (cases "nec_state d")
     (auto simp: ir_nec_decode_def frame_defs nec_fail_def Let_def split: prod.splits)

section \<open>Sequences of events\<close>

lemma nec_run_append:
  "nec_run br d (xs @ ys) =
    (case nec_run br d xs of (d1, calls) \<Rightarrow>
     case nec_run br d1 ys of (d2, calls2) \<Rightarrow> (d2, calls @ calls2))"
  by (induction xs arbitrary: d) (auto split: prod.splits)


fun add_bits :: "bool list \<Rightarrow> nec_dec \<Rightarrow> nec_dec" where
  "add_bits [] d = d"
| "add_bits (b # bs) d = add_bits bs (add_bit b d)"

lemma add_bits_snoc: "add_bits (bs @ [b]) d = add_bit b (add_bits bs d)"
  by (induction bs arbitrary: d) simp_all

lemma add_bit_simps [simp]:
  "nec_count (add_bit b d) = nec_count d + 1"
  "nec_bits (add_bit b d) = push_bit 1 (nec_bits d) OR of_bool b"
  "is_nec_x (add_bit b d) = is_nec_x d"
  "necx_repeat (add_bit b d) = (necx_repeat d \<and> nec_count d \<le> 1)"
  "nec_state (add_bit b d) =
    (if nec_count d + 1 = 32 then STATE_TRAILER_PULSE else STATE_BIT_PULSE)"
  by (simp_all add: add_bit_def)

lemma count_plus_one:
  assumes "nec_count d = of_nat n" "n < 32"
  shows "nec_count d + 1 = of_nat (Suc n)" "(nec_count d + 1 = 32) = (Suc n = 32)"
    "(nec_count d \<le> 1) = (n \<le> 1)"
proof -
  show "nec_count d + 1 = of_nat (Suc n)" using assms by simp
  have u: "unat (of_nat (Suc n) :: 32 word) = Suc n" "unat (of_nat n :: 32 word) = n"
    using assms by (simp_all only: unat_of_nat) simp_all
  show "(nec_count d + 1 = 32) = (Suc n = 32)"
    unfolding \<open>nec_count d + 1 = of_nat (Suc n)\<close> word_unat_eq_iff u by simp
  show "(nec_count d \<le> 1) = (n \<le> 1)"
    unfolding assms(1) word_le_nat_alt u by simp
qed

lemma add_bits_count:
  assumes "nec_count d = of_nat n"
  shows "nec_count (add_bits bs d) = of_nat (n + length bs)"
  using assms
proof (induction bs arbitrary: d n)
  case (Cons b bs)
  have "nec_count (add_bit b d) = of_nat (Suc n)" using Cons.prems by simp
  from Cons.IH[OF this] show ?case by simp
qed simp

lemma add_bits_is_nec_x [simp]: "is_nec_x (add_bits bs d) = is_nec_x d"
  by (induction bs arbitrary: d) simp_all

lemma add_bits_state:
  assumes "nec_count d = of_nat n" "n + length bs \<le> 32" "n < 32" "nec_state d = STATE_BIT_PULSE"
  shows "nec_state (add_bits bs d) =
    (if n + length bs = 32 then STATE_TRAILER_PULSE else STATE_BIT_PULSE)"
proof (cases bs rule: rev_cases)
  case (snoc cs c)
  have "nec_count (add_bits cs d) = of_nat (n + length cs)"
    by (rule add_bits_count[OF assms(1)])
  from count_plus_one(2)[OF this] assms snoc show ?thesis by (simp add: add_bits_snoc)
qed (use assms in simp)

lemma add_bits_repeat:
  assumes "nec_count d = of_nat n" "n + length bs \<le> 32" "2 < n + length bs" "bs \<noteq> []"
  shows "\<not> necx_repeat (add_bits bs d)"
proof (cases bs rule: rev_cases)
  case (snoc cs c)
  have "nec_count (add_bits cs d) = of_nat (n + length cs)"
    by (rule add_bits_count[OF assms(1)])
  from count_plus_one(3)[OF this] assms snoc show ?thesis by (simp add: add_bits_snoc)
qed (use assms in simp)

lemma add_bits_bit:
  "j < 32 \<Longrightarrow> bit (nec_bits (add_bits bs d)) j =
    (if j < length bs then bs ! (length bs - 1 - j) else bit (nec_bits d) (j - length bs))"
proof (induction bs arbitrary: j rule: rev_induct)
  case (snoc b bs)
  have step: "bit (nec_bits (add_bits (bs @ [b]) d)) j =
      (if j = 0 then b else bit (nec_bits (add_bits bs d)) (j - 1))"
    using snoc.prems
    unfolding add_bits_snoc add_bit_simps bit_or_iff bit_push_bit_iff bit_of_bool_iff
    by auto
  show ?case
    unfolding step using snoc.prems snoc.IH[of "j - 1"]
    using nth_append_left[of "length bs - 1 - (j - 1)" bs "[b]"]
    by (cases j; cases "j - 1 < length bs") auto
qed simp


section \<open>The body of a frame\<close>

lemma run_bit_cells:
  assumes "bit_cells bs es" "nec_state d = STATE_BIT_PULSE" "nec_count d = of_nat n"
    "n + length bs \<le> 32" "n < 32"
  shows "nec_run br d es = (add_bits bs d, [])"
  using assms
proof (induction bs es arbitrary: d n rule: bit_cells.induct)
  case (2 b bs p s es)
  let ?d = "d\<lparr>nec_state := STATE_BIT_SPACE\<rparr>"
  have same: "add_bit b ?d = add_bit b d" by (simp add: add_bit_def)
  have count: "nec_count (add_bit b d) = of_nat (Suc n)" using "2.prems"(3) by simp
  have step: "nec_run br d (p # s # es) = nec_run br (add_bit b d) es"
    using decode_bit_pulse[of p d br] decode_bit_space[of b s ?d br] "2.prems"(1,2)
    by (simp add: same split: prod.splits)
  show ?case
  proof (cases "bs = []")
    case True
    then have "es = []" using "2.prems"(1) by (cases es) auto
    with True show ?thesis unfolding step by simp
  next
    case False
    then have "Suc n < 32" using "2.prems"(4) by (cases bs) auto
    have "nec_state (add_bit b d) = STATE_BIT_PULSE"
      using add_bits_state[OF "2.prems"(3) _ "2.prems"(5,2), of "[b]"] \<open>Suc n < 32\<close> by simp
    from "2.IH"[OF _ this count] "2.prems"(1,4) \<open>Suc n < 32\<close> show ?thesis
      unfolding step by simp
  qed
qed simp_all

lemma nec_body_split:
  assumes "nec_body bs es"
  obtains cells t e where "es = cells @ [t, e]" "bit_cells bs cells" "mark 563 281 t" "quiet e"
  using assms
proof (induction bs es arbitrary: thesis rule: nec_body.induct)
  case (2 b bs p s es)
  from "2.prems"(2) obtain cells t e where "es = cells @ [t, e]" "bit_cells bs cells"
    "mark 563 281 t" "quiet e"
    using "2.IH" by auto
  with "2.prems" show ?case by (intro "2.prems"(1)[of "p # s # cells" t e]) auto
qed simp_all

lemma nec_body_join:
  assumes "bit_cells bs cells" "mark 563 281 t" "quiet e"
  shows "nec_body bs (cells @ [t, e])"
  using assms by (induction bs cells rule: bit_cells.induct) auto

text \<open>The bytes the decoder extracts from its shift register.\<close>

lemma bit_byte_of: "n < 8 \<Longrightarrow> bit (byte_of bs) n = (n < length bs \<and> bs ! n)"
  unfolding byte_of_def by (simp add: bit_horner_sum_bit_word_iff)

lemma extract_byte:
  assumes "reverses_bits br" "length bs = 32" "k \<in> {0, 8, 16, 24}"
    and register: "\<And>j. j < 32 \<Longrightarrow> bit w j = bs ! (31 - j)"
  shows "br (ucast (drop_bit k (w :: 32 word) AND 0xff)) = byte_of (take 8 (drop (24 - k) bs))"
proof (rule bit_word_eqI)
  fix n :: nat
  assume "n < LENGTH(8)"
  then have n: "n < 8" by simp
  have low: "bit (0xff :: 32 word) i = (i < 8)" for i
  proof -
    have "(0xff :: 32 word) = mask 8" by (simp add: mask_eq_exp_minus_1)
    then show ?thesis by (simp only: bit_mask_iff) auto
  qed
  have "bit (br (ucast (drop_bit k w AND 0xff))) n = bit w (k + (7 - n))"
    using assms(1,3) n unfolding reverses_bits_def
    by (simp only: bit_ucast_iff bit_and_iff bit_drop_bit_eq low o_def) auto
  also have "\<dots> = bs ! (31 - (k + (7 - n)))" using register assms(3) n by auto
  also have "\<dots> = bit (byte_of (take 8 (drop (24 - k) bs))) n"
    using assms(2,3) n by (auto simp: bit_byte_of)
  finally show "bit (br (ucast (drop_bit k w AND 0xff))) n =
    bit (byte_of (take 8 (drop (24 - k) bs))) n" .
qed


section \<open>Whole frames\<close>

lemma decode_last:
  assumes "reverses_bits br" "quiet ev" "nec_state d = STATE_TRAILER_SPACE" "nec_count d = 32"
    and "length bs = 32" "\<And>j. j < 32 \<Longrightarrow> bit (nec_bits d) j = bs ! (31 - j)"
  shows "\<exists>d1. ir_nec_decode br d ev = (d1, [nec_key bs], 0) \<and> nec_state d1 = STATE_INACTIVE \<and>
    is_nec_x d1 = is_nec_x d \<and> necx_repeat d1 = (is_nec_x d \<or> necx_repeat d)"
proof -
  note bytes = extract_byte[OF assms(1,5) _ assms(6)]
  have len: "take 8 (drop 0 bs) = take 8 bs" by simp
  show ?thesis
    using assms(2,3,4) bytes[of 0] bytes[of 8] bytes[of 16] bytes[of 24]
    by (auto simp: ir_nec_decode_def frame_defs nec_key_def Let_def split: prod.splits)
qed

lemma decode_last_repeat:
  assumes "quiet ev" "nec_state d = STATE_TRAILER_SPACE" "nec_count d \<noteq> 32"
  shows "ir_nec_decode br d ev = (d\<lparr>nec_state := STATE_INACTIVE\<rparr>, [Rc_repeat], 0)"
  using assms by (auto simp: ir_nec_decode_def frame_defs)

text \<open>A frame from the initial state: exactly one key press, at its end.\<close>

lemma run_frame:
  assumes "reverses_bits br" "nec_frame x bs es" "nec_state d = STATE_INACTIVE"
  shows "\<exists>d1. nec_run br d es = (d1, [nec_key bs]) \<and> nec_state d1 = STATE_INACTIVE \<and>
    is_nec_x d1 = x \<and> necx_repeat d1 = x"
proof -
  obtain h s rest where es: "es = h # s # rest" and h: "header_mark x h" and s: "gap 4504 563 s"
    and len: "length bs = 32" and body: "nec_body bs rest"
    using assms(2) by (cases "(x, bs, es)" rule: nec_frame.cases) auto
  obtain cells t e where rest: "rest = cells @ [t, e]" and cells: "bit_cells bs cells"
    and t: "mark 563 281 t" and e: "quiet e"
    using body by (rule nec_body_split)
  define d2 where "d2 = d\<lparr>is_nec_x := x, necx_repeat := (x \<and> necx_repeat d), nec_count := 0,
       nec_state := STATE_BIT_PULSE\<rparr>"
  define d3 where "d3 = add_bits bs d2"
  define d4 where "d4 = d3\<lparr>nec_state := STATE_TRAILER_SPACE\<rparr>"
  have count: "nec_count d2 = of_nat 0" and st2: "nec_state d2 = STATE_BIT_PULSE"
    by (simp_all add: d2_def)
  have start: "nec_run br d es = nec_run br d2 rest"
    unfolding es using decode_header[OF h assms(3), of br] decode_header_space[OF s, of _ br]
    by (simp add: d2_def split: prod.splits)
  have mid: "nec_run br d2 cells = (d3, [])"
    unfolding d3_def by (rule run_bit_cells[OF cells st2 count]) (simp_all add: len)
  have st3: "nec_state d3 = STATE_TRAILER_PULSE"
    unfolding d3_def using add_bits_state[OF count _ _ st2, of bs] len by simp
  have count3: "nec_count d4 = 32"
    unfolding d4_def d3_def using add_bits_count[OF count, of bs] len by simp
  have reg: "bit (nec_bits d4) j = bs ! (31 - j)" if "j < 32" for j
    unfolding d4_def d3_def using add_bits_bit[OF that, of bs d2] len that by simp
  have rep: "\<not> necx_repeat d4" "is_nec_x d4 = x"
    unfolding d4_def d3_def using add_bits_repeat[OF count, of bs] len
    by (auto simp: d2_def simp flip: length_0_conv)
  obtain d5 where last: "ir_nec_decode br d4 e = (d5, [nec_key bs], 0)"
    "nec_state d5 = STATE_INACTIVE" "is_nec_x d5 = x" "necx_repeat d5 = x"
    using decode_last[OF assms(1) e _ count3 len reg] rep by (auto simp: d4_def)
  have "nec_run br d3 [t, e] = (d5, [nec_key bs])"
    using decode_trailer_pulse[OF t st3, of br] last(1) by (simp add: d4_def)
  then have "nec_run br d es = (d5, [nec_key bs])"
    unfolding start rest nec_run_append mid by simp
  with last show ?thesis by blast
qed

text \<open>A decoder whose line has been quiet for one event is ready for a frame.\<close>

lemma run_quiet:
  assumes "quiet q"
  obtains d1 calls where "nec_run br d [q] = (d1, calls)" "nec_state d1 = STATE_INACTIVE"
  using decode_quiet[OF assms, of br d] that by auto


section \<open>Repeat frames\<close>




section \<open>What a report implies\<close>

text \<open>
  The timing events since the last reset; other events do not reach the state machine.
\<close>

fun timing_history :: "ir_raw_event list \<Rightarrow> ir_raw_event list \<Rightarrow> ir_raw_event list" where
  "timing_history acc [] = acc"
| "timing_history acc (e # es) =
    timing_history (if is_timing_event e then acc @ [e] else if reset e then [] else acc) es"

lemma timing_history_snoc:
  "timing_history acc (es @ [e]) =
    (if is_timing_event e then timing_history acc es @ [e]
     else if reset e then [] else timing_history acc es)"
  by (induction es arbitrary: acc) simp_all

definition ends_with :: "'a list \<Rightarrow> ('a list \<Rightarrow> bool) \<Rightarrow> bool" where
  "ends_with xs P = (\<exists>pre fr. xs = pre @ fr \<and> P fr)"

lemma ends_withI: "P fr \<Longrightarrow> ends_with (pre @ fr) P"
  by (auto simp: ends_with_def)

text \<open>The received part of a frame: header, header space and complete bit cells.\<close>

definition partial_frame :: "bool \<Rightarrow> bool list \<Rightarrow> ir_raw_event list \<Rightarrow> bool" where
  "partial_frame x bs fr = (\<exists>h s cells. fr = h # s # cells \<and> header_mark x h \<and> gap 4504 563 s \<and>
    bit_cells bs cells)"

definition register_holds :: "nec_dec \<Rightarrow> bool list \<Rightarrow> bool" where
  "register_holds d bs = (nec_count d = of_nat (length bs) \<and> length bs \<le> 32 \<and>
    (\<forall>j < length bs. bit (nec_bits d) j = bs ! (length bs - 1 - j)))"

text \<open>What each state says about the events received so far.\<close>

definition nec_inv :: "nec_dec \<Rightarrow> ir_raw_event list \<Rightarrow> bool" where
  "nec_inv d hist = ((nec_state d \<noteq> STATE_INACTIVE \<and> necx_repeat d \<longrightarrow> is_nec_x d) \<and>
    (case nec_state d of
     STATE_INACTIVE \<Rightarrow> True
   | STATE_HEADER_SPACE \<Rightarrow> nec_count d = 0 \<and>
       ends_with hist (\<lambda>fr. \<exists>h. fr = [h] \<and> header_mark (is_nec_x d) h)
   | STATE_BIT_PULSE \<Rightarrow> \<exists>bs. length bs < 32 \<and> register_holds d bs \<and>
       ends_with hist (partial_frame (is_nec_x d) bs)
   | STATE_BIT_SPACE \<Rightarrow> \<exists>bs. length bs < 32 \<and> register_holds d bs \<and>
       ends_with hist (\<lambda>fr. \<exists>fr0 p. fr = fr0 @ [p] \<and> partial_frame (is_nec_x d) bs fr0 \<and>
         mark 563 281 p)
   | STATE_TRAILER_PULSE \<Rightarrow>
       (\<exists>bs. length bs = 32 \<and> register_holds d bs \<and> ends_with hist (partial_frame (is_nec_x d) bs)) \<or>
       nec_count d = 0 \<and>
       ends_with hist (\<lambda>fr. \<exists>h s. fr = [h, s] \<and> header_mark (is_nec_x d) h \<and> gap 2252 281 s)
   | STATE_TRAILER_SPACE \<Rightarrow>
       (\<exists>bs. length bs = 32 \<and> register_holds d bs \<and>
         ends_with hist (\<lambda>fr. \<exists>fr0 p. fr = fr0 @ [p] \<and> partial_frame (is_nec_x d) bs fr0 \<and>
           mark 563 281 p)) \<or>
       nec_count d = 0 \<and>
       ends_with hist (\<lambda>fr. \<exists>h s t. fr = [h, s, t] \<and> header_mark (is_nec_x d) h \<and>
         gap 2252 281 s \<and> mark 563 281 t)))"

text \<open>A complete frame of some kind, as the reason for a report.\<close>

definition justified :: "rc_call \<Rightarrow> ir_raw_event list \<Rightarrow> bool" where
  "justified call hist = (case call of
     Rc_keydown _ _ _ \<Rightarrow> ends_with hist (\<lambda>fr. \<exists>x bs. nec_frame x bs fr \<and> call = nec_key bs)
   | Rc_repeat \<Rightarrow> ends_with hist (\<lambda>fr. nec_repeat_frame fr \<or> necx_repeat_frame fr))"


lemma ends_with_snoc: "ends_with hist P \<Longrightarrow> ends_with (hist @ [e]) (\<lambda>fr. \<exists>fr0. fr = fr0 @ [e] \<and> P fr0)"
  unfolding ends_with_def by fastforce

lemma ends_with_mono: "ends_with hist P \<Longrightarrow> (\<And>fr. P fr \<Longrightarrow> Q fr) \<Longrightarrow> ends_with hist Q"
  unfolding ends_with_def by blast

lemma bit_cells_snoc:
  "bit_cells bs cells \<Longrightarrow> mark 563 281 p \<Longrightarrow> bit_gap b s \<Longrightarrow> bit_cells (bs @ [b]) (cells @ [p, s])"
  by (induction bs cells rule: bit_cells.induct) auto

lemma partial_frame_snoc:
  assumes "partial_frame x bs fr" "mark 563 281 p" "bit_gap b s"
  shows "partial_frame x (bs @ [b]) (fr @ [p] @ [s])"
  using assms bit_cells_snoc[OF _ assms(2,3)] unfolding partial_frame_def by fastforce

lemma partial_frame_complete:
  assumes "partial_frame x bs fr" "length bs = 32" "mark 563 281 t" "quiet e"
  shows "nec_frame x bs (fr @ [t] @ [e])"
  using assms nec_body_join[OF _ assms(3,4)] unfolding partial_frame_def by fastforce

lemma register_holds_add_bit:
  assumes "register_holds d bs" "length bs < 32"
  shows "register_holds (add_bit b d) (bs @ [b])"
    "nec_state (add_bit b d) =
      (if length (bs @ [b]) = 32 then STATE_TRAILER_PULSE else STATE_BIT_PULSE)"
proof -
  have count: "nec_count d = of_nat (length bs)" using assms(1) by (simp add: register_holds_def)
  have "bit (nec_bits (add_bit b d)) j = (bs @ [b]) ! (length (bs @ [b]) - 1 - j)"
    if "j < length (bs @ [b])" for j
  proof (cases j)
    case 0
    then show ?thesis unfolding add_bit_simps bit_or_iff bit_push_bit_iff bit_of_bool_iff by simp
  next
    case (Suc k)
    then have "bit (nec_bits d) k = bs ! (length bs - 1 - k)" "k < length bs" "Suc k < 32"
      using assms that by (auto simp: register_holds_def)
    then show ?thesis
      unfolding add_bit_simps bit_or_iff bit_push_bit_iff bit_of_bool_iff Suc
      by (auto simp: nth_append_left)
  qed
  then show "register_holds (add_bit b d) (bs @ [b])"
    using assms count by (simp add: register_holds_def)
  show "nec_state (add_bit b d) =
      (if length (bs @ [b]) = 32 then STATE_TRAILER_PULSE else STATE_BIT_PULSE)"
    using count_plus_one(2)[OF count assms(2)] by simp
qed

text \<open>The possible outcomes of a step, by state, in terms of marks and gaps.\<close>

lemma decode_cases:
  assumes "ir_nec_decode br d e = (d1, calls, ret)" "is_timing_event e"
  obtains (fail) "nec_state d1 = STATE_INACTIVE" "calls = []"
  | (header) x where "nec_state d = STATE_INACTIVE" "header_mark x e" "calls = []"
      "d1 = d\<lparr>is_nec_x := x, necx_repeat := (x \<and> necx_repeat d), nec_count := 0,
              nec_state := STATE_HEADER_SPACE\<rparr>"
  | (space) "nec_state d = STATE_HEADER_SPACE" "gap 4504 563 e" "calls = []"
      "d1 = d\<lparr>nec_state := STATE_BIT_PULSE\<rparr>"
  | (repeat_space) "nec_state d = STATE_HEADER_SPACE" "gap 2252 281 e" "calls = []"
      "d1 = d\<lparr>nec_state := STATE_TRAILER_PULSE\<rparr>"
  | (bit_pulse) "nec_state d = STATE_BIT_PULSE" "mark 563 281 e" "calls = []"
      "d1 = d\<lparr>nec_state := STATE_BIT_SPACE\<rparr>"
  | (bit_space) b where "nec_state d = STATE_BIT_SPACE" "bit_gap b e" "calls = []" "d1 = add_bit b d"
  | (necx) "nec_state d = STATE_BIT_SPACE" "quiet e" "calls = [Rc_repeat]"
      "d1 = d\<lparr>nec_state := STATE_INACTIVE\<rparr>" "necx_repeat d" "nec_count d = 1"
  | (trailer_pulse) "nec_state d = STATE_TRAILER_PULSE" "mark 563 281 e" "calls = []"
      "d1 = d\<lparr>nec_state := STATE_TRAILER_SPACE\<rparr>"
  | (last) "nec_state d = STATE_TRAILER_SPACE" "quiet e" "nec_state d1 = STATE_INACTIVE"
proof (cases "nec_state d")
  case STATE_INACTIVE
  with assms show thesis
    by (fastforce simp: ir_nec_decode_def frame_defs nec_fail_def split: if_splits
        intro: fail header[of False] header[of True])
next
  case STATE_HEADER_SPACE
  with assms show thesis
    by (auto simp: ir_nec_decode_def frame_defs nec_fail_def split: if_splits
        intro: fail space repeat_space)
next
  case STATE_BIT_PULSE
  with assms show thesis
    by (auto simp: ir_nec_decode_def frame_defs nec_fail_def split: if_splits
        intro: fail bit_pulse)
next
  case STATE_BIT_SPACE
  show thesis
  proof (cases "bit_gap False e \<or> bit_gap True e")
    case True
    then obtain b where b: "bit_gap b e" by blast
    with assms(1) decode_bit_space[OF b STATE_BIT_SPACE, of br] STATE_BIT_SPACE show thesis
      by (intro bit_space[of b]) auto
  next
    case False
    with assms STATE_BIT_SPACE show thesis
      by (auto simp: ir_nec_decode_def frame_defs nec_fail_def Let_def split: if_splits
          intro: fail necx)
  qed
next
  case STATE_TRAILER_PULSE
  with assms show thesis
    by (auto simp: ir_nec_decode_def frame_defs nec_fail_def split: if_splits
        intro: fail trailer_pulse)
next
  case STATE_TRAILER_SPACE
  show thesis
  proof (cases "quiet e")
    case True
    with assms decode_quiet[OF True, of br d] STATE_TRAILER_SPACE show thesis by (auto intro: last)
  next
    case False
    with assms STATE_TRAILER_SPACE show thesis
      by (auto simp: ir_nec_decode_def frame_defs nec_fail_def split: if_splits intro: fail)
  qed
qed


lemma nec_inv_inactive [intro]: "nec_state d = STATE_INACTIVE \<Longrightarrow> nec_inv d hist"
  by (simp add: nec_inv_def)

lemma register_holds_same:
  "nec_count d1 = nec_count d \<Longrightarrow> nec_bits d1 = nec_bits d \<Longrightarrow>
    register_holds d1 bs = register_holds d bs"
  by (simp add: register_holds_def)

lemma register_holds_0: "nec_count d = 0 \<Longrightarrow> register_holds d []"
  by (simp add: register_holds_def)

lemma count_of_register: "register_holds d bs \<Longrightarrow> unat (nec_count d) = length bs"
  unfolding register_holds_def by (auto simp: unat_of_nat)

text \<open>At the end of a frame.\<close>

lemma nec_inv_last:
  assumes "reverses_bits br" "nec_inv d hist" "nec_state d = STATE_TRAILER_SPACE" "quiet e"
    "ir_nec_decode br d e = (d1, calls, ret)" "c \<in> set calls"
  shows "justified c (hist @ [e])"
proof -
  from assms(2,3) consider
    bs where "length bs = 32" "register_holds d bs"
      "ends_with hist (\<lambda>fr. \<exists>fr0 p. fr = fr0 @ [p] \<and> partial_frame (is_nec_x d) bs fr0 \<and>
           mark 563 281 p)"
  | "nec_count d = 0" "ends_with hist (\<lambda>fr. \<exists>h s t. fr = [h, s, t] \<and> header_mark (is_nec_x d) h \<and>
         gap 2252 281 s \<and> mark 563 281 t)"
    by (auto simp: nec_inv_def)
  then show ?thesis
  proof cases
    case 1
    have count: "nec_count d = 32" using 1(1,2) by (simp add: register_holds_def)
    have reg: "bit (nec_bits d) j = bs ! (31 - j)" if "j < 32" for j
      using 1(1,2) that by (simp add: register_holds_def)
    have c: "c = nec_key bs"
      using decode_last[OF assms(1,4,3) count 1(1) reg] assms(5,6) by auto
    from 1(3) obtain pre fr p where "hist = pre @ fr @ [p]" "partial_frame (is_nec_x d) bs fr"
      "mark 563 281 p"
      by (auto simp: ends_with_def)
    then have "hist @ [e] = pre @ (fr @ [p] @ [e])" "nec_frame (is_nec_x d) bs (fr @ [p] @ [e])"
      using partial_frame_complete[OF _ 1(1) _ assms(4)] by simp_all
    then have "ends_with (hist @ [e]) (\<lambda>fr. \<exists>x bs. nec_frame x bs fr \<and> c = nec_key bs)"
      using c unfolding ends_with_def by blast
    moreover obtain p s t where "nec_key bs = Rc_keydown p s t"
      by (cases "nec_key bs") (auto simp: nec_key_def split: prod.splits)
    ultimately show ?thesis using c by (simp add: justified_def)
  next
    case 2
    then have "c = Rc_repeat"
      using decode_last_repeat[OF assms(4,3), of br] assms(5,6) by auto
    moreover from 2(2) obtain pre h s t where "hist = pre @ [h, s, t]"
      "header_mark (is_nec_x d) h" "gap 2252 281 s" "mark 563 281 t"
      by (auto simp: ends_with_def)
    then have "ends_with (hist @ [e]) nec_repeat_frame"
      using assms(4) ends_withI[of nec_repeat_frame "[h, s, t, e]" pre]
      by (cases "is_nec_x d") auto
    ultimately show ?thesis by (auto simp: justified_def intro: ends_with_mono)
  qed
qed

lemma nec_inv_necx:
  assumes "nec_inv d hist" "nec_state d = STATE_BIT_SPACE" "necx_repeat d" "nec_count d = 1"
    "quiet e"
  shows "justified Rc_repeat (hist @ [e])"
proof -
  from assms obtain bs where x: "is_nec_x d" and reg: "register_holds d bs" and
    ends: "ends_with hist (\<lambda>fr. \<exists>fr0 p. fr = fr0 @ [p] \<and> partial_frame (is_nec_x d) bs fr0 \<and>
         mark 563 281 p)"
    by (auto simp: nec_inv_def)
  from count_of_register[OF reg] assms(4) have "length bs = 1" by simp
  then obtain b where bs: "bs = [b]" by (cases bs) auto
  from ends obtain pre fr p where hist: "hist = pre @ fr @ [p]" and fr: "partial_frame True [b] fr"
    and p: "mark 563 281 p"
    using x bs by (auto simp: ends_with_def)
  from fr obtain h s cells where "fr = h # s # cells" "header_mark True h" "gap 4504 563 s"
    "bit_cells [b] cells"
    by (auto simp: partial_frame_def)
  moreover from this(4) obtain q g where "cells = [q, g]" "mark 563 281 q" "bit_gap b g"
    by (cases cells rule: list.exhaust[case_product list.exhaust])
       (auto elim!: bit_cells.elims)
  ultimately have "necx_repeat_frame (fr @ [p] @ [e])" using p assms(5) by (cases b) auto
  from ends_withI[of necx_repeat_frame, OF this, of pre] hist
  show ?thesis by (auto simp: justified_def intro: ends_with_mono)
qed

lemma nec_inv_step:
  assumes "reverses_bits br" "nec_inv d hist" "is_timing_event e"
    "ir_nec_decode br d e = (d1, calls, ret)"
  shows "nec_inv d1 (hist @ [e]) \<and> (\<forall>c \<in> set calls. justified c (hist @ [e]))"
  using assms(4,3)
proof (cases rule: decode_cases)
  case (header x)
  then show ?thesis
    using ends_withI[of "\<lambda>fr. \<exists>h. fr = [h] \<and> header_mark x h" "[e]" hist]
    by (simp add: nec_inv_def)
next
  case space
  from assms(2) space(1) have "nec_count d = 0" and
    ends: "ends_with hist (\<lambda>fr. \<exists>h. fr = [h] \<and> header_mark (is_nec_x d) h)"
    by (auto simp: nec_inv_def)
  from ends_with_snoc[OF ends, of e]
  have "ends_with (hist @ [e]) (partial_frame (is_nec_x d) [])"
    by (rule ends_with_mono) (use space(2) in \<open>auto simp: partial_frame_def\<close>)
  then show ?thesis
    using space assms(2) register_holds_0[of d1] \<open>nec_count d = 0\<close>
    by (auto simp: nec_inv_def intro!: exI[of _ "[]"])
next
  case repeat_space
  from assms(2) repeat_space(1) have count: "nec_count d = 0" and
    ends: "ends_with hist (\<lambda>fr. \<exists>h. fr = [h] \<and> header_mark (is_nec_x d) h)"
    by (auto simp: nec_inv_def)
  from ends_with_snoc[OF ends, of e]
  have "ends_with (hist @ [e])
      (\<lambda>fr. \<exists>h s. fr = [h, s] \<and> header_mark (is_nec_x d) h \<and> gap 2252 281 s)"
    by (rule ends_with_mono) (use repeat_space(2) in auto)
  then show ?thesis using repeat_space count assms(2) by (simp add: nec_inv_def)
next
  case bit_pulse
  from assms(2) bit_pulse(1) obtain bs where bs: "length bs < 32" "register_holds d bs" and
    ends: "ends_with hist (partial_frame (is_nec_x d) bs)"
    by (auto simp: nec_inv_def)
  from ends_with_snoc[OF ends, of e]
  have "ends_with (hist @ [e]) (\<lambda>fr. \<exists>fr0 p. fr = fr0 @ [p] \<and>
      partial_frame (is_nec_x d) bs fr0 \<and> mark 563 281 p)"
    by (rule ends_with_mono) (use bit_pulse(2) in auto)
  then show ?thesis
    using bit_pulse assms(2) bs register_holds_same[of d1 d bs] by (auto simp: nec_inv_def)
next
  case (bit_space b)
  from assms(2) bit_space(1) obtain bs where bs: "length bs < 32" "register_holds d bs" and
    ends: "ends_with hist (\<lambda>fr. \<exists>fr0 p. fr = fr0 @ [p] \<and> partial_frame (is_nec_x d) bs fr0 \<and>
         mark 563 281 p)" and x: "necx_repeat d \<longrightarrow> is_nec_x d"
    by (auto simp: nec_inv_def)
  from ends_with_snoc[OF ends, of e]
  have ends1: "ends_with (hist @ [e]) (partial_frame (is_nec_x d) (bs @ [b]))"
    by (rule ends_with_mono) (use partial_frame_snoc[OF _ _ bit_space(2)] in auto)
  note reg = register_holds_add_bit[OF bs(2,1), of b]
  show ?thesis
  proof (cases "length (bs @ [b]) = 32")
    case True
    with reg ends1 x show ?thesis
      unfolding bit_space nec_inv_def by (auto intro!: exI[of _ "bs @ [b]"])
  next
    case False
    with reg ends1 x bs(1) show ?thesis
      unfolding bit_space nec_inv_def by (auto intro!: exI[of _ "bs @ [b]"])
  qed
next
  case necx
  with nec_inv_necx[OF assms(2)] show ?thesis by auto
next
  case trailer_pulse
  from assms(2) trailer_pulse(1) consider
    bs where "length bs = 32" "register_holds d bs" "ends_with hist (partial_frame (is_nec_x d) bs)"
  | "nec_count d = 0" "ends_with hist (\<lambda>fr. \<exists>h s. fr = [h, s] \<and> header_mark (is_nec_x d) h \<and>
       gap 2252 281 s)"
    by (auto simp: nec_inv_def)
  then show ?thesis
  proof cases
    case 1
    from ends_with_snoc[OF 1(3), of e]
    have "ends_with (hist @ [e]) (\<lambda>fr. \<exists>fr0 p. fr = fr0 @ [p] \<and>
        partial_frame (is_nec_x d) bs fr0 \<and> mark 563 281 p)"
      by (rule ends_with_mono) (use trailer_pulse(2) in auto)
    then show ?thesis
      using trailer_pulse assms(2) 1 register_holds_same[of d1 d bs] by (auto simp: nec_inv_def)
  next
    case 2
    from ends_with_snoc[OF 2(2), of e]
    have "ends_with (hist @ [e]) (\<lambda>fr. \<exists>h s t. fr = [h, s, t] \<and> header_mark (is_nec_x d) h \<and>
         gap 2252 281 s \<and> mark 563 281 t)"
      by (rule ends_with_mono) (use trailer_pulse(2) in auto)
    then show ?thesis using trailer_pulse assms(2) 2 by (auto simp: nec_inv_def)
  qed
next
  case last
  then show ?thesis using nec_inv_last[OF assms(1,2) last(1,2) assms(4)] by auto
qed auto


lemma nec_inv_event:
  assumes "reverses_bits br" "nec_inv d (timing_history [] es)" "ir_nec_decode br d e = (d1, calls, ret)"
  shows "nec_inv d1 (timing_history [] (es @ [e])) \<and>
    (\<forall>c \<in> set calls. justified c (timing_history [] (es @ [e])))"
proof (cases "is_timing_event e")
  case True
  from nec_inv_step[OF assms(1,2) True assms(3)] True show ?thesis by (simp add: timing_history_snoc)
next
  case False
  with assms(2,3) show ?thesis
    by (auto simp: timing_history_snoc ir_nec_decode_def split: if_splits)
qed

lemma nec_inv_run:
  assumes "reverses_bits br" "nec_state d = STATE_INACTIVE"
  shows "nec_inv (fst (nec_run br d es)) (timing_history [] es)"
proof (induction es rule: rev_induct)
  case Nil
  then show ?case using assms(2) by auto
next
  case (snoc e es)
  obtain d1 calls ret where step: "ir_nec_decode br (fst (nec_run br d es)) e = (d1, calls, ret)"
    by (cases "ir_nec_decode br (fst (nec_run br d es)) e") auto
  then have "fst (nec_run br d (es @ [e])) = d1"
    by (cases "nec_run br d es") (simp add: nec_run_append)
  with nec_inv_event[OF assms(1) snoc step] show ?case by simp
qed

section \<open>Bytes and scancodes\<close>

















section \<open>A transmitter\<close>

text \<open>One waveform with the nominal durations; it shows that every code has a frame.\<close>

definition sent :: "bool \<Rightarrow> nat \<Rightarrow> ir_raw_event" where
  "sent high us = \<lparr>duration = of_nat us, duty_cycle = 0, pulse = high, reset = False,
                   timeout = False, carrier_report = False\<rparr>"

fun send_bits :: "bool list \<Rightarrow> ir_raw_event list" where
  "send_bits [] = [sent True 560, sent False 40000]"
| "send_bits (b # bs) = sent True 560 # sent False (if b then 1690 else 560) # send_bits bs"

definition send_frame :: "bool \<Rightarrow> bool list \<Rightarrow> ir_raw_event list" where
  "send_frame x bs = sent True (if x then 4500 else 9000) # sent False 4500 # send_bits bs"

definition send_repeat :: "ir_raw_event list" where
  "send_repeat = [sent True 9000, sent False 2250, sent True 560, sent False 40000]"


lemma sent_simps [simp]:
  "mark c tol (sent high us) =
    (high \<and> c - tol < us mod 2 ^ 32 \<and> us mod 2 ^ 32 < c + tol)"
  "gap c tol (sent high us) =
    (\<not> high \<and> c - tol < us mod 2 ^ 32 \<and> us mod 2 ^ 32 < c + tol)"
  "quiet (sent high us) = (\<not> high \<and> 5349 < us mod 2 ^ 32)"
  by (auto simp: sent_def frame_defs is_timing_event_def unat_of_nat)

lemma nec_body_send_bits: "nec_body bs (send_bits bs)"
  by (induction bs) (simp_all add: bit_gap_def)

lemma nec_frame_send: "length bs = 32 \<Longrightarrow> nec_frame x bs (send_frame x bs)"
  by (simp add: send_frame_def nec_body_send_bits header_mark_def)


definition rev8 :: "8 word \<Rightarrow> 8 word" where
  "rev8 x = horner_sum of_bool 2 (rev (map (bit x) [0..<8]))"

lemma reverses_bits_rev8: "reverses_bits rev8"
  unfolding reverses_bits_def rev8_def
  by (auto simp: bit_horner_sum_bit_word_iff rev_nth)

definition nec_idle :: nec_dec where
  "nec_idle = \<lparr>nec_state = STATE_INACTIVE, nec_count = 0, nec_bits = 0, is_nec_x = False,
               necx_repeat = False\<rparr>"

section \<open>Properties\<close>

text \<open>
  Property C24: whatever state the decoder is in, once the line has been quiet for one event a
  frame whose pulses and spaces all lie within the tolerances is decoded to exactly one report,
  the key press of its four bytes, made at the last event of the frame; the decoder is then
  ready for the next frame. So a disturbance costs at most the frame it hits.
\<close>

theorem nec_frame_decoded:
  assumes "reverses_bits bitrev8" "quiet q" "nec_frame x bs es"
  shows "\<exists>d1 calls. nec_run bitrev8 d [q] = (d1, calls) \<and>
    (\<exists>d2. nec_run bitrev8 d (q # es) = (d2, calls @ [nec_key bs]) \<and>
      nec_state d2 = STATE_INACTIVE \<and> necx_repeat d2 = x)"
proof -
  obtain d1 calls where q: "nec_run bitrev8 d [q] = (d1, calls)" "nec_state d1 = STATE_INACTIVE"
    using run_quiet[OF assms(2)] .
  obtain d2 where "nec_run bitrev8 d1 es = (d2, [nec_key bs])" "nec_state d2 = STATE_INACTIVE"
    "necx_repeat d2 = x"
    using run_frame[OF assms(1,3) q(2)] by blast
  with q show ?thesis using nec_run_append[of bitrev8 d "[q]" es] by simp
qed

theorem nec_frame_decoded_witness:
  "\<exists>d1 calls. nec_run rev8 nec_idle [sent False 6000] = (d1, calls) \<and>
    (\<exists>d2. nec_run rev8 nec_idle (sent False 6000 # send_frame True (replicate 32 True)) =
        (d2, calls @ [nec_key (replicate 32 True)]) \<and>
      nec_state d2 = STATE_INACTIVE \<and> necx_repeat d2 = True)"
  by (rule nec_frame_decoded[OF reverses_bits_rev8 _ nec_frame_send]) simp_all




text \<open>
  Property C27: nothing is reported without a complete frame. When the decoder, started in its
  initial state, reports something at an event, the timing events received up to and including
  that event (since the last reset) end with a frame: a key press with the frame of exactly its
  four bytes, a repeat with one of the two repeat frames.
\<close>

theorem nec_report_sound:
  assumes "reverses_bits bitrev8" "nec_state d0 = STATE_INACTIVE"
    and "nec_run bitrev8 d0 es = (d, before)" "ir_nec_decode bitrev8 d e = (d1, calls, ret)"
    and "c \<in> set calls"
  shows "justified c (timing_history [] (es @ [e]))"
  using nec_inv_event[OF assms(1) _ assms(4)] nec_inv_run[OF assms(1,2), of es] assms(3,5)
  by simp

theorem nec_report_sound_witness:
  "justified Rc_repeat (timing_history [] (butlast send_repeat @ [last send_repeat]))"
proof (rule nec_report_sound[OF reverses_bits_rev8, where ?d0.0 = nec_idle])
  show "nec_state nec_idle = STATE_INACTIVE" by (simp add: nec_idle_def)
  show "Rc_repeat \<in> set [Rc_repeat]" by simp
  let ?d = "nec_idle\<lparr>nec_state := STATE_TRAILER_SPACE\<rparr>"
  show "nec_run rev8 nec_idle (butlast send_repeat) = (?d, [])"
    using decode_header[of False "sent True 9000" nec_idle rev8]
      decode_repeat_space[of "sent False 2250" _ rev8]
      decode_trailer_pulse[of "sent True 560" _ rev8]
    by (simp add: send_repeat_def nec_idle_def header_mark_def)
  show "ir_nec_decode rev8 ?d (last send_repeat) = (?d\<lparr>nec_state := STATE_INACTIVE\<rparr>, [Rc_repeat], 0)"
    using decode_last_repeat[of "sent False 40000" ?d rev8]
    by (simp add: send_repeat_def nec_idle_def)
qed



end
