(* ===== verification/HeapAlloc.thy ===== *)
theory HeapAlloc
  imports Prelude "HOL-Library.Monad_Syntax"
begin

text \<open>
  The heap (\<open>lib/libc/alloc.c\<close>). A pool is an area of memory that is divided into blocks of equal size,
  counted from 1. Requests of more than half a block get whole blocks, smaller ones a fragment, whose
  size is a power of two, of a block that is shared by fragments of one size. A table at the start of
  the pool has an entry of four words for each block; free clusters of blocks are linked through the
  table, free fragments through their own first two words.

  Addresses and sizes are numbers below \<open>2 ^ 32\<close>; a null pointer is 0. The memory is a function
  from the addresses of words to words, shared by the table, the fragments and the data of the
  clients, so that overlapping is that of the code. A failed assertion, or a loop that does not
  end, is \<open>None\<close>. The options \<open>CONFIG_MEM_DEBUG_MONITOR\<close> and \<open>CONFIG_MEM_DEBUG_STORE\<close> are off.
\<close>

section \<open>Memory\<close>

type_synonym memory = "nat \<Rightarrow> nat"

definition u32_mul :: "nat \<Rightarrow> nat \<Rightarrow> nat" where
  "u32_mul a b = (a * b) mod u32_lim"

definition byte_at :: "memory \<Rightarrow> nat \<Rightarrow> nat" where
  "byte_at m a = m (a - a mod 4) div 256 ^ (a mod 4) mod 256"

definition word_from_bytes :: "(nat \<Rightarrow> nat) \<Rightarrow> nat" where
  "word_from_bytes f = f 0 + 256 * f 1 + 65536 * f 2 + 16777216 * f 3"

text \<open>Setting the \<open>n\<close> bytes from the address \<open>d\<close>: \<open>memcpy\<close>, \<open>memmove\<close> and \<open>memset\<close> to zero.\<close>

definition mem_put :: "nat \<Rightarrow> nat \<Rightarrow> (nat \<Rightarrow> nat) \<Rightarrow> memory \<Rightarrow> memory" where
  "mem_put d n f m = (\<lambda>w. if w mod 4 = 0 \<and> d < w + 4 \<and> w < d + n
     then word_from_bytes (\<lambda>k. if d \<le> w + k \<and> w + k < d + n then f (w + k - d) else byte_at m (w + k))
     else m w)"

definition mem_copy :: "nat \<Rightarrow> nat \<Rightarrow> nat \<Rightarrow> memory \<Rightarrow> memory" where
  "mem_copy d s n m = mem_put d n (\<lambda>k. byte_at m (s + k)) m"

definition mem_zero :: "nat \<Rightarrow> nat \<Rightarrow> memory \<Rightarrow> memory" where
  "mem_zero d n m = mem_put d n (\<lambda>k. 0) m"

section \<open>The pool\<close>

text \<open>\<open>frag\<close> is the address of the array of list heads at the end of the structure.\<close>

record pool =
  base :: nat
  pool_top :: nat
  ptr :: nat
  pool_size :: nat
  info :: nat
  info_end :: nat
  info_size :: nat
  info_index :: nat
  info_limit :: nat
  chunks_used :: "32 word"
  bytes_used :: "32 word"
  chunks_free :: "32 word"
  bytes_free :: "32 word"
  blklog :: nat
  blksz :: nat
  frag :: nat
  mem :: memory

abbreviation (input) FINAL_FREE_BLOCKS :: nat where "FINAL_FREE_BLOCKS \<equiv> 8"
abbreviation (input) UINT_MAX :: nat where "UINT_MAX \<equiv> 4294967295"

text \<open>The words of a table entry: the two members of the union share them.\<close>

abbreviation (input) busy_status :: nat where "busy_status \<equiv> 0"
abbreviation (input) busy_type :: nat where "busy_type \<equiv> 1"
abbreviation (input) busy_size :: nat where "busy_size \<equiv> 2"
abbreviation (input) frag_nfree :: nat where "frag_nfree \<equiv> 2"
abbreviation (input) frag_first :: nat where "frag_first \<equiv> 3"
abbreviation (input) free_size :: nat where "free_size \<equiv> 1"
abbreviation (input) free_next :: nat where "free_next \<equiv> 2"
abbreviation (input) free_prev :: nat where "free_prev \<equiv> 3"

definition entry_addr :: "nat \<Rightarrow> nat \<Rightarrow> nat \<Rightarrow> nat" where
  "entry_addr i b j = (i + 16 * b + 4 * j) mod u32_lim"

definition entry :: "nat \<Rightarrow> nat \<Rightarrow> nat \<Rightarrow> pool \<Rightarrow> nat" where
  "entry i b j p = mem p (entry_addr i b j)"

definition put :: "nat \<Rightarrow> nat \<Rightarrow> pool \<Rightarrow> pool" where
  "put a v p = p\<lparr>mem := (mem p)(a := v)\<rparr>"

definition set_entry :: "nat \<Rightarrow> nat \<Rightarrow> nat \<Rightarrow> nat \<Rightarrow> pool \<Rightarrow> pool" where
  "set_entry i b j v = put (entry_addr i b j) v"

definition BLOCKIFY :: "pool \<Rightarrow> nat \<Rightarrow> nat" where
  "BLOCKIFY p n = u32_sub (u32_add n (blksz p)) 1 div blksz p"

definition BLOCK :: "pool \<Rightarrow> nat \<Rightarrow> nat" where
  "BLOCK p a = u32_sub a (base p) div blksz p + 1"

definition ADDRESS :: "pool \<Rightarrow> nat \<Rightarrow> nat" where
  "ADDRESS p b = u32_add (base p) (u32_mul (u32_sub b 1) (blksz p))"

text \<open>The fields \<open>next\<close> and \<open>prev\<close> of a list node at an address.\<close>

definition next_of :: "pool \<Rightarrow> nat \<Rightarrow> nat" where
  "next_of p a = mem p a"

definition prev_of :: "pool \<Rightarrow> nat \<Rightarrow> nat" where
  "prev_of p a = mem p (u32_add a 4)"

definition frag_head :: "pool \<Rightarrow> nat \<Rightarrow> nat" where
  "frag_head p l = u32_add (frag p) (8 * l)"

section \<open>The end of the used part\<close>

definition heap_sbrk :: "nat \<Rightarrow> pool \<Rightarrow> pool \<times> nat" where
  "heap_sbrk nbytes p =
    (if u32_add (ptr p) nbytes < pool_top p then (p\<lparr>ptr := u32_add (ptr p) nbytes\<rparr>, ptr p) else (p, 0))"

definition heap_align :: "nat \<Rightarrow> pool \<Rightarrow> pool \<times> nat" where
  "heap_align n p =
    (if n = UINT_MAX then (p, 0)
     else case heap_sbrk n p of (p, result) \<Rightarrow>
       if result = 0 then (p, 0)
       else (let adj = result mod blksz p in
         if adj \<noteq> 0 then (let adj = blksz p - adj in (fst (heap_sbrk adj p), u32_add result adj))
         else (p, result)))"

section \<open>Freeing\<close>

text \<open>The tests at the start; the result is the block and its type.\<close>

primrec frag_is_used :: "pool \<Rightarrow> nat \<Rightarrow> nat \<Rightarrow> nat \<Rightarrow> bool" where
  "frag_is_used p a x 0 = True"
| "frag_is_used p a x (Suc n) = (a \<noteq> x \<and> x \<noteq> 0 \<and> x \<ge> 2147483648 \<and> frag_is_used p a (next_of p x) n)"

definition first_frag :: "pool \<Rightarrow> nat \<Rightarrow> nat \<Rightarrow> nat" where
  "first_frag p block l = u32_add (ADDRESS p block) (u32_mul (entry (info p) block frag_first p) (2 ^ l))"

definition free_checks :: "nat \<Rightarrow> pool \<Rightarrow> (nat \<times> nat) option" where
  "free_checks a p =
    (let i = info p; block = BLOCK p a; type = entry i block busy_type p in
     if a < base p \<or> a > ptr p then None
     else if a \<ge> i \<and> a < info_end p then None
     else if entry i block busy_status p \<noteq> 1 then None
     else if type = 0 then
       (if a \<noteq> ADDRESS p block then None
        else if entry i block busy_size p \<ge> 2147483648 then None else Some (block, type))
     else if a mod 2 ^ type \<noteq> 0 then None
     else if \<not> frag_is_used p a (first_frag p block type) (entry i block frag_nfree p) then None
     else Some (block, type))"

primrec mark_free :: "nat \<Rightarrow> nat \<Rightarrow> nat \<Rightarrow> pool \<Rightarrow> pool" where
  "mark_free i block 0 p = p"
| "mark_free i block (Suc k) p = mark_free i block k (set_entry i (block + Suc k) busy_status 0 p)"

text \<open>The search for the free cluster before a block, backwards and forwards.\<close>

partial_function (option) cluster_back :: "nat \<Rightarrow> nat \<Rightarrow> pool \<Rightarrow> nat \<Rightarrow> nat option" where
  "cluster_back i block p x = (if x > block then cluster_back i block p (entry i x free_prev p) else Some x)"

partial_function (option) cluster_forth :: "nat \<Rightarrow> nat \<Rightarrow> pool \<Rightarrow> nat \<Rightarrow> nat option" where
  "cluster_forth i block p x =
    (let x = entry i x free_next p in
     if x > 0 \<and> x < block then cluster_forth i block p x else Some (entry i x free_prev p))"

declare cluster_back.simps [code] cluster_forth.simps [code]

definition cluster_before :: "nat \<Rightarrow> nat \<Rightarrow> pool \<Rightarrow> nat option" where
  "cluster_before i block p =
    (if info_index p > block then cluster_back i block p (info_index p) else cluster_forth i block p (info_index p))"

text \<open>Linking a block into the list of clusters after the cluster \<open>x\<close>; the result is the cluster it is part of.\<close>

definition link_cluster :: "nat \<Rightarrow> nat \<Rightarrow> nat \<Rightarrow> pool \<Rightarrow> pool \<times> nat" where
  "link_cluster i block x p =
    (if block = u32_add x (entry i x free_size p) then
       (let p = set_entry i x free_size (u32_add (entry i x free_size p) (entry i block busy_size p)) p;
            p = set_entry i block free_size 0 p
        in (p, x))
     else
       (let p = set_entry i block free_size (entry i block busy_size p) p;
            p = set_entry i block free_next (entry i x free_next p) p;
            p = set_entry i block free_prev x p;
            p = set_entry i x free_next block p;
            p = set_entry i (entry i block free_next p) free_prev block p
        in (p\<lparr>chunks_free := chunks_free p + 1\<rparr>, block)))"

definition join_next :: "nat \<Rightarrow> nat \<Rightarrow> pool \<Rightarrow> pool" where
  "join_next i block p =
    (if u32_add block (entry i block free_size p) = entry i block free_next p then
       (let p = set_entry i block free_size
                  (u32_add (entry i block free_size p) (entry i (entry i block free_next p) free_size p)) p;
            p = set_entry i block free_next (entry i (entry i block free_next p) free_next p) p;
            p = set_entry i (entry i block free_next p) free_prev block p
        in p\<lparr>chunks_free := chunks_free p - 1\<rparr>)
     else p)"

text \<open>A long cluster at the end goes back to the unused part of the pool.\<close>

definition give_back :: "nat \<Rightarrow> nat \<Rightarrow> pool \<Rightarrow> pool \<times> nat" where
  "give_back i block p =
    (let blocks = entry i block free_size p in
     if blocks \<ge> FINAL_FREE_BLOCKS \<and> u32_add block blocks = info_limit p \<and>
        snd (heap_sbrk 0 p) = ADDRESS p (u32_add block blocks) then
       (let bytes = u32_mul blocks (blksz p);
            p = p\<lparr>info_limit := u32_sub (info_limit p) blocks\<rparr>;
            p = fst (heap_sbrk (u32_sub 0 bytes) p);
            p = set_entry i (entry i block free_prev p) free_next (entry i block free_next p) p;
            p = set_entry i (entry i block free_next p) free_prev (entry i block free_prev p) p;
            block = entry i block free_prev p
        in (p\<lparr>chunks_free := chunks_free p - 1, bytes_free := bytes_free p - of_nat bytes\<rparr>, block))
     else (p, block))"

definition free_blocks :: "nat \<Rightarrow> pool \<Rightarrow> pool option" where
  "free_blocks block p = do {
     let i = info p;
     let bytes = of_nat (u32_mul (entry i block busy_size p) (blksz p));
     let p = p\<lparr>chunks_used := chunks_used p - 1, bytes_used := bytes_used p - bytes, bytes_free := bytes_free p + bytes\<rparr>;
     let p = set_entry i block busy_status 0 p;
     let p = mark_free i block (u32_sub (entry i block busy_size p) 1) p;
     x \<leftarrow> cluster_before i block p;
     let (p, block) = link_cluster i block x p;
     let p = join_next i block p;
     let (p, block) = give_back i block p;
     Some (p\<lparr>info_index := block\<rparr>)
   }"

primrec frag_after :: "pool \<Rightarrow> nat \<Rightarrow> nat \<Rightarrow> nat" where
  "frag_after p x 0 = x"
| "frag_after p x (Suc n) = frag_after p (next_of p x) n"

definition insert_after :: "nat \<Rightarrow> nat \<Rightarrow> pool \<Rightarrow> pool" where
  "insert_after prev x p =
    (let p = put x (next_of p prev) p;
         p = put (u32_add x 4) prev p;
         p = put prev x p
     in if next_of p x \<noteq> 0 then put (u32_add (next_of p x) 4) x p else p)"

definition free_frag :: "nat \<Rightarrow> nat \<Rightarrow> nat \<Rightarrow> pool \<Rightarrow> pool option" where
  "free_frag block type a p =
    (let i = info p; n = blksz p div 2 ^ type;
         p = p\<lparr>chunks_used := chunks_used p - 1, bytes_used := bytes_used p - of_nat (2 ^ type),
               chunks_free := chunks_free p + 1, bytes_free := bytes_free p + of_nat (2 ^ type)\<rparr>;
         prev = first_frag p block type
     in
     if entry i block frag_nfree p = u32_sub n 1 then
       (let x = frag_after p prev (n - 1);
            p = put (prev_of p prev) x p;
            p = (if x \<noteq> 0 then put (u32_add x 4) (prev_of p prev) p else p);
            p = set_entry i block busy_type 0 p;
            p = set_entry i block busy_size 1 p;
            p = p\<lparr>chunks_used := chunks_used p + 1, bytes_used := bytes_used p + of_nat (blksz p),
                  chunks_free := chunks_free p - of_nat n, bytes_free := bytes_free p - of_nat (blksz p)\<rparr>
        in do { (block, _) \<leftarrow> free_checks (ADDRESS p block) p; free_blocks block p })
     else if entry i block frag_nfree p \<noteq> 0 then
       (let p = insert_after prev a p
        in Some (set_entry i block frag_nfree (u32_add (entry i block frag_nfree p) 1) p))
     else
       (let p = set_entry i block frag_nfree 1 p;
            p = set_entry i block frag_first (a mod blksz p div 2 ^ type) p
        in Some (insert_after (frag_head p type) a p)))"

definition heap_free :: "nat \<Rightarrow> pool \<Rightarrow> pool option" where
  "heap_free a p = do {
     (block, type) \<leftarrow> free_checks a p;
     if type = 0 then free_blocks block p else free_frag block type a p
   }"

section \<open>Getting more memory\<close>

text \<open>Marking the blocks of an object after the first.\<close>

primrec mark_tail :: "nat \<Rightarrow> nat \<Rightarrow> nat \<Rightarrow> pool \<Rightarrow> pool" where
  "mark_tail i block 0 p = p"
| "mark_tail i block (Suc k) p =
     mark_tail i block k (set_entry i (block + Suc k) busy_size (u32_sub 0 (Suc k))
       (set_entry i (block + Suc k) busy_type 0 (set_entry i (block + Suc k) busy_status 1 p)))"

definition mark_object :: "nat \<Rightarrow> nat \<Rightarrow> nat \<Rightarrow> pool \<Rightarrow> pool" where
  "mark_object i block blocks p =
    mark_tail i block (u32_sub blocks 1) (set_entry i block busy_size blocks (set_entry i block busy_type 0 (set_entry i block busy_status 1 p)))"

partial_function (option) grow_size :: "nat \<Rightarrow> nat \<Rightarrow> nat option" where
  "grow_size block newsize = (if block > newsize then grow_size block (u32_mul newsize 2) else Some newsize)"

declare grow_size.simps [code]

text \<open>The table moves when it is too small.\<close>

definition grow_table :: "nat \<Rightarrow> nat \<Rightarrow> nat \<Rightarrow> pool \<Rightarrow> (pool \<times> bool) option" where
  "grow_table n block result p = do {
     newsize \<leftarrow> grow_size block (info_size p);
     let (p, newinfo) = heap_align (u32_mul newsize 16) p;
     if newinfo = 0 then Some (fst (heap_sbrk (u32_sub 0 n) p), False)
     else do {
       let p = p\<lparr>mem := mem_zero (entry_addr newinfo (info_size p) 0) (u32_mul (u32_sub newsize (info_size p)) 16)
                        (mem_copy newinfo (info p) (u32_mul (info_size p) 16) (mem p))\<rparr>;
       let oldinfo = info p;
       let p = set_entry newinfo (BLOCK p oldinfo) busy_type 0 p;
       let p = set_entry newinfo (BLOCK p oldinfo) busy_size (BLOCKIFY p (u32_mul (info_size p) 16)) p;
       let p = p\<lparr>info := newinfo, bytes_used := bytes_used p + of_nat (u32_mul newsize 16), chunks_used := chunks_used p + 1\<rparr>;
       p \<leftarrow> heap_free oldinfo p;
       let p = p\<lparr>info_size := newsize, info_end := entry_addr newinfo newsize 0\<rparr>;
       Some (mark_object newinfo (BLOCK p newinfo) (BLOCKIFY p (u32_mul newsize 16)) p, True)
     }
   }"

definition morecore :: "nat \<Rightarrow> pool \<Rightarrow> (pool \<times> nat) option" where
  "morecore n p = (case heap_align n p of (p, result) \<Rightarrow>
    (if result = 0 then Some (p, 0)
     else do {
       let block = BLOCK p (u32_add result n);
       if block > info_size p then do {
         (p, ok) \<leftarrow> grow_table n block result p;
         Some (if ok then (p\<lparr>info_limit := BLOCK p (info p)\<rparr>, result) else (p, 0))
       }
       else Some (p\<lparr>info_limit := block\<rparr>, result)
     }))"

section \<open>Allocating\<close>

definition new_object :: "nat \<Rightarrow> pool \<Rightarrow> (pool \<times> nat) option" where
  "new_object blocks p = do {
     (p, result) \<leftarrow> morecore (u32_mul blocks (blksz p)) p;
     if result = 0 then Some (p, 0)
     else do {
       let p = mark_object (info p) (BLOCK p result) blocks p;
       Some (p\<lparr>chunks_used := chunks_used p + 1, bytes_used := bytes_used p + of_nat (u32_mul blocks (blksz p))\<rparr>, result)
     }
   }"

text \<open>Taking an object out of a cluster that is large enough.\<close>

definition take_blocks :: "nat \<Rightarrow> nat \<Rightarrow> nat \<Rightarrow> pool \<Rightarrow> pool" where
  "take_blocks i block blocks p =
    (let p =
       (if entry i block free_size p > blocks then
          (let rest = u32_add block blocks;
               p = set_entry i rest free_size (u32_sub (entry i block free_size p) blocks) p;
               p = set_entry i rest free_next (entry i block free_next p) p;
               p = set_entry i rest free_prev (entry i block free_prev p) p;
               p = p\<lparr>info_index := rest\<rparr>;
               p = set_entry i (entry i block free_next p) free_prev rest p
           in set_entry i (entry i block free_prev p) free_next (entry i (entry i block free_next p) free_prev p) p)
        else
          (let p = set_entry i (entry i block free_next p) free_prev (entry i block free_prev p) p;
               p = p\<lparr>info_index := entry i block free_next p\<rparr>;
               p = set_entry i (entry i block free_prev p) free_next (info_index p) p
           in p\<lparr>chunks_free := chunks_free p - 1\<rparr>));
       bytes = of_nat (u32_mul blocks (blksz p))
     in mark_object i block blocks
          (p\<lparr>chunks_used := chunks_used p + 1, bytes_used := bytes_used p + bytes, bytes_free := bytes_free p - bytes\<rparr>))"

text \<open>The circular search. When it has come round, the last cluster is extended or an object is added at the end.\<close>

partial_function (option) find_blocks :: "nat \<Rightarrow> nat \<Rightarrow> nat \<Rightarrow> nat \<Rightarrow> pool \<Rightarrow> (pool \<times> nat) option" where
  "find_blocks blocks start i block p =
    (if entry i block free_size p < blocks then
       (let block = entry i block free_next p in
        if block = start then
          (let last = entry i 0 free_prev p; lastblocks = entry i last free_size p;
               missing = u32_mul (u32_sub blocks lastblocks) (blksz p)
           in
           if info_limit p \<noteq> 0 \<and> u32_add last lastblocks = info_limit p \<and>
              snd (heap_sbrk 0 p) = ADDRESS p (u32_add last lastblocks)
           then Option.bind (morecore missing p) (\<lambda>(p, r).
             if r \<noteq> 0 then
               (let i = info p; last = entry i 0 free_prev p;
                    p = set_entry i last free_size (u32_add (entry i last free_size p) (u32_sub blocks lastblocks)) p;
                    p = p\<lparr>bytes_free := bytes_free p + of_nat missing\<rparr>
                in find_blocks blocks start i last p)
             else new_object blocks p)
           else new_object blocks p)
        else find_blocks blocks start i block p)
     else Some (take_blocks i block blocks p, ADDRESS p block))"

declare find_blocks.simps [code]

definition malloc_blocks :: "nat \<Rightarrow> pool \<Rightarrow> (pool \<times> nat) option" where
  "malloc_blocks n p = find_blocks (BLOCKIFY p n) (info_index p) (info p) (info_index p) p"

fun log_loop :: "nat \<Rightarrow> nat \<Rightarrow> nat" where
  "log_loop n log = (let n = n div 2 in if n \<noteq> 0 then log_loop n (log + 1) else log)"

declare log_loop.simps [simp del]

definition frag_log :: "nat \<Rightarrow> nat" where
  "frag_log n = log_loop (n - 1) 1"

definition pop_frag :: "nat \<Rightarrow> nat \<Rightarrow> nat \<Rightarrow> pool \<Rightarrow> pool" where
  "pop_frag i log x p =
    (let p = put (prev_of p x) (next_of p x) p;
         p = (if next_of p x \<noteq> 0 then put (u32_add (next_of p x) 4) (prev_of p x) p else p);
         block = BLOCK p x;
         p = set_entry i block frag_nfree (u32_sub (entry i block frag_nfree p) 1) p;
         p = (if entry i block frag_nfree p \<noteq> 0 then set_entry i block frag_first (next_of p x mod blksz p div 2 ^ log) p
              else set_entry i block frag_first UINT_MAX p)
     in p\<lparr>chunks_used := chunks_used p + 1, bytes_used := bytes_used p + of_nat (2 ^ log),
          chunks_free := chunks_free p - 1, bytes_free := bytes_free p - of_nat (2 ^ log)\<rparr>)"

definition link_frags :: "nat \<Rightarrow> nat \<Rightarrow> nat \<Rightarrow> pool \<Rightarrow> pool" where
  "link_frags log result n p = fold (\<lambda>k p. insert_after (frag_head p log) (u32_add result (u32_mul k (2 ^ log))) p) [1..<n] p"

definition split_block :: "nat \<Rightarrow> nat \<Rightarrow> nat \<Rightarrow> pool \<Rightarrow> pool" where
  "split_block i log result p =
    (let n = blksz p div 2 ^ log;
         p = link_frags log result n p;
         block = BLOCK p result; k = max 1 n - 1;
         p = set_entry i block busy_type log p;
         p = set_entry i block frag_nfree k p;
         p = set_entry i block frag_first k p
     in p\<lparr>chunks_free := chunks_free p + of_nat (n - 1),
          bytes_free := bytes_free p + (of_nat (blksz p) - of_nat (2 ^ log)),
          bytes_used := bytes_used p - (of_nat (blksz p) - of_nat (2 ^ log))\<rparr>)"

text \<open>The recursive call for a new block asks for a whole block, so that it is a large allocation.\<close>

definition heap_malloc :: "nat \<Rightarrow> pool \<Rightarrow> (pool \<times> nat) option" where
  "heap_malloc n p =
    (if n = UINT_MAX then Some (p, 0)
     else (let n = max n 8 in
       if n \<le> blksz p div 2 then
         (let log = frag_log n; i = info p; x = next_of p (frag_head p log) in
          if x \<noteq> 0 then Some (pop_frag i log x p, x)
          else do {
            (p, result) \<leftarrow> malloc_blocks (max (blksz p) 8) p;
            Some (if result = 0 then (p, 0) else (split_block i log result p, result))
          })
       else malloc_blocks n p))"

section \<open>Resizing\<close>

definition realloc_blocks :: "nat \<Rightarrow> nat \<Rightarrow> nat \<Rightarrow> nat \<Rightarrow> pool \<Rightarrow> (pool \<times> nat) option" where
  "realloc_blocks i block a n p =
    (let blocks = BLOCKIFY p n; old = entry i block busy_size p in
     if blocks < old then
       (let p = set_entry i (u32_add block blocks) busy_type 0 p;
            p = set_entry i (u32_add block blocks) busy_size (u32_sub (entry i block busy_size p) blocks) p;
            p = set_entry i block busy_size blocks p;
            p = p\<lparr>chunks_used := chunks_used p + 1\<rparr>
        in do { p \<leftarrow> heap_free (ADDRESS p (u32_add block blocks)) p; Some (p, a) })
     else if blocks = old then Some (p, a)
     else do {
       let oldlimit = info_limit p;
       p \<leftarrow> heap_free a (p\<lparr>info_limit := 0\<rparr>);
       (p, result) \<leftarrow> heap_malloc n (p\<lparr>info_limit := oldlimit\<rparr>);
       if result = 0 then
         (if info_index p = block then do {
            (p, _) \<leftarrow> heap_malloc (u32_mul old (blksz p)) p;
            Some (p, 0)
          }
          else do {
            (p, previous) \<leftarrow> heap_malloc (u32_mul (u32_sub block (info_index p)) (blksz p)) p;
            (p, _) \<leftarrow> heap_malloc (u32_mul old (blksz p)) p;
            p \<leftarrow> heap_free previous p;
            Some (p, 0)
          })
       else Some (if a \<noteq> result then p\<lparr>mem := mem_copy result a (u32_mul old (blksz p)) (mem p)\<rparr> else p, result)
     })"

definition heap_realloc :: "nat \<Rightarrow> nat \<Rightarrow> pool \<Rightarrow> (pool \<times> nat) option" where
  "heap_realloc a n p =
    (let i = info p; block = BLOCK p a; type = entry i block busy_type p in
     if type = 0 then
       (if n \<le> blksz p div 2 then do {
          (p, result) \<leftarrow> heap_malloc n p;
          if result \<noteq> 0 then do {
            p \<leftarrow> heap_free a (p\<lparr>mem := mem_copy result a n (mem p)\<rparr>);
            Some (p, result)
          }
          else realloc_blocks i block a n p
        }
        else realloc_blocks i block a n p)
     else if n > 2 ^ (type - 1) \<and> n \<le> 2 ^ type then Some (p, a)
     else do {
       (p, result) \<leftarrow> heap_malloc n p;
       if result = 0 then Some (p, 0)
       else do {
         p \<leftarrow> heap_free a (p\<lparr>mem := mem_copy result a (min n (2 ^ type)) (mem p)\<rparr>);
         Some (p, result)
       }
     })"

section \<open>Creating a pool\<close>

definition ALIGN :: "nat \<Rightarrow> nat \<Rightarrow> nat" where
  "ALIGN x a = u32_add x (a - 1) div a * a"

definition ALIGN_DOWN :: "nat \<Rightarrow> nat \<Rightarrow> nat" where
  "ALIGN_DOWN x a = ALIGN (u32_sub x (a - 1)) a"

text \<open>The structure takes 60 bytes before the list heads.\<close>

definition pool_init :: "nat \<Rightarrow> nat \<Rightarrow> nat \<Rightarrow> memory \<Rightarrow> pool option" where
  "pool_init start size0 log m =
    (let sz = 2 ^ log;
         hsize = size0 div 2 ^ log;
         head = 60 + log * 8;
         n = u32_sub size0 (start mod 4);
         start = ALIGN start 4;
         n = ALIGN_DOWN n sz;
         p = \<lparr>base = 0, pool_top = u32_add start n, ptr = u32_add start head, pool_size = 0, info = 0, info_end = 0,
              info_size = hsize, info_index = 0, info_limit = 0, chunks_used = 0, bytes_used = 0, chunks_free = 0,
              bytes_free = 0, blklog = log, blksz = sz, frag = start + 60, mem = mem_zero start head m\<rparr>;
         bytes = u32_mul hsize 16
     in case heap_align bytes p of (p, i) \<Rightarrow>
       if i = 0 then None
       else (let p = p\<lparr>info := i, info_end := u32_add i bytes, base := i, pool_size := u32_sub (pool_top p) i,
                       bytes_used := of_nat bytes, chunks_used := 1, mem := mem_zero i bytes (mem p)\<rparr>
             in Some (mark_object i (BLOCK p i) (BLOCKIFY p bytes) p)))"

end
