(* ===== verification/HeapData.thy ===== *)
theory HeapData
  imports HeapAlloc
begin

text \<open>
  The layout of a pool: the sequence of the segments that its blocks are divided into, free
  clusters, objects of whole blocks, and blocks that are divided into fragments. The theory relates the
  table to a layout and shows what the changes that the code makes to the table do to the layout.
\<close>

section \<open>Layouts\<close>

datatype seg = Free nat | Big nat | Frags nat "nat list"

primrec width :: "seg \<Rightarrow> nat" where
  "width (Free n) = n"
| "width (Big n) = n"
| "width (Frags l fs) = 1"

definition widths :: "seg list \<Rightarrow> nat" where
  "widths xs = sum_list (map width xs)"

primrec clusters :: "nat \<Rightarrow> seg list \<Rightarrow> nat list" where
  "clusters b [] = []"
| "clusters b (s # xs) = (case s of Free _ \<Rightarrow> [b] | _ \<Rightarrow> []) @ clusters (b + width s) xs"

text \<open>The blocks with free fragments of the size \<open>2 ^ l\<close>, and these fragments in the order of the list.\<close>

primrec frag_segs :: "nat \<Rightarrow> nat \<Rightarrow> seg list \<Rightarrow> (nat \<times> nat list) list" where
  "frag_segs l b [] = []"
| "frag_segs l b (s # xs) =
    (case s of Frags k fs \<Rightarrow> (if k = l \<and> fs \<noteq> [] then [(b, fs)] else []) | _ \<Rightarrow> []) @ frag_segs l (b + width s) xs"

primrec is_free :: "seg \<Rightarrow> bool" where
  "is_free (Free n) = True"
| "is_free (Big n) = False"
| "is_free (Frags l fs) = False"

fun no_adjacent :: "seg list \<Rightarrow> bool" where
  "no_adjacent (s # t # xs) = (\<not> (is_free s \<and> is_free t) \<and> no_adjacent (t # xs))"
| "no_adjacent _ = True"

lemma widths_simps [simp]: "widths [] = 0" "widths (s # xs) = width s + widths xs" "widths (us @ vs) = widths us + widths vs"
  by (simp_all add: widths_def)

lemma clusters_append [simp]: "clusters b (us @ vs) = clusters b us @ clusters (b + widths us) vs"
  by (induction us arbitrary: b) (simp_all add: add.assoc)

lemma frag_segs_append [simp]: "frag_segs l b (us @ vs) = frag_segs l b us @ frag_segs l (b + widths us) vs"
  by (induction us arbitrary: b) (simp_all add: add.assoc)

lemma no_adjacent_Cons: "no_adjacent (s # xs) \<longleftrightarrow> \<not> (xs \<noteq> [] \<and> is_free s \<and> is_free (hd xs)) \<and> no_adjacent xs"
  by (cases xs) auto

lemma no_adjacent_append:
  "no_adjacent (us @ vs) \<longleftrightarrow> no_adjacent us \<and> no_adjacent vs \<and> \<not> (us \<noteq> [] \<and> vs \<noteq> [] \<and> is_free (last us) \<and> is_free (hd vs))"
  by (induction us) (auto simp: no_adjacent_Cons)

section \<open>The table\<close>

type_synonym table = "nat \<Rightarrow> nat \<Rightarrow> nat"

definition upd2 :: "table \<Rightarrow> nat \<Rightarrow> nat \<Rightarrow> nat \<Rightarrow> table" where
  "upd2 T b j v = T(b := (T b)(j := v))"

lemma upd2_apply [simp]: "upd2 T b j v c k = (if c = b \<and> k = j then v else T c k)"
  by (simp add: upd2_def)

primrec seg_tab :: "table \<Rightarrow> nat \<Rightarrow> seg \<Rightarrow> bool" where
  "seg_tab T b (Free n) = (0 < n \<and> T b free_size = n \<and> (\<forall>i<n. T (b + i) busy_status = 0))"
| "seg_tab T b (Big n) = (0 < n \<and> T b busy_status = 1 \<and> T b busy_type = 0 \<and> T b busy_size = n \<and>
     (\<forall>i. 0 < i \<and> i < n \<longrightarrow> T (b + i) busy_status = 1 \<and> T (b + i) busy_type = 0 \<and> 2147483648 \<le> T (b + i) busy_size))"
| "seg_tab T b (Frags l fs) = (0 < l \<and> T b busy_status = 1 \<and> T b busy_type = l \<and> T b frag_nfree = length fs \<and>
     (fs \<noteq> [] \<longrightarrow> T b frag_first = hd fs))"

primrec tab :: "table \<Rightarrow> nat \<Rightarrow> seg list \<Rightarrow> bool" where
  "tab T b [] = True"
| "tab T b (s # xs) = (seg_tab T b s \<and> tab T (b + width s) xs)"

lemma tab_append [simp]: "tab T b (us @ vs) \<longleftrightarrow> tab T b us \<and> tab T (b + widths us) vs"
  by (induction us arbitrary: b) (simp_all add: add.assoc)

lemma seg_tab_width: "seg_tab T b s \<Longrightarrow> 0 < width s"
  by (cases s) auto

lemma clusters_range: "tab T b xs \<Longrightarrow> c \<in> set (clusters b xs) \<Longrightarrow> b \<le> c \<and> c < b + widths xs"
proof (induction xs arbitrary: b)
  case (Cons s xs)
  then show ?case using seg_tab_width[of T b s] by (cases s) fastforce+
qed simp

lemma clusters_sorted: "tab T b xs \<Longrightarrow> sorted (clusters b xs) \<and> distinct (clusters b xs)"
proof (induction xs arbitrary: b)
  case (Cons s xs)
  have later: "b < c" if "c \<in> set (clusters (b + width s) xs)" for c
    using clusters_range[of T "b + width s" xs c] seg_tab_width[of T b s] Cons.prems that by auto
  show ?case using Cons later by (cases s) (auto simp: less_imp_le)
qed simp

lemma tab_frame:
  assumes "tab T b xs"
    "\<And>c. b \<le> c \<Longrightarrow> c < b + widths xs \<Longrightarrow> T' c 0 = T c 0 \<and> T' c 1 = T c 1 \<and>
      (c \<notin> set (clusters b xs) \<longrightarrow> T' c 2 = T c 2 \<and> T' c 3 = T c 3)"
  shows "tab T' b xs"
  using assms
proof (induction xs arbitrary: b)
  case (Cons s xs)
  have pos: "0 < width s" using Cons.prems(1) seg_tab_width by auto
  have rest: "tab T (b + width s) xs" "seg_tab T b s" using Cons.prems(1) by simp_all
  have "tab T' (b + width s) xs"
  proof (rule Cons.IH[OF rest(1)])
    fix c assume c: "b + width s \<le> c" "c < b + width s + widths xs"
    then have "c \<noteq> b" using pos by simp
    then show "T' c 0 = T c 0 \<and> T' c 1 = T c 1 \<and> (c \<notin> set (clusters (b + width s) xs) \<longrightarrow> T' c 2 = T c 2 \<and> T' c 3 = T c 3)"
      using Cons.prems(2)[of c] c by (cases s) auto
  qed
  moreover have "seg_tab T' b s"
  proof -
    have far: "c \<notin> set (clusters (b + width s) xs)" if "c < b + width s" for c
      using clusters_range[OF rest(1)] that by fastforce
    have words: "T' c 0 = T c 0 \<and> T' c 1 = T c 1 \<and> (\<not> is_free s \<longrightarrow> T' c 2 = T c 2 \<and> T' c 3 = T c 3)"
      if "b \<le> c" "c < b + width s" for c
      using Cons.prems(2)[of c] that far[of c] by (cases s) auto
    show ?thesis
    proof (cases s)
      case (Free n)
      then show ?thesis using rest(2) words by (simp add: pos)
    next
      case (Big n)
      then show ?thesis using rest(2) words by simp
    next
      case (Frags l fs)
      then show ?thesis using rest(2) words[of b] by simp
    qed
  qed
  ultimately show ?case by simp
qed simp

section \<open>The list of free clusters\<close>

primrec dpre :: "table \<Rightarrow> nat \<Rightarrow> nat list \<Rightarrow> bool" where
  "dpre T x [] = True"
| "dpre T x (c # cs) = (T x free_next = c \<and> T c free_prev = x \<and> dpre T c cs)"

definition dpath :: "table \<Rightarrow> nat \<Rightarrow> nat list \<Rightarrow> nat \<Rightarrow> bool" where
  "dpath T x cs z \<longleftrightarrow> dpre T x cs \<and> T (last (x # cs)) free_next = z \<and> T z free_prev = last (x # cs)"

lemma dpath_simps [simp]:
  "dpath T x [] z = (T x free_next = z \<and> T z free_prev = x)"
  "dpath T x (c # cs) z = (T x free_next = c \<and> T c free_prev = x \<and> dpath T c cs z)"
  by (auto simp: dpath_def)

lemma dpre_append: "dpre T x (us @ vs) = (dpre T x us \<and> dpre T (last (x # us)) vs)"
  by (induction us arbitrary: x) auto

lemma dpath_append: "dpath T x (us @ vs) z = (dpre T x us \<and> dpath T (last (x # us)) vs z)"
  by (induction us arbitrary: x) auto

lemma dpre_frame:
  "dpre T x cs \<Longrightarrow> (\<And>c. c \<in> set (butlast (x # cs)) \<Longrightarrow> T' c 2 = T c 2) \<Longrightarrow> (\<And>c. c \<in> set cs \<Longrightarrow> T' c 3 = T c 3) \<Longrightarrow> dpre T' x cs"
  by (induction cs arbitrary: x) auto

lemma dpath_frame:
  assumes "dpath T x cs z" "\<And>c. c \<in> set (x # cs) \<Longrightarrow> T' c 2 = T c 2" "\<And>c. c \<in> set (z # cs) \<Longrightarrow> T' c 3 = T c 3"
  shows "dpath T' x cs z"
  using assms
proof (induction cs arbitrary: x)
  case (Cons c cs)
  have "dpath T' c cs z" by (rule Cons.IH) (use Cons.prems in auto)
  then show ?case using Cons.prems(1) Cons.prems(2)[of x] Cons.prems(3)[of c] by simp
qed simp

lemma butlast_before:
  assumes "distinct (x # us)" "c \<in> set (butlast (x # us))"
  shows "c \<noteq> last (x # us)" "c \<in> set (x # us)"
proof -
  have "distinct (butlast (x # us) @ [last (x # us)])"
    using assms(1) append_butlast_last_id[of "x # us"] by (metis list.distinct(1))
  then show "c \<noteq> last (x # us)" using assms(2) by (metis distinct_append IntI empty_iff list.set_intros(1))
  show "c \<in> set (x # us)" using assms(2) by (rule in_set_butlastD)
qed

text \<open>The neighbours of a place in the list.\<close>

abbreviation before :: "nat list \<Rightarrow> nat" where "before us \<equiv> last (0 # us)"
abbreviation after :: "nat list \<Rightarrow> nat" where "after vs \<equiv> hd (vs @ [0])"

lemma dpath_at:
  assumes "dpath T 0 (us @ vs) 0"
  shows "T (before us) free_next = after vs" "T (after vs) free_prev = before us"
proof -
  have "dpath T (before us) vs 0" using assms by (simp only: dpath_append)
  then show "T (before us) free_next = after vs" "T (after vs) free_prev = before us"
    by (cases vs; simp only: dpath_simps append.simps list.sel)+
qed

lemma before_in: "before us \<in> set (0 # us)"
  by (rule last_in_set) simp

lemma after_in: "after vs \<in> set (0 # vs)"
  by (cases vs) simp_all

lemma dpath_insert:
  assumes path: "dpath T 0 (us @ vs) 0" and dist: "distinct (0 # us @ b # vs)"
  shows "dpath (upd2 (upd2 (upd2 (upd2 T b free_next (after vs)) b free_prev (before us)) (before us) free_next b)
    (after vs) free_prev b) 0 (us @ b # vs) 0" (is "dpath ?T 0 _ 0")
proof -
  have ne: "before us \<noteq> b" "after vs \<noteq> b" "before us \<notin> set vs" "after vs \<notin> set us"
    using dist before_in[of us] after_in[of vs] by auto
  have pre: "dpre T 0 us" using path by (simp add: dpath_append)
  have "dpre ?T 0 us"
  proof (rule dpre_frame[OF pre])
    fix c assume "c \<in> set (butlast (0 # us))"
    then have "c \<noteq> before us" "c \<in> set (0 # us)" using butlast_before[of 0 us c] dist by auto
    then show "?T c 2 = T c 2" using dist by auto
  next
    fix c assume "c \<in> set us"
    then have "c \<noteq> after vs" "c \<noteq> b" using ne dist by auto
    then show "?T c 3 = T c 3" by simp
  qed
  moreover have "dpath ?T b vs 0"
  proof (cases vs)
    case Nil
    then show ?thesis using ne by auto
  next
    case (Cons v vs')
    have "dpath T v vs' 0" using path by (simp add: dpath_append Cons)
    moreover have "?T c 2 = T c 2" if "c \<in> set (v # vs')" for c
    proof -
      have "c \<noteq> b" "c \<noteq> before us" using that dist ne(3) Cons by auto
      then show ?thesis by simp
    qed
    moreover have "?T c 3 = T c 3" if "c \<in> set (0 # vs')" for c
    proof -
      have "c \<noteq> b" "c \<noteq> v" using that dist Cons by auto
      then show ?thesis using Cons by simp
    qed
    ultimately have "dpath ?T v vs' 0" by (rule dpath_frame)
    then show ?thesis using ne Cons by simp
  qed
  moreover have "?T (before us) free_next = b" "?T b free_prev = before us" using ne by auto
  ultimately show ?thesis unfolding dpath_append by simp
qed

lemma dpath_delete:
  assumes path: "dpath T 0 (us @ b # vs) 0" and dist: "distinct (0 # us @ b # vs)"
  shows "dpath (upd2 (upd2 T (before us) free_next (after vs)) (after vs) free_prev (before us)) 0 (us @ vs) 0"
    (is "dpath ?T 0 _ 0")
proof -
  have ne: "before us \<noteq> b" "after vs \<noteq> b" "before us \<notin> set vs" "after vs \<notin> set us"
    using dist before_in[of us] after_in[of vs] by auto
  have pre: "dpre T 0 us" using path by (simp add: dpath_append)
  have "dpre ?T 0 us"
  proof (rule dpre_frame[OF pre])
    fix c assume "c \<in> set (butlast (0 # us))"
    then have "c \<noteq> before us" "c \<in> set (0 # us)" using butlast_before[of 0 us c] dist by auto
    then show "?T c 2 = T c 2" using dist by auto
  next
    fix c assume "c \<in> set us"
    then have "c \<noteq> after vs" "c \<noteq> b" using ne dist by auto
    then show "?T c 3 = T c 3" by simp
  qed
  moreover have "dpath ?T (before us) vs 0"
  proof (cases vs)
    case Nil
    then show ?thesis using ne by auto
  next
    case (Cons v vs')
    have "dpath T v vs' 0" using path by (simp add: dpath_append Cons)
    moreover have "?T c 2 = T c 2" if "c \<in> set (v # vs')" for c
    proof -
      have "c \<noteq> b" "c \<noteq> before us" using that dist ne(3) Cons by auto
      then show ?thesis by simp
    qed
    moreover have "?T c 3 = T c 3" if "c \<in> set (0 # vs')" for c
    proof -
      have "c \<noteq> b" "c \<noteq> v" using that dist Cons by auto
      then show ?thesis using Cons by simp
    qed
    ultimately have "dpath ?T v vs' 0" by (rule dpath_frame)
    then show ?thesis using ne Cons by simp
  qed
  ultimately show ?thesis unfolding dpath_append by simp
qed

section \<open>The table of a layout\<close>

text \<open>Entry 0 is the head of the list of clusters; the entries after the last segment are marked free.\<close>

definition table_inv :: "nat \<Rightarrow> table \<Rightarrow> seg list \<Rightarrow> bool" where
  "table_inv N T xs \<longleftrightarrow> tab T 1 xs \<and> dpath T 0 (clusters 1 xs) 0 \<and> T 0 free_size = 0 \<and> widths xs < N \<and>
     (\<forall>c. widths xs < c \<and> c < N \<longrightarrow> T c busy_status = 0)"

lemma table_invD:
  assumes "table_inv N T xs"
  shows "tab T 1 xs" "dpath T 0 (clusters 1 xs) 0" "T 0 1 = 0" "widths xs < N" "widths xs < c \<Longrightarrow> c < N \<Longrightarrow> T c 0 = 0"
  using assms by (auto simp: table_inv_def)

lemma table_inv_distinct: "table_inv N T xs \<Longrightarrow> distinct (0 # clusters 1 xs)"
  using clusters_sorted[of T 1 xs] clusters_range[of T 1 xs] by (fastforce simp: table_inv_def)

lemma table_inv_cluster:
  assumes "table_inv N T (us @ s # vs)"
  shows "c \<in> set (clusters 1 us) \<Longrightarrow> 0 < c \<and> c < 1 + widths us"
    "c \<in> set (clusters (1 + widths us + width s) vs) \<Longrightarrow> 1 + widths us + width s \<le> c \<and> c < N"
    "1 + widths us + width s \<le> N" "0 < width s"
proof -
  have t: "tab T 1 us" "seg_tab T (1 + widths us) s" "tab T (1 + widths us + width s) vs" "widths us + (width s + widths vs) < N"
    using assms by (simp_all add: table_inv_def add.assoc)
  show "c \<in> set (clusters 1 us) \<Longrightarrow> 0 < c \<and> c < 1 + widths us" using clusters_range[OF t(1)] by fastforce
  show "c \<in> set (clusters (1 + widths us + width s) vs) \<Longrightarrow> 1 + widths us + width s \<le> c \<and> c < N"
    using clusters_range[OF t(3)] t(4) by fastforce
  show "1 + widths us + width s \<le> N" "0 < width s" using t seg_tab_width by auto
qed

text \<open>Only the words of the segments \<open>ss\<close> and the links of clusters have changed.\<close>

lemma table_inv_change:
  assumes inv: "table_inv N T (us @ ss @ vs)" and B: "B = 1 + widths us"
    and seg: "tab T' B ss'" and path: "dpath T' 0 (clusters 1 (us @ ss' @ vs)) 0"
    and same: "\<And>c. c < B \<or> B + widths ss \<le> c \<Longrightarrow> T' c 0 = T c 0 \<and> T' c 1 = T c 1 \<and>
        (c \<notin> set (clusters 1 us) \<union> set (clusters (B + widths ss) vs) \<longrightarrow> c \<noteq> 0 \<longrightarrow> T' c 2 = T c 2 \<and> T' c 3 = T c 3)"
    and len: "widths ss' = widths ss"
  shows "table_inv N T' (us @ ss' @ vs)"
proof -
  have t: "tab T 1 us" "tab T (B + widths ss) vs" using inv B by (simp_all add: table_inv_def add.assoc)
  have "tab T' 1 us"
  proof (rule tab_frame[OF t(1)])
    fix c assume c: "1 \<le> c" "c < 1 + widths us"
    then have "c \<notin> set (clusters (B + widths ss) vs)" using clusters_range[OF t(2), of c] B by auto
    then show "T' c 0 = T c 0 \<and> T' c 1 = T c 1 \<and> (c \<notin> set (clusters 1 us) \<longrightarrow> T' c 2 = T c 2 \<and> T' c 3 = T c 3)"
      using same[of c] c B by auto
  qed
  moreover have "tab T' (B + widths ss) vs"
  proof (rule tab_frame[OF t(2)])
    fix c assume c: "B + widths ss \<le> c" "c < B + widths ss + widths vs"
    then have "c \<notin> set (clusters 1 us)" using clusters_range[OF t(1), of c] B by auto
    then show "T' c 0 = T c 0 \<and> T' c 1 = T c 1 \<and> (c \<notin> set (clusters (B + widths ss) vs) \<longrightarrow> T' c 2 = T c 2 \<and> T' c 3 = T c 3)"
      using same[of c] c B by auto
  qed
  moreover have "T' 0 1 = 0" using same[of 0] inv B by (simp add: table_inv_def)
  moreover have "T' c 0 = 0" if "widths (us @ ss @ vs) < c" "c < N" for c
    using same[of c] inv that B by (simp add: table_inv_def)
  ultimately show ?thesis using inv path seg len B by (simp add: table_inv_def add.assoc)
qed

text \<open>The same at the end of the layout, where the length can change.\<close>

lemma table_inv_end:
  assumes inv: "table_inv N T (us @ ss)" and B: "B = 1 + widths us"
    and seg: "tab T' B ss'" and path: "dpath T' 0 (clusters 1 (us @ ss')) 0"
    and same: "\<And>c. c < B \<Longrightarrow> T' c 0 = T c 0 \<and> T' c 1 = T c 1 \<and>
        (c \<notin> set (clusters 1 us) \<longrightarrow> c \<noteq> 0 \<longrightarrow> T' c 2 = T c 2 \<and> T' c 3 = T c 3)"
    and len: "widths us + widths ss' < N" and zero: "\<And>c. widths us + widths ss' < c \<Longrightarrow> c < N \<Longrightarrow> T' c 0 = 0"
  shows "table_inv N T' (us @ ss')"
proof -
  have t: "tab T 1 us" using inv B by (simp add: table_inv_def)
  have "tab T' 1 us"
  proof (rule tab_frame[OF t])
    fix c assume "1 \<le> c" "c < 1 + widths us"
    then show "T' c 0 = T c 0 \<and> T' c 1 = T c 1 \<and> (c \<notin> set (clusters 1 us) \<longrightarrow> T' c 2 = T c 2 \<and> T' c 3 = T c 3)"
      using same[of c] B by auto
  qed
  moreover have "T' 0 1 = 0" using same[of 0] inv B by (simp add: table_inv_def)
  ultimately show ?thesis using path seg len zero B by (simp add: table_inv_def)
qed

section \<open>The entries in memory\<close>

definition tbl :: "pool \<Rightarrow> table" where
  "tbl p c j = (if c < info_size p \<and> j < 4 then entry (info p) c j p else 0)"

text \<open>What no operation on whole blocks changes: the geometry, and the memory outside the table.\<close>

definition in_table :: "pool \<Rightarrow> nat \<Rightarrow> bool" where
  "in_table p a \<longleftrightarrow> info p \<le> a \<and> a < info p + 16 * info_size p"

definition table_fits :: "pool \<Rightarrow> bool" where
  "table_fits p \<longleftrightarrow> info p + 16 * info_size p \<le> u32_lim"

definition same_place :: "pool \<Rightarrow> pool \<Rightarrow> bool" where
  "same_place p p' \<longleftrightarrow> base p' = base p \<and> pool_top p' = pool_top p \<and> info p' = info p \<and> info_end p' = info_end p \<and>
     info_size p' = info_size p \<and> blklog p' = blklog p \<and> blksz p' = blksz p \<and> frag p' = frag p \<and> pool_size p' = pool_size p"

definition table_only :: "pool \<Rightarrow> pool \<Rightarrow> bool" where
  "table_only p p' \<longleftrightarrow> same_place p p' \<and> (\<forall>a. \<not> in_table p a \<longrightarrow> mem p' a = mem p a)"

lemma entry_addr_in:
  "table_fits p \<Longrightarrow> c < info_size p \<Longrightarrow> j < 4 \<Longrightarrow> entry_addr (info p) c j = info p + 16 * c + 4 * j"
  by (simp add: entry_addr_def table_fits_def)

lemma entry_addr_inj:
  assumes "table_fits p" "c < info_size p" "j < 4" "c' < info_size p" "j' < 4"
  shows "entry_addr (info p) c j = entry_addr (info p) c' j' \<longleftrightarrow> c = c' \<and> j = j'"
proof
  assume "entry_addr (info p) c j = entry_addr (info p) c' j'"
  then have same: "4 * c + j = 4 * c' + j'" using assms by (simp add: entry_addr_in)
  have "c = (4 * c + j) div 4" "c' = (4 * c' + j') div 4" using assms by simp_all
  then show "c = c' \<and> j = j'" using same by simp
qed simp

lemma entry_tbl: "c < info_size p \<Longrightarrow> j < 4 \<Longrightarrow> entry (info p) c j p = tbl p c j"
  by (simp add: tbl_def)

lemma put_simps [simp]:
  "base (put a v p) = base p" "pool_top (put a v p) = pool_top p" "ptr (put a v p) = ptr p" "pool_size (put a v p) = pool_size p"
  "info (put a v p) = info p" "info_end (put a v p) = info_end p" "info_size (put a v p) = info_size p"
  "info_index (put a v p) = info_index p" "info_limit (put a v p) = info_limit p" "chunks_used (put a v p) = chunks_used p"
  "bytes_used (put a v p) = bytes_used p" "chunks_free (put a v p) = chunks_free p" "bytes_free (put a v p) = bytes_free p"
  "blklog (put a v p) = blklog p" "blksz (put a v p) = blksz p" "frag (put a v p) = frag p"
  "mem (put a v p) = (mem p)(a := v)"
  by (simp_all add: put_def)

lemma set_entry_simps [simp]:
  "base (set_entry i b j v p) = base p" "pool_top (set_entry i b j v p) = pool_top p" "ptr (set_entry i b j v p) = ptr p"
  "pool_size (set_entry i b j v p) = pool_size p" "info (set_entry i b j v p) = info p"
  "info_end (set_entry i b j v p) = info_end p" "info_size (set_entry i b j v p) = info_size p"
  "info_index (set_entry i b j v p) = info_index p" "info_limit (set_entry i b j v p) = info_limit p"
  "chunks_used (set_entry i b j v p) = chunks_used p" "bytes_used (set_entry i b j v p) = bytes_used p"
  "chunks_free (set_entry i b j v p) = chunks_free p" "bytes_free (set_entry i b j v p) = bytes_free p"
  "blklog (set_entry i b j v p) = blklog p" "blksz (set_entry i b j v p) = blksz p" "frag (set_entry i b j v p) = frag p"
  by (simp_all add: set_entry_def)

lemma tbl_fields [simp]:
  "tbl (p\<lparr>ptr := n\<rparr>) = tbl p" "tbl (p\<lparr>info_index := n\<rparr>) = tbl p" "tbl (p\<lparr>info_limit := n\<rparr>) = tbl p"
  "tbl (p\<lparr>chunks_used := w\<rparr>) = tbl p" "tbl (p\<lparr>bytes_used := w\<rparr>) = tbl p"
  "tbl (p\<lparr>chunks_free := w\<rparr>) = tbl p" "tbl (p\<lparr>bytes_free := w\<rparr>) = tbl p"
  by (rule ext, rule ext, simp add: tbl_def entry_def)+

lemma table_fits_fields [simp]:
  "table_fits (p\<lparr>ptr := n\<rparr>) = table_fits p" "table_fits (p\<lparr>info_index := n\<rparr>) = table_fits p"
  "table_fits (p\<lparr>info_limit := n\<rparr>) = table_fits p"
  "table_fits (p\<lparr>chunks_used := w\<rparr>) = table_fits p" "table_fits (p\<lparr>bytes_used := w\<rparr>) = table_fits p"
  "table_fits (p\<lparr>chunks_free := w\<rparr>) = table_fits p" "table_fits (p\<lparr>bytes_free := w\<rparr>) = table_fits p"
  "table_fits (put a v p) = table_fits p" "table_fits (set_entry i b j v p) = table_fits p"
  by (simp_all add: table_fits_def)

lemma tbl_set_entry [simp]:
  assumes "table_fits p" "i = info p" "b < info_size p" "j < 4"
  shows "tbl (set_entry i b j v p) = upd2 (tbl p) b j v"
  using assms entry_addr_inj[of p _ _ b j]
  by (intro ext) (auto simp: tbl_def entry_def set_entry_def)

lemma table_only_refl [simp]: "table_only p p"
  by (simp add: table_only_def same_place_def)

lemma table_only_trans: "table_only p q \<Longrightarrow> table_only q r \<Longrightarrow> table_only p r"
  by (auto simp: table_only_def same_place_def in_table_def)

lemma entry_addr_in_table:
  "table_fits p \<Longrightarrow> b < info_size p \<Longrightarrow> j < 4 \<Longrightarrow> in_table p (entry_addr (info p) b j)"
  by (simp add: in_table_def entry_addr_in)

lemma table_only_set_entry:
  assumes "table_fits p" "i = info p" "b < info_size p" "j < 4" "table_only q p"
  shows "table_only q (set_entry i b j v p)"
proof -
  have "in_table p (entry_addr i b j)" using assms entry_addr_in_table by simp
  then have "in_table q (entry_addr i b j)" using assms(5) by (simp add: table_only_def same_place_def in_table_def)
  then show ?thesis using assms(5) by (auto simp: table_only_def same_place_def set_entry_def)
qed

lemma table_only_fields [simp]:
  "table_only q (p\<lparr>ptr := n\<rparr>) = table_only q p" "table_only q (p\<lparr>info_index := n\<rparr>) = table_only q p"
  "table_only q (p\<lparr>info_limit := n\<rparr>) = table_only q p"
  "table_only q (p\<lparr>chunks_used := w\<rparr>) = table_only q p" "table_only q (p\<lparr>bytes_used := w\<rparr>) = table_only q p"
  "table_only q (p\<lparr>chunks_free := w\<rparr>) = table_only q p" "table_only q (p\<lparr>bytes_free := w\<rparr>) = table_only q p"
  by (simp_all add: table_only_def same_place_def)

lemma table_onlyD:
  assumes "table_only p p'"
  shows "base p' = base p" "pool_top p' = pool_top p" "info p' = info p" "info_end p' = info_end p"
    "info_size p' = info_size p" "blklog p' = blklog p" "blksz p' = blksz p" "frag p' = frag p"
    "\<not> in_table p a \<Longrightarrow> mem p' a = mem p a" "table_fits p' = table_fits p"
  using assms by (simp_all add: table_only_def same_place_def table_fits_def)

end
