(* ===== verification/HeapBlocks.thy ===== *)
theory HeapBlocks
  imports HeapData
begin

text \<open>
  Operations on whole blocks: what freeing, taking and adding an object does to the layout.
\<close>

section \<open>The state of a pool without its fragments\<close>

definition geometry :: "pool \<Rightarrow> bool" where
  "geometry p \<longleftrightarrow> base p = info p \<and> blksz p = 2 ^ blklog p \<and> 5 \<le> blklog p \<and> blklog p \<le> 20 \<and> base p mod blksz p = 0 \<and>
     2147483648 \<le> base p \<and> base p < pool_top p \<and> pool_top p < u32_lim \<and>
     info_end p = base p + 16 * info_size p \<and> base p + 16 * info_size p \<le> pool_top p \<and>
     info_size p = (pool_top p - base p) div blksz p + 1 \<and> blksz p \<le> 32 * info_size p \<and>
     pool_top p + 32 * info_size p \<le> u32_lim \<and> frag p mod 4 = 0 \<and> 0 < frag p \<and> frag p + 8 * blklog p \<le> base p"

definition heap_end :: "pool \<Rightarrow> seg list \<Rightarrow> nat" where
  "heap_end p xs = base p + blksz p * widths xs"

text \<open>
  The used part ends at the last segment. It is a little shorter before the first allocation, when
  the table does not fill its last block, and if the pool is then used up by one allocation.
\<close>

definition ends :: "pool \<Rightarrow> seg list \<Rightarrow> bool" where
  "ends p xs \<longleftrightarrow> base p \<le> ptr p \<and> ptr p \<le> heap_end p xs \<and> heap_end p xs < ptr p + blksz p \<and> heap_end p xs \<le> pool_top p \<and>
     ptr p < pool_top p \<and> (ptr p = heap_end p xs \<or> length xs = 1 \<or> heap_end p xs = pool_top p) \<and>
     (info_limit p = 0 \<or> info_limit p = widths xs + 1)"

definition blocks_inv :: "pool \<Rightarrow> seg list \<Rightarrow> bool" where
  "blocks_inv p xs \<longleftrightarrow> geometry p \<and> table_inv (info_size p) (tbl p) xs \<and> info_index p \<in> set (0 # clusters 1 xs) \<and>
     ends p xs \<and> no_adjacent xs"

lemma geometryD:
  assumes "geometry p"
  shows "base p = info p" "blksz p = 2 ^ blklog p" "5 \<le> blklog p" "base p mod blksz p = 0" "2147483648 \<le> base p"
    "base p < pool_top p" "pool_top p < u32_lim" "info_end p = base p + 16 * info_size p" "info_end p \<le> pool_top p"
    "info_size p = (pool_top p - base p) div blksz p + 1" "blksz p \<le> 32 * info_size p" "table_fits p" "32 \<le> blksz p"
    "info_size p < 134217728" "blksz p \<le> 1048576" "pool_top p + 32 * info_size p \<le> u32_lim"
proof -
  show g: "base p = info p" "blksz p = 2 ^ blklog p" "5 \<le> blklog p" "base p mod blksz p = 0" "2147483648 \<le> base p"
    "base p < pool_top p" "pool_top p < u32_lim" "info_end p = base p + 16 * info_size p" "info_end p \<le> pool_top p"
    "info_size p = (pool_top p - base p) div blksz p + 1" "blksz p \<le> 32 * info_size p"
    "pool_top p + 32 * info_size p \<le> u32_lim"
    using assms unfolding geometry_def by (elim conjE; simp only:)+
  show "table_fits p" using g(1,7,8,9) by (simp add: table_fits_def)
  have "(2::nat) ^ 5 \<le> 2 ^ blklog p" by (rule power_increasing[OF g(3)]) simp
  then show sz: "32 \<le> blksz p" by (simp add: g(2))
  have "(2::nat) ^ blklog p \<le> 2 ^ 20" using assms by (intro power_increasing) (simp_all add: geometry_def)
  then show "blksz p \<le> 1048576" by (simp add: g(2))
  have "(pool_top p - base p) div blksz p \<le> (pool_top p - base p) div 32" using sz by (rule div_le_mono2[rotated]) simp
  also have "\<dots> \<le> 2147483648 div 32" using g(5,7) by (intro div_le_mono) (simp add: u32_lim_def)
  finally show "info_size p < 134217728" using g(10) by simp
qed

lemma geometry_place: "same_place p p' \<Longrightarrow> geometry p' = geometry p"
  by (simp add: geometry_def same_place_def)

lemma geometry_fields [simp]:
  "geometry (p\<lparr>ptr := n\<rparr>) = geometry p" "geometry (p\<lparr>info_index := n\<rparr>) = geometry p"
  "geometry (p\<lparr>info_limit := n\<rparr>) = geometry p" "geometry (p\<lparr>chunks_used := w\<rparr>) = geometry p"
  "geometry (p\<lparr>bytes_used := w\<rparr>) = geometry p" "geometry (p\<lparr>chunks_free := w\<rparr>) = geometry p"
  "geometry (p\<lparr>bytes_free := w\<rparr>) = geometry p" "geometry (p\<lparr>mem := m\<rparr>) = geometry p"
  by (simp_all add: geometry_def)

lemma heap_end_fields [simp]:
  "heap_end (p\<lparr>ptr := n\<rparr>) xs = heap_end p xs" "heap_end (p\<lparr>info_index := n\<rparr>) xs = heap_end p xs"
  "heap_end (p\<lparr>info_limit := n\<rparr>) xs = heap_end p xs" "heap_end (p\<lparr>chunks_used := w\<rparr>) xs = heap_end p xs"
  "heap_end (p\<lparr>bytes_used := w\<rparr>) xs = heap_end p xs" "heap_end (p\<lparr>chunks_free := w\<rparr>) xs = heap_end p xs"
  "heap_end (p\<lparr>bytes_free := w\<rparr>) xs = heap_end p xs" "heap_end (p\<lparr>mem := m\<rparr>) xs = heap_end p xs"
  by (simp_all add: heap_end_def)

lemma ends_fields [simp]:
  "ends (p\<lparr>info_index := n\<rparr>) xs = ends p xs" "ends (p\<lparr>chunks_used := w\<rparr>) xs = ends p xs"
  "ends (p\<lparr>bytes_used := w\<rparr>) xs = ends p xs" "ends (p\<lparr>chunks_free := w\<rparr>) xs = ends p xs"
  "ends (p\<lparr>bytes_free := w\<rparr>) xs = ends p xs" "ends (p\<lparr>mem := m\<rparr>) xs = ends p xs"
  by (simp_all add: ends_def)

text \<open>Block numbers and addresses.\<close>

lemma block_addr:
  assumes "geometry p" "b \<le> info_size p" "0 < b"
  shows "ADDRESS p b = base p + (b - 1) * blksz p" "BLOCK p (ADDRESS p b) = b" "ADDRESS p b \<le> pool_top p"
    "ADDRESS p b mod blksz p = 0"
proof -
  note g = geometryD[OF assms(1)]
  have "b - 1 \<le> (pool_top p - base p) div blksz p" using assms(2) g(10) by simp
  then have "(b - 1) * blksz p \<le> (pool_top p - base p) div blksz p * blksz p" by simp
  also have "\<dots> \<le> pool_top p - base p" by (rule div_times_less_eq_dividend)
  finally have le: "base p + (b - 1) * blksz p \<le> pool_top p" using g(6) by simp
  have "u32_mul (u32_sub b 1) (blksz p) = (b - 1) * blksz p"
    using assms(3) le g(5,7,14) assms(2) by (simp add: u32_simps u32_lim_def u32_mul_def)
  then show addr: "ADDRESS p b = base p + (b - 1) * blksz p" using le g(7) by (simp add: ADDRESS_def u32_simps)
  show "ADDRESS p b \<le> pool_top p" using addr le by simp
  show "BLOCK p (ADDRESS p b) = b" unfolding addr BLOCK_def using le g(7,13) assms(3) by (simp add: u32_simps)
  show "ADDRESS p b mod blksz p = 0" unfolding addr using g(4) by (simp add: mod_add_eq[symmetric])
qed

section \<open>Freeing an object\<close>

lemma mark_free_simps [simp]:
  "base (mark_free i b k p) = base p" "pool_top (mark_free i b k p) = pool_top p" "ptr (mark_free i b k p) = ptr p"
  "pool_size (mark_free i b k p) = pool_size p" "info (mark_free i b k p) = info p"
  "info_end (mark_free i b k p) = info_end p" "info_size (mark_free i b k p) = info_size p"
  "info_index (mark_free i b k p) = info_index p" "info_limit (mark_free i b k p) = info_limit p"
  "chunks_used (mark_free i b k p) = chunks_used p" "bytes_used (mark_free i b k p) = bytes_used p"
  "chunks_free (mark_free i b k p) = chunks_free p" "bytes_free (mark_free i b k p) = bytes_free p"
  "blklog (mark_free i b k p) = blklog p" "blksz (mark_free i b k p) = blksz p" "frag (mark_free i b k p) = frag p"
  "table_fits (mark_free i b k p) = table_fits p"
  by (induction k arbitrary: p) simp_all

lemma tbl_mark_free:
  assumes "table_fits p" "i = info p" "b + k < info_size p"
  shows "tbl (mark_free i b k p) c j = (if b < c \<and> c \<le> b + k \<and> j = 0 then 0 else tbl p c j)"
    "table_only q p \<Longrightarrow> table_only q (mark_free i b k p)"
proof -
  show "tbl (mark_free i b k p) c j = (if b < c \<and> c \<le> b + k \<and> j = 0 then 0 else tbl p c j)"
    using assms
  proof (induction k arbitrary: p)
    case (Suc k)
    then show ?case using Suc.IH[of "set_entry i (b + Suc k) 0 0 p"] by auto
  qed auto
  show "table_only q p \<Longrightarrow> table_only q (mark_free i b k p)"
    using assms
  proof (induction k arbitrary: p)
    case (Suc k)
    then show ?case using Suc.IH[of "set_entry i (b + Suc k) 0 0 p"] by (simp add: table_only_set_entry)
  qed simp
qed

text \<open>The search for the place in the list of clusters.\<close>

lemma cluster_back_path:
  assumes "dpre (tbl p) 0 (us @ ws)" "\<And>c. c \<in> set us \<Longrightarrow> c < b" "\<And>c. c \<in> set ws \<Longrightarrow> b < c"
    "\<And>c. c \<in> set (0 # us @ ws) \<Longrightarrow> c < info_size p" "i = info p" "0 < b"
  shows "cluster_back i b p (before (us @ ws)) = Some (before us)"
  using assms(1,3,4)
proof (induction ws rule: rev_induct)
  case Nil
  have "\<not> b < before us" using before_in[of us] assms(2,6) by (metis less_asym set_ConsD)
  then show ?case by (simp add: cluster_back.simps)
next
  case (snoc w ws)
  have w: "b < w" "w < info_size p" using snoc.prems by auto
  have pre: "dpre (tbl p) 0 (us @ ws)" "tbl p w 3 = before (us @ ws)"
    using snoc.prems(1) by (simp_all add: dpre_append)
  have "cluster_back i b p (before (us @ ws)) = Some (before us)"
    by (rule snoc.IH[OF pre(1)]) (use snoc.prems in auto)
  moreover have "entry i w 3 p = before (us @ ws)" using pre(2) w(2) assms(5) by (simp add: entry_tbl)
  ultimately show ?case using w(1) by (subst cluster_back.simps) simp
qed

lemma cluster_forth_path:
  assumes "dpre (tbl p) x us" "tbl p (last (x # us)) 2 = z" "tbl p z 3 = last (x # us)" "z = 0 \<or> b \<le> z"
    "\<And>c. c \<in> set us \<Longrightarrow> 0 < c \<and> c < b" "\<And>c. c \<in> set (x # us) \<Longrightarrow> c < info_size p" "z < info_size p" "i = info p"
  shows "cluster_forth i b p x = Some (last (x # us))"
  using assms(1-3,5,6)
proof (induction us arbitrary: x)
  case Nil
  have "entry i x 2 p = z" "entry i z 3 p = x" using Nil assms(7,8) by (simp_all add: entry_tbl)
  then show ?case using assms(4) by (subst cluster_forth.simps) (auto simp: Let_def)
next
  case (Cons c us)
  have "entry i x 2 p = c" using Cons.prems assms(8) by (simp add: entry_tbl)
  moreover have "cluster_forth i b p c = Some (last (c # us))"
    by (rule Cons.IH) (use Cons.prems in auto)
  ultimately show ?case using Cons.prems(4)[of c] by (subst cluster_forth.simps) (simp add: Let_def)
qed

lemma cluster_before_ok:
  assumes path: "dpath (tbl p) 0 (us @ vs) 0" and us: "\<And>c. c \<in> set us \<Longrightarrow> 0 < c \<and> c < b"
    and vs: "\<And>c. c \<in> set vs \<Longrightarrow> b < c \<and> c < info_size p" and b: "0 < b" "b < info_size p"
    and index: "info_index p \<in> set (0 # us @ vs)" and i: "i = info p"
  shows "cluster_before i b p = Some (before us)"
proof (cases "b < info_index p")
  case True
  then obtain v1 v2 where v: "vs = v1 @ info_index p # v2" using index us b by (metis append_Cons in_set_conv_decomp less_asym set_ConsD Un_iff set_append less_zeroE)
  have "dpre (tbl p) 0 (us @ v1 @ [info_index p])" using path v by (simp add: dpath_append dpre_append)
  then have "cluster_back i b p (before (us @ v1 @ [info_index p])) = Some (before us)"
    by (rule cluster_back_path) (use us vs v b i in \<open>fastforce+\<close>)
  then show ?thesis using True by (simp add: cluster_before_def)
next
  case False
  then have "info_index p \<in> set (0 # us)" using index vs by auto
  then obtain u1 u2 where u: "0 # us = u1 @ info_index p # u2" by (meson split_list)
  have pre: "dpre (tbl p) 0 us" "dpath (tbl p) (before us) vs 0" using path by (simp_all add: dpath_append)
  have "dpre (tbl p) (info_index p) u2 \<and> last (info_index p # u2) = before us"
  proof (cases u1)
    case Nil
    then show ?thesis using u pre by simp
  next
    case (Cons a u1')
    then have "us = u1' @ info_index p # u2" using u by simp
    then show ?thesis using pre by (simp add: dpre_append)
  qed
  then have u2: "dpre (tbl p) (info_index p) u2" "last (info_index p # u2) = before us" by blast+
  have z: "tbl p (before us) 2 = after vs" "tbl p (after vs) 3 = before us"
    using pre(2) by (cases vs; simp only: dpath_simps append.simps list.sel)+
  have sub: "set (info_index p # u2) \<subseteq> set (0 # us)" "set u2 \<subseteq> set us"
  proof -
    show "set (info_index p # u2) \<subseteq> set (0 # us)" using u by (metis set_append sup_ge2)
    show "set u2 \<subseteq> set us" using u by (cases u1) auto
  qed
  have "cluster_forth i b p (info_index p) = Some (last (info_index p # u2))"
  proof (rule cluster_forth_path[OF u2(1), where z = "after vs"])
    show "tbl p (last (info_index p # u2)) 2 = after vs" "tbl p (after vs) 3 = last (info_index p # u2)" using z u2(2) by simp_all
    show "after vs = 0 \<or> b \<le> after vs" using vs after_in[of vs] by fastforce
    show "0 < c \<and> c < b" if "c \<in> set u2" for c using us that sub(2) by blast
    show "c < info_size p" if "c \<in> set (info_index p # u2)" for c
      using us[of c] b sub(1) that by fastforce
    show "after vs < info_size p" using vs after_in[of vs] b by fastforce
  qed (rule i)
  then show ?thesis using False u2(2) by (simp add: cluster_before_def)
qed

declare One_nat_def [simp del]

text \<open>What changes when only the table and the number of free chunks change.\<close>

definition table_step :: "pool \<Rightarrow> pool \<Rightarrow> bool" where
  "table_step p q \<longleftrightarrow> table_only p q \<and> ptr q = ptr p \<and> info_index q = info_index p \<and> info_limit q = info_limit p \<and>
     chunks_used q = chunks_used p \<and> bytes_used q = bytes_used p \<and> bytes_free q = bytes_free p"

lemma entry_at: "i = info p \<Longrightarrow> c < info_size p \<Longrightarrow> j < 4 \<Longrightarrow> entry i c j p = tbl p c j"
  by (simp add: entry_tbl)

lemma clusters_split:
  "c \<in> set (clusters b xs) \<Longrightarrow> \<exists>us k vs. xs = us @ Free k # vs \<and> c = b + widths us"
proof (induction xs arbitrary: b)
  case (Cons s xs)
  show ?case
  proof (cases "is_free s \<and> c = b")
    case True
    then obtain k where "s # xs = [] @ Free k # xs \<and> c = b + widths []" by (cases s) auto
    then show ?thesis by blast
  next
    case False
    then have "c \<in> set (clusters (b + width s) xs)" using Cons.prems by (cases s) auto
    then obtain us k vs where "xs = us @ Free k # vs" "c = b + width s + widths us" using Cons.IH by blast
    then have "s # xs = (s # us) @ Free k # vs \<and> c = b + widths (s # us)" by simp
    then show ?thesis by blast
  qed
qed simp

lemma cluster_at: "tab T b (us @ Free k # vs) \<Longrightarrow> T (b + widths us) 1 = k"
  by simp

lemma last_free_cluster:
  assumes "us \<noteq> []" "is_free (last us)"
  obtains us' k where "us = us' @ [Free k]"
  using assms by (cases us rule: rev_cases; cases "last us") auto

lemma not_after_cluster:
  assumes tab: "tab T 1 us" and head: "T 0 1 = 0" and last: "us = [] \<or> \<not> is_free (last us)"
  shows "before (clusters 1 us) + T (before (clusters 1 us)) 1 \<noteq> 1 + widths us"
proof (cases "before (clusters 1 us) = 0")
  case False
  then have "before (clusters 1 us) \<in> set (clusters 1 us)" using before_in[of "clusters 1 us"] by auto
  then obtain us1 k us2 where us: "us = us1 @ Free k # us2" "before (clusters 1 us) = 1 + widths us1"
    using clusters_split by blast
  have "us2 \<noteq> []" using last us(1) by auto
  then have "0 < widths us2" using tab us(1) seg_tab_width by (cases us2) auto
  then show ?thesis using tab us cluster_at[of T 1 us1 k us2] by simp
qed (use head in simp)

lemma link_new:
  assumes inv: "table_inv (info_size p) T (us @ Big n # vs)" and fits: "table_fits p" and small: "info_size p < 134217728"
    and i: "i = info p" and B: "B = 1 + widths us"
    and tbl: "\<And>c j. tbl p c j = (if B \<le> c \<and> c < B + n \<and> j = 0 then 0 else T c j)"
    and last: "us = [] \<or> \<not> is_free (last us)" and x: "x = before (clusters 1 us)"
  shows "\<exists>q. link_cluster i B x p = (q, B) \<and> table_inv (info_size p) (tbl q) (us @ Free n # vs) \<and> table_step p q \<and>
    chunks_free q = chunks_free p + 1"
proof -
  let ?cu = "clusters 1 us" and ?cv = "clusters (B + n) vs"
  note D = table_invD[OF inv] and C = table_inv_cluster[OF inv]
  have t: "tab T 1 us" "seg_tab T B (Big n)" "T 0 1 = 0" "dpath T 0 (?cu @ ?cv) 0" using D B by (simp_all add: add.assoc)
  have n: "0 < n" "B + n \<le> info_size p" "T B 2 = n" using t(2) C(3) B by simp_all
  have cu: "0 < c" "c < B" if "c \<in> set ?cu" for c using C(1)[OF that] B by simp_all
  have cv: "B < c" "c < info_size p" if "c \<in> set ?cv" for c using C(2)[of c] that B n by simp_all
  have x_in: "x = 0 \<or> x \<in> set ?cu" using before_in[of ?cu] x by simp
  have xlt: "x < B" using x_in cu B by auto
  have z: "after ?cv = 0 \<or> B < after ?cv" "after ?cv < info_size p" "after ?cv \<noteq> B"
  proof -
    have "after ?cv = 0 \<or> after ?cv \<in> set ?cv" using after_in[of ?cv] by simp
    then have "after ?cv = 0 \<or> (B < after ?cv \<and> after ?cv < info_size p)" using cv by blast
    then show "after ?cv = 0 \<or> B < after ?cv" "after ?cv < info_size p" "after ?cv \<noteq> B" using n B by auto
  qed
  have "x + T x 1 \<noteq> B" using not_after_cluster[OF t(1,3) last] x B by simp
  moreover have "T x 1 < u32_lim - x"
  proof (cases "x = 0")
    case False
    then obtain us1 k us2 where us: "us = us1 @ Free k # us2" "x = 1 + widths us1" using x_in clusters_split by blast
    then show ?thesis using t(1) cluster_at[of T 1 us1 k us2] n(2) small B by (simp add: u32_lim_def)
  qed (simp add: t(3) u32_lim_def)
  ultimately have cond: "B \<noteq> u32_add x (entry i x 1 p)"
    using xlt n i by (simp add: entry_at tbl u32_simps)
  have at: "T x 2 = after ?cv" "T (after ?cv) 3 = x" using dpath_at[OF t(4)] x by simp_all
  let ?T = "upd2 (upd2 (upd2 (upd2 (upd2 (tbl p) B 1 n) B 2 (after ?cv)) B 3 x) x 2 B) (after ?cv) 3 B"
  define q where "q = fst (link_cluster i B x p)"
  have ok: "link_cluster i B x p = (q, B)" using cond by (simp add: q_def link_cluster_def Let_def)
  have ids: "B < info_size p" "x < info_size p" "x \<noteq> B" using n xlt by simp_all
  have q: "tbl q = ?T" "table_only p q" "chunks_free q = chunks_free p + 1" "ptr q = ptr p" "info_index q = info_index p"
    "info_limit q = info_limit p" "chunks_used q = chunks_used p" "bytes_used q = bytes_used p" "bytes_free q = bytes_free p"
    using cond ids fits i z at n unfolding q_def link_cluster_def
    by (simp_all add: Let_def entry_at tbl table_only_set_entry)
  have "distinct (0 # ?cu @ B # ?cv)" using table_inv_distinct[OF inv] cu cv B by (auto simp: add.assoc)
  moreover have "dpath (upd2 (tbl p) B 1 n) 0 (?cu @ ?cv) 0"
    by (rule dpath_frame[OF t(4)]) (auto simp: tbl)
  ultimately have "dpath ?T 0 (?cu @ B # ?cv) 0" unfolding x by (rule dpath_insert[rotated])
  then have path: "dpath ?T 0 (clusters 1 (us @ [Free n] @ vs)) 0" using B by simp
  have "table_inv (info_size p) ?T (us @ [Free n] @ vs)"
  proof (rule table_inv_change[where ss = "[Big n]" and T = T and B = B])
    show "table_inv (info_size p) T (us @ [Big n] @ vs)" using inv by simp
    show "tab ?T B [Free n]" using n xlt z tbl by auto
    show "dpath ?T 0 (clusters 1 (us @ [Free n] @ vs)) 0" by (rule path)
    fix c assume c: "c < B \<or> B + widths [Big n] \<le> c"
    have far: "c \<noteq> B" "\<not> (B \<le> c \<and> c < B + n)" using c n by auto
    have ends: "c \<noteq> x" "c \<noteq> after ?cv" if "c \<notin> set ?cu \<union> set ?cv" "c \<noteq> 0"
      using that x_in after_in[of ?cv] by auto
    show "?T c 0 = T c 0 \<and> ?T c 1 = T c 1 \<and> (c \<notin> set ?cu \<union> set (clusters (B + widths [Big n]) vs) \<longrightarrow> c \<noteq> 0 \<longrightarrow>
      ?T c 2 = T c 2 \<and> ?T c 3 = T c 3)"
      using far ends tbl by auto
  qed (simp_all add: B)
  then show ?thesis using ok q by (simp add: table_step_def)
qed

lemma link_merge:
  assumes inv: "table_inv (info_size p) T (us @ Free k # Big n # vs)" and fits: "table_fits p" and small: "info_size p < 134217728"
    and i: "i = info p" and B: "B = 1 + widths us + k"
    and tbl: "\<And>c j. tbl p c j = (if B \<le> c \<and> c < B + n \<and> j = 0 then 0 else T c j)"
    and x: "x = before (clusters 1 (us @ [Free k]))"
  shows "\<exists>q. link_cluster i B x p = (q, 1 + widths us) \<and> table_inv (info_size p) (tbl q) (us @ Free (k + n) # vs) \<and> table_step p q \<and>
    chunks_free q = chunks_free p"
proof -
  note D = table_invD[OF inv]
  have x: "x = 1 + widths us" using x by simp
  have t: "seg_tab T x (Free k)" "seg_tab T B (Big n)" "T 0 1 = 0" "widths us + k + n + widths vs < info_size p"
    using D x B by (simp_all add: add.assoc)
  have n: "0 < n" "0 < k" "T B 2 = n" "T x 1 = k" using t by simp_all
  have ids: "B < info_size p" "x < info_size p" "x \<noteq> B" "x < B" using t(4) n x B by simp_all
  have e: "entry i x 1 p = k" "entry i B 2 p = n" using ids i n by (simp_all add: entry_at tbl)
  have sums: "u32_add x k = B" "u32_add k n = k + n" using t(4) small x B by (simp_all add: u32_simps u32_lim_def)
  let ?T = "upd2 (upd2 (tbl p) x 1 (k + n)) B 1 0"
  define q where "q = fst (link_cluster i B x p)"
  have ok: "link_cluster i B x p = (q, x)" by (simp add: q_def link_cluster_def Let_def e sums)
  have q: "tbl q = ?T" "table_only p q" "chunks_free q = chunks_free p" "ptr q = ptr p" "info_index q = info_index p"
    "info_limit q = info_limit p" "chunks_used q = chunks_used p" "bytes_used q = bytes_used p" "bytes_free q = bytes_free p"
    using ids fits i[symmetric] unfolding q_def link_cluster_def by (simp_all add: Let_def e sums table_only_set_entry)
  have path: "dpath T 0 (clusters 1 (us @ [Free (k + n)] @ vs)) 0" using D(2) by (simp add: add.assoc)
  have "table_inv (info_size p) ?T (us @ [Free (k + n)] @ vs)"
  proof (rule table_inv_change[where ss = "[Free k, Big n]" and T = T and B = x])
    show "table_inv (info_size p) T (us @ [Free k, Big n] @ vs)" using inv by simp
    have "?T (x + i) 0 = 0" if "i < k + n" for i
      using that t(1) tbl B x by (cases "i < k") auto
    then show "tab ?T x [Free (k + n)]" using n ids by simp
    show "dpath ?T 0 (clusters 1 (us @ [Free (k + n)] @ vs)) 0" by (rule dpath_frame[OF path]) (simp_all add: tbl)
    fix c assume "c < x \<or> x + widths [Free k, Big n] \<le> c"
    then have far: "c \<noteq> x" "c \<noteq> B" "\<not> (B \<le> c \<and> c < B + n)" using n x B by auto
    then show "?T c 0 = T c 0 \<and> ?T c 1 = T c 1 \<and>
      (c \<notin> set (clusters 1 us) \<union> set (clusters (x + widths [Free k, Big n]) vs) \<longrightarrow> c \<noteq> 0 \<longrightarrow> ?T c 2 = T c 2 \<and> ?T c 3 = T c 3)"
      using tbl by auto
  qed (simp_all add: x)
  then show ?thesis using ok q x by (simp add: table_step_def)
qed

lemma join_other:
  assumes inv: "table_inv (info_size p) (tbl p) (us @ Free n # vs)" and small: "info_size p < 134217728"
    and i: "i = info p" and B: "B = 1 + widths us" and vs: "vs = [] \<or> \<not> is_free (hd vs)"
  shows "join_next i B p = p"
proof -
  note D = table_invD[OF inv] and C = table_inv_cluster[OF inv]
  let ?cv = "clusters (B + n) vs"
  have t: "tab (tbl p) (B + n) vs" "tbl p B 1 = n" "dpath (tbl p) 0 (clusters 1 us @ B # ?cv) 0" using D B by (simp_all add: add.assoc)
  have B_lt: "B < info_size p" using C(3,4) B by simp
  have "B + n < c" if "c \<in> set ?cv" for c
  proof (cases vs)
    case (Cons s ws)
    then have "c \<in> set (clusters (B + n + width s) ws)" "tab (tbl p) (B + n + width s) ws" "0 < width s"
      using that vs t(1) seg_tab_width by (cases s; auto)+
    then show ?thesis using clusters_range by fastforce
  qed (use that in simp)
  moreover have "tbl p B 2 = after ?cv" using t(3) by (cases "?cv"; simp add: dpath_append)
  ultimately have "tbl p B 2 \<noteq> B + n" using after_in[of ?cv] B by (metis add_is_0 less_irrefl set_ConsD zero_neq_one)
  moreover have "u32_add B n = B + n" using C(3) B small by (simp add: u32_simps u32_lim_def)
  ultimately show ?thesis using i B_lt t(2) by (simp add: join_next_def entry_at)
qed

lemma join_free:
  assumes inv: "table_inv (info_size p) (tbl p) (us @ Free n # Free m # vs)" and fits: "table_fits p" and small: "info_size p < 134217728"
    and i: "i = info p" and B: "B = 1 + widths us"
  shows "\<exists>q. join_next i B p = q \<and> table_inv (info_size p) (tbl q) (us @ Free (n + m) # vs) \<and> table_step p q \<and>
    chunks_free q = chunks_free p - 1"
proof -
  note D = table_invD[OF inv]
  let ?cu = "clusters 1 us" and ?cv = "clusters (B + n + m) vs"
  let ?T = "upd2 (upd2 (upd2 (tbl p) B 1 (n + m)) B 2 (after ?cv)) (after ?cv) 3 B"
  have t: "seg_tab (tbl p) B (Free n)" "seg_tab (tbl p) (B + n) (Free m)" "tab (tbl p) (B + n + m) vs"
    "dpath (tbl p) 0 ((?cu @ [B]) @ (B + n) # ?cv) 0" "widths us + n + m + widths vs < info_size p"
    using D B by (simp_all add: add.assoc)
  have n: "0 < n" "0 < m" "tbl p B 1 = n" "tbl p (B + n) 1 = m" using t by simp_all
  have lt: "B < info_size p" "B + n < info_size p" using t(5) n B by simp_all
  have cv: "B + n < c \<and> c < info_size p" if "c \<in> set ?cv" for c
    using clusters_range[OF t(3) that] t(5) n B by simp
  have z: "after ?cv < info_size p" "after ?cv \<noteq> B"
  proof -
    have "after ?cv = 0 \<or> after ?cv \<in> set ?cv" using after_in[of ?cv] by simp
    then have "after ?cv = 0 \<or> (B + n < after ?cv \<and> after ?cv < info_size p)" using cv by blast
    then show "after ?cv < info_size p" "after ?cv \<noteq> B" using lt B by auto
  qed
  have links: "tbl p B 2 = B + n" "tbl p (B + n) 2 = after ?cv"
    using t(4) dpath_at(1)[of "tbl p" "?cu @ [B, B + n]" "?cv"] by (simp_all add: dpath_append)
  have sums: "u32_add B n = B + n" "u32_add n m = n + m" using t(5) small B by (simp_all add: u32_simps u32_lim_def)
  have e: "entry i B 1 p = n" "entry i B 2 p = B + n" "entry i (B + n) 1 p = m" using lt i n links by (simp_all add: entry_at)
  define q where "q = join_next i B p"
  have q: "tbl q = ?T" "table_only p q" "chunks_free q = chunks_free p - 1" "ptr q = ptr p" "info_index q = info_index p"
    "info_limit q = info_limit p" "chunks_used q = chunks_used p" "bytes_used q = bytes_used p" "bytes_free q = bytes_free p"
    using lt fits i[symmetric] z n links unfolding q_def join_next_def
    by (simp_all add: Let_def e sums entry_at table_only_set_entry)
  have dist: "distinct (0 # (?cu @ [B]) @ (B + n) # ?cv)" using table_inv_distinct[OF inv] B by (simp add: add.assoc)
  have "dpath (upd2 (tbl p) B 1 (n + m)) 0 ((?cu @ [B]) @ (B + n) # ?cv) 0" by (rule dpath_frame[OF t(4)]) simp_all
  from dpath_delete[OF this dist] have "dpath ?T 0 ((?cu @ [B]) @ ?cv) 0" by simp
  then have path: "dpath ?T 0 (clusters 1 (us @ [Free (n + m)] @ vs)) 0" using B by (simp add: add.assoc)
  have "table_inv (info_size p) ?T (us @ [Free (n + m)] @ vs)"
  proof (rule table_inv_change[where ss = "[Free n, Free m]" and T = "tbl p" and B = B])
    show "table_inv (info_size p) (tbl p) (us @ [Free n, Free m] @ vs)" using inv by simp
    have "tbl p (B + i) 0 = 0" if "i < n + m" for i
    proof (cases "i < n")
      case False
      then obtain j where "i = n + j" "j < m" using \<open>i < n + m\<close> by (metis add_less_cancel_left le_Suc_ex not_less)
      then show ?thesis using t(2) by (simp add: add.assoc)
    qed (use t(1) in simp)
    then show "tab ?T B [Free (n + m)]" using n by simp
    show "dpath ?T 0 (clusters 1 (us @ [Free (n + m)] @ vs)) 0" by (rule path)
    fix c assume c: "c < B \<or> B + widths [Free n, Free m] \<le> c"
    have "c \<noteq> after ?cv" if "c \<notin> set ?cu \<union> set ?cv" "c \<noteq> 0" using that after_in[of ?cv] by auto
    then show "?T c 0 = tbl p c 0 \<and> ?T c 1 = tbl p c 1 \<and>
      (c \<notin> set ?cu \<union> set (clusters (B + widths [Free n, Free m]) vs) \<longrightarrow> c \<noteq> 0 \<longrightarrow> ?T c 2 = tbl p c 2 \<and> ?T c 3 = tbl p c 3)"
      using c n by (auto simp: add.assoc)
  qed (simp_all add: B)
  then show ?thesis using q by (simp add: table_step_def q_def)
qed

lemma give_back_ok:
  assumes geo: "geometry p" and inv: "table_inv (info_size p) (tbl p) (us @ [Free n])"
    and ends: "ptr p = heap_end p (us @ [Free n])" "ptr p < pool_top p" "info_limit p = widths us + n + 1" "8 \<le> n"
    and i: "i = info p" and B: "B = 1 + widths us"
  shows "\<exists>q. give_back i B p = (q, before (clusters 1 us)) \<and> table_inv (info_size p) (tbl q) us \<and> table_only p q \<and>
    ptr q = heap_end p us \<and> info_limit q = widths us + 1 \<and> info_index q = info_index p \<and> chunks_used q = chunks_used p \<and>
    bytes_used q = bytes_used p \<and> chunks_free q = chunks_free p - 1 \<and> bytes_free q = bytes_free p - of_nat (n * blksz p)"
proof -
  note D = table_invD[OF inv] and g = geometryD[OF geo]
  let ?cu = "clusters 1 us"
  let ?x = "before ?cu"
  let ?T = "upd2 (upd2 (tbl p) ?x 2 0) 0 3 ?x"
  have t: "seg_tab (tbl p) B (Free n)" "dpath (tbl p) 0 (?cu @ B # []) 0" "widths us + n < info_size p" using D B by simp_all
  have lt: "B < info_size p" "B + n \<le> info_size p" "0 < B" using t B by simp_all
  have x: "?x < B" "?x < info_size p"
    using before_in[of ?cu] clusters_range[of "tbl p" 1 us ?x] D(1) B lt(1) by auto
  have links: "tbl p B 3 = ?x" "tbl p B 2 = 0" using t(2) by (simp_all add: dpath_append)
  have e: "entry i B 1 p = n" "entry i B 3 p = ?x" "entry i B 2 p = 0" using t lt i links by (simp_all add: entry_at)
  have bytes: "n * blksz p \<le> ptr p" "u32_mul n (blksz p) = n * blksz p" "heap_end p (us @ [Free n]) - n * blksz p = heap_end p us"
  proof -
    show le: "n * blksz p \<le> ptr p" unfolding ends(1) heap_end_def by (simp add: algebra_simps)
    show "u32_mul n (blksz p) = n * blksz p" using le ends(2) g(7) by (simp add: u32_mul_def)
    show "heap_end p (us @ [Free n]) - n * blksz p = heap_end p us" by (simp add: heap_end_def algebra_simps)
  qed
  have "ADDRESS p (B + n) = base p + (B + n - 1) * blksz p" using block_addr(1)[OF geo lt(2)] lt(3) by simp
  also have "\<dots> = ptr p" unfolding ends(1) heap_end_def using B by (simp add: mult.commute)
  finally have addr: "ADDRESS p (B + n) = ptr p" .
  have sbrk: "heap_sbrk 0 p = (p, ptr p)" using ends(2) g(7) by (simp add: heap_sbrk_def u32_simps)
  have sums: "u32_add B n = B + n" "u32_sub (info_limit p) n = widths us + 1"
    using t(3) g(14) B ends(3) by (simp_all add: u32_simps u32_lim_def)
  have shrink: "u32_add (ptr p) (u32_sub 0 (n * blksz p)) = ptr p - n * blksz p"
  proof -
    have "0 < n * blksz p" "n * blksz p < u32_lim" "ptr p < u32_lim" using bytes(1) ends(2,4) g(7,13) by auto
    then show ?thesis using bytes(1) by (simp add: u32_add_diff_small)
  qed
  have cond: "8 \<le> entry i B 1 p \<and> u32_add B (entry i B 1 p) = info_limit p \<and>
      snd (heap_sbrk 0 p) = ADDRESS p (u32_add B (entry i B 1 p))"
    unfolding e(1) sums(1) sbrk snd_conv addr using ends(3,4) B by simp
  define q where "q = fst (give_back i B p)"
  have lower: "ptr p - n * blksz p < pool_top p" using ends(2) by simp
  have q: "give_back i B p = (q, ?x)" "tbl q = ?T" "table_only p q" "chunks_free q = chunks_free p - 1"
    "ptr q = ptr p - n * blksz p" "info_index q = info_index p" "info_limit q = widths us + 1" "chunks_used q = chunks_used p"
    "bytes_used q = bytes_used p" "bytes_free q = bytes_free p - of_nat (n * blksz p)"
    using cond lt x g(12) i[symmetric] links lower unfolding q_def give_back_def
    by (simp_all add: Let_def e bytes(2) heap_sbrk_def shrink sums(2) entry_at table_only_set_entry)
  have dist: "distinct (0 # ?cu @ B # [])" using table_inv_distinct[OF inv] B by simp
  from dpath_delete[OF t(2) dist] have path: "dpath ?T 0 (clusters 1 (us @ [])) 0" by simp
  have "table_inv (info_size p) ?T (us @ [])"
  proof (rule table_inv_end[where ss = "[Free n]" and T = "tbl p" and B = B])
    fix c assume c: "c < B"
    have "c \<noteq> ?x" if "c \<notin> set ?cu" "c \<noteq> 0" using that before_in[of ?cu] by auto
    then show "?T c 0 = tbl p c 0 \<and> ?T c 1 = tbl p c 1 \<and> (c \<notin> set ?cu \<longrightarrow> c \<noteq> 0 \<longrightarrow> ?T c 2 = tbl p c 2 \<and> ?T c 3 = tbl p c 3)"
      by auto
  next
    fix c assume c: "widths us + widths [] < c" "c < info_size p"
    show "?T c 0 = 0"
    proof (cases "c < B + n")
      case True
      then obtain j where "c = B + j" "j < n" using c B by (metis add_less_cancel_left le_Suc_ex Suc_leI plus_1_eq_Suc widths_simps(1) add_0_right)
      then show ?thesis using t(1) by simp
    next
      case False
      then have "widths (us @ [Free n]) < c" using B by simp
      then show ?thesis using D(5)[of c] c(2) by simp
    qed
  qed (use inv B path t in simp_all)
  then show ?thesis using q ends(1) bytes(3) by simp
qed

section \<open>The statistics\<close>

text \<open>What each segment contributes to the four counters, for blocks of \<open>2 ^ K\<close> bytes.\<close>

primrec chunk_used :: "nat \<Rightarrow> seg \<Rightarrow> 32 word" where
  "chunk_used K (Free n) = 0"
| "chunk_used K (Big n) = 1"
| "chunk_used K (Frags l fs) = of_nat (2 ^ K div 2 ^ l) - of_nat (length fs)"

primrec byte_used :: "nat \<Rightarrow> seg \<Rightarrow> 32 word" where
  "byte_used K (Free n) = 0"
| "byte_used K (Big n) = of_nat (n * 2 ^ K)"
| "byte_used K (Frags l fs) = of_nat (2 ^ K) - of_nat (length fs * 2 ^ l)"

primrec chunk_free :: "nat \<Rightarrow> seg \<Rightarrow> 32 word" where
  "chunk_free K (Free n) = 1"
| "chunk_free K (Big n) = 0"
| "chunk_free K (Frags l fs) = of_nat (length fs)"

primrec byte_free :: "nat \<Rightarrow> seg \<Rightarrow> 32 word" where
  "byte_free K (Free n) = of_nat (n * 2 ^ K)"
| "byte_free K (Big n) = 0"
| "byte_free K (Frags l fs) = of_nat (length fs * 2 ^ l)"

definition total :: "(nat \<Rightarrow> seg \<Rightarrow> 32 word) \<Rightarrow> nat \<Rightarrow> seg list \<Rightarrow> 32 word" where
  "total f K xs = sum_list (map (f K) xs)"

lemma total_simps [simp]: "total f K [] = 0" "total f K (s # xs) = f K s + total f K xs" "total f K (us @ vs) = total f K us + total f K vs"
  by (simp_all add: total_def)

text \<open>How far the counters are from the layout; no operation changes this.\<close>

definition slack :: "pool \<Rightarrow> seg list \<Rightarrow> 32 word \<times> 32 word \<times> 32 word \<times> 32 word" where
  "slack p xs = (chunks_used p - total chunk_used (blklog p) xs, bytes_used p - total byte_used (blklog p) xs,
     chunks_free p - total chunk_free (blklog p) xs, bytes_free p - total byte_free (blklog p) xs)"

section \<open>Freeing an object of whole blocks\<close>

lemma no_adjacent_free:
  assumes "no_adjacent (us @ Big n # vs)" "k = 0 \<and> us = ls \<and> (us = [] \<or> \<not> is_free (last us)) \<or> us = ls @ [Free k]"
    "m = 0 \<and> vs = rs \<and> (vs = [] \<or> \<not> is_free (hd vs)) \<or> vs = Free m # rs"
  shows "no_adjacent (ls @ Free j # rs)" "no_adjacent ls"
  using assms by (auto simp: no_adjacent_append no_adjacent_Cons split: if_splits)

lemma geometry_only: "table_only p q \<Longrightarrow> geometry q = geometry p"
  by (simp add: table_only_def geometry_place)

lemma heap_end_only: "table_only p q \<Longrightarrow> heap_end q xs = heap_end p xs"
  by (simp add: heap_end_def table_onlyD)

lemma ends_same:
  assumes o: "table_only p q" and eq: "ptr q = ptr p" "info_limit q = info_limit p" "widths ys = widths xs" "length xs \<noteq> 1" "ends p xs"
  shows "ends q ys"
proof -
  have "heap_end q ys = heap_end p xs" using heap_end_only[OF o] eq(3) by (simp add: heap_end_def)
  then show ?thesis using eq by (auto simp: ends_def table_onlyD(2,3,7)[OF o] table_onlyD(1)[OF o])
qed

lemma free_seg_cases:
  assumes "tab T b us"
  obtains "us = [] \<or> \<not> is_free (last us)" | ls k where "us = ls @ [Free k]" "0 < k"
proof (cases "us = [] \<or> \<not> is_free (last us)")
  case False
  then obtain ls k where "us = ls @ [Free k]" using last_free_cluster by blast
  then show ?thesis using assms that(2) by simp
qed (use that in blast)

lemma link_ok:
  assumes inv: "table_inv (info_size p) T (us @ Big n # vs)" and fits: "table_fits p" and small: "info_size p < 134217728"
    and i: "i = info p" and B: "B = 1 + widths us"
    and tbl: "\<And>c j. tbl p c j = (if B \<le> c \<and> c < B + n \<and> j = 0 then 0 else T c j)"
    and x: "x = before (clusters 1 us)"
  shows "\<exists>q ls k. (k = 0 \<and> us = ls \<and> (us = [] \<or> \<not> is_free (last us)) \<or> 0 < k \<and> us = ls @ [Free k]) \<and>
    link_cluster i B x p = (q, 1 + widths ls) \<and> table_inv (info_size p) (tbl q) (ls @ Free (k + n) # vs) \<and> table_step p q \<and>
    chunks_free q = chunks_free p + (if k = 0 then 1 else 0)"
proof (rule free_seg_cases)
  show "tab T 1 us" using table_invD(1)[OF inv] by simp
next
  assume last: "us = [] \<or> \<not> is_free (last us)"
  obtain q where "link_cluster i B x p = (q, B)" "table_inv (info_size p) (tbl q) (us @ Free n # vs)" "table_step p q"
    "chunks_free q = chunks_free p + 1" using link_new[OF inv fits small i B tbl last x] by blast
  then show ?thesis using B last by (intro exI[of _ q] exI[of _ us] exI[of _ "0::nat"]) simp
next
  fix ls k assume us: "us = ls @ [Free k]" "0 < k"
  have "table_inv (info_size p) T (ls @ Free k # Big n # vs)" "B = 1 + widths ls + k" "x = before (clusters 1 (ls @ [Free k]))"
    using inv B x us by simp_all
  from link_merge[OF this(1) fits small i this(2) tbl this(3)] us show ?thesis by auto
qed

lemma join_ok:
  assumes inv: "table_inv (info_size p) (tbl p) (us @ Free n # vs)" and fits: "table_fits p" and small: "info_size p < 134217728"
    and i: "i = info p" and B: "B = 1 + widths us"
  shows "\<exists>q rs m. (m = 0 \<and> vs = rs \<and> (vs = [] \<or> \<not> is_free (hd vs)) \<or> 0 < m \<and> vs = Free m # rs) \<and> join_next i B p = q \<and>
    table_inv (info_size p) (tbl q) (us @ Free (n + m) # rs) \<and> table_step p q \<and>
    chunks_free q = chunks_free p - (if m = 0 then 0 else 1)"
proof (cases "vs = [] \<or> \<not> is_free (hd vs)")
  case True
  then show ?thesis using join_other[OF inv small i B] inv by (intro exI[of _ p] exI[of _ vs] exI[of _ "0::nat"]) (auto simp: table_step_def)
next
  case False
  then obtain m rs where vs: "vs = Free m # rs" by (cases vs; cases "hd vs") auto
  then have "0 < m" using table_invD(1)[OF inv] by simp
  from join_free[OF inv[unfolded vs] fits small i B] this vs show ?thesis by auto
qed

lemma give_back_not:
  assumes geo: "geometry p" and inv: "table_inv (info_size p) (tbl p) (us @ Free n # vs)" and ends: "ends p (us @ Free n # vs)"
    and i: "i = info p" and B: "B = 1 + widths us"
    and no: "\<not> (vs = [] \<and> ptr p = heap_end p (us @ [Free n]) \<and> info_limit p = widths us + n + 1 \<and> 8 \<le> n)"
  shows "give_back i B p = (p, B)"
proof -
  note D = table_invD[OF inv] and g = geometryD[OF geo]
  have t: "tbl p B 1 = n" "tab (tbl p) (B + n) vs" "widths us + n + widths vs < info_size p" "0 < n" using D B by (simp_all add: add.assoc)
  have e: "entry i B 1 p = n" using t B i by (simp add: entry_at)
  have sum: "u32_add B n = B + n" using t(3) g(14) B by (simp add: u32_simps u32_lim_def)
  have lim: "ptr p < pool_top p" "info_limit p = 0 \<or> info_limit p = widths us + n + widths vs + 1"
    using ends by (simp_all add: ends_def add.assoc)
  have sbrk: "snd (heap_sbrk 0 p) = ptr p" using lim(1) g(7) by (simp add: heap_sbrk_def u32_simps)
  have "vs = []" if "B + n = info_limit p"
  proof -
    have "widths vs = 0" using lim(2) that B by simp
    then show ?thesis using t(2) by (cases vs) (auto dest!: seg_tab_width)
  qed
  moreover have "ADDRESS p (B + n) = heap_end p (us @ [Free n])"
    using block_addr(1)[OF geo, of "B + n"] t(3) B by (simp add: heap_end_def mult.commute)
  ultimately have "\<not> (8 \<le> n \<and> B + n = info_limit p \<and> ptr p = ADDRESS p (B + n))" using no B by auto
  then show ?thesis unfolding give_back_def Let_def e sum sbrk by (rule if_not_P)
qed

lemma table_step_fields:
  assumes "table_step p q"
  shows "table_only p q" "ptr q = ptr p" "info_index q = info_index p" "info_limit q = info_limit p" "chunks_used q = chunks_used p"
    "bytes_used q = bytes_used p" "bytes_free q = bytes_free p"
  using assms by (simp_all add: table_step_def)

lemma free_blocks_ok:
  assumes inv: "blocks_inv p (us @ Big n # vs)" and us: "us \<noteq> []"
  shows "\<exists>q xs ls k rs m. free_blocks (1 + widths us) p = Some q \<and> blocks_inv q xs \<and> table_only p q \<and>
    slack q xs = slack p (us @ Big n # vs) \<and>
    (k = 0 \<and> us = ls \<or> us = ls @ [Free k]) \<and> (m = 0 \<and> vs = rs \<or> vs = Free m # rs) \<and>
    (xs = ls @ Free (k + n + m) # rs \<and> info_index q = 1 + widths ls \<and> info_limit q = info_limit p \<and> ptr q = ptr p \<or>
     rs = [] \<and> xs = ls \<and> info_limit p \<noteq> 0)"
proof -
  let ?B = "1 + widths us" and ?K = "blklog p" and ?N = "info_size p"
  have b: "geometry p" "table_inv ?N (tbl p) (us @ Big n # vs)" "info_index p \<in> set (0 # clusters 1 (us @ Big n # vs))"
    "ends p (us @ Big n # vs)" "no_adjacent (us @ Big n # vs)" using inv by (simp_all add: blocks_inv_def)
  note g = geometryD[OF b(1)] and D = table_invD[OF b(2)] and C = table_inv_cluster[OF b(2)]
  have t: "seg_tab (tbl p) ?B (Big n)" "widths us + n + widths vs < ?N" using D by (simp_all add: add.assoc)
  have n: "0 < n" "?B + n \<le> ?N" "?B < ?N" using t by simp_all
  have bytes: "u32_mul n (blksz p) = n * blksz p"
  proof -
    have "n * blksz p \<le> heap_end p (us @ Big n # vs)" by (simp add: heap_end_def algebra_simps)
    then show ?thesis using b(4) g(7) by (simp add: ends_def u32_mul_def)
  qed
  define p0 where "p0 = p\<lparr>chunks_used := chunks_used p - 1, bytes_used := bytes_used p - of_nat (n * blksz p),
    bytes_free := bytes_free p + of_nat (n * blksz p)\<rparr>"
  define p1 where "p1 = mark_free (info p) ?B (n - 1) (set_entry (info p) ?B 0 0 p0)"
  have entries: "entry (info p) ?B 2 p = n" "entry (info p) ?B 2 (set_entry (info p) ?B 0 0 p0) = n"
    using t(1) n g(12) by (simp_all add: entry_at p0_def)
  have fits: "table_fits p0" "info_size p0 = ?N" "info p0 = info p" using g(12) by (simp_all add: p0_def)
  have t1: "tbl p1 c j = (if ?B \<le> c \<and> c < ?B + n \<and> j = 0 then 0 else tbl p c j)" for c j
    unfolding p1_def using n fits by (subst tbl_mark_free(1)) (auto simp: p0_def)
  have p1: "table_only p p1" "table_fits p1" "info_size p1 = ?N" "info p1 = info p" "ptr p1 = ptr p" "info_index p1 = info_index p"
    "info_limit p1 = info_limit p" "chunks_used p1 = chunks_used p - 1" "bytes_used p1 = bytes_used p - of_nat (n * blksz p)"
    "chunks_free p1 = chunks_free p" "bytes_free p1 = bytes_free p + of_nat (n * blksz p)"
    unfolding p1_def using n fits
    by (auto simp: p0_def intro!: tbl_mark_free(2) table_only_set_entry)
  have before: "cluster_before (info p) ?B p1 = Some (before (clusters 1 us))"
  proof (rule cluster_before_ok)
    show "dpath (tbl p1) 0 (clusters 1 us @ clusters (?B + n) vs) 0"
      by (rule dpath_frame[where T = "tbl p"]) (use D(2) in \<open>simp_all add: t1 add.assoc\<close>)
    show "info_index p1 \<in> set (0 # clusters 1 us @ clusters (?B + n) vs)" using b(3) p1(6) by (simp add: add.assoc)
    show "0 < c \<and> c < ?B" if "c \<in> set (clusters 1 us)" for c using C(1)[OF that] by simp
    show "?B < c \<and> c < info_size p1" if "c \<in> set (clusters (?B + n) vs)" for c using C(2)[of c] that n p1(3) by simp
  qed (use n p1 in simp_all)
  obtain p2 ls k where link: "k = 0 \<and> us = ls \<and> (us = [] \<or> \<not> is_free (last us)) \<or> 0 < k \<and> us = ls @ [Free k]"
    "link_cluster (info p) ?B (before (clusters 1 us)) p1 = (p2, 1 + widths ls)"
    "table_inv ?N (tbl p2) (ls @ Free (k + n) # vs)" "table_step p1 p2" "chunks_free p2 = chunks_free p1 + (if k = 0 then 1 else 0)"
    using link_ok[of p1 "tbl p" us n vs "info p" ?B "before (clusters 1 us)"] b(2) p1(2-4) g(14) t1 by auto
  have p2: "info_size p2 = ?N" "info p2 = info p" "table_fits p2" "table_only p p2"
    using table_step_fields(1)[OF link(4)] p1 table_only_trans[OF p1(1)] by (simp_all add: table_onlyD)
  obtain p3 rs m where join: "m = 0 \<and> vs = rs \<and> (vs = [] \<or> \<not> is_free (hd vs)) \<or> 0 < m \<and> vs = Free m # rs"
    "join_next (info p) (1 + widths ls) p2 = p3" "table_inv ?N (tbl p3) (ls @ Free (k + n + m) # rs)" "table_step p2 p3"
    "chunks_free p3 = chunks_free p2 - (if m = 0 then 0 else 1)"
    using join_ok[of p2 ls "k + n" vs "info p" "1 + widths ls"] link(3) p2 g(14) by auto
  let ?xs = "ls @ Free (k + n + m) # rs"
  have p3: "table_only p p3" "info_size p3 = ?N" "info p3 = info p" "geometry p3" "ptr p3 = ptr p" "info_limit p3 = info_limit p"
    using table_step_fields[OF link(4)] table_step_fields[OF join(4)] p1 p2 table_only_trans[OF p2(4)] geometry_only b(1)
    by (auto simp: table_onlyD)
  have wid: "widths ?xs = widths (us @ Big n # vs)" using link(1) join(1) by auto
  have heap: "heap_end p3 ?xs = heap_end p (us @ Big n # vs)"
    using heap_end_only[OF p3(1)] wid by (simp only: heap_end_def)
  have ends3: "ends p3 ?xs"
    using b(4) heap wid p3 us table_onlyD(1,2,7)[OF p3(1)] by (auto simp: ends_def)
  have adj: "no_adjacent ?xs" "no_adjacent ls"
    using no_adjacent_free[OF b(5), of k ls m rs] link(1) join(1) by auto
  have counters: "chunks_used p3 = chunks_used p - 1" "bytes_used p3 = bytes_used p - of_nat (n * blksz p)"
    "bytes_free p3 = bytes_free p + of_nat (n * blksz p)"
    "chunks_free p3 = chunks_free p + (if k = 0 then 1 else 0) - (if m = 0 then 0 else 1)"
    using table_step_fields[OF link(4)] table_step_fields[OF join(4)] p1 link(5) join(5) by simp_all
  have slack3: "slack p3 ?xs = slack p (us @ Big n # vs)"
    using link(1) join(1) counters table_onlyD(6)[OF p3(1)] g(2)
    by (auto simp: slack_def algebra_simps)
  have dec: "u32_sub n 1 = n - 1" using n t(2) g(14) by (simp add: u32_simps u32_lim_def)
  have "free_blocks ?B p = Option.bind (cluster_before (info p) ?B p1) (\<lambda>x. case link_cluster (info p) ?B x p1 of (p', b) \<Rightarrow>
      case give_back (info p) b (join_next (info p) b p') of (p', b) \<Rightarrow> Some (p'\<lparr>info_index := b\<rparr>))"
    unfolding free_blocks_def Let_def entries(1) bytes p0_def[symmetric] entries(2) dec p1_def[symmetric] by (rule refl)
  then have free: "free_blocks ?B p = (case give_back (info p) (1 + widths ls) p3 of (p, block) \<Rightarrow> Some (p\<lparr>info_index := block\<rparr>))"
    unfolding before bind.bind_lunit link(2) join(2) by (simp add: join(2))
  show ?thesis
  proof (cases "rs = [] \<and> ptr p3 = heap_end p3 (ls @ [Free (k + n + m)]) \<and> info_limit p3 = widths ls + (k + n + m) + 1 \<and> 8 \<le> k + n + m")
    case False
    have "give_back (info p) (1 + widths ls) p3 = (p3, 1 + widths ls)"
      by (rule give_back_not[OF p3(4) _ ends3 _ _ False]) (use join(3) p3 in simp_all)
    then have "free_blocks ?B p = Some (p3\<lparr>info_index := 1 + widths ls\<rparr>)" using free by simp
    moreover have "blocks_inv (p3\<lparr>info_index := 1 + widths ls\<rparr>) ?xs"
      using p3(2,4) join(3) ends3 adj by (simp add: blocks_inv_def)
    moreover have "slack (p3\<lparr>info_index := 1 + widths ls\<rparr>) ?xs = slack p (us @ Big n # vs)"
      using slack3 by (simp add: slack_def)
    ultimately show ?thesis using p3 link(1) join(1)
      by (intro exI[of _ "p3\<lparr>info_index := 1 + widths ls\<rparr>"] exI[of _ ?xs] exI[of _ ls] exI[of _ k] exI[of _ rs] exI[of _ m]) auto
  next
    case True
    then have rs: "rs = []" by blast
    obtain q where q: "give_back (info p) (1 + widths ls) p3 = (q, before (clusters 1 ls))" "table_inv ?N (tbl q) ls" "table_only p3 q"
      "ptr q = heap_end p3 ls" "info_limit q = widths ls + 1" "chunks_used q = chunks_used p3" "bytes_used q = bytes_used p3"
      "chunks_free q = chunks_free p3 - 1" "bytes_free q = bytes_free p3 - of_nat ((k + n + m) * blksz p3)"
      using give_back_ok[OF p3(4) _ _ _ _ _ p3(3)[symmetric] refl, of ls "k + n + m"] True join(3) p3(2) ends3 by (auto simp: ends_def)
    let ?q = "q\<lparr>info_index := before (clusters 1 ls)\<rparr>"
    have only: "table_only p q" by (rule table_only_trans[OF p3(1) q(3)])
    have "ends q ls"
      using ends3 q(4,5) table_onlyD(1,2,7)[OF q(3)] heap_end_only[OF q(3)] rs True
      by (auto simp: ends_def heap_end_def algebra_simps)
    then have "blocks_inv ?q ls"
      using q(2) geometry_only[OF only] b(1) adj(2) before_in[of "clusters 1 ls"] table_onlyD(5)[OF only]
      by (simp add: blocks_inv_def)
    moreover have "slack ?q ls = slack p3 ?xs"
      using table_onlyD(6)[OF q(3)] rs geometryD(2)[OF p3(4)] by (simp add: slack_def q(6-9) algebra_simps)
    then have "slack ?q ls = slack p (us @ Big n # vs)" using slack3 by simp
    moreover have "info_limit p \<noteq> 0" using True p3(6) by simp
    moreover have "free_blocks ?B p = Some ?q" using free q(1) by simp
    moreover have "table_only p ?q" using only by simp
    ultimately show ?thesis using rs link(1) join(1)
      by (intro exI[of _ ?q] exI[of _ ls] exI[of _ ls] exI[of _ k] exI[of _ rs] exI[of _ m]) auto
  qed
qed

end
