(* ===== verification/HeapTake.thy ===== *)
theory HeapTake
  imports HeapBlocks
begin

text \<open>
  Allocating whole blocks: marking and linking in the table, the end of the used part, and the
  circular search.
\<close>

section \<open>Marking an object\<close>

lemma mark_tail_simps [simp]:
  "base (mark_tail i b k p) = base p" "pool_top (mark_tail i b k p) = pool_top p" "ptr (mark_tail i b k p) = ptr p"
  "pool_size (mark_tail i b k p) = pool_size p" "info (mark_tail i b k p) = info p"
  "info_end (mark_tail i b k p) = info_end p" "info_size (mark_tail i b k p) = info_size p"
  "info_index (mark_tail i b k p) = info_index p" "info_limit (mark_tail i b k p) = info_limit p"
  "chunks_used (mark_tail i b k p) = chunks_used p" "bytes_used (mark_tail i b k p) = bytes_used p"
  "chunks_free (mark_tail i b k p) = chunks_free p" "bytes_free (mark_tail i b k p) = bytes_free p"
  "blklog (mark_tail i b k p) = blklog p" "blksz (mark_tail i b k p) = blksz p" "frag (mark_tail i b k p) = frag p"
  "table_fits (mark_tail i b k p) = table_fits p"
  by (induction k arbitrary: p) simp_all

lemma mark_object_simps [simp]:
  "base (mark_object i b k p) = base p" "pool_top (mark_object i b k p) = pool_top p" "ptr (mark_object i b k p) = ptr p"
  "pool_size (mark_object i b k p) = pool_size p" "info (mark_object i b k p) = info p"
  "info_end (mark_object i b k p) = info_end p" "info_size (mark_object i b k p) = info_size p"
  "info_index (mark_object i b k p) = info_index p" "info_limit (mark_object i b k p) = info_limit p"
  "chunks_used (mark_object i b k p) = chunks_used p" "bytes_used (mark_object i b k p) = bytes_used p"
  "chunks_free (mark_object i b k p) = chunks_free p" "bytes_free (mark_object i b k p) = bytes_free p"
  "blklog (mark_object i b k p) = blklog p" "blksz (mark_object i b k p) = blksz p" "frag (mark_object i b k p) = frag p"
  "table_fits (mark_object i b k p) = table_fits p"
  by (simp_all add: mark_object_def)

definition object_word :: "nat \<Rightarrow> nat \<Rightarrow> nat \<Rightarrow> nat \<Rightarrow> nat" where
  "object_word b n c j = (if j = 0 then 1 else if j = 1 then 0 else if c = b then n else u32_sub 0 (c - b))"

lemma tbl_mark_tail:
  assumes "table_fits p" "i = info p" "b + k < info_size p"
  shows "tbl (mark_tail i b k p) c j = (if b < c \<and> c \<le> b + k \<and> j < 3 then object_word b n c j else tbl p c j)"
    "table_only q p \<Longrightarrow> table_only q (mark_tail i b k p)"
proof -
  let ?s = "\<lambda>p k. set_entry i (b + Suc k) 2 (u32_sub 0 (Suc k)) (set_entry i (b + Suc k) 1 0 (set_entry i (b + Suc k) 0 1 p))"
  show "tbl (mark_tail i b k p) c j = (if b < c \<and> c \<le> b + k \<and> j < 3 then object_word b n c j else tbl p c j)"
    using assms
  proof (induction k arbitrary: p)
    case (Suc k)
    then show ?case using Suc.IH[of "?s p k"] by (auto simp: object_word_def)
  qed auto
  show "table_only q p \<Longrightarrow> table_only q (mark_tail i b k p)"
    using assms
  proof (induction k arbitrary: p)
    case (Suc k)
    then show ?case using Suc.IH[of "?s p k"] by (simp add: table_only_set_entry)
  qed simp
qed

lemma tbl_mark_object:
  assumes "table_fits p" "i = info p" "b + n \<le> info_size p" "0 < n" "n < u32_lim"
  shows "tbl (mark_object i b n p) c j = (if b \<le> c \<and> c < b + n \<and> j < 3 then object_word b n c j else tbl p c j)"
    "table_only q p \<Longrightarrow> table_only q (mark_object i b n p)"
proof -
  have dec: "u32_sub n 1 = n - 1" using assms(4,5) by (simp add: u32_simps)
  show "tbl (mark_object i b n p) c j = (if b \<le> c \<and> c < b + n \<and> j < 3 then object_word b n c j else tbl p c j)"
    unfolding mark_object_def dec using assms
    by (subst tbl_mark_tail(1)[where n = n]) (auto simp: object_word_def)
  show "table_only q p \<Longrightarrow> table_only q (mark_object i b n p)"
    unfolding mark_object_def dec using assms by (intro tbl_mark_tail(2) table_only_set_entry) simp_all
qed

lemma seg_tab_object:
  assumes "0 < n" "n < 134217728" "\<And>c j. b \<le> c \<Longrightarrow> c < b + n \<Longrightarrow> j < 3 \<Longrightarrow> T c j = object_word b n c j"
  shows "seg_tab T b (Big n)"
proof -
  have neg: "2147483648 \<le> u32_sub 0 i" if "0 < i" "i < n" for i
    using that assms(2) by (simp add: u32_sub_def u32_lim_def)
  then show ?thesis using assms(1,3) by (simp add: object_word_def)
qed

section \<open>Taking an object out of a cluster\<close>

lemma upd2_commute: "b \<noteq> c \<or> j \<noteq> k \<Longrightarrow> upd2 (upd2 T b j v) c k w = upd2 (upd2 T c k w) b j v"
  by (auto intro!: ext)

text \<open>The object covers the first \<open>n\<close> blocks; what remains, if anything, is a cluster.\<close>

definition remainder :: "nat \<Rightarrow> nat \<Rightarrow> seg list" where
  "remainder n m = (if n < m then [Free (m - n)] else [])"

lemma widths_remainder: "n \<le> m \<Longrightarrow> n + widths (remainder n m) = m"
  by (simp add: remainder_def)

lemma free_neighbours:
  assumes inv: "table_inv N T (us @ Free m # vs)" and B: "B = 1 + widths us"
  defines "x \<equiv> before (clusters 1 us)" and "z \<equiv> after (clusters (B + m) vs)"
  shows "T B 1 = m" "T B 2 = z" "T B 3 = x" "x < B" "z = 0 \<or> B + m \<le> z" "z < N" "B + m \<le> N" "0 < m" "0 < B"
    "x \<in> set (0 # clusters 1 us)" "z \<in> set (0 # clusters (B + m) vs)"
proof -
  note D = table_invD[OF inv]
  have t: "seg_tab T B (Free m)" "tab T 1 us" "tab T (B + m) vs" "dpath T 0 (clusters 1 us @ B # clusters (B + m) vs) 0"
    "widths us + m + widths vs < N" using D B by (simp_all add: add.assoc)
  show "T B 1 = m" "B + m \<le> N" "0 < m" "0 < B" using t(1,5) B by simp_all
  show x: "x \<in> set (0 # clusters 1 us)" "z \<in> set (0 # clusters (B + m) vs)"
    unfolding x_def z_def by (rule before_in after_in)+
  show "x < B" using x(1) clusters_range[OF t(2)] B by fastforce
  have "z = 0 \<or> (B + m \<le> z \<and> z < N)" using x(2) clusters_range[OF t(3), of z] t(5) B by auto
  then show "z = 0 \<or> B + m \<le> z" "z < N" using t(5) by auto
  show "T B 2 = z" using dpath_at(1)[of T "clusters 1 us @ [B]" "clusters (B + m) vs"] t(4) by (simp add: z_def)
  show "T B 3 = x" using t(4) by (simp add: dpath_append x_def)
qed

lemma take_exact:
  assumes inv: "table_inv (info_size p) (tbl p) (us @ Free n # vs)" and fits: "table_fits p" and small: "info_size p < 134217728"
    and i: "i = info p" and B: "B = 1 + widths us"
  shows "\<exists>q. take_blocks i B n p = q \<and> table_inv (info_size p) (tbl q) (us @ Big n # vs) \<and> table_only p q \<and>
    ptr q = ptr p \<and> info_limit q = info_limit p \<and> info_index q = after (clusters (B + n) vs) \<and>
    chunks_used q = chunks_used p + 1 \<and> bytes_used q = bytes_used p + of_nat (u32_mul n (blksz p)) \<and>
    chunks_free q = chunks_free p - 1 \<and> bytes_free q = bytes_free p - of_nat (u32_mul n (blksz p))"
proof -
  let ?cu = "clusters 1 us" and ?cv = "clusters (B + n) vs"
  define x where "x = before ?cu"
  define z where "z = after ?cv"
  note F = free_neighbours[OF inv B, folded x_def z_def] and D = table_invD[OF inv]
  have lt: "B < info_size p" "x < info_size p" "x \<noteq> B" "z \<noteq> B" "n < u32_lim"
    using F(4-9) small by (auto simp: u32_lim_def)
  have e: "entry i B 1 p = n" "entry i B 2 p = z" "entry i B 3 p = x" using F(1-3) lt i by (simp_all add: entry_at)
  define p1 where "p1 = set_entry i x 2 z ((set_entry i z 3 x p)\<lparr>info_index := z\<rparr>)"
  have p1: "tbl p1 = upd2 (upd2 (tbl p) z 3 x) x 2 z" "table_only p p1" "info p1 = info p" "info_size p1 = info_size p" "table_fits p1"
    using lt F(6) fits i unfolding p1_def by (simp_all add: table_only_set_entry)
  let ?s = "\<lambda>p :: pool. p\<lparr>chunks_used := chunks_used p + 1, bytes_used := bytes_used p + of_nat (u32_mul n (blksz p)),
    bytes_free := bytes_free p - of_nat (u32_mul n (blksz p))\<rparr>"
  define q where "q = mark_object i B n (?s (p1\<lparr>chunks_free := chunks_free p1 - 1\<rparr>))"
  have take: "take_blocks i B n p = q"
    using i[symmetric] lt F(2,3,6) fits unfolding take_blocks_def q_def p1_def
    by (simp add: Let_def e entry_at)
  have T: "tbl q c j = (if B \<le> c \<and> c < B + n \<and> j < 3 then object_word B n c j else tbl p1 c j)" for c j
    unfolding q_def using p1 i F(7,8) lt(5) by (subst tbl_mark_object(1)) simp_all
  have only: "table_only p q" unfolding q_def using p1 i F(7,8) lt(5) by (intro tbl_mark_object(2)) simp_all
  have dist: "distinct (0 # ?cu @ B # ?cv)" using table_inv_distinct[OF inv] B by (simp add: add.assoc)
  have path0: "dpath (tbl p) 0 (?cu @ B # ?cv) 0" using D(2) B by (simp add: add.assoc)
  have "dpath (tbl p1) 0 (?cu @ ?cv) 0"
    using dpath_delete[OF path0 dist, folded x_def z_def] unfolding p1(1) by (subst upd2_commute) simp_all
  moreover have same: "tbl q c j = tbl p1 c j" if "c \<in> set (0 # ?cu @ ?cv)" for c j
    using that clusters_range[of "tbl p" 1 us c] clusters_range[of "tbl p" "B + n" vs c] D(1) B by (auto simp: T add.assoc)
  ultimately have "dpath (tbl q) 0 (?cu @ ?cv) 0" by (intro dpath_frame[of "tbl p1" 0 "?cu @ ?cv" 0 "tbl q"]) blast+
  then have path: "dpath (tbl q) 0 (clusters 1 (us @ [Big n] @ vs)) 0" using B by (simp add: add.assoc)
  have "table_inv (info_size p) (tbl q) (us @ [Big n] @ vs)"
  proof (rule table_inv_change[where ss = "[Free n]" and T = "tbl p" and B = B])
    show "tab (tbl q) B [Big n]" using seg_tab_object[of n B "tbl q"] F(7,8) small T by auto
    fix c assume "c < B \<or> B + widths [Free n] \<le> c"
    then have "tbl q c j = tbl p1 c j" for j by (auto simp: T)
    moreover have "c \<noteq> x" "c \<noteq> z" if "c \<notin> set ?cu \<union> set ?cv" "c \<noteq> 0" using that F(10,11) by auto
    ultimately show "tbl q c 0 = tbl p c 0 \<and> tbl q c 1 = tbl p c 1 \<and>
      (c \<notin> set ?cu \<union> set (clusters (B + widths [Free n]) vs) \<longrightarrow> c \<noteq> 0 \<longrightarrow> tbl q c 2 = tbl p c 2 \<and> tbl q c 3 = tbl p c 3)"
      unfolding p1(1) by simp
  qed (use inv B path in simp_all)
  then show ?thesis using take only by (simp add: q_def p1_def z_def)
qed

lemma take_part:
  assumes inv: "table_inv (info_size p) (tbl p) (us @ Free m # vs)" and fits: "table_fits p" and small: "info_size p < 134217728"
    and i: "i = info p" and B: "B = 1 + widths us" and n: "0 < n" "n < m"
  shows "\<exists>q. take_blocks i B n p = q \<and> table_inv (info_size p) (tbl q) (us @ Big n # Free (m - n) # vs) \<and> table_only p q \<and>
    ptr q = ptr p \<and> info_limit q = info_limit p \<and> info_index q = B + n \<and>
    chunks_used q = chunks_used p + 1 \<and> bytes_used q = bytes_used p + of_nat (u32_mul n (blksz p)) \<and>
    chunks_free q = chunks_free p \<and> bytes_free q = bytes_free p - of_nat (u32_mul n (blksz p))"
proof -
  let ?cu = "clusters 1 us" and ?cv = "clusters (B + m) vs" and ?r = "B + n"
  define x where "x = before ?cu"
  define z where "z = after ?cv"
  note F = free_neighbours[OF inv B, folded x_def z_def] and D = table_invD[OF inv]
  have lt: "B < info_size p" "x < info_size p" "x \<noteq> B" "z \<noteq> B" "m < u32_lim" "?r < info_size p" "x \<noteq> ?r" "z \<noteq> ?r" "B \<noteq> ?r"
    using F(4-9) small n by (auto simp: u32_lim_def)
  have e: "entry i B 1 p = m" using F(1) lt i by (simp add: entry_at)
  have sums: "u32_add B n = ?r" "u32_sub m n = m - n" using lt n small by (simp_all add: u32_simps u32_lim_def)
  define pa where "pa = set_entry i ?r 1 (m - n) p"
  define pb where "pb = set_entry i ?r 2 z pa"
  define pc where "pc = set_entry i ?r 3 x pb"
  define pd where "pd = pc\<lparr>info_index := ?r\<rparr>"
  define pe where "pe = set_entry i z 3 ?r pd"
  define p1 where "p1 = set_entry i x 2 ?r pe"
  note defs = pa_def pb_def pc_def pd_def pe_def p1_def
  let ?T = "upd2 (upd2 (upd2 (upd2 (upd2 (tbl p) ?r 1 (m - n)) ?r 2 z) ?r 3 x) z 3 ?r) x 2 ?r"
  have p1: "tbl p1 = ?T" "table_only p p1" "info p1 = info p" "info_size p1 = info_size p" "table_fits p1"
    using lt F(6) fits i unfolding defs by (simp_all add: table_only_set_entry)
  have links: "entry i B 2 pa = z" "entry i B 3 pb = x" "entry i B 2 pd = z" "entry i B 3 pe = x" "entry i B 2 pe = z" "entry i z 3 pe = ?r"
    using lt F(2,3,6) fits i unfolding defs by (simp_all add: entry_at)
  let ?s = "\<lambda>p :: pool. p\<lparr>chunks_used := chunks_used p + 1, bytes_used := bytes_used p + of_nat (u32_mul n (blksz p)),
    bytes_free := bytes_free p - of_nat (u32_mul n (blksz p))\<rparr>"
  define q where "q = mark_object i B n (?s p1)"
  have take: "take_blocks i B n p = q"
    unfolding take_blocks_def Let_def e sums if_P[OF n(2)] pa_def[symmetric] links pb_def[symmetric] pc_def[symmetric]
      pd_def[symmetric] pe_def[symmetric] p1_def[symmetric] q_def by (rule refl)
  have T: "tbl q c j = (if B \<le> c \<and> c < B + n \<and> j < 3 then object_word B n c j else tbl p1 c j)" for c j
    unfolding q_def using p1 i F(7) lt(5) n by (subst tbl_mark_object(1)) simp_all
  have only: "table_only p q" unfolding q_def using p1 i F(7) lt(5) n by (intro tbl_mark_object(2)) simp_all
  have dist: "distinct (0 # ?cu @ B # ?cv)" using table_inv_distinct[OF inv] B by (simp add: add.assoc)
  have path0: "dpath (tbl p) 0 (?cu @ B # ?cv) 0" using D(2) B by (simp add: add.assoc)
  have range: "c < B \<or> B + m \<le> c" if "c \<in> set (0 # ?cu @ ?cv)" for c
    using that clusters_range[of "tbl p" 1 us c] clusters_range[of "tbl p" "B + m" vs c] D(1) B by (auto simp: add.assoc)
  have "distinct (0 # ?cu @ ?r # ?cv)" using dist range[of ?r] n by auto
  from dpath_insert[OF dpath_delete[OF path0 dist] this, folded x_def z_def]
  have "dpath (upd2 (upd2 (upd2 (upd2 (upd2 (upd2 (tbl p) x 2 z) z 3 x) ?r 2 z) ?r 3 x) x 2 ?r) z 3 ?r) 0 (?cu @ ?r # ?cv) 0" .
  then have "dpath (tbl p1) 0 (?cu @ ?r # ?cv) 0"
    by (rule dpath_frame) (simp_all add: p1(1))
  moreover have same: "tbl q c j = tbl p1 c j" if "c \<in> set (0 # ?cu @ ?r # ?cv)" for c j
    using that range[of c] F(9) n by (auto simp: T)
  ultimately have "dpath (tbl q) 0 (?cu @ ?r # ?cv) 0" by (intro dpath_frame[of "tbl p1" 0 "?cu @ ?r # ?cv" 0 "tbl q"]) blast+
  then have path: "dpath (tbl q) 0 (clusters 1 (us @ [Big n, Free (m - n)] @ vs)) 0" using B n by (simp add: add.assoc)
  have "table_inv (info_size p) (tbl q) (us @ [Big n, Free (m - n)] @ vs)"
  proof (rule table_inv_change[where ss = "[Free m]" and T = "tbl p" and B = B])
    have "tbl q (?r + j) 0 = 0" if "j < m - n" for j
      using D(1) that lt B by (simp add: T p1(1) add.assoc)
    moreover have "tbl q ?r 1 = m - n" using lt by (simp add: T p1(1))
    ultimately show "tab (tbl q) B [Big n, Free (m - n)]" using seg_tab_object[of n B "tbl q"] n F(7) small T by auto
    fix c assume c: "c < B \<or> B + widths [Free m] \<le> c"
    then have "tbl q c j = tbl p1 c j" "c \<noteq> ?r" for j using n by (auto simp: T)
    moreover have "c \<noteq> x" "c \<noteq> z" if "c \<notin> set ?cu \<union> set ?cv" "c \<noteq> 0" using that F(10,11) by auto
    ultimately show "tbl q c 0 = tbl p c 0 \<and> tbl q c 1 = tbl p c 1 \<and>
      (c \<notin> set ?cu \<union> set (clusters (B + widths [Free m]) vs) \<longrightarrow> c \<noteq> 0 \<longrightarrow> tbl q c 2 = tbl p c 2 \<and> tbl q c 3 = tbl p c 3)"
      unfolding p1(1) by simp
  qed (use inv B path n in simp_all)
  then show ?thesis using take only by (simp add: q_def defs)
qed

end
