(* ===== verification/HeapMore.thy ===== *)
theory HeapMore
  imports HeapTake
begin

text \<open>
  Growing the used part of a pool, and the search for a cluster that ends there. For requests that do not
  wrap around the address space the table is always large enough, so that it never moves.
\<close>

section \<open>More memory at the end\<close>

definition request_fits :: "pool \<Rightarrow> nat \<Rightarrow> bool" where
  "request_fits p n \<longleftrightarrow> pool_top p + n * blksz p + blksz p \<le> u32_lim"

lemma request_lt:
  assumes "geometry p" "request_fits p n"
  shows "n < u32_lim"
proof -
  have "n * 1 \<le> n * blksz p" using geometryD(13)[OF assms(1)] by (intro mult_le_mono2) simp
  also have "\<dots> < u32_lim" using assms(2) geometryD(13)[OF assms(1)] by (simp add: request_fits_def)
  finally show ?thesis by simp
qed

lemma heap_end_facts:
  assumes "geometry p" "ends p xs"
  shows "heap_end p xs mod blksz p = 0" "heap_end p xs = ADDRESS p (widths xs + 1)" "widths xs + 1 \<le> info_size p"
    "heap_end p xs < u32_lim"
proof -
  note g = geometryD[OF assms(1)]
  show "heap_end p xs mod blksz p = 0" using g(4) by (simp add: heap_end_def mod_add_eq[symmetric])
  have le: "heap_end p xs \<le> pool_top p" using assms(2) by (simp add: ends_def)
  then have "blksz p * widths xs \<le> pool_top p - base p" using g(6) by (simp add: heap_end_def)
  then have "widths xs \<le> (pool_top p - base p) div blksz p" using g(13) by (simp add: less_eq_div_iff_mult_less_eq mult.commute)
  then show w: "widths xs + 1 \<le> info_size p" using g(10) by simp
  show "heap_end p xs = ADDRESS p (widths xs + 1)"
    using block_addr(1)[OF assms(1) w] by (simp add: heap_end_def mult.commute)
  show "heap_end p xs < u32_lim" using le g(7) by simp
qed

text \<open>The number of the block after an area that starts at the end of the used part.\<close>

lemma block_after:
  assumes "geometry p" "e = base p + blksz p * w" "e + n * blksz p < u32_lim"
  shows "BLOCK p (u32_add e (n * blksz p)) = w + n + 1"
proof -
  note g = geometryD[OF assms(1)]
  have "e + n * blksz p = base p + (w + n) * blksz p" using assms(2) by (simp add: algebra_simps)
  then show ?thesis using assms(3) g(13) by (simp add: BLOCK_def u32_simps)
qed

lemma block_limit:
  assumes "geometry p" "e = base p + blksz p * w"
  shows "e + n * blksz p \<le> pool_top p \<longleftrightarrow> w + n + 1 \<le> info_size p"
proof -
  note g = geometryD[OF assms(1)]
  have "e + n * blksz p \<le> pool_top p \<longleftrightarrow> (w + n) * blksz p \<le> pool_top p - base p"
    using g(6) assms(2) by (auto simp: algebra_simps)
  also have "\<dots> \<longleftrightarrow> w + n \<le> (pool_top p - base p) div blksz p" using g(13) by (simp add: less_eq_div_iff_mult_less_eq)
  finally show ?thesis using g(10) by simp
qed

text \<open>The unaligned start before the first allocation.\<close>

lemma gap_mod:
  fixes s :: nat
  assumes "(t + g) mod s = 0" "0 < g" "g < s"
  shows "t mod s = s - g"
proof -
  have "(t mod s + g) mod s = 0" using assms(1) by (simp add: mod_add_left_eq)
  then obtain q where q: "t mod s + g = s * q" by (auto elim: dvdE simp: mod_eq_0_iff_dvd)
  moreover have "t mod s < s" using assms by simp
  ultimately have "s * q < s * 2" "0 < s * q" using assms by linarith+
  then have "q = 1" using assms by simp
  then show ?thesis using q by simp
qed

lemma unaligned_gap:
  assumes "geometry p" "ends p xs" "ptr p < heap_end p xs"
  shows "ptr p mod blksz p \<noteq> 0" "blksz p - ptr p mod blksz p = heap_end p xs - ptr p"
proof -
  have gap: "heap_end p xs - ptr p < blksz p" "ptr p + (heap_end p xs - ptr p) = heap_end p xs"
    using assms(2,3) by (auto simp: ends_def)
  then have "ptr p mod blksz p = blksz p - (heap_end p xs - ptr p)"
    using heap_end_facts(1)[OF assms(1,2)] assms(3) by (intro gap_mod) simp_all
  then show "ptr p mod blksz p \<noteq> 0" "blksz p - ptr p mod blksz p = heap_end p xs - ptr p"
    using gap(1) assms(3) by simp_all
qed

text \<open>The table would have to grow only for memory that is not there; then everything is undone.\<close>

lemma grow_table_fails:
  assumes geo: "geometry p" and n: "ptr p = t + n" "t < pool_top p" "ptr p < pool_top p" "0 < n"
    and block: "info_size p < block" "block \<le> info_size p + 1" and near: "pool_top p \<le> ptr p + blksz p"
  shows "grow_table n block r p = Some (p\<lparr>ptr := t\<rparr>, False)"
proof -
  note g = geometryD[OF geo]
  have N: "0 < info_size p" "2 * info_size p < u32_lim" using g(10,14) by (simp_all add: u32_lim_def)
  have "grow_size block (info_size p) = Some (2 * info_size p)"
    using block N by (subst grow_size.simps, subst grow_size.simps) (simp add: u32_mul_def)
  moreover have "u32_mul (2 * info_size p) 16 = 32 * info_size p" using g(14) by (simp add: u32_mul_def u32_lim_def)
  moreover have "heap_align (32 * info_size p) p = (p, 0)"
  proof -
    have "u32_add (ptr p) (32 * info_size p) = ptr p + 32 * info_size p" using g(16) n(3) by (simp add: u32_simps)
    then show ?thesis using near g(11) by (simp add: heap_align_def heap_sbrk_def)
  qed
  moreover have "u32_add (ptr p) (u32_sub 0 n) = t"
  proof -
    have "ptr p < u32_lim" using n(3) g(7) by linarith
    then show ?thesis using n by (simp add: u32_add_diff_small)
  qed
  ultimately show ?thesis using n(2) by (simp add: grow_table_def heap_sbrk_def)
qed

lemma morecore_ok:
  assumes geo: "geometry p" and ends: "ends p xs" and n: "0 < n" "request_fits p n"
  shows "(morecore (n * blksz p) p = Some (p, 0) \<and> pool_top p \<le> heap_end p xs + n * blksz p) \<or>
    (\<exists>t. morecore (n * blksz p) p = Some (p\<lparr>ptr := t, info_limit := widths xs + n + 1\<rparr>, heap_end p xs) \<and>
       widths xs + n + 1 \<le> info_size p \<and> base p \<le> t \<and> t \<le> heap_end p xs + n * blksz p \<and>
       heap_end p xs + n * blksz p < t + blksz p \<and> heap_end p xs + n * blksz p \<le> pool_top p \<and> t < pool_top p \<and>
       (t = heap_end p xs + n * blksz p \<or> heap_end p xs + n * blksz p = pool_top p))"
proof -
  note g = geometryD[OF geo] and E = heap_end_facts[OF geo ends]
  let ?e = "heap_end p xs" and ?s = "n * blksz p"
  have e: "?e = base p + blksz p * widths xs" by (simp add: heap_end_def)
  have en: "base p \<le> ptr p" "ptr p \<le> ?e" "?e < ptr p + blksz p" "?e \<le> pool_top p" "ptr p < pool_top p"
    "ptr p = ?e \<or> length xs = 1 \<or> ?e = pool_top p" using ends by (simp_all add: ends_def)
  have s: "blksz p \<le> ?s" using n(1) by simp
  have fits: "?e + ?s + blksz p \<le> u32_lim" using n(2) en(4) by (simp add: request_fits_def)
  have add: "u32_add (ptr p) ?s = ptr p + ?s" "?s \<noteq> 4294967295" "ptr p \<noteq> 0"
    using fits en(1,2) g(5,13) by (simp_all add: u32_simps u32_lim_def)
  note block = block_after[OF geo e, of n] and limit = block_limit[OF geo e, of n]
  show ?thesis
  proof (cases "ptr p + ?s < pool_top p")
    case False
    then have "heap_align ?s p = (p, 0)" using add by (simp add: heap_align_def heap_sbrk_def)
    then show ?thesis using False en(2) by (simp add: morecore_def)
  next
    case room: True
    then have "?e \<noteq> pool_top p" using s en(3) by linarith
    show ?thesis
    proof (cases "ptr p = ?e")
      case True
      have "heap_align ?s p = (p\<lparr>ptr := ?e + ?s\<rparr>, ?e)"
        using room add True E(1) by (simp add: heap_align_def heap_sbrk_def Let_def)
      moreover have small: "widths xs + n + 1 \<le> info_size p" using room True limit by simp
      ultimately have "morecore ?s p = Some (p\<lparr>ptr := ?e + ?s, info_limit := widths xs + n + 1\<rparr>, ?e)"
        using fits add(3) True g(13) block by (simp add: morecore_def Let_def BLOCK_def)
      then show ?thesis using small room True en g(13) by (intro disjI2 exI[of _ "?e + ?s"]) simp
    next
      case False
      then have lt: "ptr p < ?e" using en(2) by simp
      note gap = unaligned_gap[OF geo ends lt]
      let ?t = "if ?e + ?s < pool_top p then ?e + ?s else ptr p + ?s"
      have sum: "u32_add (ptr p + ?s) (?e - ptr p) = ?e + ?s" "u32_add (ptr p) (?e - ptr p) = ?e"
        using fits lt g(13) u32_add_small[of "ptr p + ?s" "?e - ptr p"] u32_add_small[of "ptr p" "?e - ptr p"] by simp_all
      have align: "heap_align ?s p = (p\<lparr>ptr := ?t\<rparr>, ?e)"
        using room add gap lt sum by (simp add: heap_align_def heap_sbrk_def Let_def)
      have b: "BLOCK (p\<lparr>ptr := ?t\<rparr>) (u32_add ?e ?s) = widths xs + n + 1" using block fits g(13) by (simp add: BLOCK_def)
      show ?thesis
      proof (cases "widths xs + n + 1 \<le> info_size p")
        case True
        then have "morecore ?s p = Some (p\<lparr>ptr := ?t, info_limit := widths xs + n + 1\<rparr>, ?e)"
          using align b lt by (simp add: morecore_def Let_def)
        moreover have "?e + ?s \<le> pool_top p" using limit True by simp
        ultimately show ?thesis using True lt room en s by (intro disjI2 exI[of _ ?t]) auto
      next
        case big: False
        then have over: "pool_top p < ?e + ?s" using limit by simp
        then have t: "?t = ptr p + ?s" by simp
        have "(n - 1) * blksz p + blksz p = ?s" using n(1) by (metis add.commute mult_eq_if not_gr0)
        then have "?e + (n - 1) * blksz p \<le> pool_top p" using room en(3) by linarith
        then have "widths xs + n + 1 \<le> info_size p + 1" using block_limit[OF geo e, of "n - 1"] n(1) by simp
        then have "grow_table ?s (widths xs + n + 1) ?e (p\<lparr>ptr := ptr p + ?s\<rparr>) = Some (p\<lparr>ptr := ptr p + ?s\<rparr>\<lparr>ptr := ptr p\<rparr>, False)"
          using grow_table_fails[of "p\<lparr>ptr := ptr p + ?s\<rparr>" "ptr p" ?s "widths xs + n + 1" ?e] geo en(5) room big over en(3) s g(13)
          by simp
        then have "morecore ?s p = Some (p, 0)"
          using align b lt big t by (simp add: morecore_def Let_def)
        then show ?thesis using over by simp
      qed
    qed
  qed
qed

section \<open>Objects from a cluster and at the end\<close>

lemma widths_le_end: "blocks_inv p xs \<Longrightarrow> n \<le> widths xs \<Longrightarrow> u32_mul n (blksz p) = n * blksz p"
proof -
  assume inv: "blocks_inv p xs" and n: "n \<le> widths xs"
  then have "n * blksz p \<le> blksz p * widths xs" by (simp add: mult.commute)
  also have "\<dots> \<le> heap_end p xs" by (simp add: heap_end_def)
  also have "\<dots> < u32_lim" using inv heap_end_facts(4) by (simp add: blocks_inv_def)
  finally show "u32_mul n (blksz p) = n * blksz p" by (simp add: u32_mul_def)
qed

lemma blocks_invD:
  assumes "blocks_inv p xs"
  shows "geometry p" "table_inv (info_size p) (tbl p) xs" "info_index p \<in> set (0 # clusters 1 xs)" "ends p xs" "no_adjacent xs"
  using assms by (simp_all add: blocks_inv_def)

lemma take_ok:
  assumes inv: "blocks_inv p (us @ Free m # vs)" and us: "us \<noteq> []" and n: "0 < n" "n \<le> m"
  shows "\<exists>q. take_blocks (info p) (1 + widths us) n p = q \<and> blocks_inv q (us @ Big n # remainder n m @ vs) \<and> table_only p q \<and>
    slack q (us @ Big n # remainder n m @ vs) = slack p (us @ Free m # vs) \<and> ptr q = ptr p \<and> info_limit q = info_limit p \<and>
    (n < m \<longrightarrow> info_index q = 1 + widths us + n)"
proof -
  note I = blocks_invD[OF inv]
  note g = geometryD[OF I(1)]
  have bytes: "u32_mul n (blksz p) = n * blksz p" using widths_le_end[OF inv, of n] n by simp
  have "no_adjacent (us @ Big n # remainder n m @ vs)"
    using I(5) by (auto simp: remainder_def no_adjacent_append no_adjacent_Cons)
  moreover have w: "widths (us @ Big n # remainder n m @ vs) = widths (us @ Free m # vs)"
    using widths_remainder[OF n(2)] by simp
  moreover obtain q where q: "take_blocks (info p) (1 + widths us) n p = q"
    "table_inv (info_size p) (tbl q) (us @ Big n # remainder n m @ vs)" "table_only p q" "ptr q = ptr p" "info_limit q = info_limit p"
    "info_index q \<in> set (0 # clusters 1 (us @ Big n # remainder n m @ vs))" "n < m \<longrightarrow> info_index q = 1 + widths us + n"
    "chunks_used q = chunks_used p + 1" "bytes_used q = bytes_used p + of_nat (n * blksz p)"
    "chunks_free q = chunks_free p - (if n = m then 1 else 0)" "bytes_free q = bytes_free p - of_nat (n * blksz p)"
  proof (cases "n = m")
    case True
    obtain q where q: "take_blocks (info p) (1 + widths us) n p = q" "table_inv (info_size p) (tbl q) (us @ Big n # vs)" "table_only p q"
      "ptr q = ptr p" "info_limit q = info_limit p" "info_index q = after (clusters (1 + widths us + n) vs)"
      "chunks_used q = chunks_used p + 1" "bytes_used q = bytes_used p + of_nat (n * blksz p)"
      "chunks_free q = chunks_free p - 1" "bytes_free q = bytes_free p - of_nat (n * blksz p)"
      using take_exact[OF I(2)[folded True] g(12,14) refl refl] unfolding bytes by blast
    have "info_index q \<in> set (0 # clusters 1 (us @ Big n # vs))"
      using after_in[of "clusters (1 + widths us + n) vs"] q(6) by (auto simp: add.assoc)
    then show ?thesis using q True by (intro that[of q]) (simp_all add: remainder_def)
  next
    case False
    then have nm: "n < m" using n(2) by simp
    obtain q where q: "take_blocks (info p) (1 + widths us) n p = q" "table_inv (info_size p) (tbl q) (us @ Big n # Free (m - n) # vs)"
      "table_only p q" "ptr q = ptr p" "info_limit q = info_limit p" "info_index q = 1 + widths us + n"
      "chunks_used q = chunks_used p + 1" "bytes_used q = bytes_used p + of_nat (n * blksz p)"
      "chunks_free q = chunks_free p" "bytes_free q = bytes_free p - of_nat (n * blksz p)"
      using take_part[OF I(2) g(12,14) refl refl n(1) nm] unfolding bytes by blast
    then show ?thesis using nm by (intro that[of q]) (simp_all add: remainder_def add.assoc)
  qed
  moreover have "ends q (us @ Big n # remainder n m @ vs)"
    by (rule ends_same[OF q(3-5) w _ I(4)]) (use us in \<open>cases us; simp\<close>)
  moreover have "slack q (us @ Big n # remainder n m @ vs) = slack p (us @ Free m # vs)"
    using n table_onlyD(6)[OF q(3)] g(2)
    by (cases "n = m") (simp_all add: slack_def q(8-11) remainder_def of_nat_diff algebra_simps)
  ultimately show ?thesis using geometry_only[OF q(3)] I(1) table_onlyD(5)[OF q(3)] by (auto simp: blocks_inv_def)
qed

lemma new_object_ok:
  assumes inv: "blocks_inv p xs" and n: "0 < n" "request_fits p n" and one: "xs \<noteq> []"
  shows "(new_object n p = Some (p, 0) \<and> pool_top p \<le> heap_end p xs + n * blksz p) \<or>
    (\<exists>q. new_object n p = Some (q, ADDRESS p (1 + widths xs)) \<and> blocks_inv q (xs @ [Big n]) \<and> table_only p q \<and>
       slack q (xs @ [Big n]) = slack p xs \<and> 1 + widths xs < info_size p \<and> info_limit q \<noteq> 0)"
proof -
  note I = blocks_invD[OF inv]
  note g = geometryD[OF I(1)] and E = heap_end_facts[OF I(1,4)] and D = table_invD[OF I(2)]
  have bytes: "u32_mul n (blksz p) = n * blksz p" using n(2) g(7,13) by (simp add: request_fits_def u32_mul_def)
  let ?B = "1 + widths xs" and ?e = "heap_end p xs"
  consider (none) "morecore (n * blksz p) p = Some (p, 0)" "pool_top p \<le> ?e + n * blksz p"
    | (some) t where "morecore (n * blksz p) p = Some (p\<lparr>ptr := t, info_limit := widths xs + n + 1\<rparr>, ?e)"
      "widths xs + n + 1 \<le> info_size p" "base p \<le> t" "t \<le> ?e + n * blksz p" "?e + n * blksz p < t + blksz p"
      "?e + n * blksz p \<le> pool_top p" "t < pool_top p" "t = ?e + n * blksz p \<or> ?e + n * blksz p = pool_top p"
    using morecore_ok[OF I(1,4) n] by blast
  then show ?thesis
  proof cases
    case none
    then show ?thesis by (simp add: new_object_def bytes)
  next
    case some
    let ?p = "p\<lparr>ptr := t, info_limit := widths xs + n + 1\<rparr>"
    define q0 where "q0 = mark_object (info p) ?B n ?p"
    define q where "q = q0\<lparr>chunks_used := chunks_used p + 1, bytes_used := bytes_used p + of_nat (n * blksz p)\<rparr>"
    have block: "u32_sub ?e (base p) div blksz p + 1 = ?B"
      using block_addr(2)[OF I(1), of ?B] E(2,3) unfolding BLOCK_def by (simp add: add.commute)
    have "?e \<noteq> 0" using g(5) by (simp add: heap_end_def)
    then have new: "new_object n p = Some (q, ?e)"
      unfolding new_object_def bytes some(1) by (simp add: BLOCK_def block bytes q_def q0_def)
    have lt: "n < u32_lim" "table_fits ?p" "info_size ?p = info_size p" "?B + n \<le> info_size p" using some(2) g(12,14) by (simp_all add: u32_lim_def)
    have T: "tbl q c j = (if ?B \<le> c \<and> c < ?B + n \<and> j < 3 then object_word ?B n c j else tbl p c j)" for c j
      unfolding q_def q0_def using lt n(1) by (simp add: tbl_mark_object(1))
    have only: "table_only p q" unfolding q_def q0_def using lt n(1) by (simp add: tbl_mark_object(2))
    have "table_inv (info_size p) (tbl q) (xs @ [Big n])"
    proof (rule table_inv_end[where ss = "[]" and T = "tbl p" and B = ?B])
      show "tab (tbl q) ?B [Big n]" using seg_tab_object[of n ?B "tbl q"] n(1) lt(4) g(14) T by auto
      have "dpath (tbl q) 0 (clusters 1 xs) 0"
      proof (rule dpath_frame[OF D(2)])
        have "tbl q c j = tbl p c j" if "c \<in> set (0 # clusters 1 xs)" for c j
          using that clusters_range[OF D(1), of c] by (auto simp: T)
        then show "tbl q c 2 = tbl p c 2" "tbl q c 3 = tbl p c 3" if "c \<in> set (0 # clusters 1 xs)" for c using that by blast+
      qed
      then show "dpath (tbl q) 0 (clusters 1 (xs @ [Big n])) 0" by simp
      show "tbl q c 0 = 0" if "widths xs + widths [Big n] < c" "c < info_size p" for c
        using that D(5)[of c] by (simp add: T)
    qed (use I(2) some(2) in \<open>auto simp: T\<close>)
    moreover have "ends q (xs @ [Big n])"
      using some one heap_end_only[OF only] by (auto simp: ends_def q_def q0_def heap_end_def algebra_simps)
    moreover have "no_adjacent (xs @ [Big n])" using I(5) by (simp add: no_adjacent_append)
    moreover have "info_index q \<in> set (0 # clusters 1 (xs @ [Big n]))" using I(3) by (simp add: q_def q0_def)
    moreover have "slack q (xs @ [Big n]) = slack p xs"
      using g(2) by (simp add: slack_def q_def q0_def algebra_simps)
    ultimately show ?thesis using new only geometry_only[OF only] I(1) table_onlyD(5)[OF only] E(2) some(2) n(1)
      by (simp add: blocks_inv_def add.commute) (simp add: q_def q0_def)
  qed
qed

section \<open>The circular search\<close>

text \<open>What happens when the search has come round without success.\<close>

definition find_end :: "nat \<Rightarrow> nat \<Rightarrow> nat \<Rightarrow> pool \<Rightarrow> (pool \<times> nat) option" where
  "find_end blocks start i p =
    (let last = entry i 0 free_prev p; lastblocks = entry i last free_size p;
         missing = u32_mul (u32_sub blocks lastblocks) (blksz p)
     in
     if info_limit p \<noteq> 0 \<and> u32_add last lastblocks = info_limit p \<and>
        snd (heap_sbrk 0 p) = ADDRESS p (u32_add last lastblocks)
     then Option.bind (morecore missing p) (\<lambda>(p, r).
       if r \<noteq> 0 then
         (let i = info p; last = entry i 0 free_prev p;
              p = set_entry i last free_size (u32_add (entry i last free_size p) (u32_sub blocks lastblocks)) p;
              p = p\<lparr>bytes_free := bytes_free p + of_nat missing\<rparr>
          in find_blocks blocks start i last p)
       else new_object blocks p)
     else new_object blocks p)"

lemma find_step:
  "find_blocks n start i c p =
    (if entry i c free_size p < n then
       (if entry i c free_next p = start then find_end n start i p else find_blocks n start i (entry i c free_next p) p)
     else Some (take_blocks i c n p, ADDRESS p c))"
  by (subst find_blocks.simps) (simp add: find_end_def Let_def)

lemma find_path:
  assumes "i = info p" "\<And>b. b \<in> set (c # rs) \<Longrightarrow> b < info_size p" "dpre (tbl p) c rs" "tbl p (last (c # rs)) 2 = start" "start \<notin> set rs"
  shows "find_blocks n start i c p = (case filter (\<lambda>b. n \<le> tbl p b 1) (c # rs) of
    [] \<Rightarrow> find_end n start i p | b # _ \<Rightarrow> Some (take_blocks i b n p, ADDRESS p b))"
  using assms(2-5)
proof (induction rs arbitrary: c)
  case Nil
  then show ?case using assms(1) by (subst find_step) (simp add: entry_at)
next
  case (Cons r rs)
  have e: "entry i c 1 p = tbl p c 1" "entry i c 2 p = r" using Cons.prems assms(1) by (simp_all add: entry_at)
  have IH: "find_blocks n start i r p = (case filter (\<lambda>b. n \<le> tbl p b 1) (r # rs) of
    [] \<Rightarrow> find_end n start i p | b # _ \<Rightarrow> Some (take_blocks i b n p, ADDRESS p b))"
    by (rule Cons.IH) (use Cons.prems in auto)
  have "r \<noteq> start" using Cons.prems(4) by auto
  then show ?case unfolding find_step[of n start i c p] e IH by simp
qed

lemma circle:
  assumes path: "dpath T 0 cs 0" and dist: "distinct (0 # cs)" and st: "st \<in> set (0 # cs)"
  obtains rs where "dpre T st rs" "T (last (st # rs)) 2 = st" "st \<notin> set rs" "set (st # rs) = set (0 # cs)"
proof (cases "st = 0")
  case True
  then show ?thesis using that[of cs] path dist by (simp add: dpath_def)
next
  case False
  then obtain us vs where cs: "cs = us @ st # vs" using st by (auto dest: split_list)
  have p: "dpre T 0 us" "T (before us) 2 = st" "dpath T st vs 0" using path cs by (simp_all add: dpath_append)
  have "dpre T st (vs @ 0 # us)" using p(1,3) by (simp add: dpre_append dpath_def)
  moreover have "T (last (st # vs @ 0 # us)) 2 = st" using p(2) by simp
  moreover have "st \<notin> set (vs @ 0 # us)" using dist cs False by auto
  ultimately show ?thesis using that[of "vs @ 0 # us"] cs by auto
qed

text \<open>What the allocation of \<open>n\<close> blocks after the segments \<open>us\<close> does to a layout.\<close>

definition alloc_at :: "nat \<Rightarrow> seg list \<Rightarrow> seg list \<Rightarrow> seg list \<Rightarrow> bool" where
  "alloc_at n us xs ys \<longleftrightarrow>
    (\<exists>m vs. xs = us @ Free m # vs \<and> n \<le> m \<and> ys = us @ Big n # remainder n m @ vs) \<or>
    (\<exists>m. xs = us @ [Free m] \<and> m < n \<and> ys = us @ [Big n]) \<or> (xs = us \<and> ys = us @ [Big n])"

lemma free_size_cluster:
  assumes "table_inv N T xs" "b \<in> set (0 # clusters 1 xs)" "0 < n" "n \<le> T b 1"
  obtains us m vs where "xs = us @ Free m # vs" "b = 1 + widths us" "n \<le> m"
proof -
  have "b \<noteq> 0" using assms(3,4) table_invD(3)[OF assms(1)] by (cases "b = 0") simp_all
  then have "b \<in> set (clusters 1 xs)" using assms(2) by simp
  from clusters_split[OF this] obtain us m vs where x: "xs = us @ Free m # vs" "b = 1 + widths us" by blast
  then have "T b 1 = m" using table_invD(1)[OF assms(1)] by simp
  then show ?thesis using that x assms(4) by blast
qed

lemma last_cluster_end:
  assumes inv: "table_inv N T xs" and last: "b = T 0 3" "b + T b 1 = widths xs + 1"
  obtains us m where "xs = us @ [Free m]" "b = 1 + widths us" "T b 1 = m"
proof -
  note D = table_invD[OF inv]
  have l: "b = before (clusters 1 xs)" using D(2) last(1) by (simp add: dpath_def)
  have "b \<noteq> 0" using D(3) last(2) by (cases "b = 0") simp_all
  then have "b \<in> set (clusters 1 xs)" using l before_in[of "clusters 1 xs"] by auto
  then obtain us m vs where x: "xs = us @ Free m # vs" "b = 1 + widths us" using clusters_split by blast
  then have m: "T b 1 = m" "tab T (1 + widths us + m) vs" using D(1) by (simp_all add: add.assoc)
  then have "widths vs = 0" using last(2) x by simp
  then have "vs = []" using m(2) by (cases vs) (auto dest!: seg_tab_width)
  then show ?thesis using that x m(1) by simp
qed

lemma find_end_ok:
  assumes inv: "blocks_inv p xs" and n: "0 < n" "request_fits p n" and none: "\<And>m. Free m \<in> set xs \<Longrightarrow> m < n"
    and first: "xs \<noteq> []" "\<not> is_free (hd xs)" and i: "i = info p"
  shows "(find_end n start i p = Some (p, 0) \<and> pool_top p \<le> heap_end p xs + n * blksz p) \<or>
    (\<exists>q us ys. find_end n start i p = Some (q, ADDRESS p (1 + widths us)) \<and> us \<noteq> [] \<and> alloc_at n us xs ys \<and> blocks_inv q ys \<and>
       table_only p q \<and> slack q ys = slack p xs \<and> 1 + widths us < info_size p)"
proof -
  note I = blocks_invD[OF inv]
  note g = geometryD[OF I(1)] and E = heap_end_facts[OF I(1,4)] and D = table_invD[OF I(2)]
  have new: "(new_object n p = Some (p, 0) \<and> pool_top p \<le> heap_end p xs + n * blksz p) \<or>
    (\<exists>q us ys. new_object n p = Some (q, ADDRESS p (1 + widths us)) \<and> us \<noteq> [] \<and> alloc_at n us xs ys \<and> blocks_inv q ys \<and>
       table_only p q \<and> slack q ys = slack p xs \<and> 1 + widths us < info_size p)"
    using new_object_ok[OF inv n first(1)] first(1) unfolding alloc_at_def by blast
  let ?l = "entry i 0 3 p"
  let ?m = "entry i ?l 1 p"
  let ?cond = "info_limit p \<noteq> 0 \<and> u32_add ?l ?m = info_limit p \<and> snd (heap_sbrk 0 p) = ADDRESS p (u32_add ?l ?m)"
  show ?thesis
  proof (cases ?cond)
    case False
    then have "find_end n start i p = new_object n p" unfolding find_end_def Let_def by (rule if_not_P)
    then show ?thesis using new by simp
  next
    case True
    have N: "0 < info_size p" using g(10) by simp
    have l: "?l = tbl p 0 3" using i N by (simp add: entry_at)
    have "?l \<in> set (0 # clusters 1 xs)" using D(2) l before_in[of "clusters 1 xs"] by (simp add: dpath_def)
    then have l_lt: "?l < info_size p" using clusters_range[OF D(1), of ?l] D(4) N by auto
    have m: "?m = tbl p ?l 1" by (rule entry_at[OF i l_lt]) simp
    have m_le: "tbl p ?l 1 \<le> widths xs"
    proof (cases "?l = 0")
      case False
      then obtain us k vs where "xs = us @ Free k # vs" "?l = 1 + widths us"
        using clusters_split \<open>?l \<in> set (0 # clusters 1 xs)\<close> by (metis set_ConsD)
      then show ?thesis using D(1) by simp
    qed (simp add: D(3))
    then have sum: "u32_add ?l ?m = ?l + ?m" using l_lt D(4) m g(14) by (simp add: u32_simps u32_lim_def)
    have lim: "info_limit p = widths xs + 1" using True I(4) by (simp add: ends_def)
    obtain us k where x: "xs = us @ [Free k]" "?l = 1 + widths us" "?m = k"
      using last_cluster_end[OF I(2) l] True sum lim m by metis
    have k: "k < n" "0 < k" using none[of k] x(1) D(1) by simp_all
    have us: "us \<noteq> []" using first x(1) by auto
    have sub: "u32_sub n k = n - k" using k request_lt[OF I(1) n(2)] by (simp add: u32_simps)
    have fits: "request_fits p (n - k)" using n(2) by (simp add: request_fits_def diff_mult_distrib)
    have bytes: "u32_mul (n - k) (blksz p) = (n - k) * blksz p" using fits g(7,13) by (simp add: request_fits_def u32_mul_def)
    have ptr: "ptr p = heap_end p xs"
    proof -
      have "snd (heap_sbrk 0 p) = ptr p" using I(4) g(7) by (simp add: ends_def heap_sbrk_def u32_simps)
      then show ?thesis using True sum x E(2) by (simp add: add.commute add.left_commute)
    qed
    consider (none) "morecore ((n - k) * blksz p) p = Some (p, 0)"
      | (some) t where "morecore ((n - k) * blksz p) p = Some (p\<lparr>ptr := t, info_limit := widths xs + (n - k) + 1\<rparr>, heap_end p xs)"
        "widths xs + (n - k) + 1 \<le> info_size p" "base p \<le> t" "t \<le> heap_end p xs + (n - k) * blksz p"
        "heap_end p xs + (n - k) * blksz p < t + blksz p" "heap_end p xs + (n - k) * blksz p \<le> pool_top p" "t < pool_top p"
        "t = heap_end p xs + (n - k) * blksz p \<or> heap_end p xs + (n - k) * blksz p = pool_top p"
      using morecore_ok[OF I(1,4) _ fits] k by auto
    then show ?thesis
    proof cases
      case none
      then have "find_end n start i p = new_object n p"
        unfolding find_end_def Let_def if_P[OF True] unfolding x(3) sub bytes by simp
      then show ?thesis using new by simp
    next
      case some
      let ?p1 = "p\<lparr>ptr := t, info_limit := widths xs + (n - k) + 1\<rparr>"
      define p2 where "p2 = (set_entry i ?l 1 n ?p1)\<lparr>bytes_free := bytes_free p + of_nat ((n - k) * blksz p)\<rparr>"
      have "heap_end p xs \<noteq> 0" using g(5) by (simp add: heap_end_def)
      moreover have "entry i 0 3 ?p1 = ?l" "entry i ?l 1 ?p1 = k" using x(3) by (simp_all add: entry_def)
      moreover have "u32_add k (n - k) = n"
        using sub k request_lt[OF I(1) n(2)] by (simp add: u32_simps)
      ultimately have fe: "find_end n start i p = find_blocks n start i ?l p2"
        unfolding find_end_def Let_def if_P[OF True] unfolding x(3) sub bytes some(1) bind.bind_lunit case_prod_conv p2_def by (simp add: i)
      have T: "tbl p2 = upd2 (tbl p) ?l 1 n" "table_only p p2" "info p2 = i" "info_size p2 = info_size p"
        unfolding p2_def using i l_lt g(12) by (simp_all add: table_only_set_entry)
      have "table_inv (info_size p) (tbl p2) (us @ [Free n])"
      proof (rule table_inv_end[where ss = "[Free k]" and T = "tbl p" and B = ?l])
        have "dpath (tbl p2) 0 (clusters 1 (us @ [Free k])) 0"
          by (rule dpath_frame[OF D(2)[unfolded x(1)]]) (simp_all add: T)
        then show "dpath (tbl p2) 0 (clusters 1 (us @ [Free n])) 0" by simp
        have "tbl p (?l + j) 0 = 0" if "j < n" for j
        proof (cases "j < k")
          case True
          then show ?thesis using D(1) x by simp
        next
          case False
          then show ?thesis using D(5)[of "?l + j"] that some(2) x k by simp
        qed
        then show "tab (tbl p2) ?l [Free n]" using n(1) by (simp add: T)
        show "tbl p2 c 0 = 0" if "widths us + widths [Free n] < c" "c < info_size p" for c
          using D(5)[of c] that x k by (simp add: T)
      qed (use I(2) x some(2) k in \<open>auto simp: T\<close>)
      moreover have "heap_end p2 (us @ [Free n]) = heap_end p xs + (n - k) * blksz p"
      proof -
        obtain d where "n = k + d" using k(1) less_imp_add_positive by blast
        then show ?thesis using x(1) unfolding heap_end_only[OF T(2)] by (simp add: heap_end_def algebra_simps)
      qed
      then have "ends p2 (us @ [Free n])"
        using some k x by (auto simp: ends_def p2_def)
      moreover have "no_adjacent (us @ [Free n])" using I(5) x(1) by (auto simp: no_adjacent_append)
      moreover have "info_index p2 \<in> set (0 # clusters 1 (us @ [Free n]))" using I(3) x(1) by (simp add: p2_def)
      ultimately have inv2: "blocks_inv p2 (us @ Free n # [])"
        using geometry_only[OF T(2)] I(1) T(4) by (simp add: blocks_inv_def)
      have "slack p2 (us @ Free n # []) = slack p xs"
        using x(1) k(1) g(2) by (simp add: slack_def p2_def of_nat_diff algebra_simps)
      moreover obtain q where q: "take_blocks i ?l n p2 = q" "blocks_inv q (us @ [Big n])" "table_only p2 q"
        "slack q (us @ [Big n]) = slack p2 (us @ Free n # [])"
        using take_ok[OF inv2 us n(1) order_refl] T(3) x(2) by (auto simp: remainder_def)
      moreover have "entry i ?l 1 p2 = n" using l_lt T by (simp add: entry_at)
      then have "find_end n start i p = Some (q, ADDRESS p2 ?l)" unfolding fe find_step[of n start i ?l p2] using q(1) by simp
      moreover have "ADDRESS p2 ?l = ADDRESS p ?l" using table_onlyD(1,7)[OF T(2)] by (simp add: ADDRESS_def)
      moreover have "alloc_at n us xs (us @ [Big n])" using x(1) k(1) by (auto simp: alloc_at_def)
      ultimately show ?thesis using us table_only_trans[OF T(2) q(3)] x(2) l_lt by auto
    qed
  qed
qed

text \<open>The search finds a cluster that is large enough if there is one, else the pool grows.\<close>

lemma find_blocks_ok:
  assumes inv: "blocks_inv p xs" and n: "0 < n" "request_fits p n" and first: "xs \<noteq> []" "\<not> is_free (hd xs)"
  shows "(find_blocks n (info_index p) (info p) (info_index p) p = Some (p, 0) \<and> pool_top p \<le> heap_end p xs + n * blksz p \<and>
      (\<forall>m. Free m \<in> set xs \<longrightarrow> m < n)) \<or>
    (\<exists>q us ys. find_blocks n (info_index p) (info p) (info_index p) p = Some (q, ADDRESS p (1 + widths us)) \<and> us \<noteq> [] \<and>
       alloc_at n us xs ys \<and> blocks_inv q ys \<and> table_only p q \<and> slack q ys = slack p xs \<and> 1 + widths us < info_size p)"
proof -
  note I = blocks_invD[OF inv]
  note D = table_invD[OF I(2)]
  obtain rs where rs: "dpre (tbl p) (info_index p) rs" "tbl p (last (info_index p # rs)) 2 = info_index p" "info_index p \<notin> set rs"
    "set (info_index p # rs) = set (0 # clusters 1 xs)"
    using circle[OF D(2) table_inv_distinct[OF I(2)] I(3)] by blast
  have lt: "b < info_size p" if "b \<in> set (info_index p # rs)" for b
    using that clusters_range[OF D(1), of b] D(4) unfolding rs(4) by auto
  have find: "find_blocks n (info_index p) (info p) (info_index p) p = (case filter (\<lambda>b. n \<le> tbl p b 1) (info_index p # rs) of
    [] \<Rightarrow> find_end n (info_index p) (info p) p | b # _ \<Rightarrow> Some (take_blocks (info p) b n p, ADDRESS p b))"
    by (rule find_path[OF refl lt rs(1-3)])
  show ?thesis
  proof (cases "filter (\<lambda>b. n \<le> tbl p b 1) (info_index p # rs)")
    case Nil
    have "m < n" if "Free m \<in> set xs" for m
    proof -
      obtain us vs where x: "xs = us @ Free m # vs" using \<open>Free m \<in> set xs\<close> by (meson split_list)
      then have "1 + widths us \<in> set (info_index p # rs)" unfolding rs(4) by simp
      then have "\<not> n \<le> tbl p (1 + widths us) 1" using Nil by (metis filter_empty_conv)
      then show ?thesis using D(1) x by simp
    qed
    then show ?thesis using find_end_ok[OF inv n _ first refl, of "info_index p"] find Nil by auto
  next
    case (Cons b bs)
    then have "b \<in> set (filter (\<lambda>b. n \<le> tbl p b 1) (info_index p # rs))" by simp
    then have "b \<in> set (0 # clusters 1 xs)" "n \<le> tbl p b 1" unfolding rs(4)[symmetric] set_filter by blast+
    then obtain us m vs where x: "xs = us @ Free m # vs" "b = 1 + widths us" "n \<le> m"
      using free_size_cluster[OF I(2) _ n(1)] by blast
    have us: "us \<noteq> []" using first x(1) by auto
    obtain q where "take_blocks (info p) b n p = q" "blocks_inv q (us @ Big n # remainder n m @ vs)" "table_only p q"
      "slack q (us @ Big n # remainder n m @ vs) = slack p xs"
      using take_ok[OF inv[unfolded x(1)] us n(1) x(3)] x by auto
    moreover have "b < info_size p" using D(4) x table_inv_cluster(3,4)[OF I(2)[unfolded x(1)]] by simp
    ultimately show ?thesis using find Cons us x unfolding alloc_at_def by auto
  qed
qed

end
