(* ===== verification/HeapFrags.thy ===== *)
theory HeapFrags
  imports HeapMore
begin

text \<open>
  Fragments: the lists of free fragments in memory, the invariant that ties them to the layout, and
  what an operation on one list leaves alone.
\<close>

section \<open>Lists of fragments\<close>

text \<open>A list hangs on a node whose \<open>next\<close> is its first element; each element points back.\<close>

primrec chain :: "memory \<Rightarrow> nat \<Rightarrow> nat list \<Rightarrow> bool" where
  "chain m h [] = (m h = 0)"
| "chain m h (a # as) = (m h = a \<and> a \<noteq> 0 \<and> m (a + 4) = h \<and> chain m a as)"

text \<open>The words that the nodes of a list consist of.\<close>

definition nodes :: "nat list \<Rightarrow> nat set" where
  "nodes as = set as \<union> (\<lambda>a. a + 4) ` set as"

lemma nodes_simps [simp]: "nodes [] = {}" "nodes (a # as) = {a, a + 4} \<union> nodes as" "nodes (us @ vs) = nodes us \<union> nodes vs"
  by (auto simp: nodes_def)

lemma nodes_in: "a \<in> set as \<Longrightarrow> a \<in> nodes as" "a \<in> set as \<Longrightarrow> a + 4 \<in> nodes as"
  by (auto simp: nodes_def)

lemma chain_frame:
  "chain m h as \<Longrightarrow> m' h = m h \<Longrightarrow> (\<And>a. a \<in> nodes as \<Longrightarrow> m' a = m a) \<Longrightarrow> chain m' h as"
  by (induction as arbitrary: h) auto

lemma chain_nonzero: "chain m h as \<Longrightarrow> a \<in> set as \<Longrightarrow> a \<noteq> 0"
  by (induction as arbitrary: h) auto

text \<open>Nodes that cannot overlap: all elements are multiples of 8, and the head is not part of one.\<close>

definition apart :: "nat \<Rightarrow> nat list \<Rightarrow> bool" where
  "apart h as \<longleftrightarrow> distinct as \<and> h \<notin> nodes as \<and> (\<forall>a\<in>set as. a mod 8 = 0)"

lemma aligned_plus_4: "a mod 8 = 0 \<Longrightarrow> (a + 4) mod 8 = (4 :: nat)"
  by presburger

lemma apart_Cons:
  assumes "apart h (a # as)"
  shows "apart a as \<and> a \<notin> nodes as \<and> a + 4 \<notin> nodes as \<and> h \<noteq> a \<and> h \<noteq> a + 4 \<and> h \<notin> nodes as"
proof -
  have a: "a mod 8 = 0" "a \<notin> set as" "distinct as" "\<And>b. b \<in> set as \<Longrightarrow> b mod 8 = 0" "h \<notin> nodes (a # as)"
    using assms by (simp_all add: apart_def)
  have "a \<noteq> b + 4" "a + 4 \<noteq> b" if "b \<in> set as" for b
    using aligned_plus_4[OF a(1)] aligned_plus_4[OF a(4)[OF that]] a(1) a(4)[OF that] by auto
  then have "a \<notin> nodes as" "a + 4 \<notin> nodes as" using a(2) by (auto simp: nodes_def)
  then show ?thesis using a by (simp add: apart_def)
qed

definition first_or_null :: "nat list \<Rightarrow> nat" where
  "first_or_null vs = (case vs of [] \<Rightarrow> 0 | v # _ \<Rightarrow> v)"

lemma first_or_null_simps [simp]: "first_or_null [] = 0" "first_or_null (v # vs) = v"
  by (simp_all add: first_or_null_def)

lemma chain_first: "chain m h as \<Longrightarrow> m h = first_or_null as"
  by (cases as) simp_all

lemma chain_last: "chain m h (us @ vs) \<Longrightarrow> chain m (last (h # us)) vs"
  by (induction us arbitrary: h) simp_all

text \<open>Unlinking a run of elements, and linking an element in.\<close>

definition link_words :: "nat \<Rightarrow> nat \<Rightarrow> memory \<Rightarrow> memory" where
  "link_words prev x m = (if x \<noteq> 0 then (m(prev := x))(x + 4 := prev) else m(prev := x))"

lemma link_words_other: "a \<noteq> prev \<Longrightarrow> a \<noteq> x + 4 \<Longrightarrow> link_words prev x m a = m a"
  by (simp add: link_words_def)

lemma last_nodes: "last (h # us) \<in> insert h (set us)"
  using last_in_set[of "h # us"] by simp

lemma chain_unlink:
  assumes "chain m h (us @ ws @ vs)" "apart h (us @ ws @ vs)"
  shows "chain (link_words (last (h # us)) (first_or_null vs) m) h (us @ vs)"
  using assms
proof (induction us arbitrary: h)
  case Nil
  show ?case
  proof (cases vs)
    case Nil
    then show ?thesis by (simp add: link_words_def)
  next
    case (Cons v vs')
    have v: "chain m v vs'" "v \<noteq> 0" using chain_last[of m h ws vs] Nil.prems(1) Cons by simp_all
    have "apart h (v # vs')" using Nil.prems(2) Cons by (simp add: apart_def)
    note A = apart_Cons[OF this]
    have "chain (link_words h v m) v vs'"
    proof (rule chain_frame[OF v(1)])
      show "link_words h v m v = m v" using A by (intro link_words_other) auto
      show "link_words h v m a = m a" if "a \<in> nodes vs'" for a using A that by (intro link_words_other) auto
    qed
    moreover have "link_words h v m h = v" "link_words h v m (v + 4) = h" using v A by (simp_all add: link_words_def)
    ultimately show ?thesis unfolding append_Nil Cons first_or_null_simps last_ConsL[OF refl] chain.simps using v(2) by blast
  qed
next
  case (Cons u us)
  have A: "apart u (us @ ws @ vs)" "u \<notin> nodes (us @ ws @ vs)" "u + 4 \<notin> nodes (us @ ws @ vs)" "h \<noteq> u" "h \<noteq> u + 4" "h \<notin> nodes (us @ ws @ vs)"
    using apart_Cons[of h u "us @ ws @ vs"] Cons.prems(2) by simp_all
  let ?m = "link_words (last (u # us)) (first_or_null vs) m"
  have "chain ?m u (us @ vs)" using Cons.IH[OF _ A(1)] Cons.prems(1) by simp
  moreover have ends: "last (u # us) \<in> insert u (nodes us)" "first_or_null vs \<noteq> 0 \<Longrightarrow> first_or_null vs + 4 \<in> nodes vs"
    using last_nodes[of u us] nodes_in(1)[of _ us] by (auto simp: first_or_null_def split: list.splits)
  have "?m h = m h" "?m (u + 4) = m (u + 4)"
  proof -
    have "last (u # us) \<noteq> h" "last (u # us) \<noteq> u + 4" using ends(1) A by auto
    moreover have "first_or_null vs \<noteq> 0 \<Longrightarrow> first_or_null vs + 4 \<noteq> h \<and> first_or_null vs + 4 \<noteq> u + 4" using ends(2) A by auto
    ultimately show "?m h = m h" "?m (u + 4) = m (u + 4)" by (auto simp: link_words_def)
  qed
  ultimately show ?case using Cons.prems(1) by simp
qed

lemma chain_insert:
  assumes "chain m h (us @ vs)" "apart h (us @ x # vs)" "x \<noteq> 0"
  defines "prev \<equiv> last (h # us)" and "y \<equiv> first_or_null vs"
  shows "chain (link_words x y (m(x := y, x + 4 := prev, prev := x))) h (us @ x # vs)"
  using assms(1,2) unfolding prev_def
proof (induction us arbitrary: h)
  case Nil
  let ?m = "link_words x y (m(x := y, x + 4 := h, h := x))"
  have A: "apart x vs" "x \<notin> nodes vs" "x + 4 \<notin> nodes vs" "h \<noteq> x" "h \<noteq> x + 4" "h \<notin> nodes vs"
    using apart_Cons[of h x vs] Nil.prems(2) by simp_all
  have y: "y \<noteq> 0 \<Longrightarrow> y + 4 \<in> nodes vs" by (auto simp: y_def first_or_null_def split: list.splits)
  have words: "?m h = x" "?m x = y" "?m (x + 4) = h" using A y by (auto simp: link_words_def)
  have "chain ?m x vs"
  proof (cases vs)
    case Nil
    then show ?thesis using words by (simp add: y_def)
  next
    case (Cons v vs')
    have v: "chain m v vs'" "v \<noteq> 0" "y = v" using Nil.prems(1) Cons by (simp_all add: y_def)
    have B: "v \<notin> nodes vs'" "v + 4 \<notin> nodes vs'" using apart_Cons[of x v vs'] A(1) Cons by simp_all
    have "chain ?m v vs'"
    proof (rule chain_frame[OF v(1)])
      have "v \<noteq> h" "v \<noteq> x" "v \<noteq> x + 4" using A Cons by auto
      then show "?m v = m v" using v by (simp add: link_words_def)
      fix a assume "a \<in> nodes vs'"
      then have "a \<noteq> h" "a \<noteq> x" "a \<noteq> x + 4" "a \<noteq> v + 4" using A B Cons by auto
      then show "?m a = m a" using v by (simp add: link_words_def)
    qed
    moreover have "?m (v + 4) = x" using v A Cons by (simp add: link_words_def)
    ultimately show ?thesis using words v Cons by simp
  qed
  then show ?case unfolding append_Nil chain.simps last_ConsL[OF refl] using words assms(3) by blast
next
  case (Cons u us)
  have A: "apart u (us @ x # vs)" "u \<notin> nodes (us @ x # vs)" "u + 4 \<notin> nodes (us @ x # vs)" "h \<noteq> u" "h \<noteq> u + 4" "h \<notin> nodes (us @ x # vs)"
    using apart_Cons[of h u "us @ x # vs"] Cons.prems(2) by simp_all
  let ?m = "link_words x y (m(x := y, x + 4 := last (u # us), last (u # us) := x))"
  have "chain m u (us @ vs)" using Cons.prems(1) by simp
  from Cons.IH[OF this A(1)] have "chain ?m u (us @ x # vs)" .
  moreover have "last (u # us) \<in> insert u (nodes us)" "y \<noteq> 0 \<Longrightarrow> y + 4 \<in> nodes vs"
    using last_nodes[of u us] nodes_in(1)[of _ us] by (auto simp: y_def first_or_null_def split: list.splits)
  then have "?m h = m h" "?m (u + 4) = m (u + 4)" using A by (auto simp: link_words_def)
  moreover have "last (h # u # us) = last (u # us)" "m h = u" "u \<noteq> 0" "m (u + 4) = h" using Cons.prems(1) by simp_all
  ultimately show ?case unfolding append_Cons chain.simps by metis
qed

section \<open>Addresses of fragments\<close>

definition frag_addr :: "pool \<Rightarrow> nat \<Rightarrow> nat \<Rightarrow> nat \<Rightarrow> nat" where
  "frag_addr p l b i = base p + (b - 1) * blksz p + i * 2 ^ l"

definition addrs :: "pool \<Rightarrow> nat \<Rightarrow> (nat \<times> nat list) list \<Rightarrow> nat list" where
  "addrs p l os = concat (map (\<lambda>(b, fs). map (frag_addr p l b) fs) os)"

lemma addrs_simps [simp]:
  "addrs p l [] = []" "addrs p l ((b, fs) # os) = map (frag_addr p l b) fs @ addrs p l os"
  "addrs p l (us @ vs) = addrs p l us @ addrs p l vs"
  by (simp_all add: addrs_def)

lemma in_addrs: "a \<in> set (addrs p l os) \<longleftrightarrow> (\<exists>b fs i. (b, fs) \<in> set os \<and> i \<in> set fs \<and> a = frag_addr p l b i)"
  unfolding addrs_def by force

definition in_block :: "pool \<Rightarrow> nat \<Rightarrow> nat \<Rightarrow> bool" where
  "in_block p b a \<longleftrightarrow> base p + (b - 1) * blksz p \<le> a \<and> a < base p + b * blksz p"

lemma in_block_unique: "in_block p b a \<Longrightarrow> in_block p c a \<Longrightarrow> b = c"
proof (rule ccontr)
  assume in_b: "in_block p b a" and in_c: "in_block p c a" and ne: "b \<noteq> c"
  have "False" if "x < y" "in_block p x a" "in_block p y a" for x y
  proof -
    have "x \<le> y - 1" using that(1) by simp
    then have "x * blksz p \<le> (y - 1) * blksz p" by (rule mult_le_mono1)
    then show False using that(2,3) unfolding in_block_def by linarith
  qed
  then show False using in_b in_c ne by (metis nat_neq_iff)
qed

lemma frag_room:
  assumes "geometry p" "3 \<le> l" "l < blklog p" "i < 2 ^ (blklog p - l)"
  shows "i * 2 ^ l + 2 ^ l \<le> blksz p" "8 \<le> (2::nat) ^ l"
proof -
  have "(2::nat) ^ (blklog p - l) * 2 ^ l = 2 ^ blklog p" using assms(3) by (simp add: power_add[symmetric])
  moreover have "(i + 1) * 2 ^ l \<le> 2 ^ (blklog p - l) * 2 ^ l" using assms(4) by (intro mult_le_mono1) simp
  ultimately show "i * 2 ^ l + 2 ^ l \<le> blksz p" using geometryD(2)[OF assms(1)] by (simp add: algebra_simps)
  have "(2::nat) ^ 3 \<le> 2 ^ l" by (rule power_increasing[OF assms(2)]) simp
  then show "8 \<le> (2::nat) ^ l" by simp
qed

lemma frag_in_block:
  assumes "geometry p" "3 \<le> l" "l < blklog p" "i < 2 ^ (blklog p - l)" "0 < b" "k < 2 ^ l"
  shows "in_block p b (frag_addr p l b i + k)"
proof -
  have "i * 2 ^ l + k < blksz p" using frag_room[OF assms(1-4)] assms(6) by simp
  moreover have "b * blksz p = (b - 1) * blksz p + blksz p" using assms(5) by (metis mult_eq_if add.commute not_gr0)
  ultimately show ?thesis by (simp add: in_block_def frag_addr_def)
qed

lemma frag_aligned:
  assumes "geometry p" "3 \<le> l"
  shows "frag_addr p l b i mod 8 = 0"
proof -
  have l: "(8::nat) dvd 2 ^ l" using le_imp_power_dvd[OF assms(2), of "2::nat"] by simp
  have "(2::nat) ^ 5 dvd blksz p" using le_imp_power_dvd[OF geometryD(3)[OF assms(1)], of "2::nat"] geometryD(2)[OF assms(1)] by simp
  then have s: "8 dvd blksz p" using dvd_trans[of 8 32 "blksz p"] by simp
  have "blksz p dvd base p" using geometryD(4)[OF assms(1)] by (simp add: mod_eq_0_iff_dvd)
  then have "8 dvd base p" using s dvd_trans by blast
  then have "8 dvd frag_addr p l b i" unfolding frag_addr_def using l s by (intro dvd_add) auto
  then show ?thesis by (simp add: mod_eq_0_iff_dvd)
qed

lemma frag_addr_inj:
  assumes "frag_addr p l b i = frag_addr p l b j"
  shows "i = j"
  using assms by (simp add: frag_addr_def)

lemma BLOCK_of:
  assumes "geometry p" "in_block p b a" "0 < b" "a < u32_lim"
  shows "BLOCK p a = b"
proof -
  note g = geometryD[OF assms(1)]
  have a: "base p \<le> a" using assms(2) by (simp add: in_block_def)
  have "b * blksz p = (b - 1) * blksz p + blksz p" using assms(3) by (metis mult_eq_if add.commute not_gr0)
  then have "a - base p = (b - 1) * blksz p + (a - base p - (b - 1) * blksz p)" "a - base p - (b - 1) * blksz p < blksz p"
    using assms(2) a by (auto simp: in_block_def)
  then have "(a - base p) div blksz p = b - 1" using g(13) by (metis add.commute add.right_neutral div_less div_mult_self1 less_numeral_extra(3) mult.commute not_less_iff_gr_or_eq zero_less_numeral less_le_trans)
  then show ?thesis using assms(3,4) a by (simp add: BLOCK_def u32_simps)
qed

text \<open>A list of blocks with their free fragments, as the lists of the pool are made of.\<close>

definition frag_list :: "pool \<Rightarrow> nat \<Rightarrow> (nat \<times> nat list) list \<Rightarrow> bool" where
  "frag_list p l os \<longleftrightarrow> distinct (map fst os) \<and>
     (\<forall>(b, fs)\<in>set os. 0 < b \<and> distinct fs \<and> (\<forall>i\<in>set fs. i < 2 ^ (blklog p - l)))"

lemma frag_list_apart:
  assumes geo: "geometry p" and l: "3 \<le> l" "l < blklog p" and os: "frag_list p l os"
  shows "apart (frag p + 8 * l) (addrs p l os)" "a \<in> nodes (addrs p l os) \<Longrightarrow> \<exists>b fs. (b, fs) \<in> set os \<and> in_block p b a"
    "a \<in> nodes (addrs p l os) \<Longrightarrow> base p \<le> a"
proof -
  show block: "\<exists>b fs. (b, fs) \<in> set os \<and> in_block p b a" if "a \<in> nodes (addrs p l os)" for a
  proof -
    note in_nodes = that
    obtain c where "c \<in> set (addrs p l os)" "a = c \<or> a = c + 4" using in_nodes unfolding nodes_def by blast
    then obtain b fs i where b: "(b, fs) \<in> set os" "i \<in> set fs" "a = frag_addr p l b i \<or> a = frag_addr p l b i + 4"
      unfolding in_addrs by blast
    then have i: "i < 2 ^ (blklog p - l)" "0 < b" using os by (auto simp: frag_list_def)
    have "in_block p b (frag_addr p l b i + 0)" "in_block p b (frag_addr p l b i + 4)"
      by (rule frag_in_block[OF geo l i]; use frag_room(2)[OF geo l i(1)] in simp)+
    then show ?thesis using b by auto
  qed
  then show low: "base p \<le> a" if "a \<in> nodes (addrs p l os)" for a using that by (fastforce simp: in_block_def)
  have "distinct (addrs p l os)" using os
  proof (induction os)
    case (Cons o1 os)
    obtain b fs where o1: "o1 = (b, fs)" by (cases o1)
    have rest: "frag_list p l os" "b \<notin> fst ` set os" "distinct fs" "0 < b" "\<forall>i\<in>set fs. i < 2 ^ (blklog p - l)"
      using Cons.prems by (auto simp: frag_list_def o1)
    have "frag_addr p l b i \<notin> set (addrs p l os)" if "i \<in> set fs" for i
    proof
      assume "frag_addr p l b i \<in> set (addrs p l os)"
      then obtain c gs j where c: "(c, gs) \<in> set os" "j \<in> set gs" "frag_addr p l b i = frag_addr p l c j" by (auto simp: in_addrs)
      then have cj: "0 < c" "j < 2 ^ (blklog p - l)" using rest(1) by (auto simp: frag_list_def)
      have "in_block p b (frag_addr p l b i + 0)" "in_block p c (frag_addr p l c j + 0)"
        by (rule frag_in_block[OF geo l]; use rest that cj in simp)+
      then have "b = c" using c(3) in_block_unique by simp
      then show False using c(1) rest(2) by force
    qed
    then show ?case using Cons.IH[OF rest(1)] rest(3) o1 by (auto simp: distinct_map inj_on_def dest: frag_addr_inj)
  qed simp
  moreover have "frag p + 8 * l \<notin> nodes (addrs p l os)"
    using low l(2) geo by (fastforce simp: geometry_def)
  moreover have "\<forall>a\<in>set (addrs p l os). a mod 8 = 0" using frag_aligned[OF geo l(1)] by (auto simp: in_addrs)
  ultimately show "apart (frag p + 8 * l) (addrs p l os)" by (simp add: apart_def)
qed

end
