(* ===== verification/HeapInv.thy ===== *)
theory HeapInv
  imports HeapFrags "HOL-Library.Multiset"
begin

text \<open>
  The invariant of a pool: the layout starts with the table, and for each size the free fragments of the
  layout are those of the list in memory, block by block. The theory shows which changes of the table
  and the memory keep it.
\<close>

declare One_nat_def [simp del]

section \<open>The invariant\<close>

primrec seg_ok :: "pool \<Rightarrow> seg \<Rightarrow> bool" where
  "seg_ok p (Free n) = True"
| "seg_ok p (Big n) = True"
| "seg_ok p (Frags l fs) = (3 \<le> l \<and> l < blklog p \<and> distinct fs \<and> (\<forall>i\<in>set fs. i < 2 ^ (blklog p - l)) \<and>
     length fs < 2 ^ (blklog p - l))"

definition list_ok :: "pool \<Rightarrow> seg list \<Rightarrow> nat \<Rightarrow> bool" where
  "list_ok p xs l \<longleftrightarrow> (\<exists>os. mset os = mset (frag_segs l 1 xs) \<and> chain (mem p) (frag p + 8 * l) (addrs p l os))"

definition table_blocks :: "pool \<Rightarrow> nat" where
  "table_blocks p = (16 * info_size p + blksz p - 1) div blksz p"

definition heap_inv :: "pool \<Rightarrow> seg list \<Rightarrow> bool" where
  "heap_inv p xs \<longleftrightarrow> blocks_inv p xs \<and> pool_top p mod blksz p \<noteq> 0 \<and> (\<exists>ys. xs = Big (table_blocks p) # ys) \<and>
     (\<forall>s\<in>set xs. seg_ok p s) \<and> (\<forall>l. 3 \<le> l \<and> l < blklog p \<longrightarrow> list_ok p xs l)"

lemma heap_invD:
  assumes "heap_inv p xs"
  shows "blocks_inv p xs" "geometry p" "table_inv (info_size p) (tbl p) xs" "ends p xs" "tab (tbl p) 1 xs"
    "pool_top p mod blksz p \<noteq> 0" "s \<in> set xs \<Longrightarrow> seg_ok p s" "3 \<le> l \<Longrightarrow> l < blklog p \<Longrightarrow> list_ok p xs l"
    "xs \<noteq> []" "hd xs = Big (table_blocks p)"
  using assms by (auto simp: heap_inv_def blocks_inv_def table_inv_def)

lemma heap_inv_first:
  assumes "heap_inv p xs"
  obtains ys where "xs = Big (table_blocks p) # ys"
  using assms unfolding heap_inv_def by blast

section \<open>Where segments are\<close>

definition full :: "seg list \<Rightarrow> bool" where
  "full xs \<longleftrightarrow> (\<forall>s\<in>set xs. 0 < width s)"

lemma tab_full: "tab T b xs \<Longrightarrow> full xs"
  by (induction xs arbitrary: b) (auto simp: full_def dest: seg_tab_width)

lemma seg_unique:
  assumes "us @ s # vs = us' @ s' # vs'" "full (us @ s # vs)" "widths us \<le> c" "c < widths us + width s"
    "widths us' \<le> c" "c < widths us' + width s'"
  shows "us = us' \<and> s = s' \<and> vs = vs'"
  using assms
proof (induction us arbitrary: us' c)
  case Nil
  show ?case
  proof (cases us')
    case (Cons u ws)
    then show ?thesis using Nil by simp
  qed (use Nil in simp)
next
  case (Cons u us)
  show ?case
  proof (cases us')
    case Nil
    then show ?thesis using Cons.prems by simp
  next
    case (Cons u' ws)
    then show ?thesis using Cons.IH[of ws "c - width u"] Cons.prems by (auto simp: full_def)
  qed
qed

lemma frag_segs_in:
  "(b, fs) \<in> set (frag_segs l b0 xs) \<longleftrightarrow> fs \<noteq> [] \<and> (\<exists>us vs. xs = us @ Frags l fs # vs \<and> b = b0 + widths us)"
proof (induction xs arbitrary: b0)
  case (Cons s xs)
  have split: "(\<exists>us vs. s # xs = us @ Frags l fs # vs \<and> b = b0 + widths us) \<longleftrightarrow>
    (s = Frags l fs \<and> b = b0) \<or> (\<exists>us vs. xs = us @ Frags l fs # vs \<and> b = b0 + width s + widths us)" (is "?L \<longleftrightarrow> ?A \<or> ?B")
  proof
    assume ?L
    then obtain us vs where u: "s # xs = us @ Frags l fs # vs" "b = b0 + widths us" by blast
    show "?A \<or> ?B"
    proof (cases us)
      case (Cons a ws)
      then show ?thesis using u by auto
    qed (use u in simp)
  next
    assume "?A \<or> ?B"
    then show ?L
    proof
      assume ?A
      then have "s # xs = [] @ Frags l fs # xs \<and> b = b0 + widths []" by simp
      then show ?L by blast
    next
      assume ?B
      then obtain us vs where "xs = us @ Frags l fs # vs" "b = b0 + width s + widths us" by blast
      then have "s # xs = (s # us) @ Frags l fs # vs \<and> b = b0 + widths (s # us)" by simp
      then show ?L by blast
    qed
  qed
  show ?case unfolding split by (cases s) (auto simp: Cons.IH)
qed simp

lemma frag_segs_distinct: "full xs \<Longrightarrow> distinct (map fst (frag_segs l b xs))"
proof (induction xs arbitrary: b)
  case (Cons s xs)
  have full: "full xs" "0 < width s" using Cons.prems by (simp_all add: full_def)
  have "b \<notin> fst ` set (frag_segs l (b + width s) xs)"
    using full(2) by (auto simp: frag_segs_in)
  then show ?case using Cons.IH[OF full(1)] by (cases s) auto
qed simp

text \<open>The lists of a pool consist of blocks of the layout.\<close>

lemma mset_in: "mset os = mset ys \<Longrightarrow> x \<in> set os \<longleftrightarrow> x \<in> set ys"
  by (metis set_mset_mset)

lemma frag_list_of:
  assumes full: "full xs" and ok: "\<And>s. s \<in> set xs \<Longrightarrow> seg_ok p s" and os: "mset os = mset (frag_segs l 1 xs)"
  shows "frag_list p l os"
proof -
  have "mset (map fst os) = mset (map fst (frag_segs l 1 xs))" using os by simp
  then have "distinct (map fst os)" using frag_segs_distinct[OF full] mset_eq_imp_distinct_iff by blast
  moreover have "0 < b \<and> distinct fs \<and> (\<forall>i\<in>set fs. i < 2 ^ (blklog p - l))" if "(b, fs) \<in> set os" for b fs
  proof -
    have "(b, fs) \<in> set (frag_segs l 1 xs)" using that mset_in[OF os] by blast
    then obtain us vs where x: "xs = us @ Frags l fs # vs" "b = 1 + widths us" using frag_segs_in[of b fs l 1 xs] by blast
    have "seg_ok p (Frags l fs)" by (rule ok) (simp add: x(1))
    then show ?thesis using x(2) by simp
  qed
  ultimately show ?thesis unfolding frag_list_def by blast
qed

lemma frag_list_pool: "blklog q = blklog p \<Longrightarrow> frag_list q l os = frag_list p l os"
  by (simp add: frag_list_def)

lemma addrs_place: "same_place p q \<Longrightarrow> addrs q l os = addrs p l os"
proof -
  assume "same_place p q"
  then have "frag_addr q l = frag_addr p l" by (intro ext) (simp add: frag_addr_def same_place_def)
  then show ?thesis by (simp add: addrs_def)
qed

lemma table_blocks_place: "same_place p q \<Longrightarrow> table_blocks q = table_blocks p"
  by (simp add: table_blocks_def same_place_def)

lemma seg_ok_place: "blklog q = blklog p \<Longrightarrow> seg_ok q s = seg_ok p s"
  by (cases s) simp_all

lemma table_blocks_cover:
  assumes "geometry p"
  shows "16 * info_size p \<le> table_blocks p * blksz p"
proof -
  note g = geometryD[OF assms]
  have "16 * info_size p + blksz p - 1 < (table_blocks p + 1) * blksz p"
    unfolding table_blocks_def using g(13) by (metis add.commute dividend_less_times_div less_le_trans mult.commute mult_Suc_right plus_1_eq_Suc zero_less_numeral)
  then show ?thesis using g(13) by (simp add: algebra_simps)
qed

text \<open>Addresses in the blocks after the table.\<close>

lemma in_block_facts:
  assumes geo: "geometry p" and ends: "ends p xs" and b: "table_blocks p < b" "b \<le> widths xs" and a: "in_block p b a"
  shows "\<not> in_table p a" "a < pool_top p" "base p \<le> a" "a < u32_lim" "a < heap_end p xs" "BLOCK p a = b"
proof -
  note g = geometryD[OF geo]
  have "table_blocks p * blksz p \<le> (b - 1) * blksz p" using b(1) by (intro mult_le_mono1) simp
  then have "base p + 16 * info_size p \<le> a" using table_blocks_cover[OF geo] a unfolding in_block_def by linarith
  then show "\<not> in_table p a" "base p \<le> a" using g(1) by (auto simp: in_table_def)
  have "b * blksz p \<le> widths xs * blksz p" using b(2) by simp
  then show below: "a < heap_end p xs" using a unfolding in_block_def heap_end_def mult.commute[of "blksz p" "widths xs"] by linarith
  then show top: "a < pool_top p" using ends by (simp add: ends_def)
  then show lim: "a < u32_lim" using g(7) by simp
  show "BLOCK p a = b" by (rule BLOCK_of[OF geo a _ lim]) (use b in simp)
qed

lemma seg_block:
  assumes "heap_inv p (us @ s # vs)" "us \<noteq> []"
  shows "table_blocks p < 1 + widths us" "widths us + width s \<le> widths (us @ s # vs)" "us = Big (table_blocks p) # tl us"
    "1 + widths us < info_size p" "0 < width s" "1 + widths us + width s \<le> info_size p"
proof -
  show us: "us = Big (table_blocks p) # tl us" using heap_invD(10)[OF assms(1)] assms(2) by (cases us) simp_all
  show "table_blocks p < 1 + widths us" by (subst us) simp
  show "widths us + width s \<le> widths (us @ s # vs)" by simp
  have "tab (tbl p) 1 (us @ s # vs)" "widths (us @ s # vs) < info_size p"
    using heap_invD(3)[OF assms(1)] by (simp_all add: table_inv_def)
  moreover from this(1) have "seg_tab (tbl p) (1 + widths us) s" by simp
  then have "0 < width s" by (rule seg_tab_width)
  ultimately show "0 < width s" "1 + widths us < info_size p" "1 + widths us + width s \<le> info_size p" by simp_all
qed

text \<open>The words that belong to a list: its head and its nodes.\<close>

lemma list_nodes:
  assumes inv: "heap_inv p xs" and l: "3 \<le> l" "l < blklog p" and os: "mset os = mset (frag_segs l 1 xs)"
  shows "apart (frag p + 8 * l) (addrs p l os)" "frag_list p l os"
    "a \<in> nodes (addrs p l os) \<Longrightarrow> \<exists>us fs vs. xs = us @ Frags l fs # vs \<and> fs \<noteq> [] \<and> us \<noteq> [] \<and> in_block p (1 + widths us) a"
proof -
  note I = heap_invD[OF inv]
  show os_ok: "frag_list p l os" by (rule frag_list_of[OF tab_full[OF I(5)] I(7) os])
  note A = frag_list_apart[OF I(2) l os_ok]
  show "apart (frag p + 8 * l) (addrs p l os)" by (rule A(1))
  assume "a \<in> nodes (addrs p l os)"
  then obtain b fs where b: "(b, fs) \<in> set os" "in_block p b a" using A(2) by blast
  then obtain us vs where "xs = us @ Frags l fs # vs" "b = 1 + widths us" "fs \<noteq> []"
    using mset_in[OF os] frag_segs_in[of b fs l 1 xs] by blast
  moreover have "us \<noteq> []" using I(10) calculation(1) by auto
  ultimately show "\<exists>us fs vs. xs = us @ Frags l fs # vs \<and> fs \<noteq> [] \<and> us \<noteq> [] \<and> in_block p (1 + widths us) a" using b by blast
qed

lemma node_outside_table:
  assumes inv: "heap_inv p xs" and l: "3 \<le> l" "l < blklog p" and os: "mset os = mset (frag_segs l 1 xs)"
    and a: "a \<in> nodes (addrs p l os)"
  shows "\<not> in_table p a" "a < u32_lim" "base p \<le> a"
proof -
  note I = heap_invD[OF inv]
  obtain us fs vs where u: "xs = us @ Frags l fs # vs" "us \<noteq> []" "in_block p (1 + widths us) a" using list_nodes(3)[OF inv l os a] by blast
  note S = seg_block[OF inv[unfolded u(1)] u(2)]
  have "1 + widths us \<le> widths xs" using u(1) S(5) by simp
  then show "\<not> in_table p a" "a < u32_lim" "base p \<le> a" using in_block_facts[OF I(2,4) S(1) _ u(3)] by blast+
qed

lemma head_facts:
  assumes "geometry p" "l < blklog p"
  shows "\<not> in_table p (frag p + 8 * l)" "frag_head p l = frag p + 8 * l" "frag p + 8 * l < base p" "u32_add (frag p + 8 * l) 4 = frag p + 8 * l + 4"
    "frag p + 8 * l + 4 < base p" "0 < frag p + 8 * l"
proof -
  have "frag p + 8 * blklog p \<le> base p" "0 < frag p" using assms(1) unfolding geometry_def by blast+
  then show lt: "frag p + 8 * l < base p" "frag p + 8 * l + 4 < base p" "0 < frag p + 8 * l" using assms(2) by simp_all
  note g = geometryD[OF assms(1)]
  show "\<not> in_table p (frag p + 8 * l)" using lt g(1) by (simp add: in_table_def)
  show "frag_head p l = frag p + 8 * l" "u32_add (frag p + 8 * l) 4 = frag p + 8 * l + 4"
    using lt g(6,7) by (simp_all add: frag_head_def u32_simps)
qed

section \<open>Changes of the whole blocks\<close>

lemma heap_inv_table_only:
  assumes inv: "heap_inv p xs" and blocks: "blocks_inv q ys" and only: "table_only p q"
    and first: "hd ys = hd xs" "ys \<noteq> []" and ok: "\<And>s. s \<in> set ys \<Longrightarrow> seg_ok p s"
    and frags: "\<And>l. 3 \<le> l \<Longrightarrow> l < blklog p \<Longrightarrow> frag_segs l 1 ys = frag_segs l 1 xs"
  shows "heap_inv q ys"
proof -
  note I = heap_invD[OF inv] and O = table_onlyD[OF only]
  have place: "same_place p q" using only by (simp add: table_only_def)
  have "list_ok q ys l" if l: "3 \<le> l" "l < blklog p" for l
  proof -
    obtain os where os: "mset os = mset (frag_segs l 1 xs)" "chain (mem p) (frag p + 8 * l) (addrs p l os)"
      using I(8)[OF l] unfolding list_ok_def by blast
    have "chain (mem q) (frag p + 8 * l) (addrs p l os)"
      by (rule chain_frame[OF os(2)]) (use O(9) head_facts(1)[OF I(2) l(2)] node_outside_table(1)[OF inv l os(1)] in blast)+
    then show ?thesis using os(1) frags[OF l] addrs_place[OF place] O(8) by (auto simp: list_ok_def)
  qed
  moreover have "\<exists>zs. ys = Big (table_blocks p) # zs" using first I(10) by (cases ys) simp_all
  ultimately show ?thesis using blocks I(6) ok seg_ok_place[OF O(6)] O(2,6,7) table_blocks_place[OF place]
    by (simp add: heap_inv_def)
qed

section \<open>Changes of one block of fragments\<close>

lemma heap_inv_frag_step:
  assumes inv: "heap_inv p (us @ s # vs)" and us: "us \<noteq> []" and l: "3 \<le> l" "l < blklog p" and B: "B = 1 + widths us"
    and s: "width s = 1" "\<not> is_free s" "\<And>k. k \<noteq> l \<Longrightarrow> frag_segs k B [s] = []"
    and s': "width s' = 1" "\<not> is_free s'" "\<And>k. k \<noteq> l \<Longrightarrow> frag_segs k B [s'] = []" "seg_ok p s'"
    and q: "same_place p q" "ptr q = ptr p" "info_index q = info_index p" "info_limit q = info_limit p"
    and T: "\<And>c j. c \<noteq> B \<Longrightarrow> tbl q c j = tbl p c j" "seg_tab (tbl q) B s'"
    and m: "\<And>a. \<not> in_table p a \<Longrightarrow> a \<noteq> frag p + 8 * l \<Longrightarrow> a \<notin> nodes (addrs p l (frag_segs l 1 (us @ s # vs))) \<Longrightarrow>
      \<not> in_block p B a \<Longrightarrow> mem q a = mem p a"
    and list: "list_ok q (us @ s' # vs) l"
  shows "heap_inv q (us @ s' # vs)"
proof -
  note I = heap_invD[OF inv] and S = seg_block[OF inv us]
  note b = blocks_invD[OF I(1)]
  have Q: "base q = base p" "pool_top q = pool_top p" "info q = info p" "info_size q = info_size p" "blklog q = blklog p"
    "blksz q = blksz p" "frag q = frag p" using q(1) by (simp_all add: same_place_def)
  have full: "full (us @ s # vs)" by (rule tab_full[OF I(5)])
  have cl: "clusters 1 (us @ s' # vs) = clusters 1 (us @ s # vs)" using s s' by (cases s; cases s') auto
  have Bc: "B \<notin> set (0 # clusters 1 (us @ s # vs))"
  proof
    assume "B \<in> set (0 # clusters 1 (us @ s # vs))"
    then have "B \<in> set (clusters 1 (us @ s # vs))" using B by simp
    then obtain us' k vs' where x: "us @ s # vs = us' @ Free k # vs'" "B = 1 + widths us'" using clusters_split by blast
    have "0 < k" using full x(1) by (auto simp: full_def)
    then show False using seg_unique[OF x(1) full, of "widths us"] x(2) B s by auto
  qed
  have tinv: "table_inv (info_size p) (tbl q) (us @ [s'] @ vs)"
  proof (rule table_inv_change[where ss = "[s]" and T = "tbl p" and B = B])
    have "dpath (tbl q) 0 (clusters 1 (us @ s # vs)) 0"
      by (rule dpath_frame[OF table_invD(2)[OF I(3)]]) (use T(1) Bc in metis)+
    then show "dpath (tbl q) 0 (clusters 1 (us @ [s'] @ vs)) 0" using cl by simp
  qed (use I(3) B T s s' in auto)
  have "ends q (us @ s' # vs)" using I(4) Q q s s' by (auto simp: ends_def heap_end_def)
  moreover have "no_adjacent (us @ s' # vs)" using b(5) s s' by (auto simp: no_adjacent_append no_adjacent_Cons)
  ultimately have "blocks_inv q (us @ s' # vs)"
    using geometry_place[OF q(1)] I(2) tinv b(3) cl q(3) Q(4) by (simp add: blocks_inv_def)
  moreover have "list_ok q (us @ s' # vs) k" if k: "3 \<le> k" "k < blklog p" for k
  proof (cases "k = l")
    case False
    obtain os where os: "mset os = mset (frag_segs k 1 (us @ s # vs))" "chain (mem p) (frag p + 8 * k) (addrs p k os)"
      using I(8)[OF k] unfolding list_ok_def by blast
    have same: "mem q a = mem p a" if a: "a \<in> nodes (addrs p k os)" for a
    proof (rule m)
      show "\<not> in_table p a" "a \<noteq> frag p + 8 * l"
        using node_outside_table(1,3)[OF inv k os(1) a] head_facts(3)[OF I(2) l(2)] by auto
      obtain us' fs vs' where x: "us @ s # vs = us' @ Frags k fs # vs'" "fs \<noteq> []" "in_block p (1 + widths us') a"
        using list_nodes(3)[OF inv k os(1) a] by blast
      show "\<not> in_block p B a"
      proof
        assume "in_block p B a"
        then have "B = 1 + widths us'" using x(3) in_block_unique by blast
        then have "s = Frags k fs" using seg_unique[OF x(1) full, of "widths us"] B s by simp
        then show False using s(3)[OF False] x(2) by simp
      qed
      show "a \<notin> nodes (addrs p l (frag_segs l 1 (us @ s # vs)))"
      proof
        assume "a \<in> nodes (addrs p l (frag_segs l 1 (us @ s # vs)))"
        then obtain us2 gs vs2 where y: "us @ s # vs = us2 @ Frags l gs # vs2" "in_block p (1 + widths us2) a"
          using list_nodes(3)[OF inv l refl] by blast
        then have "1 + widths us' = 1 + widths us2" using x(3) in_block_unique by blast
        have "us' @ Frags k fs # vs' = us2 @ Frags l gs # vs2" "full (us' @ Frags k fs # vs')"
          using x(1) y(1) full by (simp_all only:)
        from seg_unique[OF this, of "widths us'"] have "Frags k fs = Frags l gs" using \<open>1 + widths us' = 1 + widths us2\<close> by simp
        then show False using False by simp
      qed
    qed
    have head: "mem q (frag p + 8 * k) = mem p (frag p + 8 * k)"
    proof (rule m)
      have low: "frag p + 8 * k < base p" by (rule head_facts(3)[OF I(2) k(2)])
      show "\<not> in_table p (frag p + 8 * k)" by (rule head_facts(1)[OF I(2) k(2)])
      show "frag p + 8 * k \<noteq> frag p + 8 * l" using False by simp
      show "frag p + 8 * k \<notin> nodes (addrs p l (frag_segs l 1 (us @ s # vs)))" using node_outside_table(3)[OF inv l refl] low by fastforce
      show "\<not> in_block p B (frag p + 8 * k)" using low by (simp add: in_block_def)
    qed
    have "chain (mem q) (frag p + 8 * k) (addrs p k os)" by (rule chain_frame[OF os(2)]) (use head same in blast)+
    moreover have "frag_segs k 1 (us @ s' # vs) = frag_segs k 1 (us @ s # vs)"
      using s(1) s(3)[OF False] s'(1) s'(3)[OF False] B by simp
    ultimately show ?thesis using os(1) addrs_place[OF q(1)] Q(7) by (auto simp: list_ok_def)
  qed (use list in simp)
  moreover have "\<exists>zs. us @ s' # vs = Big (table_blocks p) # zs" using S(3) us by (metis append_Cons)
  moreover have "\<forall>t\<in>set (us @ s' # vs). seg_ok p t" using I(7) s'(4) by auto
  ultimately show ?thesis using I(6) Q seg_ok_place[of q p] table_blocks_place[OF q(1)] by (simp add: heap_inv_def)
qed

end
