(* ===== verification/HeapList.thy ===== *)
theory HeapList
  imports HeapInv
begin

text \<open>
  Operations on the lists of fragments: taking the first fragment, dividing a block, and returning a
  fragment.
\<close>

declare One_nat_def [simp del]

section \<open>Words outside the table\<close>

lemma mem_set_entry:
  assumes "table_fits p" "i = info p" "b < info_size p" "j < 4" "\<not> in_table p a"
  shows "mem (set_entry i b j v p) a = mem p a"
proof -
  have "in_table p (entry_addr i b j)" using assms entry_addr_in_table by simp
  then show ?thesis using assms(5) by (auto simp: set_entry_def)
qed

lemma tbl_put: "\<not> in_table p a \<Longrightarrow> table_fits p \<Longrightarrow> tbl (put a v p) = tbl p"
proof -
  assume a: "\<not> in_table p a" "table_fits p"
  have "a \<noteq> entry_addr (info p) c j" if "c < info_size p" "j < 4" for c j
    using entry_addr_in_table[OF a(2) that] a(1) by blast
  then show ?thesis by (intro ext) (auto simp: tbl_def entry_def)
qed

lemma tbl_mem:
  assumes "table_fits p" "\<And>a. in_table p a \<Longrightarrow> m a = mem p a"
  shows "tbl (p\<lparr>mem := m\<rparr>) = tbl p"
  using entry_addr_in_table[OF assms(1)] assms(2) by (intro ext) (simp add: tbl_def entry_def)

lemma in_table_fields [simp]:
  "in_table (p\<lparr>mem := m\<rparr>) a = in_table p a" "in_table (put b v p) a = in_table p a" "in_table (set_entry i b j v p) a = in_table p a"
  by (simp_all add: in_table_def)

lemma table_fits_mem [simp]: "table_fits (p\<lparr>mem := m\<rparr>) = table_fits p"
  by (simp add: table_fits_def)

lemma frag_index:
  assumes "geometry p" "3 \<le> l" "l < blklog p" "i < 2 ^ (blklog p - l)"
  shows "frag_addr p l b i mod blksz p div 2 ^ l = i"
proof -
  note g = geometryD[OF assms(1)] and R = frag_room[OF assms]
  have "(base p + (b - 1) * blksz p) mod blksz p = 0" using g(4) by (simp add: mod_add_eq[symmetric])
  moreover have "i * 2 ^ l < blksz p" using R by linarith
  ultimately have "frag_addr p l b i mod blksz p = i * 2 ^ l"
    unfolding frag_addr_def by (metis add_0 mod_add_eq mod_less mod_mod_trivial)
  then show ?thesis by simp
qed

text \<open>A fragment of a block of the layout.\<close>

lemma frag_facts:
  assumes inv: "heap_inv p (us @ s # vs)" and us: "us \<noteq> []" and l: "3 \<le> l" "l < blklog p" and i: "i < 2 ^ (blklog p - l)"
    and k: "k < 2 ^ l"
  defines "x \<equiv> frag_addr p l (1 + widths us) i"
  shows "in_block p (1 + widths us) (x + k)" "\<not> in_table p (x + k)" "x + k < u32_lim" "base p \<le> x + k" "BLOCK p (x + k) = 1 + widths us"
    "x + k < pool_top p" "x + k \<noteq> 0" "x + k < heap_end p (us @ s # vs)"
proof -
  note I = heap_invD[OF inv] and S = seg_block[OF inv us]
  show b: "in_block p (1 + widths us) (x + k)" unfolding x_def by (rule frag_in_block[OF I(2) l i _ k]) simp
  have "1 + widths us \<le> widths (us @ s # vs)" using S(5) by simp
  note F = in_block_facts[OF I(2,4) S(1) this b]
  show "\<not> in_table p (x + k)" "x + k < u32_lim" "base p \<le> x + k" "BLOCK p (x + k) = 1 + widths us" "x + k < pool_top p"
    "x + k < heap_end p (us @ s # vs)" using F by blast+
  then show "x + k \<noteq> 0" using geometryD(5)[OF I(2)] by linarith
qed

lemma node_words:
  assumes inv: "heap_inv p xs" and l: "3 \<le> l" "l < blklog p" and os: "mset os = mset (frag_segs l 1 xs)" and x: "x \<in> set (addrs p l os)"
  shows "u32_add x 4 = x + 4" "\<not> in_table p x" "\<not> in_table p (x + 4)" "x \<noteq> 0"
proof -
  have n: "x \<in> nodes (addrs p l os)" "x + 4 \<in> nodes (addrs p l os)" using x by (simp_all add: nodes_in)
  note W = node_outside_table[OF inv l os]
  show "\<not> in_table p x" "\<not> in_table p (x + 4)" using W(1) n by blast+
  show "u32_add x 4 = x + 4" using W(2)[OF n(2)] by (simp add: u32_simps)
  show "x \<noteq> 0" using W(3)[OF n(1)] geometryD(5)[OF heap_invD(2)[OF inv]] by linarith
qed

section \<open>The first fragment of a list\<close>

definition frag_slack :: "pool \<Rightarrow> pool \<Rightarrow> seg \<Rightarrow> seg \<Rightarrow> bool" where
  "frag_slack p q s s' \<longleftrightarrow>
     chunks_used q - chunks_used p = chunk_used (blklog p) s' - chunk_used (blklog p) s \<and>
     bytes_used q - bytes_used p = byte_used (blklog p) s' - byte_used (blklog p) s \<and>
     chunks_free q - chunks_free p = chunk_free (blklog p) s' - chunk_free (blklog p) s \<and>
     bytes_free q - bytes_free p = byte_free (blklog p) s' - byte_free (blklog p) s"

lemma slack_frag:
  assumes "frag_slack p q s s'" "blklog q = blklog p"
  shows "slack q (us @ s' # vs) = slack p (us @ s # vs)"
proof -
  have move: "q' - (U + (s2 + V)) = p' - (U + (s1 + V))" if "q' - p' = s2 - s1" for q' p' U V s1 s2 :: "32 word"
    using that by (metis (no_types, lifting) add_diff_cancel_left add_diff_cancel_right diff_add_cancel diff_diff_add diff_add_eq_diff_diff_swap add.commute add.assoc)
  show ?thesis using assms by (simp add: slack_def frag_slack_def move)
qed

text \<open>What an operation on one list may write, apart from the words \<open>W\<close>.\<close>

definition list_only :: "pool \<Rightarrow> seg list \<Rightarrow> nat \<Rightarrow> nat set \<Rightarrow> pool \<Rightarrow> bool" where
  "list_only p xs l W q \<longleftrightarrow> (\<forall>a. \<not> in_table p a \<longrightarrow> a \<noteq> frag p + 8 * l \<longrightarrow> a \<notin> nodes (addrs p l (frag_segs l 1 xs)) \<longrightarrow>
     a \<notin> W \<longrightarrow> mem q a = mem p a)"

lemma nodes_perm: "mset os = mset ys \<Longrightarrow> nodes (addrs p l os) = nodes (addrs p l ys)"
proof -
  assume "mset os = mset ys"
  then have "set os = set ys" by (metis set_mset_mset)
  then have "set (addrs p l os) = set (addrs p l ys)" by (simp add: addrs_def)
  then show ?thesis by (simp add: nodes_def)
qed

lemma list_first:
  assumes inv: "heap_inv p xs" and l: "3 \<le> l" "l < blklog p" and x: "mem p (frag p + 8 * l) \<noteq> 0"
  obtains us i fs vs os where "xs = us @ Frags l (i # fs) # vs" "us \<noteq> []" "mem p (frag p + 8 * l) = frag_addr p l (1 + widths us) i"
    "mset ((1 + widths us, i # fs) # os) = mset (frag_segs l 1 xs)"
    "chain (mem p) (frag p + 8 * l) (addrs p l ((1 + widths us, i # fs) # os))"
proof -
  note I = heap_invD[OF inv]
  obtain os where os: "mset os = mset (frag_segs l 1 xs)" "chain (mem p) (frag p + 8 * l) (addrs p l os)"
    using I(8)[OF l] unfolding list_ok_def by blast
  have "os \<noteq> []" using os(2) x by auto
  then obtain b gs os' where o: "os = (b, gs) # os'" by (cases os) auto
  then have "(b, gs) \<in> set (frag_segs l 1 xs)" using mset_in[OF os(1), of "(b, gs)"] by simp
  then obtain us vs where u: "xs = us @ Frags l gs # vs" "b = 1 + widths us" "gs \<noteq> []" by (auto simp: frag_segs_in)
  moreover have "us \<noteq> []" using I(10) u(1) by auto
  moreover obtain i fs where "gs = i # fs" using u(3) by (cases gs) auto
  ultimately show ?thesis using that[of us i fs vs os'] os o by auto
qed

lemma pop_frag_ok:
  assumes inv: "heap_inv p xs" and l: "3 \<le> l" "l < blklog p" and x: "next_of p (frag_head p l) = x" "x \<noteq> 0"
  shows "\<exists>us i fs vs q. xs = us @ Frags l (i # fs) # vs \<and> us \<noteq> [] \<and> x = frag_addr p l (1 + widths us) i \<and>
    pop_frag (info p) l x p = q \<and> heap_inv q (us @ Frags l fs # vs) \<and> slack q (us @ Frags l fs # vs) = slack p xs \<and>
    same_place p q \<and> (\<forall>a. \<not> in_table p a \<longrightarrow> a \<noteq> frag p + 8 * l \<longrightarrow> a \<notin> nodes (addrs p l (frag_segs l 1 xs)) \<longrightarrow> mem q a = mem p a) \<and>
    ptr q = ptr p \<and> info_limit q = info_limit p"
proof -
  note I = heap_invD[OF inv]
  note g = geometryD[OF I(2)] and H = head_facts[OF I(2) l(2)]
  let ?h = "frag p + 8 * l"
  have mx: "mem p ?h = x" using x(1) H(2) by (simp add: next_of_def)
  then have "mem p ?h \<noteq> 0" using x(2) by simp
  then obtain us i fs vs os where xs: "xs = us @ Frags l (i # fs) # vs" "us \<noteq> []" "mem p ?h = frag_addr p l (1 + widths us) i"
    and os: "mset ((1 + widths us, i # fs) # os) = mset (frag_segs l 1 xs)"
      "chain (mem p) ?h (addrs p l ((1 + widths us, i # fs) # os))"
    by (rule list_first[OF inv l])
  define B where "B = 1 + widths us"
  define rest where "rest = map (frag_addr p l B) fs @ addrs p l os"
  define nxt where "nxt = first_or_null rest"
  note L = list_nodes[OF inv l os(1)] and S = seg_block[OF inv[unfolded xs(1)] xs(2)]
  have ok: "seg_ok p (Frags l (i # fs))" by (rule I(7)) (simp add: xs(1))
  have as: "addrs p l ((1 + widths us, i # fs) # os) = x # rest" using xs(3) mx by (simp add: rest_def B_def)
  have ch: "chain (mem p) ?h (x # rest)" and ap: "apart ?h (x # rest)" using os(2) L(1) as by simp_all
  have words: "u32_add a 4 = a + 4" "\<not> in_table p a" "\<not> in_table p (a + 4)" if "a \<in> set (x # rest)" for a
    using node_words[OF inv l os(1), of a] that unfolding as by blast+
  have nxt_in: "nxt \<noteq> 0 \<Longrightarrow> nxt \<in> set (x # rest)" by (auto simp: nxt_def first_or_null_def split: list.splits)
  note A = apart_Cons[OF ap]
  have nxt_apart: "nxt \<noteq> 0 \<Longrightarrow> nxt + 4 \<noteq> x \<and> nxt + 4 \<noteq> x + 4 \<and> nxt \<noteq> x \<and> nxt \<noteq> x + 4"
    using A by (auto simp: nxt_def first_or_null_def nodes_def split: list.splits)
  have x4: "mem p x = nxt" "mem p (x + 4) = ?h" using ch chain_first[of "mem p" x rest] by (simp_all add: nxt_def)
  define p1 where "p1 = put ?h nxt p"
  define p2 where "p2 = (if nxt \<noteq> 0 then put (nxt + 4) ?h p1 else p1)"
  define p3 where "p3 = set_entry (info p) B 2 (length fs) p2"
  define p4 where "p4 = set_entry (info p) B 3 (if fs \<noteq> [] then hd fs else UINT_MAX) p3"
  define q where "q = p4\<lparr>chunks_used := chunks_used p4 + 1, bytes_used := bytes_used p4 + of_nat (2 ^ l),
          chunks_free := chunks_free p4 - 1, bytes_free := bytes_free p4 - of_nat (2 ^ l)\<rparr>"
  have place2: "same_place p p2" "info_size p2 = info_size p" "info p2 = info p" "table_fits p2" "blksz p2 = blksz p" "base p2 = base p"
    using g(12) by (simp_all add: p2_def p1_def same_place_def)
  have mem2: "mem p2 = link_words ?h nxt (mem p)" by (simp add: p2_def p1_def link_words_def)
  have tbl2: "tbl p2 = tbl p"
    using H(1) words(3)[OF nxt_in] g(12) by (simp add: p2_def p1_def tbl_put)
  have lt: "B < info_size p" using S(4) by (simp add: B_def)
  have seg: "seg_tab (tbl p) B (Frags l (i # fs))" using I(5) xs(1) by (simp add: B_def)
  have n: "length fs < u32_lim - 1"
  proof -
    have "length (i # fs) < 2 ^ (blklog p - l)" using ok by simp
    also have "(2::nat) ^ (blklog p - l) \<le> 2 ^ blklog p" by (rule power_increasing) simp_all
    also have "\<dots> \<le> 1048576" using g(2,15) by simp
    finally show ?thesis by (simp add: u32_lim_def)
  qed
  have blk: "BLOCK p x = B" "in_block p B x"
    using frag_facts(5)[OF inv[unfolded xs(1)] xs(2) l, of i 0] frag_facts(1)[OF inv[unfolded xs(1)] xs(2) l, of i 0] ok xs(3) mx
    by (simp_all add: B_def)
  have e: "entry (info p) B 2 p2 = length fs + 1" using seg lt place2 by (simp add: entry_at tbl2)
  have dec: "u32_sub (length fs + 1) 1 = length fs" using n by (simp add: u32_simps)
  have e3: "entry (info p) B 2 p3 = length fs" using lt place2 unfolding p3_def by (simp add: entry_at)
  have x_apart: "x \<noteq> ?h" "x + 4 \<noteq> ?h" using A by auto
  have m3: "next_of p3 x = nxt"
  proof -
    have "mem p3 x = mem p2 x" unfolding p3_def using words(2)[of x] place2 lt by (intro mem_set_entry) (simp_all add: in_table_def)
    also have "\<dots> = mem p x" unfolding mem2 using x_apart nxt_apart by (auto simp: link_words_def)
    finally show ?thesis using x4 by (simp add: next_of_def)
  qed
  have first: "fs \<noteq> [] \<Longrightarrow> nxt mod blksz p div 2 ^ l = hd fs"
    using ok frag_index[OF I(2) l, of "hd fs" B] by (cases fs) (simp_all add: nxt_def rest_def)
  have pop: "pop_frag (info p) l x p = q"
  proof -
    have c0: "prev_of p x = ?h" "next_of p x = nxt" using x4 words(1)[of x] by (simp_all add: prev_of_def next_of_def)
    have "next_of p1 x = nxt" "prev_of p1 x = ?h"
      using x4 words(1)[of x] x_apart by (simp_all add: p1_def prev_of_def next_of_def)
    then have c1: "(if next_of p1 x \<noteq> 0 then put (u32_add (next_of p1 x) 4) (prev_of p1 x) p1 else p1) = p2"
      using words(1) nxt_in by (simp add: p2_def)
    have c2: "BLOCK p2 x = B" using blk(1) place2 by (simp add: BLOCK_def)
    have "pop_frag (info p) l x p =
      (let p = (if entry (info p) B 2 p3 \<noteq> 0 then set_entry (info p) B 3 (next_of p3 x mod blksz p3 div 2 ^ l) p3 else set_entry (info p) B 3 UINT_MAX p3)
       in p\<lparr>chunks_used := chunks_used p + 1, bytes_used := bytes_used p + of_nat (2 ^ l),
          chunks_free := chunks_free p - 1, bytes_free := bytes_free p - of_nat (2 ^ l)\<rparr>)"
      unfolding pop_frag_def Let_def c0 p1_def[symmetric] c1 c2 e dec p3_def[symmetric] by (rule refl)
    moreover have "blksz p3 = blksz p" using place2 by (simp add: p3_def)
    ultimately show ?thesis using e3 m3 first by (simp add: q_def p4_def Let_def)
  qed
  have fits3: "table_fits p3" "info p3 = info p" "info_size p3 = info_size p" using place2 by (simp_all add: p3_def)
  have tblq: "tbl q = upd2 (upd2 (tbl p) B 2 (length fs)) B 3 (if fs \<noteq> [] then hd fs else UINT_MAX)"
  proof -
    have "tbl q = tbl p4" by (simp add: q_def)
    also have "\<dots> = upd2 (tbl p3) B 3 (if fs \<noteq> [] then hd fs else UINT_MAX)" unfolding p4_def using fits3 lt by (intro tbl_set_entry) simp_all
    also have "tbl p3 = upd2 (tbl p2) B 2 (length fs)" unfolding p3_def using place2 lt by (intro tbl_set_entry) simp_all
    finally show ?thesis by (simp only: tbl2)
  qed
  have placeq: "same_place p q" using place2(1) by (simp add: q_def p4_def p3_def same_place_def)
  have memq: "mem q a = link_words ?h nxt (mem p) a" if "\<not> in_table p a" for a
  proof -
    have "mem q a = mem p4 a" by (simp add: q_def)
    also have "\<dots> = mem p3 a" unfolding p4_def using that fits3 lt place2 by (intro mem_set_entry) (simp_all add: in_table_def)
    also have "\<dots> = mem p2 a" unfolding p3_def using that place2 lt by (intro mem_set_entry) (simp_all add: in_table_def)
    finally show ?thesis by (simp only: mem2)
  qed
  have only: "mem q a = mem p a" if "\<not> in_table p a" "a \<noteq> ?h" "a \<notin> nodes (addrs p l (frag_segs l 1 xs))" for a
  proof -
    have "a \<notin> nodes (x # rest)" using that(3) nodes_perm[OF os(1), of p l] unfolding as by blast
    then have "nxt \<noteq> 0 \<Longrightarrow> a \<noteq> nxt + 4" using nodes_in(2) nxt_in by metis
    then show ?thesis using memq[OF that(1)] that(2) by (simp add: link_words_def)
  qed
  have "chain (link_words ?h nxt (mem p)) ?h rest"
    using chain_unlink[of "mem p" ?h "[]" "[x]" rest] ch ap by (simp add: nxt_def)
  then have chq: "chain (mem q) ?h rest"
    by (rule chain_frame) (use memq H(1) words nodes_def in \<open>auto simp: nodes_def\<close>)
  define os' where "os' = (if fs = [] then os else (B, fs) # os)"
  have "mset os' = mset (frag_segs l 1 (us @ Frags l fs # vs))"
    using os(1) xs(1) by (auto simp: os'_def B_def)
  moreover have "addrs q l os' = rest" using addrs_place[OF placeq] by (simp add: os'_def rest_def)
  ultimately have lok: "list_ok q (us @ Frags l fs # vs) l"
    using chq placeq unfolding list_ok_def by (metis same_place_def)
  have "heap_inv q (us @ Frags l fs # vs)"
  proof (rule heap_inv_frag_step[OF inv[unfolded xs(1)] xs(2) l B_def])
    show "ptr q = ptr p" "info_index q = info_index p" "info_limit q = info_limit p"
      by (simp_all add: q_def p4_def p3_def p2_def p1_def)
    show "seg_ok p (Frags l fs)" using ok by auto
    show "seg_tab (tbl q) B (Frags l fs)" using seg by (simp add: tblq)
    show "tbl q c j = tbl p c j" if "c \<noteq> B" for c j using that by (simp add: tblq)
    show "mem q a = mem p a" if "\<not> in_table p a" "a \<noteq> ?h" "a \<notin> nodes (addrs p l (frag_segs l 1 (us @ Frags l (i # fs) # vs)))" for a
      using only[OF that(1,2)] that(3) xs(1) by simp
  qed (use placeq lok in \<open>auto simp: B_def\<close>)
  moreover have "slack q (us @ Frags l fs # vs) = slack p (us @ Frags l (i # fs) # vs)"
    by (rule slack_frag) (simp_all add: frag_slack_def q_def p4_def p3_def p2_def p1_def algebra_simps)
  moreover have "ptr q = ptr p" "info_limit q = info_limit p" by (simp_all add: q_def p4_def p3_def p2_def p1_def)
  ultimately show ?thesis using xs mx pop placeq only by (intro exI[of _ us] exI[of _ i] exI[of _ fs] exI[of _ vs] exI[of _ q]) auto
qed

section \<open>Inserting a fragment\<close>

lemma first_or_null_in: "first_or_null vs \<noteq> 0 \<Longrightarrow> first_or_null vs \<in> set vs"
  by (cases vs) simp_all

definition insert_mem :: "nat \<Rightarrow> nat \<Rightarrow> memory \<Rightarrow> memory" where
  "insert_mem prev x m = link_words x (m prev) (m(x := m prev, x + 4 := prev, prev := x))"

lemma insert_after_mem:
  assumes "x \<noteq> prev" "u32_add x 4 = x + 4" "mem p prev \<noteq> 0 \<Longrightarrow> u32_add (mem p prev) 4 = mem p prev + 4" "prev \<noteq> x + 4"
  shows "insert_after prev x p = p\<lparr>mem := insert_mem prev x (mem p)\<rparr>"
proof -
  have "((mem p)(x := mem p prev, x + 4 := prev, prev := x)) x = mem p prev" using assms(1) by simp
  then show ?thesis
    using assms(1-3) by (auto simp: insert_after_def Let_def insert_mem_def link_words_def next_of_def put_def fun_upd_idem)
qed

lemma insert_mem_other: "a \<noteq> prev \<Longrightarrow> a \<noteq> x \<Longrightarrow> a \<noteq> x + 4 \<Longrightarrow> a \<noteq> m prev + 4 \<or> m prev = 0 \<Longrightarrow> insert_mem prev x m a = m a"
  by (auto simp: insert_mem_def link_words_def)

lemma chain_insert_mem:
  assumes "chain m h (us @ vs)" "apart h (us @ x # vs)" "x \<noteq> 0"
  shows "chain (insert_mem (last (h # us)) x m) h (us @ x # vs)"
proof -
  have "m (last (h # us)) = first_or_null vs" using chain_first[OF chain_last[OF assms(1)]] .
  then show ?thesis unfolding insert_mem_def using chain_insert[OF assms] by simp
qed

section \<open>Dividing a block\<close>

lemma link_frags_Suc: "0 < n \<Longrightarrow> link_frags l r (Suc n) p = insert_after (frag_head p l) (u32_add r (u32_mul n (2 ^ l))) (link_frags l r n p)"
proof -
  have same: "frag_head (fold (\<lambda>k p. insert_after (frag_head p l) (u32_add r (u32_mul k (2 ^ l))) p) ks p) l = frag_head p l" for ks
  proof (induction ks arbitrary: p)
    case (Cons k ks)
    have "frag_head (insert_after a b p) l = frag_head p l" for a b :: nat and p by (simp add: insert_after_def frag_head_def Let_def)
    then show ?case using Cons by simp
  qed simp
  assume "0 < n"
  then have "[1..<Suc n] = [1..<n] @ [n]" by simp
  then show ?thesis by (simp add: link_frags_def same)
qed

lemma link_frags_ok:
  assumes geo: "geometry p" and l: "3 \<le> l" "l < blklog p" and r: "r = frag_addr p l B 0"
    and block: "\<And>j. j \<le> 2 ^ (blklog p - l) \<Longrightarrow> 0 < j \<Longrightarrow> frag_addr p l B (j - 1) + 4 < u32_lim"
    and B: "0 < B" "\<And>a. in_block p B a \<Longrightarrow> a \<noteq> 0 \<and> a \<notin> nodes as"
    and ch: "chain (mem p) h as" "apart h as" "h = frag_head p l" "h < base p" "\<And>a. a \<in> set as \<Longrightarrow> a + 4 < u32_lim"
    and n: "0 < n" "n \<le> 2 ^ (blklog p - l)"
  shows "\<exists>m. link_frags l r n p = p\<lparr>mem := m\<rparr> \<and> chain m h (map (frag_addr p l B) (rev [1..<n]) @ as) \<and>
    apart h (map (frag_addr p l B) (rev [1..<n]) @ as) \<and>
    (\<forall>a. a \<noteq> h \<longrightarrow> \<not> in_block p B a \<longrightarrow> a \<notin> nodes as \<longrightarrow> m a = mem p a)"
  using n
proof (induction n)
  case (Suc n)
  show ?case
  proof (cases "n = 0")
    case True
    have "link_frags l r 1 p = p" by (simp add: link_frags_def)
    then show ?thesis using True ch by (intro exI[of _ "mem p"]) (simp add: One_nat_def[symmetric])
  next
    case False
    let ?new = "\<lambda>n. map (frag_addr p l B) (rev [1..<n])"
    obtain m where m: "link_frags l r n p = p\<lparr>mem := m\<rparr>" "chain m h (?new n @ as)" "apart h (?new n @ as)"
      "\<And>a. a \<noteq> h \<Longrightarrow> \<not> in_block p B a \<Longrightarrow> a \<notin> nodes as \<Longrightarrow> m a = mem p a" using Suc False by auto
    let ?x = "frag_addr p l B n"
    have inb: "in_block p B (frag_addr p l B j)" "in_block p B (frag_addr p l B j + 4)" if "j \<le> n" for j
      using frag_in_block[OF geo l _ B(1), of j 0] frag_in_block[OF geo l _ B(1), of j 4] frag_room(2)[OF geo l, of j] that Suc.prems by simp_all
    have far: "a \<noteq> h" if "in_block p B a" for a using that ch(4) by (auto simp: in_block_def)
    have x: "u32_add r (u32_mul n (2 ^ l)) = ?x" "u32_add ?x 4 = ?x + 4"
    proof -
      have "?x + 4 < u32_lim" using block[of "n + 1"] Suc.prems by simp
      then show "u32_add ?x 4 = ?x + 4" "u32_add r (u32_mul n (2 ^ l)) = ?x"
        unfolding r by (simp_all add: frag_addr_def u32_mul_def u32_simps)
    qed
    have ap: "apart h (?x # ?new n @ as)"
    proof -
      have "?x \<notin> set (?new n)" by (auto dest: frag_addr_inj)
      moreover have "?x \<notin> set as" using B(2)[OF inb(1)[of n]] by (auto simp: nodes_def)
      moreover have "?x mod 8 = 0" by (rule frag_aligned[OF geo l(1)])
      moreover have "h \<noteq> ?x" "h \<noteq> ?x + 4" using far[OF inb(1)[of n]] far[OF inb(2)[of n]] by simp_all
      ultimately show ?thesis using m(3) by (simp add: apart_def)
    qed
    have first: "m h = first_or_null (?new n @ as)" by (rule chain_first[OF m(2)])
    have first_in: "m h \<noteq> 0 \<Longrightarrow> m h \<in> set (?new n @ as)" using first_or_null_in unfolding first by blast
    have room: "m h \<noteq> 0 \<Longrightarrow> m h + 4 < u32_lim"
    proof -
      assume "m h \<noteq> 0"
      then consider (new) j where "j < n" "m h = frag_addr p l B j" | (old) "m h \<in> set as" using first_in by auto
      then show ?thesis
      proof cases
        case new
        then show ?thesis using block[of "j + 1"] Suc.prems by simp
      next
        case old
        then show ?thesis using ch(5) by blast
      qed
    qed
    have step: "link_frags l r (Suc n) p = p\<lparr>mem := insert_mem h ?x m\<rparr>"
    proof -
      have "insert_after h ?x (p\<lparr>mem := m\<rparr>) = (p\<lparr>mem := m\<rparr>)\<lparr>mem := insert_mem h ?x (mem (p\<lparr>mem := m\<rparr>))\<rparr>"
        by (rule insert_after_mem) (use x room far[OF inb(1)[of n]] far[OF inb(2)[of n]] in \<open>auto simp: u32_simps\<close>)
      then show ?thesis using False link_frags_Suc[of n l r p] m(1) x(1) ch(3) by simp
    qed
    have new: "?new (Suc n) = ?x # ?new n" using False by simp
    have "chain (insert_mem h ?x m) h (?x # ?new n @ as)"
      using chain_insert_mem[of m h "[]" "?new n @ as" ?x] m(2) ap B(2)[OF inb(1)[of n]] by simp
    moreover have "insert_mem h ?x m a = mem p a" if a: "a \<noteq> h" "\<not> in_block p B a" "a \<notin> nodes as" for a
    proof -
      have "m h = 0 \<or> a \<noteq> m h + 4"
      proof (cases "m h = 0")
        case False
        then consider j where "j < n" "m h = frag_addr p l B j" | "m h \<in> set as" using first_in by auto
        then show ?thesis by cases (use a inb in \<open>auto simp: nodes_def\<close>)
      qed simp
      then show ?thesis using insert_mem_other[of a h ?x m] a inb[of n] m(4)[OF a] by auto
    qed
    ultimately show ?thesis using step ap unfolding new by (intro exI[of _ "insert_mem h ?x m"]) simp
  qed
qed simp

end
