(* ===== verification/HeapSplit.thy ===== *)
theory HeapSplit
  imports HeapList
begin

text \<open>
  Dividing a new block into fragments, and giving a fragment back: as the second of its block, as the
  first of the list, or, when it is the last used one, together with the whole block.
\<close>

declare One_nat_def [simp del]

section \<open>Dividing a block into fragments\<close>

lemma frag_count: "l < blklog p \<Longrightarrow> geometry p \<Longrightarrow> blksz p div 2 ^ l = 2 ^ (blklog p - l)"
  using geometryD(2)[of p] by (simp add: power_diff)

lemma frag_count_facts:
  assumes "geometry p" "l < blklog p"
  shows "2 \<le> (2::nat) ^ (blklog p - l)" "(2::nat) ^ (blklog p - l) \<le> 1048576" "2 ^ (blklog p - l) * 2 ^ l = blksz p"
proof -
  note g = geometryD[OF assms(1)]
  have "(2::nat) ^ 1 \<le> 2 ^ (blklog p - l)" by (rule power_increasing) (use assms(2) in simp_all)
  then show "2 \<le> (2::nat) ^ (blklog p - l)" by simp
  have "(2::nat) ^ (blklog p - l) \<le> 2 ^ blklog p" by (rule power_increasing) simp_all
  then show "(2::nat) ^ (blklog p - l) \<le> 1048576" using g(2,15) by linarith
  show "2 ^ (blklog p - l) * 2 ^ l = blksz p" using assms(2) g(2) by (simp add: power_add[symmetric])
qed

lemma block_first:
  assumes inv: "heap_inv p (us @ s # vs)" and us: "us \<noteq> []" and B: "B = 1 + widths us"
  shows "ADDRESS p B = frag_addr p l B 0" "BLOCK p (ADDRESS p B) = B" "ADDRESS p B mod blksz p = 0"
proof -
  note I = heap_invD[OF inv] and S = seg_block[OF inv us]
  have b: "B \<le> info_size p" "0 < B" using S(4) B by simp_all
  show "ADDRESS p B = frag_addr p l B 0" "BLOCK p (ADDRESS p B) = B" "ADDRESS p B mod blksz p = 0"
    using block_addr[OF I(2) b] by (simp_all add: frag_addr_def)
qed

text \<open>Setting words of the entry of one block.\<close>

lemma set_entry_other:
  assumes "same_place p q" "geometry p" "B < info_size p" "j < 4" "i = info p"
  shows "same_place p (set_entry i B j v q)" "tbl (set_entry i B j v q) = upd2 (tbl q) B j v"
    "\<not> in_table p a \<Longrightarrow> mem (set_entry i B j v q) a = mem q a"
proof -
  have q: "info q = info p" "info_size q = info_size p" "table_fits q" "in_table q a = in_table p a" for a
    using assms(1) geometryD(12)[OF assms(2)] by (simp_all add: same_place_def table_fits_def in_table_def)
  show "same_place p (set_entry i B j v q)" using assms(1) by (simp add: same_place_def)
  show "tbl (set_entry i B j v q) = upd2 (tbl q) B j v" using q assms by (intro tbl_set_entry) simp_all
  show "\<not> in_table p a \<Longrightarrow> mem (set_entry i B j v q) a = mem q a" using q assms by (intro mem_set_entry) simp_all
qed

lemma list_at:
  assumes inv: "heap_inv p xs" and l: "3 \<le> l" "l < blklog p"
  obtains os where "mset os = mset (frag_segs l 1 xs)" "chain (mem p) (frag p + 8 * l) (addrs p l os)"
  using heap_invD(8)[OF inv l] unfolding list_ok_def by blast

lemma split_block_ok:
  assumes inv: "heap_inv p (us @ Big 1 # vs)" and us: "us \<noteq> []" and l: "3 \<le> l" "l < blklog p" and B: "B = 1 + widths us"
  defines "s' \<equiv> Frags l (rev [1..<2 ^ (blklog p - l)])"
  shows "\<exists>q. split_block (info p) l (ADDRESS p B) p = q \<and> heap_inv q (us @ s' # vs) \<and>
    slack q (us @ s' # vs) = slack p (us @ Big 1 # vs) \<and> same_place p q \<and> list_only p (us @ Big 1 # vs) l {a. in_block p B a} q \<and>
    ptr q = ptr p \<and> info_limit q = info_limit p"
proof -
  let ?xs = "us @ Big 1 # vs" and ?h = "frag p + 8 * l"
  note I = heap_invD[OF inv] and S = seg_block[OF inv us] and F = frag_facts[OF inv us l, folded B]
  note g = geometryD[OF I(2)] and H = head_facts[OF I(2) l(2)] and N = frag_count_facts[OF I(2) l(2)]
  define n where "n = (2::nat) ^ (blklog p - l)"
  have n: "2 \<le> n" "blksz p div 2 ^ l = n" using N frag_count[OF l(2) I(2)] by (simp_all add: n_def)
  have s': "s' = Frags l (rev [1..<n])" by (simp add: s'_def n_def)
  have lt: "B < info_size p" using S(4) B by simp
  obtain os where os: "mset os = mset (frag_segs l 1 ?xs)" "chain (mem p) ?h (addrs p l os)" by (rule list_at[OF inv l])
  note L = list_nodes[OF inv l os(1)] and W = node_outside_table[OF inv l os(1)]
  have full: "full ?xs" by (rule tab_full[OF I(5)])
  have out: "a \<noteq> 0 \<and> a \<notin> nodes (addrs p l os)" if "in_block p B a" for a
  proof
    have "base p \<le> a" using that unfolding in_block_def by simp
    then show "a \<noteq> 0" using g(5) by linarith
    show "a \<notin> nodes (addrs p l os)"
    proof
      assume "a \<in> nodes (addrs p l os)"
      then obtain us' fs vs' where x: "?xs = us' @ Frags l fs # vs'" "in_block p (1 + widths us') a" using L(3) by blast
      then have "B = 1 + widths us'" using that in_block_unique by blast
      then show False using seg_unique[OF x(1) full, of "widths us"] B by simp
    qed
  qed
  have sg: "(4::nat) < 2 ^ l" using frag_room(2)[OF I(2) l, of 0] by simp
  obtain m where m: "link_frags l (ADDRESS p B) n p = p\<lparr>mem := m\<rparr>" "chain m ?h (map (frag_addr p l B) (rev [1..<n]) @ addrs p l os)"
    "\<And>a. a \<noteq> ?h \<Longrightarrow> \<not> in_block p B a \<Longrightarrow> a \<notin> nodes (addrs p l os) \<Longrightarrow> m a = mem p a"
  proof -
    have "\<exists>m. link_frags l (ADDRESS p B) n p = p\<lparr>mem := m\<rparr> \<and> chain m ?h (map (frag_addr p l B) (rev [1..<n]) @ addrs p l os) \<and>
      apart ?h (map (frag_addr p l B) (rev [1..<n]) @ addrs p l os) \<and>
      (\<forall>a. a \<noteq> ?h \<longrightarrow> \<not> in_block p B a \<longrightarrow> a \<notin> nodes (addrs p l os) \<longrightarrow> m a = mem p a)"
    proof (rule link_frags_ok[OF I(2) l])
      show "ADDRESS p B = frag_addr p l B 0" by (rule block_first(1)[OF inv us B])
      show "frag_addr p l B (j - 1) + 4 < u32_lim" if "j \<le> 2 ^ (blklog p - l)" "0 < j" for j
        by (rule F(3)) (use that sg in simp_all)
      show "a + 4 < u32_lim" if "a \<in> set (addrs p l os)" for a using W(2) nodes_in(2)[OF that] .
    qed (use out os L(1) H n in \<open>auto simp: B n_def\<close>)
    then show ?thesis using that by blast
  qed
  define p1 where "p1 = p\<lparr>mem := m\<rparr>"
  define p2 where "p2 = set_entry (info p) B busy_type l p1"
  define p3 where "p3 = set_entry (info p) B frag_nfree (n - 1) p2"
  define p4 where "p4 = set_entry (info p) B frag_first (n - 1) p3"
  define q where "q = p4\<lparr>chunks_free := chunks_free p4 + of_nat (n - 1),
          bytes_free := bytes_free p4 + (of_nat (blksz p) - of_nat (2 ^ l)),
          bytes_used := bytes_used p4 - (of_nat (blksz p) - of_nat (2 ^ l))\<rparr>"
  have place1: "same_place p p1" by (simp add: p1_def same_place_def)
  note E2 = set_entry_other[OF place1 I(2) lt, where j = 1 and i = "info p" and v = l, folded p2_def, simplified]
  note E3 = set_entry_other[OF E2(1) I(2) lt, where j = 2 and i = "info p" and v = "n - 1", folded p3_def, simplified]
  note E4 = set_entry_other[OF E3(1) I(2) lt, where j = 3 and i = "info p" and v = "n - 1", folded p4_def, simplified]
  have "BLOCK p1 (ADDRESS p B) = B" using block_first(2)[OF inv us B] by (simp add: p1_def BLOCK_def)
  moreover have "max 1 n - 1 = n - 1" using n(1) by simp
  moreover have "blksz p4 = blksz p" by (simp add: p4_def p3_def p2_def p1_def)
  ultimately have split: "split_block (info p) l (ADDRESS p B) p = q"
    unfolding split_block_def n(2) m(1) Let_def p1_def[symmetric]
    by (simp only: p2_def[symmetric] p3_def[symmetric] p4_def[symmetric] q_def)
  have tbl1: "tbl p1 = tbl p" unfolding p1_def
  proof (rule tbl_mem[OF g(12)])
    fix a assume a: "in_table p a"
    have "1 + widths us \<le> widths ?xs" by simp
    then have "\<not> in_block p B a" using in_block_facts(1)[OF I(2,4) S(1)] a B by blast
    moreover have "a \<noteq> ?h" "a \<notin> nodes (addrs p l os)" using H(1) W(1) a by blast+
    ultimately show "m a = mem p a" by (intro m(3))
  qed
  have tblq: "tbl q = upd2 (upd2 (upd2 (tbl p) B 1 l) B 2 (n - 1)) B 3 (n - 1)"
  proof -
    have "tbl q = tbl p4" by (simp add: q_def)
    then show ?thesis by (simp only: E4(2) E3(2) E2(2) tbl1)
  qed
  have placeq: "same_place p q" using E4(1) by (simp add: q_def same_place_def)
  have memq: "mem q a = m a" if "\<not> in_table p a" for a
  proof -
    have "mem q a = mem p4 a" by (simp add: q_def)
    also have "\<dots> = m a" using E4(3)[OF that] E3(3)[OF that] E2(3)[OF that] by (simp add: p1_def)
    finally show ?thesis .
  qed
  have nodes_os: "nodes (addrs p l (frag_segs l 1 ?xs)) = nodes (addrs p l os)" by (rule nodes_perm[OF os(1)[symmetric]])
  have only: "list_only p ?xs l {a. in_block p B a} q"
    unfolding list_only_def nodes_os using memq m(3) by simp
  let ?os = "(B, rev [1..<n]) # os"
  have rev_ne: "rev [1..<n] \<noteq> []" "hd (rev [1..<n]) = n - 1"
    using n(1) by (cases n; simp add: hd_rev)+
  have ok': "seg_ok p s'"
    using l n(1) unfolding s' by (simp add: n_def[symmetric])
  have "chain (mem q) ?h (addrs p l ?os)"
  proof -
    have nt: "\<not> in_table p a" if a: "a \<in> nodes (map (frag_addr p l B) (rev [1..<n]) @ addrs p l os)" for a
    proof -
      consider "a \<in> nodes (map (frag_addr p l B) (rev [1..<n]))" | "a \<in> nodes (addrs p l os)" using a by auto
      then show ?thesis
      proof cases
        case 1
        then obtain j where "j < n" "a = frag_addr p l B j + 0 \<or> a = frag_addr p l B j + 4" by (auto simp: nodes_def)
        then show ?thesis using F(2)[of j 0] F(2)[of j 4] sg by (auto simp: n_def)
      qed (use W(1) in blast)
    qed
    have "chain (mem q) ?h (map (frag_addr p l B) (rev [1..<n]) @ addrs p l os)"
      by (rule chain_frame[OF m(2)]) (use memq nt H(1) in blast)+
    then show ?thesis by simp
  qed
  moreover have "mset ?os = mset (frag_segs l 1 (us @ s' # vs))"
    using os(1) rev_ne(1) by (simp add: s' B)
  moreover have "frag q = frag p" using placeq by (simp add: same_place_def)
  ultimately have lok: "list_ok q (us @ s' # vs) l"
    unfolding list_ok_def addrs_place[OF placeq] by (intro exI[of _ ?os]) (simp only: simp_thms)
  have "heap_inv q (us @ s' # vs)"
  proof (rule heap_inv_frag_step[OF inv us l B])
    show "ptr q = ptr p" "info_index q = info_index p" "info_limit q = info_limit p"
      by (simp_all add: q_def p4_def p3_def p2_def p1_def)
    have "seg_tab (tbl p) B (Big 1)" using I(5) unfolding tab_append tab.simps B by blast
    then show "seg_tab (tbl q) B s'" using l n(1) rev_ne by (simp add: tblq s')
    show "tbl q c j = tbl p c j" if "c \<noteq> B" for c j using that by (simp add: tblq)
    show "mem q a = mem p a" if "\<not> in_table p a" "a \<noteq> ?h" "a \<notin> nodes (addrs p l (frag_segs l 1 ?xs))" "\<not> in_block p B a" for a
      using only that unfolding list_only_def by blast
    show "width s' = 1" "\<not> is_free s'" "k \<noteq> l \<Longrightarrow> frag_segs k B [s'] = []" for k by (simp_all add: s')
  qed (simp_all add: placeq lok ok' del: seg_ok.simps)
  moreover have "slack q (us @ s' # vs) = slack p ?xs"
  proof (rule slack_frag)
    have c: "(2::nat) ^ blklog p div 2 ^ l = n" "(n - 1) * 2 ^ l = blksz p - 2 ^ l" "2 ^ l \<le> blksz p"
      using n g(2) l(2) N(3) by (simp_all add: n_def[symmetric] diff_mult_distrib)
    then show "frag_slack p q (Big 1) s'"
      using n(1) g(2) by (simp add: frag_slack_def s' q_def p4_def p3_def p2_def p1_def of_nat_diff algebra_simps)
    show "blklog q = blklog p" using placeq by (simp add: same_place_def)
  qed
  moreover have "ptr q = ptr p" "info_limit q = info_limit p" by (simp_all add: q_def p4_def p3_def p2_def p1_def)
  ultimately show ?thesis using split placeq only by blast
qed

end
