(* ===== verification/HeapFree.thy ===== *)
theory HeapFree
  imports HeapSplit
begin

text \<open>
  Giving a fragment back: as the second free one of its block, as the first of the list, or, when no
  other fragment of its block is used, together with the whole block.
\<close>

declare One_nat_def [simp del]

section \<open>Walking along the free fragments of a block\<close>

lemma frag_is_used_chain:
  assumes "chain (mem p) h (ws @ vs)" "\<And>w. w \<in> set ws \<Longrightarrow> 2147483648 \<le> w"
  shows "frag_is_used p a (mem p h) (length ws) \<longleftrightarrow> a \<notin> set ws"
  using assms
proof (induction ws arbitrary: h)
  case (Cons w ws)
  have "frag_is_used p a (mem p w) (length ws) \<longleftrightarrow> a \<notin> set ws" using Cons by simp
  then show ?case using Cons.prems by (auto simp: next_of_def)
qed simp

lemma frag_after_chain: "chain (mem p) h (ws @ vs) \<Longrightarrow> frag_after p (mem p h) (length ws) = first_or_null vs"
proof (induction ws arbitrary: h)
  case Nil
  then show ?case using chain_first[of "mem p" h vs] by simp
next
  case (Cons w ws)
  then show ?case using Cons.IH[of w] by (simp add: next_of_def)
qed

section \<open>A block and its list\<close>

text \<open>Where the free fragments of a block are in the list.\<close>

lemma frags_at:
  assumes inv: "heap_inv p (us @ Frags l fs # vs)" and us: "us \<noteq> []" and fs: "fs \<noteq> []" and B: "B = 1 + widths us"
  obtains as bs where "mset (as @ (B, fs) # bs) = mset (frag_segs l 1 (us @ Frags l fs # vs))"
    "chain (mem p) (frag p + 8 * l) (addrs p l as @ map (frag_addr p l B) fs @ addrs p l bs)"
proof -
  have ok: "seg_ok p (Frags l fs)" by (rule heap_invD(7)[OF inv]) simp
  then have l: "3 \<le> l" "l < blklog p" by simp_all
  obtain os where os: "mset os = mset (frag_segs l 1 (us @ Frags l fs # vs))" "chain (mem p) (frag p + 8 * l) (addrs p l os)"
    by (rule list_at[OF inv l])
  have "(B, fs) \<in> set os" using mset_in[OF os(1), of "(B, fs)"] fs B by (auto simp: frag_segs_in)
  then obtain as bs where "os = as @ (B, fs) # bs" by (meson split_list)
  then show ?thesis using that os by simp
qed

lemma frag_entries:
  assumes inv: "heap_inv p (us @ Frags l fs # vs)" and us: "us \<noteq> []" and B: "B = 1 + widths us"
  shows "entry (info p) B busy_status p = 1" "entry (info p) B busy_type p = l" "entry (info p) B frag_nfree p = length fs"
    "fs \<noteq> [] \<Longrightarrow> first_frag p B l = frag_addr p l B (hd fs)" "3 \<le> l" "l < blklog p" "length fs < 2 ^ (blklog p - l)" "B < info_size p"
    "distinct fs" "\<And>i. i \<in> set fs \<Longrightarrow> i < 2 ^ (blklog p - l)"
proof -
  note I = heap_invD[OF inv] and S = seg_block[OF inv us]
  have ok: "seg_ok p (Frags l fs)" by (rule I(7)) simp
  then show l: "3 \<le> l" "l < blklog p" "length fs < 2 ^ (blklog p - l)" "distinct fs" "\<And>i. i \<in> set fs \<Longrightarrow> i < 2 ^ (blklog p - l)" by simp_all
  show lt: "B < info_size p" using S(4) B by simp
  have seg: "seg_tab (tbl p) B (Frags l fs)" using I(5) B by simp
  then show "entry (info p) B busy_status p = 1" "entry (info p) B busy_type p = l" "entry (info p) B frag_nfree p = length fs"
    using lt by (simp_all add: entry_at)
  show "first_frag p B l = frag_addr p l B (hd fs)" if "fs \<noteq> []"
  proof -
    have i: "hd fs < 2 ^ (blklog p - l)" using ok that by simp
    have e: "entry (info p) B frag_first p = hd fs" using seg lt that by (simp add: entry_at)
    have "frag_addr p l B (hd fs) < u32_lim" using frag_facts(3)[OF inv us l(1,2) i, of 0] B by simp
    then show ?thesis unfolding first_frag_def e block_first(1)[OF inv us B, of l]
      by (simp add: frag_addr_def u32_mul_def u32_simps)
  qed
qed

text \<open>The counters after a fragment of \<open>2 ^ l\<close> bytes has been given back.\<close>

definition freed :: "nat \<Rightarrow> pool \<Rightarrow> pool" where
  "freed l p = p\<lparr>chunks_used := chunks_used p - 1, bytes_used := bytes_used p - of_nat (2 ^ l),
               chunks_free := chunks_free p + 1, bytes_free := bytes_free p + of_nat (2 ^ l)\<rparr>"

lemma freed_simps [simp]:
  "base (freed l p) = base p" "pool_top (freed l p) = pool_top p" "ptr (freed l p) = ptr p" "pool_size (freed l p) = pool_size p"
  "info (freed l p) = info p" "info_end (freed l p) = info_end p" "info_size (freed l p) = info_size p"
  "info_index (freed l p) = info_index p" "info_limit (freed l p) = info_limit p" "blklog (freed l p) = blklog p"
  "blksz (freed l p) = blksz p" "frag (freed l p) = frag p" "mem (freed l p) = mem p" "tbl (freed l p) = tbl p"
  "same_place p (freed l p)" "entry i b j (freed l p) = entry i b j p" "first_frag (freed l p) b k = first_frag p b k"
  "table_fits (freed l p) = table_fits p" "geometry (freed l p) = geometry p" "in_table (freed l p) a = in_table p a"
  by (simp_all add: freed_def same_place_def entry_def first_frag_def ADDRESS_def in_table_def table_fits_def)

lemma free_frag_cases:
  "free_frag B l a p =
    (let i = info p; n = blksz p div 2 ^ l; p = freed l p; prev = first_frag p B l in
     if entry i B frag_nfree p = u32_sub n 1 then
       (let x = frag_after p prev (n - 1);
            p = put (prev_of p prev) x p;
            p = (if x \<noteq> 0 then put (u32_add x 4) (prev_of p prev) p else p);
            p = set_entry i B busy_type 0 p;
            p = set_entry i B busy_size 1 p;
            p = p\<lparr>chunks_used := chunks_used p + 1, bytes_used := bytes_used p + of_nat (blksz p),
                  chunks_free := chunks_free p - of_nat n, bytes_free := bytes_free p - of_nat (blksz p)\<rparr>
        in do { (block, _) \<leftarrow> free_checks (ADDRESS p B) p; free_blocks block p })
     else if entry i B frag_nfree p \<noteq> 0 then
       (let p = insert_after prev a p in Some (set_entry i B frag_nfree (u32_add (entry i B frag_nfree p) 1) p))
     else
       (let p = set_entry i B frag_nfree 1 p;
            p = set_entry i B frag_first (a mod blksz p div 2 ^ l) p
        in Some (insert_after (frag_head p l) a p)))"
  unfolding free_frag_def freed_def Let_def by (rule refl)

text \<open>What holds after a fragment has been returned to its block.\<close>

definition returned :: "pool \<Rightarrow> seg list \<Rightarrow> nat \<Rightarrow> nat set \<Rightarrow> pool \<Rightarrow> seg list \<Rightarrow> bool" where
  "returned p xs l W q ys \<longleftrightarrow> heap_inv q ys \<and> slack q ys = slack p xs \<and> same_place p q \<and> list_only p xs l W q \<and>
     ptr q = ptr p \<and> info_limit q = info_limit p"

section \<open>A block with another free fragment\<close>

lemma list_block:
  assumes "mset os = mset (frag_segs l 1 xs)" "(b, gs) \<in> set os"
  obtains us vs where "xs = us @ Frags l gs # vs" "b = 1 + widths us"
proof -
  have "(b, gs) \<in> set (frag_segs l 1 xs)" using mset_in[OF assms(1)] assms(2) by (rule iffD1)
  from this[unfolded frag_segs_in] show ?thesis using that by blast
qed

lemma insert_at:
  assumes inv: "heap_inv p (us @ Frags l fs # vs)" and us: "us \<noteq> []" and B: "B = 1 + widths us"
    and j: "j < 2 ^ (blklog p - l)" "j \<notin> set fs" and a: "a = frag_addr p l B j"
    and os: "mset os = mset (frag_segs l 1 (us @ Frags l fs # vs))" "addrs p l os = xs @ ys"
  shows "apart (frag p + 8 * l) (xs @ a # ys)" "u32_add a 4 = a + 4" "\<not> in_table p a" "\<not> in_table p (a + 4)" "a \<noteq> 0"
    "a \<noteq> frag p + 8 * l" "a + 4 \<noteq> frag p + 8 * l" "in_block p B a" "in_block p B (a + 4)"
proof -
  note I = heap_invD[OF inv] and E = frag_entries[OF inv us B]
  note F = frag_facts[OF inv us E(5,6) j(1), folded B, folded a] and H = head_facts[OF I(2) E(6)]
  have sg: "(4::nat) < 2 ^ l" "(0::nat) < 2 ^ l" using frag_room(2)[OF I(2) E(5,6) j(1)] by simp_all
  show w: "u32_add a 4 = a + 4" "\<not> in_table p a" "\<not> in_table p (a + 4)" "a \<noteq> 0" "in_block p B a" "in_block p B (a + 4)"
    using F(2,3,7,1)[OF sg(1)] F(2,7,1)[OF sg(2)] by (simp_all add: u32_simps)
  show h: "a \<noteq> frag p + 8 * l" "a + 4 \<noteq> frag p + 8 * l" using F(4)[OF sg(2)] H(3) by simp_all
  have L: "apart (frag p + 8 * l) (xs @ ys)" "frag_list p l os"
    using list_nodes(1,2)[OF inv E(5,6) os(1)] os(2) by simp_all
  have "a \<notin> set (addrs p l os)"
  proof
    assume "a \<in> set (addrs p l os)"
    then obtain b gs i where b: "(b, gs) \<in> set os" "i \<in> set gs" "a = frag_addr p l b i" unfolding in_addrs by blast
    obtain us' vs' where x: "us @ Frags l fs # vs = us' @ Frags l gs # vs'" "b = 1 + widths us'"
      by (rule list_block[OF os(1) b(1)])
    have "0 < b" "i < 2 ^ (blklog p - l)" using L(2) b(1,2) unfolding frag_list_def by fast+
    then have "in_block p b (frag_addr p l b i + 0)" using frag_in_block[OF I(2) E(5,6)] sg(2) by blast
    then have bB: "b = B" using b(3) w(5) in_block_unique by simp
    then have "widths us' \<le> widths us \<and> widths us < widths us' + width (Frags l gs)" using B x(2) by simp
    then have "Frags l fs = Frags l gs" using seg_unique[OF x(1) tab_full[OF I(5)] order_refl] by simp
    moreover have "i = j" using frag_addr_inj[OF b(3)[unfolded a bB]] by (rule sym)
    ultimately show False using b(2) j(2) by simp
  qed
  then show "apart (frag p + 8 * l) (xs @ a # ys)"
    using L(1) frag_aligned[OF I(2) E(5), of B j] a h unfolding os(2) by (auto simp: apart_def)
qed

lemma free_frag_second:
  assumes inv: "heap_inv p (us @ Frags l (i # fs) # vs)" and us: "us \<noteq> []" and B: "B = 1 + widths us"
    and j: "j < 2 ^ (blklog p - l)" "j \<notin> set (i # fs)" and n: "length (i # fs) + 1 \<noteq> 2 ^ (blklog p - l)"
    and a: "a = frag_addr p l B j"
  shows "\<exists>q. free_frag B l a p = Some q \<and> returned p (us @ Frags l (i # fs) # vs) l {a, a + 4} q (us @ Frags l (i # j # fs) # vs)"
proof -
  let ?xs = "us @ Frags l (i # fs) # vs" and ?h = "frag p + 8 * l" and ?s' = "Frags l (i # j # fs)"
  note I = heap_invD[OF inv] and E = frag_entries[OF inv us B]
  note l = E(5,6) and lt = E(8)
  note g = geometryD[OF I(2)] and H = head_facts[OF I(2) l(2)] and N = frag_count_facts[OF I(2) l(2)] frag_count[OF l(2) I(2)]
  obtain as bs where os: "mset (as @ (B, i # fs) # bs) = mset (frag_segs l 1 ?xs)"
    "chain (mem p) ?h (addrs p l as @ map (frag_addr p l B) (i # fs) @ addrs p l bs)" by (rule frags_at[OF inv us _ B]) simp_all
  let ?x = "frag_addr p l B i" and ?rest = "map (frag_addr p l B) fs @ addrs p l bs"
  have split: "addrs p l (as @ (B, i # fs) # bs) = (addrs p l as @ [?x]) @ ?rest" by simp
  note A = insert_at[OF inv us B j a os(1) split]
  note W = node_words[OF inv l os(1), unfolded split]
  have x_in: "?x \<in> set ((addrs p l as @ [?x]) @ ?rest)" by simp
  have nodes_os: "nodes (addrs p l (frag_segs l 1 ?xs)) = nodes ((addrs p l as @ [?x]) @ ?rest)"
    using nodes_perm[OF os(1)[symmetric], of p l] unfolding split .
  have nxt: "mem p ?x = first_or_null ?rest"
  proof -
    have "chain (mem p) ?h ((addrs p l as @ [?x]) @ ?rest)" using os(2) by simp
    from chain_first[OF chain_last[OF this]] show ?thesis by simp
  qed
  have nxt_in: "mem p ?x \<noteq> 0 \<Longrightarrow> mem p ?x \<in> set ((addrs p l as @ [?x]) @ ?rest)"
    using first_or_null_in[of ?rest] unfolding nxt by simp
  have ax: "a \<noteq> ?x" "?x \<noteq> a + 4"
  proof -
    show "a \<noteq> ?x" using frag_addr_inj[of p l B j i] a j(2) by auto
    have "?x mod 8 = 0" "a mod 8 = 0" using frag_aligned[OF I(2) l(1)] a by simp_all
    then show "?x \<noteq> a + 4" using aligned_plus_4[of a] by auto
  qed
  define m where "m = insert_mem ?x a (mem p)"
  define p1 where "p1 = (freed l p)\<lparr>mem := m\<rparr>"
  define q where "q = set_entry (info p) B frag_nfree (length (i # fs) + 1) p1"
  have ins: "insert_after ?x a (freed l p) = p1"
    using insert_after_mem[of a ?x "freed l p"] ax A(2) W(1)[OF nxt_in] by (simp add: p1_def m_def)
  have other: "m c = mem p c" if "c \<notin> nodes (addrs p l (frag_segs l 1 ?xs))" "c \<notin> {a, a + 4}" for c
  proof -
    have "c \<noteq> ?x" "c \<noteq> a" "c \<noteq> a + 4" using that x_in nodes_in(1) unfolding nodes_os by blast+
    moreover have "mem p ?x = 0 \<or> c \<noteq> mem p ?x + 4" using nodes_in(2)[OF nxt_in] that(1) unfolding nodes_os by blast
    ultimately show ?thesis unfolding m_def by (intro insert_mem_other) auto
  qed
  have tbl1: "tbl p1 = tbl p"
  proof -
    have "tbl ((freed l p)\<lparr>mem := m\<rparr>) = tbl (freed l p)"
    proof (rule tbl_mem)
      fix c assume "in_table (freed l p) c"
      then have c: "in_table p c" by simp
      have "c \<notin> {a, a + 4}" using A(3,4) c by blast
      moreover have "c \<notin> nodes (addrs p l (frag_segs l 1 ?xs))" using node_outside_table(1)[OF inv l refl] c by blast
      ultimately show "m c = mem (freed l p) c" using other by simp
    qed (use g(12) in simp)
    then show ?thesis by (simp add: p1_def)
  qed
  have place1: "same_place p p1" by (simp add: p1_def same_place_def)
  note Q = set_entry_other[OF place1 I(2) lt, where j = 2 and i = "info p" and v = "length (i # fs) + 1", folded q_def, simplified]
  have nfree: "u32_add (length (i # fs)) 1 = length (i # fs) + 1" using E(7) N(2) by (simp add: u32_simps u32_lim_def)
  have e1: "entry (info p) B frag_nfree p1 = length (i # fs)"
  proof -
    have "entry (info p) B frag_nfree p1 = tbl p1 B 2" using place1 lt by (intro entry_at) (simp_all add: same_place_def)
    also have "\<dots> = entry (info p) B frag_nfree p" unfolding tbl1 using lt by (simp add: entry_at)
    finally show ?thesis using E(3) by simp
  qed
  have "u32_sub (2 ^ (blklog p - l)) 1 = 2 ^ (blklog p - l) - 1" using N(1,2) by (simp add: u32_simps u32_lim_def)
  then have not_last: "length (i # fs) \<noteq> u32_sub (2 ^ (blklog p - l)) 1" using n N(1) by simp
  have free: "free_frag B l a p = Some q"
    unfolding free_frag_cases Let_def freed_simps E(3) E(4)[OF list.distinct(2)] list.sel N(4) if_not_P[OF not_last] ins e1 nfree q_def
    by simp
  have only: "list_only p ?xs l {a, a + 4} q" unfolding list_only_def using other Q(3) by (simp add: p1_def)
  have "chain m ?h ((addrs p l as @ [?x]) @ a # ?rest)"
    using chain_insert_mem[of "mem p" ?h "addrs p l as @ [?x]" ?rest a] os(2) A(1,5) by (simp add: m_def)
  then have "chain (mem q) ?h ((addrs p l as @ [?x]) @ a # ?rest)"
  proof (rule chain_frame)
    show "mem q ?h = m ?h" using Q(3)[OF H(1)] by (simp add: p1_def)
    fix c assume "c \<in> nodes ((addrs p l as @ [?x]) @ a # ?rest)"
    then have "c \<in> nodes ((addrs p l as @ [?x]) @ ?rest) \<or> c = a \<or> c = a + 4" by auto
    then have "\<not> in_table p c" using A(3,4) node_outside_table(1)[OF inv l os(1)] unfolding split by blast
    then show "mem q c = m c" using Q(3) by (simp add: p1_def)
  qed
  then have "chain (mem q) ?h (addrs p l (as @ (B, i # j # fs) # bs))" by (simp add: a)
  moreover have "mset (as @ (B, i # j # fs) # bs) = mset (frag_segs l 1 (us @ ?s' # vs))" using os(1) by (simp add: B)
  moreover have "frag q = frag p" using Q(1) by (simp add: same_place_def)
  ultimately have lok: "list_ok q (us @ ?s' # vs) l"
    unfolding list_ok_def addrs_place[OF Q(1)] by (intro exI[of _ "as @ (B, i # j # fs) # bs"]) (simp only: simp_thms)
  have tblq: "tbl q = upd2 (tbl p) B 2 (length (i # fs) + 1)" using Q(2) tbl1 by simp
  have "heap_inv q (us @ ?s' # vs)"
  proof (rule heap_inv_frag_step[OF inv us l B])
    show "ptr q = ptr p" "info_index q = info_index p" "info_limit q = info_limit p" by (simp_all add: q_def p1_def)
    have "length (i # fs) < 2 ^ (blklog p - l)" by (rule E(7))
    then show "seg_ok p ?s'" using l E(9,10) j n by auto
    have "seg_tab (tbl p) B (Frags l (i # fs))" using I(5) B by simp
    then show "seg_tab (tbl q) B ?s'" by (simp add: tblq)
    show "tbl q c k = tbl p c k" if "c \<noteq> B" for c k using that by (simp add: tblq)
    show "mem q c = mem p c" if "\<not> in_table p c" "c \<noteq> ?h" "c \<notin> nodes (addrs p l (frag_segs l 1 ?xs))" "\<not> in_block p B c" for c
      using only that A(8,9) unfolding list_only_def by blast
  qed (use Q(1) lok in simp_all)
  moreover have "slack q (us @ ?s' # vs) = slack p ?xs"
    using Q(1) by (intro slack_frag) (simp_all add: frag_slack_def q_def p1_def freed_def algebra_simps same_place_def)
  moreover have "ptr q = ptr p" "info_limit q = info_limit p" by (simp_all add: q_def p1_def)
  ultimately show ?thesis using free Q(1) only by (simp add: returned_def)
qed

section \<open>A block without a free fragment\<close>

lemma free_frag_first:
  assumes inv: "heap_inv p (us @ Frags l [] # vs)" and us: "us \<noteq> []" and B: "B = 1 + widths us"
    and j: "j < 2 ^ (blklog p - l)" and a: "a = frag_addr p l B j"
  shows "\<exists>q. free_frag B l a p = Some q \<and> returned p (us @ Frags l [] # vs) l {a, a + 4} q (us @ Frags l [j] # vs)"
proof -
  let ?xs = "us @ Frags l [] # vs" and ?h = "frag p + 8 * l" and ?s' = "Frags l [j]"
  note I = heap_invD[OF inv] and E = frag_entries[OF inv us B]
  note l = E(5,6) and lt = E(8)
  note g = geometryD[OF I(2)] and H = head_facts[OF I(2) l(2)] and N = frag_count_facts[OF I(2) l(2)] frag_count[OF l(2) I(2)]
  obtain os where os: "mset os = mset (frag_segs l 1 ?xs)" "chain (mem p) ?h (addrs p l os)" by (rule list_at[OF inv l])
  have split: "addrs p l os = [] @ addrs p l os" by simp
  have nj: "j \<notin> set []" by simp
  note A = insert_at[OF inv us B j nj a os(1) split]
  note W = node_words[OF inv l os(1)] and out = node_outside_table(1)[OF inv l os(1)]
  have nodes_os: "nodes (addrs p l (frag_segs l 1 ?xs)) = nodes (addrs p l os)" by (rule nodes_perm[OF os(1)[symmetric]])
  have nxt_in: "mem p ?h \<noteq> 0 \<Longrightarrow> mem p ?h \<in> set (addrs p l os)"
    using first_or_null_in[of "addrs p l os"] unfolding chain_first[OF os(2)] .
  define p1 where "p1 = set_entry (info p) B frag_nfree 1 (freed l p)"
  define p2 where "p2 = set_entry (info p) B frag_first j p1"
  define q where "q = p2\<lparr>mem := insert_mem ?h a (mem p2)\<rparr>"
  have place0: "same_place p (freed l p)" by simp
  note Q1 = set_entry_other[OF place0 I(2) lt, where j = 2 and i = "info p" and v = 1, folded p1_def, simplified]
  note Q2 = set_entry_other[OF Q1(1) I(2) lt, where j = 3 and i = "info p" and v = j, folded p2_def, simplified]
  have m2: "mem p2 c = mem p c" if "\<not> in_table p c" for c using Q1(3)[OF that] Q2(3)[OF that] by simp
  have nxt: "mem p2 ?h = mem p ?h" by (rule m2[OF H(1)])
  have ins: "insert_after (frag_head p1 l) a p2 = q" if "frag_head p1 l = ?h" unfolding that q_def
    using A(2,6,7) W(1)[OF nxt_in] nxt by (intro insert_after_mem) auto
  have head: "frag_head p1 l = ?h" "frag_head p2 l = ?h" using H(2) by (simp_all add: frag_head_def p1_def p2_def)
  have idx: "a mod blksz p1 div 2 ^ l = j" using frag_index[OF I(2) l j, of B] a by (simp add: p1_def)
  have "0 \<noteq> u32_sub (2 ^ (blklog p - l)) 1" using N(1,2) by (simp add: u32_simps u32_lim_def)
  then have not_last: "length [] \<noteq> u32_sub (2 ^ (blklog p - l)) 1" by simp
  have zero: "\<not> (length [] \<noteq> 0)" by simp
  have free: "free_frag B l a p = Some q"
    unfolding free_frag_cases Let_def freed_simps E(3) N(4) if_not_P[OF not_last] if_not_P[OF zero] p1_def[symmetric] idx
      p2_def[symmetric] head using ins head by simp
  have other: "mem q c = mem p c" if "\<not> in_table p c" "c \<noteq> ?h" "c \<notin> nodes (addrs p l os)" "c \<notin> {a, a + 4}" for c
  proof -
    have "c \<noteq> a" "c \<noteq> a + 4" using that(4) by blast+
    moreover have "mem p ?h = 0 \<or> c \<noteq> mem p ?h + 4" using nodes_in(2)[OF nxt_in] that(3) by blast
    ultimately have "insert_mem ?h a (mem p2) c = mem p2 c" using that(2) nxt by (intro insert_mem_other) auto
    then show ?thesis using m2[OF that(1)] by (simp add: q_def)
  qed
  have only: "list_only p ?xs l {a, a + 4} q" unfolding list_only_def nodes_os using other by blast
  have place: "same_place p q" using Q2(1) by (simp add: q_def same_place_def)
  have tblq: "tbl q = upd2 (upd2 (tbl p) B 2 1) B 3 j"
  proof -
    have "tbl q = tbl p2" unfolding q_def
    proof (rule tbl_mem)
      show "table_fits p2" using Q2(1) g(12) by (simp add: same_place_def table_fits_def)
      fix c assume "in_table p2 c"
      then have c: "in_table p c" using Q2(1) by (simp add: same_place_def in_table_def)
      have "c \<noteq> ?h" "c \<noteq> a" "c \<noteq> a + 4" using c H(1) A(3,4) by blast+
      moreover have "mem p ?h = 0 \<or> c \<noteq> mem p ?h + 4" using W(3)[OF nxt_in] c by blast
      ultimately show "insert_mem ?h a (mem p2) c = mem p2 c" using nxt by (intro insert_mem_other) auto
    qed
    then show ?thesis using Q1(2) Q2(2) by simp
  qed
  have "chain (mem p2) ?h ([] @ addrs p l os)" unfolding append_Nil
    by (rule chain_frame[OF os(2)]) (use m2 H(1) out in blast)+
  from chain_insert_mem[OF this A(1,5)] have "chain (mem q) ?h (addrs p l ((B, [j]) # os))" by (simp add: q_def a)
  moreover have "mset ((B, [j]) # os) = mset (frag_segs l 1 (us @ ?s' # vs))" using os(1) by (simp add: B)
  moreover have "frag q = frag p" using place by (simp add: same_place_def)
  ultimately have lok: "list_ok q (us @ ?s' # vs) l"
    unfolding list_ok_def addrs_place[OF place] by (intro exI[of _ "(B, [j]) # os"]) (simp only: simp_thms)
  have "heap_inv q (us @ ?s' # vs)"
  proof (rule heap_inv_frag_step[OF inv us l B])
    show "ptr q = ptr p" "info_index q = info_index p" "info_limit q = info_limit p" by (simp_all add: q_def p2_def p1_def)
    show "seg_ok p ?s'" using l j N(1) by simp
    have "seg_tab (tbl p) B (Frags l [])" using I(5) B by simp
    then show "seg_tab (tbl q) B ?s'" by (simp add: tblq)
    show "tbl q c k = tbl p c k" if "c \<noteq> B" for c k using that by (simp add: tblq)
    show "mem q c = mem p c" if "\<not> in_table p c" "c \<noteq> ?h" "c \<notin> nodes (addrs p l (frag_segs l 1 ?xs))" "\<not> in_block p B c" for c
      using only that A(8,9) unfolding list_only_def by blast
  qed (use place lok in simp_all)
  moreover have "slack q (us @ ?s' # vs) = slack p ?xs"
    using place by (intro slack_frag) (simp_all add: frag_slack_def q_def p2_def p1_def freed_def algebra_simps same_place_def)
  moreover have "ptr q = ptr p" "info_limit q = info_limit p" by (simp_all add: q_def p2_def p1_def)
  ultimately show ?thesis using free place only by (simp add: returned_def)
qed

section \<open>The last used fragment of a block\<close>

lemma free_frag_last:
  assumes inv: "heap_inv p (us @ Frags l fs # vs)" and us: "us \<noteq> []" and B: "B = 1 + widths us"
    and n: "length fs + 1 = 2 ^ (blklog p - l)"
  shows "\<exists>q. free_frag B l a p = Option.bind (free_checks (ADDRESS p B) q) (\<lambda>(block, _). free_blocks block q) \<and>
    returned p (us @ Frags l fs # vs) l {} q (us @ Big 1 # vs)"
proof -
  let ?xs = "us @ Frags l fs # vs" and ?h = "frag p + 8 * l"
  note I = heap_invD[OF inv] and E = frag_entries[OF inv us B]
  note l = E(5,6) and lt = E(8)
  note g = geometryD[OF I(2)] and H = head_facts[OF I(2) l(2)] and N = frag_count_facts[OF I(2) l(2)] frag_count[OF l(2) I(2)]
  have fs: "fs \<noteq> []" using n N(1) by auto
  obtain as bs where os: "mset (as @ (B, fs) # bs) = mset (frag_segs l 1 ?xs)"
    "chain (mem p) ?h (addrs p l as @ map (frag_addr p l B) fs @ addrs p l bs)" by (rule frags_at[OF inv us fs B])
  let ?as = "addrs p l as" and ?ws = "map (frag_addr p l B) fs" and ?rest = "addrs p l bs"
  let ?x = "frag_addr p l B (hd fs)" and ?pr = "last (?h # ?as)" and ?nxt = "first_or_null ?rest"
  have split: "addrs p l (as @ (B, fs) # bs) = ?as @ ?ws @ ?rest" by simp
  note W = node_words[OF inv l os(1), unfolded split] and out = node_outside_table(1)[OF inv l os(1), unfolded split]
  have ap: "apart ?h (?as @ ?ws @ ?rest)" using list_nodes(1)[OF inv l os(1)] unfolding split .
  have nodes_os: "nodes (addrs p l (frag_segs l 1 ?xs)) = nodes (?as @ ?ws @ ?rest)"
    using nodes_perm[OF os(1)[symmetric], of p l] unfolding split .
  have ws: "?ws = ?x # map (frag_addr p l B) (tl fs)" using fs by (cases fs) simp_all
  have x_in: "?x \<in> set (?as @ ?ws @ ?rest)" using ws by simp
  have nxt_in: "?nxt \<noteq> 0 \<Longrightarrow> ?nxt \<in> set (?as @ ?ws @ ?rest)" using first_or_null_in[of ?rest] by simp
  have at: "chain (mem p) ?pr (?ws @ ?rest)" by (rule chain_last[OF os(2)])
  have first: "mem p ?pr = ?x" "mem p (?x + 4) = ?pr" using at unfolding ws by simp_all
  have pr_out: "?pr = ?h \<or> ?pr \<in> set ?as" using last_nodes[of ?h ?as] by simp
  have pr4: "?pr \<noteq> ?x + 4"
  proof
    assume eq: "?pr = ?x + 4"
    have "?h \<noteq> ?x + 4" using ap nodes_in(2)[OF x_in] unfolding apart_def by metis
    then have "?pr \<in> set ?as" using pr_out eq by auto
    then have "?pr mod 8 = 0" using ap by (simp add: apart_def)
    moreover have "?x mod 8 = 0" using ap x_in unfolding apart_def by blast
    ultimately show False using aligned_plus_4[of ?x] eq by simp
  qed
  define p1 where "p1 = put ?pr ?nxt (freed l p)"
  define p2 where "p2 = (if ?nxt \<noteq> 0 then put (?nxt + 4) ?pr p1 else p1)"
  define p3 where "p3 = set_entry (info p) B busy_type 0 p2"
  define p4 where "p4 = set_entry (info p) B busy_size 1 p3"
  define q where "q = p4\<lparr>chunks_used := chunks_used p4 + 1, bytes_used := bytes_used p4 + of_nat (blksz p),
    chunks_free := chunks_free p4 - of_nat (2 ^ (blklog p - l)), bytes_free := bytes_free p4 - of_nat (blksz p)\<rparr>"
  have place2: "same_place p p2" by (simp add: p2_def p1_def same_place_def)
  note Q3 = set_entry_other[OF place2 I(2) lt, where j = 1 and i = "info p" and v = 0, folded p3_def, simplified]
  note Q4 = set_entry_other[OF Q3(1) I(2) lt, where j = 2 and i = "info p" and v = 1, folded p4_def, simplified]
  have place: "same_place p q" using Q4(1) by (simp add: q_def same_place_def)
  have mem2: "mem p2 = link_words ?pr ?nxt (mem p)" by (simp add: p2_def p1_def link_words_def)
  have pr_table: "\<not> in_table p ?pr" using pr_out H(1) W(2) by auto
  have "tbl p2 = tbl p"
    using pr_table W(3)[OF nxt_in] g(12) by (simp add: p2_def p1_def tbl_put)
  then have tblq: "tbl q = upd2 (upd2 (tbl p) B 1 0) B 2 1" using Q3(2) Q4(2) by (simp add: q_def)
  have memq: "mem q c = link_words ?pr ?nxt (mem p) c" if "\<not> in_table p c" for c
    using Q3(3)[OF that] Q4(3)[OF that] by (simp add: q_def mem2)
  have prev: "prev_of p0 ?x = ?pr" if "mem p0 (?x + 4) = ?pr" for p0 using that W(1)[OF x_in] by (simp add: prev_of_def)
  have "frag_after (freed l p) ?x (length fs) = ?nxt"
    using frag_after_chain[of "freed l p" ?pr ?ws ?rest] at first by simp
  then have after: "frag_after (freed l p) ?x (2 ^ (blklog p - l) - 1) = ?nxt" unfolding n[symmetric] by simp
  have "u32_sub (2 ^ (blklog p - l)) 1 = 2 ^ (blklog p - l) - 1" using N(1,2) by (simp add: u32_simps u32_lim_def)
  then have is_last: "length fs = u32_sub (2 ^ (blklog p - l)) 1" unfolding n[symmetric] by simp
  have c1: "prev_of (freed l p) ?x = ?pr" "prev_of p1 ?x = ?pr"
    by (rule prev; use first pr4 in \<open>simp add: p1_def\<close>)+
  have c2: "(if ?nxt \<noteq> 0 then put (u32_add ?nxt 4) ?pr p1 else p1) = p2" using W(1)[OF nxt_in] by (simp add: p2_def)
  have c3: "blksz p4 = blksz p" "ADDRESS q B = ADDRESS p B" using Q4(1) by (simp_all add: q_def same_place_def ADDRESS_def)
  have free: "free_frag B l a p = Option.bind (free_checks (ADDRESS q B) q) (\<lambda>(block, _). free_blocks block q)"
    unfolding free_frag_cases Let_def freed_simps E(3) E(4)[OF fs] N(4) if_P[OF is_last] after c1 p1_def[symmetric] c2
      p3_def[symmetric] p4_def[symmetric] c3(1) q_def[symmetric] by (rule refl)
  have only: "list_only p ?xs l {} q"
    unfolding list_only_def nodes_os
  proof (intro allI impI)
    fix c assume c: "\<not> in_table p c" "c \<noteq> ?h" "c \<notin> nodes (?as @ ?ws @ ?rest)"
    have "c \<noteq> ?pr" using pr_out c(2,3) nodes_in(1)[of ?pr "?as @ ?ws @ ?rest"] by auto
    moreover have "?nxt = 0 \<or> c \<noteq> ?nxt + 4" using nodes_in(2)[OF nxt_in] c(3) by blast
    ultimately show "mem q c = mem p c" using memq[OF c(1)] by (auto simp: link_words_def)
  qed
  have "chain (link_words ?pr ?nxt (mem p)) ?h (?as @ ?rest)" by (rule chain_unlink[OF os(2) ap])
  then have "chain (mem q) ?h (?as @ ?rest)" by (rule chain_frame) (use memq H(1) out in auto)
  then have "chain (mem q) ?h (addrs p l (as @ bs))" by simp
  moreover have "mset (as @ bs) = mset (frag_segs l 1 (us @ Big 1 # vs))" using os(1) fs by (simp add: B)
  moreover have "frag q = frag p" using place by (simp add: same_place_def)
  ultimately have lok: "list_ok q (us @ Big 1 # vs) l"
    unfolding list_ok_def addrs_place[OF place] by (intro exI[of _ "as @ bs"]) (simp only: simp_thms)
  have "heap_inv q (us @ Big 1 # vs)"
  proof (rule heap_inv_frag_step[OF inv us l B])
    show "ptr q = ptr p" "info_index q = info_index p" "info_limit q = info_limit p" by (simp_all add: q_def p4_def p3_def p2_def p1_def)
    have "seg_tab (tbl p) B (Frags l fs)" using I(5) B by simp
    then show "seg_tab (tbl q) B (Big 1)" by (auto simp: tblq)
    show "tbl q c k = tbl p c k" if "c \<noteq> B" for c k using that by (simp add: tblq)
    show "mem q c = mem p c" if "\<not> in_table p c" "c \<noteq> ?h" "c \<notin> nodes (addrs p l (frag_segs l 1 ?xs))" "\<not> in_block p B c" for c
      using only that unfolding list_only_def by blast
  qed (use place lok in simp_all)
  moreover have "slack q (us @ Big 1 # vs) = slack p ?xs"
  proof (rule slack_frag)
    define k where "k = length fs"
    have k: "(2::nat) ^ (blklog p - l) = k + 1" using n by (simp add: k_def)
    have c: "(2::nat) ^ blklog p div 2 ^ l = k + 1" "blksz p = k * 2 ^ l + 2 ^ l" "(2::nat) ^ blklog p = k * 2 ^ l + 2 ^ l"
      using N(3,4) g(2) unfolding k distrib_right mult_1_left by simp_all
    show "frag_slack p q (Frags l fs) (Big 1)"
      unfolding frag_slack_def chunk_used.simps byte_used.simps chunk_free.simps byte_free.simps k_def[symmetric] c
      by (simp add: q_def p4_def p3_def p2_def p1_def freed_def k c(2))
    show "blklog q = blklog p" using place by (simp add: same_place_def)
  qed
  moreover have "ptr q = ptr p" "info_limit q = info_limit p" by (simp_all add: q_def p4_def p3_def p2_def p1_def)
  ultimately show ?thesis using free place only unfolding returned_def c3(2) by blast
qed

end
