(* ===== verification/HeapLive.thy ===== *)
theory HeapLive
  imports HeapFree
begin

text \<open>
  The objects that the clients of a pool hold, and what allocating and freeing do to them.
\<close>

declare One_nat_def [simp del]

section \<open>Objects\<close>

text \<open>Each object is an address and a size. The table is not an object of the clients.\<close>

primrec seg_objects :: "pool \<Rightarrow> nat \<Rightarrow> seg \<Rightarrow> (nat \<times> nat) list" where
  "seg_objects p b (Free n) = []"
| "seg_objects p b (Big n) = [(base p + (b - 1) * blksz p, n * blksz p)]"
| "seg_objects p b (Frags l fs) = map (\<lambda>i. (frag_addr p l b i, 2 ^ l)) (filter (\<lambda>i. i \<notin> set fs) [0..<2 ^ (blklog p - l)])"

primrec objects :: "pool \<Rightarrow> nat \<Rightarrow> seg list \<Rightarrow> (nat \<times> nat) list" where
  "objects p b [] = []"
| "objects p b (s # xs) = seg_objects p b s @ objects p (b + width s) xs"

definition live :: "pool \<Rightarrow> seg list \<Rightarrow> (nat \<times> nat) set" where
  "live p xs = set (objects p (1 + width (hd xs)) (tl xs))"

lemma objects_append [simp]: "objects p b (us @ vs) = objects p b us @ objects p (b + widths us) vs"
  by (induction us arbitrary: b) (simp_all add: add.assoc)

lemma live_append: "us \<noteq> [] \<Longrightarrow> live p (us @ vs) = live p us \<union> set (objects p (1 + widths us) vs)"
  by (cases us) (simp_all add: live_def add.assoc)

lemma seg_objects_place: "same_place p q \<Longrightarrow> seg_objects q b s = seg_objects p b s"
  by (cases s) (simp_all add: same_place_def frag_addr_def)

lemma objects_place: "same_place p q \<Longrightarrow> objects q b xs = objects p b xs"
  by (induction xs arbitrary: b) (simp_all add: seg_objects_place)

lemma live_place: "same_place p q \<Longrightarrow> live q xs = live p xs"
  by (simp add: live_def objects_place)

text \<open>The objects of a segment are within its blocks.\<close>

lemma seg_objects_range:
  assumes geo: "geometry p" and ok: "seg_ok p s" and pos: "0 < width s" "0 < b" and o: "(a, c) \<in> set (seg_objects p b s)"
  shows "base p + (b - 1) * blksz p \<le> a" "a + c \<le> base p + (b - 1 + width s) * blksz p" "0 < c" "8 \<le> c" "a mod 8 = 0"
proof -
  note g = geometryD[OF geo]
  have "8 dvd blksz p" using le_imp_power_dvd[of 3 "blklog p" "2::nat"] g(2,3) by simp
  then have al: "(base p + k * blksz p) mod 8 = 0" for k using g(4) by (metis dvd_add dvd_mult dvd_trans mod_0_imp_dvd dvd_imp_mod_0)
  have "base p + (b - 1) * blksz p \<le> a \<and> a + c \<le> base p + (b - 1 + width s) * blksz p \<and> 8 \<le> c \<and> a mod 8 = 0"
  proof (cases s)
    case (Big n)
    then have o': "a = base p + (b - 1) * blksz p" "c = n * blksz p" "0 < n" using o pos by simp_all
    have "1 * blksz p \<le> n * blksz p" using o'(3) by (intro mult_le_mono1) simp
    then have "8 \<le> c" using o'(2) g(13) by linarith
    moreover have "(b - 1 + n) * blksz p = (b - 1) * blksz p + n * blksz p" by (rule distrib_right)
    ultimately show ?thesis using o' al[of "b - 1"] Big by simp
  next
    case (Frags l fs)
    then obtain i where i: "i < 2 ^ (blklog p - l)" "a = frag_addr p l b i" "c = 2 ^ l" using o by auto
    have l: "3 \<le> l" "l < blklog p" using ok Frags by simp_all
    have "(b - 1 + width s) * blksz p = (b - 1) * blksz p + blksz p" using Frags by (simp add: algebra_simps)
    then show ?thesis using frag_room[OF geo l i(1)] i(2,3) frag_aligned[OF geo l(1)] by (simp add: frag_addr_def)
  qed (use o in simp)
  then show "base p + (b - 1) * blksz p \<le> a" "a + c \<le> base p + (b - 1 + width s) * blksz p" "8 \<le> c" "a mod 8 = 0" by blast+
  then show "0 < c" by linarith
qed

lemma objects_range:
  assumes "geometry p" "\<And>s. s \<in> set xs \<Longrightarrow> seg_ok p s" "full xs" "0 < b" "(a, c) \<in> set (objects p b xs)"
  shows "base p + (b - 1) * blksz p \<le> a \<and> a + c \<le> base p + (b - 1 + widths xs) * blksz p \<and> 8 \<le> c \<and> a mod 8 = 0"
  using assms(2-5)
proof (induction xs arbitrary: b)
  case (Cons s xs)
  have s: "seg_ok p s" "0 < width s" "full xs" using Cons.prems by (auto simp: full_def)
  show ?case
  proof (cases "(a, c) \<in> set (seg_objects p b s)")
    case True
    have "base p + (b - 1 + width s) * blksz p \<le> base p + (b - 1 + widths (s # xs)) * blksz p" by (simp add: algebra_simps)
    then show ?thesis using seg_objects_range[OF assms(1) s(1,2) Cons.prems(3) True] by linarith
  next
    case False
    then have "(a, c) \<in> set (objects p (b + width s) xs)" using Cons.prems(4) by simp
    moreover have "0 < b + width s" using s(2) by simp
    moreover have "\<And>t. t \<in> set xs \<Longrightarrow> seg_ok p t" using Cons.prems(1) by simp
    ultimately have r: "base p + (b + width s - 1) * blksz p \<le> a \<and> a + c \<le> base p + (b + width s - 1 + widths xs) * blksz p \<and> 8 \<le> c \<and> a mod 8 = 0"
      using Cons.IH[OF _ s(3), of "b + width s"] by presburger
    have "b + width s - 1 = b - 1 + width s" using Cons.prems(3) by simp
    then have e: "b + width s - 1 + widths xs = b - 1 + widths (s # xs)" by simp
    have "(b - 1) * blksz p \<le> (b + width s - 1) * blksz p" by (rule mult_le_mono1) simp
    then show ?thesis using r unfolding e by linarith
  qed
qed simp

lemma objects_in:
  assumes "(a, c) \<in> set (objects p b xs)"
  shows "\<exists>us s vs. xs = us @ s # vs \<and> (a, c) \<in> set (seg_objects p (b + widths us) s)"
  using assms
proof (induction xs arbitrary: b)
  case (Cons s xs)
  show ?case
  proof (cases "(a, c) \<in> set (seg_objects p b s)")
    case True
    then have "s # xs = [] @ s # xs \<and> (a, c) \<in> set (seg_objects p (b + widths []) s)" by simp
    then show ?thesis by blast
  next
    case False
    then have "(a, c) \<in> set (objects p (b + width s) xs)" using Cons.prems by simp
    then obtain us t vs where "xs = us @ t # vs" "(a, c) \<in> set (seg_objects p (b + width s + widths us) t)" using Cons.IH by blast
    then have "s # xs = (s # us) @ t # vs \<and> (a, c) \<in> set (seg_objects p (b + widths (s # us)) t)" by (simp add: add.assoc)
    then show ?thesis by blast
  qed
qed simp

lemma live_in:
  assumes "xs \<noteq> []" "(a, c) \<in> live p xs"
  obtains us s vs where "xs = us @ s # vs" "us \<noteq> []" "(a, c) \<in> set (seg_objects p (1 + widths us) s)"
proof -
  obtain x ys where xs: "xs = x # ys" using assms(1) by (cases xs) auto
  then have "(a, c) \<in> set (objects p (1 + width x) ys)" using assms(2) by (simp add: live_def)
  from objects_in[OF this] obtain us s vs where "ys = us @ s # vs" "(a, c) \<in> set (seg_objects p (1 + width x + widths us) s)" by blast
  then have "xs = (x # us) @ s # vs" "(a, c) \<in> set (seg_objects p (1 + widths (x # us)) s)" using xs by (simp_all add: add.assoc)
  then show ?thesis using that by blast
qed

text \<open>The objects before, of and after a segment.\<close>

lemma live_split:
  assumes inv: "heap_inv p (us @ s # vs)" and us: "us \<noteq> []"
  shows "live p (us @ s # vs) = live p us \<union> set (seg_objects p (1 + widths us) s) \<union> set (objects p (1 + widths us + width s) vs)"
    "(a, c) \<in> live p us \<Longrightarrow> a + c \<le> base p + widths us * blksz p \<and> 8 \<le> c \<and> a mod 8 = 0 \<and> base p + 16 * info_size p \<le> a"
    "(a, c) \<in> set (seg_objects p (1 + widths us) s) \<Longrightarrow>
      base p + widths us * blksz p \<le> a \<and> a + c \<le> base p + (widths us + width s) * blksz p \<and> 8 \<le> c \<and> a mod 8 = 0"
    "(a, c) \<in> set (objects p (1 + widths us + width s) vs) \<Longrightarrow> base p + (widths us + width s) * blksz p \<le> a \<and>
       8 \<le> c \<and> a mod 8 = 0 \<and> a + c \<le> heap_end p (us @ s # vs)"
proof -
  note I = heap_invD[OF inv] and S = seg_block[OF inv us]
  have full: "full (us @ s # vs)" by (rule tab_full[OF I(5)])
  show "live p (us @ s # vs) = live p us \<union> set (seg_objects p (1 + widths us) s) \<union> set (objects p (1 + widths us + width s) vs)"
    using us by (simp add: live_append add.assoc Un_assoc)
  have ok: "seg_ok p t" if "t \<in> set (us @ s # vs)" for t using I(7)[OF that] .
  have full': "full us" "0 < width s" "full vs" using full by (auto simp: full_def)
  show "(a, c) \<in> set (seg_objects p (1 + widths us) s) \<Longrightarrow>
      base p + widths us * blksz p \<le> a \<and> a + c \<le> base p + (widths us + width s) * blksz p \<and> 8 \<le> c \<and> a mod 8 = 0"
    using seg_objects_range[OF I(2) ok[of s] full'(2), of "1 + widths us" a c] by simp
  show "base p + (widths us + width s) * blksz p \<le> a \<and> 8 \<le> c \<and> a mod 8 = 0 \<and> a + c \<le> heap_end p (us @ s # vs)"
    if o: "(a, c) \<in> set (objects p (1 + widths us + width s) vs)"
  proof -
    have "seg_ok p t" if "t \<in> set vs" for t using ok that by simp
    from objects_range[OF I(2) this full'(3) _ o] show ?thesis by (simp add: heap_end_def algebra_simps)
  qed
  show "a + c \<le> base p + widths us * blksz p \<and> 8 \<le> c \<and> a mod 8 = 0 \<and> base p + 16 * info_size p \<le> a" if o: "(a, c) \<in> live p us"
  proof -
    obtain ts where u: "us = Big (table_blocks p) # ts" using S(3) by blast
    have "seg_ok p t" if "t \<in> set ts" for t using ok u that by simp
    moreover have "full ts" using full' u by (simp add: full_def)
    moreover have "(a, c) \<in> set (objects p (1 + table_blocks p) ts)" using o u by (simp add: live_def)
    ultimately have "base p + table_blocks p * blksz p \<le> a \<and> a + c \<le> base p + (table_blocks p + widths ts) * blksz p \<and> 8 \<le> c \<and> a mod 8 = 0"
      using objects_range[OF I(2), of ts "1 + table_blocks p" a c] by simp
    then show ?thesis using table_blocks_cover[OF I(2)] u by auto
  qed
qed

section \<open>Objects do not overlap\<close>

lemma seg_objects_apart:
  assumes "geometry p" "(a, c) \<in> set (seg_objects p b s)" "(a', c') \<in> set (seg_objects p b s)" "(a, c) \<noteq> (a', c')"
  shows "a + c \<le> a' \<or> a' + c' \<le> a"
proof (cases s)
  case (Frags l fs)
  then obtain i j where ij: "a = frag_addr p l b i" "a' = frag_addr p l b j" "c = 2 ^ l" "c' = 2 ^ l" using assms by auto
  then have "i \<noteq> j" using assms(4) by auto
  then consider "i + 1 \<le> j" | "j + 1 \<le> i" by linarith
  then show ?thesis
  proof cases
    case 1
    from mult_le_mono1[OF this, of "2 ^ l"] show ?thesis using ij by (simp add: frag_addr_def algebra_simps)
  next
    case 2
    from mult_le_mono1[OF this, of "2 ^ l"] show ?thesis using ij by (simp add: frag_addr_def algebra_simps)
  qed
qed (use assms in simp_all)

lemma live_apart:
  assumes inv: "heap_inv p xs" and o: "(a, c) \<in> live p xs" "(a', c') \<in> live p xs" "(a, c) \<noteq> (a', c')"
  shows "a + c \<le> a' \<or> a' + c' \<le> a"
proof -
  obtain us s vs where x: "xs = us @ s # vs" "us \<noteq> []" "(a, c) \<in> set (seg_objects p (1 + widths us) s)"
    by (rule live_in[OF heap_invD(9)[OF inv] o(1)])
  note V = live_split[OF inv[unfolded x(1)] x(2)]
  have r: "base p + widths us * blksz p \<le> a" "a + c \<le> base p + (widths us + width s) * blksz p" using V(3)[OF x(3)] by simp_all
  consider "(a', c') \<in> live p us" | "(a', c') \<in> set (seg_objects p (1 + widths us) s)" |
    "(a', c') \<in> set (objects p (1 + widths us + width s) vs)" using o(2) V(1) x(1) by blast
  then show ?thesis
  proof cases
    case 1
    then show ?thesis using V(2)[OF 1] r by linarith
  next
    case 2
    then show ?thesis by (rule seg_objects_apart[OF heap_invD(2)[OF inv] x(3) _ o(3)])
  next
    case 3
    then show ?thesis using V(4)[OF 3] r by linarith
  qed
qed

lemma live_bounds:
  assumes inv: "heap_inv p xs" and o: "(a, c) \<in> live p xs"
  shows "base p + 16 * info_size p \<le> a" "a + c \<le> heap_end p xs" "8 \<le> c" "a mod 8 = 0" "a + c < u32_lim" "2147483648 \<le> a"
proof -
  obtain us s vs where x: "xs = us @ s # vs" "us \<noteq> []" "(a, c) \<in> set (seg_objects p (1 + widths us) s)"
    by (rule live_in[OF heap_invD(9)[OF inv] o])
  note V = live_split[OF inv[unfolded x(1)] x(2)] and I = heap_invD[OF inv] and S = seg_block[OF inv[unfolded x(1)] x(2)]
  note r = V(3)[OF x(3)]
  have "table_blocks p * blksz p \<le> widths us * blksz p" using S(1) by (intro mult_le_mono1) simp
  then show "base p + 16 * info_size p \<le> a" using table_blocks_cover[OF I(2)] r by linarith
  have "(widths us + width s) * blksz p \<le> blksz p * widths xs" using x(1) by (simp add: mult.commute)
  then show e: "a + c \<le> heap_end p xs" using r unfolding heap_end_def by linarith
  show "8 \<le> c" "a mod 8 = 0" using r by simp_all
  show "a + c < u32_lim" using e heap_end_facts(4)[OF I(2,4)] by linarith
  have "base p \<le> a" using r by linarith
  then show "2147483648 \<le> a" using geometryD(5)[OF I(2)] by linarith
qed

text \<open>A word of an object is no word of the table, of a list head or of a free fragment.\<close>

lemma live_word:
  assumes inv: "heap_inv p xs" and o: "(a, c) \<in> live p xs" "a \<le> w" "w < a + c" and l: "3 \<le> l" "l < blklog p"
  shows "\<not> in_table p w" "base p \<le> w" "w \<noteq> frag p + 8 * l" "w \<notin> nodes (addrs p l (frag_segs l 1 xs))"
proof -
  note I = heap_invD[OF inv] and L = live_bounds[OF inv o(1)]
  show "\<not> in_table p w" "base p \<le> w" using L(1) o(2) geometryD(1)[OF I(2)] by (simp_all add: in_table_def)
  then show "w \<noteq> frag p + 8 * l" using head_facts(3)[OF I(2) l(2)] by simp
  show "w \<notin> nodes (addrs p l (frag_segs l 1 xs))"
  proof
    assume "w \<in> nodes (addrs p l (frag_segs l 1 xs))"
    then obtain x where x: "x \<in> set (addrs p l (frag_segs l 1 xs))" "w = x \<or> w = x + 4" unfolding nodes_def by blast
    then obtain b fs i where b: "(b, fs) \<in> set (frag_segs l 1 xs)" "i \<in> set fs" "x = frag_addr p l b i" unfolding in_addrs by blast
    obtain us vs where u: "xs = us @ Frags l fs # vs" "b = 1 + widths us" by (rule list_block[OF refl b(1)])
    have us: "us \<noteq> []" using I(10) u(1) by auto
    note V = live_split[OF inv[unfolded u(1)] us] and S = seg_block[OF inv[unfolded u(1)] us]
    have i: "i < 2 ^ (blklog p - l)" using I(7)[of "Frags l fs"] u(1) b(2) by simp
    note R = frag_room[OF I(2) l i]
    have w: "x \<le> w" "w < x + 2 ^ l" using x(2) R(2) by auto
    have x_range: "base p + widths us * blksz p \<le> x" "x + 2 ^ l \<le> base p + (widths us + 1) * blksz p"
      using b(3) u(2) R(1) by (simp_all add: frag_addr_def distrib_right)
    consider "(a, c) \<in> live p us" | "(a, c) \<in> set (seg_objects p (1 + widths us) (Frags l fs))" |
      "(a, c) \<in> set (objects p (1 + widths us + width (Frags l fs)) vs)" using o(1) V(1) u(1) by blast
    then show False
    proof cases
      case 1
      from V(2)[OF this] show False using o(3) w x_range by linarith
    next
      case 2
      then obtain j where j: "j \<notin> set fs" "a = frag_addr p l (1 + widths us) j" "c = 2 ^ l" by auto
      then have "j \<noteq> i" using b(2) by blast
      then consider "i + 1 \<le> j" | "j + 1 \<le> i" by linarith
      then show False
      proof cases
        case 1
        from mult_le_mono1[OF this, of "2 ^ l"] show False using o(2,3) w j b(3) u(2) by (simp add: frag_addr_def algebra_simps)
      next
        case 2
        from mult_le_mono1[OF this, of "2 ^ l"] show False using o(2,3) w j b(3) u(2) by (simp add: frag_addr_def algebra_simps)
      qed
    next
      case 3
      from V(4)[OF this] show False using o(2) w x_range by (simp only: width.simps) linarith
    qed
  qed
qed

end
