(* ===== verification/HeapCalls.thy ===== *)
theory HeapCalls
  imports HeapLive
begin

text \<open>
  Freeing and allocating: exactly the objects that are held can be freed, and what either call does
  to the set of objects and to their words.
\<close>

declare One_nat_def [simp del]

section \<open>The checks\<close>

lemma seg_find: "full xs \<Longrightarrow> c < widths xs \<Longrightarrow> \<exists>us s vs. xs = us @ s # vs \<and> widths us \<le> c \<and> c < widths us + width s"
proof (induction xs arbitrary: c)
  case (Cons s xs)
  show ?case
  proof (cases "c < width s")
    case True
    then have "s # xs = [] @ s # xs \<and> widths [] \<le> c \<and> c < widths [] + width s" by simp
    then show ?thesis by blast
  next
    case False
    then have "full xs" "c - width s < widths xs" using Cons.prems by (auto simp: full_def)
    then obtain us t vs where "xs = us @ t # vs" "widths us \<le> c - width s" "c - width s < widths us + width t" using Cons.IH by blast
    then have "s # xs = (s # us) @ t # vs \<and> widths (s # us) \<le> c \<and> c < widths (s # us) + width t" using False by auto
    then show ?thesis by blast
  qed
qed simp

text \<open>The end of the used part once there is an object.\<close>

lemma ptr_end:
  assumes inv: "heap_inv p xs"
  shows "length xs \<noteq> 1 \<Longrightarrow> ptr p = heap_end p xs" "ptr p \<le> heap_end p xs" "heap_end p xs < ptr p + blksz p"
proof -
  note I = heap_invD[OF inv]
  have "heap_end p xs \<noteq> pool_top p" using heap_end_facts(1)[OF I(2,4)] I(6) by auto
  then show "length xs \<noteq> 1 \<Longrightarrow> ptr p = heap_end p xs" "ptr p \<le> heap_end p xs" "heap_end p xs < ptr p + blksz p"
    using I(4) by (auto simp: ends_def)
qed

lemma used_chain:
  assumes inv: "heap_inv p (us @ Frags l fs # vs)" and us: "us \<noteq> []" and B: "B = 1 + widths us"
  shows "frag_is_used p a (first_frag p B l) (length fs) \<longleftrightarrow> a \<notin> frag_addr p l B ` set fs"
proof (cases "fs = []")
  case False
  note I = heap_invD[OF inv] and E = frag_entries[OF inv us B]
  obtain as bs where os: "mset (as @ (B, fs) # bs) = mset (frag_segs l 1 (us @ Frags l fs # vs))"
    "chain (mem p) (frag p + 8 * l) (addrs p l as @ map (frag_addr p l B) fs @ addrs p l bs)" by (rule frags_at[OF inv us False B])
  let ?pr = "last ((frag p + 8 * l) # addrs p l as)"
  have at: "chain (mem p) ?pr (map (frag_addr p l B) fs @ addrs p l bs)" by (rule chain_last[OF os(2)])
  have "mem p ?pr = first_frag p B l" using at False E(4) by (cases fs) simp_all
  moreover have "2147483648 \<le> w" if w: "w \<in> set (map (frag_addr p l B) fs)" for w
  proof -
    have "base p \<le> w" using w by (auto simp: frag_addr_def)
    then show ?thesis using geometryD(5)[OF I(2)] by linarith
  qed
  ultimately show ?thesis using frag_is_used_chain[OF at, of a] by simp
qed simp

lemma frag_of_addr:
  assumes geo: "geometry p" and l: "l < blklog p" and a: "base p \<le> a" "a < u32_lim" "a mod 2 ^ l = 0"
  shows "\<exists>i < 2 ^ (blklog p - l). a = frag_addr p l (BLOCK p a) i"
proof -
  note g = geometryD[OF geo] and N = frag_count_facts[OF geo l]
  define d where "d = a - base p"
  have "(2::nat) ^ l dvd blksz p" using N(3) by (metis dvd_triv_right)
  moreover have "blksz p dvd base p" using g(4) by (simp add: mod_eq_0_iff_dvd)
  ultimately have "2 ^ l dvd base p" using dvd_trans by blast
  then have "2 ^ l dvd d" using a(1,3) unfolding d_def by (intro dvd_diff_nat) (simp_all add: mod_eq_0_iff_dvd)
  then have e: "2 ^ l dvd d mod blksz p" using \<open>2 ^ l dvd blksz p\<close> by (simp add: dvd_mod)
  define i where "i = d mod blksz p div 2 ^ l"
  have "d mod blksz p = i * 2 ^ l" using e unfolding i_def by simp
  moreover have "BLOCK p a - 1 = d div blksz p" using a g(6,7) by (simp add: BLOCK_def d_def u32_simps)
  ultimately have "a = frag_addr p l (BLOCK p a) i" using a(1) div_mult_mod_eq[of d "blksz p"] by (simp add: frag_addr_def d_def)
  moreover have "i < 2 ^ (blklog p - l)"
  proof -
    have "d mod blksz p < 2 ^ (blklog p - l) * 2 ^ l" using N(3) g(13) by simp
    then show ?thesis unfolding i_def by (simp add: less_mult_imp_div_less)
  qed
  ultimately show ?thesis by blast
qed

text \<open>The entry of a block inside an object of whole blocks.\<close>

lemma inside_big:
  assumes "seg_tab T b (Big n)" "b < c" "c < b + n" "n < 134217728"
  shows "T c 0 = 1" "T c 1 = 0" "2147483648 \<le> T c 2"
proof -
  obtain i where i: "c = b + i" "0 < i" "i < n" using assms(2,3) less_imp_add_positive by (metis add_less_cancel_left)
  then show "T c 0 = 1" "T c 1 = 0" using assms(1) by simp_all
  show "2147483648 \<le> T c 2" using assms(1) i by simp
qed

lemma checks_live:
  assumes inv: "heap_inv p (us @ s # vs)" and us: "us \<noteq> []" and o: "(a, c) \<in> set (seg_objects p (1 + widths us) s)"
  shows "free_checks a p = Some (1 + widths us, case s of Frags l fs \<Rightarrow> l | _ \<Rightarrow> 0)"
proof -
  note I = heap_invD[OF inv] and S = seg_block[OF inv us] and V = live_split[OF inv us]
  note g = geometryD[OF I(2)]
  have live: "(a, c) \<in> live p (us @ s # vs)" using o V(1) by blast
  note L = live_bounds[OF inv live]
  have len: "length (us @ s # vs) \<noteq> 1" using us by (cases us) simp_all
  have ptr: "a < ptr p" using ptr_end(1)[OF inv len] L(2,3) by linarith
  have low: "base p \<le> a" "\<not> (info p \<le> a \<and> a < info_end p)" using L(1) g(8) by simp_all
  have block: "BLOCK p a = 1 + widths us"
  proof -
    have "in_block p (1 + widths us) a"
    proof (cases s)
      case (Big n)
      then show ?thesis using o g(13) by (simp add: in_block_def distrib_right)
    next
      case (Frags l fs)
      then show ?thesis using V(3)[OF o] by (simp add: in_block_def add.commute)
    qed (use o in simp)
    then show ?thesis using BLOCK_of[OF I(2)] L(3,5) by simp
  qed
  show ?thesis
  proof (cases s)
    case (Big n)
    have seg: "seg_tab (tbl p) (1 + widths us) (Big n)" using I(5) Big by simp
    then have e: "entry (info p) (1 + widths us) 0 p = 1" "entry (info p) (1 + widths us) 1 p = 0" "entry (info p) (1 + widths us) 2 p = n"
      using S(4) by (simp_all add: entry_at)
    have "ADDRESS p (1 + widths us) = a" using o Big block_addr(1)[OF I(2), of "1 + widths us"] S(4) by simp
    moreover have "n < 2147483648" using S(6) Big g(14) by simp
    ultimately show ?thesis using low ptr Big by (simp add: free_checks_def Let_def block e)
  next
    case (Frags l fs)
    note inv' = inv[unfolded Frags]
    note E = frag_entries[OF inv' us refl]
    obtain i where i: "a = frag_addr p l (1 + widths us) i" "i \<notin> set fs" using o Frags by auto
    have "a mod 2 ^ l = 0"
    proof -
      have "(2::nat) ^ l dvd blksz p" using frag_count_facts(3)[OF I(2) E(6)] by (metis dvd_triv_right)
      moreover have "blksz p dvd base p" using g(4) by (simp add: mod_eq_0_iff_dvd)
      ultimately have "2 ^ l dvd base p" "(2::nat) ^ l dvd blksz p" using dvd_trans by blast+
      then have "2 ^ l dvd a" unfolding i(1) frag_addr_def by (intro dvd_add) simp_all
      then show ?thesis by simp
    qed
    moreover have "a \<notin> frag_addr p l (1 + widths us) ` set fs" using i frag_addr_inj by blast
    ultimately show ?thesis using low ptr Frags E(5) used_chain[OF inv' us refl, of a]
      by (simp add: free_checks_def Let_def block E(1-3))
  qed (use o in simp)
qed

lemma checks_not_live:
  assumes inv: "heap_inv p xs" and a: "a \<notin> fst ` live p xs" "a \<noteq> ptr p"
  shows "free_checks a p = None"
proof (cases "base p \<le> a \<and> a < ptr p \<and> info_end p \<le> a")
  case False
  then show ?thesis using a(2) geometryD(1)[OF heap_invD(2)[OF inv]] by (auto simp: free_checks_def Let_def)
next
  case True
  note I = heap_invD[OF inv]
  note g = geometryD[OF I(2)]
  define B where "B = BLOCK p a"
  have top: "a < heap_end p xs" "a < u32_lim" using True ptr_end(2)[OF inv] heap_end_facts(4)[OF I(2,4)] by simp_all
  have B: "B - 1 = (a - base p) div blksz p" "0 < B" using True top g(6,7) by (simp_all add: B_def BLOCK_def u32_simps)
  have full: "full xs" by (rule tab_full[OF I(5)])
  have "a - base p < widths xs * blksz p" using top(1) True by (simp add: heap_end_def mult.commute less_diff_conv2 add.commute)
  then have "(a - base p) div blksz p < widths xs" by (rule less_mult_imp_div_less)
  then obtain us s vs where x: "xs = us @ s # vs" "widths us \<le> B - 1" "B - 1 < widths us + width s" using seg_find[OF full] B(1) by metis
  have wid: "widths xs < info_size p" using table_invD(4)[OF I(3)] .
  have lt: "B < info_size p" using x wid B(2) by simp
  have seg: "seg_tab (tbl p) (1 + widths us) s" using I(5) x(1) by simp
  have e: "entry (info p) B j p = tbl p B j" if "j < 4" for j using lt that by (simp add: entry_at)
  have inside: "1 + widths us = B \<or> 1 + widths us < B \<and> B < 1 + widths us + width s" using x(2,3) B(2) by linarith
  show ?thesis
  proof (cases s)
    case (Free n)
    obtain i where "B = 1 + widths us + i" "i < n" using inside x(3) B(2) Free by (metis add.right_neutral le_add_diff_inverse less_imp_le nat_add_left_cancel_less width.simps(1) less_trans seg seg_tab_width)
    then have "tbl p B 0 = 0" using seg Free by simp
    then show ?thesis using True by (simp add: free_checks_def Let_def B_def[symmetric] e)
  next
    case (Big n)
    have small: "n < 134217728" using x(1) wid g(14) Big by simp
    show ?thesis
    proof (cases "1 + widths us = B")
      case True
      have "a \<noteq> ADDRESS p B"
      proof (cases "us = []")
        case True
        then have "ADDRESS p B = base p" using block_addr(1)[OF I(2), of B] lt \<open>1 + widths us = B\<close> by simp
        moreover have "base p < info_end p" using g(8,10) by simp
        ultimately show ?thesis using \<open>base p \<le> a \<and> a < ptr p \<and> info_end p \<le> a\<close> by simp
      next
        case False
        have addr: "ADDRESS p B = base p + (B - 1) * blksz p" by (rule block_addr(1)[OF I(2)]) (use lt B(2) in simp_all)
        have "(ADDRESS p B, n * blksz p) \<in> live p xs"
          using live_split(1)[OF inv[unfolded x(1)] False] x(1) Big addr True by auto
        then show ?thesis using a(1) by force
      qed
      then show ?thesis using seg Big True \<open>base p \<le> a \<and> a < ptr p \<and> info_end p \<le> a\<close>
        by (auto simp: free_checks_def Let_def B_def[symmetric] e)
    next
      case False
      then have "tbl p B 0 = 1" "tbl p B 1 = 0" "2147483648 \<le> tbl p B 2"
        using inside_big[of "tbl p" "1 + widths us" n B] seg Big inside small by auto
      then show ?thesis using True by (simp add: free_checks_def Let_def B_def[symmetric] e)
    qed
  next
    case (Frags l fs)
    have us: "us \<noteq> []" using I(10) x(1) Frags by auto
    have B': "B = 1 + widths us" using x(2,3) B(2) Frags by simp
    note inv' = inv[unfolded x(1) Frags]
    note E = frag_entries[OF inv' us B']
    show ?thesis
    proof (cases "a mod 2 ^ l = 0")
      case False
      then show ?thesis using True E(1-3,5) by (simp add: free_checks_def Let_def B_def[symmetric])
    next
      case al: True
      obtain i where i: "i < 2 ^ (blklog p - l)" "a = frag_addr p l B i" using frag_of_addr[OF I(2) E(6) _ top(2) al] True B_def by blast
      have "i \<in> set fs"
      proof (rule ccontr)
        assume "i \<notin> set fs"
        then have "(a, 2 ^ l) \<in> set (seg_objects p (1 + widths us) (Frags l fs))" using i B' by simp
        then have "(a, 2 ^ l) \<in> live p xs" using live_split(1)[OF inv[unfolded x(1)] us] x(1) Frags by blast
        then show False using a(1) by force
      qed
      then have "\<not> frag_is_used p a (first_frag p B l) (length fs)" using used_chain[OF inv' us B'] i(2) by blast
      then show ?thesis using True al E(1-3,5) by (simp add: free_checks_def Let_def B_def[symmetric])
    qed
  qed
qed

section \<open>Freeing\<close>

definition kept :: "pool \<Rightarrow> pool \<Rightarrow> (nat \<times> nat) set \<Rightarrow> bool" where
  "kept p q L \<longleftrightarrow> (\<forall>(a, c)\<in>L. \<forall>w. a \<le> w \<and> w < a + c \<longrightarrow> mem q w = mem p w)"

lemma kept_table_only: "heap_inv p xs \<Longrightarrow> table_only p q \<Longrightarrow> kept p q (live p xs)"
  using live_word(1)[of p xs _ _ _ 3] heap_invD(2)[of p xs] geometryD(3)[of p] by (fastforce simp: kept_def table_onlyD(9))

lemma kept_trans: "kept p q L \<Longrightarrow> kept q r M \<Longrightarrow> N \<subseteq> L \<Longrightarrow> N \<subseteq> M \<Longrightarrow> kept p r N"
  unfolding kept_def by fastforce

lemma same_place_trans: "same_place p q \<Longrightarrow> same_place q r \<Longrightarrow> same_place p r"
  by (simp add: same_place_def)

lemma table_only_place: "table_only p q \<Longrightarrow> same_place p q"
  by (simp add: table_only_def)

text \<open>An object of whole blocks.\<close>

lemma free_whole_layout:
  assumes inv: "heap_inv p (us @ Big n # vs)" and us: "us \<noteq> []"
  shows "\<exists>q ys. free_blocks (1 + widths us) p = Some q \<and> heap_inv q ys \<and> table_only p q \<and>
    slack q ys = slack p (us @ Big n # vs) \<and> live q ys = live p us \<union> set (objects p (1 + widths us + n) vs) \<and>
    (info_limit p = 0 \<longrightarrow> (\<exists>ls k rs m. (k = 0 \<and> us = ls \<or> us = ls @ [Free k]) \<and> (m = 0 \<and> vs = rs \<or> vs = Free m # rs) \<and>
       ys = ls @ Free (k + n + m) # rs \<and> info_index q = 1 + widths ls \<and> info_limit q = 0))"
proof -
  let ?xs = "us @ Big n # vs"
  note I = heap_invD[OF inv] and S = seg_block[OF inv us]
  obtain q ys ls k rs m where q: "free_blocks (1 + widths us) p = Some q" "blocks_inv q ys" "table_only p q" "slack q ys = slack p ?xs"
    "k = 0 \<and> us = ls \<or> us = ls @ [Free k]" "m = 0 \<and> vs = rs \<or> vs = Free m # rs"
    "ys = ls @ Free (k + n + m) # rs \<and> info_index q = 1 + widths ls \<and> info_limit q = info_limit p \<or> rs = [] \<and> ys = ls \<and> info_limit p \<noteq> 0"
    using free_blocks_ok[OF I(1) us] by blast
  obtain ts where ls: "ls = Big (table_blocks p) # ts" using q(5) S(3) us by (cases ls) auto
  note place = table_only_place[OF q(3)]
  have "heap_inv q ys"
  proof (rule heap_inv_table_only[OF inv q(2,3)])
    show "hd ys = hd ?xs" "ys \<noteq> []" using q(5,7) ls by auto
    have sub: "set ys \<subseteq> set ?xs \<union> {Free (k + n + m)}" using q(5,6,7) by auto
    show "seg_ok p s" if "s \<in> set ys" for s
      using subsetD[OF sub that] I(7)[of s] by auto
    show "frag_segs l 1 ys = frag_segs l 1 ?xs" for l using q(5,6,7) by (auto simp: add.assoc)
  qed
  moreover have "live q ys = live p us \<union> set (objects p (1 + widths us + n) vs)"
  proof -
    have "live p us = live p ls" "set (objects p (1 + widths us + n) vs) = set (objects p (1 + widths ls + (k + n + m)) rs)"
      using q(5,6) ls live_append[of ls p] by (auto simp: add.assoc)
    moreover have "live q ys = live p ls \<union> set (objects p (1 + widths ls + (k + n + m)) rs)"
      using q(7) ls live_append[of ls p] live_place[OF place] by auto
    ultimately show ?thesis by simp
  qed
  moreover have "info_limit p = 0 \<longrightarrow> (\<exists>ls k rs m. (k = 0 \<and> us = ls \<or> us = ls @ [Free k]) \<and> (m = 0 \<and> vs = rs \<or> vs = Free m # rs) \<and>
       ys = ls @ Free (k + n + m) # rs \<and> info_index q = 1 + widths ls \<and> info_limit q = 0)"
  proof
    assume "info_limit p = 0"
    then show "\<exists>ls k rs m. (k = 0 \<and> us = ls \<or> us = ls @ [Free k]) \<and> (m = 0 \<and> vs = rs \<or> vs = Free m # rs) \<and>
       ys = ls @ Free (k + n + m) # rs \<and> info_index q = 1 + widths ls \<and> info_limit q = 0"
      using q(5,6,7) by (intro exI[of _ ls] exI[of _ k] exI[of _ rs] exI[of _ m]) simp
  qed
  moreover note q(1,3,4)
  ultimately show ?thesis by (intro exI[of _ q] exI[of _ ys] conjI)
qed

lemma free_whole:
  assumes inv: "heap_inv p (us @ Big n # vs)" and us: "us \<noteq> []"
  shows "\<exists>q ys. free_blocks (1 + widths us) p = Some q \<and> heap_inv q ys \<and> table_only p q \<and>
    slack q ys = slack p (us @ Big n # vs) \<and> live q ys = live p us \<union> set (objects p (1 + widths us + n) vs)"
  using free_whole_layout[OF assms] by (elim exE conjE) (intro exI conjI; assumption)

lemma live_remove:
  assumes inv: "heap_inv p (us @ s # vs)" and us: "us \<noteq> []" and o: "(a, c) \<in> set (seg_objects p (1 + widths us) s)"
    and s': "set (seg_objects p (1 + widths us) s') = set (seg_objects p (1 + widths us) s) - {(a, c)}" "width s' = width s"
  shows "live p (us @ s' # vs) = live p (us @ s # vs) - {(a, c)}"
    "live p us \<union> set (objects p (1 + widths us + width s) vs) \<subseteq> live p (us @ s # vs) - {(a, c)}"
proof -
  note V = live_split[OF inv us]
  have "(a, c) \<notin> live p us" "(a, c) \<notin> set (objects p (1 + widths us + width s) vs)"
    using V(2)[of a c] V(3)[OF o] V(4)[of a c] by auto
  then show "live p us \<union> set (objects p (1 + widths us + width s) vs) \<subseteq> live p (us @ s # vs) - {(a, c)}"
    "live p (us @ s' # vs) = live p (us @ s # vs) - {(a, c)}"
    using V(1) s' live_append[OF us, of p "s' # vs"] by auto
qed

lemma kept_list_only:
  assumes inv: "heap_inv p xs" and l: "3 \<le> l" "l < blklog p" and only: "list_only p xs l W q" and L: "L \<subseteq> live p xs"
    and W: "\<And>a c w. (a, c) \<in> L \<Longrightarrow> w \<in> W \<Longrightarrow> \<not> (a \<le> w \<and> w < a + c)"
  shows "kept p q L"
  unfolding kept_def
proof clarify
  fix a c w assume o: "(a, c) \<in> L" "a \<le> w" "w < a + c"
  have "(a, c) \<in> live p xs" using L o(1) by blast
  note live_word[OF inv this o(2,3) l]
  moreover have "w \<notin> W" using W[OF o(1)] o(2,3) by blast
  ultimately show "mem q w = mem p w" using only unfolding list_only_def by blast
qed

lemma frags_full:
  assumes "seg_ok p (Frags l fs)" "geometry p" "length fs + 1 = 2 ^ (blklog p - l)" "j \<notin> set fs" "j < 2 ^ (blklog p - l)"
  shows "set (seg_objects p b (Frags l fs)) = {(frag_addr p l b j, 2 ^ l)}"
proof -
  let ?N = "(2::nat) ^ (blklog p - l)"
  have "set (j # fs) \<subseteq> {0..<?N}" "card (set (j # fs)) = ?N"
    using assms by (auto simp: distinct_card)
  then have "set (j # fs) = {0..<?N}" using card_subset_eq[of "{0..<?N}" "set (j # fs)"] by simp
  then have "{i. i < ?N \<and> i \<notin> set fs} = {j}" using assms(4) by (auto simp: set_eq_iff)
  then show ?thesis by (auto simp: set_eq_iff)
qed

lemma heap_free_ok:
  assumes inv: "heap_inv p xs" and o: "(a, c) \<in> live p xs"
  shows "\<exists>q ys. heap_free a p = Some q \<and> heap_inv q ys \<and> live q ys = live p xs - {(a, c)} \<and> slack q ys = slack p xs \<and>
    same_place p q \<and> kept p q (live p xs - {(a, c)})"
proof -
  obtain us s vs where x: "xs = us @ s # vs" "us \<noteq> []" "(a, c) \<in> set (seg_objects p (1 + widths us) s)"
    by (rule live_in[OF heap_invD(9)[OF inv] o])
  note inv' = inv[unfolded x(1)] and I = heap_invD[OF inv]
  note check = checks_live[OF inv' x(2,3)] and V = live_split[OF inv' x(2)]
  show ?thesis
  proof (cases s)
    case (Big n)
    obtain q ys where q: "free_blocks (1 + widths us) p = Some q" "heap_inv q ys" "table_only p q" "slack q ys = slack p xs"
      "live q ys = live p us \<union> set (objects p (1 + widths us + n) vs)"
      using free_whole[OF inv'[unfolded Big] x(2)] x(1) Big by auto
    have "live q ys = live p xs - {(a, c)}"
    proof -
      have "live p us \<union> set (objects p (1 + widths us + n) vs) = live p (us @ Free n # vs)"
        using live_append[OF x(2), of p "Free n # vs"] by simp
      also have "\<dots> = live p xs - {(a, c)}"
        using live_remove(1)[OF inv' x(2,3), of "Free n"] x(1,3) Big by simp
      finally show ?thesis using q(5) by simp
    qed
    moreover have "kept p q (live p xs - {(a, c)})" using kept_table_only[OF inv q(3)] by (auto simp: kept_def)
    moreover have "heap_free a p = Some q" using check q(1) Big by (simp add: heap_free_def)
    ultimately show ?thesis using q table_only_place by blast
  next
    case (Frags l fs)
    define B where "B = 1 + widths us"
    note invF = inv'[unfolded Frags]
    note E = frag_entries[OF invF x(2) B_def]
    obtain j where j: "j < 2 ^ (blklog p - l)" "j \<notin> set fs" "a = frag_addr p l B j" "c = 2 ^ l" using x(3) Frags B_def by auto
    have free: "heap_free a p = free_frag B l a p" using check Frags E(5) by (simp add: heap_free_def B_def)
    have apart: "\<not> (a' \<le> w \<and> w < a' + c')" if "(a', c') \<in> live p xs - {(a, c)}" "w \<in> {a, a + 4}" for a' c' w
      using live_apart[OF inv o, of a' c'] that live_bounds(3)[OF inv o] by auto
    have placed: "set (seg_objects p (1 + widths us) (Frags l gs)) = set (seg_objects p (1 + widths us) s) - {(a, c)}"
      if "set gs = insert j (set fs)" for gs
      using that j Frags frag_addr_inj[of p l B] by (auto simp: B_def)
    have finish: ?thesis if q: "free_frag B l a p = Some q" "returned p xs l {a, a + 4} q (us @ Frags l gs # vs)" and gs: "set gs = insert j (set fs)" for q gs
    proof -
      have r: "heap_inv q (us @ Frags l gs # vs)" "slack q (us @ Frags l gs # vs) = slack p xs" "same_place p q"
        "list_only p xs l {a, a + 4} q" using q(2) by (simp_all add: returned_def)
      have "live q (us @ Frags l gs # vs) = live p xs - {(a, c)}"
        using live_remove(1)[OF inv' x(2,3) placed[OF gs]] live_place[OF r(3)] x(1) Frags by simp
      moreover have "kept p q (live p xs - {(a, c)})" by (rule kept_list_only[OF inv E(5,6) r(4) Diff_subset apart])
      ultimately show ?thesis using free q(1) r by auto
    qed
    consider (last) "length fs + 1 = 2 ^ (blklog p - l)" | (first) "fs = []" "length fs + 1 \<noteq> 2 ^ (blklog p - l)" |
      (second) i fs' where "fs = i # fs'" "length fs + 1 \<noteq> 2 ^ (blklog p - l)" by (cases fs) auto
    then show ?thesis
    proof cases
      case first
      then show ?thesis using free_frag_first[OF invF[unfolded first(1)] x(2) B_def j(1,3)] finish[of _ "[j]"] x(1) Frags by auto
    next
      case second
      then show ?thesis using free_frag_second[OF invF[unfolded second(1)] x(2) B_def j(1) _ _ j(3)] finish[of _ "i # j # fs'"] j(2) x(1) Frags by auto
    next
      case last
      obtain r where r: "free_frag B l a p = Option.bind (free_checks (ADDRESS p B) r) (\<lambda>(block, _). free_blocks block r)"
        "returned p xs l {} r (us @ Big 1 # vs)" using free_frag_last[OF invF x(2) B_def last, of a] x(1) Frags by auto
      have R: "heap_inv r (us @ Big 1 # vs)" "slack r (us @ Big 1 # vs) = slack p xs" "same_place p r" "list_only p xs l {} r"
        using r(2) by (simp_all add: returned_def)
      have addr: "ADDRESS p B = base r + (1 + widths us - 1) * blksz r"
        using block_addr(1)[OF I(2), of B] E(8) R(3) by (simp add: B_def same_place_def)
      have "free_checks (ADDRESS p B) r = Some (B, 0)"
        using checks_live[OF R(1) x(2), of "ADDRESS p B" "1 * blksz r"] addr by (simp add: B_def)
      moreover obtain q ys where q: "free_blocks (1 + widths us) r = Some q" "heap_inv q ys" "table_only r q"
        "slack q ys = slack r (us @ Big 1 # vs)" "live q ys = live r us \<union> set (objects r (1 + widths us + 1) vs)"
        using free_whole[OF R(1) x(2)] by blast
      ultimately have "heap_free a p = Some q" using free r(1) by (simp add: B_def)
      moreover have gone: "live q ys = live p xs - {(a, c)}"
      proof -
        have "seg_ok p (Frags l fs)" by (rule I(7)) (simp add: x(1) Frags)
        from frags_full[OF this I(2) last j(2,1), of B] have "set (seg_objects p B s) = {(a, c)}" using Frags j by simp
        then have "live p (us @ Free 1 # vs) = live p xs - {(a, c)}"
          using live_remove(1)[OF inv' x(2,3), of "Free 1"] x(1) Frags by (simp add: B_def)
        then show ?thesis using q(5) live_append[OF x(2), of p "Free 1 # vs"] live_place[OF R(3)] objects_place[OF R(3)] by simp
      qed
      moreover have "kept p q (live p xs - {(a, c)})"
      proof (rule kept_trans)
        show "kept p r (live p xs)" by (rule kept_list_only[OF inv E(5,6) R(4) order_refl]) simp
        show "kept r q (live r (us @ Big 1 # vs))" by (rule kept_table_only[OF R(1) q(3)])
        show "live p xs - {(a, c)} \<subseteq> live r (us @ Big 1 # vs)"
          unfolding gone[symmetric] q(5) using live_append[OF x(2), of r "Big 1 # vs"] by auto
      qed blast
      ultimately show ?thesis using q R same_place_trans[OF R(3) table_only_place[OF q(3)]] by auto
    qed
  qed (use x(3) in simp)
qed

lemma heap_free_error:
  assumes "heap_inv p xs" "a \<notin> fst ` live p xs" "a \<noteq> ptr p"
  shows "heap_free a p = None"
  using checks_not_live[OF assms] by (simp add: heap_free_def)

end
