(* ===== verification/HeapGive.thy ===== *)
theory HeapGive
  imports HeapCalls
begin

text \<open>
  Allocating: the object is new, large enough and aligned, and the other objects and their words stay
  as they are. A request fails only when nothing in the pool is large enough.
\<close>

declare One_nat_def [simp del]

section \<open>The size of a fragment\<close>

lemma log_loop_bounds: "0 < k \<Longrightarrow> \<exists>d. log_loop k g = g + d \<and> 2 ^ d \<le> k \<and> k < 2 ^ (d + 1)"
proof (induction k g rule: log_loop.induct)
  case (1 k g)
  show ?case
  proof (cases "k div 2 = 0")
    case True
    then have "k = 1" using "1.prems" by simp
    then show ?thesis by (intro exI[of _ 0]) (simp add: log_loop.simps)
  next
    case False
    then have "0 < k div 2" by simp
    from "1.IH"[OF refl False this] obtain d where d: "log_loop (k div 2) (g + 1) = g + 1 + d" "2 ^ d \<le> k div 2" "k div 2 < 2 ^ (d + 1)" by blast
    have "log_loop k g = log_loop (k div 2) (g + 1)" using False by (subst log_loop.simps) (simp add: Let_def)
    moreover have "2 ^ (d + 1) \<le> k" "k < 2 ^ (d + 1 + 1)" using d(2,3) by (simp_all add: power_add)
    ultimately show ?thesis using d(1) by (intro exI[of _ "d + 1"]) simp
  qed
qed

lemma frag_log_bounds:
  assumes "2 \<le> n"
  shows "n \<le> 2 ^ frag_log n" "2 ^ (frag_log n - 1) < n" "1 \<le> frag_log n"
proof -
  have "0 < n - 1" using assms by simp
  then obtain d where "log_loop (n - 1) 1 = 1 + d" "2 ^ d \<le> n - 1" "n - 1 < 2 ^ (d + 1)" using log_loop_bounds by blast
  then show "n \<le> 2 ^ frag_log n" "2 ^ (frag_log n - 1) < n" "1 \<le> frag_log n" using assms by (simp_all add: frag_log_def add.commute)
qed

lemma frag_log_range:
  assumes "geometry p" "8 \<le> n" "n \<le> blksz p div 2"
  shows "3 \<le> frag_log n" "frag_log n < blklog p"
proof -
  note g = geometryD[OF assms(1)] and F = frag_log_bounds[of n]
  show "3 \<le> frag_log n"
  proof (rule ccontr)
    assume "\<not> 3 \<le> frag_log n"
    then have "(2::nat) ^ frag_log n \<le> 2 ^ 2" by (intro power_increasing) simp_all
    then show False using F(1) assms(2) by simp
  qed
  have "blksz p = 2 * 2 ^ (blklog p - 1)" using g(2,3) by (cases "blklog p") simp_all
  then have "n \<le> 2 ^ (blklog p - 1)" using assms(3) by simp
  moreover have "2 ^ (frag_log n - 1) < n" using F(2) assms(2) by simp
  ultimately have "(2::nat) ^ (frag_log n - 1) < 2 ^ (blklog p - 1)" by linarith
  then have "frag_log n - 1 < blklog p - 1" by simp
  then show "frag_log n < blklog p" by simp
qed

text \<open>The size of the object for a request.\<close>

definition object_size :: "pool \<Rightarrow> nat \<Rightarrow> nat" where
  "object_size p n = (if max n 8 \<le> blksz p div 2 then 2 ^ frag_log (max n 8) else BLOCKIFY p n * blksz p)"

definition request_ok :: "pool \<Rightarrow> nat \<Rightarrow> bool" where
  "request_ok p n \<longleftrightarrow> pool_top p + n + 2 * blksz p \<le> u32_lim"

lemma BLOCKIFY_ok:
  assumes geo: "geometry p" and ok: "request_ok p n" and n: "0 < n"
  shows "n \<le> BLOCKIFY p n * blksz p" "BLOCKIFY p n * blksz p < n + blksz p" "request_fits p (BLOCKIFY p n)" "0 < BLOCKIFY p n"
proof -
  note g = geometryD[OF geo]
  have "BLOCKIFY p n = (n + blksz p - 1) div blksz p"
    using ok n g(13) by (simp add: BLOCKIFY_def request_ok_def u32_simps u32_lim_def)
  moreover have "(n + blksz p - 1) div blksz p * blksz p + (n + blksz p - 1) mod blksz p = n + blksz p - 1" by (rule div_mult_mod_eq)
  moreover have "(n + blksz p - 1) mod blksz p < blksz p" using g(13) by (intro mod_less_divisor) simp
  ultimately have "n \<le> BLOCKIFY p n * blksz p \<and> BLOCKIFY p n * blksz p < n + blksz p" using n by (simp only:) linarith
  then show le: "n \<le> BLOCKIFY p n * blksz p" "BLOCKIFY p n * blksz p < n + blksz p" by blast+
  then show "request_fits p (BLOCKIFY p n)" using ok unfolding request_fits_def request_ok_def by linarith
  show "0 < BLOCKIFY p n" using le(1) n by (cases "BLOCKIFY p n") simp_all
qed

lemma object_size_bounds:
  assumes "geometry p" "request_ok p n"
  shows "n \<le> object_size p n" "object_size p n < 2 * n + 16 \<or> object_size p n < n + blksz p"
proof -
  have "n \<le> object_size p n \<and> (object_size p n < 2 * n + 16 \<or> object_size p n < n + blksz p)"
  proof (cases "max n 8 \<le> blksz p div 2")
    case True
    have "2 \<le> max n 8" by linarith
    note F = frag_log_bounds[OF this]
    have "(2::nat) ^ frag_log (max n 8) = 2 * 2 ^ (frag_log (max n 8) - 1)" using F(3) by (cases "frag_log (max n 8)") simp_all
    moreover have "object_size p n = 2 ^ frag_log (max n 8)" using True by (simp add: object_size_def)
    moreover have "n \<le> max n 8" "max n 8 \<le> n + 8" by simp_all
    ultimately show ?thesis using F(1,2) by linarith
  next
    case False
    then have "0 < n" using geometryD(13)[OF assms(1)] by auto
    from BLOCKIFY_ok[OF assms this] show ?thesis unfolding object_size_def if_not_P[OF False] by blast
  qed
  then show "n \<le> object_size p n" "object_size p n < 2 * n + 16 \<or> object_size p n < n + blksz p" by blast+
qed

section \<open>Whole blocks\<close>

definition no_room :: "pool \<Rightarrow> seg list \<Rightarrow> nat \<Rightarrow> bool" where
  "no_room p xs k \<longleftrightarrow> pool_top p \<le> heap_end p xs + k * blksz p \<and> (\<forall>m. Free m \<in> set xs \<longrightarrow> m < k)"

lemma malloc_whole:
  assumes inv: "heap_inv p xs" and k: "0 < k" "request_fits p k"
  shows "(find_blocks k (info_index p) (info p) (info_index p) p = Some (p, 0) \<and> no_room p xs k) \<or>
    (\<exists>q us vs. find_blocks k (info_index p) (info p) (info_index p) p = Some (q, ADDRESS p (1 + widths us)) \<and> us \<noteq> [] \<and>
       heap_inv q (us @ Big k # vs) \<and> table_only p q \<and> slack q (us @ Big k # vs) = slack p xs \<and>
       live p xs = live p us \<union> set (objects p (1 + widths us + k) vs))"
proof -
  note I = heap_invD[OF inv]
  have first: "\<not> is_free (hd xs)" using I(10) by simp
  from find_blocks_ok[OF I(1) k I(9) first] consider
    (none) "find_blocks k (info_index p) (info p) (info_index p) p = Some (p, 0)" "no_room p xs k" |
    (some) q us ys where "find_blocks k (info_index p) (info p) (info_index p) p = Some (q, ADDRESS p (1 + widths us))" "us \<noteq> []"
      "alloc_at k us xs ys" "blocks_inv q ys" "table_only p q" "slack q ys = slack p xs" unfolding no_room_def by blast
  then show ?thesis
  proof cases
    case some
    obtain vs where vs: "ys = us @ Big k # vs" "live p xs = live p us \<union> set (objects p (1 + widths us + k) vs)"
      "set ys \<subseteq> set xs \<union> {Big k} \<union> Collect is_free" "\<And>l. frag_segs l 1 ys = frag_segs l 1 xs" "hd ys = hd xs"
    proof -
      from some(3) consider m vs where "xs = us @ Free m # vs" "k \<le> m" "ys = us @ Big k # remainder k m @ vs"
        | m where "xs = us @ [Free m]" "ys = us @ [Big k]" | "xs = us" "ys = us @ [Big k]" unfolding alloc_at_def by blast
      then show ?thesis
      proof cases
        case (1 m vs)
        have w: "1 + widths us + k + widths (remainder k m) = 1 + widths us + m" using widths_remainder[OF 1(2)] by simp
        have "objects p (1 + widths us + k) (remainder k m @ vs) = objects p (1 + widths us + k + widths (remainder k m)) vs"
          by (simp add: remainder_def)
        also have "\<dots> = objects p (1 + widths us + m) vs" by (simp only: w)
        finally have "live p xs = live p us \<union> set (objects p (1 + widths us + k) (remainder k m @ vs))"
          using 1(1) some(2) by (simp add: live_append del: objects_append)
        moreover have "frag_segs l 1 ys = frag_segs l 1 xs" for l
          using 1 widths_remainder[OF 1(2)] by (simp add: remainder_def add.assoc)
        moreover have "set ys \<subseteq> set xs \<union> {Big k} \<union> Collect is_free" using 1 by (auto simp: remainder_def)
        ultimately show ?thesis using that[OF 1(3)] 1 some(2) by simp
      next
        case (2 m)
        then have "set ys \<subseteq> set xs \<union> {Big k} \<union> Collect is_free" by auto
        then show ?thesis using that[of "[]"] 2 some(2) by (simp add: live_append)
      next
        case 3
        then have "set ys \<subseteq> set xs \<union> {Big k} \<union> Collect is_free" by auto
        then show ?thesis using that[of "[]"] 3 some(2) by simp
      qed
    qed
    have "heap_inv q ys"
    proof (rule heap_inv_table_only[OF inv some(4,5)])
      show "ys \<noteq> []" "hd ys = hd xs" using vs(1,5) by simp_all
      show "frag_segs l 1 ys = frag_segs l 1 xs" for l by (rule vs(4))
      show "seg_ok p s" if "s \<in> set ys" for s
        using subsetD[OF vs(3) that] I(7)[of s] by (cases s) auto
    qed
    then show ?thesis using some vs(1,2) by blast
  qed blast
qed

section \<open>The call\<close>

definition exhausted :: "pool \<Rightarrow> seg list \<Rightarrow> nat \<Rightarrow> bool" where
  "exhausted p xs n \<longleftrightarrow>
    (if max n 8 \<le> blksz p div 2 then no_room p xs 1 \<and> (\<forall>fs. Frags (frag_log (max n 8)) fs \<in> set xs \<longrightarrow> fs = [])
     else no_room p xs (BLOCKIFY p n))"

lemma live_new:
  assumes inv: "heap_inv q (us @ s # vs)" and us: "us \<noteq> []" and o: "(a, c) \<in> set (seg_objects q (1 + widths us) s)"
  shows "(a, c) \<notin> live q us \<union> set (objects q (1 + widths us + width s) vs)"
  using live_split(2,4)[OF inv us, of a c] live_split(3)[OF inv us o] by auto

lemma base_block: "geometry p \<Longrightarrow> (base p + k * blksz p) mod blksz p = 0"
  using geometryD(4)[of p] by simp

lemma heap_malloc_ok:
  assumes inv: "heap_inv p xs" and n: "request_ok p n"
  shows "heap_malloc n p = Some (p, 0) \<and> exhausted p xs n \<or>
    (\<exists>q ys a. heap_malloc n p = Some (q, a) \<and> a \<noteq> 0 \<and> heap_inv q ys \<and> live q ys = insert (a, object_size p n) (live p xs) \<and>
       (a, object_size p n) \<notin> live p xs \<and> a mod min (object_size p n) (blksz p) = 0 \<and> slack q ys = slack p xs \<and>
       same_place p q \<and> kept p q (live p xs))"
proof -
  note I = heap_invD[OF inv]
  note g = geometryD[OF I(2)]
  have max: "n \<noteq> UINT_MAX" using n g(5,6,13) by (simp add: request_ok_def u32_lim_def)
  show ?thesis
  proof (cases "max n 8 \<le> blksz p div 2")
    case big: False
    then have n8: "max n 8 = n" "0 < n" using g(13) by auto
    note F = BLOCKIFY_ok[OF I(2) n n8(2)]
    let ?k = "BLOCKIFY p n"
    have call: "heap_malloc n p = find_blocks ?k (info_index p) (info p) (info_index p) p"
      using max big n8 by (simp add: heap_malloc_def malloc_blocks_def Let_def)
    have size: "object_size p n = ?k * blksz p" unfolding object_size_def using big by (rule if_not_P)
    from malloc_whole[OF inv F(4,3)] consider
      (none) "find_blocks ?k (info_index p) (info p) (info_index p) p = Some (p, 0)" "no_room p xs ?k"
      | (some) q us vs where "find_blocks ?k (info_index p) (info p) (info_index p) p = Some (q, ADDRESS p (1 + widths us))" "us \<noteq> []"
         "heap_inv q (us @ Big ?k # vs)" "table_only p q" "slack q (us @ Big ?k # vs) = slack p xs"
         "live p xs = live p us \<union> set (objects p (1 + widths us + ?k) vs)" by blast
    then show ?thesis
    proof cases
      case none
      then show ?thesis using call unfolding exhausted_def if_not_P[OF big] by simp
    next
      case some
      let ?a = "ADDRESS p (1 + widths us)"
      have "1 + widths us < info_size q" using seg_block(4)[OF some(3,2)] .
      then have a: "?a = base p + (1 + widths us - 1) * blksz p"
        using block_addr(1)[OF I(2), of "1 + widths us"] table_onlyD(5)[OF some(4)] by simp
      note place = table_only_place[OF some(4)]
      have obj: "set (seg_objects q (1 + widths us) (Big ?k)) = {(?a, object_size p n)}"
        using a size place by (simp add: same_place_def)
      have "live q (us @ Big ?k # vs) = insert (?a, object_size p n) (live p xs)"
        using live_split(1)[OF some(3,2)] obj some(6) live_place[OF place] objects_place[OF place] by auto
      moreover have "(?a, object_size p n) \<notin> live p xs"
        using live_new[OF some(3,2), of ?a "object_size p n"] obj some(6) live_place[OF place] objects_place[OF place] by simp
      moreover have "?a mod min (object_size p n) (blksz p) = 0"
      proof -
        have "blksz p \<le> object_size p n" using F(4) size by simp
        then show ?thesis using base_block[OF I(2)] a by (simp add: min_absorb2)
      qed
      moreover have "?a \<noteq> 0" using a g(5) by simp
      moreover have "heap_malloc n p = Some (q, ?a)" using call some(1) by simp
      moreover note some(3,5) place kept_table_only[OF inv some(4)]
      ultimately show ?thesis by (intro disjI2 exI[of _ q] exI[of _ "us @ Big ?k # vs"] exI[of _ ?a] conjI)
    qed
  next
    case small: True
    define m where "m = max n 8"
    have m: "8 \<le> m" "m \<le> blksz p div 2" using small by (simp_all add: m_def)
    define l where "l = frag_log m"
    note l = frag_log_range[OF I(2) m, folded l_def] and H = head_facts[OF I(2), of l]
    have size: "object_size p n = 2 ^ l" using small by (simp add: object_size_def l_def m_def)
    have lsize: "min (object_size p n) (blksz p) = 2 ^ l"
      using size l g(2) by (simp add: min_absorb1)
    have aligned: "frag_addr p l b i mod 2 ^ l = 0" for b i
    proof -
      have "(2::nat) ^ l dvd blksz p" using frag_count_facts(3)[OF I(2) l(2)] by (metis dvd_triv_right)
      moreover have "blksz p dvd base p" using g(4) by (simp add: mod_eq_0_iff_dvd)
      ultimately have "2 ^ l dvd base p" "(2::nat) ^ l dvd blksz p" using dvd_trans by blast+
      then have "2 ^ l dvd frag_addr p l b i" unfolding frag_addr_def by (intro dvd_add) simp_all
      then show ?thesis by simp
    qed
    show ?thesis
    proof (cases "next_of p (frag_head p l) = 0")
      case False
      obtain us i fs vs q where q: "xs = us @ Frags l (i # fs) # vs" "us \<noteq> []" "next_of p (frag_head p l) = frag_addr p l (1 + widths us) i"
        "pop_frag (info p) l (next_of p (frag_head p l)) p = q" "heap_inv q (us @ Frags l fs # vs)" "slack q (us @ Frags l fs # vs) = slack p xs"
        "same_place p q" "\<And>a. \<not> in_table p a \<Longrightarrow> a \<noteq> frag p + 8 * l \<Longrightarrow> a \<notin> nodes (addrs p l (frag_segs l 1 xs)) \<Longrightarrow> mem q a = mem p a"
        using pop_frag_ok[OF inv l refl False] by blast
      let ?a = "next_of p (frag_head p l)"
      have call: "heap_malloc n p = Some (q, ?a)"
        using max small False q(4) by (simp add: heap_malloc_def Let_def l_def m_def)
      note ok = frag_entries(9,10)[OF inv[unfolded q(1)] q(2) refl]
      have new: "(?a, 2 ^ l) \<in> set (seg_objects q (1 + widths us) (Frags l fs))"
        unfolding seg_objects_place[OF q(7)] using ok q(3) by auto
      have rest: "set (seg_objects p (1 + widths us) (Frags l (i # fs))) = set (seg_objects p (1 + widths us) (Frags l fs)) - {(?a, 2 ^ l)}"
        using q(3) frag_addr_inj[of p l "1 + widths us"] by auto
      have "live q (us @ Frags l (i # fs) # vs) = live q (us @ Frags l fs # vs) - {(?a, 2 ^ l)}"
        by (rule live_remove(1)[OF q(5,2) new], unfold seg_objects_place[OF q(7)], rule rest) simp
      then have "live p xs = live q (us @ Frags l fs # vs) - {(?a, 2 ^ l)}"
        unfolding q(1) using live_place[OF q(7), of "us @ Frags l (i # fs) # vs"] by (simp only:)
      moreover have "(?a, 2 ^ l) \<in> live q (us @ Frags l fs # vs)" using live_split(1)[OF q(5,2)] new by blast
      ultimately have "live q (us @ Frags l fs # vs) = insert (?a, 2 ^ l) (live p xs)" "(?a, 2 ^ l) \<notin> live p xs" by blast+
      moreover have "list_only p xs l {} q" using q(8) by (simp add: list_only_def)
      then have "kept p q (live p xs)" by (rule kept_list_only[OF inv l _ order_refl]) simp
      moreover have "?a mod 2 ^ l = 0" using aligned q(3) by simp
      moreover note call False q(5-7)
      ultimately show ?thesis unfolding lsize unfolding size
        by (intro disjI2 exI[of _ q] exI[of _ "us @ Frags l fs # vs"] exI[of _ ?a] conjI)
    next
      case empty: True
      have one: "BLOCKIFY p (max (blksz p) 8) = 1"
      proof -
        have "(blksz p + blksz p - 1) div blksz p = 1" using g(13) by (intro div_nat_eqI) simp_all
        then show ?thesis using g(13,15) by (simp add: BLOCKIFY_def max_absorb1 u32_simps u32_lim_def)
      qed
      have fits: "request_fits p 1" using n by (simp add: request_fits_def request_ok_def)
      have call: "heap_malloc n p = Option.bind (find_blocks 1 (info_index p) (info p) (info_index p) p)
        (\<lambda>(q, result). Some (if result = 0 then (q, 0) else (split_block (info p) l result q, result)))"
        using max small empty unfolding l_def m_def by (simp add: heap_malloc_def malloc_blocks_def Let_def one)
      from malloc_whole[OF inv _ fits] consider
        (none) "find_blocks 1 (info_index p) (info p) (info_index p) p = Some (p, 0)" "no_room p xs 1"
        | (some) q us vs where "find_blocks 1 (info_index p) (info p) (info_index p) p = Some (q, ADDRESS p (1 + widths us))" "us \<noteq> []"
           "heap_inv q (us @ Big 1 # vs)" "table_only p q" "slack q (us @ Big 1 # vs) = slack p xs"
           "live p xs = live p us \<union> set (objects p (1 + widths us + 1) vs)" by fastforce
      then show ?thesis
      proof cases
        case none
        have "fs = []" if f: "Frags l fs \<in> set xs" for fs
        proof (rule ccontr)
          assume "fs \<noteq> []"
          obtain us vs where x: "xs = us @ Frags l fs # vs" using f by (meson split_list)
          then have us: "us \<noteq> []" using I(10) by auto
          obtain as bs where "chain (mem p) (frag p + 8 * l) (addrs p l as @ map (frag_addr p l (1 + widths us)) fs @ addrs p l bs)"
            by (rule frags_at[OF inv[unfolded x] us \<open>fs \<noteq> []\<close> refl])
          moreover have "mem p (frag p + 8 * l) = 0" using empty H(2) l(2) by (simp add: next_of_def)
          ultimately have "addrs p l as @ map (frag_addr p l (1 + widths us)) fs @ addrs p l bs = []"
            by (cases "addrs p l as @ map (frag_addr p l (1 + widths us)) fs @ addrs p l bs") simp_all
          then show False using \<open>fs \<noteq> []\<close> by simp
        qed
        then show ?thesis using none call small by (simp add: exhausted_def l_def m_def)
      next
        case some
        let ?b = "1 + widths us"
        note J = heap_invD[OF some(3)]
        have place: "same_place p q" by (rule table_only_place[OF some(4)])
        have sp: "info q = info p" "blklog q = blklog p" "ADDRESS q ?b = ADDRESS p ?b" "blksz q = blksz p"
          using place by (simp_all add: same_place_def ADDRESS_def)
        have lq: "l < blklog q" using l sp by simp
        let ?s = "Frags l (rev [1..<2 ^ (blklog q - l)])"
        obtain r where r: "split_block (info q) l (ADDRESS q ?b) q = r" "heap_inv r (us @ ?s # vs)" "slack r (us @ ?s # vs) = slack q (us @ Big 1 # vs)"
          "same_place q r" "list_only q (us @ Big 1 # vs) l {a. in_block q ?b a} r"
          using split_block_ok[OF some(3,2) l(1) lq refl] by blast
        have place': "same_place p r" by (rule same_place_trans[OF place r(4)])
        have "?b < info_size q" using seg_block(4)[OF some(3,2)] .
        then have a: "ADDRESS p ?b = frag_addr p l ?b 0"
          using block_first(1)[OF some(3,2) refl, of l] sp place by (simp add: frag_addr_def same_place_def)
        have nz: "ADDRESS p ?b \<noteq> 0" using a g(5) by (simp add: frag_addr_def)
        have c: "heap_malloc n p = Some (r, ADDRESS p ?b)" using call some(1) nz r(1) sp by simp
        have obj: "set (seg_objects r ?b ?s) = {(ADDRESS p ?b, 2 ^ l)}"
        proof -
          have "{i. i < 2 ^ (blklog p - l) \<and> i \<notin> set (rev [1..<2 ^ (blklog p - l)])} = {0::nat}" by auto
          then show ?thesis unfolding seg_objects_place[OF place'] using sp a by (auto simp: set_eq_iff)
        qed
        have "live r (us @ ?s # vs) = insert (ADDRESS p ?b, 2 ^ l) (live p xs)"
          using live_split(1)[OF r(2) some(2)] obj some(6) live_place[OF place'] objects_place[OF place'] by simp
        moreover have "(ADDRESS p ?b, 2 ^ l) \<notin> live p xs"
          using live_new[OF r(2) some(2), of "ADDRESS p ?b" "2 ^ l"] obj some(6) live_place[OF place'] objects_place[OF place'] by simp
        moreover have "kept p r (live p xs)"
        proof (rule kept_trans[OF kept_table_only[OF inv some(4)]])
          have L: "live p xs = live q us \<union> set (objects q (?b + width (Big 1)) vs)"
            using some(6) live_place[OF place] objects_place[OF place] by simp
          show "kept q r (live p xs)"
          proof (rule kept_list_only[OF some(3) l(1) lq r(5)])
            show "live p xs \<subseteq> live q (us @ Big 1 # vs)" unfolding L live_split(1)[OF some(3,2)] by blast
            fix a' c' w assume o: "(a', c') \<in> live p xs" "w \<in> {a. in_block q ?b a}"
            then have w: "base q + widths us * blksz q \<le> w" "w < base q + (widths us + 1) * blksz q"
              by (simp_all add: in_block_def add.commute)
            from o(1) consider "(a', c') \<in> live q us" | "(a', c') \<in> set (objects q (?b + width (Big 1)) vs)" unfolding L by blast
            then show "\<not> (a' \<le> w \<and> w < a' + c')"
            proof cases
              case 1
              from live_split(2)[OF some(3,2) this] show ?thesis using w by linarith
            next
              case 2
              from live_split(4)[OF some(3,2) this] show ?thesis using w by (simp only: width.simps) linarith
            qed
          qed
        qed blast+
        moreover have "ADDRESS p ?b mod 2 ^ l = 0" using a aligned by simp
        moreover have "slack r (us @ ?s # vs) = slack p xs" using r(3) some(5) by (rule trans)
        moreover note c r(2) place' nz
        ultimately show ?thesis unfolding lsize unfolding size
          by (intro disjI2 exI[of _ r] exI[of _ "us @ ?s # vs"] exI[of _ "ADDRESS p ?b"] conjI)
      qed
    qed
  qed
qed

end
