(* ===== verification/HeapInit.thy ===== *)
theory HeapInit
  imports HeapGive
begin

text \<open>
  Creating a pool establishes the invariant with nothing allocated, for areas that do not start at
  a multiple of the block size, so that the structure of the pool and its table share the first block.
\<close>

declare One_nat_def [simp del]

section \<open>Areas\<close>

text \<open>
  The structure of the pool fits before the first block boundary after the start of the area, the table
  into the blocks after it, and there are addresses left above the area.
\<close>

definition area_ok :: "nat \<Rightarrow> nat \<Rightarrow> nat \<Rightarrow> bool" where
  "area_ok start len log \<longleftrightarrow> 5 \<le> log \<and> log \<le> 20 \<and> start mod 4 = 0 \<and> 2147483648 \<le> start \<and>
     0 < start mod 2 ^ log \<and> start mod 2 ^ log + 60 + 8 * log \<le> 2 ^ log \<and>
     2 ^ log \<le> 32 * (len div 2 ^ log) \<and> 16 * (len div 2 ^ log) + 2 * 2 ^ log \<le> len \<and>
     start + len + 32 * (len div 2 ^ log) + 2 * 2 ^ log \<le> u32_lim"

lemma ALIGN_small: "0 < a \<Longrightarrow> x + a < u32_lim \<Longrightarrow> ALIGN x a = (x + a - 1) div a * a"
  by (simp add: ALIGN_def u32_simps)

lemma ALIGN_id: "0 < a \<Longrightarrow> x mod a = 0 \<Longrightarrow> x + a < u32_lim \<Longrightarrow> ALIGN x a = x"
proof -
  assume a: "0 < a" "x mod a = 0" "x + a < u32_lim"
  have "x + a - 1 = (a - 1) + x" using a(1) by simp
  moreover have "((a - 1) + x) div a = (a - 1) div a + x div a" using a(2) by (simp add: mod_eq_0_iff_dvd div_plus_div_distrib_dvd_right)
  moreover have "(a - 1) div a = 0" using a(1) by simp
  ultimately show ?thesis using a ALIGN_small[OF a(1,3)] by (simp add: mod_eq_0_iff_dvd)
qed

lemma ALIGN_DOWN_ok:
  assumes "0 < a" "a \<le> x + 1" "x + a < u32_lim"
  shows "ALIGN_DOWN x a = x div a * a"
proof -
  have "u32_sub x (a - 1) = x - (a - 1)" using assms by (simp add: u32_simps)
  moreover have "x - (a - 1) + a < u32_lim" using assms by simp
  moreover have "x - (a - 1) + a - 1 = x" using assms by simp
  ultimately show ?thesis using ALIGN_small[of a "x - (a - 1)"] assms(1) by (simp add: ALIGN_DOWN_def)
qed

section \<open>Clearing memory\<close>

lemma mem_zero_word:
  assumes "d mod 4 = 0" "n mod 4 = 0" "w mod 4 = 0"
  shows "mem_zero d n m w = (if d \<le> w \<and> w < d + n then 0 else m w)"
proof -
  have in_range: "d \<le> w \<and> w + 3 < d + n" if "d < w + 4" "w < d + n" using that assms by presburger
  show ?thesis
  proof (cases "d < w + 4 \<and> w < d + n")
    case True
    then have r: "d \<le> w" "w + 3 < d + n" using in_range by blast+
    then have "mem_zero d n m w = word_from_bytes (\<lambda>k. if d \<le> w + k \<and> w + k < d + n then 0 else byte_at m (w + k))"
      using True assms(3) by (simp add: mem_zero_def mem_put_def)
    also have "\<dots> = 0" using r by (simp add: word_from_bytes_def)
    finally show ?thesis using r by simp
  next
    case False
    then have "mem_zero d n m w = m w" unfolding mem_zero_def mem_put_def by auto
    then show ?thesis using False by auto
  qed
qed

section \<open>The new pool\<close>

lemma pool_init_ok:
  assumes area: "area_ok start len log"
  shows "\<exists>p. pool_init start len log m = Some p \<and> heap_inv p [Big (table_blocks p)] \<and>
    pool_top p = start + len div 2 ^ log * 2 ^ log \<and> blklog p = log \<and> base p = start - start mod 2 ^ log + 2 ^ log \<and>
    chunks_used p = 1 \<and> bytes_used p = of_nat (16 * (len div 2 ^ log)) \<and> chunks_free p = 0 \<and> bytes_free p = 0 \<and>
    (\<forall>w. w mod 4 = 0 \<longrightarrow> w < start \<or> pool_top p \<le> w \<longrightarrow> mem p w = m w)"
proof -
  define sz where "sz = (2::nat) ^ log"
  define k where "k = len div sz"
  define r where "r = start mod sz"
  define i where "i = start - r + sz"
  define head where "head = 60 + log * 8"
  note A = area[unfolded area_ok_def, folded sz_def, folded k_def r_def]
  have log: "5 \<le> log" "log \<le> 20" and al: "start mod 4 = 0" "2147483648 \<le> start" and r0: "0 < r" "r + head \<le> sz"
    and rooms: "sz \<le> 32 * k" "16 * k + 2 * sz \<le> len" "start + len + 32 * k + 2 * sz \<le> u32_lim"
    using A by (simp_all add: head_def algebra_simps)
  have sz: "32 \<le> sz" "32 dvd sz"
  proof -
    have "(2::nat) ^ 5 \<le> 2 ^ log" by (rule power_increasing[OF log(1)]) simp
    then show "32 \<le> sz" by (simp add: sz_def)
    show "32 dvd sz" using le_imp_power_dvd[OF log(1), of "2::nat"] by (simp add: sz_def)
  qed
  have r_lt: "r < sz" "r \<le> start" using sz(1) by (simp_all add: r_def)
  have i_al: "i mod sz = 0" "start < i" "start + head \<le> i" "i \<le> start + sz"
  proof -
    have "start - r = start div sz * sz" by (simp add: r_def minus_mod_eq_div_mult)
    then show "i mod sz = 0" by (simp add: i_def)
    show "start < i" "i \<le> start + sz" "start + head \<le> i" using r0 r_lt by (simp_all add: i_def)
  qed
  have dvd4: "4 dvd sz" using dvd_trans[of 4 32 sz] sz(2) by simp
  have i4: "i mod 4 = 0"
  proof -
    have "sz dvd i" using i_al(1) by (simp add: mod_eq_0_iff_dvd)
    then show ?thesis using dvd4 dvd_trans by (metis mod_eq_0_iff_dvd)
  qed
  have ksz: "k * sz \<le> len" "len < k * sz + sz"
  proof -
    show "k * sz \<le> len" by (simp add: k_def)
    have "len mod sz < sz" using sz(1) by (intro mod_less_divisor) simp
    then show "len < k * sz + sz" using div_mult_mod_eq[of len sz] unfolding k_def by linarith
  qed
  have room: "16 * k + sz < k * sz" "0 < k" using rooms(2) ksz sz(1) by (auto intro: ccontr)
  define top where "top = start + k * sz"
  define bytes where "bytes = 16 * k"
  have top: "top < u32_lim" "top + 32 * k \<le> u32_lim" "i + bytes < top" "top mod sz = r"
  proof -
    show "top < u32_lim" "top + 32 * k \<le> u32_lim" using rooms(3) ksz(1) sz(1) by (simp_all add: top_def)
    show "i + bytes < top" using i_al(4) room(1) by (simp add: top_def bytes_def)
    show "top mod sz = r" by (simp add: top_def r_def)
  qed
  let ?m0 = "mem_zero start head m"
  define p0 where "p0 = \<lparr>base = 0, pool_top = top, ptr = start + head, pool_size = 0, info = 0, info_end = 0,
              info_size = k, info_index = 0, info_limit = 0, chunks_used = 0, bytes_used = 0, chunks_free = 0,
              bytes_free = 0, blklog = log, blksz = sz, frag = start + 60, mem = ?m0\<rparr>"
  define p1 where "p1 = p0\<lparr>ptr := i + bytes\<rparr>"
  have align: "heap_align bytes p0 = (p1, i)"
  proof -
    have s1: "heap_sbrk bytes p0 = (p0\<lparr>ptr := start + head + bytes\<rparr>, start + head)"
    proof -
      have "u32_add (start + head) bytes = start + head + bytes" "start + head + bytes < top"
        using i_al(3) top by (simp_all add: u32_simps)
      then show ?thesis by (simp add: heap_sbrk_def p0_def)
    qed
    have not_max: "bytes \<noteq> UINT_MAX" using rooms(3) al(2) by (simp add: bytes_def u32_lim_def)
    have md: "(start + head) mod sz = (r + head) mod sz" by (simp add: r_def mod_add_left_eq)
    show ?thesis
    proof (cases "r + head = sz")
      case True
      then have "(start + head) mod sz = 0" "start + head = i" using md r_lt by (simp_all add: i_def)
      then show ?thesis unfolding heap_align_def s1 case_prod_conv if_not_P[OF not_max]
        using al(2) by (simp add: Let_def p0_def p1_def)
    next
      case False
      then have m: "(start + head) mod sz = r + head" "start + head + (sz - (r + head)) = i"
        using md r0 r_lt by (simp_all add: i_def)
      have "u32_add (start + head + bytes) (sz - (r + head)) = i + bytes" "u32_add (start + head) (sz - (r + head)) = i"
        using m(2) top i_al by (simp_all add: u32_simps)
      then have s2: "heap_sbrk (sz - (r + head)) (p0\<lparr>ptr := start + head + bytes\<rparr>) = (p1, start + head + bytes)"
        using top(3) by (simp add: heap_sbrk_def p0_def p1_def)
      have "r + head \<noteq> 0" using r0 by simp
      moreover have "blksz (p0\<lparr>ptr := start + head + bytes\<rparr>) = sz" "start + head \<noteq> 0" using al(2) by (simp_all add: p0_def)
      ultimately show ?thesis unfolding heap_align_def s1 case_prod_conv if_not_P[OF not_max] Let_def
        using s2 \<open>u32_add (start + head) (sz - (r + head)) = i\<close> m(1) al(2) by simp
    qed
  qed
  define p2 where "p2 = p1\<lparr>info := i, info_end := i + bytes, base := i, pool_size := top - i,
                       bytes_used := of_nat bytes, chunks_used := 1, mem := mem_zero i bytes ?m0\<rparr>"
  define t where "t = table_blocks p2"
  have t_eq: "t = (bytes + sz - 1) div sz" by (simp add: t_def table_blocks_def p2_def p1_def p0_def bytes_def)
  have "bytes + sz < u32_lim" using rooms(2,3) sz(1) by (simp add: bytes_def)
  then have t_fy: "BLOCKIFY p2 bytes = t" using sz(1) by (simp add: BLOCKIFY_def t_eq p2_def p1_def p0_def u32_simps)
  define p where "p = mark_object i 1 t p2"
  have init: "pool_init start len log m = Some p"
  proof -
    have "u32_sub len (start mod 4) = len" using al rooms(3) by (simp add: u32_simps)
    moreover have "ALIGN start 4 = start" using al rooms(3) sz(1) by (intro ALIGN_id) simp_all
    moreover have "ALIGN_DOWN len sz = k * sz"
      unfolding k_def using sz(1) rooms(2,3) al(2) by (intro ALIGN_DOWN_ok) simp_all
    moreover have "u32_add start (k * sz) = top" "u32_add start head = start + head"
      using top i_al by (simp_all add: top_def u32_simps)
    moreover have "u32_mul k 16 = bytes" using top i_al by (simp add: u32_mul_def bytes_def)
    moreover have "u32_add i bytes = i + bytes" "u32_sub top i = top - i" using top i_al by (simp_all add: u32_simps)
    moreover have "BLOCK p2 i = 1" using top i_al sz(1) by (simp add: BLOCK_def p2_def p1_def p0_def u32_simps)
    moreover have "i \<noteq> 0" using i_al(2) by simp
    moreover have "pool_top p1 = top" "mem p1 = ?m0" by (simp_all add: p1_def p0_def)
    ultimately show ?thesis
      unfolding pool_init_def sz_def[symmetric] k_def[symmetric] head_def[symmetric]
      by (simp only: Let_def p0_def[symmetric] align case_prod_conv if_False p2_def[symmetric] t_fy p_def)
  qed
  have P: "base p = i" "info p = i" "pool_top p = top" "blksz p = sz" "blklog p = log" "info_size p = k" "info_end p = i + bytes"
    "frag p = start + 60" "ptr p = i + bytes" "info_limit p = 0" "info_index p = 0" "chunks_used p = 1" "bytes_used p = of_nat bytes"
    "chunks_free p = 0" "bytes_free p = 0"
    by (simp_all add: p_def p2_def p1_def p0_def)
  have tk: "(top - i) div sz + 1 = k"
  proof -
    have "top - i = (k - 1) * sz + r" using room i_al r_lt by (simp add: top_def i_def diff_mult_distrib)
    then have "(top - i) div sz = k - 1" using r_lt sz(1) by simp
    then show ?thesis using room(2) by simp
  qed
  have frag4: "(start + 60) mod 4 = 0" using al(1) by presburger
  have geo: "geometry p"
    unfolding geometry_def P
    using frag4 log al i_al top tk rooms(1) sz(1) by (simp add: sz_def[symmetric] bytes_def head_def)
  note g = geometryD[OF geo]
  have tb: "table_blocks p = t" by (simp add: t_eq table_blocks_def P bytes_def)
  have tt: "bytes \<le> t * sz" "t * sz < bytes + sz" "0 < t"
  proof -
    have "t * sz + (bytes + sz - 1) mod sz = bytes + sz - 1" unfolding t_eq by (rule div_mult_mod_eq)
    moreover have "(bytes + sz - 1) mod sz < sz" using sz(1) by (intro mod_less_divisor) simp
    ultimately have "bytes \<le> t * sz \<and> t * sz < bytes + sz" using sz(1) by linarith
    then show "bytes \<le> t * sz" "t * sz < bytes + sz" by blast+
    then show "0 < t" using room(2) by (cases t) (simp_all add: bytes_def)
  qed
  have end_le: "i + t * sz \<le> top"
  proof -
    have "t * sz < k * sz" using tt(2) room(1) unfolding bytes_def by linarith
    then have "t < k" by simp
    then have "t * sz \<le> (k - 1) * sz" by (intro mult_le_mono1) simp
    then show ?thesis using i_al(4) room by (simp add: top_def diff_mult_distrib)
  qed
  have t_lt: "t < k"
  proof -
    have "t * sz < k * sz" using tt(2) room(1) unfolding bytes_def by linarith
    then show ?thesis by simp
  qed
  have fits: "table_fits p2" using g(12) by (simp add: p_def)
  have T2: "tbl p2 c j = 0" for c j
  proof (cases "c < k \<and> j < 4")
    case True
    have ad: "entry_addr i c j = i + 16 * c + 4 * j"
      using entry_addr_in[OF fits, of c j] True by (simp add: p2_def p1_def p0_def)
    have "bytes mod 4 = 0" "(i + 16 * c + 4 * j) mod 4 = 0" using i4 by (simp_all add: bytes_def mod_add_eq[symmetric] mod_mult_left_eq[symmetric])
    then show ?thesis using True mem_zero_word[OF i4, of bytes "i + 16 * c + 4 * j" ?m0] ad
      by (simp add: tbl_def entry_def p2_def p1_def p0_def bytes_def)
  qed (auto simp: tbl_def p2_def p1_def p0_def)
  have T: "tbl p c j = (if 1 \<le> c \<and> c < 1 + t \<and> j < 3 then object_word 1 t c j else 0)" for c j
  proof -
    have "1 + t \<le> info_size p2" "i = info p2" "t < u32_lim" using t_lt g(14) by (simp_all add: p2_def p1_def p0_def P u32_lim_def)
    then have "tbl (mark_object i 1 t p2) c j = (if 1 \<le> c \<and> c < 1 + t \<and> j < 3 then object_word 1 t c j else tbl p2 c j)"
      using tbl_mark_object(1)[OF fits] tt(3) by blast
    then show ?thesis by (simp only: p_def T2)
  qed
  have only: "table_only p2 p" unfolding p_def
    by (rule tbl_mark_object(2)[OF fits]) (use t_lt g(14) tt(3) in \<open>simp_all add: p2_def p1_def p0_def P u32_lim_def\<close>)
  have memp: "mem p w = mem_zero i bytes ?m0 w" if "\<not> in_table p w" for w
  proof -
    have "\<not> in_table p2 w" using that table_only_place[OF only] by (simp add: in_table_def same_place_def)
    from table_onlyD(9)[OF only this] show ?thesis by (simp add: p2_def)
  qed
  have tinv: "table_inv k (tbl p) [Big t]"
    unfolding table_inv_def using seg_tab_object[of t 1 "tbl p"] tt(3) t_lt g(14) T by (simp add: P)
  have he: "heap_end p [Big t] = i + t * sz" by (simp add: heap_end_def P mult.commute)
  have "ends p [Big t]" unfolding ends_def he P using tt end_le top by simp
  then have "blocks_inv p [Big t]" using geo tinv by (simp add: blocks_inv_def P)
  moreover have "list_ok p [Big t] l" if "3 \<le> l" "l < log" for l
  proof -
    have H: "\<not> in_table p (frag p + 8 * l)" "frag p + 8 * l < i" by (rule head_facts(1)[OF geo], use that P in simp) (use that P head_facts(3)[OF geo, of l] in simp)
    have mod: "(frag p + 8 * l) mod 4 = 0" "head mod 4 = 0" "bytes mod 4 = 0" using al(1) by (simp_all add: P head_def bytes_def) presburger+
    have rng: "start \<le> frag p + 8 * l \<and> frag p + 8 * l < start + head" using that by (simp add: P head_def)
    have "mem p (frag p + 8 * l) = 0"
      using memp[OF H(1)] mem_zero_word[OF i4 mod(3,1), of ?m0] mem_zero_word[OF al(1) mod(2,1), of m] H(2) rng by simp
    then show ?thesis by (simp add: list_ok_def)
  qed
  ultimately have "heap_inv p [Big (table_blocks p)]"
    using r0(1) top(4) by (simp add: heap_inv_def tb P)
  moreover have "mem p w = m w" if w: "w mod 4 = 0" "w < start \<or> top \<le> w" for w
  proof -
    have out: "\<not> (i \<le> w \<and> w < i + bytes)" "\<not> (start \<le> w \<and> w < start + head)" using w(2) top i_al by auto
    then have "\<not> in_table p w" by (simp add: in_table_def P bytes_def)
    moreover have "head mod 4 = 0" "bytes mod 4 = 0" unfolding head_def bytes_def by presburger+
    ultimately show ?thesis using memp mem_zero_word[OF i4 _ w(1)] mem_zero_word[OF al(1) _ w(1)] out by (metis (no_types, lifting))
  qed
  ultimately show ?thesis using init P by (auto simp: sz_def k_def r_def i_def top_def bytes_def)
qed

end
