(* ===== verification/Spec2Isabelle.thy ===== *)
theory Spec2Isabelle
  imports RtosList QueueProps EventGroupProps TimerProps StreamBuffer Kshm Elog AudioCopy Crc32 NecDecoder HeapInit
begin

text \<open>
  A model of the core of the HCRTOS SDK, the operating system of the HC16xx media processors: the
  kernel (\<open>kernel/source/freertos\<close>), the buffers that its drivers share, and the algorithms of some
  drivers and libraries. The program runs on one 32-bit MIPS core; \<open>size_t\<close> and pointers have 32
  bits, and the definitions say so where it matters.

  \<^bold>\<open>The kernel.\<close> Everything rests on intrusive doubly linked lists (\<open>list.c\<close>, theory \<open>RtosList\<close>, on a
  heap of items so that aliasing is that of the code). The scheduler (\<open>tasks.c\<close>, theories \<open>Tasks\<close> to
  \<open>TaskProps\<close>) uses them as sequences, which \<open>RtosList\<close> justifies: its lists are refined by the
  heap operations, with every other list left unchanged. The state of the scheduler is the record
  \<open>kernel\<close>, whose fields have the names of the static variables of the C file; a task is a number, its
  control block the record \<open>tcb\<close>. Each function of \<open>tasks.c\<close> is a function of the same name; a
  critical section, which runs without interruption, is one state transformation, and a function
  with two critical sections is two. A failed \<open>configASSERT\<close>, or a null pointer that is followed,
  is the value \<open>None\<close>. Pre-emption is explicit: \<open>portYIELD\<close> raises \<open>sw_int\<close>, and taking that
  interrupt is a step of its own. The relation \<open>call\<close> of \<open>TaskReach\<close> lists what tasks and
  interrupts may do, with the rules of the interface as premises, and \<open>reachable\<close> the states
  that result after \<open>vTaskStartScheduler\<close>; the creation of the timer task there is one of the tasks
  of \<open>create_tasks\<close>.

  Queues, semaphores and mutexes (\<open>queue.c\<close>, theories \<open>Queue\<close> to \<open>QueueProps\<close>) are a ring of items
  and two event lists of the scheduler. Their blocking functions are loops around critical
  sections, which are separate steps so that interrupts and other tasks can come between them. What
  they need of the scheduler is the locale \<open>event_lists\<close> of \<open>QueueSafe\<close>, which is interpreted on the
  scheduler's event lists. Event groups (\<open>event_groups.c\<close>, theories \<open>EventGroup\<close> and
  \<open>EventGroupProps\<close>) are a word of bits and an event list whose items hold what each task waits for; a
  function that blocks is split at the point where other tasks run. Software timers (\<open>timers.c\<close>,
  theories \<open>Timers\<close>, \<open>TimerData\<close>, \<open>TimerSteps\<close> and \<open>TimerProps\<close>) are kept by a task of the kernel in two
  sorted lists, one for each turn of the tick count; it receives commands through a queue. The
  abstract state is the agenda, the list of active timers with their expiry times as unbounded
  numbers. The functions that timers call are parameters, about which it is only assumed that they do not
  change the data of the timers directly. Stream and message buffers (\<open>stream_buffer.c\<close>,
  theory \<open>StreamBuffer\<close>) are rings of bytes with one reader and one writer, who are woken by
  notifications.

  \<^bold>\<open>Buffers.\<close> The contracts of the rings, a byte stream and a queue of packets, are the locales of the
  theory \<open>Fifo\<close>. They are interpreted on the stream and message buffers, on the ring between the
  processors (\<open>drivers/kshm/kshm.c\<close>, theory \<open>Kshm\<close>) and on the ring of the asynchronous log
  (\<open>lib/easylogger\<close>, theory \<open>Elog\<close>).

  \<^bold>\<open>Algorithms.\<close> \<open>AudioCopy\<close> has the sample converters of the audio sink (\<open>sound/copyframe_16bit.c\<close>),
  \<open>Crc32\<close> the two checksum routines (\<open>lib/crc/crc32.c\<close>), \<open>NecDecoder\<close> the infrared decoder
  and encoder (\<open>drivers/input/rc/ir-nec-decoder.c\<close>).

  \<^bold>\<open>What is shown.\<close> For the lists: each operation terminates and does what its comment says, on a
  well-formed list and with the other lists untouched. For the scheduler: an invariant of all
  reachable states under which no assertion fails and every loop ends; selection by priority and
  round robin, exact delays and time-outs across the overflow of the tick count, priority
  inheritance. For the queues: the same safety, refinement of a bounded double-ended queue under
  every interleaving, exact wake-ups after unlocking, recursive mutexes. For the event groups: setting
  bits wakes exactly the tasks whose condition holds, with the right bits. For the timers: a turn of the timer task and every command have exactly
  their effect on the agenda, across overflows of the tick count, no expiry is slept through, and a
  periodic timer does not drift. For the buffers:
  refinement of FIFO queues, and memory safety. For the algorithms: equality with a reference
  definition or the layout of the result, round trips, and bounds.

  \<^bold>\<open>Loops.\<close> Loops over lists that might not end are partial functions with values in an option
  (\<open>wake_expired\<close>, \<open>move_pending\<close>, \<open>prvReloadTimer\<close>, \<open>switch_loop\<close>), shown to return in every state
  that the invariants allow; the others are
  structural recursions over the data or over the counter of the code. No fuel is used in the kernel.

  \<^bold>\<open>Not modelled.\<close> Hardware access and the assembler of the port; stacks, heaps and the contents of
  strings that are only printed; statistics and debugging aids; options that the configuration
  switches off (queue sets, co-routines, static allocation, tickless idle, memory protection). The
  previous value that \<open>xTaskGenericNotify\<close> can return and the failure of an allocation in
  \<open>xTaskCreate\<close> are left out. Third-party code in the tree (FatFs, NuttX, LZMA, zlib, libfdt and the
  headers of newlib and FFmpeg) and drivers that consist of register accesses are not the
  subject; the list of components in the manifest names them one by one.
\<close>

end
